(* ===== verification/Prelude.thy ===== *)
theory Prelude imports Main "HOL-Library.Word" begin

text \<open>
  What every component of the development shares: the machine types of the C code (\<open>uint8_t\<close>,
  \<open>uint32_t\<close>, \<open>uint64_t\<close>), byte strings, the outcome of a call that can raise a PHP
  exception or crash the process, the little-endian layout of integers in memory, and the
  generic list and word lemmas the component theories use.
\<close>

unbundle bit_operations_syntax

type_synonym u8 = "8 word"
type_synonym u32 = "32 word"
type_synonym u64 = "64 word"
type_synonym bytes = "u8 list"

text \<open>A C \<open>double\<close> is carried as its 64-bit pattern; its arithmetic is a parameter.\<close>

type_synonym c_double = u64

named_theorems state_simps \<open>equations that unfold the operations of a component\<close>

section \<open>Outcomes\<close>

text \<open>
  A call into the extension ends in one of three ways: it returns a value, it leaves an exception
  pending (the macros \<open>DAO_CALL_METHOD\<close> and \<open>DAO_THROW_EXCEPTION_*\<close> then make the
  caller return), or it does something C leaves undefined (a null dereference, an access out of
  bounds, a division by zero), written \<open>Crash\<close>.
\<close>

datatype 'a outcome = Ret 'a | Throw string | Crash

fun is_ret :: "'a outcome \<Rightarrow> bool" where
  "is_ret (Ret _) = True"
| "is_ret _ = False"

text \<open>Sequencing of state-changing calls: an exception or a crash keeps the state reached.\<close>

fun bind_out :: "'s \<times> 'a outcome \<Rightarrow> ('s \<Rightarrow> 'a \<Rightarrow> 's \<times> 'b outcome) \<Rightarrow> 's \<times> 'b outcome" where
  "bind_out (s, Ret a) f = f s a"
| "bind_out (s, Throw e) f = (s, Throw e)"
| "bind_out (s, Crash) f = (s, Crash)"

lemma bind_out_Ret: "bind_out r f = (s', Ret b) \<Longrightarrow> \<exists>s a. r = (s, Ret a) \<and> f s a = (s', Ret b)"
  by (cases r; cases "snd r") auto

section \<open>Lists\<close>

definition hd_opt :: "'a list \<Rightarrow> 'a option" where
  "hd_opt xs = (case xs of [] \<Rightarrow> None | x # _ \<Rightarrow> Some x)"

definition last_opt :: "'a list \<Rightarrow> 'a option" where
  "last_opt xs = (if xs = [] then None else Some (last xs))"

lemma hd_opt_simps [simp]: "hd_opt [] = None" "hd_opt (x # xs) = Some x"
  by (simp_all add: hd_opt_def)

lemma last_opt_simps [simp]: "last_opt [] = None" "last_opt (xs @ [x]) = Some x"
  by (simp_all add: last_opt_def)

lemma last_opt_Cons: "last_opt (x # xs) = (if xs = [] then Some x else last_opt xs)"
  by (simp add: last_opt_def)

lemma last_opt_append: "last_opt (xs @ ys) = (if ys = [] then last_opt xs else last_opt ys)"
  by (simp add: last_opt_def)

lemma hd_opt_append: "hd_opt (xs @ ys) = (if xs = [] then hd_opt ys else hd_opt xs)"
  by (cases xs) simp_all

lemma hd_opt_eq_Some: "hd_opt xs = Some x \<longleftrightarrow> (\<exists>ys. xs = x # ys)"
  by (cases xs) auto

lemma hd_opt_eq_None [simp]: "hd_opt xs = None \<longleftrightarrow> xs = []"
  by (cases xs) simp_all

lemma last_opt_eq_Some: "last_opt xs = Some x \<longleftrightarrow> (\<exists>ys. xs = ys @ [x])"
  by (cases xs rule: rev_cases) auto

lemma last_opt_eq_None [simp]: "last_opt xs = None \<longleftrightarrow> xs = []"
  by (simp add: last_opt_def)

lemma takeWhile_all_append: "\<forall>x\<in>set xs. P x \<Longrightarrow> takeWhile P (xs @ ys) = xs @ takeWhile P ys"
  by (induction xs) auto

section \<open>Words\<close>

lemma sint_u32_small: "unat (w::u32) < 2 ^ 31 \<Longrightarrow> sint w = int (unat w)"
proof -
  assume a: "unat w < 2 ^ 31"
  have u: "uint w = int (unat w)" by simp
  have "uint w < 2 ^ 31" using a unfolding u by (metis of_nat_less_iff of_nat_numeral of_nat_power)
  then show ?thesis
    unfolding sint_uint u [symmetric]
    by (intro signed_take_bit_int_eq_self) (auto intro: order.trans [OF _ uint_ge_0])
qed

lemma sint_u64_small: "unat (w::u64) < 2 ^ 63 \<Longrightarrow> sint w = int (unat w)"
proof -
  assume a: "unat w < 2 ^ 63"
  have u: "uint w = int (unat w)" by simp
  have "uint w < 2 ^ 63" using a unfolding u by (metis of_nat_less_iff of_nat_numeral of_nat_power)
  then show ?thesis
    unfolding sint_uint u [symmetric]
    by (intro signed_take_bit_int_eq_self) (auto intro: order.trans [OF _ uint_ge_0])
qed

lemma unat_ucast_32_64 [simp]: "unat (ucast (w::u32) :: u64) = unat w"
proof -
  have "unat w < 2 ^ 64"
    using unsigned_less [of w, where 'a = nat] by (auto intro: order.strict_trans)
  then show ?thesis by (simp add: unsigned_ucast_eq take_bit_nat_eq_self)
qed

lemma unat_ucast_64_32: "unat (w::u64) < 2 ^ 32 \<Longrightarrow> unat (ucast w :: u32) = unat w"
  by (simp add: unsigned_ucast_eq take_bit_nat_eq_self)

lemma unat_ucast_8_64 [simp]: "unat (ucast (w::u8) :: u64) = unat w"
proof -
  have "unat w < 2 ^ 64"
    using unsigned_less [of w, where 'a = nat] by (auto intro: order.strict_trans)
  then show ?thesis by (simp add: unsigned_ucast_eq take_bit_nat_eq_self)
qed

lemma unat_ucast_8_32 [simp]: "unat (ucast (w::u8) :: u32) = unat w"
proof -
  have "unat w < 2 ^ 32"
    using unsigned_less [of w, where 'a = nat] by (auto intro: order.strict_trans)
  then show ?thesis by (simp add: unsigned_ucast_eq take_bit_nat_eq_self)
qed

lemma unat_ucast_to_8: "unat w < 256 \<Longrightarrow> unat (ucast (w :: 'a::len word) :: u8) = unat w"
  by (simp add: unsigned_ucast_eq take_bit_nat_eq_self)

lemma unat_u8_less: "unat (w::u8) < 256"
  using unsigned_less [of w, where 'a = nat] by simp

lemma unat_mod_less: "0 < m \<Longrightarrow> unat (x mod m) < unat m" for x m :: "'a::len word"
  by (metis unat_mono word_mod_less_divisor)

lemma xor_self_cancel [simp]: "(a XOR b) XOR b = a" for a b :: "'a::len word"
  by (simp add: xor.assoc)

section \<open>Integers in memory\<close>

text \<open>The value of a little-endian byte string, and the bytes of an integer.\<close>

definition le32 :: "bytes \<Rightarrow> u32" where
  "le32 bs = foldr (\<lambda>b acc. ucast b OR push_bit 8 acc) bs 0"

definition le64 :: "bytes \<Rightarrow> u64" where
  "le64 bs = foldr (\<lambda>b acc. ucast b OR push_bit 8 acc) bs 0"

definition le_bytes32 :: "u32 \<Rightarrow> bytes" where
  "le_bytes32 w = map (\<lambda>i. ucast (drop_bit (8 * i) w)) [0..<4]"

definition le_bytes64 :: "u64 \<Rightarrow> bytes" where
  "le_bytes64 w = map (\<lambda>i. ucast (drop_bit (8 * i) w)) [0..<8]"

lemma length_le_bytes [simp]: "length (le_bytes32 w) = 4" "length (le_bytes64 v) = 8"
  by (simp_all add: le_bytes32_def le_bytes64_def)

lemma bit_u8_less: "bit (b :: u8) n \<Longrightarrow> n < 8"
  using bit_imp_le_length [of b n] by simp

lemma le64_simps:
  "le64 [] = 0"
  "le64 (b # bs) = ucast b XOR push_bit 8 (le64 bs)"
proof -
  have "(ucast b :: u64) OR push_bit 8 w = ucast b XOR push_bit 8 w" for w
    by (rule bit_word_eqI) (auto simp: bit_simps dest: bit_u8_less)
  then show "le64 (b # bs) = ucast b XOR push_bit 8 (le64 bs)" by (simp add: le64_def)
qed (simp add: le64_def)

lemma bit_le64:
  "bit (le64 bs) n \<longleftrightarrow> n < 64 \<and> n div 8 < length bs \<and> bit (bs ! (n div 8)) (n mod 8)"
proof (induction bs arbitrary: n)
  case (Cons b bs)
  show ?case
  proof (cases "n < 8")
    case True
    then show ?thesis by (simp add: le64_simps bit_simps)
  next
    case False
    then obtain m where "n = m + 8" by (metis add.commute le_Suc_ex not_less)
    moreover have "(m + 8) div 8 = Suc (m div 8)" by simp
    ultimately show ?thesis
      by (auto simp: le64_simps bit_simps Cons.IH dest: bit_u8_less)
  qed
qed (simp add: le64_simps)

lemma le64_inj:
  assumes "le64 xs = le64 ys" "length xs = length ys" "length ys \<le> 8"
  shows "xs = ys"
proof (rule nth_equalityI)
  fix i assume i: "i < length xs"
  show "xs ! i = ys ! i"
  proof (rule bit_word_eqI)
    fix n :: nat assume n: "n < LENGTH(8)"
    let ?m = "8 * i + n"
    have m: "?m < 64" "?m div 8 = i" "?m mod 8 = n" using i n assms(2,3) by auto
    then have "bit (le64 xs) ?m = bit (xs ! i) n" "bit (le64 ys) ?m = bit (ys ! i) n"
      using i assms(2) by (simp_all add: bit_le64)
    with assms(1) show "bit (xs ! i) n = bit (ys ! i) n" by simp
  qed
qed (use assms(2) in simp)

lemma le32_simps:
  "le32 [] = 0"
  "le32 (b # bs) = ucast b XOR push_bit 8 (le32 bs)"
proof -
  have "(ucast b :: u32) OR push_bit 8 w = ucast b XOR push_bit 8 w" for w
    by (rule bit_word_eqI) (auto simp: bit_simps dest: bit_u8_less)
  then show "le32 (b # bs) = ucast b XOR push_bit 8 (le32 bs)" by (simp add: le32_def)
qed (simp add: le32_def)

lemma bit_le32:
  "bit (le32 bs) n \<longleftrightarrow> n < 32 \<and> n div 8 < length bs \<and> bit (bs ! (n div 8)) (n mod 8)"
proof (induction bs arbitrary: n)
  case (Cons b bs)
  show ?case
  proof (cases "n < 8")
    case True
    then show ?thesis by (simp add: le32_simps bit_simps)
  next
    case False
    then obtain m where "n = m + 8" by (metis add.commute le_Suc_ex not_less)
    moreover have "(m + 8) div 8 = Suc (m div 8)" by simp
    ultimately show ?thesis
      by (auto simp: le32_simps bit_simps Cons.IH dest: bit_u8_less)
  qed
qed (simp add: le32_simps)

lemma le32_le_bytes32 [simp]: "le32 (le_bytes32 w) = w"
proof (rule bit_word_eqI)
  fix n :: nat assume "n < LENGTH(32)"
  then show "bit (le32 (le_bytes32 w)) n = bit w n"
    by (auto simp: bit_le32 le_bytes32_def bit_simps)
qed

lemma le64_le_bytes64 [simp]: "le64 (le_bytes64 w) = w"
proof (rule bit_word_eqI)
  fix n :: nat assume "n < LENGTH(64)"
  then show "bit (le64 (le_bytes64 w)) n = bit w n"
    by (auto simp: bit_le64 le_bytes64_def bit_simps)
qed

lemma unat_of_nat_u32: "m < 2 ^ 32 \<Longrightarrow> unat (of_nat m :: u32) = m"
  by (simp add: unat_of_nat take_bit_nat_eq_self)

lemma unat_of_nat_u64: "m < 2 ^ 64 \<Longrightarrow> unat (of_nat m :: u64) = m"
  by (simp add: unat_of_nat take_bit_nat_eq_self)

end
