(* ===== verification/RelPointer.thy ===== *)
theory RelPointer imports Prelude begin

text \<open>
  The self-relative pointers of \<open>kernel/memory.h\<close> (\<open>dao_memory_void_value\<close>,
  \<open>dao_memory_void_set\<close>, \<open>dao_memory_void_get\<close>). The linked list, the trees and the memory
  pool of the kernel keep their links in such cells, so that a structure in shared memory can be
  mapped at another address. A cell at address \<open>p\<close> holds the distance to its target; 0 is
  NULL and \<open>INTPTR_MIN\<close> is a cell that points at itself. Addresses are 64-bit words.
\<close>

section \<open>The cell\<close>

record void_value =
  vv_offset :: u64

definition INTPTR_MIN :: u64 where
  "INTPTR_MIN = 0x8000000000000000"

definition dao_memory_void_set :: "u64 \<Rightarrow> u64 \<Rightarrow> void_value" where
  "dao_memory_void_set ptr addr =
     (if addr = ptr then \<lparr>vv_offset = INTPTR_MIN\<rparr>
      else if addr \<noteq> 0 then \<lparr>vv_offset = addr - ptr\<rparr>
      else \<lparr>vv_offset = 0\<rparr>)"

definition dao_memory_void_get :: "u64 \<Rightarrow> void_value \<Rightarrow> u64" where
  "dao_memory_void_get ptr v =
     (if INTPTR_MIN = vv_offset v then ptr
      else if vv_offset v \<noteq> 0 then ptr + vv_offset v
      else 0)"

section \<open>Round trip and relocation\<close>

text \<open>
  The only target a cell cannot hold is the one exactly half the address space away, whose
  distance is the marker for \<open>self\<close>. Two user-space addresses (below \<open>2^47\<close>) are never that
  far apart.
\<close>

definition user_addr :: "u64 \<Rightarrow> bool" where
  "user_addr a \<longleftrightarrow> unat a < 2 ^ 47"

lemma user_addr_dist: "user_addr a \<Longrightarrow> user_addr p \<Longrightarrow> a - p \<noteq> INTPTR_MIN"
proof
  assume u: "user_addr a" "user_addr p" and e: "a - p = INTPTR_MIN"
  then have "a = p + INTPTR_MIN" by (simp add: algebra_simps)
  moreover have "unat p + unat INTPTR_MIN < 2 ^ LENGTH(64)"
    using u(2) by (simp add: user_addr_def INTPTR_MIN_def)
  ultimately have "unat a = unat p + unat INTPTR_MIN"
    by (simp add: unat_word_ariths)
  then show False using u(1) by (simp add: user_addr_def INTPTR_MIN_def)
qed

lemma void_get_set_gen:
  "a = p \<or> a = 0 \<or> a - p \<noteq> INTPTR_MIN \<Longrightarrow>
   dao_memory_void_get p (dao_memory_void_set p a) = a"
  by (auto simp: dao_memory_void_get_def dao_memory_void_set_def INTPTR_MIN_def)

text \<open>
  C26. Self-relative pointer round trip: for every pair of user-space addresses (and for NULL and
  for the cell's own address), reading a cell after \<open>dao_memory_void_set\<close> gives back the
  address stored, and a cell moved to another base together with its target still points at it.
\<close>

theorem void_get_set:
  assumes "user_addr p" "user_addr a"
  shows "dao_memory_void_get p (dao_memory_void_set p a) = a \<and>
         (a \<noteq> 0 \<longrightarrow> dao_memory_void_get (p + d) (dao_memory_void_set p a) = a + d)"
proof -
  have dist: "a - p \<noteq> INTPTR_MIN" using assms by (simp add: user_addr_dist)
  then have "dao_memory_void_get p (dao_memory_void_set p a) = a"
    by (simp add: void_get_set_gen)
  moreover have "dao_memory_void_get (p + d) (dao_memory_void_set p a) = a + d" if "a \<noteq> 0"
    using dist that
    by (auto simp: dao_memory_void_get_def dao_memory_void_set_def INTPTR_MIN_def algebra_simps)
  ultimately show ?thesis by blast
qed

theorem void_get_set_witness:
  "user_addr 0x7000 \<and> user_addr 0x5010 \<and>
   dao_memory_void_get 0x7000 (dao_memory_void_set 0x7000 0x5010) = 0x5010"
  using void_get_set [of "0x7000" "0x5010" 0] by (simp add: user_addr_def)

end
