(* ===== verification/MurmurHash.thy ===== *)
theory MurmurHash imports Prelude begin

text \<open>
  \<open>kernel/murmurhash.c\<close>, the 64-bit build (\<open>ZEND_ENABLE_ZVAL_LONG64\<close>): the mixers, the three
  MurmurHash3 variants and \<open>MurmurHash2\<close> (MurmurHash64A). A key is the byte string of length
  \<open>len\<close> at the pointer \<open>key\<close>; blocks are read little-endian, as the casts to
  \<open>uint32_t *\<close> and \<open>uint64_t *\<close> do on the machines the extension targets. The fall-through
  \<open>switch\<close> over the tail is a sequence of guarded updates, longest case first.
\<close>

section \<open>Blocks and mixers\<close>

definition getblock32 :: "bytes \<Rightarrow> nat \<Rightarrow> u32" where
  "getblock32 p i = le32 (take 4 (drop (4 * i) p))"

definition getblock64 :: "bytes \<Rightarrow> nat \<Rightarrow> u64" where
  "getblock64 p i = le64 (take 8 (drop (8 * i) p))"

definition rotl32 :: "u32 \<Rightarrow> nat \<Rightarrow> u32" where
  "rotl32 x r = push_bit r x OR drop_bit (32 - r) x"

definition rotl64 :: "u64 \<Rightarrow> nat \<Rightarrow> u64" where
  "rotl64 x r = push_bit r x OR drop_bit (64 - r) x"

definition fmix32 :: "u32 \<Rightarrow> u32" where
  "fmix32 h =
     (let h = h XOR drop_bit 16 h;
          h = h * 0x85ebca6b;
          h = h XOR drop_bit 13 h;
          h = h * 0xc2b2ae35
      in h XOR drop_bit 16 h)"

definition fmix64 :: "u64 \<Rightarrow> u64" where
  "fmix64 k =
     (let k = k XOR drop_bit 33 k;
          k = k * 0xff51afd7ed558ccd;
          k = k XOR drop_bit 33 k;
          k = k * 0xc4ceb9fe1a85ec53
      in k XOR drop_bit 33 k)"

text \<open>The bytes of the tail, read through the pointer \<open>tail\<close>.\<close>

definition tail_byte :: "bytes \<Rightarrow> nat \<Rightarrow> nat \<Rightarrow> 'a::len word" where
  "tail_byte tail i sh = push_bit sh (ucast (tail ! i))"

section \<open>MurmurHash3 for x86, 32 bits\<close>

definition mm3_32_c1 :: u32 where "mm3_32_c1 = 0xcc9e2d51"
definition mm3_32_c2 :: u32 where "mm3_32_c2 = 0x1b873593"

definition mm3_32_block :: "u32 \<Rightarrow> u32 \<Rightarrow> u32" where
  "mm3_32_block h1 k1 =
     (let k1 = k1 * mm3_32_c1;
          k1 = rotl32 k1 15;
          k1 = k1 * mm3_32_c2;
          h1 = h1 XOR k1;
          h1 = rotl32 h1 13
      in h1 * 5 + 0xe6546b64)"

definition mm3_32_tail :: "u32 \<Rightarrow> bytes \<Rightarrow> u32" where
  "mm3_32_tail h1 tail =
     (let n = length tail;
          k1 = 0;
          k1 = (if n \<ge> 3 then k1 XOR tail_byte tail 2 16 else k1);
          k1 = (if n \<ge> 2 then k1 XOR tail_byte tail 1 8 else k1)
      in if n \<ge> 1 then
           (let k1 = k1 XOR tail_byte tail 0 0;
                k1 = k1 * mm3_32_c1; k1 = rotl32 k1 15; k1 = k1 * mm3_32_c2
            in h1 XOR k1)
         else h1)"

definition MurmurHash3_x86_32 :: "bytes \<Rightarrow> u32 \<Rightarrow> u32" where
  "MurmurHash3_x86_32 key seed =
     (let nblocks = length key div 4;
          h1 = fold (\<lambda>i h. mm3_32_block h (getblock32 key i)) [0..<nblocks] seed;
          h1 = mm3_32_tail h1 (drop (4 * nblocks) key);
          h1 = h1 XOR of_nat (length key)
      in fmix32 h1)"

section \<open>MurmurHash3 for x86, 128 bits\<close>

definition mm3_128_c1 :: u32 where "mm3_128_c1 = 0x239b961b"
definition mm3_128_c2 :: u32 where "mm3_128_c2 = 0xab0e9789"
definition mm3_128_c3 :: u32 where "mm3_128_c3 = 0x38b34ae5"
definition mm3_128_c4 :: u32 where "mm3_128_c4 = 0xa1e38b93"

definition mm3_128_k1 :: "u32 \<Rightarrow> u32" where
  "mm3_128_k1 k = (let k = k * mm3_128_c1; k = rotl32 k 15 in k * mm3_128_c2)"

definition mm3_128_k2 :: "u32 \<Rightarrow> u32" where
  "mm3_128_k2 k = (let k = k * mm3_128_c2; k = rotl32 k 16 in k * mm3_128_c3)"

definition mm3_128_k3 :: "u32 \<Rightarrow> u32" where
  "mm3_128_k3 k = (let k = k * mm3_128_c3; k = rotl32 k 17 in k * mm3_128_c4)"

definition mm3_128_k4 :: "u32 \<Rightarrow> u32" where
  "mm3_128_k4 k = (let k = k * mm3_128_c4; k = rotl32 k 18 in k * mm3_128_c1)"

definition mm3_128_block ::
  "u32 \<times> u32 \<times> u32 \<times> u32 \<Rightarrow> u32 \<Rightarrow> u32 \<Rightarrow> u32 \<Rightarrow> u32 \<Rightarrow> u32 \<times> u32 \<times> u32 \<times> u32" where
  "mm3_128_block h k1 k2 k3 k4 =
     (let (h1, h2, h3, h4) = h;
          h1 = h1 XOR mm3_128_k1 k1;
          h1 = rotl32 h1 19; h1 = h1 + h2; h1 = h1 * 5 + 0x561ccd1b;
          h2 = h2 XOR mm3_128_k2 k2;
          h2 = rotl32 h2 17; h2 = h2 + h3; h2 = h2 * 5 + 0x0bcaa747;
          h3 = h3 XOR mm3_128_k3 k3;
          h3 = rotl32 h3 15; h3 = h3 + h4; h3 = h3 * 5 + 0x96cd1c35;
          h4 = h4 XOR mm3_128_k4 k4;
          h4 = rotl32 h4 13; h4 = h4 + h1; h4 = h4 * 5 + 0x32ac3b17
      in (h1, h2, h3, h4))"

definition mm3_128_tail :: "u32 \<times> u32 \<times> u32 \<times> u32 \<Rightarrow> bytes \<Rightarrow> u32 \<times> u32 \<times> u32 \<times> u32" where
  "mm3_128_tail h tail =
     (let (h1, h2, h3, h4) = h;
          n = length tail;
          k4 = 0;
          k4 = (if n \<ge> 15 then k4 XOR tail_byte tail 14 16 else k4);
          k4 = (if n \<ge> 14 then k4 XOR tail_byte tail 13 8 else k4);
          h4 = (if n \<ge> 13 then h4 XOR mm3_128_k4 (k4 XOR tail_byte tail 12 0) else h4);
          k3 = 0;
          k3 = (if n \<ge> 12 then k3 XOR tail_byte tail 11 24 else k3);
          k3 = (if n \<ge> 11 then k3 XOR tail_byte tail 10 16 else k3);
          k3 = (if n \<ge> 10 then k3 XOR tail_byte tail 9 8 else k3);
          h3 = (if n \<ge> 9 then h3 XOR mm3_128_k3 (k3 XOR tail_byte tail 8 0) else h3);
          k2 = 0;
          k2 = (if n \<ge> 8 then k2 XOR tail_byte tail 7 24 else k2);
          k2 = (if n \<ge> 7 then k2 XOR tail_byte tail 6 16 else k2);
          k2 = (if n \<ge> 6 then k2 XOR tail_byte tail 5 8 else k2);
          h2 = (if n \<ge> 5 then h2 XOR mm3_128_k2 (k2 XOR tail_byte tail 4 0) else h2);
          k1 = 0;
          k1 = (if n \<ge> 4 then k1 XOR tail_byte tail 3 24 else k1);
          k1 = (if n \<ge> 3 then k1 XOR tail_byte tail 2 16 else k1);
          k1 = (if n \<ge> 2 then k1 XOR tail_byte tail 1 8 else k1);
          h1 = (if n \<ge> 1 then h1 XOR mm3_128_k1 (k1 XOR tail_byte tail 0 0) else h1)
      in (h1, h2, h3, h4))"

definition mm3_128_cross :: "u32 \<times> u32 \<times> u32 \<times> u32 \<Rightarrow> u32 \<times> u32 \<times> u32 \<times> u32" where
  "mm3_128_cross h =
     (let (h1, h2, h3, h4) = h;
          h1 = h1 + h2; h1 = h1 + h3; h1 = h1 + h4
      in (h1, h2 + h1, h3 + h1, h4 + h1))"

definition MurmurHash3_x86_128 :: "bytes \<Rightarrow> u32 \<Rightarrow> u32 \<times> u32 \<times> u32 \<times> u32" where
  "MurmurHash3_x86_128 key seed =
     (let len = of_nat (length key);
          nblocks = length key div 16;
          h = fold (\<lambda>i h. mm3_128_block h (getblock32 key (4 * i)) (getblock32 key (4 * i + 1))
                       (getblock32 key (4 * i + 2)) (getblock32 key (4 * i + 3)))
                [0..<nblocks] (seed, seed, seed, seed);
          (h1, h2, h3, h4) = mm3_128_tail h (drop (16 * nblocks) key);
          (h1, h2, h3, h4) =
            mm3_128_cross (h1 XOR len, h2 XOR len, h3 XOR len, h4 XOR len)
      in mm3_128_cross (fmix32 h1, fmix32 h2, fmix32 h3, fmix32 h4))"

section \<open>MurmurHash3 for x64, 128 bits\<close>

definition mm3_64_c1 :: u64 where "mm3_64_c1 = 0x87c37b91114253d5"
definition mm3_64_c2 :: u64 where "mm3_64_c2 = 0x4cf5ad432745937f"

definition mm3_64_k1 :: "u64 \<Rightarrow> u64" where
  "mm3_64_k1 k1 = (let k1 = k1 * mm3_64_c1; k1 = rotl64 k1 31 in k1 * mm3_64_c2)"

definition mm3_64_k2 :: "u64 \<Rightarrow> u64" where
  "mm3_64_k2 k2 = (let k2 = k2 * mm3_64_c2; k2 = rotl64 k2 33 in k2 * mm3_64_c1)"

definition mm3_64_block :: "u64 \<times> u64 \<Rightarrow> u64 \<Rightarrow> u64 \<Rightarrow> u64 \<times> u64" where
  "mm3_64_block h k1 k2 =
     (let (h1, h2) = h;
          h1 = h1 XOR mm3_64_k1 k1;
          h1 = rotl64 h1 27; h1 = h1 + h2; h1 = h1 * 5 + 0x52dce729;
          h2 = h2 XOR mm3_64_k2 k2;
          h2 = rotl64 h2 31; h2 = h2 + h1; h2 = h2 * 5 + 0x38495ab5
      in (h1, h2))"

definition mm3_64_tail :: "u64 \<times> u64 \<Rightarrow> bytes \<Rightarrow> u64 \<times> u64" where
  "mm3_64_tail h tail =
     (let (h1, h2) = h;
          n = length tail;
          k2 = 0;
          k2 = (if n \<ge> 15 then k2 XOR tail_byte tail 14 48 else k2);
          k2 = (if n \<ge> 14 then k2 XOR tail_byte tail 13 40 else k2);
          k2 = (if n \<ge> 13 then k2 XOR tail_byte tail 12 32 else k2);
          k2 = (if n \<ge> 12 then k2 XOR tail_byte tail 11 24 else k2);
          k2 = (if n \<ge> 11 then k2 XOR tail_byte tail 10 16 else k2);
          k2 = (if n \<ge> 10 then k2 XOR tail_byte tail 9 8 else k2);
          h2 = (if n \<ge> 9 then h2 XOR mm3_64_k2 (k2 XOR tail_byte tail 8 0) else h2);
          k1 = 0;
          k1 = (if n \<ge> 8 then k1 XOR tail_byte tail 7 56 else k1);
          k1 = (if n \<ge> 7 then k1 XOR tail_byte tail 6 48 else k1);
          k1 = (if n \<ge> 6 then k1 XOR tail_byte tail 5 40 else k1);
          k1 = (if n \<ge> 5 then k1 XOR tail_byte tail 4 32 else k1);
          k1 = (if n \<ge> 4 then k1 XOR tail_byte tail 3 24 else k1);
          k1 = (if n \<ge> 3 then k1 XOR tail_byte tail 2 16 else k1);
          k1 = (if n \<ge> 2 then k1 XOR tail_byte tail 1 8 else k1);
          h1 = (if n \<ge> 1 then h1 XOR mm3_64_k1 (k1 XOR tail_byte tail 0 0) else h1)
      in (h1, h2))"

definition MurmurHash3_x64_128 :: "bytes \<Rightarrow> u32 \<Rightarrow> u64 \<times> u64" where
  "MurmurHash3_x64_128 key seed =
     (let len = of_nat (length key);
          nblocks = length key div 16;
          h = fold (\<lambda>i h. mm3_64_block h (getblock64 key (2 * i)) (getblock64 key (2 * i + 1)))
                [0..<nblocks] (ucast seed, ucast seed);
          (h1, h2) = mm3_64_tail h (drop (16 * nblocks) key);
          h1 = h1 XOR len; h2 = h2 XOR len;
          h1 = h1 + h2;
          h2 = h2 + h1;
          h1 = fmix64 h1;
          h2 = fmix64 h2;
          h1 = h1 + h2;
          h2 = h2 + h1
      in (h1, h2))"

section \<open>MurmurHash2 (64 bits)\<close>

definition mm2_m :: u64 where "mm2_m = 0xc6a4a7935bd1e995"

definition mm2_block :: "u64 \<Rightarrow> u64 \<Rightarrow> u64" where
  "mm2_block h k =
     (let k = k * mm2_m;
          k = k XOR drop_bit 47 k;
          k = k * mm2_m;
          h = h XOR k
      in h * mm2_m)"

definition mm2_tail :: "u64 \<Rightarrow> bytes \<Rightarrow> u64" where
  "mm2_tail h tail =
     (let n = length tail;
          h = (if n \<ge> 7 then h XOR tail_byte tail 6 48 else h);
          h = (if n \<ge> 6 then h XOR tail_byte tail 5 40 else h);
          h = (if n \<ge> 5 then h XOR tail_byte tail 4 32 else h);
          h = (if n \<ge> 4 then h XOR tail_byte tail 3 24 else h);
          h = (if n \<ge> 3 then h XOR tail_byte tail 2 16 else h);
          h = (if n \<ge> 2 then h XOR tail_byte tail 1 8 else h)
      in if n \<ge> 1 then (h XOR tail_byte tail 0 0) * mm2_m else h)"

definition MurmurHash2 :: "bytes \<Rightarrow> u32 \<Rightarrow> u64" where
  "MurmurHash2 key seed =
     (let len = of_nat (length key);
          h = ucast seed XOR (len * mm2_m);
          nblocks = length key div 8;
          h = fold (\<lambda>i h. mm2_block h (getblock64 key i)) [0..<nblocks] h;
          h = mm2_tail h (drop (8 * nblocks) key);
          h = h XOR drop_bit 47 h;
          h = h * mm2_m
      in h XOR drop_bit 47 h)"

section \<open>What the mixing steps keep\<close>

lemma xorshift_inj:
  fixes x y :: "'a::len word"
  assumes "x XOR drop_bit r x = y XOR drop_bit r y" "0 < r"
  shows "x = y"
proof -
  let ?z = "x XOR y"
  have "?z XOR drop_bit r ?z = (x XOR drop_bit r x) XOR (y XOR drop_bit r y)"
    by (simp only: drop_bit_xor) (simp add: ac_simps)
  then have "drop_bit r ?z = ?z"
    using assms(1) by (metis xor_self_eq xor.left_neutral xor_self_cancel)
  then have e: "unat ?z div 2 ^ r = unat ?z"
    by (metis unat_drop_bit_eq drop_bit_eq_div)
  have "unat ?z = 0"
  proof (rule ccontr)
    assume "unat ?z \<noteq> 0"
    moreover have "(1::nat) < 2 ^ r" using assms(2) by (intro one_less_power) simp_all
    ultimately have "unat ?z div 2 ^ r < unat ?z" by (simp add: div_less_dividend)
    with e show False by simp
  qed
  then have "?z = 0" by (simp add: unat_eq_zero)
  then show ?thesis by (metis xor_self_cancel xor.left_neutral)
qed

lemma mult_unit_inj:
  fixes x y m i :: "'a::len word"
  assumes "x * m = y * m" "m * i = 1"
  shows "x = y"
  using assms by (metis mult.assoc mult.right_neutral)

lemma mm2_m_unit: "mm2_m * 0x5f7a0ea7e59b19bd = 1"
  by (simp add: mm2_m_def)

lemma fmix64_inj: "fmix64 x = fmix64 y \<Longrightarrow> x = y"
proof -
  have u: "(0xff51afd7ed558ccd::u64) * 0x4f74430c22a54005 = 1"
          "(0xc4ceb9fe1a85ec53::u64) * 0x9cb4b2f8129337db = 1" by simp_all
  assume "fmix64 x = fmix64 y"
  then show "x = y"
    by (auto simp: fmix64_def Let_def dest!: xorshift_inj mult_unit_inj [OF _ u(1)]
        mult_unit_inj [OF _ u(2)])
qed

lemma fmix32_inj: "fmix32 x = fmix32 y \<Longrightarrow> x = y"
proof -
  have u: "(0x85ebca6b::u32) * 0xa5cb9243 = 1" "(0xc2b2ae35::u32) * 0x7ed1b41d = 1" by simp_all
  assume "fmix32 x = fmix32 y"
  then show "x = y"
    by (auto simp: fmix32_def Let_def dest!: xorshift_inj mult_unit_inj [OF _ u(1)]
        mult_unit_inj [OF _ u(2)])
qed

section \<open>Short keys\<close>

lemma list_upto_7:
  assumes "length (t :: 'a list) \<le> 7" "t \<noteq> []"
  obtains a where "t = [a]" | a b where "t = [a, b]" | a b c where "t = [a, b, c]"
  | a b c d where "t = [a, b, c, d]" | a b c d e where "t = [a, b, c, d, e]"
  | a b c d e f where "t = [a, b, c, d, e, f]" | a b c d e f g where "t = [a, b, c, d, e, f, g]"
  using assms by (auto simp: neq_Nil_conv Suc_le_length_iff le_Suc_eq numeral_eq_Suc length_Suc_conv)

lemma mm2_tail_eq:
  assumes "length t \<le> 7"
  shows "mm2_tail h t = (if t = [] then h else (h XOR le64 t) * mm2_m)"
proof (cases "t = []")
  case False
  with assms show ?thesis
    by (cases rule: list_upto_7)
      (simp_all add: mm2_tail_def tail_byte_def le64_simps push_bit_xor ac_simps numeral_eq_Suc)
qed (simp add: mm2_tail_def)

lemma mm2_block_inj: "mm2_block h k = mm2_block h k' \<Longrightarrow> k = k'"
proof -
  assume "mm2_block h k = mm2_block h k'"
  then have "h XOR ((k * mm2_m XOR drop_bit 47 (k * mm2_m)) * mm2_m) =
             h XOR ((k' * mm2_m XOR drop_bit 47 (k' * mm2_m)) * mm2_m)"
    by (auto simp: mm2_block_def Let_def dest!: mult_unit_inj [OF _ mm2_m_unit])
  then have "(k * mm2_m XOR drop_bit 47 (k * mm2_m)) * mm2_m =
             (k' * mm2_m XOR drop_bit 47 (k' * mm2_m)) * mm2_m"
    by (metis xor.commute xor_self_cancel)
  then show ?thesis by (auto dest!: xorshift_inj mult_unit_inj [OF _ mm2_m_unit])
qed

lemma MurmurHash2_short:
  assumes "length key \<le> 8"
  shows "MurmurHash2 key seed =
    (let h0 = ucast seed XOR (of_nat (length key) * mm2_m);
         h = (if length key = 8 then mm2_block h0 (le64 key)
              else if key = [] then h0 else (h0 XOR le64 key) * mm2_m);
         h = (h XOR drop_bit 47 h) * mm2_m
     in h XOR drop_bit 47 h)"
proof -
  have "length key div 8 = (if length key = 8 then 1 else 0)" using assms by auto
  then show ?thesis
    using assms by (auto simp: MurmurHash2_def Let_def getblock64_def mm2_tail_eq)
qed

text \<open>
  \<open>MurmurHash2\<close> has no collision between keys of the same length of at most 8 bytes under
  the same seed: the uses \<open>dao_murmurhash_pointer\<close> (8 bytes) and \<open>dao_murmurhash_int\<close>
  (4 bytes) are injective. Every mixing step is invertible, the tail reads each byte once.
\<close>

theorem MurmurHash2_short_inj:
  assumes "MurmurHash2 key seed = MurmurHash2 key' seed"
    and "length key = length key'" "length key' \<le> 8"
  shows "key = key'"
proof (cases "key' = []")
  case False
  have len: "length key \<le> 8" using assms by simp
  have ne: "key \<noteq> []" using False assms(2) by auto
  let ?h0 = "ucast seed XOR (of_nat (length key') * mm2_m) :: u64"
  have "(if length key' = 8 then mm2_block ?h0 (le64 key) else (?h0 XOR le64 key) * mm2_m) =
        (if length key' = 8 then mm2_block ?h0 (le64 key') else (?h0 XOR le64 key') * mm2_m)"
    using assms(1) ne False assms(2)
    by (auto simp: MurmurHash2_short [OF len] MurmurHash2_short [OF assms(3)] Let_def
        dest!: xorshift_inj mult_unit_inj [OF _ mm2_m_unit])
  then have "le64 key = le64 key'"
    by (auto split: if_splits dest!: mm2_block_inj mult_unit_inj [OF _ mm2_m_unit])
      (metis xor.commute xor_self_cancel)
  then show ?thesis using assms(2,3) by (rule le64_inj)
qed (use assms in simp)

theorem MurmurHash2_short_inj_witness:
  "MurmurHash2 [1, 2, 3, 4] 7 = MurmurHash2 [1, 2, 3, 4] 7 \<and> ([1, 2, 3, 4] :: bytes) = [1, 2, 3, 4]"
  using MurmurHash2_short_inj [of "[1, 2, 3, 4]" 7 "[1, 2, 3, 4]"] by simp

end
