(* ===== verification/FilterSpec.thy ===== *)
theory FilterSpec imports Prelude begin

text \<open>
  The contract of a membership filter: what a caller of the Bloom filters of the kernel
  (\<open>kernel/bloomfilter.c\<close>, \<open>kernel/countingbloomfilter.c\<close>) may rely on. A filter never
  forgets a key that was added; it may report a key that was not. The contract is stated once,
  its consequences for whole runs are proved once, and each filter is an interpretation.
\<close>

datatype 'k filter_op = FAdd 'k | FCheck 'k

locale membership_filter =
  fixes inv :: "'s \<Rightarrow> bool"
    and key_ok :: "'k \<Rightarrow> bool"
    and add :: "'s \<Rightarrow> 'k \<Rightarrow> 's"
    and query :: "'s \<Rightarrow> 'k \<Rightarrow> 's"
    and mem :: "'s \<Rightarrow> 'k \<Rightarrow> bool"
  assumes inv_add: "inv s \<Longrightarrow> key_ok k \<Longrightarrow> inv (add s k)"
    and inv_query: "inv s \<Longrightarrow> key_ok k \<Longrightarrow> inv (query s k)"
    and mem_add_same: "inv s \<Longrightarrow> key_ok k \<Longrightarrow> mem (add s k) k"
    and mem_add_other: "inv s \<Longrightarrow> key_ok k \<Longrightarrow> key_ok j \<Longrightarrow> mem s j \<Longrightarrow> mem (add s k) j"
    and mem_query: "inv s \<Longrightarrow> key_ok k \<Longrightarrow> key_ok j \<Longrightarrow> mem (query s k) j = mem s j"
begin

fun step :: "'s \<Rightarrow> 'k filter_op \<Rightarrow> 's" where
  "step s (FAdd k) = add s k"
| "step s (FCheck k) = query s k"

fun op_ok :: "'k filter_op \<Rightarrow> bool" where
  "op_ok (FAdd k) = key_ok k"
| "op_ok (FCheck k) = key_ok k"

lemma inv_step: "inv s \<Longrightarrow> op_ok p \<Longrightarrow> inv (step s p)"
  by (cases p) (auto intro: inv_add inv_query)

lemma mem_step: "inv s \<Longrightarrow> op_ok p \<Longrightarrow> key_ok j \<Longrightarrow> mem s j \<or> p = FAdd j \<Longrightarrow> mem (step s p) j"
  by (cases p) (auto intro: mem_add_same mem_add_other simp: mem_query)

lemma inv_run: "inv s \<Longrightarrow> \<forall>p\<in>set ps. op_ok p \<Longrightarrow> inv (foldl step s ps)"
  by (induction ps arbitrary: s) (auto intro: inv_step)

lemma mem_run: "inv s \<Longrightarrow> \<forall>p\<in>set ps. op_ok p \<Longrightarrow> key_ok j \<Longrightarrow> mem s j \<Longrightarrow> mem (foldl step s ps) j"
  by (induction ps arbitrary: s) (auto intro: inv_step mem_step)

lemma no_false_negative:
  assumes "inv s" "\<forall>p\<in>set ps. op_ok p" "FAdd k \<in> set ps"
  shows "mem (foldl step s ps) k"
proof -
  obtain as bs where ps: "ps = as @ FAdd k # bs" using assms(3) by (meson split_list)
  have i: "inv (foldl step s as)" using assms ps by (intro inv_run) auto
  have k: "key_ok k" using assms(2) ps by auto
  show ?thesis using i k assms(2) ps
    by (auto intro!: mem_run inv_step mem_add_same inv_add)
qed

end

text \<open>A run of operations over any filter, as the caller makes them.\<close>

fun filter_run :: "('s \<Rightarrow> 'k \<Rightarrow> 's) \<Rightarrow> ('s \<Rightarrow> 'k \<Rightarrow> 's) \<Rightarrow> 's \<Rightarrow> 'k filter_op list \<Rightarrow> 's" where
  "filter_run add query s [] = s"
| "filter_run add query s (FAdd k # ps) = filter_run add query (add s k) ps"
| "filter_run add query s (FCheck k # ps) = filter_run add query (query s k) ps"

fun filter_op_key :: "'k filter_op \<Rightarrow> 'k" where
  "filter_op_key (FAdd k) = k"
| "filter_op_key (FCheck k) = k"

context membership_filter
begin

lemma filter_run_eq: "filter_run add query s ps = foldl step s ps"
proof (induction ps arbitrary: s)
  case (Cons p ps)
  then show ?case by (cases p) auto
qed simp

lemma op_ok_key: "op_ok p = key_ok (filter_op_key p)"
  by (cases p) auto

lemma run_no_false_negative:
  assumes "inv s" "\<forall>p\<in>set ps. key_ok (filter_op_key p)" "FAdd k \<in> set ps"
  shows "inv (filter_run add query s ps)" "mem (filter_run add query s ps) k"
  using assms inv_run no_false_negative by (auto simp: filter_run_eq op_ok_key)

end

end
