(* ===== verification/BloomFilter.thy ===== *)
theory BloomFilter imports MurmurHash FilterSpec begin

text \<open>
  The Bloom filter of \<open>kernel/bloomfilter.c\<close> and \<open>kernel/bloomfilter.h\<close>: sizing, hashing,
  add, check, reset, free, and the file format of save and load. \<open>None\<close> as a struct, data or
  key pointer is NULL. An access out of bounds and a division by zero are \<open>Crash\<close>.

  Floating point is not part of the model: a \<open>double\<close> is its 64-bit pattern, and the four
  expressions of the code that compute with one are the fields of a parameter record.
\<close>

section \<open>State\<close>

text \<open>
  \<open>fp_le0\<close>, \<open>fp_ge1\<close> are \<open>x \<le> 0\<close> and \<open>x \<ge> 1\<close>; \<open>fp_bits p n\<close> is
  \<open>(uint32_t) ceil(-1 * log(p) * n / 0.6185)\<close>; \<open>fp_hashes m n\<close> is
  \<open>(uint32_t) (0.6931 * m / n)\<close>.
\<close>

record fp_ops =
  fp_le0 :: "c_double \<Rightarrow> bool"
  fp_ge1 :: "c_double \<Rightarrow> bool"
  fp_bits :: "c_double \<Rightarrow> u32 \<Rightarrow> u32"
  fp_hashes :: "u32 \<Rightarrow> u32 \<Rightarrow> u32"

record dao_bloomfilter =
  bf_flag :: u8
  bf_data :: "bytes option"
  bf_hash_value :: "u32 list option"
  bf_max_items :: u32
  bf_bits :: u32
  bf_bytes :: u32
  bf_hash_num :: u32
  bf_seed :: u32
  bf_count :: u32
  bf_false_positive :: c_double

definition bf_zero :: dao_bloomfilter where
  "bf_zero = \<lparr>bf_flag = 0, bf_data = None, bf_hash_value = None, bf_max_items = 0, bf_bits = 0,
     bf_bytes = 0, bf_hash_num = 0, bf_seed = 0, bf_count = 0, bf_false_positive = 0\<rparr>"

section \<open>Sizing and hashing\<close>

definition bloomfilter_calc :: "fp_ops \<Rightarrow> dao_bloomfilter \<Rightarrow> dao_bloomfilter" where
  "bloomfilter_calc fp bf =
     (let m = fp_bits fp (bf_false_positive bf) (bf_max_items bf);
          m = (m - m mod 64) + 64;
          k = fp_hashes fp m (bf_max_items bf);
          k = k + 1
      in bf\<lparr>bf_bits := m, bf_hash_num := k, bf_bytes := m div 8\<rparr>)"

definition bf_hash_at :: "dao_bloomfilter \<Rightarrow> bytes \<Rightarrow> nat \<Rightarrow> u32" where
  "bf_hash_at bf key i =
     (let hash1 = MurmurHash2 key (bf_seed bf);
          hash2 = MurmurHash2 key (ucast (drop_bit 32 hash1 XOR hash1))
      in ucast ((hash1 + of_nat i * hash2) mod ucast (bf_bits bf)))"

text \<open>The loop bound \<open>(int)hash_num\<close>: a number of hashes of 2^31 or more runs no iteration.\<close>

definition bf_loop_bound :: "dao_bloomfilter \<Rightarrow> nat" where
  "bf_loop_bound bf = nat (sint (bf_hash_num bf))"

definition bloomfilter_hash :: "dao_bloomfilter \<Rightarrow> bytes \<Rightarrow> dao_bloomfilter option" where
  "bloomfilter_hash bf key =
     (if bf_loop_bound bf = 0 then Some bf
      else if bf_bits bf = 0 then None
      else case bf_hash_value bf of
        None \<Rightarrow> None
      | Some hv \<Rightarrow>
          if bf_loop_bound bf \<le> length hv
          then Some (bf\<lparr>bf_hash_value := Some (map (bf_hash_at bf key) [0..<bf_loop_bound bf]
                      @ drop (bf_loop_bound bf) hv)\<rparr>)
          else None)"

section \<open>Bits\<close>

definition bloomfilter_setbit :: "bytes \<Rightarrow> u32 \<Rightarrow> bytes option" where
  "bloomfilter_setbit data n =
     (let i = unat (n div 8) in
      if i < length data then Some (data[i := data ! i OR push_bit (unat (n mod 8)) 1]) else None)"

definition bloomfilter_getbit :: "bytes \<Rightarrow> u32 \<Rightarrow> u8 option" where
  "bloomfilter_getbit data n =
     (let i = unat (n div 8) in
      if i < length data then Some (data ! i AND push_bit (unat (n mod 8)) 1) else None)"

fun bf_set_all :: "bytes \<Rightarrow> u32 list \<Rightarrow> bytes option" where
  "bf_set_all data [] = Some data"
| "bf_set_all data (n # ns) =
     (case bloomfilter_setbit data n of None \<Rightarrow> None | Some data' \<Rightarrow> bf_set_all data' ns)"

text \<open>The check loop: 1 at the first clear bit, 0 when every bit is set.\<close>

fun bf_get_all :: "bytes \<Rightarrow> u32 list \<Rightarrow> int option" where
  "bf_get_all data [] = Some 0"
| "bf_get_all data (n # ns) =
     (case bloomfilter_getbit data n of
        None \<Rightarrow> None
      | Some b \<Rightarrow> if b = 0 then Some 1 else bf_get_all data ns)"

text \<open>The hash values and the data the loops of add and check run over.\<close>

definition bf_loop :: "dao_bloomfilter \<Rightarrow> (bytes \<Rightarrow> u32 list \<Rightarrow> 'a option) \<Rightarrow> 'a option" where
  "bf_loop bf body =
     (case (bf_data bf, bf_hash_value bf) of
        (Some data, Some hv) \<Rightarrow> body data (take (bf_loop_bound bf) hv)
      | (Some data, None) \<Rightarrow> if bf_loop_bound bf = 0 then body data [] else None
      | (None, _) \<Rightarrow> if bf_loop_bound bf = 0 then body [] [] else None)"

section \<open>Operations\<close>

definition dao_bloomfilter_free :: "dao_bloomfilter option \<Rightarrow> dao_bloomfilter option \<times> int outcome" where
  "dao_bloomfilter_free bfp =
     (case bfp of
        None \<Rightarrow> (None, Ret (- 1))
      | Some bf \<Rightarrow>
          (Some (bf\<lparr>bf_flag := 0, bf_count := 0, bf_data := None, bf_hash_value := None\<rparr>), Ret 0))"

definition dao_bloomfilter_init ::
  "fp_ops \<Rightarrow> dao_bloomfilter option \<Rightarrow> u32 \<Rightarrow> u32 \<Rightarrow> c_double \<Rightarrow> dao_bloomfilter option \<times> int outcome" where
  "dao_bloomfilter_init fp bfp seed max_items false_positive =
     (case bfp of
        None \<Rightarrow> (None, Ret (- 1))
      | Some bf \<Rightarrow>
          if fp_le0 fp false_positive \<or> fp_ge1 fp false_positive then (bfp, Ret (- 1))
          else
            (let bf = the (fst (dao_bloomfilter_free (Some bf)));
                 bf = bf\<lparr>bf_max_items := max_items, bf_false_positive := false_positive,
                         bf_seed := seed\<rparr>;
                 bf = bloomfilter_calc fp bf;
                 bf = bf\<lparr>bf_data := Some (replicate (unat (bf_bytes bf)) 0)\<rparr>;
                 bf = bf\<lparr>bf_hash_value := Some (replicate (unat (bf_hash_num bf)) 0)\<rparr>
             in (Some (bf\<lparr>bf_flag := 1\<rparr>), Ret 0)))"

definition dao_bloomfilter_add ::
  "dao_bloomfilter option \<Rightarrow> bytes option \<Rightarrow> dao_bloomfilter option \<times> int outcome" where
  "dao_bloomfilter_add bfp keyp =
     (case (bfp, keyp) of
        (Some bf, Some key) \<Rightarrow>
          if bf_flag bf \<noteq> 1 \<or> key = [] then (bfp, Ret (- 1))
          else (case bloomfilter_hash bf key of
              None \<Rightarrow> (bfp, Crash)
            | Some bf \<Rightarrow>
                (case bf_loop bf bf_set_all of
                   None \<Rightarrow> (Some bf, Crash)
                 | Some data \<Rightarrow>
                     (let bf = bf\<lparr>bf_data := map_option (\<lambda>_. data) (bf_data bf),
                                 bf_count := bf_count bf + 1\<rparr>
                      in (Some bf, Ret (if bf_count bf \<le> bf_max_items bf then 0 else 1)))))
      | _ \<Rightarrow> (bfp, Ret (- 1)))"

definition dao_bloomfilter_check ::
  "dao_bloomfilter option \<Rightarrow> bytes option \<Rightarrow> dao_bloomfilter option \<times> int outcome" where
  "dao_bloomfilter_check bfp keyp =
     (case (bfp, keyp) of
        (Some bf, Some key) \<Rightarrow>
          if bf_flag bf \<noteq> 1 \<or> key = [] then (bfp, Ret (- 1))
          else (case bloomfilter_hash bf key of
              None \<Rightarrow> (bfp, Crash)
            | Some bf \<Rightarrow>
                (case bf_loop bf bf_get_all of
                   None \<Rightarrow> (Some bf, Crash)
                 | Some r \<Rightarrow> (Some bf, Ret r)))
      | _ \<Rightarrow> (bfp, Ret (- 1)))"

definition dao_bloomfilter_reset :: "dao_bloomfilter option \<Rightarrow> dao_bloomfilter option \<times> int outcome" where
  "dao_bloomfilter_reset bfp =
     (case bfp of
        None \<Rightarrow> (None, Ret (- 1))
      | Some bf \<Rightarrow>
          (case bf_data bf of
             None \<Rightarrow> (Some (bf\<lparr>bf_count := 0\<rparr>), Ret 0)
           | Some d \<Rightarrow>
               if unat (bf_bytes bf) \<le> length d
               then (Some (bf\<lparr>bf_data := Some (replicate (unat (bf_bytes bf)) 0 @ drop (unat (bf_bytes bf)) d),
                             bf_count := 0\<rparr>), Ret 0)
               else (bfp, Crash)))"

section \<open>Well-formed filters\<close>

definition bf_wf :: "dao_bloomfilter \<Rightarrow> bool" where
  "bf_wf bf \<longleftrightarrow>
     bf_flag bf = 1 \<and> 0 < unat (bf_bits bf) \<and> unat (bf_bits bf) = 8 * unat (bf_bytes bf) \<and>
     unat (bf_hash_num bf) < 2 ^ 31 \<and>
     (case bf_data bf of None \<Rightarrow> False | Some d \<Rightarrow> length d = unat (bf_bytes bf)) \<and>
     (case bf_hash_value bf of None \<Rightarrow> False | Some hv \<Rightarrow> length hv = unat (bf_hash_num bf))"

definition bitset :: "bytes \<Rightarrow> u32 \<Rightarrow> bool" where
  "bitset d n \<longleftrightarrow> bit (d ! (unat n div 8)) (unat n mod 8)"

text \<open>Abstract membership: every bit the key hashes to is set.\<close>

definition bf_mem :: "dao_bloomfilter \<Rightarrow> bytes \<Rightarrow> bool" where
  "bf_mem bf key \<longleftrightarrow>
     (\<forall>i<unat (bf_hash_num bf). bitset (the (bf_data bf)) (bf_hash_at bf key i))"

lemma bf_loop_bound_eq: "unat (bf_hash_num bf) < 2 ^ 31 \<Longrightarrow> bf_loop_bound bf = unat (bf_hash_num bf)"
  by (simp add: bf_loop_bound_def sint_u32_small)

lemma bf_hash_at_less:
  assumes "0 < unat (bf_bits bf)"
  shows "unat (bf_hash_at bf key i) < unat (bf_bits bf)"
proof -
  have m: "unat (h mod ucast (bf_bits bf) :: u64) < unat (bf_bits bf)" for h
    using assms unat_mod_less [of "ucast (bf_bits bf)" h] by (simp add: word_less_nat_alt)
  then have "unat (h mod ucast (bf_bits bf) :: u64) < 2 ^ 32" for h
    using unsigned_less [of "bf_bits bf", where 'a = nat] by (auto intro: order.strict_trans)
  then show ?thesis
    unfolding bf_hash_at_def Let_def by (subst unat_ucast_64_32) (use m in auto)
qed

lemma unat_div8: "unat ((n::u32) div 8) = unat n div 8" "unat (n mod 8) = unat n mod 8"
  by (simp_all add: unat_div unat_mod)

lemma setbit_Some:
  assumes "unat n < 8 * length d"
  shows "\<exists>d'. bloomfilter_setbit d n = Some d' \<and> length d' = length d \<and>
     (\<forall>m. unat m < 8 * length d \<longrightarrow> bitset d' m = (bitset d m \<or> m = n))"
proof -
  have i: "unat n div 8 < length d" using assms by (simp add: less_mult_imp_div_less mult.commute)
  let ?d = "d[unat n div 8 := d ! (unat n div 8) OR push_bit (unat n mod 8) 1]"
  have "bitset ?d m = (bitset d m \<or> m = n)" if m: "unat m < 8 * length d" for m
  proof (cases "unat m div 8 = unat n div 8")
    case True
    have "m = n \<longleftrightarrow> unat m mod 8 = unat n mod 8"
      using True by (metis div_mult_mod_eq word_unat_eq_iff)
    then show ?thesis using i True by (auto simp: bitset_def bit_simps)
  next
    case False
    then show ?thesis by (auto simp: bitset_def)
  qed
  then show ?thesis using i by (simp add: bloomfilter_setbit_def unat_div8 Let_def)
qed

lemma getbit_Some:
  assumes "unat n < 8 * length d"
  shows "\<exists>b. bloomfilter_getbit d n = Some b \<and> (b = 0 \<longleftrightarrow> \<not> bitset d n)"
proof -
  have "unat n div 8 < length d" using assms by (simp add: less_mult_imp_div_less mult.commute)
  then show ?thesis
    by (simp add: bloomfilter_getbit_def unat_div8 bitset_def bit_iff_and_push_bit_not_eq_0)
qed

lemma set_all_Some:
  "\<forall>n\<in>set ns. unat n < 8 * length d \<Longrightarrow>
   \<exists>d'. bf_set_all d ns = Some d' \<and> length d' = length d \<and>
     (\<forall>m. unat m < 8 * length d \<longrightarrow> bitset d' m = (bitset d m \<or> m \<in> set ns))"
proof (induction ns arbitrary: d)
  case (Cons n ns)
  then obtain d1 where d1: "bloomfilter_setbit d n = Some d1" "length d1 = length d"
      "\<forall>m. unat m < 8 * length d \<longrightarrow> bitset d1 m = (bitset d m \<or> m = n)"
    using setbit_Some [of n d] by auto
  with Cons.IH [of d1] Cons.prems show ?case by fastforce
qed simp

lemma get_all_Some:
  "\<forall>n\<in>set ns. unat n < 8 * length d \<Longrightarrow>
   bf_get_all d ns = Some (if \<forall>n\<in>set ns. bitset d n then 0 else 1)"
proof (induction ns)
  case (Cons n ns)
  with getbit_Some [of n d] show ?case by auto
qed simp

section \<open>Every operation on a well-formed filter\<close>

definition bf_keys :: "dao_bloomfilter \<Rightarrow> bytes \<Rightarrow> u32 list" where
  "bf_keys bf key = map (bf_hash_at bf key) [0..<unat (bf_hash_num bf)]"

definition bf_hashed :: "dao_bloomfilter \<Rightarrow> bytes \<Rightarrow> dao_bloomfilter" where
  "bf_hashed bf key = bf\<lparr>bf_hash_value := Some (bf_keys bf key)\<rparr>"

lemma bf_keys_less:
  assumes "bf_wf bf" "n \<in> set (bf_keys bf key)"
  shows "unat n < 8 * length (the (bf_data bf))"
  using assms bf_hash_at_less [of bf key]
  by (auto simp: bf_keys_def bf_wf_def split: option.splits)

lemma bf_mem_keys: "bf_mem bf key \<longleftrightarrow> (\<forall>n\<in>set (bf_keys bf key). bitset (the (bf_data bf)) n)"
  by (auto simp: bf_mem_def bf_keys_def)

lemma bloomfilter_hash_wf: "bf_wf bf \<Longrightarrow> bloomfilter_hash bf key = Some (bf_hashed bf key)"
proof -
  assume wf: "bf_wf bf"
  then obtain hv where hv: "bf_hash_value bf = Some hv" "length hv = unat (bf_hash_num bf)"
    by (auto simp: bf_wf_def split: option.splits)
  have n: "bf_loop_bound bf = unat (bf_hash_num bf)"
    using wf by (simp add: bf_wf_def bf_loop_bound_eq)
  have b: "bf_bits bf \<noteq> 0" using wf by (auto simp: bf_wf_def)
  show ?thesis
  proof (cases "unat (bf_hash_num bf) = 0")
    case True
    then show ?thesis using hv n by (simp add: bloomfilter_hash_def bf_hashed_def bf_keys_def)
  next
    case False
    then show ?thesis
      using hv n b by (simp add: bloomfilter_hash_def bf_hashed_def bf_keys_def)
  qed
qed

lemma bf_hashed_wf: "bf_wf bf \<Longrightarrow> bf_wf (bf_hashed bf key)"
  by (auto simp: bf_wf_def bf_hashed_def bf_keys_def split: option.splits)

lemma bf_hash_at_cong:
  "bf_seed bf' = bf_seed bf \<Longrightarrow> bf_bits bf' = bf_bits bf \<Longrightarrow> bf_hash_at bf' key i = bf_hash_at bf key i"
  by (simp add: bf_hash_at_def)

lemma bf_hashed_mem: "bf_mem (bf_hashed bf key) j = bf_mem bf j"
  by (simp add: bf_mem_def bf_hashed_def bf_hash_at_def)

lemma bf_loop_hashed:
  "bf_wf bf \<Longrightarrow> bf_loop (bf_hashed bf key) body = body (the (bf_data bf)) (bf_keys bf key)"
  by (auto simp: bf_loop_def bf_hashed_def bf_wf_def bf_loop_bound_def bf_keys_def sint_u32_small
      split: option.splits)

lemma dao_bloomfilter_check_wf:
  assumes "bf_wf bf" "key \<noteq> []"
  shows "dao_bloomfilter_check (Some bf) (Some key) =
           (Some (bf_hashed bf key), Ret (if bf_mem bf key then 0 else 1))"
proof -
  have "bf_get_all (the (bf_data bf)) (bf_keys bf key) = Some (if bf_mem bf key then 0 else 1)"
    using bf_keys_less [OF assms(1)] by (simp add: get_all_Some bf_mem_keys)
  then show ?thesis
    using assms by (simp add: dao_bloomfilter_check_def bloomfilter_hash_wf bf_loop_hashed)
      (simp add: bf_wf_def)
qed

lemma dao_bloomfilter_add_wf:
  assumes "bf_wf bf" "key \<noteq> []"
  shows "\<exists>bf'. dao_bloomfilter_add (Some bf) (Some key) =
           (Some bf', Ret (if bf_count bf + 1 \<le> bf_max_items bf then 0 else 1)) \<and>
         bf_wf bf' \<and> bf_mem bf' key \<and> (\<forall>j. bf_mem bf j \<longrightarrow> bf_mem bf' j) \<and>
         bf_count bf' = bf_count bf + 1 \<and> bf_hash_num bf' = bf_hash_num bf"
proof -
  obtain d where data: "bf_data bf = Some d"
    using assms(1) by (auto simp: bf_wf_def split: option.splits)
  have less: "\<forall>n\<in>set (bf_keys bf j). unat n < 8 * length d" for j
    using bf_keys_less [OF assms(1), of _ j] data by simp
  obtain d' where d': "bf_set_all d (bf_keys bf key) = Some d'" "length d' = length d"
     "\<forall>m. unat m < 8 * length d \<longrightarrow> bitset d' m = (bitset d m \<or> m \<in> set (bf_keys bf key))"
    using set_all_Some [OF less, of key] by blast
  let ?b = "bf_hashed bf key"
  let ?bf' = "?b\<lparr>bf_data := Some d', bf_count := bf_count bf + 1\<rparr>"
  have keys: "bf_keys ?bf' j = bf_keys bf j" for j
    by (simp add: bf_keys_def bf_hashed_def bf_hash_at_def)
  have "dao_bloomfilter_add (Some bf) (Some key) =
           (Some ?bf', Ret (if bf_count bf + 1 \<le> bf_max_items bf then 0 else 1))"
    using assms d'(1) data
    by (simp add: dao_bloomfilter_add_def bloomfilter_hash_wf bf_loop_hashed Let_def)
      (simp add: bf_wf_def bf_hashed_def)
  moreover have "bf_wf ?bf'"
    using bf_hashed_wf [OF assms(1), of key] d'(2) data
    by (auto simp: bf_wf_def bf_hashed_def)
  moreover have "bf_mem ?bf' key"
    unfolding bf_mem_keys keys using d'(3) less by auto
  moreover have "bf_mem ?bf' j" if "bf_mem bf j" for j
    using that d'(3) less data unfolding bf_mem_keys keys by auto
  ultimately show ?thesis by (intro exI [of _ ?bf']) (simp add: bf_hashed_def)
qed

section \<open>Initialisation\<close>

text \<open>The number of bits, rounded up to the next multiple of 64.\<close>

definition bf_rounded :: "u32 \<Rightarrow> u32" where
  "bf_rounded m = (m - m mod 64) + 64"

lemma dao_bloomfilter_init_wf:
  assumes "\<not> fp_le0 fp p" "\<not> fp_ge1 fp p"
    and "unat (fp_bits fp p max_items) < 2 ^ 32 - 64"
    and "unat (fp_hashes fp (bf_rounded (fp_bits fp p max_items)) max_items) < 2 ^ 31 - 1"
  obtains bf' where "dao_bloomfilter_init fp (Some bf) seed max_items p = (Some bf', Ret 0)"
    "bf_wf bf'" "bf_count bf' = 0" "bf_max_items bf' = max_items" "bf_seed bf' = seed"
    "0 < unat (bf_hash_num bf')" "bf_data bf' = Some (replicate (unat (bf_bytes bf')) 0)"
proof -
  let ?m0 = "fp_bits fp p max_items"
  define m where "m = (?m0 - ?m0 mod 64) + 64"
  define k where "k = fp_hashes fp m max_items + 1"
  have "unat ?m0 mod 64 \<le> unat ?m0" by simp
  then have sub: "unat (?m0 - ?m0 mod 64) = unat ?m0 - unat ?m0 mod 64"
    by (simp add: unat_sub unat_mod word_le_nat_alt)
  then have um: "unat m = unat ?m0 - unat ?m0 mod 64 + 64"
    using assms(3) unfolding m_def by (subst unat_add_lem [THEN iffD1]) auto
  then have m8: "8 * (unat m div 8) = unat m" "0 < unat m"
    by (simp_all add: minus_mod_eq_mult_div)
  have "unat k = unat (fp_hashes fp m max_items) + 1"
    using assms(4) unfolding k_def bf_rounded_def m_def [symmetric] by (subst unat_add_lem [THEN iffD1]) auto
  then have k: "unat k < 2 ^ 31" "0 < unat k" using assms(4) unfolding bf_rounded_def m_def [symmetric] by simp_all
  let ?bf' = "bf\<lparr>bf_flag := 1, bf_data := Some (replicate (unat (m div 8)) 0),
     bf_hash_value := Some (replicate (unat k) 0), bf_max_items := max_items, bf_bits := m,
     bf_bytes := m div 8, bf_hash_num := k, bf_seed := seed, bf_count := 0,
     bf_false_positive := p\<rparr>"
  have "dao_bloomfilter_init fp (Some bf) seed max_items p = (Some ?bf', Ret 0)"
    using assms(1,2)
    by (simp add: dao_bloomfilter_init_def dao_bloomfilter_free_def bloomfilter_calc_def Let_def
        m_def k_def)
  moreover have "bf_wf ?bf'" using m8 k by (simp add: bf_wf_def unat_div8)
  ultimately show ?thesis using that [of ?bf'] k(2) by (simp add: unat_div8)
qed

section \<open>The filter as a membership filter\<close>

definition bf_add_state :: "dao_bloomfilter option \<Rightarrow> bytes \<Rightarrow> dao_bloomfilter option" where
  "bf_add_state bfp key = fst (dao_bloomfilter_add bfp (Some key))"

definition bf_check_state :: "dao_bloomfilter option \<Rightarrow> bytes \<Rightarrow> dao_bloomfilter option" where
  "bf_check_state bfp key = fst (dao_bloomfilter_check bfp (Some key))"

definition bf_reports :: "dao_bloomfilter option \<Rightarrow> bytes \<Rightarrow> bool" where
  "bf_reports bfp key \<longleftrightarrow> snd (dao_bloomfilter_check bfp (Some key)) = Ret 0"

fun bf_inv :: "dao_bloomfilter option \<Rightarrow> bool" where
  "bf_inv None = False"
| "bf_inv (Some bf) = bf_wf bf"

lemma bf_inv_Some: "bf_inv s \<Longrightarrow> \<exists>bf. s = Some bf \<and> bf_wf bf"
  by (cases s) auto

interpretation bloom: membership_filter bf_inv "\<lambda>k :: bytes. k \<noteq> []" bf_add_state bf_check_state bf_reports
proof
  fix s and k j :: bytes assume s: "bf_inv s" and k: "k \<noteq> []"
  then obtain bf where bf: "s = Some bf" "bf_wf bf" using bf_inv_Some by blast
  obtain bf' where bf': "fst (dao_bloomfilter_add s (Some k)) = Some bf'" "bf_wf bf'"
      "bf_mem bf' k" "\<forall>j. bf_mem bf j \<longrightarrow> bf_mem bf' j"
    using dao_bloomfilter_add_wf [OF bf(2) k] bf(1) by auto
  show "bf_inv (bf_add_state s k)" using bf' by (simp add: bf_add_state_def)
  show "bf_inv (bf_check_state s k)"
    using bf k by (simp add: bf_check_state_def dao_bloomfilter_check_wf bf_hashed_wf)
  show "bf_reports (bf_add_state s k) k"
    using bf' k by (simp add: bf_add_state_def bf_reports_def dao_bloomfilter_check_wf)
  show "bf_reports (bf_add_state s k) j" if "j \<noteq> []" "bf_reports s j"
    using that bf bf'
    by (auto simp: bf_add_state_def bf_reports_def dao_bloomfilter_check_wf split: if_splits)
  show "bf_reports (bf_check_state s k) j = bf_reports s j" if "j \<noteq> []"
    using that bf k
    by (simp add: bf_check_state_def bf_reports_def dao_bloomfilter_check_wf bf_hashed_wf bf_hashed_mem)
qed

text \<open>A sizing that the examples of the development evaluate: 64 bits and 2 hashes.\<close>

definition fp_example :: fp_ops where
  "fp_example = \<lparr>fp_le0 = (\<lambda>p. p = 0), fp_ge1 = (\<lambda>p. p = 1), fp_bits = (\<lambda>_ _. 10),
     fp_hashes = (\<lambda>_ _. 1)\<rparr>"

section \<open>Runs\<close>

datatype bf_op = BfAdd bytes | BfCheck bytes | BfReset

fun bf_step :: "dao_bloomfilter option \<Rightarrow> bf_op \<Rightarrow> dao_bloomfilter option" where
  "bf_step s (BfAdd key) = bf_add_state s key"
| "bf_step s (BfCheck key) = bf_check_state s key"
| "bf_step s BfReset = fst (dao_bloomfilter_reset s)"

text \<open>The keys added since the last reset, and the operations with keys that are not empty.\<close>

fun bf_added :: "bytes list \<Rightarrow> bf_op \<Rightarrow> bytes list" where
  "bf_added ks (BfAdd key) = key # ks"
| "bf_added ks (BfCheck key) = ks"
| "bf_added ks BfReset = []"

fun bf_op_ok :: "bf_op \<Rightarrow> bool" where
  "bf_op_ok (BfAdd key) = (key \<noteq> [])"
| "bf_op_ok (BfCheck key) = (key \<noteq> [])"
| "bf_op_ok BfReset = True"

definition bf_holds :: "dao_bloomfilter option \<Rightarrow> bytes list \<Rightarrow> bool" where
  "bf_holds s ks =
     (\<exists>bf. s = Some bf \<and> bf_wf bf \<and> 0 < unat (bf_hash_num bf) \<and> bf_count bf = of_nat (length ks) \<and>
        (\<forall>k\<in>set ks. bf_mem bf k) \<and> (ks = [] \<longrightarrow> (\<forall>k. \<not> bf_mem bf k)))"

lemma bf_empty_mem:
  assumes "bf_wf bf" "0 < unat (bf_hash_num bf)" "bf_data bf = Some (replicate (unat (bf_bytes bf)) 0)"
  shows "\<not> bf_mem bf k"
proof -
  have "unat (bf_hash_at bf k 0) < 8 * unat (bf_bytes bf)"
    using bf_hash_at_less [of bf k 0] assms(1) by (simp add: bf_wf_def)
  then have "\<not> bitset (replicate (unat (bf_bytes bf)) 0) (bf_hash_at bf k 0)" by (simp add: bitset_def)
  then show ?thesis using assms(2,3) by (auto simp: bf_mem_def)
qed

lemma bf_holds_step:
  assumes "bf_holds s ks" "bf_op_ok p"
  shows "bf_holds (bf_step s p) (bf_added ks p)"
proof -
  obtain bf where bf: "s = Some bf" "bf_wf bf" "0 < unat (bf_hash_num bf)" "bf_count bf = of_nat (length ks)"
      "\<forall>k\<in>set ks. bf_mem bf k" "ks = [] \<longrightarrow> (\<forall>k. \<not> bf_mem bf k)"
    using assms(1) by (auto simp: bf_holds_def)
  show ?thesis
  proof (cases p)
    case (BfAdd key)
    then obtain bf' where bf': "fst (dao_bloomfilter_add s (Some key)) = Some bf'" "bf_wf bf'" "bf_mem bf' key"
        "\<forall>j. bf_mem bf j \<longrightarrow> bf_mem bf' j" "bf_count bf' = bf_count bf + 1" "bf_hash_num bf' = bf_hash_num bf"
      using dao_bloomfilter_add_wf [OF bf(2), of key] bf(1) assms(2) by auto
    then show ?thesis using bf BfAdd by (auto simp: bf_holds_def bf_add_state_def)
  next
    case (BfCheck key)
    then show ?thesis
      using bf assms(2) bf_hashed_wf [OF bf(2), of key]
      by (simp add: bf_holds_def bf_check_state_def dao_bloomfilter_check_wf bf_hashed_mem) (simp add: bf_hashed_def)
  next
    case BfReset
    obtain d where d: "bf_data bf = Some d" "length d = unat (bf_bytes bf)"
      using bf(2) by (auto simp: bf_wf_def split: option.splits)
    let ?bf = "bf\<lparr>bf_data := Some (replicate (unat (bf_bytes bf)) 0), bf_count := 0\<rparr>"
    have "bf_wf ?bf" using bf(2) by (auto simp: bf_wf_def split: option.splits)
    moreover from this have "\<not> bf_mem ?bf k" for k by (rule bf_empty_mem) (simp_all add: bf(3))
    ultimately show ?thesis using bf(1,3) BfReset d by (simp add: bf_holds_def dao_bloomfilter_reset_def)
  qed
qed

lemma bf_added_nonempty:
  "\<forall>p\<in>set ops. bf_op_ok p \<Longrightarrow> [] \<notin> set ks \<Longrightarrow> [] \<notin> set (foldl bf_added ks ops)"
proof (induction ops arbitrary: ks)
  case (Cons q qs)
  then show ?case by (cases q) auto
qed simp

lemma bf_holds_run: "bf_holds s ks \<Longrightarrow> \<forall>p\<in>set ops. bf_op_ok p \<Longrightarrow> bf_holds (foldl bf_step s ops) (foldl bf_added ks ops)"
  by (induction ops arbitrary: s ks) (auto intro: bf_holds_step)

text \<open>
  C21. No false negatives: after \<open>dao_bloomfilter_init\<close>, whatever
  sequence of adds and checks of non-empty keys and of resets follows, \<open>dao_bloomfilter_check\<close> returns 0 for
  every key added since the last reset, and 1 for every non-empty key when there is none, the counter holds the number of adds since
  the last reset (in 32 bits), and none of the operations faults. The hypotheses are the ranges of
  the sizing in which \<open>__bloomfilter_calc\<close> does not wrap.
\<close>

theorem bloom_no_false_negative:
  assumes "\<not> fp_le0 fp p" "\<not> fp_ge1 fp p"
    and "unat (fp_bits fp p max_items) < 2 ^ 32 - 64"
    and "unat (fp_hashes fp (bf_rounded (fp_bits fp p max_items)) max_items) < 2 ^ 31 - 1"
    and "\<forall>op\<in>set ops. bf_op_ok op"
  shows "\<exists>bf. foldl bf_step (fst (dao_bloomfilter_init fp (Some bf0) seed max_items p)) ops = Some bf \<and>
     bf_count bf = of_nat (length (foldl bf_added [] ops)) \<and>
     (\<forall>key\<in>set (foldl bf_added [] ops). snd (dao_bloomfilter_check (Some bf) (Some key)) = Ret 0) \<and>
     (foldl bf_added [] ops = [] \<longrightarrow> (\<forall>key. key \<noteq> [] \<longrightarrow> snd (dao_bloomfilter_check (Some bf) (Some key)) = Ret 1))"
proof -
  obtain bf' where bf': "dao_bloomfilter_init fp (Some bf0) seed max_items p = (Some bf', Ret 0)" "bf_wf bf'" "bf_count bf' = 0"
      "0 < unat (bf_hash_num bf')" "bf_data bf' = Some (replicate (unat (bf_bytes bf')) 0)"
    using dao_bloomfilter_init_wf [OF assms(1-4)] by metis
  then have "bf_holds (Some bf') []" by (simp add: bf_holds_def bf_empty_mem)
  from bf_holds_run [OF this assms(5)] obtain bf where
    bf: "foldl bf_step (Some bf') ops = Some bf" "bf_wf bf" "bf_count bf = of_nat (length (foldl bf_added [] ops))"
      "\<forall>k\<in>set (foldl bf_added [] ops). bf_mem bf k" "foldl bf_added [] ops = [] \<longrightarrow> (\<forall>k. \<not> bf_mem bf k)"
    by (auto simp: bf_holds_def)
  have "[] \<notin> set (foldl bf_added [] ops)"
    using bf_added_nonempty [OF assms(5), of "[]"] by simp
  then have "snd (dao_bloomfilter_check (Some bf) (Some key)) = Ret 0" if "key \<in> set (foldl bf_added [] ops)" for key
    using that bf(4) dao_bloomfilter_check_wf [OF bf(2), of key] by (cases "key = []") auto
  then show ?thesis using bf bf'(1) by (simp add: dao_bloomfilter_check_wf)
qed

theorem bloom_no_false_negative_witness:
  "\<exists>bf. foldl bf_step (fst (dao_bloomfilter_init fp_example (Some bf_zero) 7 100 5))
      [BfAdd [9], BfReset, BfAdd [1, 2], BfCheck [3], BfAdd [4]] = Some bf \<and> bf_count bf = 2 \<and>
     snd (dao_bloomfilter_check (Some bf) (Some [1, 2])) = Ret 0"
  using bloom_no_false_negative [of fp_example 5 100 "[BfAdd [9], BfReset, BfAdd [1, 2], BfCheck [3], BfAdd [4]]" bf_zero 7]
  by (auto simp: fp_example_def)

section \<open>Saving and loading\<close>

text \<open>
  The file system maps names to contents. What the operating system decides is an argument:
  whether the file can be opened and locked, and how many bytes the disk still takes (a short
  \<open>fwrite\<close> leaves a prefix). A file is the 40 bytes of the header struct (seven 32-bit fields,
  four bytes of padding, the double) and then the bit array.
\<close>

record file_env =
  fe_open :: bool
  fe_lock :: bool
  fe_space :: nat

type_synonym file_system = "string \<rightharpoonup> bytes"

definition DAO_BLOOMFILTER_FILE_MAGIC_CODE :: u32 where
  "DAO_BLOOMFILTER_FILE_MAGIC_CODE = 0x44616F37"

definition bf_file_head :: "dao_bloomfilter \<Rightarrow> bytes" where
  "bf_file_head bf =
     le_bytes32 DAO_BLOOMFILTER_FILE_MAGIC_CODE @ le_bytes32 (bf_max_items bf) @
     le_bytes32 (bf_bits bf) @ le_bytes32 (bf_bytes bf) @ le_bytes32 (bf_hash_num bf) @
     le_bytes32 (bf_seed bf) @ le_bytes32 (bf_count bf) @ [0, 0, 0, 0] @
     le_bytes64 (bf_false_positive bf)"

definition head_u32 :: "bytes \<Rightarrow> nat \<Rightarrow> u32" where
  "head_u32 c i = le32 (take 4 (drop (4 * i) c))"

definition dao_bloomfilter_save ::
  "file_env \<Rightarrow> file_system \<Rightarrow> dao_bloomfilter option \<Rightarrow> string option \<Rightarrow> file_system \<times> int outcome" where
  "dao_bloomfilter_save env fs bfp filename =
     (case (bfp, filename) of
        (Some bf, Some fn) \<Rightarrow>
          if bf_flag bf \<noteq> 1 then (fs, Ret (- 1))
          else if \<not> fe_open env then (fs, Ret (- 1))
          else if \<not> fe_lock env then (fs(fn \<mapsto> []), Ret (- 1))
          else
            (let head = bf_file_head bf; n = unat (bf_bytes bf) in
             if fe_space env < length head
             then (fs(fn \<mapsto> take (fe_space env) head), Ret (- 1))
             else (case bf_data bf of
                 None \<Rightarrow> if n = 0 then (fs(fn \<mapsto> head), Ret 0) else (fs(fn \<mapsto> head), Crash)
               | Some d \<Rightarrow>
                   if length d < n then (fs(fn \<mapsto> head), Crash)
                   else if fe_space env < length head + n
                   then (fs(fn \<mapsto> take (fe_space env) (head @ take n d)), Ret (- 1))
                   else (fs(fn \<mapsto> head @ take n d), Ret 0)))
      | _ \<Rightarrow> (fs, Ret (- 1)))"

definition dao_bloomfilter_load ::
  "file_env \<Rightarrow> file_system \<Rightarrow> dao_bloomfilter option \<Rightarrow> string option \<Rightarrow>
   dao_bloomfilter option \<times> int outcome" where
  "dao_bloomfilter_load env fs bfp filename =
     (case (bfp, filename) of
        (Some bf, Some fn) \<Rightarrow>
          (case fs fn of
             None \<Rightarrow> (bfp, Ret (- 1))
           | Some c \<Rightarrow>
               if \<not> fe_open env then (bfp, Ret (- 1))
               else if \<not> fe_lock env then (bfp, Ret (- 1))
               else if length c < 40 then (bfp, Ret (- 1))
               else if head_u32 c 0 \<noteq> DAO_BLOOMFILTER_FILE_MAGIC_CODE \<or>
                       head_u32 c 2 \<noteq> head_u32 c 3 * 8 then (bfp, Ret (- 1))
               else
                 (let bf = the (fst (dao_bloomfilter_free (Some bf)));
                      n = unat (head_u32 c 3);
                      body = drop 40 c;
                      bf = bf\<lparr>bf_max_items := head_u32 c 1,
                              bf_false_positive := le64 (take 8 (drop 32 c)),
                              bf_bits := head_u32 c 2, bf_hash_num := head_u32 c 4,
                              bf_seed := head_u32 c 5, bf_count := head_u32 c 6,
                              bf_bytes := head_u32 c 3,
                              bf_hash_value := Some (replicate (unat (head_u32 c 4)) 0)\<rparr>
                  in if length body < n
                     then (Some (bf\<lparr>bf_data := Some (body @ replicate (n - length body) 0)\<rparr>),
                           Ret (- 1))
                     else (Some (bf\<lparr>bf_data := Some (take n body), bf_flag := 1\<rparr>), Ret 0)))
      | _ \<Rightarrow> (bfp, Ret (- 1)))"

lemma length_bf_file_head [simp]: "length (bf_file_head bf) = 40"
  by (simp add: bf_file_head_def)

lemma drop_le_bytes32:
  "drop (4 + n) (le_bytes32 w @ xs) = drop n xs"
  "take 4 (le_bytes32 w @ xs) = le_bytes32 w"
  by (simp_all add: drop_append)

lemma head_u32_head:
  "head_u32 (bf_file_head bf @ d) 0 = DAO_BLOOMFILTER_FILE_MAGIC_CODE"
  "head_u32 (bf_file_head bf @ d) (Suc 0) = bf_max_items bf"
  "head_u32 (bf_file_head bf @ d) 2 = bf_bits bf"
  "head_u32 (bf_file_head bf @ d) 3 = bf_bytes bf"
  "head_u32 (bf_file_head bf @ d) 4 = bf_hash_num bf"
  "head_u32 (bf_file_head bf @ d) 5 = bf_seed bf"
  "head_u32 (bf_file_head bf @ d) 6 = bf_count bf"
  "le64 (drop 32 (bf_file_head bf)) = bf_false_positive bf"
  by (simp_all add: head_u32_def bf_file_head_def drop_append)

lemma dao_bloomfilter_load_head:
  assumes "fs fn = Some (bf_file_head bf @ d)" "length d = unat (bf_bytes bf)"
    and "bf_bits bf = bf_bytes bf * 8" "fe_open env" "fe_lock env"
  shows "dao_bloomfilter_load env fs (Some old) (Some fn) =
    (Some (bf\<lparr>bf_hash_value := Some (replicate (unat (bf_hash_num bf)) 0), bf_data := Some d,
              bf_flag := 1\<rparr>), Ret 0)"
  using assms
  by (auto simp: dao_bloomfilter_load_def head_u32_head dao_bloomfilter_free_def Let_def
      intro!: dao_bloomfilter.equality)

lemma bf_bits_bytes: "bf_wf bf \<Longrightarrow> bf_bits bf = bf_bytes bf * 8"
proof -
  assume "bf_wf bf"
  then have u: "unat (bf_bits bf) = 8 * unat (bf_bytes bf)" by (simp add: bf_wf_def)
  then have "unat (bf_bytes bf * 8) = unat (bf_bits bf)"
    using unsigned_less [of "bf_bits bf", where 'a = nat]
    by (subst unat_mult_lem [THEN iffD1]) auto
  then show ?thesis by (metis word_unat_eq_iff)
qed

text \<open>
  C22. Persistence: a well-formed filter that was saved (the file could be opened,
  locked and written) and loaded into any struct comes back with every field it had, the scratch
  array of hash values reset, so it is well formed and reports exactly the same keys.
\<close>

theorem bloom_save_load:
  assumes wf: "bf_wf bf" and env: "fe_open env" "fe_lock env"
    and space: "40 + unat (bf_bytes bf) \<le> fe_space env"
  shows "snd (dao_bloomfilter_save env fs (Some bf) (Some fn)) = Ret 0 \<and>
    (\<exists>bf'. dao_bloomfilter_load env (fst (dao_bloomfilter_save env fs (Some bf) (Some fn)))
              (Some old) (Some fn) = (Some bf', Ret 0) \<and>
       bf' = bf\<lparr>bf_hash_value := Some (replicate (unat (bf_hash_num bf)) 0)\<rparr> \<and>
       bf_wf bf' \<and> (\<forall>key. bf_mem bf' key = bf_mem bf key))"
proof -
  obtain d where d: "bf_data bf = Some d" "length d = unat (bf_bytes bf)" "bf_flag bf = 1"
    using wf by (auto simp: bf_wf_def split: option.splits)
  have save: "dao_bloomfilter_save env fs (Some bf) (Some fn) = (fs(fn \<mapsto> bf_file_head bf @ d), Ret 0)"
    using d env space by (simp add: dao_bloomfilter_save_def)
  let ?bf' = "bf\<lparr>bf_hash_value := Some (replicate (unat (bf_hash_num bf)) 0)\<rparr>"
  have "dao_bloomfilter_load env (fs(fn \<mapsto> bf_file_head bf @ d)) (Some old) (Some fn) = (Some ?bf', Ret 0)"
    using d env by (subst dao_bloomfilter_load_head [OF _ _ bf_bits_bytes [OF wf]])
      (auto intro!: dao_bloomfilter.equality)
  moreover have "bf_wf ?bf'" using wf by (auto simp: bf_wf_def split: option.splits)
  moreover have "bf_mem ?bf' key = bf_mem bf key" for key
    by (simp add: bf_mem_def bf_hash_at_def)
  ultimately show ?thesis using save by auto
qed

definition bf_example :: dao_bloomfilter where
  "bf_example = bf_zero\<lparr>bf_flag := 1, bf_bits := 16, bf_bytes := 2, bf_hash_num := 1,
     bf_data := Some [3, 4], bf_hash_value := Some [9], bf_seed := 5\<rparr>"

theorem bloom_save_load_witness:
  "snd (dao_bloomfilter_save \<lparr>fe_open = True, fe_lock = True, fe_space = 100\<rparr> Map.empty
     (Some bf_example) (Some ''f'')) = Ret 0"
  by (rule conjunct1 [OF bloom_save_load])
    (simp_all add: bf_example_def bf_zero_def bf_wf_def)

text \<open>
  The validation in \<open>dao_bloomfilter_load\<close> accepts a header whose bit
  array is empty: it only compares \<open>bits\<close> with \<open>bytes * 8\<close> (in 32 bits). Such a file of 40
  bytes loads successfully for every positive number of hashes below 2^31, and the first check of
  any non-empty key then divides by zero.
\<close>

theorem bloom_load_zero_bits:
  assumes "0 < unat h" "unat h < 2 ^ 31" "key \<noteq> []" "fe_open env" "fe_lock env"
  defines "c \<equiv> bf_file_head (bf_zero\<lparr>bf_hash_num := h\<rparr>)"
  shows "\<exists>bf. dao_bloomfilter_load env [fn \<mapsto> c] (Some old) (Some fn) = (Some bf, Ret 0) \<and>
           snd (dao_bloomfilter_check (Some bf) (Some key)) = Crash"
proof -
  obtain bf where bf: "dao_bloomfilter_load env [fn \<mapsto> c] (Some old) (Some fn) = (Some bf, Ret 0)"
     "bf_bits bf = 0" "bf_hash_num bf = h" "bf_flag bf = 1"
    using assms(4,5) dao_bloomfilter_load_head [of "[fn \<mapsto> c]" fn "bf_zero\<lparr>bf_hash_num := h\<rparr>" "[]" env old]
    by (simp add: c_def bf_zero_def)
  moreover have "bf_loop_bound bf \<noteq> 0"
    using assms(1,2) bf(3) by (simp add: bf_loop_bound_eq)
  ultimately show ?thesis
    using assms(3) by (auto simp: dao_bloomfilter_check_def bloomfilter_hash_def)
qed

theorem bloom_load_zero_bits_witness:
  "\<exists>bf. dao_bloomfilter_load \<lparr>fe_open = True, fe_lock = True, fe_space = 0\<rparr>
     [''f'' \<mapsto> bf_file_head (bf_zero\<lparr>bf_hash_num := 1\<rparr>)] (Some bf_zero) (Some ''f'') =
       (Some bf, Ret 0) \<and> snd (dao_bloomfilter_check (Some bf) (Some [1])) = Crash"
  by (rule bloom_load_zero_bits) simp_all

end
