(* ===== verification/CountingBloom.thy ===== *)
theory CountingBloom imports MurmurHash FilterSpec "HOL-Library.Multiset" begin

text \<open>
  \<open>kernel/countingbloomfilter.c\<close>: the 4-bit counters of the bitmap, the counting Bloom filter
  over them, and the scaling filter, a growing sequence of counting filters in one bitmap, each
  responsible for the keys whose id is at least its own. An access outside the bitmap and a null
  dereference are \<open>None\<close>.

  The headers (id, count; max id, sequence numbers) lie in the bitmap before the counters of
  their filter, as in the code: a header pointer is an offset into the bitmap and its fields are
  read and written as little-endian integers. Allocation, \<open>mmap\<close> and \<open>ftruncate\<close> succeed (a
  grown file reads as zeros); \<open>double\<close> arithmetic is a parameter record; sizes in bytes are
  natural numbers.
\<close>

section \<open>The 4-bit counters\<close>

definition bitmap_increment :: "bytes \<Rightarrow> u32 \<Rightarrow> nat \<Rightarrow> (bytes \<times> int) option" where
  "bitmap_increment array index offset =
     (let access = unat (index div 2) + offset in
      if access < length array then
        (let n = array ! access;
             (temp, n') =
               (if index mod 2 \<noteq> 0
                then (n AND 0x0f, (n AND 0xf0) + ((n AND 0x0f) + 0x01))
                else (drop_bit 4 (n AND 0xf0), (n AND 0x0f) + ((n AND 0xf0) + 0x10)))
         in if temp = 0x0f then Some (array, - 1) else Some (array[access := n'], 0))
      else None)"

definition bitmap_decrement :: "bytes \<Rightarrow> u32 \<Rightarrow> nat \<Rightarrow> (bytes \<times> int) option" where
  "bitmap_decrement array index offset =
     (let access = unat (index div 2) + offset in
      if access < length array then
        (let n = array ! access;
             (temp, n') =
               (if index mod 2 \<noteq> 0
                then (n AND 0x0f, (n AND 0xf0) + ((n AND 0x0f) - 0x01))
                else (drop_bit 4 (n AND 0xf0), (n AND 0x0f) + ((n AND 0xf0) - 0x10)))
         in if temp = 0x00 then Some (array, - 1) else Some (array[access := n'], 0))
      else None)"

definition bitmap_check :: "bytes \<Rightarrow> u32 \<Rightarrow> nat \<Rightarrow> u8 option" where
  "bitmap_check array index offset =
     (let access = unat (index div 2) + offset in
      if access < length array then
        (if index mod 2 \<noteq> 0 then Some (array ! access AND 0x0f) else Some (array ! access AND 0xf0))
      else None)"

text \<open>The value of counter \<open>j\<close> of the region that starts at \<open>offset\<close>.\<close>

definition nibble :: "u8 \<Rightarrow> bool \<Rightarrow> nat" where
  "nibble n odd_index = (if odd_index then unat n mod 16 else unat n div 16)"

definition counter :: "bytes \<Rightarrow> nat \<Rightarrow> nat \<Rightarrow> nat" where
  "counter array offset j = nibble (array ! (j div 2 + offset)) (odd j)"

lemma nibble_less: "nibble n b < 16"
  using unat_u8_less [of n] by (auto simp: nibble_def)

lemma low_nibble: "unat (n AND 0x0f :: u8) = unat n mod 16"
proof -
  have "n AND 0x0f = take_bit 4 n" by (simp add: take_bit_eq_mask mask_eq_exp_minus_1)
  then show ?thesis by (simp add: unsigned_take_bit_eq take_bit_eq_mod unat_mod)
qed

lemma high_nibble_eq: "n AND 0xf0 = push_bit 4 (drop_bit 4 (n :: u8))"
proof (rule bit_word_eqI)
  fix i :: nat assume "i < LENGTH(8)"
  then have "i \<in> {0, 1, 2, 3, 4, 5, 6, 7}" by auto
  then show "bit (n AND 0xf0) i = bit (push_bit 4 (drop_bit 4 n)) i"
    by (auto simp: bit_simps)
qed

lemma high_nibble: "unat (n AND 0xf0 :: u8) = 16 * (unat n div 16)"
  using unat_u8_less [of n]
  by (simp add: high_nibble_eq push_bit_eq_mult unat_word_ariths unat_drop_bit_eq drop_bit_eq_div)

lemma drop_high_nibble: "unat (drop_bit 4 (n AND 0xf0 :: u8)) = unat n div 16"
  by (simp add: drop_bit_eq_div unat_div high_nibble)

lemma word_eq_unat: "w = v \<longleftrightarrow> unat w = unat v" for w v :: "'a::len word"
  by (simp add: word_unat_eq_iff)

lemma odd_index: "(index :: u32) mod 2 = 0 \<longleftrightarrow> even (unat index)"
  by (simp add: word_eq_unat [of "index mod 2"] unat_mod even_iff_mod_2_eq_zero)

lemma nibble_tests:
  "n AND 0x0f = 0x0f \<longleftrightarrow> unat n mod 16 = 15" "n AND 0x0f = 0 \<longleftrightarrow> unat n mod 16 = 0"
  "drop_bit 4 (n AND 0xf0) = 0x0f \<longleftrightarrow> unat n div 16 = 15"
  "drop_bit 4 (n AND 0xf0) = 0 \<longleftrightarrow> unat n div 16 = 0"
  "n AND 0xf0 = 0 \<longleftrightarrow> unat n div 16 = 0" for n :: u8
  by (simp_all only: word_eq_unat low_nibble drop_high_nibble high_nibble) simp_all

lemma unat_index_div2: "unat ((index :: u32) div 2) = unat index div 2"
  by (simp add: unat_div)

text \<open>The effect of a step on a byte, read as numbers.\<close>

lemma nibble_ne: "nibble n True \<noteq> 15 \<longleftrightarrow> unat n mod 16 \<noteq> 15" "nibble n False \<noteq> 15 \<longleftrightarrow> unat n div 16 \<noteq> 15"
    "nibble n True \<noteq> 0 \<longleftrightarrow> unat n mod 16 \<noteq> 0" "nibble n False \<noteq> 0 \<longleftrightarrow> unat n div 16 \<noteq> 0"
  by (simp_all add: nibble_def)

lemma unat_nibbles: "unat n = 16 * nibble n False + nibble n True"
  by (simp add: nibble_def)

lemma nibble_pair:
  assumes "unat (n :: u8) = 16 * h + l" "l < 16"
  shows "nibble n True = l \<and> nibble n False = h"
  unfolding nibble_def assms(1) using assms(2) by simp

lemma and_nibbles:
  "unat (n AND 0x0f :: u8) = nibble n True" "unat (n AND 0xf0 :: u8) = 16 * nibble n False"
  by (simp_all only: low_nibble high_nibble nibble_def if_True if_False)

lemma nibble_cases:
  obtains h l where "nibble n False = h" "nibble n True = l" "h < 16" "l < 16"
  using nibble_less [of n True] nibble_less [of n False] by blast

lemma inc_low:
  assumes "unat (n :: u8) mod 16 \<noteq> 15"
  shows "nibble ((n AND 0xf0) + ((n AND 0x0f) + 0x01)) True = nibble n True + 1 \<and>
         nibble ((n AND 0xf0) + ((n AND 0x0f) + 0x01)) False = nibble n False"
proof -
  obtain h l where hl: "nibble n False = h" "nibble n True = l" "h < 16" "l < 16"
    by (rule nibble_cases)
  have l: "l + 1 < 16" using assms hl nibble_ne(1) [of n] by simp
  have "unat ((n AND 0xf0) + ((n AND 0x0f) + 0x01)) = 16 * h + (l + 1)"
    using hl(3) l unfolding unat_word_ariths and_nibbles hl by simp
  from nibble_pair [OF this l] show ?thesis unfolding hl by simp
qed

lemma inc_high:
  assumes "unat (n :: u8) div 16 \<noteq> 15"
  shows "nibble ((n AND 0x0f) + ((n AND 0xf0) + 0x10)) False = nibble n False + 1 \<and>
         nibble ((n AND 0x0f) + ((n AND 0xf0) + 0x10)) True = nibble n True"
proof -
  obtain h l where hl: "nibble n False = h" "nibble n True = l" "h < 16" "l < 16"
    by (rule nibble_cases)
  have h: "h + 1 < 16" using assms hl nibble_ne(2) [of n] by simp
  have "unat ((n AND 0x0f) + ((n AND 0xf0) + 0x10)) = 16 * (h + 1) + l"
    using hl(4) h unfolding unat_word_ariths and_nibbles hl by simp
  from nibble_pair [OF this hl(4)] show ?thesis unfolding hl by simp
qed

lemma dec_low:
  assumes "unat (n :: u8) mod 16 \<noteq> 0"
  shows "nibble ((n AND 0xf0) + ((n AND 0x0f) - 0x01)) True = nibble n True - 1 \<and>
         nibble ((n AND 0xf0) + ((n AND 0x0f) - 0x01)) False = nibble n False"
proof -
  obtain h l where hl: "nibble n False = h" "nibble n True = l" "h < 16" "l < 16"
    by (rule nibble_cases)
  have l: "0 < l" "l - 1 < 16" using assms hl nibble_ne(3) [of n] by simp_all
  have "unat ((n AND 0x0f) - 0x01) = l - 1"
    using l hl by (subst unat_sub) (simp_all only: word_le_nat_alt and_nibbles, simp_all)
  then have "unat ((n AND 0xf0) + ((n AND 0x0f) - 0x01)) = (16 * h + (l - 1)) mod 2 ^ LENGTH(8)"
    by (simp only: unat_word_ariths(1) and_nibbles hl)
  also have "\<dots> = 16 * h + (l - 1)"
    using hl(3) l by (intro mod_less) simp
  finally have "unat ((n AND 0xf0) + ((n AND 0x0f) - 0x01)) = 16 * h + (l - 1)" .
  from nibble_pair [OF this l(2)] show ?thesis unfolding hl by simp
qed

lemma dec_high:
  assumes "unat (n :: u8) div 16 \<noteq> 0"
  shows "nibble ((n AND 0x0f) + ((n AND 0xf0) - 0x10)) False = nibble n False - 1 \<and>
         nibble ((n AND 0x0f) + ((n AND 0xf0) - 0x10)) True = nibble n True"
proof -
  obtain h l where hl: "nibble n False = h" "nibble n True = l" "h < 16" "l < 16"
    by (rule nibble_cases)
  have h: "0 < h" using assms hl nibble_ne(4) [of n] by simp
  have "unat ((n AND 0xf0) - 0x10) = 16 * h - 16"
    using h hl by (subst unat_sub) (simp_all only: word_le_nat_alt and_nibbles, simp_all)
  then have "unat ((n AND 0x0f) + ((n AND 0xf0) - 0x10)) = (l + (16 * h - 16)) mod 2 ^ LENGTH(8)"
    by (simp only: unat_word_ariths(1) and_nibbles hl)
  also have "\<dots> = 16 * (h - 1) + l"
    using h hl(3,4) by (cases h) simp_all
  finally have "unat ((n AND 0x0f) + ((n AND 0xf0) - 0x10)) = 16 * (h - 1) + l" .
  from nibble_pair [OF this hl(4)] show ?thesis unfolding hl by simp
qed

text \<open>A counter step at \<open>index\<close> as a function on one counter.\<close>

definition counter_upd :: "bytes \<Rightarrow> bytes \<Rightarrow> nat \<Rightarrow> nat \<Rightarrow> (nat \<Rightarrow> nat) \<Rightarrow> bool" where
  "counter_upd array array' offset j f \<longleftrightarrow>
     length array' = length array \<and>
     counter array' offset j = f (counter array offset j) \<and>
     (\<forall>i. i \<noteq> j \<longrightarrow> counter array' offset i = counter array offset i) \<and>
     (\<forall>p. p \<noteq> j div 2 + offset \<longrightarrow> array' ! p = array ! p)"

lemma counter_upd_byte:
  assumes "j div 2 + offset < length array"
    and "nibble n' (odd j) = f (nibble (array ! (j div 2 + offset)) (odd j))"
    and "nibble n' (even j) = nibble (array ! (j div 2 + offset)) (even j)"
  shows "counter_upd array (array[j div 2 + offset := n']) offset j f"
proof -
  have "counter (array[j div 2 + offset := n']) offset i = counter array offset i" if "i \<noteq> j" for i
  proof (cases "i div 2 = j div 2")
    case True
    then have "odd i = even j" using that by (metis div_mult_mod_eq even_iff_mod_2_eq_zero not_mod_2_eq_1_eq_0)
    then show ?thesis using assms(1,3) True by (simp add: counter_def)
  qed (simp add: counter_def)
  then show ?thesis using assms(1,2) by (simp add: counter_upd_def counter_def)
qed

lemma counter_upd_refl: "f (counter array offset j) = counter array offset j \<Longrightarrow> counter_upd array array offset j f"
  by (simp add: counter_upd_def)

text \<open>The bitmap operations with their conditions read as numbers.\<close>

lemma bitmap_increment_eq:
  "bitmap_increment array index offset =
     (let access = unat index div 2 + offset; n = array ! access in
      if access < length array then
        if odd (unat index) then
          if unat n mod 16 = 15 then Some (array, - 1)
          else Some (array[access := (n AND 0xf0) + ((n AND 0x0f) + 0x01)], 0)
        else
          if unat n div 16 = 15 then Some (array, - 1)
          else Some (array[access := (n AND 0x0f) + ((n AND 0xf0) + 0x10)], 0)
      else None)"
  unfolding bitmap_increment_def Let_def odd_index unat_index_div2
  by (cases "odd (unat index)") (simp_all only: nibble_tests if_True if_False not_not
      simp_thms prod.case)

lemma bitmap_decrement_eq:
  "bitmap_decrement array index offset =
     (let access = unat index div 2 + offset; n = array ! access in
      if access < length array then
        if odd (unat index) then
          if unat n mod 16 = 0 then Some (array, - 1)
          else Some (array[access := (n AND 0xf0) + ((n AND 0x0f) - 0x01)], 0)
        else
          if unat n div 16 = 0 then Some (array, - 1)
          else Some (array[access := (n AND 0x0f) + ((n AND 0xf0) - 0x10)], 0)
      else None)"
  unfolding bitmap_decrement_def Let_def odd_index unat_index_div2
  by (cases "odd (unat index)") (simp_all only: nibble_tests if_True if_False not_not
      simp_thms prod.case)

lemma bitmap_increment_Some:
  assumes "unat index div 2 + offset < length array"
  shows "\<exists>array'. bitmap_increment array index offset =
            Some (array', if counter array offset (unat index) = 15 then - 1 else 0) \<and>
          counter_upd array array' offset (unat index) (\<lambda>c. min 15 (c + 1))"
proof -
  let ?n = "array ! (unat index div 2 + offset)"
  have le: "nibble ?n b \<noteq> 15 \<Longrightarrow> min 15 (nibble ?n b + 1) = nibble ?n b + 1" for b
    using nibble_less [of ?n b] by simp
  show ?thesis
  proof (cases "odd (unat index)")
    case True
    then show ?thesis using assms le [of True] inc_low [of ?n] nibble_ne(1) [of ?n]
      by (cases "nibble ?n True = 15")
        (auto simp: bitmap_increment_eq Let_def counter_def intro!: counter_upd_byte counter_upd_refl)
  next
    case False
    then show ?thesis using assms le [of False] inc_high [of ?n] nibble_ne(2) [of ?n]
      by (cases "nibble ?n False = 15")
        (auto simp: bitmap_increment_eq Let_def counter_def intro!: counter_upd_byte counter_upd_refl)
  qed
qed

lemma bitmap_decrement_Some:
  assumes "unat index div 2 + offset < length array"
  shows "\<exists>array'. bitmap_decrement array index offset =
            Some (array', if counter array offset (unat index) = 0 then - 1 else 0) \<and>
          counter_upd array array' offset (unat index) (\<lambda>c. c - 1)"
proof -
  let ?n = "array ! (unat index div 2 + offset)"
  show ?thesis
  proof (cases "odd (unat index)")
    case True
    then show ?thesis using assms dec_low [of ?n] nibble_ne(3) [of ?n]
      by (cases "nibble ?n True = 0")
        (auto simp: bitmap_decrement_eq Let_def counter_def intro!: counter_upd_byte counter_upd_refl)
  next
    case False
    then show ?thesis using assms dec_high [of ?n] nibble_ne(4) [of ?n]
      by (cases "nibble ?n False = 0")
        (auto simp: bitmap_decrement_eq Let_def counter_def intro!: counter_upd_byte counter_upd_refl)
  qed
qed

lemma bitmap_check_Some:
  assumes "unat index div 2 + offset < length array"
  shows "\<exists>r. bitmap_check array index offset = Some r \<and>
          (r = 0 \<longleftrightarrow> counter array offset (unat index) = 0)"
proof -
  have "bitmap_check array index offset =
          Some (if odd (unat index) then array ! (unat index div 2 + offset) AND 0x0f
                else array ! (unat index div 2 + offset) AND 0xf0)"
    using assms unfolding bitmap_check_def Let_def odd_index unat_index_div2
    by (simp only: if_True if_distrib [of Some])
  then show ?thesis by (simp only: counter_def nibble_def option.inject ex_simps) (auto simp: nibble_tests)
qed

section \<open>Integers inside the bitmap\<close>

definition get32 :: "bytes \<Rightarrow> nat \<Rightarrow> u32 option" where
  "get32 array p = (if p + 4 \<le> length array then Some (le32 (take 4 (drop p array))) else None)"

definition get64 :: "bytes \<Rightarrow> nat \<Rightarrow> u64 option" where
  "get64 array p = (if p + 8 \<le> length array then Some (le64 (take 8 (drop p array))) else None)"

definition put_bytes :: "bytes \<Rightarrow> nat \<Rightarrow> bytes \<Rightarrow> bytes" where
  "put_bytes array p bs = take p array @ bs @ drop (p + length bs) array"

definition put32 :: "bytes \<Rightarrow> nat \<Rightarrow> u32 \<Rightarrow> bytes option" where
  "put32 array p v = (if p + 4 \<le> length array then Some (put_bytes array p (le_bytes32 v)) else None)"

definition put64 :: "bytes \<Rightarrow> nat \<Rightarrow> u64 \<Rightarrow> bytes option" where
  "put64 array p v = (if p + 8 \<le> length array then Some (put_bytes array p (le_bytes64 v)) else None)"

lemma length_put_bytes: "p + length bs \<le> length array \<Longrightarrow> length (put_bytes array p bs) = length array"
  by (simp add: put_bytes_def)

lemma nth_put_bytes:
  assumes "p + length bs \<le> length array"
  shows "put_bytes array p bs ! q =
    (if p \<le> q \<and> q < p + length bs then bs ! (q - p) else array ! q)"
proof -
  consider "q < p" | "p \<le> q" "q < p + length bs" | "p + length bs \<le> q" by linarith
  then show ?thesis
  proof cases
    case 3
    then obtain r where "q = p + length bs + r" by (metis le_Suc_ex)
    then show ?thesis
      using assms by (simp add: put_bytes_def nth_append)
  qed (use assms in \<open>auto simp: put_bytes_def nth_append\<close>)
qed

lemma put_Some:
  "p + 4 \<le> length array \<Longrightarrow> \<exists>a. put32 array p v = Some a \<and> length a = length array \<and>
     get32 a p = Some v \<and> (\<forall>q. q < p \<or> p + 4 \<le> q \<longrightarrow> a ! q = array ! q)"
  "p + 8 \<le> length array \<Longrightarrow> \<exists>a. put64 array p w = Some a \<and> length a = length array \<and>
     get64 a p = Some w \<and> (\<forall>q. q < p \<or> p + 8 \<le> q \<longrightarrow> a ! q = array ! q)"
  by (auto simp: put32_def put64_def get32_def get64_def length_put_bytes nth_put_bytes)
     (simp_all add: put_bytes_def)

text \<open>Two bitmaps that agree on a range: the frame of every read.\<close>

definition same_on :: "bytes \<Rightarrow> bytes \<Rightarrow> nat \<Rightarrow> nat \<Rightarrow> bool" where
  "same_on a b lo hi \<longleftrightarrow> (\<forall>q. lo \<le> q \<and> q < hi \<longrightarrow> a ! q = b ! q)"

lemma same_on_trans: "same_on a b lo hi \<Longrightarrow> same_on b c lo hi \<Longrightarrow> same_on a c lo hi"
  by (simp add: same_on_def)

lemma same_on_mono: "same_on a b lo hi \<Longrightarrow> lo \<le> lo' \<Longrightarrow> hi' \<le> hi \<Longrightarrow> same_on a b lo' hi'"
  by (simp add: same_on_def)

lemma same_on_take_drop:
  assumes "same_on a b p (p + n)" "p + n \<le> length a" "p + n \<le> length b"
  shows "take n (drop p a) = take n (drop p b)"
  by (rule nth_equalityI) (use assms in \<open>auto simp: same_on_def\<close>)

lemma get_same_on:
  "length a \<le> length b \<Longrightarrow> p + 4 \<le> length a \<Longrightarrow> same_on a b p (p + 4) \<Longrightarrow> get32 a p = get32 b p"
  "length a \<le> length b \<Longrightarrow> p + 8 \<le> length a \<Longrightarrow> same_on a b p (p + 8) \<Longrightarrow> get64 a p = get64 b p"
  by (simp_all add: get32_def get64_def same_on_take_drop)

lemma counter_same_on:
  "same_on a b off hi \<Longrightarrow> j div 2 + off < hi \<Longrightarrow> counter a off j = counter b off j"
  by (simp add: counter_def same_on_def)

section \<open>One counting filter\<close>

record fp_counting =
  fc_nfuncs :: "c_double \<Rightarrow> nat"
  fc_counts :: "u32 \<Rightarrow> c_double \<Rightarrow> nat \<Rightarrow> u32"
  fc_tighten :: "c_double \<Rightarrow> u32 \<Rightarrow> c_double"

record counting_bloom_t =
  cb_header :: nat
  cb_capacity :: u32
  cb_offset :: nat
  cb_counts_per_func :: u32
  cb_nfuncs :: nat
  cb_size :: nat
  cb_num_bytes :: nat
  cb_error_rate :: c_double

definition SALT_CONSTANT :: u32 where "SALT_CONSTANT = 0x97c29b3a"

definition hash_func :: "counting_bloom_t \<Rightarrow> bytes \<Rightarrow> u32 list option" where
  "hash_func bloom key =
     (let (w0, w1) = MurmurHash3_x64_128 key SALT_CONSTANT;
          h1 = (ucast w0 :: u32);
          h2 = (ucast (drop_bit 32 w0) :: u32)
      in if cb_nfuncs bloom = 0 then Some []
         else if cb_counts_per_func bloom = 0 then None
         else Some (map (\<lambda>i. (h1 + of_nat i * h2) mod cb_counts_per_func bloom) [0..<cb_nfuncs bloom]))"

definition counting_bloom_init :: "fp_counting \<Rightarrow> u32 \<Rightarrow> c_double \<Rightarrow> nat \<Rightarrow> counting_bloom_t" where
  "counting_bloom_init fp capacity error_rate offset =
     (let nfuncs = fc_nfuncs fp error_rate;
          counts = fc_counts fp capacity error_rate nfuncs;
          size = nfuncs * unat counts
      in \<lparr>cb_header = offset, cb_capacity = capacity, cb_offset = offset + 16,
          cb_counts_per_func = counts, cb_nfuncs = nfuncs, cb_size = size,
          cb_num_bytes = (size + 1) div 2 + 16, cb_error_rate = error_rate\<rparr>)"

definition cb_index :: "counting_bloom_t \<Rightarrow> u32 list \<Rightarrow> nat \<Rightarrow> u32" where
  "cb_index bloom hashes i =
     (let offset = of_nat i * cb_counts_per_func bloom in hashes ! i + offset)"

fun cb_add_loop :: "bytes \<Rightarrow> nat \<Rightarrow> u32 list \<Rightarrow> bytes option" where
  "cb_add_loop array offset [] = Some array"
| "cb_add_loop array offset (index # is) =
     (case bitmap_increment array index offset of
        None \<Rightarrow> None
      | Some (array', _) \<Rightarrow> cb_add_loop array' offset is)"

fun cb_remove_loop :: "bytes \<Rightarrow> nat \<Rightarrow> u32 list \<Rightarrow> bytes option" where
  "cb_remove_loop array offset [] = Some array"
| "cb_remove_loop array offset (index # is) =
     (case bitmap_decrement array index offset of
        None \<Rightarrow> None
      | Some (array', _) \<Rightarrow> cb_remove_loop array' offset is)"

fun cb_check_loop :: "bytes \<Rightarrow> nat \<Rightarrow> u32 list \<Rightarrow> int option" where
  "cb_check_loop array offset [] = Some 1"
| "cb_check_loop array offset (index # is) =
     (case bitmap_check array index offset of
        None \<Rightarrow> None
      | Some r \<Rightarrow> if r = 0 then Some 0 else cb_check_loop array offset is)"

definition counting_bloom_add :: "counting_bloom_t \<Rightarrow> bytes \<Rightarrow> bytes \<Rightarrow> (bytes \<times> int) option" where
  "counting_bloom_add bloom array s =
     (case hash_func bloom s of
        None \<Rightarrow> None
      | Some hashes \<Rightarrow>
          (case cb_add_loop array (cb_offset bloom) (map (cb_index bloom hashes) [0..<cb_nfuncs bloom]) of
             None \<Rightarrow> None
           | Some array' \<Rightarrow>
               (case get32 array' (cb_header bloom + 8) of
                  None \<Rightarrow> None
                | Some n \<Rightarrow> map_option (\<lambda>a. (a, 0)) (put32 array' (cb_header bloom + 8) (n + 1)))))"

definition counting_bloom_remove :: "counting_bloom_t \<Rightarrow> bytes \<Rightarrow> bytes \<Rightarrow> (bytes \<times> int) option" where
  "counting_bloom_remove bloom array s =
     (case hash_func bloom s of
        None \<Rightarrow> None
      | Some hashes \<Rightarrow>
          (case cb_remove_loop array (cb_offset bloom) (map (cb_index bloom hashes) [0..<cb_nfuncs bloom]) of
             None \<Rightarrow> None
           | Some array' \<Rightarrow>
               (case get32 array' (cb_header bloom + 8) of
                  None \<Rightarrow> None
                | Some n \<Rightarrow> map_option (\<lambda>a. (a, 0)) (put32 array' (cb_header bloom + 8) (n - 1)))))"

definition counting_bloom_check :: "counting_bloom_t \<Rightarrow> bytes \<Rightarrow> bytes \<Rightarrow> int option" where
  "counting_bloom_check bloom array s =
     (case hash_func bloom s of
        None \<Rightarrow> None
      | Some hashes \<Rightarrow>
          cb_check_loop array (cb_offset bloom) (map (cb_index bloom hashes) [0..<cb_nfuncs bloom]))"

section \<open>What the operations do to the counters\<close>

definition cb_wf :: "counting_bloom_t \<Rightarrow> bytes \<Rightarrow> bool" where
  "cb_wf bloom array \<longleftrightarrow>
     0 < cb_counts_per_func bloom \<and> cb_size bloom = cb_nfuncs bloom * unat (cb_counts_per_func bloom) \<and>
     cb_size bloom < 2 ^ 32 \<and> cb_offset bloom = cb_header bloom + 16 \<and>
     cb_num_bytes bloom = (cb_size bloom + 1) div 2 + 16 \<and>
     cb_header bloom + cb_num_bytes bloom \<le> length array"

definition cb_slots :: "counting_bloom_t \<Rightarrow> bytes \<Rightarrow> u32 list" where
  "cb_slots bloom s = map (cb_index bloom (the (hash_func bloom s))) [0..<cb_nfuncs bloom]"

definition slot_set :: "counting_bloom_t \<Rightarrow> bytes \<Rightarrow> nat set" where
  "slot_set bloom s = unat ` set (cb_slots bloom s)"

lemma cb_index_unat:
  assumes "i < n" "n * unat c < 2 ^ 32" "unat (h :: u32) < unat (c :: u32)"
  shows "unat (h + of_nat i * c) = unat h + i * unat c \<and> unat h + i * unat c < n * unat c"
proof -
  have "(i + 1) * unat c \<le> n * unat c" using assms(1) by (intro mult_le_mono1) simp
  then have b: "unat h + i * unat c < n * unat c" using assms(3) by simp
  have "n \<noteq> 0" "0 < unat c" using assms(1,3) by auto
  then have "i < 2 ^ 32" using assms(1,2)
    by (metis le_less_trans less_imp_le_nat less_nat_zero_code mult.commute n_less_m_mult_n
        nat_mult_1 not_less_iff_gr_or_eq order.strict_trans one_less_mult mult_less_cancel2 nat_neq_iff less_one)
  then have "unat (of_nat i :: u32) = i" by (simp add: unat_of_nat take_bit_nat_eq_self)
  moreover have "i * unat c < 2 ^ 32" using b assms(2) by linarith
  ultimately have "unat (of_nat i * c) = i * unat c" by (simp add: unat_word_ariths)
  moreover have "unat h + i * unat c < 2 ^ 32" using b assms(2) by linarith
  ultimately show ?thesis using b by (simp add: unat_word_ariths)
qed

lemma hash_func_wf:
  assumes "cb_wf bloom array"
  shows "\<exists>hashes. hash_func bloom s = Some hashes \<and>
    (\<forall>i<cb_nfuncs bloom. unat (hashes ! i) < unat (cb_counts_per_func bloom))"
  using assms by (auto simp: hash_func_def cb_wf_def unat_mod_less Let_def split: prod.splits)

lemma cb_slots_nth:
  assumes "cb_wf bloom array" "i < cb_nfuncs bloom"
  shows "\<exists>h < unat (cb_counts_per_func bloom).
     unat (cb_slots bloom s ! i) = h + i * unat (cb_counts_per_func bloom) \<and>
     unat (cb_slots bloom s ! i) < cb_size bloom"
proof -
  obtain hashes where h: "hash_func bloom s = Some hashes"
      "\<forall>i<cb_nfuncs bloom. unat (hashes ! i) < unat (cb_counts_per_func bloom)"
    using hash_func_wf [OF assms(1)] by blast
  have "cb_nfuncs bloom * unat (cb_counts_per_func bloom) < 2 ^ 32"
    and sz: "cb_size bloom = cb_nfuncs bloom * unat (cb_counts_per_func bloom)"
    using assms(1) by (simp_all add: cb_wf_def)
  from cb_index_unat [OF assms(2) this(1)] h assms(2) show ?thesis
    unfolding sz by (auto simp: cb_slots_def cb_index_def)
qed

lemma cb_slots_less: "cb_wf bloom array \<Longrightarrow> n \<in> set (cb_slots bloom s) \<Longrightarrow> unat n < cb_size bloom"
  using cb_slots_nth by (fastforce simp: in_set_conv_nth cb_slots_def)

lemma cb_slots_byte:
  "cb_wf bloom array \<Longrightarrow> n \<in> set (cb_slots bloom s) \<Longrightarrow>
     unat n div 2 + cb_offset bloom < cb_header bloom + cb_num_bytes bloom"
proof -
  assume a: "cb_wf bloom array" "n \<in> set (cb_slots bloom s)"
  have "unat n < cb_size bloom" by (rule cb_slots_less [OF a])
  then have "unat n div 2 < (cb_size bloom + 1) div 2" by presburger
  moreover have "cb_offset bloom = cb_header bloom + 16"
    "cb_num_bytes bloom = (cb_size bloom + 1) div 2 + 16"
    using a(1) by (auto simp: cb_wf_def)
  ultimately show ?thesis by linarith
qed

lemma distinct_cb_slots:
  assumes "cb_wf bloom array"
  shows "distinct (map unat (cb_slots bloom s))"
proof (unfold distinct_conv_nth, intro allI impI)
  fix i j assume ij: "i < length (map unat (cb_slots bloom s))" "j < length (map unat (cb_slots bloom s))" "i \<noteq> j"
  then have l: "i < cb_nfuncs bloom" "j < cb_nfuncs bloom" by (simp_all add: cb_slots_def)
  let ?c = "unat (cb_counts_per_func bloom)"
  obtain h where "h < ?c" "unat (cb_slots bloom s ! i) = h + i * ?c"
    using cb_slots_nth [OF assms l(1)] by blast
  then have i: "unat (cb_slots bloom s ! i) div ?c = i" by simp
  obtain h where "h < ?c" "unat (cb_slots bloom s ! j) = h + j * ?c"
    using cb_slots_nth [OF assms l(2)] by blast
  then have "unat (cb_slots bloom s ! j) div ?c = j" by simp
  with i ij show "map unat (cb_slots bloom s) ! i \<noteq> map unat (cb_slots bloom s) ! j" by auto
qed

text \<open>A pass over several counters.\<close>

definition slots_upd :: "bytes \<Rightarrow> bytes \<Rightarrow> nat \<Rightarrow> nat set \<Rightarrow> (nat \<Rightarrow> nat) \<Rightarrow> bool" where
  "slots_upd array array' offset S f \<longleftrightarrow>
     length array' = length array \<and>
     (\<forall>i. counter array' offset i = (if i \<in> S then f (counter array offset i) else counter array offset i)) \<and>
     (\<forall>p. p \<notin> (\<lambda>j. j div 2 + offset) ` S \<longrightarrow> array' ! p = array ! p)"

lemma slots_upd_empty: "slots_upd array array offset {} f"
  by (simp add: slots_upd_def)

lemma slots_upd_insert:
  "counter_upd a b offset j f \<Longrightarrow> slots_upd b c offset S f \<Longrightarrow> j \<notin> S \<Longrightarrow> slots_upd a c offset (insert j S) f"
  by (auto simp: slots_upd_def counter_upd_def)

lemma cb_add_loop_Some:
  assumes "\<forall>n\<in>set is. unat n div 2 + offset < length array" "distinct (map unat is)"
  shows "\<exists>a. cb_add_loop array offset is = Some a \<and>
    slots_upd array a offset (unat ` set is) (\<lambda>c. min 15 (c + 1))"
  using assms
proof (induction "is" arbitrary: array)
  case (Cons n ns)
  obtain b r where b: "bitmap_increment array n offset = Some (b, r)"
      "counter_upd array b offset (unat n) (\<lambda>c. min 15 (c + 1))"
    using bitmap_increment_Some [of n offset array] Cons.prems by auto
  then have "\<forall>m\<in>set ns. unat m div 2 + offset < length b"
    using Cons.prems by (simp add: counter_upd_def)
  with Cons.IH [of b] Cons.prems obtain a where a: "cb_add_loop b offset ns = Some a"
      "slots_upd b a offset (unat ` set ns) (\<lambda>c. min 15 (c + 1))" by auto
  then show ?case using b slots_upd_insert [OF b(2) a(2)] Cons.prems by simp
qed (simp add: slots_upd_empty)

lemma cb_remove_loop_Some:
  assumes "\<forall>n\<in>set is. unat n div 2 + offset < length array" "distinct (map unat is)"
  shows "\<exists>a. cb_remove_loop array offset is = Some a \<and>
    slots_upd array a offset (unat ` set is) (\<lambda>c. c - 1)"
  using assms
proof (induction "is" arbitrary: array)
  case (Cons n ns)
  obtain b r where b: "bitmap_decrement array n offset = Some (b, r)"
      "counter_upd array b offset (unat n) (\<lambda>c. c - 1)"
    using bitmap_decrement_Some [of n offset array] Cons.prems by auto
  then have "\<forall>m\<in>set ns. unat m div 2 + offset < length b"
    using Cons.prems by (simp add: counter_upd_def)
  with Cons.IH [of b] Cons.prems obtain a where a: "cb_remove_loop b offset ns = Some a"
      "slots_upd b a offset (unat ` set ns) (\<lambda>c. c - 1)" by auto
  then show ?case using b slots_upd_insert [OF b(2) a(2)] Cons.prems by simp
qed (simp add: slots_upd_empty)

lemma cb_check_loop_Some:
  assumes "\<forall>n\<in>set is. unat n div 2 + offset < length array"
  shows "cb_check_loop array offset is =
    Some (if \<forall>n\<in>set is. counter array offset (unat n) \<noteq> 0 then 1 else 0)"
  using assms
proof (induction "is")
  case (Cons n ns)
  then show ?case using bitmap_check_Some [of n offset array] by auto
qed simp

text \<open>The effect of a whole operation: the counters, the count of the header, and the frame.\<close>

definition cb_effect :: "counting_bloom_t \<Rightarrow> bytes \<Rightarrow> bytes \<Rightarrow> bytes \<Rightarrow> (nat \<Rightarrow> nat) \<Rightarrow> (u32 \<Rightarrow> u32) \<Rightarrow> bool" where
  "cb_effect bloom s array array' f g \<longleftrightarrow>
     length array' = length array \<and>
     (\<forall>j. counter array' (cb_offset bloom) j =
        (if j \<in> slot_set bloom s then f (counter array (cb_offset bloom) j)
         else counter array (cb_offset bloom) j)) \<and>
     get32 array' (cb_header bloom + 8) = map_option g (get32 array (cb_header bloom + 8)) \<and>
     same_on array' array 0 (cb_header bloom + 8) \<and>
     (\<forall>p \<ge> cb_header bloom + cb_num_bytes bloom. array' ! p = array ! p)"

lemma cb_effectI:
  assumes wf: "cb_wf bloom array" and u: "slots_upd array b (cb_offset bloom) (slot_set bloom s) f"
  shows "\<exists>n a. get32 b (cb_header bloom + 8) = Some n \<and> put32 b (cb_header bloom + 8) (g n) = Some a \<and>
     cb_effect bloom s array a f g"
proof -
  let ?p = "cb_header bloom + 8"
  have len: "?p + 4 \<le> length array" "length b = length array"
    using wf u by (auto simp: cb_wf_def slots_upd_def)
  have off: "cb_offset bloom = cb_header bloom + 16" using wf by (simp add: cb_wf_def)
  have lo: "b ! p = array ! p" if "p < cb_offset bloom" for p
  proof -
    have "p \<notin> (\<lambda>j. j div 2 + cb_offset bloom) ` slot_set bloom s" using that by auto
    then show ?thesis using u by (simp add: slots_upd_def)
  qed
  have hi: "b ! p = array ! p" if "cb_header bloom + cb_num_bytes bloom \<le> p" for p
  proof -
    have "p \<notin> (\<lambda>j. j div 2 + cb_offset bloom) ` slot_set bloom s"
      using that by (auto simp: slot_set_def dest!: cb_slots_byte [OF wf])
    then show ?thesis using u by (simp add: slots_upd_def)
  qed
  obtain n where n: "get32 b ?p = Some n" using len by (auto simp: get32_def)
  have "get32 array ?p = Some n"
    using n len off by (subst get_same_on(1) [of array b]) (auto simp: same_on_def lo)
  moreover obtain a where a: "put32 b ?p (g n) = Some a" "length a = length b"
      "get32 a ?p = Some (g n)" "\<forall>q. q < ?p \<or> ?p + 4 \<le> q \<longrightarrow> a ! q = b ! q"
    using put_Some(1) [of ?p b "g n"] len by auto
  moreover have "counter a (cb_offset bloom) j = counter b (cb_offset bloom) j" for j
    using a(4) off by (simp add: counter_def)
  moreover have "cb_header bloom + cb_num_bytes bloom \<ge> ?p + 4" using wf by (simp add: cb_wf_def)
  ultimately have "cb_effect bloom s array a f g"
    using u len off lo hi by (auto simp: cb_effect_def slots_upd_def same_on_def)
  then show ?thesis using n a by blast
qed

lemma counting_bloom_add_wf:
  assumes "cb_wf bloom array"
  shows "\<exists>a. counting_bloom_add bloom array s = Some (a, 0) \<and>
     cb_effect bloom s array a (\<lambda>c. min 15 (c + 1)) (\<lambda>n. n + 1)"
proof -
  obtain hashes where h: "hash_func bloom s = Some hashes" using hash_func_wf [OF assms] by blast
  have bd: "\<forall>n\<in>set (cb_slots bloom s). unat n div 2 + cb_offset bloom < length array"
    using cb_slots_byte [OF assms] assms by (fastforce simp: cb_wf_def)
  obtain b where b: "cb_add_loop array (cb_offset bloom) (cb_slots bloom s) = Some b"
      "slots_upd array b (cb_offset bloom) (slot_set bloom s) (\<lambda>c. min 15 (c + 1))"
    using cb_add_loop_Some [OF bd distinct_cb_slots [OF assms]] by (auto simp: slot_set_def)
  from cb_effectI [OF assms b(2), of "\<lambda>n. n + 1"] b(1) h show ?thesis
    by (auto simp: counting_bloom_add_def cb_slots_def)
qed

lemma counting_bloom_remove_wf:
  assumes "cb_wf bloom array"
  shows "\<exists>a. counting_bloom_remove bloom array s = Some (a, 0) \<and>
     cb_effect bloom s array a (\<lambda>c. c - 1) (\<lambda>n. n - 1)"
proof -
  obtain hashes where h: "hash_func bloom s = Some hashes" using hash_func_wf [OF assms] by blast
  have bd: "\<forall>n\<in>set (cb_slots bloom s). unat n div 2 + cb_offset bloom < length array"
    using cb_slots_byte [OF assms] assms by (fastforce simp: cb_wf_def)
  obtain b where b: "cb_remove_loop array (cb_offset bloom) (cb_slots bloom s) = Some b"
      "slots_upd array b (cb_offset bloom) (slot_set bloom s) (\<lambda>c. c - 1)"
    using cb_remove_loop_Some [OF bd distinct_cb_slots [OF assms]] by (auto simp: slot_set_def)
  from cb_effectI [OF assms b(2), of "\<lambda>n. n - 1"] b(1) h show ?thesis
    by (auto simp: counting_bloom_remove_def cb_slots_def)
qed

lemma counting_bloom_check_wf:
  assumes "cb_wf bloom array"
  shows "counting_bloom_check bloom array s =
     Some (if \<forall>j\<in>slot_set bloom s. counter array (cb_offset bloom) j \<noteq> 0 then 1 else 0)"
proof -
  obtain hashes where h: "hash_func bloom s = Some hashes" using hash_func_wf [OF assms] by blast
  have bd: "\<forall>n\<in>set (cb_slots bloom s). unat n div 2 + cb_offset bloom < length array"
    using cb_slots_byte [OF assms] assms by (fastforce simp: cb_wf_def)
  from cb_check_loop_Some [OF bd] h show ?thesis
    by (simp add: counting_bloom_check_def cb_slots_def slot_set_def)
qed

lemma cb_wf_length: "length a = length array \<Longrightarrow> cb_wf bloom a = cb_wf bloom array"
  by (simp add: cb_wf_def)

lemma cb_effect_wf: "cb_wf bloom array \<Longrightarrow> cb_effect bloom s array a f g \<Longrightarrow> cb_wf bloom a"
  using cb_wf_length [of a array bloom] by (simp add: cb_effect_def)

section \<open>Creating a filter\<close>

text \<open>
  A \<open>bitmap_t\<close>: the mapped bytes, the bytes of the file behind the mapping, and the image of
  the file on disk, which \<open>msync\<close> brings up to date for the mapped bytes. The list says how the
  coming calls of \<open>msync\<close> end; those after its end succeed.
\<close>

record bitmap_t =
  bm_array :: bytes
  bm_rest :: bytes
  bm_disk :: bytes
  bm_msync :: "bool list"

definition bitmap_resize :: "bitmap_t \<Rightarrow> nat \<Rightarrow> bitmap_t" where
  "bitmap_resize bitmap new_size =
     (let all = bm_array bitmap @ bm_rest bitmap;
          grow = replicate (new_size - length all) 0;
          all = (if length all < new_size then all @ grow else all);
          disk = (if length (bm_disk bitmap) < new_size
                  then bm_disk bitmap @ replicate (new_size - length (bm_disk bitmap)) 0
                  else bm_disk bitmap)
      in bitmap\<lparr>bm_array := take new_size all, bm_rest := drop new_size all, bm_disk := disk\<rparr>)"

definition new_bitmap :: "bytes \<Rightarrow> nat \<Rightarrow> bitmap_t" where
  "new_bitmap file n = bitmap_resize \<lparr>bm_array = [], bm_rest = file, bm_disk = file, bm_msync = []\<rparr> n"

definition bitmap_flush :: "bitmap_t \<Rightarrow> bitmap_t \<times> int" where
  "bitmap_flush bitmap =
     (let ok = (case bm_msync bitmap of [] \<Rightarrow> True | ok # _ \<Rightarrow> ok);
          bitmap = bitmap\<lparr>bm_msync := tl (bm_msync bitmap)\<rparr>
      in if ok then (bitmap\<lparr>bm_disk := bm_array bitmap @ drop (length (bm_array bitmap)) (bm_disk bitmap)\<rparr>, 0)
         else (bitmap, - 1))"

lemma bitmap_flush_array: "bm_array (fst (bitmap_flush bitmap)) = bm_array bitmap"
  by (simp add: bitmap_flush_def Let_def)

definition new_counting_bloom ::
  "fp_counting \<Rightarrow> u32 \<Rightarrow> c_double \<Rightarrow> bool \<Rightarrow> (counting_bloom_t \<times> bitmap_t) option" where
  "new_counting_bloom fp capacity error_rate open_ok =
     (if \<not> open_ok then None
      else
        (let cur_bloom = counting_bloom_init fp capacity error_rate 0
         in Some (cur_bloom, new_bitmap [] (cb_num_bytes cur_bloom))))"

definition new_counting_bloom_from_file ::
  "fp_counting \<Rightarrow> u32 \<Rightarrow> c_double \<Rightarrow> bytes option \<Rightarrow> (counting_bloom_t \<times> bitmap_t) option" where
  "new_counting_bloom_from_file fp capacity error_rate fd =
     (case fd of
        None \<Rightarrow> None
      | Some file \<Rightarrow>
          (let bloom = counting_bloom_init fp capacity error_rate 0 in
           if length file \<noteq> cb_num_bytes bloom then None
           else Some (bloom, new_bitmap file (length file))))"

definition autocreate_counting_bloom_from_file ::
  "fp_counting \<Rightarrow> u32 \<Rightarrow> c_double \<Rightarrow> bytes option \<Rightarrow> (counting_bloom_t \<times> bitmap_t) option" where
  "autocreate_counting_bloom_from_file fp capacity error_rate fd =
     (case fd of
        None \<Rightarrow> None
      | Some file \<Rightarrow>
          (let bloom = counting_bloom_init fp capacity error_rate 0 in
           if length file = 0 then Some (bloom, new_bitmap file (cb_num_bytes bloom))
           else if length file \<noteq> cb_num_bytes bloom then None
           else Some (bloom, new_bitmap file (length file))))"

lemma new_bitmap_simps [simp]:
  "bm_array (new_bitmap [] n) = replicate n 0"
  "length file = n \<Longrightarrow> bm_array (new_bitmap file n) = file"
  by (auto simp: new_bitmap_def bitmap_resize_def Let_def)

definition fp_sane :: "fp_counting \<Rightarrow> u32 \<Rightarrow> c_double \<Rightarrow> bool" where
  "fp_sane fp capacity e \<longleftrightarrow>
     0 < fc_counts fp capacity e (fc_nfuncs fp e) \<and>
     fc_nfuncs fp e * unat (fc_counts fp capacity e (fc_nfuncs fp e)) < 2 ^ 32"

lemma counting_bloom_init_wf:
  assumes "fp_sane fp capacity e" "offset + cb_num_bytes (counting_bloom_init fp capacity e offset) \<le> length array"
  shows "cb_wf (counting_bloom_init fp capacity e offset) array"
  using assms by (auto simp: cb_wf_def counting_bloom_init_def fp_sane_def Let_def)

section \<open>Runs of one filter\<close>

datatype cb_op = CbAdd bytes | CbRemove bytes

fun cb_run :: "counting_bloom_t \<Rightarrow> bytes \<Rightarrow> cb_op list \<Rightarrow> bytes option" where
  "cb_run bloom array [] = Some array"
| "cb_run bloom array (CbAdd s # ops) =
     (case counting_bloom_add bloom array s of None \<Rightarrow> None | Some (a, _) \<Rightarrow> cb_run bloom a ops)"
| "cb_run bloom array (CbRemove s # ops) =
     (case counting_bloom_remove bloom array s of None \<Rightarrow> None | Some (a, _) \<Rightarrow> cb_run bloom a ops)"

text \<open>
  The abstract filter is a multiset of keys. \<open>cb_load M j\<close> is how many keys of \<open>M\<close> use
  counter \<open>j\<close>; a state represents \<open>M\<close> when every counter holds its load and the header holds
  the number of keys.
\<close>

definition cb_load :: "counting_bloom_t \<Rightarrow> bytes multiset \<Rightarrow> nat \<Rightarrow> nat" where
  "cb_load bloom M j = size (filter_mset (\<lambda>s. j \<in> slot_set bloom s) M)"

definition cb_rep :: "counting_bloom_t \<Rightarrow> bytes \<Rightarrow> bytes multiset \<Rightarrow> bool" where
  "cb_rep bloom array M \<longleftrightarrow>
     cb_wf bloom array \<and>
     (\<forall>j<cb_size bloom. counter array (cb_offset bloom) j = cb_load bloom M j) \<and>
     get32 array (cb_header bloom + 8) = Some (of_nat (size M))"

fun cb_spec :: "cb_op list \<Rightarrow> bytes multiset \<Rightarrow> bytes multiset" where
  "cb_spec [] M = M"
| "cb_spec (CbAdd s # ops) M = cb_spec ops (add_mset s M)"
| "cb_spec (CbRemove s # ops) M = cb_spec ops (M - {#s#})"

text \<open>A run that never fills a counter beyond 15 and removes only keys that are present.\<close>

fun cb_run_ok :: "counting_bloom_t \<Rightarrow> bytes multiset \<Rightarrow> cb_op list \<Rightarrow> bool" where
  "cb_run_ok bloom M [] = True"
| "cb_run_ok bloom M (CbAdd s # ops) =
     ((\<forall>n\<in>set (cb_slots bloom s). cb_load bloom M (unat n) < 15) \<and> cb_run_ok bloom (add_mset s M) ops)"
| "cb_run_ok bloom M (CbRemove s # ops) = (s \<in># M \<and> cb_run_ok bloom (M - {#s#}) ops)"

lemma cb_load_add: "cb_load bloom (add_mset s M) j = (if j \<in> slot_set bloom s then 1 else 0) + cb_load bloom M j"
  by (simp add: cb_load_def)

lemma cb_load_remove:
  "s \<in># M \<Longrightarrow> cb_load bloom M j = (if j \<in> slot_set bloom s then 1 else 0) + cb_load bloom (M - {#s#}) j"
  using cb_load_add [of bloom s "M - {#s#}" j] by simp

lemma cb_rep_check:
  assumes "cb_rep bloom array M" "s \<in># M"
  shows "counting_bloom_check bloom array s = Some 1"
proof -
  have wf: "cb_wf bloom array" using assms(1) by (simp add: cb_rep_def)
  have "counter array (cb_offset bloom) j \<noteq> 0" if "j \<in> slot_set bloom s" for j
  proof -
    have "j < cb_size bloom" using that cb_slots_less [OF wf] by (auto simp: slot_set_def)
    then show ?thesis using that assms cb_load_remove [of s M bloom j] by (simp add: cb_rep_def)
  qed
  then show ?thesis by (simp add: counting_bloom_check_wf [OF wf])
qed

lemma cb_rep_run:
  "cb_rep bloom array M \<Longrightarrow> cb_run_ok bloom M ops \<Longrightarrow>
     \<exists>a. cb_run bloom array ops = Some a \<and> cb_rep bloom a (cb_spec ops M)"
proof (induction ops arbitrary: array M)
  case (Cons p ops)
  have wf: "cb_wf bloom array" using Cons.prems(1) by (simp add: cb_rep_def)
  show ?case
  proof (cases p)
    case (CbAdd s)
    obtain a where a: "counting_bloom_add bloom array s = Some (a, 0)"
        "cb_effect bloom s array a (\<lambda>c. min 15 (c + 1)) (\<lambda>n. n + 1)"
      using counting_bloom_add_wf [OF wf] by blast
    have "cb_rep bloom a (add_mset s M)"
      using a(2) Cons.prems cb_effect_wf [OF wf a(2)] CbAdd
      by (auto simp: cb_rep_def cb_effect_def cb_load_add slot_set_def min_def)
    with Cons.IH [OF this] Cons.prems CbAdd a(1) show ?thesis by auto
  next
    case (CbRemove s)
    obtain a where a: "counting_bloom_remove bloom array s = Some (a, 0)"
        "cb_effect bloom s array a (\<lambda>c. c - 1) (\<lambda>n. n - 1)"
      using counting_bloom_remove_wf [OF wf] by blast
    have s: "s \<in># M" using Cons.prems(2) CbRemove by simp
    then obtain N where N: "M = add_mset s N" by (blast dest: multi_member_split)
    have "cb_rep bloom a (M - {#s#})"
      using a(2) Cons.prems(1) cb_effect_wf [OF wf a(2)]
      by (auto simp: cb_rep_def cb_effect_def N cb_load_add)
    with Cons.IH [OF this] Cons.prems CbRemove a(1) show ?thesis by auto
  qed
qed simp

lemma cb_run_append:
  "cb_run bloom array (ops @ ops') =
     (case cb_run bloom array ops of None \<Rightarrow> None | Some a \<Rightarrow> cb_run bloom a ops')"
proof (induction ops arbitrary: array)
  case (Cons p ops)
  then show ?case by (cases p) (auto split: option.splits)
qed simp

lemma counter_zero: "j div 2 + offset < n \<Longrightarrow> counter (replicate n 0) offset j = 0"
  by (simp add: counter_def nibble_def)

lemma cb_rep_zero:
  assumes "cb_wf bloom (replicate n 0)"
  shows "cb_rep bloom (replicate n 0) {#}"
proof -
  have "counter (replicate n 0) (cb_offset bloom) j = 0" if "j < cb_size bloom" for j
  proof (rule counter_zero)
    have "j div 2 < (cb_size bloom + 1) div 2" using that by presburger
    then show "j div 2 + cb_offset bloom < n" using assms by (auto simp: cb_wf_def)
  qed
  moreover have "le32 (replicate 4 0) = 0" by (simp add: le32_simps numeral_eq_Suc)
  then have "get32 (replicate n 0) (cb_header bloom + 8) = Some 0"
    using assms by (auto simp: cb_wf_def get32_def min_def)
  ultimately show ?thesis using assms by (simp add: cb_rep_def cb_load_def)
qed

lemma new_counting_bloom_rep:
  assumes "fp_sane fp capacity e" "new_counting_bloom fp capacity e True = Some (bloom, bm)"
  shows "cb_rep bloom (bm_array bm) {#}" "cb_nfuncs bloom = fc_nfuncs fp e"
proof -
  have b: "bloom = counting_bloom_init fp capacity e 0" "bm_array bm = replicate (cb_num_bytes bloom) 0"
    using assms(2) by (auto simp: new_counting_bloom_def Let_def)
  show "cb_rep bloom (bm_array bm) {#}"
    unfolding b(2) unfolding b(1) by (intro cb_rep_zero counting_bloom_init_wf assms(1)) simp
  show "cb_nfuncs bloom = fc_nfuncs fp e" by (simp add: b(1) counting_bloom_init_def Let_def)
qed

text \<open>
  C8. A new counting filter refines a multiset of keys: along every run of
  adds and removes that removes only present keys and never pushes a counter past 15, no step
  faults, every counter holds the number of present keys that hash to it, the header counts the
  keys (in 32 bits), and every present key, in particular one that was added and whose copies were
  not all removed, checks positive.
\<close>

theorem counting_bloom_multiset:
  assumes "fp_sane fp capacity e" "new_counting_bloom fp capacity e True = Some (bloom, bm)"
    and "cb_run_ok bloom {#} ops"
  shows "\<exists>a. cb_run bloom (bm_array bm) ops = Some a \<and>
     (\<forall>j<cb_size bloom. counter a (cb_offset bloom) j = cb_load bloom (cb_spec ops {#}) j) \<and>
     get32 a (cb_header bloom + 8) = Some (of_nat (size (cb_spec ops {#}))) \<and>
     (\<forall>s. s \<in># cb_spec ops {#} \<longrightarrow> counting_bloom_check bloom a s = Some 1)"
proof -
  obtain a where a: "cb_run bloom (bm_array bm) ops = Some a" "cb_rep bloom a (cb_spec ops {#})"
    using cb_rep_run [OF new_counting_bloom_rep(1) [OF assms(1,2)] assms(3)] by blast
  have "\<forall>s. s \<in># cb_spec ops {#} \<longrightarrow> counting_bloom_check bloom a s = Some 1"
    using cb_rep_check [OF a(2)] by blast
  with a show ?thesis by (simp add: cb_rep_def)
qed

definition fp_counting_example :: fp_counting where
  "fp_counting_example = \<lparr>fc_nfuncs = (\<lambda>_. 2), fc_counts = (\<lambda>_ _ _. 5), fc_tighten = (\<lambda>e _. e)\<rparr>"

lemma fp_counting_example_sane: "fp_sane fp_counting_example capacity e"
  by (simp add: fp_sane_def fp_counting_example_def)

definition cb_example :: counting_bloom_t where
  "cb_example = counting_bloom_init fp_counting_example 8 0 0"

lemma cb_example_new: "new_counting_bloom fp_counting_example 8 0 True = Some (cb_example, new_bitmap [] 21)"
  by (simp add: new_counting_bloom_def cb_example_def counting_bloom_init_def fp_counting_example_def)

theorem counting_bloom_multiset_witness:
  "\<exists>a. cb_run cb_example (replicate 21 0) [CbAdd [1], CbAdd [2], CbRemove [1]] = Some a \<and>
     counting_bloom_check cb_example a [2] = Some 1"
proof -
  have ok: "cb_run_ok cb_example {#} [CbAdd [1], CbAdd [2], CbRemove [1]]"
    by (simp add: cb_load_def)
  have "[2] \<in># cb_spec [CbAdd [1], CbAdd [2], CbRemove [1]] {#}" by simp
  with counting_bloom_multiset [OF fp_counting_example_sane cb_example_new ok]
  show ?thesis unfolding new_bitmap_simps by blast
qed

lemma cb_run_adds:
  "cb_wf bloom array \<Longrightarrow> \<forall>j\<in>slot_set bloom s. counter array (cb_offset bloom) j = c \<Longrightarrow> c \<le> 15 \<Longrightarrow>
     \<exists>a. cb_run bloom array (replicate n (CbAdd s)) = Some a \<and> cb_wf bloom a \<and>
       (\<forall>j\<in>slot_set bloom s. counter a (cb_offset bloom) j = min 15 (c + n))"
proof (induction n arbitrary: array c)
  case (Suc n)
  obtain a where a: "counting_bloom_add bloom array s = Some (a, 0)"
      "cb_effect bloom s array a (\<lambda>c. min 15 (c + 1)) (\<lambda>n. n + 1)"
    using counting_bloom_add_wf [OF Suc.prems(1)] by blast
  have "\<forall>j\<in>slot_set bloom s. counter a (cb_offset bloom) j = min 15 (c + 1)"
    using a(2) Suc.prems(2) by (simp add: cb_effect_def)
  moreover have "min 15 (min 15 (c + 1) + n) = min 15 (c + Suc n)" by simp
  ultimately show ?case
    using Suc.IH [OF cb_effect_wf [OF Suc.prems(1) a(2)], of "min 15 (c + 1)"] a(1) by simp
qed auto

lemma cb_run_removes:
  "cb_wf bloom array \<Longrightarrow> \<forall>j\<in>slot_set bloom s. counter array (cb_offset bloom) j = c \<Longrightarrow>
     \<exists>a. cb_run bloom array (replicate n (CbRemove s)) = Some a \<and> cb_wf bloom a \<and>
       (\<forall>j\<in>slot_set bloom s. counter a (cb_offset bloom) j = c - n)"
proof (induction n arbitrary: array c)
  case (Suc n)
  obtain a where a: "counting_bloom_remove bloom array s = Some (a, 0)"
      "cb_effect bloom s array a (\<lambda>c. c - 1) (\<lambda>n. n - 1)"
    using counting_bloom_remove_wf [OF Suc.prems(1)] by blast
  have "\<forall>j\<in>slot_set bloom s. counter a (cb_offset bloom) j = c - 1"
    using a(2) Suc.prems(2) by (simp add: cb_effect_def)
  then show ?case
    using Suc.IH [OF cb_effect_wf [OF Suc.prems(1) a(2)], of "c - 1"] a(1) by simp
qed auto

text \<open>
  C25. Counters saturate at 15 without remembering it, so a key added more
  than 15 times is forgotten too early: after \<open>n\<close> adds and \<open>m\<close> removes of the key, with
  \<open>15 \<le> m < n\<close>, the filter reports it absent although \<open>n - m\<close> copies remain.
\<close>

theorem counting_bloom_overflow:
  assumes "fp_sane fp capacity e" "new_counting_bloom fp capacity e True = Some (bloom, bm)"
    and "0 < fc_nfuncs fp e" "15 \<le> m" "m < n"
  shows "\<exists>a. cb_run bloom (bm_array bm) (replicate n (CbAdd s) @ replicate m (CbRemove s)) = Some a \<and>
     counting_bloom_check bloom a s = Some 0"
proof -
  note rep = new_counting_bloom_rep [OF assms(1,2)]
  have wf: "cb_wf bloom (bm_array bm)" using rep(1) by (simp add: cb_rep_def)
  have "\<forall>j\<in>slot_set bloom s. counter (bm_array bm) (cb_offset bloom) j = 0"
    using rep(1) cb_slots_less [OF wf] by (auto simp: cb_rep_def cb_load_def slot_set_def)
  from cb_run_adds [OF wf this, of n] obtain b where
    b: "cb_run bloom (bm_array bm) (replicate n (CbAdd s)) = Some b" "cb_wf bloom b"
       "\<forall>j\<in>slot_set bloom s. counter b (cb_offset bloom) j = 15"
    using assms(4,5) by (auto simp: min_def)
  from cb_run_removes [OF b(2,3), of m] obtain a where
    a: "cb_run bloom b (replicate m (CbRemove s)) = Some a" "cb_wf bloom a"
       "\<forall>j\<in>slot_set bloom s. counter a (cb_offset bloom) j = 0"
    using assms(4) by auto
  moreover have "slot_set bloom s \<noteq> {}" using assms(3) rep(2) by (simp add: slot_set_def cb_slots_def)
  ultimately have "counting_bloom_check bloom a s = Some 0"
    by (auto simp: counting_bloom_check_wf)
  then show ?thesis using a(1) b(1) by (simp add: cb_run_append)
qed

theorem counting_bloom_overflow_witness:
  "\<exists>a. cb_run cb_example (replicate 21 0) (replicate 16 (CbAdd [1]) @ replicate 15 (CbRemove [1])) = Some a \<and>
     counting_bloom_check cb_example a [1] = Some 0"
proof -
  have "0 < fc_nfuncs fp_counting_example 0" by (simp add: fp_counting_example_def)
  from counting_bloom_overflow [OF fp_counting_example_sane cb_example_new this, of 15 16 "[1]"]
  show ?thesis unfolding new_bitmap_simps by simp
qed

section \<open>The filter contract\<close>

text \<open>The filter as a state of its own, the bitmap with its descriptor; a fault keeps the state.\<close>

definition cb_add_state :: "counting_bloom_t \<times> bytes \<Rightarrow> bytes \<Rightarrow> counting_bloom_t \<times> bytes" where
  "cb_add_state st s = (fst st, case counting_bloom_add (fst st) (snd st) s of
     None \<Rightarrow> snd st | Some (a, _) \<Rightarrow> a)"

definition cb_reports :: "counting_bloom_t \<times> bytes \<Rightarrow> bytes \<Rightarrow> bool" where
  "cb_reports st s \<longleftrightarrow> counting_bloom_check (fst st) (snd st) s = Some 1"

lemma cb_effect_positive:
  assumes "cb_effect bloom s array a (\<lambda>c. min 15 (c + 1)) g" "counter array (cb_offset bloom) j \<noteq> 0 \<or> j \<in> slot_set bloom s"
  shows "counter a (cb_offset bloom) j \<noteq> 0"
  using assms by (auto simp: cb_effect_def)

interpretation counting: membership_filter "\<lambda>st. cb_wf (fst st) (snd st)" "\<lambda>s :: bytes. True"
  cb_add_state "\<lambda>st (s :: bytes). st" cb_reports
proof
  fix st :: "counting_bloom_t \<times> bytes" and k j :: bytes
  assume wf: "cb_wf (fst st) (snd st)"
  obtain a where a: "counting_bloom_add (fst st) (snd st) k = Some (a, 0)"
      "cb_effect (fst st) k (snd st) a (\<lambda>c. min 15 (c + 1)) (\<lambda>n. n + 1)"
    using counting_bloom_add_wf [OF wf] by blast
  note wf' = cb_effect_wf [OF wf a(2)]
  show "cb_wf (fst (cb_add_state st k)) (snd (cb_add_state st k))"
    using wf' a(1) by (simp add: cb_add_state_def)
  show "cb_reports (cb_add_state st k) k"
    using cb_effect_positive [OF a(2)] a(1)
    by (auto simp: cb_add_state_def cb_reports_def counting_bloom_check_wf [OF wf'])
  show "cb_reports (cb_add_state st k) j" if "cb_reports st j"
    using cb_effect_positive [OF a(2)] a(1) that
    by (auto simp: cb_add_state_def cb_reports_def counting_bloom_check_wf [OF wf]
        counting_bloom_check_wf [OF wf'] split: if_splits)
qed auto

end
