(* ===== verification/ScalingBloom.thy ===== *)
theory ScalingBloom imports CountingBloom "HOL-Library.Monad_Syntax" begin

text \<open>
  The scaling filter of \<open>kernel/countingbloomfilter.c\<close>: counting filters appended to one bitmap
  as the earlier ones fill up. Every filter header holds the smallest id it is responsible for;
  the bitmap header holds the largest id seen (bytes 0 to 7), the sequence number of the state in
  memory (8 to 15) and that of the state on disk (16 to 23). \<open>None\<close> is an access outside the
  bitmap or through a null pointer.
\<close>

section \<open>State and operations\<close>

record scaling_bloom_t =
  sb_capacity :: u32
  sb_num_bytes :: nat
  sb_error_rate :: c_double
  sb_blooms :: "counting_bloom_t list"
  sb_bitmap :: bitmap_t

abbreviation sb_array :: "scaling_bloom_t \<Rightarrow> bytes" where
  "sb_array bloom \<equiv> bm_array (sb_bitmap bloom)"

definition sb_set_array :: "scaling_bloom_t \<Rightarrow> bytes \<Rightarrow> scaling_bloom_t" where
  "sb_set_array bloom a = bloom\<lparr>sb_bitmap := (sb_bitmap bloom)\<lparr>bm_array := a\<rparr>\<rparr>"

definition sb_put64 :: "scaling_bloom_t \<Rightarrow> nat \<Rightarrow> u64 \<Rightarrow> scaling_bloom_t option" where
  "sb_put64 bloom p v = map_option (sb_set_array bloom) (put64 (sb_array bloom) p v)"

definition sb_flush_bitmap :: "scaling_bloom_t \<Rightarrow> scaling_bloom_t" where
  "sb_flush_bitmap bloom = bloom\<lparr>sb_bitmap := fst (bitmap_flush (sb_bitmap bloom))\<rparr>"

definition scaling_bloom_clear_seqnums :: "scaling_bloom_t \<Rightarrow> (scaling_bloom_t \<times> u64) option" where
  "scaling_bloom_clear_seqnums bloom = do {
     disk_seqnum \<leftarrow> get64 (sb_array bloom) 16;
     bloom \<leftarrow> (if disk_seqnum \<noteq> 0 then map_option sb_flush_bitmap (sb_put64 bloom 16 0) else Some bloom);
     seqnum \<leftarrow> get64 (sb_array bloom) 8;
     bloom \<leftarrow> sb_put64 bloom 8 0;
     Some (bloom, seqnum) }"

definition new_counting_bloom_from_scale ::
  "fp_counting \<Rightarrow> scaling_bloom_t \<Rightarrow> scaling_bloom_t \<times> counting_bloom_t" where
  "new_counting_bloom_from_scale fp bloom =
     (let error_rate = fc_tighten fp (sb_error_rate bloom) (of_nat (length (sb_blooms bloom)) + 1);
          cur_bloom = counting_bloom_init fp (sb_capacity bloom) error_rate (sb_num_bytes bloom)
      in (bloom\<lparr>sb_blooms := sb_blooms bloom @ [cur_bloom],
                sb_bitmap := bitmap_resize (sb_bitmap bloom) (sb_num_bytes bloom + cb_num_bytes cur_bloom),
                sb_num_bytes := sb_num_bytes bloom + cb_num_bytes cur_bloom\<rparr>,
          cur_bloom))"

text \<open>
  The search loops run from the newest filter to the oldest. In \<open>scaling_bloom_add\<close> the loop
  variable keeps the last filter looked at when none matches; in \<open>scaling_bloom_remove\<close> nothing
  happens then.
\<close>

fun sb_add_search :: "bytes \<Rightarrow> u64 \<Rightarrow> counting_bloom_t list \<Rightarrow> counting_bloom_t option \<Rightarrow> counting_bloom_t option option" where
  "sb_add_search array key_id [] cur_bloom = Some cur_bloom"
| "sb_add_search array key_id (b # bs) cur_bloom =
     (case get64 array (cb_header b) of
        None \<Rightarrow> None
      | Some header_id \<Rightarrow> if key_id \<ge> header_id then Some (Some b) else sb_add_search array key_id bs (Some b))"

fun sb_remove_search :: "bytes \<Rightarrow> u64 \<Rightarrow> counting_bloom_t list \<Rightarrow> counting_bloom_t option option" where
  "sb_remove_search array key_id [] = Some None"
| "sb_remove_search array key_id (b # bs) =
     (case get64 array (cb_header b) of
        None \<Rightarrow> None
      | Some header_id \<Rightarrow> if key_id \<ge> header_id then Some (Some b) else sb_remove_search array key_id bs)"

definition scaling_bloom_add ::
  "fp_counting \<Rightarrow> scaling_bloom_t \<Rightarrow> bytes \<Rightarrow> u64 \<Rightarrow> (scaling_bloom_t \<times> int) option" where
  "scaling_bloom_add fp bloom s key_id = do {
     cur_bloom \<leftarrow> sb_add_search (sb_array bloom) key_id (rev (sb_blooms bloom)) None;
     (bloom, seqnum) \<leftarrow> scaling_bloom_clear_seqnums bloom;
     max_id \<leftarrow> get64 (sb_array bloom) 0;
     cur_bloom \<leftarrow> cur_bloom;
     n \<leftarrow> get32 (sb_array bloom) (cb_header cur_bloom + 8);
     (bloom, cur_bloom) \<leftarrow>
       (if key_id > max_id \<and> n \<ge> cb_capacity cur_bloom - 1 then
          (let (bloom, cur_bloom) = new_counting_bloom_from_scale fp bloom in do {
             a \<leftarrow> put32 (sb_array bloom) (cb_header cur_bloom + 8) 0;
             a \<leftarrow> put64 a (cb_header cur_bloom) (max_id + 1);
             Some (sb_set_array bloom a, cur_bloom) })
        else Some (bloom, cur_bloom));
     bloom \<leftarrow> (if max_id < key_id then sb_put64 bloom 0 key_id else Some bloom);
     (a, _) \<leftarrow> counting_bloom_add cur_bloom (sb_array bloom) s;
     bloom \<leftarrow> sb_put64 (sb_set_array bloom a) 8 (seqnum + 1);
     Some (bloom, 1) }"

definition scaling_bloom_remove :: "scaling_bloom_t \<Rightarrow> bytes \<Rightarrow> u64 \<Rightarrow> (scaling_bloom_t \<times> int) option" where
  "scaling_bloom_remove bloom s key_id = do {
     target \<leftarrow> sb_remove_search (sb_array bloom) key_id (rev (sb_blooms bloom));
     case target of
       None \<Rightarrow> Some (bloom, 0)
     | Some cur_bloom \<Rightarrow> do {
         (bloom, seqnum) \<leftarrow> scaling_bloom_clear_seqnums bloom;
         (a, _) \<leftarrow> counting_bloom_remove cur_bloom (sb_array bloom) s;
         bloom \<leftarrow> sb_put64 (sb_set_array bloom a) 8 (seqnum + 1);
         Some (bloom, 1) } }"

fun sb_check_loop :: "bytes \<Rightarrow> bytes \<Rightarrow> counting_bloom_t list \<Rightarrow> int option" where
  "sb_check_loop array s [] = Some 0"
| "sb_check_loop array s (b # bs) =
     (case counting_bloom_check b array s of
        None \<Rightarrow> None
      | Some r \<Rightarrow> if r \<noteq> 0 then Some 1 else sb_check_loop array s bs)"

definition scaling_bloom_check :: "scaling_bloom_t \<Rightarrow> bytes \<Rightarrow> int option" where
  "scaling_bloom_check bloom s = sb_check_loop (sb_array bloom) s (rev (sb_blooms bloom))"

definition scaling_bloom_flush :: "scaling_bloom_t \<Rightarrow> (scaling_bloom_t \<times> int) option" where
  "scaling_bloom_flush bloom =
     (let (bloom, r) = (sb_flush_bitmap bloom, snd (bitmap_flush (sb_bitmap bloom))) in
      if r \<noteq> 0 then Some (bloom, - 1)
      else do {
        disk_seqnum \<leftarrow> get64 (sb_array bloom) 16;
        if disk_seqnum = 0 then do {
          mem_seqnum \<leftarrow> get64 (sb_array bloom) 8;
          bloom \<leftarrow> sb_put64 bloom 16 mem_seqnum;
          Some (sb_flush_bitmap bloom, snd (bitmap_flush (sb_bitmap bloom))) }
        else Some (bloom, 0) })"

definition scaling_bloom_mem_seqnum :: "scaling_bloom_t \<Rightarrow> u64 option" where
  "scaling_bloom_mem_seqnum bloom = get64 (sb_array bloom) 8"

definition scaling_bloom_disk_seqnum :: "scaling_bloom_t \<Rightarrow> u64 option" where
  "scaling_bloom_disk_seqnum bloom = get64 (sb_array bloom) 16"

definition scaling_bloom_init :: "u32 \<Rightarrow> c_double \<Rightarrow> bytes \<Rightarrow> scaling_bloom_t" where
  "scaling_bloom_init capacity error_rate file =
     \<lparr>sb_capacity = capacity, sb_num_bytes = 24, sb_error_rate = error_rate, sb_blooms = [],
      sb_bitmap = new_bitmap file 24\<rparr>"

definition new_scaling_bloom ::
  "fp_counting \<Rightarrow> u32 \<Rightarrow> c_double \<Rightarrow> bool \<Rightarrow> scaling_bloom_t option option" where
  "new_scaling_bloom fp capacity error_rate open_ok =
     (if \<not> open_ok then Some None
      else
        (let (bloom, cur_bloom) = new_counting_bloom_from_scale fp (scaling_bloom_init capacity error_rate [])
         in do {
           a \<leftarrow> put32 (sb_array bloom) (cb_header cur_bloom + 8) 0;
           a \<leftarrow> put64 a (cb_header cur_bloom) 0;
           a \<leftarrow> put64 a 8 1;
           Some (Some (sb_set_array bloom a)) }))"

text \<open>
  Reading a file back: filters are appended until the file is used up. The number of bytes left
  strictly decreases, since a filter has a header of 16 bytes; it is an \<open>off_t\<close> and the loop
  tests it for zero first and for being negative after the subtraction.
\<close>

function sb_load_loop :: "fp_counting \<Rightarrow> scaling_bloom_t \<Rightarrow> int \<Rightarrow> scaling_bloom_t option" where
  "sb_load_loop fp bloom left =
     (if left = 0 then Some bloom
      else
        (let (bloom', cur_bloom) = new_counting_bloom_from_scale fp bloom;
             left' = left - int (cb_num_bytes cur_bloom)
         in if left' < 0 then None else sb_load_loop fp bloom' left'))"
  by pat_completeness auto
termination
  by (relation "measure (\<lambda>(_, _, left). nat left)")
    (auto simp: new_counting_bloom_from_scale_def counting_bloom_init_def Let_def)

definition new_scaling_bloom_from_file ::
  "fp_counting \<Rightarrow> u32 \<Rightarrow> c_double \<Rightarrow> bytes option \<Rightarrow> scaling_bloom_t option" where
  "new_scaling_bloom_from_file fp capacity error_rate fd =
     (case fd of
        None \<Rightarrow> None
      | Some file \<Rightarrow>
          sb_load_loop fp (scaling_bloom_init capacity error_rate file) (int (length file) - 24))"

section \<open>The abstract filter\<close>

text \<open>
  A scaling filter is abstractly a list of pairs of a first id and a multiset of keys, with the
  largest id seen. \<open>spec_owner\<close> is the filter responsible for an id.
\<close>

record sspec =
  ss_filters :: "(u64 \<times> bytes multiset) list"
  ss_max :: u64

definition spec_owner :: "u64 list \<Rightarrow> u64 \<Rightarrow> nat" where
  "spec_owner ids k = length (takeWhile (\<lambda>h. h \<le> k) ids) - 1"

definition spec_full :: "u32 \<Rightarrow> sspec \<Rightarrow> u64 \<Rightarrow> bool" where
  "spec_full capacity sp k \<longleftrightarrow> ss_max sp < k \<and>
     capacity - 1 \<le> of_nat (size (snd (ss_filters sp ! spec_owner (map fst (ss_filters sp)) k)))"

definition spec_grow :: "u32 \<Rightarrow> sspec \<Rightarrow> u64 \<Rightarrow> sspec" where
  "spec_grow capacity sp k =
     (if spec_full capacity sp k then sp\<lparr>ss_filters := ss_filters sp @ [(ss_max sp + 1, {#})]\<rparr> else sp)"

definition spec_at :: "sspec \<Rightarrow> nat \<Rightarrow> (bytes multiset \<Rightarrow> bytes multiset) \<Rightarrow> sspec" where
  "spec_at sp i f = sp\<lparr>ss_filters := (ss_filters sp)[i := (fst (ss_filters sp ! i), f (snd (ss_filters sp ! i)))]\<rparr>"

definition spec_add :: "u32 \<Rightarrow> sspec \<Rightarrow> bytes \<Rightarrow> u64 \<Rightarrow> sspec" where
  "spec_add capacity sp s k =
     (let sp = spec_grow capacity sp k;
          i = spec_owner (map fst (ss_filters sp)) k
      in (spec_at sp i (add_mset s))\<lparr>ss_max := max (ss_max sp) k\<rparr>)"

definition spec_remove :: "sspec \<Rightarrow> bytes \<Rightarrow> u64 \<Rightarrow> sspec" where
  "spec_remove sp s k = spec_at sp (spec_owner (map fst (ss_filters sp)) k) (\<lambda>M. M - {#s#})"

text \<open>The state represents the abstract filter; \<open>spec_wf\<close> is the order of the first ids.\<close>

definition spec_wf :: "sspec \<Rightarrow> bool" where
  "spec_wf sp \<longleftrightarrow> ss_filters sp \<noteq> [] \<and> fst (hd (ss_filters sp)) = 0 \<and>
     sorted_wrt (<) (map fst (ss_filters sp)) \<and> (\<forall>h\<in>set (map fst (ss_filters sp)). h \<le> ss_max sp)"

definition sb_layout :: "scaling_bloom_t \<Rightarrow> bool" where
  "sb_layout b \<longleftrightarrow> 24 \<le> length (sb_array b) \<and> sb_num_bytes b = length (sb_array b) \<and>
     sorted_wrt (\<lambda>c d. cb_header c + cb_num_bytes c \<le> cb_header d) (sb_blooms b) \<and>
     (\<forall>c\<in>set (sb_blooms b). 24 \<le> cb_header c \<and> cb_wf c (sb_array b) \<and> cb_capacity c = sb_capacity b)"

definition sb_rep0 :: "scaling_bloom_t \<Rightarrow> sspec \<Rightarrow> bool" where
  "sb_rep0 b sp \<longleftrightarrow> sb_layout b \<and> bm_rest (sb_bitmap b) = [] \<and>
     get64 (sb_array b) 0 = Some (ss_max sp) \<and>
     list_all2 (\<lambda>c f. get64 (sb_array b) (cb_header c) = Some (fst f) \<and> cb_rep c (sb_array b) (snd f))
       (sb_blooms b) (ss_filters sp)"

definition sb_rep :: "scaling_bloom_t \<Rightarrow> sspec \<Rightarrow> bool" where
  "sb_rep b sp \<longleftrightarrow> spec_wf sp \<and> sb_rep0 b sp"

lemma cb_rep_frame:
  assumes "cb_rep c a M" "length a \<le> length a'" "same_on a a' (cb_header c) (cb_header c + cb_num_bytes c)"
  shows "cb_rep c a' M" "get64 a' (cb_header c) = get64 a (cb_header c)"
proof -
  have wf: "cb_wf c a" using assms(1) by (simp add: cb_rep_def)
  then have o: "cb_offset c = cb_header c + 16" "cb_num_bytes c = (cb_size c + 1) div 2 + 16"
      "cb_header c + cb_num_bytes c \<le> length a"
    by (auto simp: cb_wf_def)
  have "counter a (cb_offset c) j = counter a' (cb_offset c) j" if "j < cb_size c" for j
  proof (rule counter_same_on)
    show "same_on a a' (cb_offset c) (cb_header c + cb_num_bytes c)"
      by (rule same_on_mono [OF assms(3)]) (use o in simp_all)
    have "j div 2 < (cb_size c + 1) div 2" using that by presburger
    then show "j div 2 + cb_offset c < cb_header c + cb_num_bytes c" using o by linarith
  qed
  moreover have "get32 a (cb_header c + 8) = get32 a' (cb_header c + 8)"
    by (rule get_same_on) (use assms o in \<open>auto intro: same_on_mono\<close>)
  moreover have "cb_wf c a'" using wf assms(2) by (auto simp: cb_wf_def)
  ultimately show "cb_rep c a' M" using assms(1) by (simp add: cb_rep_def)
  show "get64 a' (cb_header c) = get64 a (cb_header c)"
    by (rule get_same_on(2) [symmetric]) (use assms o in \<open>auto intro: same_on_mono\<close>)
qed

text \<open>Writes to the bitmap header, the first 24 bytes.\<close>

definition hdr_only :: "scaling_bloom_t \<Rightarrow> scaling_bloom_t \<Rightarrow> bool" where
  "hdr_only b b' \<longleftrightarrow> (\<exists>a d m. b' = b\<lparr>sb_bitmap := (sb_bitmap b)\<lparr>bm_array := a, bm_disk := d, bm_msync := m\<rparr>\<rparr> \<and>
     length a = length (sb_array b) \<and> (\<forall>p \<ge> 24. a ! p = sb_array b ! p))"

lemma hdr_only_refl: "hdr_only b b"
  unfolding hdr_only_def
  by (rule exI [of _ "sb_array b"], rule exI [of _ "bm_disk (sb_bitmap b)"], rule exI [of _ "bm_msync (sb_bitmap b)"]) simp

lemma hdr_only_trans: "hdr_only b c \<Longrightarrow> hdr_only c d \<Longrightarrow> hdr_only b d"
  by (fastforce simp: hdr_only_def)

lemma hdr_only_flush: "hdr_only b (sb_flush_bitmap b)"
  unfolding hdr_only_def sb_flush_bitmap_def
  by (rule exI [of _ "sb_array b"], rule exI [of _ "bm_disk (fst (bitmap_flush (sb_bitmap b)))"], rule exI [of _ "tl (bm_msync (sb_bitmap b))"])
     (simp add: bitmap_flush_def Let_def)

lemma sb_put64_hdr:
  assumes "p + 8 \<le> 24" "24 \<le> length (sb_array b)"
  shows "\<exists>b'. sb_put64 b p v = Some b' \<and> hdr_only b b' \<and> get64 (sb_array b') p = Some v \<and>
     (\<forall>q. q + 8 \<le> p \<or> p + 8 \<le> q \<longrightarrow> get64 (sb_array b') q = get64 (sb_array b) q)"
proof -
  obtain a where a: "put64 (sb_array b) p v = Some a" "length a = length (sb_array b)"
      "get64 a p = Some v" "\<forall>q. q < p \<or> p + 8 \<le> q \<longrightarrow> a ! q = sb_array b ! q"
    using put_Some(2) [of p "sb_array b" v] assms by auto
  have "get64 a q = get64 (sb_array b) q" if "q + 8 \<le> p \<or> p + 8 \<le> q" for q
  proof (cases "q + 8 \<le> length a")
    case True
    then show ?thesis by (intro get_same_on(2)) (use a that in \<open>auto simp: same_on_def\<close>)
  qed (use a in \<open>simp add: get64_def\<close>)
  moreover have "hdr_only b (sb_set_array b a)"
    using a assms unfolding hdr_only_def sb_set_array_def
    by (intro exI [of _ a] exI [of _ "bm_disk (sb_bitmap b)"] exI [of _ "bm_msync (sb_bitmap b)"]) simp
  ultimately show ?thesis using a by (simp add: sb_put64_def sb_set_array_def)
qed

lemma hdr_only_simps:
  "hdr_only b b' \<Longrightarrow> sb_blooms b' = sb_blooms b" "hdr_only b b' \<Longrightarrow> sb_capacity b' = sb_capacity b"
  "hdr_only b b' \<Longrightarrow> length (sb_array b') = length (sb_array b)"
  "hdr_only b b' \<Longrightarrow> sb_num_bytes b' = sb_num_bytes b"
  "hdr_only b b' \<Longrightarrow> sb_error_rate b' = sb_error_rate b"
  "hdr_only b b' \<Longrightarrow> bm_rest (sb_bitmap b') = bm_rest (sb_bitmap b)"
  by (auto simp: hdr_only_def)

lemma sb_rep_hdr_only:
  assumes "sb_rep0 b sp" "hdr_only b b'" "get64 (sb_array b') 0 = Some m"
  shows "sb_rep0 b' (sp\<lparr>ss_max := m\<rparr>)"
proof -
  have fr: "same_on (sb_array b) (sb_array b') (cb_header c) (cb_header c + cb_num_bytes c)"
    if "c \<in> set (sb_blooms b)" for c
  proof -
    have "24 \<le> cb_header c" using assms(1) that by (auto simp: sb_rep0_def sb_layout_def)
    moreover have "\<forall>p \<ge> 24. sb_array b' ! p = sb_array b ! p" using assms(2) by (auto simp: hdr_only_def)
    ultimately show ?thesis by (simp add: same_on_def)
  qed
  have "list_all2 (\<lambda>c f. get64 (sb_array b') (cb_header c) = Some (fst f) \<and> cb_rep c (sb_array b') (snd f))
       (sb_blooms b) (ss_filters sp)"
    using assms(1) unfolding sb_rep0_def
    by (elim conjE list_all2_mono [rotated] list.rel_mono_strong)
       (use fr hdr_only_simps(3) [OF assms(2)] cb_rep_frame in \<open>metis order_refl\<close>)+
  moreover have "sb_layout b'"
    using assms(1) cb_wf_length [OF hdr_only_simps(3) [OF assms(2)]]
    by (simp add: sb_rep0_def sb_layout_def hdr_only_simps [OF assms(2)])
  ultimately show ?thesis
    using assms by (simp add: sb_rep0_def hdr_only_simps [OF assms(2)])
qed

section \<open>The operations refine the abstract filter\<close>

lemma sb_rep_hdr_only_same:
  assumes "sb_rep b sp" "hdr_only b b'" "get64 (sb_array b') 0 = get64 (sb_array b) 0"
  shows "sb_rep b' sp"
proof -
  have "sb_rep0 b sp" using assms(1) by (simp add: sb_rep_def)
  then have "sb_rep0 b' (sp\<lparr>ss_max := ss_max sp\<rparr>)"
    by (rule sb_rep_hdr_only [OF _ assms(2)]) (use assms(1,3) in \<open>auto simp: sb_rep_def sb_rep0_def\<close>)
  then show ?thesis using assms(1) by (simp add: sb_rep_def)
qed

lemma sb_rep_len: "sb_rep b sp \<Longrightarrow> 24 \<le> length (sb_array b)"
  by (simp add: sb_rep_def sb_rep0_def sb_layout_def)

lemma clear_seqnums_rep:
  assumes "sb_rep b sp"
  shows "\<exists>b' sn. scaling_bloom_clear_seqnums b = Some (b', sn) \<and> get64 (sb_array b) 8 = Some sn \<and>
     sb_rep b' sp \<and> hdr_only b b' \<and> get64 (sb_array b') 16 = Some 0"
proof -
  note len = sb_rep_len [OF assms]
  obtain ds sn where g: "get64 (sb_array b) 16 = Some ds" "get64 (sb_array b) 8 = Some sn"
    using len by (auto simp: get64_def)
  obtain c where c: "(if ds \<noteq> 0 then map_option sb_flush_bitmap (sb_put64 b 16 0) else Some b) = Some c"
      "hdr_only b c" "get64 (sb_array c) 16 = Some 0" "\<forall>q \<le> 8. get64 (sb_array c) q = get64 (sb_array b) q"
  proof (cases "ds = 0")
    case True
    then show ?thesis using that [of b] g by (simp add: hdr_only_refl)
  next
    case False
    obtain b1 where b1: "sb_put64 b 16 0 = Some b1" "hdr_only b b1" "get64 (sb_array b1) 16 = Some 0"
        "\<forall>q \<le> 8. get64 (sb_array b1) q = get64 (sb_array b) q"
      using sb_put64_hdr [of 16 b 0] len by auto
    moreover have "sb_array (sb_flush_bitmap b1) = sb_array b1"
      by (simp add: sb_flush_bitmap_def bitmap_flush_array)
    ultimately show ?thesis
      using that [of "sb_flush_bitmap b1"] False hdr_only_trans [OF b1(2) hdr_only_flush] by simp
  qed
  obtain d where d: "sb_put64 c 8 0 = Some d" "hdr_only c d"
      "get64 (sb_array d) 16 = Some 0" "get64 (sb_array d) 0 = get64 (sb_array b) 0"
    using sb_put64_hdr [of 8 c 0] len c hdr_only_simps(3) [OF c(2)] by auto
  have bd: "hdr_only b d" by (rule hdr_only_trans [OF c(2) d(2)])
  have "scaling_bloom_clear_seqnums b = Some (d, sn)"
    using g c d by (simp add: scaling_bloom_clear_seqnums_def)
  then show ?thesis using g d bd sb_rep_hdr_only_same [OF assms bd d(4)] by blast
qed

lemma takeWhile_snoc_le:
  "sorted_wrt (<) (ids @ [h]) \<Longrightarrow>
     takeWhile (\<lambda>h. h \<le> k) (ids @ [h]) = (if h \<le> k then ids @ [h] else takeWhile (\<lambda>h. h \<le> k) ids)"
  for h k :: u64
  by (induction ids) (auto dest: order.strict_trans2 less_imp_le)

lemma sb_search:
  assumes "list_all2 (\<lambda>c h. get64 a (cb_header c) = Some h) bs ids"
    and "sorted_wrt (<) ids" "ids \<noteq> []" "hd ids \<le> k"
  shows "sb_add_search a k (rev bs) c = Some (Some (bs ! spec_owner ids k))"
    "sb_remove_search a k (rev bs) = Some (Some (bs ! spec_owner ids k))"
    "spec_owner ids k < length ids"
  using assms
proof (induction bs arbitrary: ids c rule: rev_induct)
  case (snoc b bs)
  {
    case 1
    then obtain hs h where ids: "ids = hs @ [h]" "get64 a (cb_header b) = Some h"
        "list_all2 (\<lambda>c h. get64 a (cb_header c) = Some h) bs hs"
      by (auto simp: list_all2_append1 list_all2_Cons1)
    have len: "length bs = length hs" using ids(3) by (rule list_all2_lengthD)
    show ?case
    proof (cases "h \<le> k")
      case False
      then have "hs \<noteq> []" using ids 1 by auto
      moreover have "spec_owner ids k = spec_owner hs k"
        using takeWhile_snoc_le [of hs h k] 1 ids False by (simp add: spec_owner_def)
      ultimately show ?thesis
        using snoc.IH(1,3) [of hs] ids 1 False len by (auto simp: sorted_wrt_append nth_append)
    qed (use takeWhile_snoc_le [of hs h k] 1 ids len in \<open>simp add: spec_owner_def nth_append\<close>)
  next
    case 2
    then obtain hs h where ids: "ids = hs @ [h]" "get64 a (cb_header b) = Some h"
        "list_all2 (\<lambda>c h. get64 a (cb_header c) = Some h) bs hs"
      by (auto simp: list_all2_append1 list_all2_Cons1)
    have len: "length bs = length hs" using ids(3) by (rule list_all2_lengthD)
    show ?case
    proof (cases "h \<le> k")
      case False
      then have "hs \<noteq> []" using ids 2 by auto
      moreover have "spec_owner ids k = spec_owner hs k"
        using takeWhile_snoc_le [of hs h k] 2 ids False by (simp add: spec_owner_def)
      ultimately show ?thesis
        using snoc.IH(2,3) [of hs] ids 2 False len by (auto simp: sorted_wrt_append nth_append)
    qed (use takeWhile_snoc_le [of hs h k] 2 ids len in \<open>simp add: spec_owner_def nth_append\<close>)
  next
    case 3
    have "length (takeWhile (\<lambda>h. h \<le> k) ids) \<le> length ids" by (rule length_takeWhile_le)
    then show ?case using 3(3) by (cases ids) (auto simp: spec_owner_def)
  }
qed simp_all

lemma sb_rep_search:
  fixes k :: u64
  assumes "sb_rep b sp"
  defines "i \<equiv> spec_owner (map fst (ss_filters sp)) k"
  shows "sb_add_search (sb_array b) k (rev (sb_blooms b)) None = Some (Some (sb_blooms b ! i))"
    "sb_remove_search (sb_array b) k (rev (sb_blooms b)) = Some (Some (sb_blooms b ! i))"
    "i < length (ss_filters sp)" "length (sb_blooms b) = length (ss_filters sp)"
proof -
  have l: "list_all2 (\<lambda>c h. get64 (sb_array b) (cb_header c) = Some h) (sb_blooms b) (map fst (ss_filters sp))"
    using assms(1) by (auto simp: sb_rep_def sb_rep0_def list.rel_map elim: list.rel_mono_strong)
  have w: "sorted_wrt (<) (map fst (ss_filters sp))" "map fst (ss_filters sp) \<noteq> []"
    "hd (map fst (ss_filters sp)) \<le> k"
    using assms(1) by (simp_all add: sb_rep_def sb_rep0_def spec_wf_def hd_map)
  show "sb_add_search (sb_array b) k (rev (sb_blooms b)) None = Some (Some (sb_blooms b ! i))"
    "sb_remove_search (sb_array b) k (rev (sb_blooms b)) = Some (Some (sb_blooms b ! i))"
    "i < length (ss_filters sp)"
    unfolding i_def using sb_search [OF l w] by simp_all
  show "length (sb_blooms b) = length (ss_filters sp)"
    using list_all2_lengthD [OF l] by simp
qed

text \<open>An operation on one filter leaves every other filter alone.\<close>

definition region_only :: "counting_bloom_t \<Rightarrow> bytes \<Rightarrow> bytes \<Rightarrow> bool" where
  "region_only c a a' \<longleftrightarrow> length a' = length a \<and>
     (\<forall>p. p < cb_header c + 8 \<or> cb_header c + cb_num_bytes c \<le> p \<longrightarrow> a' ! p = a ! p)"

lemma cb_effect_region: "cb_effect c s a a' f g \<Longrightarrow> region_only c a a'"
  by (auto simp: cb_effect_def region_only_def same_on_def)

lemma spec_at_ids: "i < length (ss_filters sp) \<Longrightarrow> map fst (ss_filters (spec_at sp i f)) = map fst (ss_filters sp)"
  by (simp add: spec_at_def map_update) (metis list_update_id nth_map)

lemma spec_wf_ids:
  "spec_wf sp \<longleftrightarrow> map fst (ss_filters sp) \<noteq> [] \<and> hd (map fst (ss_filters sp)) = 0 \<and>
     sorted_wrt (<) (map fst (ss_filters sp)) \<and> (\<forall>h\<in>set (map fst (ss_filters sp)). h \<le> ss_max sp)"
  by (auto simp: spec_wf_def hd_map)

lemma spec_at_wf: "i < length (ss_filters sp) \<Longrightarrow> spec_wf sp \<Longrightarrow> spec_wf (spec_at sp i f)"
  unfolding spec_wf_ids by (simp only: spec_at_ids) (simp add: spec_at_def)

lemma sb_rep_update:
  assumes rep: "sb_rep b sp" and i: "i < length (ss_filters sp)"
    and a: "region_only (sb_blooms b ! i) (sb_array b) a"
    and M: "cb_rep (sb_blooms b ! i) a (f (snd (ss_filters sp ! i)))"
  shows "sb_rep (sb_set_array b a) (spec_at sp i f)"
    "\<forall>p. p + 8 \<le> 24 \<longrightarrow> get64 (sb_array (sb_set_array b a)) p = get64 (sb_array b) p"
proof -
  let ?bs = "sb_blooms b" let ?fs = "ss_filters sp"
  have lay: "sb_layout b" and wf: "spec_wf sp" using rep by (simp_all add: sb_rep_def sb_rep0_def)
  have n: "length ?bs = length ?fs"
    and all: "\<forall>j<length ?bs. get64 (sb_array b) (cb_header (?bs ! j)) = Some (fst (?fs ! j)) \<and>
          cb_rep (?bs ! j) (sb_array b) (snd (?fs ! j))"
    using rep by (auto simp: sb_rep_def sb_rep0_def list_all2_conv_all_nth)
  have la: "length a = length (sb_array b)" using a by (simp add: region_only_def)
  have low: "24 \<le> cb_header (?bs ! j)" if "j < length ?bs" for j
    using lay that by (simp add: sb_layout_def)
  have hd: "get64 a p = get64 (sb_array b) p"
    if "p + 8 \<le> cb_header (?bs ! i) + 8" "p + 8 \<le> length (sb_array b)" for p
    using a that la by (intro get_same_on(2)) (auto simp: same_on_def region_only_def)
  have other: "same_on (sb_array b) a (cb_header (?bs ! j)) (cb_header (?bs ! j) + cb_num_bytes (?bs ! j))"
    if "j < length ?bs" "j \<noteq> i" for j
  proof -
    have "cb_header (?bs ! j) + cb_num_bytes (?bs ! j) \<le> cb_header (?bs ! i) \<or>
          cb_header (?bs ! i) + cb_num_bytes (?bs ! i) \<le> cb_header (?bs ! j)"
      using lay that i n by (cases "j < i") (auto simp: sb_layout_def sorted_wrt_iff_nth_less)
    then show ?thesis using a by (auto simp: same_on_def region_only_def)
  qed
  have "get64 a (cb_header (?bs ! j)) = Some (fst (ss_filters (spec_at sp i f) ! j)) \<and>
        cb_rep (?bs ! j) a (snd (ss_filters (spec_at sp i f) ! j))" if j: "j < length ?bs" for j
  proof (cases "j = i")
    case True
    have "cb_header (?bs ! i) + 8 \<le> length (sb_array b)"
    proof -
      have "cb_wf (?bs ! i) (sb_array b)" using lay i n by (simp add: sb_layout_def)
      then show ?thesis by (auto simp: cb_wf_def)
    qed
    then show ?thesis using all M hd [of "cb_header (?bs ! i)"] i True j by (simp add: spec_at_def)
  next
    case False
    have r: "cb_rep (?bs ! j) (sb_array b) (snd (?fs ! j))" using all j by blast
    show ?thesis
      using False all j cb_rep_frame [OF r _ other [OF j False]] la by (simp add: spec_at_def)
  qed
  then have l2: "list_all2 (\<lambda>c f. get64 a (cb_header c) = Some (fst f) \<and> cb_rep c a (snd f))
       ?bs (ss_filters (spec_at sp i f))"
    using n by (simp add: list_all2_conv_all_nth) (simp add: spec_at_def)
  have "spec_wf (spec_at sp i f)" by (rule spec_at_wf [OF i wf])
  moreover have "get64 a 0 = get64 (sb_array b) 0"
    using low [of i] i n sb_rep_len [OF rep] by (intro hd) simp_all
  moreover have "ss_max (spec_at sp i f) = ss_max sp" by (simp add: spec_at_def)
  ultimately show "sb_rep (sb_set_array b a) (spec_at sp i f)"
    using rep l2 la cb_wf_length [OF la] by (simp add: sb_rep_def sb_rep0_def sb_layout_def sb_set_array_def)
  show "\<forall>p. p + 8 \<le> 24 \<longrightarrow> get64 (sb_array (sb_set_array b a)) p = get64 (sb_array b) p"
    using low [of i] i n sb_rep_len [OF rep] by (auto simp: sb_set_array_def intro!: hd)
qed

lemma cb_rep_add1:
  assumes "cb_rep c a M" "\<forall>n\<in>set (cb_slots c s). cb_load c M (unat n) < 15"
  shows "\<exists>a'. counting_bloom_add c a s = Some (a', 0) \<and> cb_rep c a' (add_mset s M) \<and> region_only c a a'"
proof -
  have wf: "cb_wf c a" using assms(1) by (simp add: cb_rep_def)
  obtain a' where a': "counting_bloom_add c a s = Some (a', 0)"
      "cb_effect c s a a' (\<lambda>c. min 15 (c + 1)) (\<lambda>n. n + 1)"
    using counting_bloom_add_wf [OF wf] by blast
  then show ?thesis using cb_rep_run [OF assms(1), of "[CbAdd s]"] assms(2) cb_effect_region by auto
qed

lemma cb_rep_remove1:
  assumes "cb_rep c a M" "s \<in># M"
  shows "\<exists>a'. counting_bloom_remove c a s = Some (a', 0) \<and> cb_rep c a' (M - {#s#}) \<and> region_only c a a'"
proof -
  have wf: "cb_wf c a" using assms(1) by (simp add: cb_rep_def)
  obtain a' where a': "counting_bloom_remove c a s = Some (a', 0)"
      "cb_effect c s a a' (\<lambda>c. c - 1) (\<lambda>n. n - 1)"
    using counting_bloom_remove_wf [OF wf] by blast
  then show ?thesis using cb_rep_run [OF assms(1), of "[CbRemove s]"] assms(2) cb_effect_region by auto
qed

text \<open>Appending a filter.\<close>

lemma cb_rep_empty:
  assumes wf: "cb_wf c a" and z: "\<forall>p. cb_offset c \<le> p \<and> p < cb_header c + cb_num_bytes c \<longrightarrow> a ! p = 0"
    and n: "get32 a (cb_header c + 8) = Some 0"
  shows "cb_rep c a {#}"
proof -
  have "counter a (cb_offset c) j = 0" if "j < cb_size c" for j
  proof -
    have "j div 2 < (cb_size c + 1) div 2" using that by presburger
    then have "j div 2 + cb_offset c < cb_header c + cb_num_bytes c" using wf by (auto simp: cb_wf_def)
    then show ?thesis using z by (simp add: counter_def nibble_def)
  qed
  then show ?thesis using wf n by (simp add: cb_rep_def cb_load_def)
qed

lemma sb_rep_append:
  assumes rep: "sb_rep0 b sp"
    and sane: "fp_sane fp (sb_capacity b) (fc_tighten fp (sb_error_rate b) (of_nat (length (sb_blooms b)) + 1))"
  shows "\<exists>b1 c a1 a2. new_counting_bloom_from_scale fp b = (b1, c) \<and>
     put32 (sb_array b1) (cb_header c + 8) 0 = Some a1 \<and>
     put64 a1 (cb_header c) h = Some a2 \<and>
     sb_blooms b1 = sb_blooms b @ [c] \<and> sb_capacity b1 = sb_capacity b \<and>
     sb_error_rate b1 = sb_error_rate b \<and>
     (\<forall>p. p + 8 \<le> 24 \<longrightarrow> get64 a2 p = get64 (sb_array b) p) \<and>
     sb_rep0 (sb_set_array b1 a2) (sp\<lparr>ss_filters := ss_filters sp @ [(h, {#})]\<rparr>)"
proof -
  have len: "24 \<le> length (sb_array b)" using rep by (simp add: sb_rep0_def sb_layout_def)
  let ?n = "length (sb_array b)"
  define e where "e = fc_tighten fp (sb_error_rate b) (of_nat (length (sb_blooms b)) + 1)"
  define c where "c = counting_bloom_init fp (sb_capacity b) e ?n"
  obtain b1 where b1: "new_counting_bloom_from_scale fp b = (b1, c)"
      "sb_array b1 = sb_array b @ replicate (cb_num_bytes c) 0" "bm_rest (sb_bitmap b1) = []"
      "sb_blooms b1 = sb_blooms b @ [c]" "sb_num_bytes b1 = ?n + cb_num_bytes c"
      "sb_capacity b1 = sb_capacity b" "sb_error_rate b1 = sb_error_rate b"
    using rep by (auto simp: new_counting_bloom_from_scale_def c_def e_def Let_def bitmap_resize_def
        sb_rep0_def sb_layout_def)
  have c: "cb_header c = ?n" "cb_offset c = ?n + 16" "16 \<le> cb_num_bytes c" "cb_capacity c = sb_capacity b"
    by (simp_all add: c_def counting_bloom_init_def Let_def)
  obtain a1 where a1: "put32 (sb_array b1) (?n + 8) 0 = Some a1" "length a1 = ?n + cb_num_bytes c"
      "get32 a1 (?n + 8) = Some 0" "\<forall>q. q < ?n + 8 \<or> ?n + 8 + 4 \<le> q \<longrightarrow> a1 ! q = sb_array b1 ! q"
    using put_Some(1) [of "?n + 8" "sb_array b1" 0] c(3) b1(2) by auto
  obtain a2 where a2: "put64 a1 ?n h = Some a2" "length a2 = ?n + cb_num_bytes c"
      "get64 a2 ?n = Some h" "\<forall>q. q < ?n \<or> ?n + 8 \<le> q \<longrightarrow> a2 ! q = a1 ! q"
    using put_Some(2) [of ?n a1 h] c(3) a1(2) by auto
  have old: "a2 ! q = sb_array b ! q" if "q < ?n" for q
    using that a1(4) a2(4) b1(2) by (simp add: nth_append)
  have "get32 a2 (?n + 8) = get32 a1 (?n + 8)"
    using a1 a2 c(3) by (intro get_same_on(1)) (auto simp: same_on_def)
  then have g: "get32 a2 (?n + 8) = Some 0" using a1(3) by simp
  have wf: "cb_wf c a2"
    unfolding c_def using a2(2) sane
    by (intro counting_bloom_init_wf) (simp_all add: e_def c_def)
  have "a2 ! q = 0" if "cb_offset c \<le> q" "q < cb_header c + cb_num_bytes c" for q
    using that a1(4) a2(4) b1(2) c by (simp add: nth_append)
  then have new: "cb_rep c a2 {#}" using wf g c(1) by (intro cb_rep_empty) simp_all
  have fr: "same_on (sb_array b) a2 p q" if "q \<le> ?n" for p q
    using old that by (simp add: same_on_def)
  have reg: "cb_header d + cb_num_bytes d \<le> ?n" if "d \<in> set (sb_blooms b)" for d
    using rep that by (auto simp: sb_rep0_def sb_layout_def cb_wf_def)
  have "list_all2 (\<lambda>c f. get64 a2 (cb_header c) = Some (fst f) \<and> cb_rep c a2 (snd f))
       (sb_blooms b) (ss_filters sp)"
    using rep unfolding sb_rep0_def
    by (elim conjE list.rel_mono_strong)
      (use cb_rep_frame [OF _ _ fr [OF reg]] a2(2) in auto)
  then have l2: "list_all2 (\<lambda>c f. get64 a2 (cb_header c) = Some (fst f) \<and> cb_rep c a2 (snd f))
       (sb_blooms b @ [c]) (ss_filters sp @ [(h, {#})])"
    using new a2(3) c(1) by (intro list_all2_appendI) simp_all
  have lo: "get64 a2 p = get64 (sb_array b) p" if "p + 8 \<le> 24" for p
    using that len a2(2)
    by (intro get_same_on(2) [symmetric]) (auto intro!: fr)
  have wfs: "cb_wf d a2" if "cb_wf d (sb_array b)" for d using that a2(2) by (auto simp: cb_wf_def)
  have "sb_layout (sb_set_array b1 a2)"
    using rep b1 c a2(2) wf reg len
    by (auto simp: sb_rep0_def sb_layout_def sb_set_array_def sorted_wrt_append intro: wfs)
  then have "sb_rep0 (sb_set_array b1 a2) (sp\<lparr>ss_filters := ss_filters sp @ [(h, {#})]\<rparr>)"
    using rep l2 b1 lo [of 0] by (simp add: sb_rep0_def sb_set_array_def)
  then show ?thesis using b1 a1 a2 c lo by auto
qed

text \<open>Whole operations.\<close>

definition sb_desc :: "fp_counting \<Rightarrow> u32 \<Rightarrow> c_double \<Rightarrow> nat \<Rightarrow> nat \<Rightarrow> counting_bloom_t" where
  "sb_desc fp capacity e i off = counting_bloom_init fp capacity (fc_tighten fp e (of_nat i + 1)) off"

definition sb_params :: "fp_counting \<Rightarrow> scaling_bloom_t \<Rightarrow> bool" where
  "sb_params fp b \<longleftrightarrow> (\<forall>i<length (sb_blooms b). \<exists>off.
     sb_blooms b ! i = sb_desc fp (sb_capacity b) (sb_error_rate b) i off)"

lemma cb_slots_cong:
  assumes "cb_counts_per_func c = cb_counts_per_func d" "cb_nfuncs c = cb_nfuncs d"
  shows "cb_slots c s = cb_slots d s"
proof -
  have "hash_func c s = hash_func d s" by (simp only: hash_func_def assms)
  moreover have "cb_index c h = cb_index d h" for h by (simp add: cb_index_def fun_eq_iff assms)
  ultimately show ?thesis by (simp add: cb_slots_def assms)
qed

lemma sb_desc_slots: "cb_slots (sb_desc fp capacity e i off) s = cb_slots (sb_desc fp capacity e i 0) s"
  by (rule cb_slots_cong) (simp_all add: sb_desc_def counting_bloom_init_def Let_def)

lemma sb_desc_load: "cb_load (sb_desc fp capacity e i off) M j = cb_load (sb_desc fp capacity e i 0) M j"
  by (simp add: cb_load_def slot_set_def sb_desc_slots [of fp capacity e i off])

text \<open>The counters of the filter that takes the key are all below 15.\<close>

definition spec_room :: "fp_counting \<Rightarrow> u32 \<Rightarrow> c_double \<Rightarrow> sspec \<Rightarrow> bytes \<Rightarrow> u64 \<Rightarrow> bool" where
  "spec_room fp capacity e sp s k \<longleftrightarrow>
     (spec_full capacity sp k \<longrightarrow> fp_sane fp capacity (fc_tighten fp e (of_nat (length (ss_filters sp)) + 1))) \<and>
     (let sp = spec_grow capacity sp k; i = spec_owner (map fst (ss_filters sp)) k; c = sb_desc fp capacity e i 0
      in \<forall>n\<in>set (cb_slots c s). cb_load c (snd (ss_filters sp ! i)) (unat n) < 15)"

lemma u64_succ:
  fixes m k h :: u64
  assumes "m < k"
  shows "m + 1 \<le> k" "h \<le> m \<Longrightarrow> h < m + 1"
proof -
  have "unat m < unat k" "unat k < 2 ^ 64"
    using assms unsigned_less [of k, where 'a = nat] by (simp_all add: word_less_nat_alt)
  then have "unat (m + 1) = unat m + 1" by (simp add: unat_word_ariths)
  then show "m + 1 \<le> k" "h \<le> m \<Longrightarrow> h < m + 1"
    using assms by (simp_all add: word_le_nat_alt word_less_nat_alt)
qed

lemma spec_grow_wf:
  assumes "spec_wf sp"
  shows "spec_wf ((spec_grow capacity sp k)\<lparr>ss_max := max (ss_max sp) k\<rparr>)"
proof -
  have "\<forall>h\<in>set (map fst (ss_filters sp)). h \<le> max (ss_max sp) k"
    using assms(1) by (auto simp: spec_wf_def max_def intro: order.trans)
  then show ?thesis
    using assms(1) u64_succ [of "ss_max sp" k]
    by (auto simp: spec_grow_def spec_full_def spec_wf_def sorted_wrt_append max_def)
qed

lemma spec_grow_owner:
  assumes "spec_wf sp" "spec_full capacity sp k"
  shows "spec_owner (map fst (ss_filters (spec_grow capacity sp k))) k = length (ss_filters sp)"
proof -
  have m: "max (ss_max sp) k = k" using assms(2) by (simp add: spec_full_def max_absorb2 less_imp_le)
  have "\<forall>h\<in>set (map fst (ss_filters (spec_grow capacity sp k))). h \<le> k"
    using spec_grow_wf [OF assms(1), where capacity = capacity and k = k] m
    by (simp add: spec_wf_def)
  then have "takeWhile (\<lambda>h. h \<le> k) (map fst (ss_filters (spec_grow capacity sp k))) =
      map fst (ss_filters (spec_grow capacity sp k))"
    by (simp add: takeWhile_eq_all_conv)
  then show ?thesis using assms(2) unfolding spec_owner_def by (simp only:) (simp add: spec_grow_def)
qed

lemma scaling_bloom_add_rep:
  assumes rep: "sb_rep b sp" and par: "sb_params fp b"
    and room: "spec_room fp (sb_capacity b) (sb_error_rate b) sp s k"
  shows "\<exists>b' sn. scaling_bloom_add fp b s k = Some (b', 1) \<and> sb_rep b' (spec_add (sb_capacity b) sp s k) \<and>
     sb_params fp b' \<and> sb_capacity b' = sb_capacity b \<and> sb_error_rate b' = sb_error_rate b \<and>
     get64 (sb_array b) 8 = Some sn \<and> get64 (sb_array b') 8 = Some (sn + 1) \<and>
     get64 (sb_array b') 16 = Some 0"
proof -
  let ?cap = "sb_capacity b"
  define i0 where "i0 = spec_owner (map fst (ss_filters sp)) k"
  note srch = sb_rep_search(1-3) [OF rep, of k, folded i0_def] sb_rep_search(4) [OF rep]
  obtain b1 sn where b1: "scaling_bloom_clear_seqnums b = Some (b1, sn)" "get64 (sb_array b) 8 = Some sn"
      "sb_rep b1 sp" "hdr_only b b1" "get64 (sb_array b1) 16 = Some 0"
    using clear_seqnums_rep [OF rep] by blast
  note h1 = hdr_only_simps [OF b1(4)]
  have wf: "spec_wf sp" and g1: "get64 (sb_array b1) 0 = Some (ss_max sp)"
    and r0: "cb_rep (sb_blooms b ! i0) (sb_array b1) (snd (ss_filters sp ! i0))"
    and cap0: "cb_capacity (sb_blooms b ! i0) = ?cap"
    using b1(3) srch(3,4) h1(1,2)
    by (auto simp: sb_rep_def sb_rep0_def list_all2_conv_all_nth sb_layout_def)
  have g2: "get32 (sb_array b1) (cb_header (sb_blooms b ! i0) + 8) =
      Some (of_nat (size (snd (ss_filters sp ! i0))))" using r0 by (simp add: cb_rep_def)
  define full where "full = spec_full ?cap sp k"
  have full: "(k > ss_max sp \<and> of_nat (size (snd (ss_filters sp ! i0))) \<ge> ?cap - 1) = full"
    by (simp add: full_def spec_full_def i0_def)
  define sp2 where "sp2 = spec_grow ?cap sp k"
  define i where "i = spec_owner (map fst (ss_filters sp2)) k"
  text \<open>The filter that takes the key, after the bitmap has grown if it has to.\<close>
  obtain b2 where b2: "(if full then
        (let (bloom, cur_bloom) = new_counting_bloom_from_scale fp b1 in do {
             a \<leftarrow> put32 (sb_array bloom) (cb_header cur_bloom + 8) 0;
             a \<leftarrow> put64 a (cb_header cur_bloom) (ss_max sp + 1);
             Some (sb_set_array bloom a, cur_bloom) })
        else Some (b1, sb_blooms b ! i0)) = Some (b2, sb_blooms b2 ! i)"
      "sb_rep0 b2 sp2" "sb_params fp b2" "sb_capacity b2 = ?cap" "sb_error_rate b2 = sb_error_rate b"
      "get64 (sb_array b2) 16 = Some 0"
  proof (cases full)
    case True
    have sane1: "fp_sane fp (sb_capacity b1) (fc_tighten fp (sb_error_rate b1) (of_nat (length (sb_blooms b1)) + 1))"
      using room True h1 srch(4) by (simp add: spec_room_def full_def)
    obtain c1 c a1 a2 where c: "new_counting_bloom_from_scale fp b1 = (c1, c)"
       "put32 (sb_array c1) (cb_header c + 8) 0 = Some a1"
       "put64 a1 (cb_header c) (ss_max sp + 1) = Some a2"
       "sb_blooms c1 = sb_blooms b1 @ [c]" "sb_capacity c1 = sb_capacity b1"
       "sb_error_rate c1 = sb_error_rate b1" "\<forall>p. p + 8 \<le> 24 \<longrightarrow> get64 a2 p = get64 (sb_array b1) p"
       "sb_rep0 (sb_set_array c1 a2) (sp\<lparr>ss_filters := ss_filters sp @ [(ss_max sp + 1, {#})]\<rparr>)"
      using sb_rep_append [OF conjunct2 [OF b1(3) [unfolded sb_rep_def]] sane1, of "ss_max sp + 1"] by blast
    have sp2: "sp2 = sp\<lparr>ss_filters := ss_filters sp @ [(ss_max sp + 1, {#})]\<rparr>"
      using True by (simp add: sp2_def spec_grow_def full_def)
    have i: "i = length (sb_blooms b1)"
      using spec_grow_owner [OF wf] True srch(4) h1(1) by (simp add: i_def sp2_def full_def)
    have "c = sb_desc fp ?cap (sb_error_rate b) (length (sb_blooms b1)) (sb_num_bytes b1)"
      using c(1) h1 by (auto simp: new_counting_bloom_from_scale_def sb_desc_def Let_def)
    then have "sb_params fp (sb_set_array c1 a2)"
      using par c h1 by (auto simp: sb_params_def sb_set_array_def nth_append less_Suc_eq)
    moreover have "sb_blooms (sb_set_array c1 a2) ! i = c" using c(4) i by (simp add: sb_set_array_def)
    ultimately show ?thesis
      using that [of "sb_set_array c1 a2"] True c h1 b1(5) by (simp add: sp2 sb_set_array_def)
  next
    case False
    then have "sp2 = sp" "i = i0" by (simp_all add: sp2_def spec_grow_def full_def i_def i0_def)
    then show ?thesis
      using that [of b1] False b1(3,5) h1 par by (simp add: sb_rep_def sb_params_def)
  qed
  text \<open>The largest id.\<close>
  define m where "m = max (ss_max sp) k"
  have mx2: "ss_max sp2 = ss_max sp" by (simp add: sp2_def spec_grow_def)
  have len2: "24 \<le> length (sb_array b2)" using b2(2) by (simp add: sb_rep0_def sb_layout_def)
  obtain b3 where b3: "(if ss_max sp < k then sb_put64 b2 0 k else Some b2) = Some b3"
      "hdr_only b2 b3" "get64 (sb_array b3) 0 = Some m" "get64 (sb_array b3) 16 = Some 0"
  proof (cases "ss_max sp < k")
    case True
    then have "m = k" by (simp add: m_def max_absorb2 less_imp_le)
    then show ?thesis using True sb_put64_hdr [of 0 b2 k] len2 b2(6) that by auto
  next
    case False
    then show ?thesis using that [of b2] b2(2,6) mx2 by (auto simp: m_def max_def sb_rep0_def hdr_only_refl)
  qed
  note h3 = hdr_only_simps [OF b3(2)]
  have "sb_rep0 b3 (sp2\<lparr>ss_max := m\<rparr>)" by (rule sb_rep_hdr_only [OF b2(2) b3(2,3)])
  then have rep3: "sb_rep b3 (sp2\<lparr>ss_max := m\<rparr>)"
    using spec_grow_wf [OF wf, where capacity = ?cap and k = k] by (simp add: sb_rep_def sp2_def m_def)
  text \<open>The key goes into its filter.\<close>
  have i: "i < length (ss_filters sp2)" "length (sb_blooms b3) = length (ss_filters sp2)"
    using sb_rep_search(3,4) [OF rep3] by (simp_all add: i_def)
  have r3: "cb_rep (sb_blooms b3 ! i) (sb_array b3) (snd (ss_filters sp2 ! i))"
    using rep3 i by (auto simp: sb_rep_def sb_rep0_def list_all2_conv_all_nth)
  obtain off where "sb_blooms b3 ! i = sb_desc fp ?cap (sb_error_rate b) i off"
    using b2(3-5) h3(1) i by (auto simp: sb_params_def)
  then have "\<forall>n\<in>set (cb_slots (sb_blooms b3 ! i) s).
      cb_load (sb_blooms b3 ! i) (snd (ss_filters sp2 ! i)) (unat n) < 15"
    using room by (simp add: spec_room_def Let_def sp2_def i_def sb_desc_slots [of _ _ _ _ off]
        sb_desc_load [of _ _ _ _ off])
  from cb_rep_add1 [OF r3 this] obtain a4 where
    a4: "counting_bloom_add (sb_blooms b3 ! i) (sb_array b3) s = Some (a4, 0)"
      "cb_rep (sb_blooms b3 ! i) a4 (add_mset s (snd (ss_filters sp2 ! i)))"
      "region_only (sb_blooms b3 ! i) (sb_array b3) a4" by blast
  have g4: "get64 (sb_array (sb_set_array b3 a4)) 16 = Some 0"
    using sb_rep_update(2) [OF rep3 _ a4(3), of "add_mset s"] i a4(2) b3(4) by simp
  have rep4: "sb_rep (sb_set_array b3 a4) (spec_at (sp2\<lparr>ss_max := m\<rparr>) i (add_mset s))"
    by (rule sb_rep_update(1) [OF rep3 _ a4(3)]) (use i a4(2) in simp_all)
  obtain b5 where b5: "sb_put64 (sb_set_array b3 a4) 8 (sn + 1) = Some b5"
      "hdr_only (sb_set_array b3 a4) b5" "get64 (sb_array b5) 8 = Some (sn + 1)"
      "get64 (sb_array b5) 0 = get64 (sb_array (sb_set_array b3 a4)) 0" "get64 (sb_array b5) 16 = Some 0"
    using sb_put64_hdr [of 8 "sb_set_array b3 a4" "sn + 1"] sb_rep_len [OF rep4] g4 by auto
  have rep5: "sb_rep b5 (spec_at (sp2\<lparr>ss_max := m\<rparr>) i (add_mset s))"
    by (rule sb_rep_hdr_only_same [OF rep4 b5(2,4)])
  have spec: "spec_at (sp2\<lparr>ss_max := m\<rparr>) i (add_mset s) = spec_add ?cap sp s k"
    by (simp add: spec_add_def spec_at_def Let_def sp2_def i_def m_def mx2 [unfolded sp2_def])
  note h5 = hdr_only_simps [OF b5(2)]
  have "scaling_bloom_add fp b s k = Some (b5, 1)"
    using srch(1) b1(1) g1 g2 b2(1) b3(1) a4(1) b5(1) h3(1)
    by (simp add: scaling_bloom_add_def cap0 full)
  moreover have "sb_params fp b5" "sb_capacity b5 = ?cap" "sb_error_rate b5 = sb_error_rate b"
    using b2(3-5) h3 h5 by (simp_all add: sb_params_def sb_set_array_def)
  ultimately show ?thesis using rep5 b1(2) b5(3,5) spec by auto
qed

lemma scaling_bloom_remove_rep:
  assumes rep: "sb_rep b sp"
    and mem: "s \<in># snd (ss_filters sp ! spec_owner (map fst (ss_filters sp)) k)"
  shows "\<exists>b' sn. scaling_bloom_remove b s k = Some (b', 1) \<and> sb_rep b' (spec_remove sp s k) \<and>
     sb_blooms b' = sb_blooms b \<and> sb_capacity b' = sb_capacity b \<and> sb_error_rate b' = sb_error_rate b \<and>
     get64 (sb_array b) 8 = Some sn \<and> get64 (sb_array b') 8 = Some (sn + 1) \<and>
     get64 (sb_array b') 16 = Some 0"
proof -
  define i where "i = spec_owner (map fst (ss_filters sp)) k"
  note srch = sb_rep_search(1-3) [OF rep, of k, folded i_def] sb_rep_search(4) [OF rep]
  obtain b1 sn where b1: "scaling_bloom_clear_seqnums b = Some (b1, sn)" "get64 (sb_array b) 8 = Some sn"
      "sb_rep b1 sp" "hdr_only b b1" "get64 (sb_array b1) 16 = Some 0"
    using clear_seqnums_rep [OF rep] by blast
  note h1 = hdr_only_simps [OF b1(4)]
  have r: "cb_rep (sb_blooms b1 ! i) (sb_array b1) (snd (ss_filters sp ! i))"
    using b1(3) srch(3) by (auto simp: sb_rep_def sb_rep0_def list_all2_conv_all_nth)
  from cb_rep_remove1 [OF r mem [folded i_def]] obtain a where
    a: "counting_bloom_remove (sb_blooms b1 ! i) (sb_array b1) s = Some (a, 0)"
      "cb_rep (sb_blooms b1 ! i) a (snd (ss_filters sp ! i) - {#s#})"
      "region_only (sb_blooms b1 ! i) (sb_array b1) a" by blast
  have g2: "get64 (sb_array (sb_set_array b1 a)) 16 = Some 0"
    using sb_rep_update(2) [OF b1(3) srch(3) a(3), of "\<lambda>M. M - {#s#}"] a(2) b1(5) by simp
  have rep2: "sb_rep (sb_set_array b1 a) (spec_remove sp s k)"
    unfolding spec_remove_def i_def [symmetric]
    by (rule sb_rep_update(1) [OF b1(3) srch(3) a(3)]) (use a(2) in simp)
  obtain b3 where b3: "sb_put64 (sb_set_array b1 a) 8 (sn + 1) = Some b3"
      "hdr_only (sb_set_array b1 a) b3" "get64 (sb_array b3) 8 = Some (sn + 1)"
      "get64 (sb_array b3) 0 = get64 (sb_array (sb_set_array b1 a)) 0" "get64 (sb_array b3) 16 = Some 0"
    using sb_put64_hdr [of 8 "sb_set_array b1 a" "sn + 1"] sb_rep_len [OF rep2] g2 by auto
  note h3 = hdr_only_simps [OF b3(2)]
  have "scaling_bloom_remove b s k = Some (b3, 1)"
    using srch(2) b1(1) a(1) b3(1) h1(1) by (simp add: scaling_bloom_remove_def)
  then show ?thesis
    using sb_rep_hdr_only_same [OF rep2 b3(2,4)] b1(2) b3(3,5) h1 h3 by (simp add: sb_set_array_def)
qed

lemma scaling_bloom_flush_rep:
  assumes rep: "sb_rep b sp"
  shows "\<exists>b' r sn. scaling_bloom_flush b = Some (b', r) \<and> sb_rep b' sp \<and> hdr_only b b' \<and>
     get64 (sb_array b) 8 = Some sn \<and> get64 (sb_array b') 8 = Some sn"
proof -
  have len: "24 \<le> length (sb_array b)" by (rule sb_rep_len [OF rep])
  let ?f = "sb_flush_bitmap b"
  have fa [simp]: "sb_array (sb_flush_bitmap c) = sb_array c" for c
    by (simp add: sb_flush_bitmap_def bitmap_flush_array)
  obtain ds sn where g: "get64 (sb_array b) 16 = Some ds" "get64 (sb_array b) 8 = Some sn"
    using len by (auto simp: get64_def)
  show ?thesis
  proof (cases "ds = 0 \<and> snd (bitmap_flush (sb_bitmap b)) = 0")
    case False
    then show ?thesis using g sb_rep_hdr_only_same [OF rep hdr_only_flush] hdr_only_flush [of b]
      by (auto simp: scaling_bloom_flush_def Let_def)
  next
    case True
    obtain c where c: "sb_put64 ?f 16 sn = Some c" "hdr_only ?f c"
        "\<forall>q \<le> 8. get64 (sb_array c) q = get64 (sb_array b) q"
      using sb_put64_hdr [of 16 ?f sn] len by auto
    have h: "hdr_only b (sb_flush_bitmap c)"
      by (rule hdr_only_trans [OF hdr_only_trans [OF hdr_only_flush c(2)] hdr_only_flush])
    show ?thesis using g True c h sb_rep_hdr_only_same [OF rep h]
      by (simp add: scaling_bloom_flush_def Let_def)
  qed
qed

lemma sb_check_loop_Some:
  "\<forall>d\<in>set bs. counting_bloom_check d a s \<noteq> None \<Longrightarrow> c \<in> set bs \<Longrightarrow>
     counting_bloom_check c a s = Some 1 \<Longrightarrow> sb_check_loop a s bs = Some 1"
  by (induction bs) auto

lemma scaling_bloom_check_rep:
  assumes rep: "sb_rep b sp" and f: "f \<in> set (ss_filters sp)" "s \<in># snd f"
  shows "scaling_bloom_check b s = Some 1"
proof -
  have all: "list_all2 (\<lambda>c f. cb_rep c (sb_array b) (snd f)) (sb_blooms b) (ss_filters sp)"
    using rep by (auto simp: sb_rep_def sb_rep0_def elim: list.rel_mono_strong)
  then obtain c where c: "c \<in> set (sb_blooms b)" "counting_bloom_check c (sb_array b) s = Some 1"
    using f cb_rep_check by (metis (no_types, lifting) in_set_conv_nth list_all2_conv_all_nth)
  have "\<forall>d\<in>set (rev (sb_blooms b)). counting_bloom_check d (sb_array b) s \<noteq> None"
    using rep counting_bloom_check_wf by (auto simp: sb_rep_def sb_rep0_def sb_layout_def)
  moreover have "c \<in> set (rev (sb_blooms b))" using c(1) by simp
  ultimately have "sb_check_loop (sb_array b) s (rev (sb_blooms b)) = Some 1"
    using c(2) by (rule sb_check_loop_Some)
  then show ?thesis by (simp add: scaling_bloom_check_def)
qed

section \<open>Runs\<close>

datatype sc_op = ScAdd bytes u64 | ScRemove bytes u64 | ScFlush

fun sc_step :: "fp_counting \<Rightarrow> scaling_bloom_t \<Rightarrow> sc_op \<Rightarrow> scaling_bloom_t option" where
  "sc_step fp b (ScAdd s k) = map_option fst (scaling_bloom_add fp b s k)"
| "sc_step fp b (ScRemove s k) = map_option fst (scaling_bloom_remove b s k)"
| "sc_step fp b ScFlush = map_option fst (scaling_bloom_flush b)"

fun sc_run :: "fp_counting \<Rightarrow> scaling_bloom_t \<Rightarrow> sc_op list \<Rightarrow> scaling_bloom_t option" where
  "sc_run fp b [] = Some b"
| "sc_run fp b (p # ps) = Option.bind (sc_step fp b p) (\<lambda>b. sc_run fp b ps)"

fun sc_spec1 :: "u32 \<Rightarrow> sspec \<Rightarrow> sc_op \<Rightarrow> sspec" where
  "sc_spec1 capacity sp (ScAdd s k) = spec_add capacity sp s k"
| "sc_spec1 capacity sp (ScRemove s k) = spec_remove sp s k"
| "sc_spec1 capacity sp ScFlush = sp"

text \<open>What the caller knows: the pairs of a key and an id that are in the filter.\<close>

fun sc_live1 :: "(bytes \<times> u64) multiset \<Rightarrow> sc_op \<Rightarrow> (bytes \<times> u64) multiset" where
  "sc_live1 L (ScAdd s k) = add_mset (s, k) L"
| "sc_live1 L (ScRemove s k) = L - {#(s, k)#}"
| "sc_live1 L ScFlush = L"

fun sc_updates :: "sc_op list \<Rightarrow> nat" where
  "sc_updates [] = 0"
| "sc_updates (ScFlush # ps) = sc_updates ps"
| "sc_updates (_ # ps) = Suc (sc_updates ps)"

text \<open>A run in which no counter overflows and only pairs that are present are removed.\<close>

fun sc_run_ok :: "fp_counting \<Rightarrow> u32 \<Rightarrow> c_double \<Rightarrow> sspec \<Rightarrow> (bytes \<times> u64) multiset \<Rightarrow> sc_op list \<Rightarrow> bool" where
  "sc_run_ok fp capacity e sp L [] = True"
| "sc_run_ok fp capacity e sp L (p # ps) =
     ((case p of ScAdd s k \<Rightarrow> spec_room fp capacity e sp s k
       | ScRemove s k \<Rightarrow> (s, k) \<in># L
       | ScFlush \<Rightarrow> True) \<and>
      sc_run_ok fp capacity e (sc_spec1 capacity sp p) (sc_live1 L p) ps)"

definition spec_live :: "sspec \<Rightarrow> (bytes \<times> u64) multiset \<Rightarrow> bool" where
  "spec_live sp L \<longleftrightarrow> spec_wf sp \<and> (\<forall>p\<in>#L. snd p \<le> ss_max sp) \<and>
     (\<forall>i<length (ss_filters sp). snd (ss_filters sp ! i) =
        image_mset fst (filter_mset (\<lambda>p. spec_owner (map fst (ss_filters sp)) (snd p) = i) L))"

lemma spec_owner_less: "spec_wf sp \<Longrightarrow> spec_owner (map fst (ss_filters sp)) k < length (ss_filters sp)"
proof -
  assume wf: "spec_wf sp"
  have "length (takeWhile (\<lambda>h. h \<le> k) (map fst (ss_filters sp))) \<le> length (ss_filters sp)"
    using length_takeWhile_le [of "\<lambda>h. h \<le> k" "map fst (ss_filters sp)"] by simp
  moreover have "0 < length (ss_filters sp)" using wf by (simp add: spec_wf_def)
  ultimately show ?thesis unfolding spec_owner_def by linarith
qed

lemma spec_owner_append:
  "k < h \<Longrightarrow> spec_owner (ids @ [h]) k = spec_owner ids k"
proof -
  assume "k < h"
  then have "takeWhile (\<lambda>h. h \<le> k) (ids @ [h]) = takeWhile (\<lambda>h. h \<le> k) ids"
    by (induction ids) auto
  then show ?thesis by (simp add: spec_owner_def)
qed

lemma spec_live_grow:
  fixes capacity :: u32 and k :: u64
  assumes "spec_live sp L"
  defines "sp2 \<equiv> spec_grow capacity sp k"
  shows "\<forall>i<length (ss_filters sp2). snd (ss_filters sp2 ! i) =
        image_mset fst (filter_mset (\<lambda>p. spec_owner (map fst (ss_filters sp2)) (snd p) = i) L)"
proof (cases "spec_full capacity sp k")
  case False
  then show ?thesis using assms(1) by (simp add: sp2_def spec_grow_def spec_live_def)
next
  case True
  let ?ids = "map fst (ss_filters sp)"
  have wf: "spec_wf sp" using assms(1) by (simp add: spec_live_def)
  have sp2: "ss_filters sp2 = ss_filters sp @ [(ss_max sp + 1, {#})]"
    using True by (simp add: sp2_def spec_grow_def)
  have "spec_owner (?ids @ [ss_max sp + 1]) (snd p) = spec_owner ?ids (snd p)" if "p \<in># L" for p
  proof (rule spec_owner_append)
    show "snd p < ss_max sp + 1"
      using that assms(1) True u64_succ(2) [of "ss_max sp" k] by (simp add: spec_live_def spec_full_def)
  qed
  then have eq: "filter_mset (\<lambda>p. spec_owner (map fst (ss_filters sp2)) (snd p) = i) L =
      filter_mset (\<lambda>p. spec_owner ?ids (snd p) = i) L" for i
    by (intro filter_mset_cong) (simp_all add: sp2)
  have "filter_mset (\<lambda>p. spec_owner ?ids (snd p) = length (ss_filters sp)) L = filter_mset (\<lambda>_. False) L"
    using spec_owner_less [OF wf] by (intro filter_mset_cong refl) (metis less_irrefl)
  then have none: "filter_mset (\<lambda>p. spec_owner ?ids (snd p) = length (ss_filters sp)) L = {#}" by simp
  show ?thesis
    unfolding eq using assms(1) none by (auto simp: sp2 nth_append less_Suc_eq spec_live_def)
qed

lemma spec_at_nth:
  "i < length (ss_filters sp) \<Longrightarrow> j < length (ss_filters sp) \<Longrightarrow>
     snd (ss_filters (spec_at sp i f) ! j) = (if j = i then f (snd (ss_filters sp ! i)) else snd (ss_filters sp ! j))"
  by (simp add: spec_at_def)

lemma spec_live_add:
  assumes "spec_live sp L"
  shows "spec_live (spec_add capacity sp s k) (add_mset (s, k) L)"
proof -
  define sp2 where "sp2 = spec_grow capacity sp k"
  define i where "i = spec_owner (map fst (ss_filters sp2)) k"
  define sp3 where "sp3 = sp2\<lparr>ss_max := max (ss_max sp) k\<rparr>"
  have mx: "ss_max sp2 = ss_max sp" by (simp add: sp2_def spec_grow_def)
  have wf3: "spec_wf sp3"
    using spec_grow_wf assms by (simp add: sp3_def sp2_def spec_live_def)
  have f3: "ss_filters sp3 = ss_filters sp2" by (simp add: sp3_def)
  have i: "i < length (ss_filters sp3)" using spec_owner_less [OF wf3] by (simp add: i_def f3)
  have sa: "spec_add capacity sp s k = spec_at sp3 i (add_mset s)"
    using mx by (simp add: spec_add_def sp3_def spec_at_def Let_def i_def sp2_def)
  have "\<forall>p\<in>#add_mset (s, k) L. snd p \<le> max (ss_max sp) k"
    using assms by (auto simp: spec_live_def max_def intro: order.trans)
  moreover have "length (ss_filters (spec_at sp3 i (add_mset s))) = length (ss_filters sp3)"
    "ss_max (spec_at sp3 i (add_mset s)) = max (ss_max sp) k"
    by (simp_all add: spec_at_def sp3_def)
  ultimately show ?thesis
    using spec_at_wf [OF i wf3] spec_live_grow [OF assms, of capacity k, folded sp2_def] i
    unfolding spec_live_def sa
    by (auto simp: spec_at_ids spec_at_nth f3 i_def)
qed

lemma spec_live_remove:
  assumes "spec_live sp L" "(s, k) \<in># L"
  shows "s \<in># snd (ss_filters sp ! spec_owner (map fst (ss_filters sp)) k)"
    "spec_live (spec_remove sp s k) (L - {#(s, k)#})"
proof -
  define i where "i = spec_owner (map fst (ss_filters sp)) k"
  have wf: "spec_wf sp" using assms(1) by (simp add: spec_live_def)
  have i: "i < length (ss_filters sp)" using spec_owner_less [OF wf] by (simp add: i_def)
  obtain N where N: "L = add_mset (s, k) N" using assms(2) by (blast dest: multi_member_split)
  have M: "snd (ss_filters sp ! j) = image_mset fst (filter_mset (\<lambda>p. spec_owner (map fst (ss_filters sp)) (snd p) = j) L)"
    if "j < length (ss_filters sp)" for j
    using assms(1) that by (simp add: spec_live_def)
  show "s \<in># snd (ss_filters sp ! spec_owner (map fst (ss_filters sp)) k)"
    using M [OF i] by (simp add: N i_def)
  have "length (ss_filters (spec_remove sp s k)) = length (ss_filters sp)"
    "ss_max (spec_remove sp s k) = ss_max sp"
    by (simp_all add: spec_remove_def spec_at_def)
  then show "spec_live (spec_remove sp s k) (L - {#(s, k)#})"
    using spec_at_wf [OF i wf] assms(1) i M
    unfolding spec_live_def spec_remove_def i_def [symmetric]
    by (auto simp: spec_at_ids spec_at_nth N i_def)
qed

lemma sc_run_rep:
  assumes "sb_rep b sp" "spec_live sp L" "sb_params fp b" "sb_capacity b = capacity" "sb_error_rate b = e"
    and "get64 (sb_array b) 8 = Some n"
    and "sc_run_ok fp capacity e sp L ps"
  shows "\<exists>b'. sc_run fp b ps = Some b' \<and>
     sb_rep b' (foldl (sc_spec1 capacity) sp ps) \<and>
     spec_live (foldl (sc_spec1 capacity) sp ps) (foldl sc_live1 L ps) \<and>
     get64 (sb_array b') 8 = Some (n + of_nat (sc_updates ps)) \<and>
     sb_params fp b' \<and> sb_capacity b' = capacity \<and> sb_error_rate b' = e"
  using assms
proof (induction ps arbitrary: b sp L n)
  case (Cons p ps)
  show ?case
  proof (cases p)
    case (ScAdd s k)
    obtain b' where b': "scaling_bloom_add fp b s k = Some (b', 1)" "sb_rep b' (spec_add capacity sp s k)"
        "sb_params fp b'" "sb_capacity b' = capacity" "sb_error_rate b' = e" "get64 (sb_array b') 8 = Some (n + 1)"
      using scaling_bloom_add_rep [OF Cons.prems(1) Cons.prems(3), of s k] Cons.prems ScAdd by auto
    have "sc_run_ok fp capacity e (spec_add capacity sp s k) (add_mset (s, k) L) ps"
      using Cons.prems(7) ScAdd by simp
    from Cons.IH [OF b'(2) spec_live_add [OF Cons.prems(2)] b'(3-6) this]
    show ?thesis using ScAdd b'(1) by (simp add: add.assoc)
  next
    case (ScRemove s k)
    have m: "(s, k) \<in># L" using Cons.prems(7) ScRemove by simp
    note sl = spec_live_remove [OF Cons.prems(2) m]
    obtain b' where b': "scaling_bloom_remove b s k = Some (b', 1)" "sb_rep b' (spec_remove sp s k)"
        "sb_blooms b' = sb_blooms b" "sb_capacity b' = capacity" "sb_error_rate b' = e"
        "get64 (sb_array b') 8 = Some (n + 1)"
      using scaling_bloom_remove_rep [OF Cons.prems(1) sl(1)] Cons.prems by auto
    have pr: "sb_params fp b'" using Cons.prems(3-5) b' by (simp add: sb_params_def)
    have "sc_run_ok fp capacity e (spec_remove sp s k) (L - {#(s, k)#}) ps"
      using Cons.prems(7) ScRemove by simp
    from Cons.IH [OF b'(2) sl(2) pr b'(4-6) this]
    show ?thesis using ScRemove b'(1) by (simp add: add.assoc)
  next
    case ScFlush
    obtain b' r where b': "scaling_bloom_flush b = Some (b', r)" "sb_rep b' sp" "hdr_only b b'"
        "get64 (sb_array b') 8 = Some n"
      using scaling_bloom_flush_rep [OF Cons.prems(1)] Cons.prems(6) by auto
    note h = hdr_only_simps [OF b'(3)]
    have pr: "sb_params fp b'" using Cons.prems(3) h by (simp add: sb_params_def)
    have "sc_run_ok fp capacity e sp L ps" using Cons.prems(7) ScFlush by simp
    from Cons.IH [OF b'(2) Cons.prems(2) pr _ _ b'(4) this]
    show ?thesis using ScFlush b'(1) h Cons.prems(4,5) by simp
  qed
qed simp

definition spec_init :: sspec where
  "spec_init = \<lparr>ss_filters = [(0, {#})], ss_max = 0\<rparr>"

lemma spec_init_live: "spec_live spec_init {#}"
  by (simp add: spec_live_def spec_init_def spec_wf_def)

lemma new_scaling_bloom_rep:
  assumes "fp_sane fp capacity (fc_tighten fp e 1)"
  shows "\<exists>b. new_scaling_bloom fp capacity e True = Some (Some b) \<and> sb_rep b spec_init \<and>
     sb_params fp b \<and> sb_capacity b = capacity \<and> sb_error_rate b = e \<and>
     get64 (sb_array b) 8 = Some 1 \<and> get64 (sb_array b) 16 = Some 0"
proof -
  let ?b0 = "scaling_bloom_init capacity e []"
  have z: "le64 (take 8 (drop n (replicate 24 0))) = 0" for n
    by (rule bit_word_eqI) (auto simp: bit_le64)
  have a0: "sb_array ?b0 = replicate 24 0" "bm_rest (sb_bitmap ?b0) = []"
    by (simp_all add: scaling_bloom_init_def new_bitmap_def bitmap_resize_def Let_def)
  have r0: "sb_rep0 ?b0 \<lparr>ss_filters = [], ss_max = 0\<rparr>"
    using a0 z [of 0] by (simp add: sb_rep0_def sb_layout_def get64_def) (simp add: scaling_bloom_init_def)
  have p0: "sb_capacity ?b0 = capacity" "sb_error_rate ?b0 = e" "sb_blooms ?b0 = []"
    by (simp_all add: scaling_bloom_init_def)
  obtain b1 c a1 a2 where c: "new_counting_bloom_from_scale fp ?b0 = (b1, c)"
     "put32 (sb_array b1) (cb_header c + 8) 0 = Some a1"
     "put64 a1 (cb_header c) 0 = Some a2"
     "sb_blooms b1 = [c]" "sb_capacity b1 = capacity" "sb_error_rate b1 = e"
     "\<forall>p. p + 8 \<le> 24 \<longrightarrow> get64 a2 p = get64 (sb_array ?b0) p"
     "sb_rep0 (sb_set_array b1 a2) \<lparr>ss_filters = [(0, {#})], ss_max = 0\<rparr>"
    using sb_rep_append [OF r0, of fp 0] assms p0 by auto
  have r2: "sb_rep (sb_set_array b1 a2) spec_init"
    using c(8) by (simp add: sb_rep_def spec_init_def spec_wf_def)
  obtain b3 where b3: "sb_put64 (sb_set_array b1 a2) 8 1 = Some b3" "hdr_only (sb_set_array b1 a2) b3"
      "get64 (sb_array b3) 8 = Some 1"
      "\<forall>q. q + 8 \<le> 8 \<or> 8 + 8 \<le> q \<longrightarrow> get64 (sb_array b3) q = get64 a2 q"
    using sb_put64_hdr [of 8 "sb_set_array b1 a2" 1] sb_rep_len [OF r2] by (auto simp: sb_set_array_def)
  have "new_scaling_bloom fp capacity e True = Some (Some b3)"
    using c(1-3) b3(1) by (auto simp: new_scaling_bloom_def sb_put64_def sb_set_array_def)
  moreover have "get64 (sb_array b3) 16 = Some 0"
  proof -
    have "get64 (sb_array ?b0) 16 = Some 0" using a0(1) z [of 16] by (simp add: get64_def)
    then show ?thesis using b3(4) [rule_format, of 16] c(7) [rule_format, of 16] by simp
  qed
  moreover have "sb_rep b3 spec_init"
    by (rule sb_rep_hdr_only_same [OF r2 b3(2)]) (use b3(4) in \<open>simp add: sb_set_array_def\<close>)
  moreover have "c = sb_desc fp capacity e 0 24"
    using c(1) by (simp add: new_counting_bloom_from_scale_def sb_desc_def Let_def scaling_bloom_init_def)
  then have "sb_params fp b3"
    using hdr_only_simps [OF b3(2)] c by (auto simp: sb_params_def sb_set_array_def)
  ultimately show ?thesis
    using hdr_only_simps [OF b3(2)] c b3(3) by (simp add: sb_set_array_def)
qed

text \<open>The outcomes of the coming calls of \<open>msync\<close> are the environment's.\<close>

definition sb_msync :: "bool list \<Rightarrow> scaling_bloom_t \<Rightarrow> scaling_bloom_t" where
  "sb_msync os b = b\<lparr>sb_bitmap := (sb_bitmap b)\<lparr>bm_msync := os\<rparr>\<rparr>"

lemma sb_msync_simps [simp]:
  "sb_array (sb_msync os b) = sb_array b" "sb_blooms (sb_msync os b) = sb_blooms b" "sb_capacity (sb_msync os b) = sb_capacity b"
  "sb_error_rate (sb_msync os b) = sb_error_rate b" "sb_num_bytes (sb_msync os b) = sb_num_bytes b"
  "bm_disk (sb_bitmap (sb_msync os b)) = bm_disk (sb_bitmap b)" "bm_msync (sb_bitmap (sb_msync os b)) = os"
  "sb_rep (sb_msync os b) sp = sb_rep b sp" "sb_params fp (sb_msync os b) = sb_params fp b"
  by (simp_all add: sb_msync_def sb_rep_def sb_rep0_def sb_layout_def sb_params_def)

text \<open>
  C6. The scaling filter forgets nothing that is in it. Take a run of adds, removes and flushes on a new
  scaling filter in which the caller removes only pairs of a key and an id that it added before (with whatever ids, in whatever order), no
  counter is at 15 when a key is added to it, and for each filter the run creates the sizing formulas give a positive number of
  counters below 2^32 in all. Then, however the calls of \<open>msync\<close> end, no operation faults, each remove finds the filter that took
  its add although the filter may have grown since, every key with a pair still present checks positive, and the
  sequence number in memory has advanced by one for each add and remove.
\<close>

theorem scaling_bloom_no_false_negative:
  assumes "fp_sane fp capacity (fc_tighten fp e 1)" "sc_run_ok fp capacity e spec_init {#} ps"
  shows "\<exists>b0 b. new_scaling_bloom fp capacity e True = Some (Some b0) \<and> sc_run fp (sb_msync os b0) ps = Some b \<and>
     (\<forall>s k. (s, k) \<in># foldl sc_live1 {#} ps \<longrightarrow> scaling_bloom_check b s = Some 1) \<and>
     scaling_bloom_mem_seqnum b = Some (1 + of_nat (sc_updates ps))"
proof -
  obtain b0 where b0: "new_scaling_bloom fp capacity e True = Some (Some b0)" "sb_rep (sb_msync os b0) spec_init"
     "sb_params fp (sb_msync os b0)" "sb_capacity (sb_msync os b0) = capacity" "sb_error_rate (sb_msync os b0) = e"
     "get64 (sb_array (sb_msync os b0)) 8 = Some 1"
    using new_scaling_bloom_rep [OF assms(1)] by auto
  from sc_run_rep [OF b0(2) spec_init_live b0(3-6) assms(2)] obtain b where
    b: "sc_run fp (sb_msync os b0) ps = Some b" "sb_rep b (foldl (sc_spec1 capacity) spec_init ps)"
      "spec_live (foldl (sc_spec1 capacity) spec_init ps) (foldl sc_live1 {#} ps)"
      "get64 (sb_array b) 8 = Some (1 + of_nat (sc_updates ps))" by blast
  let ?sp = "foldl (sc_spec1 capacity) spec_init ps"
  have "scaling_bloom_check b s = Some 1" if m: "(s, k) \<in># foldl sc_live1 {#} ps" for s k
  proof (rule scaling_bloom_check_rep [OF b(2)])
    let ?i = "spec_owner (map fst (ss_filters ?sp)) k"
    show "ss_filters ?sp ! ?i \<in> set (ss_filters ?sp)"
      using spec_owner_less b(3) by (simp add: spec_live_def)
    show "s \<in># snd (ss_filters ?sp ! ?i)" by (rule spec_live_remove(1) [OF b(3) m])
  qed
  then show ?thesis using b0(1) b by (auto simp: scaling_bloom_mem_seqnum_def)
qed

text \<open>
  The sizing for error rates that are powers of one half, where the formulas are exact: \<open>n\<close> stands for the rate \<open>2^-n\<close>, the number of
  functions is \<open>n\<close> and the counters per function are the capacity divided by the logarithm of 2.
\<close>

definition fp_halves :: fp_counting where
  "fp_halves = \<lparr>fc_nfuncs = unat, fc_counts = (\<lambda>capacity _ _. of_nat ((unat capacity * 144269504089 + 99999999999) div 100000000000)),
     fc_tighten = (\<lambda>n i. n + ucast i)\<rparr>"

lemma fp_halves_sane: "fp_sane fp_halves 2 5" "fp_sane fp_halves 2 6"
  by (simp_all add: fp_sane_def fp_halves_def)

theorem scaling_bloom_no_false_negative_witness:
  "\<exists>b0 b. new_scaling_bloom fp_halves 2 4 True = Some (Some b0) \<and>
     sc_run fp_halves (sb_msync [False] b0) [ScAdd [1] 5, ScAdd [2] 7, ScFlush, ScRemove [1] 5] = Some b \<and>
     scaling_bloom_check b [2] = Some 1"
proof -
  let ?ps = "[ScAdd [1] 5, ScAdd [2] 7, ScFlush, ScRemove [1] 5]"
  have sane: "fp_sane fp_halves 2 (fc_tighten fp_halves 4 1)" "fp_sane fp_halves 2 (fc_tighten fp_halves 4 2)"
    using fp_halves_sane by (simp_all add: fp_halves_def)
  have ok: "sc_run_ok fp_halves 2 4 spec_init {#} ?ps"
    using sane(2) by (simp add: spec_room_def cb_load_def spec_init_def spec_grow_def spec_full_def spec_owner_def
        spec_add_def spec_at_def Let_def)
  have "([2], 7) \<in># foldl sc_live1 {#} ?ps" by simp
  with scaling_bloom_no_false_negative [OF sane(1) ok] show ?thesis by blast
qed

section \<open>Crash consistency\<close>

abbreviation sb_disk :: "scaling_bloom_t \<Rightarrow> bytes" where
  "sb_disk b \<equiv> bm_disk (sb_bitmap b)"

text \<open>The kernel may write any bytes of the shared mapping to the file at any time.\<close>

definition sb_writeback :: "(nat \<Rightarrow> bool) \<Rightarrow> scaling_bloom_t \<Rightarrow> scaling_bloom_t" where
  "sb_writeback P b = b\<lparr>sb_bitmap := (sb_bitmap b)\<lparr>bm_disk :=
     map (\<lambda>i. if P i \<and> i < length (sb_array b) then sb_array b ! i else sb_disk b ! i) [0..<length (sb_disk b)]\<rparr>\<rparr>"

definition crash_consistent :: "scaling_bloom_t \<Rightarrow> bool" where
  "crash_consistent b \<longleftrightarrow> False \<notin> set (bm_msync (sb_bitmap b)) \<and> length (sb_disk b) = sb_num_bytes b \<and>
     get64 (sb_disk b) 16 = get64 (sb_array b) 16 \<and>
     (get64 (sb_array b) 16 \<noteq> Some 0 \<longrightarrow>
        sb_disk b = sb_array b \<and> get64 (sb_array b) 16 = get64 (sb_array b) 8)"

abbreviation sb_syncs :: "scaling_bloom_t \<Rightarrow> bool" where
  "sb_syncs b \<equiv> False \<notin> set (bm_msync (sb_bitmap b))"

lemma sb_put64_disk: "sb_put64 b p v = Some b' \<Longrightarrow> sb_disk b' = sb_disk b \<and> sb_num_bytes b' = sb_num_bytes b \<and> bm_msync (sb_bitmap b') = bm_msync (sb_bitmap b)"
  by (auto simp: sb_put64_def sb_set_array_def)

lemma new_counting_bloom_disk:
  "new_counting_bloom_from_scale fp b = (b', c) \<Longrightarrow> length (sb_disk b) = sb_num_bytes b \<Longrightarrow>
     length (sb_disk b') = sb_num_bytes b' \<and> (\<exists>z. sb_disk b' = sb_disk b @ z) \<and> bm_msync (sb_bitmap b') = bm_msync (sb_bitmap b)"
  by (auto simp: new_counting_bloom_from_scale_def Let_def bitmap_resize_def)

lemma add_disk:
  assumes "scaling_bloom_add fp b s k = Some (b', r)" "scaling_bloom_clear_seqnums b = Some (b1, sn)"
    and "length (sb_disk b1) = sb_num_bytes b1"
  shows "length (sb_disk b') = sb_num_bytes b' \<and> (\<exists>z. sb_disk b' = sb_disk b1 @ z) \<and> bm_msync (sb_bitmap b') = bm_msync (sb_bitmap b1)"
  using assms
  by (auto simp: scaling_bloom_add_def bind_eq_Some_conv Let_def sb_set_array_def
      split: prod.splits if_splits option.splits dest!: sb_put64_disk new_counting_bloom_disk)

lemma remove_disk:
  assumes "scaling_bloom_remove b s k = Some (b', 1)" "scaling_bloom_clear_seqnums b = Some (b1, sn)"
  shows "sb_disk b' = sb_disk b1 \<and> sb_num_bytes b' = sb_num_bytes b1 \<and> bm_msync (sb_bitmap b') = bm_msync (sb_bitmap b1)"
  using assms
  by (auto simp: scaling_bloom_remove_def bind_eq_Some_conv Let_def sb_set_array_def
      split: prod.splits if_splits option.splits dest!: sb_put64_disk)

text \<open>Clearing the sequence numbers reaches the disk before anything else changes.\<close>

lemma set_tl: "x \<notin> set xs \<Longrightarrow> x \<notin> set (tl xs)"
  by (cases xs) auto

lemma sb_flush_bitmap_disk:
  "length (sb_disk b) = length (sb_array b) \<Longrightarrow> sb_syncs b \<Longrightarrow> sb_disk (sb_flush_bitmap b) = sb_array b"
  "sb_array (sb_flush_bitmap b) = sb_array b" "sb_num_bytes (sb_flush_bitmap b) = sb_num_bytes b"
  "sb_syncs b \<Longrightarrow> sb_syncs (sb_flush_bitmap b)" "sb_syncs b \<Longrightarrow> snd (bitmap_flush (sb_bitmap b)) = 0"
  by (auto simp: sb_flush_bitmap_def bitmap_flush_def Let_def set_tl split: list.splits)

lemma clear_seqnums_disk:
  assumes "crash_consistent b" "scaling_bloom_clear_seqnums b = Some (b1, sn)"
    and len: "sb_num_bytes b = length (sb_array b)" "24 \<le> length (sb_array b)"
  shows "get64 (sb_disk b1) 16 = Some 0" "length (sb_disk b1) = sb_num_bytes b1" "sb_num_bytes b1 = sb_num_bytes b" "sb_syncs b1"
proof -
  obtain ds where ds: "get64 (sb_array b) 16 = Some ds" using len(2) by (auto simp: get64_def)
  have sy: "sb_syncs b" using assms(1) by (simp add: crash_consistent_def)
  have "get64 (sb_disk b1) 16 = Some 0 \<and> length (sb_disk b1) = sb_num_bytes b1 \<and> sb_num_bytes b1 = sb_num_bytes b \<and> sb_syncs b1"
  proof (cases "ds = 0")
    case True
    then have "sb_disk b1 = sb_disk b \<and> sb_num_bytes b1 = sb_num_bytes b \<and> sb_syncs b1"
      using assms(2) ds sy by (auto simp: scaling_bloom_clear_seqnums_def bind_eq_Some_conv dest!: sb_put64_disk)
    then show ?thesis
      using assms(1) True ds by (simp add: crash_consistent_def)
  next
    case False
    obtain c where c: "sb_put64 b 16 0 = Some c" "hdr_only b c" "get64 (sb_array c) 16 = Some 0"
      using sb_put64_hdr [of 16 b 0] len(2) by auto
    have l: "length (sb_disk c) = length (sb_array c)" "sb_num_bytes c = length (sb_array c)" "sb_syncs c"
      using sb_put64_disk [OF c(1)] hdr_only_simps(3) [OF c(2)] assms(1) len by (auto simp: crash_consistent_def)
    have "sb_disk b1 = sb_disk (sb_flush_bitmap c) \<and> sb_num_bytes b1 = sb_num_bytes b \<and>
        bm_msync (sb_bitmap b1) = bm_msync (sb_bitmap (sb_flush_bitmap c))"
      using assms(2) ds False c(1) sb_put64_disk [OF c(1)]
      by (auto simp: scaling_bloom_clear_seqnums_def bind_eq_Some_conv sb_flush_bitmap_disk(2,3) dest!: sb_put64_disk)
    then show ?thesis
      using l c(3) sb_put64_disk [OF c(1)] sb_flush_bitmap_disk(1) [OF l(1,3)] sb_flush_bitmap_disk(4) [OF l(3)] by simp
  qed
  then show "get64 (sb_disk b1) 16 = Some 0" "length (sb_disk b1) = sb_num_bytes b1" "sb_num_bytes b1 = sb_num_bytes b" "sb_syncs b1"
    by simp_all
qed

lemma writeback_consistent:
  assumes "crash_consistent b" "sb_num_bytes b = length (sb_array b)" "24 \<le> length (sb_array b)"
  shows "crash_consistent (sb_writeback P b)"
proof -
  let ?d = "sb_disk (sb_writeback P b)"
  have len: "length ?d = length (sb_disk b)" "length (sb_disk b) = length (sb_array b)"
    "sb_array (sb_writeback P b) = sb_array b"
    using assms by (simp_all add: sb_writeback_def crash_consistent_def)
  have nth: "?d ! i = (if P i then sb_array b ! i else sb_disk b ! i)" if "i < length (sb_array b)" for i
    using that len by (simp add: sb_writeback_def)
  have "take 8 (drop 16 (sb_disk b)) = take 8 (drop 16 (sb_array b))"
    using assms len by (intro le64_inj) (auto simp: crash_consistent_def get64_def)
  then have low: "take 8 (drop 16 (sb_disk b)) ! i = take 8 (drop 16 (sb_array b)) ! i" for i by simp
  have "sb_disk b ! q = sb_array b ! q" if "16 \<le> q" "q < 24" for q
    using low [of "q - 16"] that len assms(3) by simp
  then have eq: "same_on ?d (sb_array b) 16 24"
    using nth assms(3) by (simp add: same_on_def)
  have "get64 ?d 16 = get64 (sb_array b) 16"
    by (rule get_same_on(2)) (use eq len assms(3) in simp_all)
  moreover have "?d = sb_array b" if "sb_disk b = sb_array b"
    using that nth len by (intro nth_equalityI) auto
  ultimately show ?thesis
    using assms(1) len by (auto simp: crash_consistent_def sb_writeback_def)
qed

lemma sb_rep_num: "sb_rep b sp \<Longrightarrow> sb_num_bytes b = length (sb_array b)"
  by (simp add: sb_rep_def sb_rep0_def sb_layout_def)

lemma get64_append: "get64 a p = Some v \<Longrightarrow> get64 (a @ z) p = Some v"
  by (auto simp: get64_def split: if_splits)

lemma flush_consistent:
  assumes rep: "sb_rep b sp" and cc: "crash_consistent b" and fl: "scaling_bloom_flush b = Some (b', r)"
  shows "crash_consistent b' \<and> r = 0"
proof -
  have len: "24 \<le> length (sb_array b)" "length (sb_disk b) = length (sb_array b)" "sb_num_bytes b = length (sb_array b)" "sb_syncs b"
    using sb_rep_len [OF rep] sb_rep_num [OF rep] cc by (simp_all add: crash_consistent_def)
  let ?f = "sb_flush_bitmap b"
  note f = sb_flush_bitmap_disk(1) [OF len(2,4)] sb_flush_bitmap_disk(2,3) [of b] sb_flush_bitmap_disk(4,5) [OF len(4)]
  obtain ds sn where g: "get64 (sb_array b) 16 = Some ds" "get64 (sb_array b) 8 = Some sn"
    using len(1) by (auto simp: get64_def)
  show ?thesis
  proof (cases "ds = 0")
    case False
    then have "b' = ?f \<and> r = 0" using fl g f by (simp add: scaling_bloom_flush_def)
    then show ?thesis using cc f len by (simp add: crash_consistent_def)
  next
    case True
    obtain c where c: "sb_put64 ?f 16 sn = Some c" "hdr_only ?f c"
        "get64 (sb_array c) 16 = Some sn" "get64 (sb_array c) 8 = Some sn"
      using sb_put64_hdr [of 16 ?f sn] len(1) f g by auto
    have l: "length (sb_disk c) = length (sb_array c)" "sb_num_bytes c = length (sb_array c)" "sb_syncs c"
      using sb_put64_disk [OF c(1)] hdr_only_simps(3) [OF c(2)] f len by auto
    have b': "b' = sb_flush_bitmap c" "r = 0"
      using fl g f True c(1) sb_flush_bitmap_disk(5) [OF l(3)] by (simp_all add: scaling_bloom_flush_def)
    then show ?thesis using c(3,4) l sb_flush_bitmap_disk(1) [OF l(1,3)] sb_flush_bitmap_disk(4) [OF l(3)]
      by (simp add: crash_consistent_def sb_flush_bitmap_disk(2,3))
  qed
qed

text \<open>One step of a permitted run keeps everything.\<close>

lemma sc_step_consistent:
  assumes rep: "sb_rep b sp" and live: "spec_live sp L" and cc: "crash_consistent b"
    and par: "sb_params fp b"
    and ok: "sc_run_ok fp (sb_capacity b) (sb_error_rate b) sp L [p]"
    and st: "sc_step fp b p = Some b'"
  shows "crash_consistent b'"
proof -
  note len = sb_rep_num [OF rep] sb_rep_len [OF rep]
  obtain b1 sn where b1: "scaling_bloom_clear_seqnums b = Some (b1, sn)"
    using clear_seqnums_rep [OF rep] by blast
  note cl = clear_seqnums_disk [OF cc b1 len]
  show ?thesis
  proof (cases p)
    case (ScAdd s k)
    obtain r where r: "scaling_bloom_add fp b s k = Some (b', r)" using st ScAdd by auto
    have "get64 (sb_array b') 16 = Some 0"
      using scaling_bloom_add_rep [OF rep par, of s k] ok ScAdd r by auto
    moreover obtain z where "length (sb_disk b') = sb_num_bytes b'" "sb_disk b' = sb_disk b1 @ z"
        "bm_msync (sb_bitmap b') = bm_msync (sb_bitmap b1)"
      using add_disk [OF r b1 cl(2)] by blast
    ultimately show ?thesis using get64_append [OF cl(1)] cl(4) by (simp add: crash_consistent_def)
  next
    case (ScRemove s k)
    have m: "(s, k) \<in># L" using ok ScRemove by simp
    obtain r where r: "scaling_bloom_remove b s k = Some (b', r)" using st ScRemove by auto
    have g: "get64 (sb_array b') 16 = Some 0" "r = 1"
      using scaling_bloom_remove_rep [OF rep spec_live_remove(1) [OF live m]] r by auto
    then show ?thesis using remove_disk [OF r [unfolded g(2)] b1] cl by (simp add: crash_consistent_def)
  next
    case ScFlush
    then show ?thesis using st flush_consistent [OF rep cc] by auto
  qed
qed

text \<open>Between the operations the kernel may write back, and the environment decides how the coming calls of \<open>msync\<close> end.\<close>

datatype dur_op = DurOp sc_op | DurWriteback "nat \<Rightarrow> bool" | DurMsync "bool list"

fun dur_run :: "fp_counting \<Rightarrow> scaling_bloom_t \<Rightarrow> dur_op list \<Rightarrow> scaling_bloom_t option" where
  "dur_run fp b [] = Some b"
| "dur_run fp b (DurOp p # ds) = Option.bind (sc_step fp b p) (\<lambda>b. dur_run fp b ds)"
| "dur_run fp b (DurWriteback P # ds) = dur_run fp (sb_writeback P b) ds"
| "dur_run fp b (DurMsync os # ds) = dur_run fp (sb_msync os b) ds"

fun dur_ops :: "dur_op list \<Rightarrow> sc_op list" where
  "dur_ops [] = []"
| "dur_ops (DurOp p # ds) = p # dur_ops ds"
| "dur_ops (_ # ds) = dur_ops ds"

text \<open>No call of \<open>msync\<close> fails.\<close>

fun dur_syncs :: "dur_op list \<Rightarrow> bool" where
  "dur_syncs [] = True"
| "dur_syncs (DurMsync os # ds) = (False \<notin> set os \<and> dur_syncs ds)"
| "dur_syncs (_ # ds) = dur_syncs ds"

lemma sb_rep_writeback: "sb_rep (sb_writeback P b) sp = sb_rep b sp"
  by (simp add: sb_rep_def sb_rep0_def sb_layout_def sb_writeback_def)

lemma dur_run_consistent:
  assumes "sb_rep b sp" "spec_live sp L" "sb_params fp b" "sb_capacity b = capacity" "sb_error_rate b = e" "crash_consistent b"
    and "sc_run_ok fp capacity e sp L (dur_ops ds)" "dur_syncs ds"
  shows "\<exists>b'. dur_run fp b ds = Some b' \<and> crash_consistent b'"
  using assms
proof (induction ds arbitrary: b sp L)
  case (Cons d ds)
  note len = sb_rep_num [OF Cons.prems(1)] sb_rep_len [OF Cons.prems(1)]
  show ?case
  proof (cases d)
    case (DurOp p)
    obtain n where n: "get64 (sb_array b) 8 = Some n" using len(2) by (auto simp: get64_def)
    have ok: "sc_run_ok fp capacity e sp L [p]"
      "sc_run_ok fp capacity e (sc_spec1 capacity sp p) (sc_live1 L p) (dur_ops ds)" "dur_syncs ds"
      using Cons.prems(7,8) DurOp by simp_all
    from sc_run_rep [OF Cons.prems(1-5) n ok(1)] obtain b' where
      b': "sc_step fp b p = Some b'" "sb_rep b' (sc_spec1 capacity sp p)"
        "spec_live (sc_spec1 capacity sp p) (sc_live1 L p)" "sb_params fp b'"
        "sb_capacity b' = capacity" "sb_error_rate b' = e"
      by (auto simp: bind_eq_Some_conv)
    have "crash_consistent b'"
      using sc_step_consistent [OF Cons.prems(1,2,6,3) _ b'(1)] Cons.prems(4,5) ok(1) by simp
    from Cons.IH [OF b'(2-6) this ok(2,3)] show ?thesis using DurOp b'(1) by simp
  next
    case (DurWriteback P)
    have s: "sb_params fp (sb_writeback P b) = sb_params fp b" "sb_capacity (sb_writeback P b) = sb_capacity b"
      "sb_error_rate (sb_writeback P b) = sb_error_rate b"
      by (simp_all add: sb_writeback_def sb_params_def)
    from Cons.IH [of "sb_writeback P b" sp L] Cons.prems writeback_consistent [OF Cons.prems(6) len, of P]
    show ?thesis using DurWriteback by (simp add: sb_rep_writeback s)
  next
    case (DurMsync os)
    have "crash_consistent (sb_msync os b)"
      using Cons.prems(6,8) DurMsync by (simp add: crash_consistent_def)
    with Cons.IH [of "sb_msync os b" sp L] Cons.prems show ?thesis using DurMsync by simp
  qed
qed simp

lemma new_scaling_bloom_consistent:
  assumes "fp_sane fp capacity (fc_tighten fp e 1)" "new_scaling_bloom fp capacity e True = Some (Some b)"
  shows "crash_consistent b"
proof -
  let ?b0 = "scaling_bloom_init capacity e []"
  have z: "le64 (take 8 (drop n (replicate 24 0))) = 0" for n
    by (rule bit_word_eqI) (auto simp: bit_le64)
  have d0: "sb_disk ?b0 = replicate 24 0" "sb_num_bytes ?b0 = 24" "bm_msync (sb_bitmap ?b0) = []"
    by (simp_all add: scaling_bloom_init_def new_bitmap_def bitmap_resize_def Let_def)
  obtain b1 c where c: "new_counting_bloom_from_scale fp ?b0 = (b1, c)"
      "sb_disk b = sb_disk b1" "sb_num_bytes b = sb_num_bytes b1" "bm_msync (sb_bitmap b) = bm_msync (sb_bitmap b1)"
    using assms(2) by (cases "new_counting_bloom_from_scale fp ?b0")
      (auto simp: new_scaling_bloom_def bind_eq_Some_conv sb_set_array_def)
  obtain y where y: "length (sb_disk b1) = sb_num_bytes b1" "sb_disk b1 = sb_disk ?b0 @ y" "bm_msync (sb_bitmap b1) = []"
    using new_counting_bloom_disk [OF c(1)] d0 by auto
  have "get64 (replicate 24 0) 16 = Some 0" using z [of 16] by (simp add: get64_def)
  then have "get64 (sb_disk b) 16 = Some 0" using c(2) y(2) d0(1) get64_append by auto
  moreover have "get64 (sb_array b) 16 = Some 0"
    using new_scaling_bloom_rep [OF assms(1)] assms(2) by auto
  ultimately show ?thesis using c y by (simp add: crash_consistent_def)
qed

text \<open>
  C7. What the sequence number on disk promises. Let the kernel write
  any bytes of the mapping to the file between the operations of a permitted run, as above, in which no call of \<open>msync\<close> fails.
  Whenever the image on disk carries a nonzero \<open>disk_seqnum\<close>, it is the complete state: byte for byte the
  bitmap in memory, and the number is the sequence number in memory.
\<close>

theorem scaling_bloom_crash_consistent:
  assumes "fp_sane fp capacity (fc_tighten fp e 1)" "sc_run_ok fp capacity e spec_init {#} (dur_ops ds)" "dur_syncs ds"
  shows "\<exists>b0 b. new_scaling_bloom fp capacity e True = Some (Some b0) \<and> dur_run fp b0 ds = Some b \<and>
     (get64 (sb_disk b) 16 \<noteq> Some 0 \<longrightarrow>
        sb_disk b = sb_array b \<and> get64 (sb_disk b) 16 = scaling_bloom_mem_seqnum b)"
proof -
  obtain b0 where b0: "new_scaling_bloom fp capacity e True = Some (Some b0)" "sb_rep b0 spec_init"
     "sb_params fp b0" "sb_capacity b0 = capacity" "sb_error_rate b0 = e"
    using new_scaling_bloom_rep [OF assms(1)] by blast
  from dur_run_consistent [OF b0(2) spec_init_live b0(3-5)
      new_scaling_bloom_consistent [OF assms(1) b0(1)] assms(2,3)]
  show ?thesis using b0(1) by (auto simp: crash_consistent_def scaling_bloom_mem_seqnum_def)
qed

theorem scaling_bloom_crash_consistent_witness:
  "\<exists>b0 b. new_scaling_bloom fp_halves 2 4 True = Some (Some b0) \<and>
     dur_run fp_halves b0
       [DurOp (ScAdd [1] 5), DurWriteback even, DurMsync [True, True], DurOp ScFlush, DurOp (ScAdd [2] 7)] = Some b \<and>
     (get64 (sb_disk b) 16 \<noteq> Some 0 \<longrightarrow> sb_disk b = sb_array b)"
proof -
  let ?ds = "[DurOp (ScAdd [1] 5), DurWriteback even, DurMsync [True, True], DurOp ScFlush, DurOp (ScAdd [2] 7)]"
  have sane: "fp_sane fp_halves 2 (fc_tighten fp_halves 4 1)" "fp_sane fp_halves 2 (fc_tighten fp_halves 4 2)"
    using fp_halves_sane by (simp_all add: fp_halves_def)
  have ok: "sc_run_ok fp_halves 2 4 spec_init {#} (dur_ops ?ds)"
    using sane(2) by (simp add: spec_room_def cb_load_def spec_init_def spec_grow_def spec_full_def spec_owner_def
        spec_add_def spec_at_def Let_def)
  show ?thesis
    using scaling_bloom_crash_consistent [OF sane(1) ok] by simp blast
qed

text \<open>
  \<open>scaling_bloom_clear_seqnums\<close> does not look at the result of its flush. When it fails, the file keeps the number of the old state
  while parts of the new one are written back: here the count of the new state without its counters.
\<close>

theorem scaling_bloom_lost_sync:
  "Option.bind (new_scaling_bloom fp_counting_example 2 0 True) (\<lambda>b0. Option.bind b0 (\<lambda>b0. map_option
      (\<lambda>b. (get64 (sb_disk b) 16, sb_disk b ! 32, sb_array b ! 32, sb_disk b ! 40, sb_array b ! 40))
      (dur_run fp_counting_example b0
        [DurOp (ScAdd [1] 5), DurOp ScFlush, DurMsync [False], DurOp (ScAdd [2] 5), DurWriteback (\<lambda>i. i = 32)]))) =
     Some (Some 2, 2, 2, 0, 16)"
  by code_simp

end
