(* ===== verification/QueueSpec.thy ===== *)
theory QueueSpec imports Prelude begin

text \<open>
  The contract of a first-in first-out queue, as the linked list (\<open>kernel/list.c\<close>) and the
  message queue (\<open>kernel/message/queue.c\<close>) provide it: what was put in comes out in the same
  order, each exactly once.
\<close>

datatype 'a queue_op = Enq 'a | Deq

locale fifo_queue =
  fixes rep :: "'s \<Rightarrow> 'a list \<Rightarrow> bool"
    and room :: "'a list \<Rightarrow> 'a \<Rightarrow> bool"
    and enq :: "'a \<Rightarrow> 's \<Rightarrow> 's"
    and deq :: "'s \<Rightarrow> ('a \<times> 's) option"
  assumes rep_enq: "rep s xs \<Longrightarrow> room xs x \<Longrightarrow> rep (enq x s) (xs @ [x])"
    and deq_empty: "rep s [] \<Longrightarrow> deq s = None"
    and deq_front: "rep s (x # xs) \<Longrightarrow> \<exists>s'. deq s = Some (x, s') \<and> rep s' xs"

text \<open>A run of operations: the final state, and the values that came out, in order.\<close>

fun queue_run :: "('a \<Rightarrow> 's \<Rightarrow> 's) \<Rightarrow> ('s \<Rightarrow> ('a \<times> 's) option) \<Rightarrow> 's \<Rightarrow> 'a queue_op list \<Rightarrow> 's \<times> 'a list" where
  "queue_run enq deq s [] = (s, [])"
| "queue_run enq deq s (Enq x # ops) = queue_run enq deq (enq x s) ops"
| "queue_run enq deq s (Deq # ops) =
     (case deq s of
        None \<Rightarrow> queue_run enq deq s ops
      | Some (x, s') \<Rightarrow> map_prod id (Cons x) (queue_run enq deq s' ops))"

fun queue_inputs :: "'a queue_op list \<Rightarrow> 'a list" where
  "queue_inputs [] = []"
| "queue_inputs (Enq x # ops) = x # queue_inputs ops"
| "queue_inputs (Deq # ops) = queue_inputs ops"

text \<open>Every \<open>Enq\<close> finds room in what a queue would hold at that moment.\<close>

fun queue_ok :: "('a list \<Rightarrow> 'a \<Rightarrow> bool) \<Rightarrow> 'a list \<Rightarrow> 'a queue_op list \<Rightarrow> bool" where
  "queue_ok room xs [] = True"
| "queue_ok room xs (Enq x # ops) = (room xs x \<and> queue_ok room (xs @ [x]) ops)"
| "queue_ok room xs (Deq # ops) = queue_ok room (tl xs) ops"

context fifo_queue
begin

lemma run_fifo:
  assumes "rep s xs" "queue_ok room xs ops"
  shows "\<exists>ys. rep (fst (queue_run enq deq s ops)) ys \<and>
     xs @ queue_inputs ops = snd (queue_run enq deq s ops) @ ys"
  using assms
proof (induction ops arbitrary: s xs)
  case (Cons p ops)
  show ?case
  proof (cases p)
    case (Enq x)
    then show ?thesis using Cons.IH [OF rep_enq [OF Cons.prems(1)], of x] Cons.prems(2) by simp
  next
    case Deq
    show ?thesis
    proof (cases xs)
      case Nil
      then show ?thesis using Cons.IH [OF Cons.prems(1)] Cons.prems Deq deq_empty [of s] by simp
    next
      case xs: (Cons x zs)
      obtain s' where s': "deq s = Some (x, s')" "rep s' zs"
        using deq_front Cons.prems(1) xs by blast
      then show ?thesis using Cons.IH [OF s'(2)] Cons.prems(2) Deq xs by simp
    qed
  qed
qed auto

end

end
