(* ===== verification/DaoList.thy ===== *)
theory DaoList imports QueueSpec begin

text \<open>
  The intrusive doubly linked list of \<open>kernel/list.c\<close>: the links of every node and the two ends
  of the list. A node is an address; the relative pointers the code stores the links in are read
  and written as pointers (their round trip is in theory RelPointer). \<open>None\<close> as a link is NULL;
  \<open>None\<close> as the result of a loop is that it never returns or dereferences NULL.
\<close>

section \<open>State and operations\<close>

type_synonym node = nat

record dlist =
  nxt :: "node \<Rightarrow> node option"
  prv :: "node \<Rightarrow> node option"
  lfirst :: "node option"
  llast :: "node option"

definition set_next :: "node \<Rightarrow> node option \<Rightarrow> dlist \<Rightarrow> dlist" where
  "set_next x v s = s\<lparr>nxt := (nxt s)(x := v)\<rparr>"

definition set_prev :: "node \<Rightarrow> node option \<Rightarrow> dlist \<Rightarrow> dlist" where
  "set_prev x v s = s\<lparr>prv := (prv s)(x := v)\<rparr>"

definition when_node :: "node option \<Rightarrow> (node \<Rightarrow> dlist \<Rightarrow> dlist) \<Rightarrow> dlist \<Rightarrow> dlist" where
  "when_node p f s = (case p of None \<Rightarrow> s | Some x \<Rightarrow> f x s)"

definition dao_list_node_init :: "node \<Rightarrow> dlist \<Rightarrow> dlist" where
  "dao_list_node_init x s = set_prev x None (set_next x None s)"

definition dao_list_init :: "dlist \<Rightarrow> dlist" where
  "dao_list_init s = s\<lparr>lfirst := None, llast := None\<rparr>"

definition dao_list_front :: "dlist \<Rightarrow> node option" where
  "dao_list_front s = lfirst s"

definition dao_list_back :: "dlist \<Rightarrow> node option" where
  "dao_list_back s = llast s"

definition dao_list_next :: "dlist \<Rightarrow> node \<Rightarrow> node option" where
  "dao_list_next s x = nxt s x"

definition dao_list_prev :: "dlist \<Rightarrow> node \<Rightarrow> node option" where
  "dao_list_prev s x = prv s x"

partial_function (option) lookup_loop ::
  "(node \<Rightarrow> node \<Rightarrow> int) \<Rightarrow> node \<Rightarrow> dlist \<Rightarrow> node option \<Rightarrow> node option option" where
  "lookup_loop cmp key s p =
     (if p = None then Some None
      else if cmp (the p) key \<noteq> 0 then lookup_loop cmp key s (nxt s (the p)) else Some p)"

definition dao_list_lookup :: "(node \<Rightarrow> node \<Rightarrow> int) \<Rightarrow> node \<Rightarrow> dlist \<Rightarrow> node option option" where
  "dao_list_lookup cmp key s = lookup_loop cmp key s (lfirst s)"

text \<open>\<open>dao_list_first\<close> and \<open>dao_list_last\<close> take a node that may be NULL.\<close>

partial_function (option) first_loop :: "dlist \<Rightarrow> node \<Rightarrow> node option" where
  "first_loop s x = (if prv s x = None then Some x else first_loop s (the (prv s x)))"

definition dao_list_first :: "dlist \<Rightarrow> node option \<Rightarrow> node option option" where
  "dao_list_first s p = (case p of None \<Rightarrow> Some None | Some x \<Rightarrow> map_option Some (first_loop s x))"

partial_function (option) last_loop :: "dlist \<Rightarrow> node \<Rightarrow> node option" where
  "last_loop s x = (if nxt s x = None then Some x else last_loop s (the (nxt s x)))"

definition dao_list_last :: "dlist \<Rightarrow> node option \<Rightarrow> node option option" where
  "dao_list_last s p = (case p of None \<Rightarrow> Some None | Some x \<Rightarrow> map_option Some (last_loop s x))"

definition dao_list_insert_befor :: "node \<Rightarrow> node \<Rightarrow> dlist \<Rightarrow> dlist" where
  "dao_list_insert_befor whr x s =
     (let s = dao_list_node_init x s;
          p = dao_list_prev s whr;
          s = when_node p (\<lambda>p s. set_prev x (Some p) (set_next p (Some x) s)) s;
          s = set_prev whr (Some x) s;
          s = set_next x (Some whr) s
      in if Some whr = lfirst s then s\<lparr>lfirst := Some x\<rparr> else s)"

definition dao_list_insert_after :: "node \<Rightarrow> node \<Rightarrow> dlist \<Rightarrow> dlist" where
  "dao_list_insert_after whr x s =
     (let s = dao_list_node_init x s;
          n = dao_list_next s whr;
          s = when_node n (\<lambda>n s. set_next x (Some n) (set_prev n (Some x) s)) s;
          s = set_next whr (Some x) s;
          s = set_prev x (Some whr) s
      in if Some whr = llast s then s\<lparr>llast := Some x\<rparr> else s)"

definition dao_list_push_front :: "node \<Rightarrow> dlist \<Rightarrow> dlist" where
  "dao_list_push_front x s =
     (case lfirst s of
        Some f \<Rightarrow> dao_list_insert_befor f x s
      | None \<Rightarrow> (dao_list_node_init x s)\<lparr>lfirst := Some x, llast := Some x\<rparr>)"

definition dao_list_push_back :: "node \<Rightarrow> dlist \<Rightarrow> dlist" where
  "dao_list_push_back x s =
     (case llast s of
        Some l \<Rightarrow> dao_list_insert_after l x s
      | None \<Rightarrow> dao_list_push_front x s)"

definition dao_list_remove :: "node \<Rightarrow> dlist \<Rightarrow> dlist" where
  "dao_list_remove x s =
     (let p = dao_list_prev s x;
          n = dao_list_next s x;
          s = when_node p (\<lambda>p. set_next p n) s;
          s = when_node n (\<lambda>n. set_prev n p) s;
          s = (if lfirst s = Some x then s\<lparr>lfirst := n\<rparr> else s);
          s = (if llast s = Some x then s\<lparr>llast := p\<rparr> else s)
      in dao_list_node_init x s)"

definition dao_list_replace :: "node \<Rightarrow> node \<Rightarrow> dlist \<Rightarrow> dlist" where
  "dao_list_replace old x s =
     (let s = dao_list_node_init x s;
          p = dao_list_prev s old;
          n = dao_list_next s old;
          s = when_node p (\<lambda>p s. set_prev x (Some p) (set_next p (Some x) s)) s;
          s = when_node n (\<lambda>n s. set_next x (Some n) (set_prev n (Some x) s)) s;
          s = (if lfirst s = Some old then s\<lparr>lfirst := Some x\<rparr> else s);
          s = (if llast s = Some old then s\<lparr>llast := Some x\<rparr> else s)
      in dao_list_node_init old s)"

definition dao_list_swap :: "node \<Rightarrow> node \<Rightarrow> dlist \<Rightarrow> dlist" where
  "dao_list_swap x y s =
     (let p1 = dao_list_prev s x; n1 = dao_list_next s x;
          p2 = dao_list_prev s y; n2 = dao_list_next s y;
          s = (if n1 = Some y then
                 (let s = when_node p1 (\<lambda>p. set_next p (Some y)) s;
                      s = set_prev y p1 s;
                      s = set_next y (Some x) s;
                      s = set_prev x (Some y) s;
                      s = set_next x n2 s
                  in when_node n2 (\<lambda>n. set_prev n (Some x)) s)
               else if p1 = Some y then
                 (let s = when_node p2 (\<lambda>p. set_next p (Some x)) s;
                      s = set_prev x p2 s;
                      s = set_next x (Some y) s;
                      s = set_prev y (Some x) s;
                      s = set_next y n1 s
                  in when_node n1 (\<lambda>n. set_prev n (Some y)) s)
               else
                 (let s = when_node p1 (\<lambda>p. set_next p (Some y)) s;
                      s = set_prev y p1 s;
                      s = set_next y n1 s;
                      s = when_node n1 (\<lambda>n. set_prev n (Some y)) s;
                      s = when_node p2 (\<lambda>p. set_next p (Some x)) s;
                      s = set_prev x p2 s;
                      s = set_next x n2 s
                  in when_node n2 (\<lambda>n. set_prev n (Some x)) s));
          s = (if lfirst s = Some x then s\<lparr>lfirst := Some y\<rparr>
               else if lfirst s = Some y then s\<lparr>lfirst := Some x\<rparr> else s)
      in if llast s = Some x then s\<lparr>llast := Some y\<rparr>
         else if llast s = Some y then s\<lparr>llast := Some x\<rparr> else s)"

section \<open>Representation\<close>

definition nx :: "'a list \<Rightarrow> 'a option \<Rightarrow> 'a option" where
  "nx xs q = (case xs of [] \<Rightarrow> q | y # _ \<Rightarrow> Some y)"

definition pv :: "'a option \<Rightarrow> 'a list \<Rightarrow> 'a option" where
  "pv p xs = (if xs = [] then p else Some (last xs))"

lemma nx_simps [simp]: "nx [] q = q" "nx (x # xs) q = Some x"
  by (simp_all add: nx_def)

lemma pv_simps [simp]: "pv p [] = p" "pv p (xs @ [x]) = Some x"
  by (simp_all add: pv_def)

lemma pv_Cons: "pv p (x # xs) = pv (Some x) xs"
  by (simp add: pv_def)

lemma nx_append: "nx (xs @ ys) q = nx xs (nx ys q)"
  by (cases xs) simp_all

lemma pv_append: "pv p (xs @ ys) = pv (pv p xs) ys"
  by (simp add: pv_def)

lemma nx_hd: "nx xs None = hd_opt xs"
  by (cases xs) simp_all

lemma pv_last: "pv None xs = last_opt xs"
  by (simp add: pv_def last_opt_def)

fun links :: "dlist \<Rightarrow> node option \<Rightarrow> node list \<Rightarrow> node option \<Rightarrow> bool" where
  "links s p [] q = True"
| "links s p (x # xs) q = (prv s x = p \<and> nxt s x = nx xs q \<and> links s (Some x) xs q)"

lemma links_append: "links s p (xs @ ys) q \<longleftrightarrow> links s p xs (nx ys q) \<and> links s (pv p xs) ys q"
  by (induction xs arbitrary: p) (auto simp: nx_append pv_Cons)

definition dll :: "dlist \<Rightarrow> node list \<Rightarrow> bool" where
  "dll s xs \<longleftrightarrow> distinct xs \<and> lfirst s = hd_opt xs \<and> llast s = last_opt xs \<and> links s None xs None"

text \<open>The ends of a segment can be redirected, and nodes outside it do not matter.\<close>

lemma links_cong:
  "\<forall>x\<in>set xs. prv s' x = prv s x \<and> nxt s' x = nxt s x \<Longrightarrow> links s' p xs q = links s p xs q"
  by (induction xs arbitrary: p) auto

lemma set_simps [simp]:
  "nxt (set_next x v s) = (nxt s)(x := v)" "prv (set_next x v s) = prv s"
  "lfirst (set_next x v s) = lfirst s" "llast (set_next x v s) = llast s"
  "prv (set_prev x v s) = (prv s)(x := v)" "nxt (set_prev x v s) = nxt s"
  "lfirst (set_prev x v s) = lfirst s" "llast (set_prev x v s) = llast s"
  by (simp_all add: set_next_def set_prev_def)

lemma when_node_simps [simp]: "when_node None f s = s" "when_node (Some x) f s = f x s"
  by (simp_all add: when_node_def)

lemma links_update [simp]:
  "links (s\<lparr>lfirst := v\<rparr>) p xs q = links s p xs q" "links (s\<lparr>llast := w\<rparr>) p xs q = links s p xs q"
  by (induction xs arbitrary: p) auto

lemma links_set_out [simp]:
  "x \<notin> set xs \<Longrightarrow> links (set_next x v s) p xs q = links s p xs q"
  "x \<notin> set xs \<Longrightarrow> links (set_prev x v s) p xs q = links s p xs q"
  by (rule links_cong; auto)+

lemma links_set_last:
  "links s p (xs @ [x]) q \<Longrightarrow> x \<notin> set xs \<Longrightarrow> links (set_next x v s) p (xs @ [x]) v"
  by (simp add: links_append)

lemma links_set_first:
  "links s p (x # xs) q \<Longrightarrow> x \<notin> set xs \<Longrightarrow> links (set_prev x v s) v (x # xs) q"
  by simp

section \<open>The operations on lists\<close>

lemma hd_opt_mem [simp]: "x \<notin> set xs \<Longrightarrow> hd_opt xs \<noteq> Some x" "x \<notin> set xs \<Longrightarrow> Some x \<noteq> hd_opt xs"
  by (cases xs; simp; blast)+

lemma last_mem [simp]: "xs \<noteq> [] \<Longrightarrow> x \<notin> set xs \<Longrightarrow> last xs \<noteq> x"
  by (metis last_in_set)

lemma last_opt_mem [simp]: "x \<notin> set xs \<Longrightarrow> last_opt xs \<noteq> Some x" "x \<notin> set xs \<Longrightarrow> Some x \<noteq> last_opt xs"
  by (auto simp: last_opt_def split: if_splits dest: last_in_set)

lemma hd_opt_in: "hd_opt xs = Some x \<Longrightarrow> x \<in> set xs"
  by (cases xs) auto

lemma last_opt_in: "last_opt xs = Some x \<Longrightarrow> x \<in> set xs"
  by (auto simp: last_opt_def split: if_splits)

lemma links_cut:
  "links s p (as @ x # bs) q \<longleftrightarrow> links s p as (Some x) \<and> prv s x = pv p as \<and> nxt s x = nx bs q \<and>
     links s (Some x) bs q"
  by (simp add: links_append)

lemma dll_init: "dll (dao_list_init s) []"
  by (simp add: dll_def dao_list_init_def)

lemma dll_insert_befor:
  assumes "dll s (as @ w # bs)" "x \<notin> set (as @ w # bs)"
  shows "dll (dao_list_insert_befor w x s) (as @ x # w # bs)"
proof (cases as rule: rev_cases)
  case Nil
  then show ?thesis
    using assms by (auto simp: dll_def dao_list_insert_befor_def dao_list_node_init_def
        dao_list_prev_def Let_def last_opt_def)
next
  case (snoc cs c)
  then show ?thesis
    using assms by (auto simp: dll_def dao_list_insert_befor_def dao_list_node_init_def
        dao_list_prev_def Let_def last_opt_def links_append hd_opt_append)
qed

lemma dll_insert_after:
  assumes "dll s (as @ w # bs)" "x \<notin> set (as @ w # bs)"
  shows "dll (dao_list_insert_after w x s) (as @ w # x # bs)"
proof (cases bs)
  case Nil
  then show ?thesis
    using assms by (auto simp: dll_def dao_list_insert_after_def dao_list_node_init_def
        dao_list_next_def Let_def last_opt_def links_append hd_opt_append)
next
  case (Cons c cs)
  then show ?thesis
    using assms by (auto simp: dll_def dao_list_insert_after_def dao_list_node_init_def
        dao_list_next_def Let_def last_opt_def links_append hd_opt_append)
qed

lemma dll_push_front:
  assumes "dll s xs" "x \<notin> set xs"
  shows "dll (dao_list_push_front x s) (x # xs)"
proof (cases xs)
  case Nil
  then show ?thesis using assms
    by (simp add: dll_def dao_list_push_front_def dao_list_node_init_def last_opt_def)
next
  case (Cons f ys)
  then show ?thesis
    using assms dll_insert_befor [of s "[]" f ys x] by (simp add: dao_list_push_front_def dll_def)
qed

lemma dll_push_back:
  assumes "dll s xs" "x \<notin> set xs"
  shows "dll (dao_list_push_back x s) (xs @ [x])"
proof (cases xs rule: rev_cases)
  case Nil
  then show ?thesis
    using assms dll_push_front [OF assms] by (simp add: dao_list_push_back_def dll_def)
next
  case (snoc ys l)
  then show ?thesis
    using assms dll_insert_after [of s ys l "[]" x] by (simp add: dao_list_push_back_def dll_def)
qed

lemma when_set:
  "nxt (when_node p (\<lambda>p. set_next p v) s) z = (if p = Some z then v else nxt s z)"
  "prv (when_node p (\<lambda>p. set_next p v) s) = prv s"
  "prv (when_node p (\<lambda>p. set_prev p v) s) z = (if p = Some z then v else prv s z)"
  "nxt (when_node p (\<lambda>p. set_prev p v) s) = nxt s"
  "lfirst (when_node p (\<lambda>p. set_next p v) s) = lfirst s" "lfirst (when_node p (\<lambda>p. set_prev p v) s) = lfirst s"
  "llast (when_node p (\<lambda>p. set_next p v) s) = llast s" "llast (when_node p (\<lambda>p. set_prev p v) s) = llast s"
  by (cases p; simp)+

lemma if_ends:
  "nxt (if c then s\<lparr>lfirst := a\<rparr> else if d then s\<lparr>lfirst := b\<rparr> else s) = nxt s"
  "prv (if c then s\<lparr>lfirst := a\<rparr> else if d then s\<lparr>lfirst := b\<rparr> else s) = prv s"
  "llast (if c then s\<lparr>lfirst := a\<rparr> else if d then s\<lparr>lfirst := b\<rparr> else s) = llast s"
  "nxt (if c then s\<lparr>llast := a\<rparr> else if d then s\<lparr>llast := b\<rparr> else s) = nxt s"
  "prv (if c then s\<lparr>llast := a\<rparr> else if d then s\<lparr>llast := b\<rparr> else s) = prv s"
  "lfirst (if c then s\<lparr>llast := a\<rparr> else if d then s\<lparr>llast := b\<rparr> else s) = lfirst s"
  by simp_all

lemma if_end:
  "nxt (if c then s\<lparr>lfirst := a\<rparr> else s) = nxt s" "prv (if c then s\<lparr>lfirst := a\<rparr> else s) = prv s"
  "nxt (if c then s\<lparr>llast := a\<rparr> else s) = nxt s" "prv (if c then s\<lparr>llast := a\<rparr> else s) = prv s"
  "llast (if c then s\<lparr>lfirst := a\<rparr> else s) = llast s" "lfirst (if c then s\<lparr>llast := a\<rparr> else s) = lfirst s"
  by simp_all

lemmas link_simps = when_set if_ends if_end dao_list_next_def dao_list_prev_def Let_def

lemma ne_nx [simp]: "x \<notin> set xs \<Longrightarrow> nx xs None \<noteq> Some x" "x \<notin> set xs \<Longrightarrow> pv None xs \<noteq> Some x"
  by (simp_all add: nx_hd pv_last)

lemma links_ends:
  assumes "links s p xs q" "distinct xs"
    and "\<forall>z\<in>set xs. nxt s' z = (if last_opt xs = Some z then q' else nxt s z)"
    and "\<forall>z\<in>set xs. prv s' z = (if hd_opt xs = Some z then p' else prv s z)"
  shows "links s' p' xs q'"
  using assms
proof (induction xs arbitrary: p p')
  case (Cons x xs)
  have "links s' (Some x) xs q'"
  proof (rule Cons.IH)
    show "links s (Some x) xs q" using Cons.prems(1) by simp
    show "\<forall>z\<in>set xs. nxt s' z = (if last_opt xs = Some z then q' else nxt s z)"
      using Cons.prems(3) by (auto simp: last_opt_Cons split: if_splits)
    show "\<forall>z\<in>set xs. prv s' z = (if hd_opt xs = Some z then Some x else prv s z)"
      using Cons.prems by (cases xs) auto
  qed (use Cons.prems in simp)
  moreover have "nxt s' x = nx xs q'"
    using Cons.prems by (cases xs) (auto simp: last_opt_def split: if_splits)
  moreover have "prv s' x = p'" using Cons.prems by simp
  ultimately show ?case by simp
qed simp

lemma links_hd_prv: "links s p xs q \<Longrightarrow> hd_opt xs = Some z \<Longrightarrow> prv s z = p"
  by (cases xs) auto

lemma links_last_nxt: "links s p xs q \<Longrightarrow> last_opt xs = Some z \<Longrightarrow> nxt s z = q"
  by (auto simp: last_opt_eq_Some links_append)

lemma dll_cut:
  assumes "dll s (as @ x # bs)"
  shows "links s None as (Some x)" "nxt s x = hd_opt bs" "prv s x = last_opt as" "links s (Some x) bs None"
    "distinct (as @ x # bs)" "lfirst s = (if as = [] then Some x else hd_opt as)"
    "llast s = (if bs = [] then Some x else last_opt bs)"
  using assms by (auto simp: dll_def links_cut nx_hd pv_last hd_opt_append last_opt_append last_opt_Cons)

lemma remove_links:
  "nxt (dao_list_remove x s) z = (if z = x then None else if prv s x = Some z then nxt s x else nxt s z)"
  "prv (dao_list_remove x s) z = (if z = x then None else if nxt s x = Some z then prv s x else prv s z)"
  "lfirst (dao_list_remove x s) = (if lfirst s = Some x then nxt s x else lfirst s)"
  "llast (dao_list_remove x s) = (if llast s = Some x then prv s x else llast s)"
  by (simp_all add: dao_list_remove_def dao_list_node_init_def link_simps)

lemma dll_remove:
  assumes "dll s (as @ x # bs)"
  shows "dll (dao_list_remove x s) (as @ bs)"
    "nxt (dao_list_remove x s) x = None" "prv (dao_list_remove x s) x = None"
proof -
  note l = dll_cut [OF assms]
  let ?s' = "dao_list_remove x s"
  have "links ?s' None as (hd_opt bs)"
    by (rule links_ends [OF l(1)])
      (use l(5) in \<open>auto simp: remove_links l(2,3) links_hd_prv [OF l(1)] dest: last_opt_in hd_opt_in\<close>)
  moreover have "links ?s' (last_opt as) bs None"
    by (rule links_ends [OF l(4)])
      (use l(5) in \<open>auto simp: remove_links l(2,3) links_last_nxt [OF l(4)] dest: last_opt_in hd_opt_in\<close>)
  moreover have "lfirst ?s' = hd_opt (as @ bs)" "llast ?s' = last_opt (as @ bs)"
    using l(5) by (auto simp: remove_links l(2,3,6,7) hd_opt_append last_opt_append dest: last_opt_in hd_opt_in)
  ultimately show "dll ?s' (as @ bs)"
    using l(5) by (simp add: dll_def links_append nx_hd pv_last)
qed (simp_all add: remove_links)

lemma when_set2:
  "nxt (when_node p (\<lambda>p s. set_prev x (Some p) (set_next p v s)) s) z = (if p = Some z then v else nxt s z)"
  "prv (when_node p (\<lambda>p s. set_prev x (Some p) (set_next p v s)) s) z = (if z = x \<and> p \<noteq> None then p else prv s z)"
  "prv (when_node p (\<lambda>p s. set_next x (Some p) (set_prev p v s)) s) z = (if p = Some z then v else prv s z)"
  "nxt (when_node p (\<lambda>p s. set_next x (Some p) (set_prev p v s)) s) z = (if z = x \<and> p \<noteq> None then p else nxt s z)"
  "lfirst (when_node p (\<lambda>p s. set_prev x (Some p) (set_next p v s)) s) = lfirst s"
  "llast (when_node p (\<lambda>p s. set_prev x (Some p) (set_next p v s)) s) = llast s"
  "lfirst (when_node p (\<lambda>p s. set_next x (Some p) (set_prev p v s)) s) = lfirst s"
  "llast (when_node p (\<lambda>p s. set_next x (Some p) (set_prev p v s)) s) = llast s"
  by (cases p; simp)+

lemma replace_links:
  assumes "x \<noteq> old" "prv s old \<noteq> Some x" "nxt s old \<noteq> Some x"
  shows "nxt (dao_list_replace old x s) z = (if z = old then None else if z = x then nxt s old
      else if prv s old = Some z then Some x else nxt s z)"
    "prv (dao_list_replace old x s) z = (if z = old then None else if nxt s old = Some z then Some x
      else if z = x then prv s old else prv s z)"
    "lfirst (dao_list_replace old x s) = (if lfirst s = Some old then Some x else lfirst s)"
    "llast (dao_list_replace old x s) = (if llast s = Some old then Some x else llast s)"
  using assms
  by (simp_all add: dao_list_replace_def dao_list_node_init_def link_simps when_set2)

lemma dll_replace:
  assumes "dll s (as @ old # bs)" "x \<notin> set (as @ old # bs)"
  shows "dll (dao_list_replace old x s) (as @ x # bs)"
proof -
  note l = dll_cut [OF assms(1)]
  let ?s' = "dao_list_replace old x s"
  have x: "x \<noteq> old" "x \<notin> set as" "x \<notin> set bs" using assms(2) by auto
  have "prv s old \<noteq> Some x" "nxt s old \<noteq> Some x" using x by (auto simp: l(2,3) dest: last_opt_in hd_opt_in)
  note r = replace_links [OF x(1) this]
  have "links ?s' None as (Some x)"
    by (rule links_ends [OF l(1)])
      (use l(5) x in \<open>auto simp: r l(2,3) links_hd_prv [OF l(1)] dest: last_opt_in hd_opt_in\<close>)
  moreover have "links ?s' (Some x) bs None"
    by (rule links_ends [OF l(4)])
      (use l(5) x in \<open>auto simp: r l(2,3) links_last_nxt [OF l(4)] dest: last_opt_in hd_opt_in\<close>)
  moreover have "lfirst ?s' = hd_opt (as @ x # bs)" "llast ?s' = last_opt (as @ x # bs)"
    using l(5) by (auto simp: r l(6,7) hd_opt_append last_opt_append last_opt_Cons dest: last_opt_in hd_opt_in)
  moreover have "nxt ?s' x = hd_opt bs" "prv ?s' x = last_opt as"
    using x by (auto simp: r l(2,3) dest: last_opt_in hd_opt_in)
  ultimately show ?thesis
    using l(5) x by (simp add: dll_def links_cut nx_hd pv_last)
qed

lemma swap_ends:
  "lfirst (dao_list_swap x y s) = (if lfirst s = Some x then Some y else if lfirst s = Some y then Some x else lfirst s)"
  "llast (dao_list_swap x y s) = (if llast s = Some x then Some y else if llast s = Some y then Some x else llast s)"
  by (simp_all add: dao_list_swap_def dao_list_next_def dao_list_prev_def Let_def when_set if_ends)

lemma swap_adjacent_links:
  assumes "x \<noteq> y" "nxt s x = Some y" "prv s y = Some x"
  shows "nxt (dao_list_swap x y s) z = (if z = x then nxt s y else if z = y then Some x
      else if prv s x = Some z then Some y else nxt s z)"
    "prv (dao_list_swap x y s) z = (if nxt s y = Some z then Some x else if z = x then Some y
      else if z = y then prv s x else prv s z)"
  using assms by (simp_all add: dao_list_swap_def link_simps)

lemma swap_adjacent_links2:
  assumes "x \<noteq> y" "nxt s x = Some y" "prv s y = Some x" "nxt s y \<noteq> Some x" "prv s x \<noteq> Some y"
  shows "dao_list_swap y x s = dao_list_swap x y s"
  using assms by (simp add: dao_list_swap_def link_simps)

lemma dll_swap_adjacent:
  assumes "dll s (as @ x # y # bs)"
  shows "dll (dao_list_swap x y s) (as @ y # x # bs)"
proof -
  note l = dll_cut [OF assms]
  have y: "prv s y = Some x" "nxt s y = hd_opt bs" "links s (Some y) bs None" "nxt s x = Some y"
    using l(2,4) by (simp_all add: nx_hd)
  let ?s' = "dao_list_swap x y s"
  have ne: "x \<noteq> y" using l(5) by auto
  note r = swap_adjacent_links [OF ne y(4,1)]
  have "links ?s' None as (Some y)"
    by (rule links_ends [OF l(1)])
      (use l(5) in \<open>auto simp: r l(3) y links_hd_prv [OF l(1)] dest: last_opt_in hd_opt_in\<close>)
  moreover have "links ?s' (Some x) bs None"
    by (rule links_ends [OF y(3)])
      (use l(5) in \<open>auto simp: r l(3) y links_last_nxt [OF y(3)] dest: last_opt_in hd_opt_in\<close>)
  moreover have "lfirst ?s' = hd_opt (as @ y # x # bs)" "llast ?s' = last_opt (as @ y # x # bs)"
    using l(5) by (auto simp: swap_ends l(6,7) hd_opt_append last_opt_append last_opt_Cons dest: last_opt_in hd_opt_in)
  moreover have "nxt ?s' y = Some x" "prv ?s' y = last_opt as" "nxt ?s' x = hd_opt bs" "prv ?s' x = Some y"
    using l(5) by (auto simp: r l(3) y dest: last_opt_in hd_opt_in)
  ultimately show ?thesis
    using l(5) by (simp add: dll_def links_cut nx_hd pv_last)
qed

lemma swap_apart_links:
  assumes "nxt s x \<noteq> Some y" "prv s x \<noteq> Some y"
  shows "nxt (dao_list_swap x y s) z = (if z = x then nxt s y else if prv s y = Some z then Some x
      else if z = y then nxt s x else if prv s x = Some z then Some y else nxt s z)"
    "prv (dao_list_swap x y s) z = (if nxt s y = Some z then Some x else if z = x then prv s y
      else if nxt s x = Some z then Some y else if z = y then prv s x else prv s z)"
  using assms
  by (simp_all add: dao_list_swap_def dao_list_next_def dao_list_prev_def Let_def when_set if_ends)

lemma dll_swap_apart:
  assumes "dll s (as @ x # bs @ y # cs)" "bs \<noteq> []"
  shows "dll (dao_list_swap x y s) (as @ y # bs @ x # cs)" "dll (dao_list_swap y x s) (as @ y # bs @ x # cs)"
proof -
  have dist: "distinct (as @ x # bs @ y # cs)" using assms(1) by (simp add: dll_def)
  have l: "links s None as (Some x)" "nxt s x = nx bs None" "prv s x = last_opt as"
      "links s (Some x) bs (Some y)" "nxt s y = hd_opt cs" "prv s y = last_opt bs" "links s (Some y) cs None"
    using assms by (auto simp: dll_def links_cut nx_append pv_last nx_hd) (cases bs; simp add: pv_def last_opt_def)+
  have bs: "nx bs None = hd_opt bs" by (rule nx_hd)
  have ne: "nxt s x \<noteq> Some y" "prv s x \<noteq> Some y" "nxt s y \<noteq> Some x" "prv s y \<noteq> Some x"
    using l dist bs by auto
  have hb: "hd_opt bs \<noteq> None" "last_opt bs \<noteq> None" using assms(2) by simp_all
  have e1: "dll s' (as @ y # bs @ x # cs)"
    if n: "\<And>z. nxt s' z = (if z = x then hd_opt cs else if last_opt bs = Some z then Some x
              else if z = y then hd_opt bs else if last_opt as = Some z then Some y else nxt s z)"
      and p: "\<And>z. prv s' z = (if hd_opt cs = Some z then Some x else if z = x then last_opt bs
              else if hd_opt bs = Some z then Some y else if z = y then last_opt as else prv s z)"
      and f: "lfirst s' = (if lfirst s = Some x then Some y else if lfirst s = Some y then Some x else lfirst s)"
      and g: "llast s' = (if llast s = Some x then Some y else if llast s = Some y then Some x else llast s)"
    for s'
  proof -
    have "links s' None as (Some y)"
      by (rule links_ends [OF l(1)]) (use dist l in \<open>auto simp: n p links_hd_prv [OF l(1)] links_last_nxt [OF l(7)] dest: last_opt_in hd_opt_in\<close>)
    moreover have "links s' (Some y) bs (Some x)"
      by (rule links_ends [OF l(4)]) (use dist l in \<open>auto simp: n p links_hd_prv [OF l(1)] links_last_nxt [OF l(7)] dest: last_opt_in hd_opt_in\<close>)
    moreover have "links s' (Some x) cs None"
      by (rule links_ends [OF l(7)]) (use dist l in \<open>auto simp: n p links_hd_prv [OF l(1)] links_last_nxt [OF l(7)] dest: last_opt_in hd_opt_in\<close>)
    moreover have "nxt s' y = hd_opt bs" "prv s' y = last_opt as" "nxt s' x = hd_opt cs" "prv s' x = last_opt bs"
      using dist by (auto simp: n p dest: last_opt_in hd_opt_in)
    moreover have "nx (bs @ x # cs) None = hd_opt bs" "pv (Some y) bs = last_opt bs"
      using assms(2) by (auto simp: nx_hd hd_opt_append pv_def last_opt_def)
    moreover have "lfirst s' = hd_opt (as @ y # bs @ x # cs)" "llast s' = last_opt (as @ y # bs @ x # cs)"
      using assms dist unfolding f g dll_def
      by (auto simp: hd_opt_append last_opt_append last_opt_Cons dest: last_opt_in hd_opt_in)
    ultimately show ?thesis
      using dist by (simp add: dll_def links_append pv_last nx_hd)
  qed
  show "dll (dao_list_swap x y s) (as @ y # bs @ x # cs)"
    by (rule e1) (simp_all only: swap_apart_links [OF ne(1,2)] swap_ends l(2,3,5,6) bs)
  show "dll (dao_list_swap y x s) (as @ y # bs @ x # cs)"
    by (rule e1) (use dist in \<open>auto simp: swap_apart_links [OF ne(3,4)] swap_ends l(2,3,5,6) bs dest: last_opt_in hd_opt_in\<close>)
qed

section \<open>Walking\<close>

lemma lookup_loop_links:
  "links s p xs None \<Longrightarrow> lookup_loop cmp key s (hd_opt xs) = Some (find (\<lambda>x. cmp x key = 0) xs)"
proof (induction xs arbitrary: p)
  case Nil
  then show ?case by (subst lookup_loop.simps) simp
next
  case (Cons x xs)
  then show ?case by (subst lookup_loop.simps) (auto simp: nx_hd)
qed

lemma dao_list_lookup_dll: "dll s xs \<Longrightarrow> dao_list_lookup cmp key s = Some (find (\<lambda>x. cmp x key = 0) xs)"
  using lookup_loop_links [of s None xs cmp key] by (simp add: dll_def dao_list_lookup_def)

lemma last_loop_links: "links s p (x # xs) None \<Longrightarrow> last_loop s x = Some (last (x # xs))"
proof (induction xs arbitrary: p x)
  case Nil
  then show ?case by (subst last_loop.simps) simp
next
  case (Cons y ys)
  then show ?case by (subst last_loop.simps) simp
qed

lemma first_loop_links: "links s None (as @ x # bs) q \<Longrightarrow> first_loop s x = Some (hd (as @ [x]))"
proof (induction as arbitrary: x bs rule: rev_induct)
  case Nil
  then show ?case by (subst first_loop.simps) simp
next
  case (snoc y ys)
  have "first_loop s y = Some (hd (ys @ [y]))" using snoc by simp
  moreover have "prv s x = Some y" using snoc.prems by (simp add: links_append)
  ultimately show ?case by (subst first_loop.simps) (simp add: hd_append)
qed

lemma dao_list_last_dll: "links s None xs None \<Longrightarrow> dao_list_last s (hd_opt xs) = Some (last_opt xs)"
  using last_loop_links by (cases xs) (auto simp: dao_list_last_def last_opt_def)

section \<open>Properties\<close>

text \<open>
  C10. The operations refine operations on lists. Take a well-formed list
  \<open>as @ w # bs\<close> and a node \<open>x\<close> outside it. Inserting \<open>x\<close> before or after \<open>w\<close>, pushing it at
  either end, removing \<open>w\<close> and replacing \<open>w\<close> by \<open>x\<close> all leave a well-formed list with exactly
  the expected nodes; the removed node is unlinked; from \<open>w\<close>, \<open>dao_list_first\<close> reaches the
  first node of the list; and \<open>dao_list_lookup\<close> finds the first node that compares equal.
\<close>

theorem dao_list_refines:
  assumes "dll s (as @ w # bs)" "x \<notin> set (as @ w # bs)"
  shows "dll (dao_list_insert_befor w x s) (as @ x # w # bs) \<and>
    dll (dao_list_insert_after w x s) (as @ w # x # bs) \<and>
    dll (dao_list_push_front x s) (x # as @ w # bs) \<and>
    dll (dao_list_push_back x s) (as @ w # bs @ [x]) \<and>
    dll (dao_list_replace w x s) (as @ x # bs) \<and>
    dll (dao_list_remove w s) (as @ bs) \<and>
    nxt (dao_list_remove w s) w = None \<and> prv (dao_list_remove w s) w = None \<and>
    dao_list_first s (Some w) = Some (dao_list_front s) \<and>
    dao_list_last s (dao_list_front s) = Some (dao_list_back s) \<and>
    dao_list_lookup cmp key s = Some (find (\<lambda>y. cmp y key = 0) (as @ w # bs))"
proof (intro conjI)
  show "dll (dao_list_push_back x s) (as @ w # bs @ [x])" using dll_push_back [OF assms] by simp
  have l: "links s None (as @ w # bs) None" "lfirst s = hd_opt (as @ w # bs)" "llast s = last_opt (as @ w # bs)"
    using assms(1) by (simp_all add: dll_def)
  show "dao_list_first s (Some w) = Some (dao_list_front s)"
    using first_loop_links [OF l(1)] l(2) by (cases as) (simp_all add: dao_list_first_def dao_list_front_def)
  show "dao_list_last s (dao_list_front s) = Some (dao_list_back s)"
    using dao_list_last_dll [OF l(1)] l(2,3) by (simp add: dao_list_front_def dao_list_back_def)
qed (use assms in \<open>simp_all add: dll_insert_befor dll_insert_after dll_push_front dll_replace dll_remove
      dao_list_lookup_dll\<close>)

definition dlist_empty :: dlist where
  "dlist_empty = dao_list_init \<lparr>nxt = \<lambda>_. None, prv = \<lambda>_. None, lfirst = None, llast = None\<rparr>"

definition dlist_example :: dlist where
  "dlist_example = dao_list_push_back 3 (dao_list_push_back 2 (dao_list_push_back 1 dlist_empty))"

lemma dlist_example_dll: "dll dlist_example [1, 2, 3]"
proof -
  have "dll dlist_example ((([] @ [1]) @ [2]) @ [3])"
    unfolding dlist_example_def dlist_empty_def by (intro dll_push_back dll_init) simp_all
  then show ?thesis by simp
qed

theorem dao_list_refines_witness:
  "dll (dao_list_remove 2 dlist_example) [1, 3] \<and> dll (dao_list_insert_befor 2 9 dlist_example) [1, 9, 2, 3]"
  using dao_list_refines [of dlist_example "[1]" 2 "[3]" 9] dlist_example_dll by simp

lemma split_two:
  assumes "i < j" "j < length xs"
  obtains as x bs y cs where "xs = as @ x # bs @ y # cs" "length as = i" "length bs = j - Suc i"
proof -
  have "xs = take i xs @ xs ! i # drop (Suc i) xs" using assms by (simp add: id_take_nth_drop)
  moreover have "drop (Suc i) xs = take (j - Suc i) (drop (Suc i) xs) @ xs ! j # drop (Suc j) xs"
    using assms id_take_nth_drop [of "j - Suc i" "drop (Suc i) xs"] by simp
  ultimately have "xs = take i xs @ xs ! i # take (j - Suc i) (drop (Suc i) xs) @ xs ! j # drop (Suc j) xs"
    by simp
  then show ?thesis by (rule that) (use assms in simp_all)
qed

lemma dll_swap:
  assumes "dll s xs" "i < j" "j < length xs"
  shows "dll (dao_list_swap (xs ! i) (xs ! j) s) (xs[i := xs ! j, j := xs ! i])"
    "dll (dao_list_swap (xs ! j) (xs ! i) s) (xs[i := xs ! j, j := xs ! i])"
proof -
  obtain as x bs y cs where xs: "xs = as @ x # bs @ y # cs" "length as = i" "length bs = j - Suc i"
    using split_two [OF assms(2,3)] .
  have j: "j = length as + Suc (length bs)" using xs assms(2) by simp
  have e: "xs ! i = x" "xs ! j = y" "xs[i := y, j := x] = as @ y # bs @ x # cs"
    unfolding j xs(2) [symmetric] xs(1) by (simp_all add: nth_append list_update_append)
  have "dll (dao_list_swap x y s) (as @ y # bs @ x # cs) \<and> dll (dao_list_swap y x s) (as @ y # bs @ x # cs)"
  proof (cases "bs = []")
    case False
    then show ?thesis using dll_swap_apart assms(1) xs(1) by simp
  next
    case True
    have d: "dll s (as @ x # y # cs)" using assms(1) xs(1) True by simp
    note l = dll_cut [OF d]
    have "prv s y = Some x" "nxt s y = hd_opt cs" using l(4) by (simp_all add: nx_hd)
    then have "dao_list_swap y x s = dao_list_swap x y s"
      using l by (intro swap_adjacent_links2) (auto dest: hd_opt_in last_opt_in)
    then show ?thesis using dll_swap_adjacent [OF d] True by simp
  qed
  then show "dll (dao_list_swap (xs ! i) (xs ! j) s) (xs[i := xs ! j, j := xs ! i])"
    "dll (dao_list_swap (xs ! j) (xs ! i) s) (xs[i := xs ! j, j := xs ! i])"
    by (simp_all add: e)
qed

text \<open>
  C20. \<open>dao_list_swap\<close> exchanges any two nodes of a well-formed list, next to
  each other or not, in either order of the arguments, and leaves every other node where it was.
\<close>

theorem dao_list_swap_refines:
  assumes "dll s xs" "i < length xs" "j < length xs" "i \<noteq> j"
  shows "dll (dao_list_swap (xs ! i) (xs ! j) s) (xs[i := xs ! j, j := xs ! i])"
proof (cases "i < j")
  case True
  then show ?thesis using dll_swap assms by blast
next
  case False
  then have "j < i" using assms(4) by simp
  then show ?thesis using dll_swap(2) [OF assms(1)] assms(2) list_update_swap [OF assms(4)] by metis
qed

theorem dao_list_swap_refines_witness:
  "dll (dao_list_swap 3 1 dlist_example) [3, 2, 1]"
  using dao_list_swap_refines [OF dlist_example_dll, of 2 0] by simp

section \<open>The list as a queue\<close>

text \<open>Push at the back, take from the front.\<close>

definition dlist_deq :: "dlist \<Rightarrow> (node \<times> dlist) option" where
  "dlist_deq s = map_option (\<lambda>x. (x, dao_list_remove x s)) (dao_list_front s)"

interpretation lq: fifo_queue dll "\<lambda>xs x. x \<notin> set xs" dao_list_push_back dlist_deq
proof
  show "dll s xs \<Longrightarrow> x \<notin> set xs \<Longrightarrow> dll (dao_list_push_back x s) (xs @ [x])" for s xs x
    by (rule dll_push_back)
  show "dll s [] \<Longrightarrow> dlist_deq s = None" for s
    by (simp add: dlist_deq_def dao_list_front_def dll_def)
  show "dll s (x # xs) \<Longrightarrow> \<exists>s'. dlist_deq s = Some (x, s') \<and> dll s' xs" for s x xs
    using dll_remove(1) [of s "[]" x xs] by (simp add: dlist_deq_def dao_list_front_def dll_def)
qed

text \<open>
  Used as a queue (push at the back, remove at the front), the list is first-in
  first-out: along every run in which no node is pushed while it is still in the list, the nodes
  that came out followed by the nodes still in the list are exactly the nodes pushed, in order.
\<close>

theorem dao_list_fifo:
  assumes "queue_ok (\<lambda>xs x. x \<notin> set xs) [] ops"
  shows "\<exists>ys. dll (fst (queue_run dao_list_push_back dlist_deq (dao_list_init s) ops)) ys \<and>
    queue_inputs ops = snd (queue_run dao_list_push_back dlist_deq (dao_list_init s) ops) @ ys"
  using lq.run_fifo [OF dll_init assms, of s] by simp

theorem dao_list_fifo_witness:
  "\<exists>ys. dll (fst (queue_run dao_list_push_back dlist_deq (dao_list_init dlist_example)
         [Enq 5, Enq 7, Deq, Enq 5])) ys \<and>
     [5, 7, 5] = snd (queue_run dao_list_push_back dlist_deq (dao_list_init dlist_example)
         [Enq 5, Enq 7, Deq, Enq 5]) @ ys"
  using dao_list_fifo [of "[Enq 5, Enq 7, Deq, Enq 5]" dlist_example] by simp

end
