(* ===== verification/ListSort.thy ===== *)
theory ListSort imports DaoList "HOL-Library.Multiset" begin

text \<open>
  \<open>dao_list_sort\<close> of \<open>kernel/list.c\<close>: a bottom-up merge sort that relinks the nodes in
  place, and the proof that it is the stable sort of the library by any key that the comparison
  function implements.
\<close>

section \<open>Sorting\<close>

text \<open>
  \<open>dao_list_sort\<close> is a bottom-up merge sort that relinks the nodes in place. \<open>insize\<close> is an
  \<open>int\<close>; doubling it past 2^31 is undefined.
\<close>

fun sort_walk :: "dlist \<Rightarrow> nat \<Rightarrow> node option \<Rightarrow> nat \<Rightarrow> (node option \<times> nat) option" where
  "sort_walk s 0 q psize = Some (q, psize)"
| "sort_walk s (Suc n) q psize =
     (case q of
        None \<Rightarrow> None
      | Some x \<Rightarrow> if nxt s x = None then Some (None, psize + 1) else sort_walk s n (nxt s x) (psize + 1))"

definition sort_append :: "dlist \<Rightarrow> node \<Rightarrow> node option \<Rightarrow> node option \<Rightarrow> dlist \<times> node option \<times> node option" where
  "sort_append s e fst_node tail =
     (let (s, fst_node) = (if tail \<noteq> None then (set_next (the tail) (Some e) s, fst_node) else (s, Some e));
          s = set_prev e tail s
      in (s, fst_node, Some e))"

partial_function (option) sort_merge ::
  "(node \<Rightarrow> node \<Rightarrow> int) \<Rightarrow> dlist \<Rightarrow> node option \<Rightarrow> nat \<Rightarrow> node option \<Rightarrow> nat \<Rightarrow> node option \<Rightarrow> node option \<Rightarrow>
     (dlist \<times> node option \<times> node option \<times> node option) option" where
  "sort_merge cmp s p psize q qsize fst_node tail =
     (if 0 < psize \<or> (0 < qsize \<and> q \<noteq> None) then
        if psize = 0 then
          (let e = the q; q' = nxt s e; (s, fst_node, tail) = sort_append s e fst_node tail
           in sort_merge cmp s p psize q' (qsize - 1) fst_node tail)
        else if p = None then None
        else if qsize = 0 \<or> q = None then
          (let e = the p; p' = nxt s e; (s, fst_node, tail) = sort_append s e fst_node tail
           in sort_merge cmp s p' (psize - 1) q qsize fst_node tail)
        else if cmp (the p) (the q) \<le> 0 then
          (let e = the p; p' = nxt s e; (s, fst_node, tail) = sort_append s e fst_node tail
           in sort_merge cmp s p' (psize - 1) q qsize fst_node tail)
        else
          (let e = the q; q' = nxt s e; (s, fst_node, tail) = sort_append s e fst_node tail
           in sort_merge cmp s p psize q' (qsize - 1) fst_node tail)
      else Some (s, q, fst_node, tail))"

partial_function (option) sort_pass ::
  "(node \<Rightarrow> node \<Rightarrow> int) \<Rightarrow> dlist \<Rightarrow> nat \<Rightarrow> node option \<Rightarrow> node option \<Rightarrow> node option \<Rightarrow> nat \<Rightarrow>
     (dlist \<times> node option \<times> node option \<times> nat) option" where
  "sort_pass cmp s insize p fst_node tail nmerges =
     (if p = None then Some (s, fst_node, tail, nmerges)
      else Option.bind (sort_walk s insize p 0) (\<lambda>(q, psize).
           Option.bind (sort_merge cmp s p psize q insize fst_node tail) (\<lambda>(s, q, fst_node, tail).
           sort_pass cmp s insize q fst_node tail (nmerges + 1))))"

partial_function (option) sort_loop ::
  "(node \<Rightarrow> node \<Rightarrow> int) \<Rightarrow> dlist \<Rightarrow> nat \<Rightarrow> node option \<Rightarrow> (dlist \<times> node option) option" where
  "sort_loop cmp s insize fst_node =
     (if fst_node = None then Some (s, None)
      else Option.bind (sort_pass cmp s insize fst_node None None 0) (\<lambda>(s, fst_node, tail, nmerges).
        if tail = None then None
        else
          (let s = set_next (the tail) None s in
           if nmerges \<le> 1 then Some (s, fst_node)
           else if 2 ^ 31 \<le> insize * 2 then None
           else sort_loop cmp s (insize * 2) fst_node)))"

definition dao_list_sort :: "(node \<Rightarrow> node \<Rightarrow> int) \<Rightarrow> dlist \<Rightarrow> dlist option" where
  "dao_list_sort cmp s =
     Option.bind (sort_loop cmp s 1 (lfirst s)) (\<lambda>(s, fst_node).
       Option.bind (dao_list_last (s\<lparr>lfirst := fst_node\<rparr>) fst_node) (\<lambda>l.
         Some (s\<lparr>lfirst := fst_node, llast := l\<rparr>)))"

section \<open>The same algorithm on lists\<close>

fun lmerge :: "(node \<Rightarrow> node \<Rightarrow> int) \<Rightarrow> node list \<Rightarrow> node list \<Rightarrow> node list" where
  "lmerge cmp [] ys = ys"
| "lmerge cmp xs [] = xs"
| "lmerge cmp (x # xs) (y # ys) =
     (if cmp x y \<le> 0 then x # lmerge cmp xs (y # ys) else y # lmerge cmp (x # xs) ys)"

lemma lmerge_Nil2 [simp]: "lmerge cmp xs [] = xs"
  by (cases xs) simp_all

lemma length_lmerge [simp]: "length (lmerge cmp xs ys) = length xs + length ys"
  by (induction cmp xs ys rule: lmerge.induct) simp_all

lemma set_lmerge [simp]: "set (lmerge cmp xs ys) = set xs \<union> set ys"
  by (induction cmp xs ys rule: lmerge.induct) auto

lemma mset_lmerge [simp]: "mset (lmerge cmp xs ys) = mset xs + mset ys"
  by (induction cmp xs ys rule: lmerge.induct) simp_all

function lpass :: "(node \<Rightarrow> node \<Rightarrow> int) \<Rightarrow> nat \<Rightarrow> node list \<Rightarrow> node list" where
  "lpass cmp n xs =
     (if xs = [] \<or> n = 0 then []
      else lmerge cmp (take n xs) (take n (drop n xs)) @ lpass cmp n (drop n (drop n xs)))"
  by pat_completeness auto
termination by (relation "measure (\<lambda>(_, _, xs). length xs)") auto

declare lpass.simps [simp del]

lemma lpass_Nil [simp]: "lpass cmp n [] = []"
  by (subst lpass.simps) simp

lemma lpass_step:
  "0 < n \<Longrightarrow> lpass cmp n xs = lmerge cmp (take n xs) (take n (drop n xs)) @ lpass cmp n (drop n (drop n xs))"
  by (cases "xs = []") (simp, subst lpass.simps, simp)

function lmerges :: "nat \<Rightarrow> nat \<Rightarrow> nat" where
  "lmerges n l = (if l = 0 \<or> n = 0 then 0 else Suc (lmerges n (l - n - n)))"
  by pat_completeness auto
termination by (relation "measure snd") auto

declare lmerges.simps [simp del]

lemma lmerges_le1: "0 < n \<Longrightarrow> (lmerges n l \<le> 1) = (l \<le> 2 * n)"
proof -
  assume n: "0 < n"
  have z: "lmerges n m = 0 \<longleftrightarrow> m = 0" for m by (subst lmerges.simps) (use n in simp)
  have "lmerges n l = (if l = 0 then 0 else Suc (lmerges n (l - n - n)))"
    by (subst lmerges.simps) (use n in simp)
  then show ?thesis using z [of "l - n - n"] n by auto
qed

section \<open>The links during a merge\<close>

text \<open>Only the forward links of the two runs being merged matter.\<close>

fun chain :: "dlist \<Rightarrow> node list \<Rightarrow> node option \<Rightarrow> bool" where
  "chain s [] q = True"
| "chain s (x # xs) q = (nxt s x = nx xs q \<and> chain s xs q)"

lemma chain_append: "chain s (xs @ ys) q \<longleftrightarrow> chain s xs (nx ys q) \<and> chain s ys q"
  by (induction xs) (auto simp: nx_append)

lemma chain_links: "links s p xs q \<Longrightarrow> chain s xs q"
  by (induction xs arbitrary: p) auto

lemma chain_cong: "\<forall>x\<in>set xs. nxt s' x = nxt s x \<Longrightarrow> chain s' xs q = chain s xs q"
  by (induction xs) auto

text \<open>Appending the next node to the output.\<close>

lemma chain_keep:
  "chain s xs q \<Longrightarrow> \<forall>x. x \<notin> set out \<longrightarrow> nxt s' x = nxt s x \<Longrightarrow> set out \<inter> set xs = {} \<Longrightarrow> chain s' xs q"
  by (subst chain_cong [of _ s' s]) auto

lemma sort_append_links:
  assumes "links s None out r" "distinct (out @ [e])"
    and s': "sort_append s e (hd_opt out) (last_opt out) = (s', f', t')"
  shows "f' = hd_opt (out @ [e])" "t' = last_opt (out @ [e])" "links s' None (out @ [e]) (nxt s e)"
    "\<forall>x. x \<notin> set out \<longrightarrow> nxt s' x = nxt s x"
proof -
  have "f' = hd_opt (out @ [e]) \<and> t' = last_opt (out @ [e]) \<and> links s' None (out @ [e]) (nxt s e) \<and>
    (\<forall>x. x \<notin> set out \<longrightarrow> nxt s' x = nxt s x)"
  proof (cases out rule: rev_cases)
    case Nil
    then show ?thesis using s' by (auto simp: sort_append_def last_opt_def)
  next
    case (snoc ys t)
    have e: "s' = set_prev e (Some t) (set_next t (Some e) s)" "f' = hd_opt out" "t' = Some e"
      using s' snoc by (auto simp: sort_append_def)
    have "links s None ys (Some t)" "prv s t = pv None ys" "t \<notin> set ys" "e \<notin> set ys" "e \<noteq> t"
      using assms(1,2) snoc by (auto simp: links_append)
    then show ?thesis by (simp add: e snoc links_append hd_opt_append pv_last last_opt_def)
  qed
  then show "f' = hd_opt (out @ [e])" "t' = last_opt (out @ [e])" "links s' None (out @ [e]) (nxt s e)"
    "\<forall>x. x \<notin> set out \<longrightarrow> nxt s' x = nxt s x" by simp_all
qed

lemma sort_merge_correct:
  assumes "links s None out r" "chain s as r'" "p = nx as r'" "chain s qs None"
    and "distinct (out @ as @ qs)"
  shows "\<exists>s' r2. sort_merge cmp s p (length as) (hd_opt qs) k (hd_opt out) (last_opt out) =
      Some (s', hd_opt (drop k qs), hd_opt (out @ lmerge cmp as (take k qs)),
            last_opt (out @ lmerge cmp as (take k qs))) \<and>
    links s' None (out @ lmerge cmp as (take k qs)) r2 \<and> chain s' (drop k qs) None"
  using assms
proof (induction "length as + length (take k qs)" arbitrary: s out r as r' p qs k rule: less_induct)
  case less
  note IH = less.hyps and prems = less.prems
  consider (stop) "as = []" "take k qs = []"
    | (q) y ys j where "qs = y # ys" "k = Suc j" "as = [] \<or> (\<exists>x xs. as = x # xs \<and> \<not> cmp x y \<le> 0)"
    | (p) x xs where "as = x # xs" "take k qs = [] \<or> (\<exists>y ys. qs = y # ys \<and> 0 < k \<and> cmp x y \<le> 0)"
    by (cases as; cases qs; cases k; force)
  then show ?case
  proof cases
    case stop
    then have "k = 0 \<or> qs = []" by (cases k; cases qs) auto
    then show ?thesis using stop prems by (subst sort_merge.simps) auto
  next
    case q
    obtain s' f' t' where a: "sort_append s y (hd_opt out) (last_opt out) = (s', f', t')"
      by (metis prod_cases3)
    have "distinct (out @ [y])" using prems(5) q(1) by auto
    note sa = sort_append_links [OF prems(1) this a]
    have c: "chain s' as r'" "chain s' ys None"
      by (rule chain_keep [OF _ sa(4)]; use prems(2,4,5) q(1) in auto)+
    have d: "distinct ((out @ [y]) @ as @ ys)" using prems(5) q(1) by auto
    have step: "sort_merge cmp s p (length as) (hd_opt qs) k (hd_opt out) (last_opt out) =
        sort_merge cmp s' p (length as) (hd_opt ys) j (hd_opt (out @ [y])) (last_opt (out @ [y]))"
      using q prems(3,4) a sa(1,2)
      by (subst sort_merge.simps) (auto simp: nx_hd Let_def)
    have "lmerge cmp as (take k qs) = y # lmerge cmp as (take j ys)" using q by (auto simp: not_le)
    moreover have "length as + length (take j ys) < length as + length (take k qs)" using q by simp
    ultimately show ?thesis
      using IH [OF _ sa(3) c(1) prems(3) c(2) d, of j] step q(1,2) by auto
  next
    case p
    obtain s' f' t' where a: "sort_append s x (hd_opt out) (last_opt out) = (s', f', t')"
      by (metis prod_cases3)
    have "distinct (out @ [x])" using prems(5) p(1) by auto
    note sa = sort_append_links [OF prems(1) this a]
    have c: "chain s' xs r'" "chain s' qs None"
      by (rule chain_keep [OF _ sa(4)]; use prems(2,4,5) p(1) in auto)+
    have d: "distinct ((out @ [x]) @ xs @ qs)" using prems(5) p(1) by auto
    have n: "nxt s x = nx xs r'" using prems(2) p(1) by simp
    have step: "sort_merge cmp s p (length as) (hd_opt qs) k (hd_opt out) (last_opt out) =
        sort_merge cmp s' (nx xs r') (length xs) (hd_opt qs) k (hd_opt (out @ [x])) (last_opt (out @ [x]))"
      using p prems(3,4) a sa(1,2) n
      by (subst sort_merge.simps) (auto simp: Let_def)
    have "lmerge cmp as (take k qs) = x # lmerge cmp xs (take k qs)" using p by (cases k) auto
    moreover have "length xs + length (take k qs) < length as + length (take k qs)" using p by simp
    ultimately show ?thesis
      using IH [OF _ sa(3) c(1) refl c(2) d, of k] step by auto
  qed
qed

section \<open>Passes\<close>

lemma sort_walk_chain:
  "chain s qs None \<Longrightarrow> qs \<noteq> [] \<Longrightarrow>
     sort_walk s n (hd_opt qs) k = Some (hd_opt (drop n qs), k + min n (length qs))"
proof (induction n arbitrary: qs k)
  case (Suc n)
  then obtain x xs where qs: "qs = x # xs" "nxt s x = hd_opt xs" "chain s xs None"
    by (cases qs) (auto simp: nx_hd)
  then show ?case using Suc.IH [of xs "k + 1"] by (cases "xs = []") auto
qed simp

lemma mset_split: "mset (xs :: 'a list) = mset (take n xs) + mset (drop n xs)"
  by (metis append_take_drop_id mset_append)

lemma sort_pass_correct:
  assumes "0 < n" "links s None out r" "chain s ps None" "distinct (out @ ps)"
  shows "\<exists>s' r2. sort_pass cmp s n (hd_opt ps) (hd_opt out) (last_opt out) m =
      Some (s', hd_opt (out @ lpass cmp n ps), last_opt (out @ lpass cmp n ps), m + lmerges n (length ps)) \<and>
    links s' None (out @ lpass cmp n ps) r2"
  using assms
proof (induction "length ps" arbitrary: s out r ps m rule: less_induct)
  case less
  note IH = less.hyps and prems = less.prems
  show ?case
  proof (cases "ps = []")
    case True
    then show ?thesis using prems(2)
      by (subst sort_pass.simps) (auto simp: lpass.simps lmerges.simps)
  next
    case False
    let ?as = "take n ps" and ?qs = "drop n ps"
    have c: "chain s ?as (nx ?qs None)" "chain s ?qs None"
      using prems(3) chain_append [of s ?as ?qs None] by simp_all
    have d: "distinct (out @ ?as @ ?qs)" using prems(4) by simp
    have p: "hd_opt ps = nx ?as (nx ?qs None)" using nx_append [of ?as ?qs None] nx_hd [of ps] by simp
    from sort_merge_correct [OF prems(2) c(1) p c(2) d, of cmp n] obtain s' r2 where
      mg: "sort_merge cmp s (hd_opt ps) (length ?as) (hd_opt ?qs) n (hd_opt out) (last_opt out) =
        Some (s', hd_opt (drop n ?qs), hd_opt (out @ lmerge cmp ?as (take n ?qs)),
            last_opt (out @ lmerge cmp ?as (take n ?qs)))"
      "links s' None (out @ lmerge cmp ?as (take n ?qs)) r2" "chain s' (drop n ?qs) None" by blast
    let ?out = "out @ lmerge cmp ?as (take n ?qs)"
    have "mset (?out @ drop n ?qs) = mset (out @ ps)"
      by (simp add: mset_split [of ps n] mset_split [of ?qs n])
    then have d': "distinct (?out @ drop n ?qs)" using prems(4) mset_eq_imp_distinct_iff by blast
    have l: "length (drop n ?qs) < length ps" using False prems(1) by (cases ps) auto
    have w: "sort_walk s n (hd_opt ps) 0 = Some (hd_opt ?qs, length ?as)"
      using sort_walk_chain [OF prems(3) False] by (simp add: min.commute)
    have pe: "lpass cmp n ps = lmerge cmp ?as (take n ?qs) @ lpass cmp n (drop n ?qs)"
      using False prems(1) by (subst lpass.simps) simp
    have me: "lmerges n (length ps) = Suc (lmerges n (length (drop n ?qs)))"
      using False prems(1) by (subst lmerges.simps) simp
    have "sort_pass cmp s n (hd_opt ps) (hd_opt out) (last_opt out) m =
        sort_pass cmp s' n (hd_opt (drop n ?qs)) (hd_opt ?out) (last_opt ?out) (m + 1)"
      using False w mg(1) by (subst sort_pass.simps) simp
    with IH [OF l prems(1) mg(2,3) d', of "m + 1"] show ?thesis
      unfolding pe me by simp
  qed
qed

lemma mset_lpass: "0 < n \<Longrightarrow> mset (lpass cmp n xs) = mset xs"
proof (induction "length xs" arbitrary: xs rule: less_induct)
  case less
  show ?case
  proof (cases "xs = []")
    case False
    then have "length (drop n (drop n xs)) < length xs" using less.prems by (cases xs) auto
    then show ?thesis
      using less False by (subst lpass.simps) (simp add: mset_split [of xs n] mset_split [of "drop n xs" n])
  qed (simp add: lpass.simps)
qed

lemma length_lpass: "0 < n \<Longrightarrow> length (lpass cmp n xs) = length xs"
  using mset_lpass mset_eq_length by blast

function lsort :: "(node \<Rightarrow> node \<Rightarrow> int) \<Rightarrow> nat \<Rightarrow> node list \<Rightarrow> node list" where
  "lsort cmp n xs =
     (if n = 0 \<or> length xs \<le> 2 * n then lpass cmp n xs else lsort cmp (2 * n) (lpass cmp n xs))"
  by pat_completeness auto
termination
  by (relation "measure (\<lambda>(_, n, xs). length xs - n)") (auto simp: length_lpass)

declare lsort.simps [simp del]

lemma sort_loop_correct:
  assumes "0 < n" "links s p xs None" "distinct xs" "xs \<noteq> []" "length xs < 2 ^ 31"
  shows "\<exists>s'. sort_loop cmp s n (hd_opt xs) = Some (s', hd_opt (lsort cmp n xs)) \<and>
     links s' None (lsort cmp n xs) None \<and> mset (lsort cmp n xs) = mset xs"
  using assms
proof (induction "length xs - n" arbitrary: s p n xs rule: less_induct)
  case less
  note prems = less.prems
  let ?ys = "lpass cmp n xs"
  from sort_pass_correct [OF prems(1) _ chain_links [OF prems(2)], of "[]" None cmp 0]
  obtain s1 r where s1: "sort_pass cmp s n (hd_opt xs) None None 0 =
       Some (s1, hd_opt ?ys, last_opt ?ys, lmerges n (length xs))" "links s1 None ?ys r"
    using prems(3) by auto
  have ys: "mset ?ys = mset xs" "length ?ys = length xs" "?ys \<noteq> []" "distinct ?ys"
    using mset_lpass [OF prems(1)] length_lpass [OF prems(1)] prems(3,4) mset_eq_imp_distinct_iff
    by (metis, metis, metis length_0_conv, metis)
  obtain zs t where zt: "?ys = zs @ [t]" using ys(3) by (cases ?ys rule: rev_cases) auto
  let ?s2 = "set_next t None s1"
  have l2: "links ?s2 None ?ys None"
    using s1(2) ys(4) unfolding zt by (intro links_set_last) auto
  have step: "sort_loop cmp s n (hd_opt xs) =
     (if length xs \<le> 2 * n then Some (?s2, hd_opt ?ys)
      else if 2 ^ 31 \<le> n * 2 then None else sort_loop cmp ?s2 (n * 2) (hd_opt ?ys))"
    using prems(1,4) s1(1) lmerges_le1 [OF prems(1), of "length xs"] zt
    by (subst sort_loop.simps) (simp add: Let_def)
  show ?case
  proof (cases "length xs \<le> 2 * n")
    case True
    then show ?thesis using step l2 ys by (simp add: lsort.simps [of cmp n xs])
  next
    case False
    have e: "lsort cmp n xs = lsort cmp (2 * n) ?ys" using False prems(1) by (subst lsort.simps) simp
    have "length ?ys - n * 2 < length xs - n" using False prems(1) ys(2) by simp
    from less.hyps [OF this _ l2 ys(4,3)] show ?thesis
      using False prems(1,5) step ys(1,2) by (simp add: e mult.commute)
  qed
qed

lemma dao_list_sort_lsort:
  assumes "dll s xs" "length xs < 2 ^ 31"
  shows "\<exists>s'. dao_list_sort cmp s = Some s' \<and> dll s' (lsort cmp 1 xs)"
proof (cases "xs = []")
  case True
  then show ?thesis using assms
    by (auto simp: dao_list_sort_def dll_def sort_loop.simps dao_list_last_def lsort.simps lpass.simps)
next
  case False
  have d: "distinct xs" "links s None xs None" "lfirst s = hd_opt xs" using assms(1) by (simp_all add: dll_def)
  from sort_loop_correct [of 1 s None xs cmp] d False assms(2) obtain s' where
    s': "sort_loop cmp s 1 (hd_opt xs) = Some (s', hd_opt (lsort cmp 1 xs))"
      "links s' None (lsort cmp 1 xs) None" "mset (lsort cmp 1 xs) = mset xs" by auto
  have "distinct (lsort cmp 1 xs)" using d(1) s'(3) mset_eq_imp_distinct_iff by blast
  then show ?thesis
    using s' d(3) dao_list_last_dll [of "s'\<lparr>lfirst := hd_opt (lsort cmp 1 xs)\<rparr>" "lsort cmp 1 xs"]
    by (simp add: dao_list_sort_def dll_def)
qed

section \<open>Sorted and stable\<close>

text \<open>The comparison function orders the nodes by a key.\<close>

definition cmp_by :: "(node \<Rightarrow> node \<Rightarrow> int) \<Rightarrow> (node \<Rightarrow> 'k::linorder) \<Rightarrow> bool" where
  "cmp_by cmp k \<longleftrightarrow> (\<forall>a b. cmp a b \<le> 0 \<longleftrightarrow> k a \<le> k b)"

lemma sorted_lmerge:
  "cmp_by cmp k \<Longrightarrow> sorted (map k xs) \<Longrightarrow> sorted (map k ys) \<Longrightarrow> sorted (map k (lmerge cmp xs ys))"
proof (induction cmp xs ys rule: lmerge.induct)
  case (3 cmp x xs y ys)
  have c: "cmp x y \<le> 0 \<longleftrightarrow> k x \<le> k y" using "3.prems"(1) by (simp add: cmp_by_def)
  show ?case
  proof (cases "k x \<le> k y")
    case True
    then show ?thesis using 3 c by fastforce
  next
    case False
    then show ?thesis using 3 c by fastforce
  qed
qed simp_all

lemma filter_lmerge:
  "cmp_by cmp k \<Longrightarrow> sorted (map k xs) \<Longrightarrow>
     filter (\<lambda>x. k x = c) (lmerge cmp xs ys) = filter (\<lambda>x. k x = c) xs @ filter (\<lambda>x. k x = c) ys"
proof (induction cmp xs ys rule: lmerge.induct)
  case (3 cmp x xs y ys)
  have c: "cmp x y \<le> 0 \<longleftrightarrow> k x \<le> k y" using "3.prems"(1) by (simp add: cmp_by_def)
  show ?case
  proof (cases "k x \<le> k y")
    case True
    then show ?thesis using 3 c by simp
  next
    case False
    have "filter (\<lambda>z. k z = k y) (x # xs) = []"
      using False "3.prems"(2) by (auto simp: filter_empty_conv)
    then show ?thesis using 3 c False by (cases "c = k y") auto
  qed
qed simp_all

text \<open>Every block of \<open>n\<close> nodes is sorted.\<close>

function blocks_sorted :: "(node \<Rightarrow> 'k::linorder) \<Rightarrow> nat \<Rightarrow> node list \<Rightarrow> bool" where
  "blocks_sorted k n xs =
     (if xs = [] \<or> n = 0 then True else sorted (map k (take n xs)) \<and> blocks_sorted k n (drop n xs))"
  by pat_completeness auto
termination by (relation "measure (\<lambda>(_, _, xs). length xs)") auto

declare blocks_sorted.simps [simp del]

lemma blocks_sorted_Nil: "blocks_sorted k n []"
  by (subst blocks_sorted.simps) simp

lemma blocks_sorted_step:
  "xs \<noteq> [] \<Longrightarrow> 0 < n \<Longrightarrow>
     blocks_sorted k n xs \<longleftrightarrow> sorted (map k (take n xs)) \<and> blocks_sorted k n (drop n xs)"
  by (subst blocks_sorted.simps) simp

lemma blocks_sortedD:
  "blocks_sorted k n xs \<Longrightarrow> 0 < n \<Longrightarrow> sorted (map k (take n xs)) \<and> blocks_sorted k n (drop n xs)"
  by (cases "xs = []") (simp_all add: blocks_sorted_step blocks_sorted_Nil)

lemma blocks_sortedI:
  "0 < n \<Longrightarrow> sorted (map k (take n xs)) \<Longrightarrow> blocks_sorted k n (drop n xs) \<Longrightarrow> blocks_sorted k n xs"
  by (cases "xs = []") (simp_all add: blocks_sorted_step blocks_sorted_Nil)

lemma blocks_sorted_1: "blocks_sorted k 1 xs"
proof (induction xs)
  case (Cons x xs)
  show ?case by (rule blocks_sortedI) (use Cons in simp_all)
qed (simp add: blocks_sorted_Nil)

lemma lpass_take_drop:
  assumes "0 < n"
  shows "take (2 * n) (lpass cmp n xs) = lmerge cmp (take n xs) (take n (drop n xs))"
    "drop (2 * n) (lpass cmp n xs) = lpass cmp n (drop n (drop n xs))"
proof -
  let ?m = "lmerge cmp (take n xs) (take n (drop n xs))"
  have l: "lpass cmp n xs = ?m @ lpass cmp n (drop n (drop n xs))"
    by (rule lpass_step [OF assms])
  have "length ?m = 2 * n \<or> length ?m < 2 * n \<and> lpass cmp n (drop n (drop n xs)) = []"
    by (cases "length xs \<le> 2 * n") auto
  then show "take (2 * n) (lpass cmp n xs) = ?m"
    "drop (2 * n) (lpass cmp n xs) = lpass cmp n (drop n (drop n xs))"
    unfolding l by auto
qed

lemma blocks_sorted_lpass:
  "cmp_by cmp k \<Longrightarrow> 0 < n \<Longrightarrow> blocks_sorted k n xs \<Longrightarrow> blocks_sorted k (2 * n) (lpass cmp n xs)"
proof (induction "length xs" arbitrary: xs rule: less_induct)
  case less
  show ?case
  proof (cases "xs = []")
    case False
    note b1 = blocks_sortedD [OF less.prems(3,2)]
    note b2 = blocks_sortedD [OF conjunct2 [OF b1] less.prems(2)]
    have "length (drop n (drop n xs)) < length xs" using False less.prems(2) by (cases xs) auto
    then have "blocks_sorted k (2 * n) (lpass cmp n (drop n (drop n xs)))"
      using less b2 by simp
    then have "blocks_sorted k (2 * n) (drop (2 * n) (lpass cmp n xs))"
      by (simp only: lpass_take_drop(2) [OF less.prems(2)])
    moreover have "sorted (map k (take (2 * n) (lpass cmp n xs)))"
      unfolding lpass_take_drop(1) [OF less.prems(2)]
      using sorted_lmerge [OF less.prems(1) conjunct1 [OF b1] conjunct1 [OF b2]] .
    moreover have "0 < 2 * n" using less.prems(2) by simp
    ultimately show ?thesis using blocks_sortedI by blast
  qed (simp add: blocks_sorted_Nil)
qed

lemma filter_lpass:
  "cmp_by cmp k \<Longrightarrow> 0 < n \<Longrightarrow> blocks_sorted k n xs \<Longrightarrow>
     filter (\<lambda>x. k x = c) (lpass cmp n xs) = filter (\<lambda>x. k x = c) xs"
proof (induction "length xs" arbitrary: xs rule: less_induct)
  case less
  show ?case
  proof (cases "xs = []")
    case False
    note b1 = blocks_sortedD [OF less.prems(3,2)]
    note b2 = blocks_sortedD [OF conjunct2 [OF b1] less.prems(2)]
    have "length (drop n (drop n xs)) < length xs" using False less.prems(2) by (cases xs) auto
    then have r: "filter (\<lambda>x. k x = c) (lpass cmp n (drop n (drop n xs))) =
        filter (\<lambda>x. k x = c) (drop n (drop n xs))"
      using less b2 by simp
    have sp: "ys = take n ys @ drop n ys" for ys :: "node list" by simp
    have "filter (\<lambda>x. k x = c) xs = filter (\<lambda>x. k x = c) (take n xs) @
        filter (\<lambda>x. k x = c) (take n (drop n xs)) @ filter (\<lambda>x. k x = c) (drop n (drop n xs))"
      by (metis append_take_drop_id filter_append)
    then show ?thesis
      unfolding lpass_step [OF less.prems(2), of cmp xs] filter_append r
      using filter_lmerge [OF less.prems(1) conjunct1 [OF b1]] by simp
  qed simp
qed

lemma lsort_sort_key:
  "cmp_by cmp k \<Longrightarrow> 0 < n \<Longrightarrow> blocks_sorted k n xs \<Longrightarrow> lsort cmp n xs = sort_key k xs"
proof (induction "length xs - n" arbitrary: n xs rule: less_induct)
  case less
  note prems = less.prems
  let ?ys = "lpass cmp n xs"
  note b = blocks_sorted_lpass [OF prems] and f = filter_lpass [OF prems]
  have eq: "filter (\<lambda>x. k z = k x) l = filter (\<lambda>x. k x = k z) l" for z l
    by (rule filter_cong) auto
  have "sort_key k xs = sort_key k ?ys"
    by (rule properties_for_sort_key) (simp_all add: mset_lpass prems eq sort_key_stable f)
  then have ys: "sort_key k ?ys = sort_key k xs" by simp
  show ?case
  proof (cases "length xs \<le> 2 * n")
    case True
    have "sorted (map k ?ys)"
      using blocks_sortedD [OF b] prems(2) True by (simp add: length_lpass)
    then have "sort_key k ?ys = ?ys" by (simp add: sort_key_id_if_sorted)
    then show ?thesis using True ys by (simp add: lsort.simps [of cmp n xs])
  next
    case False
    have "length ?ys - 2 * n < length xs - n" using False prems(2) by (simp add: length_lpass)
    from less.hyps [OF this prems(1) _ b] show ?thesis
      using False prems(2) ys by (simp add: lsort.simps [of cmp n xs])
  qed
qed

text \<open>
  C9. \<open>dao_list_sort\<close> terminates and sorts stably: for every well-formed list
  of fewer than 2^31 nodes and every comparison function that orders the nodes by some key, the
  links afterwards are a well-formed list of the same nodes, in ascending order of the key, nodes
  with equal keys in their old order (the library's \<open>sort_key\<close>).
\<close>

theorem dao_list_sort_stable:
  fixes k :: "node \<Rightarrow> 'k::linorder"
  assumes "dll s xs" "length xs < 2 ^ 31" "cmp_by cmp k"
  shows "\<exists>s'. dao_list_sort cmp s = Some s' \<and> dll s' (sort_key k xs)"
proof -
  have "lsort cmp 1 xs = sort_key k xs"
    by (rule lsort_sort_key [OF assms(3) _ blocks_sorted_1]) simp
  then show ?thesis using dao_list_sort_lsort [OF assms(1,2), of cmp] by simp
qed

theorem dao_list_sort_stable_witness:
  "\<exists>s'. dao_list_sort (\<lambda>a b. int (a mod 10) - int (b mod 10))
      (dao_list_push_back 11 (dao_list_push_back 3 (dao_list_push_back 21 (dao_list_init
        \<lparr>nxt = \<lambda>_. None, prv = \<lambda>_. None, lfirst = None, llast = None\<rparr>)))) = Some s' \<and>
    dll s' [21, 11, 3]"
proof -
  let ?s = "dao_list_push_back 11 (dao_list_push_back 3 (dao_list_push_back 21 (dao_list_init
        \<lparr>nxt = \<lambda>_. None, prv = \<lambda>_. None, lfirst = None, llast = None\<rparr>)))"
  have "dll ?s ((([] @ [21]) @ [3]) @ [11])"
    by (intro dll_push_back dll_init) simp_all
  then have d: "dll ?s [21, 3, 11]" by simp
  have c: "cmp_by (\<lambda>a b. int (a mod 10) - int (b mod 10)) (\<lambda>a :: nat. a mod 10)"
    by (simp add: cmp_by_def)
  have "sort_key (\<lambda>a :: nat. a mod 10) [21, 3, 11] = [21, 11, 3]" by simp
  with dao_list_sort_stable [OF d _ c] show ?thesis by simp
qed

end
