(* ===== verification/MessageQueue.thy ===== *)
theory MessageQueue imports QueueSpec "HOL-Library.Multiset" begin

text \<open>
  The message queue of \<open>kernel/message/queue.c\<close>: a block allocator and a queue of pointers, both
  rings of \<open>max_depth\<close> cells with a counter and two 32-bit positions that only ever grow (and
  wrap). This theory has the operations one at a time, as each thread executes them; theory
  MessageThreads interleaves them. A pointer is a 64-bit address, 0 is NULL. \<open>None\<close> is a call
  that never returns (it spins on a cell or waits on a semaphore that nobody posts) or divides by
  zero.
\<close>

section \<open>State\<close>

datatype sem_ref = AllocUnnamed | QueueUnnamed | NamedSem nat

record mqueue =
  mq_message_size :: u32
  mq_max_depth :: u32
  mq_memory :: u64
  mq_freelist :: "u64 list"
  mq_queue_data :: "u64 list"
  mq_a_sem :: sem_ref
  mq_a_posts :: nat
  mq_a_blocked :: u32
  mq_free_blocks :: u32
  mq_allocpos :: u32
  mq_freepos :: u32
  mq_q_sem :: sem_ref
  mq_q_posts :: nat
  mq_q_blocked :: u32
  mq_entries :: u32
  mq_readpos :: u32
  mq_writepos :: u32

section \<open>Creation\<close>

text \<open>\<open>pad_size\<close> computes in \<open>size_t\<close>: its \<open>int\<close> argument is sign-extended first.\<close>

definition pad_size :: "u32 \<Rightarrow> u32" where
  "pad_size sz =
     (let s = (scast sz :: u64)
      in if s mod 8 \<noteq> 0 then ucast (s + (8 - s mod 8)) else sz)"

definition round_to_pow2 :: "u32 \<Rightarrow> u32" where
  "round_to_pow2 x =
     (let x = x - 1;
          x = x OR drop_bit 1 x;
          x = x OR drop_bit 2 x;
          x = x OR drop_bit 4 x;
          x = x OR drop_bit 8 x;
          x = x OR drop_bit 16 x
      in x + 1)"

text \<open>
  What the system answers during \<open>dao_message_queue_init\<close>: the three allocations, and how each
  semaphore came about (\<open>sem_init\<close>, else \<open>sem_open\<close> under a name, else failure; interrupted
  calls are repeated until they are not).
\<close>

datatype sem_answer = SemInit | SemOpen nat | SemFailed

record mq_env =
  me_memory :: "u64 option"
  me_freelist :: bool
  me_alloc_sem :: sem_answer
  me_queue_data :: bool
  me_queue_sem :: sem_answer

datatype resource = RMemory | RFreelist | RQueueData | RSem sem_ref

fun sem_of :: "sem_ref \<Rightarrow> sem_answer \<Rightarrow> sem_ref option" where
  "sem_of unnamed SemInit = Some unnamed"
| "sem_of unnamed (SemOpen n) = Some (NamedSem n)"
| "sem_of unnamed SemFailed = None"

text \<open>
  The two calls that give a semaphore back, each for one kind only: \<open>sem_destroy\<close> releases an
  unnamed semaphore and \<open>sem_close\<close> a named one; the wrong call releases nothing.
\<close>

datatype sem_call = SemDestroy sem_ref | SemClose sem_ref

fun sem_release :: "sem_call \<Rightarrow> resource list \<Rightarrow> resource list" where
  "sem_release (SemDestroy (NamedSem n)) held = held"
| "sem_release (SemDestroy unnamed) held = remove1 (RSem unnamed) held"
| "sem_release (SemClose (NamedSem n)) held = remove1 (RSem (NamedSem n)) held"
| "sem_release (SemClose unnamed) held = held"

text \<open>The labels of the error path, each falling through to the next.\<close>

definition error_after_memory :: "resource list \<Rightarrow> resource list" where
  "error_after_memory held = remove1 RMemory held"

definition error_after_freelist :: "resource list \<Rightarrow> resource list" where
  "error_after_freelist held = error_after_memory (remove1 RFreelist held)"

definition error_after_alloc_sem :: "sem_ref \<Rightarrow> resource list \<Rightarrow> resource list" where
  "error_after_alloc_sem sem held =
     error_after_freelist
       (sem_release (if sem = AllocUnnamed then SemDestroy sem else SemClose sem) held)"

definition error_after_queue :: "sem_ref \<Rightarrow> resource list \<Rightarrow> resource list" where
  "error_after_queue sem held = error_after_alloc_sem sem (remove1 RQueueData held)"

text \<open>The return code, the queue when it is 0, and the resources held when the call returns.\<close>

definition dao_message_queue_init ::
  "mq_env \<Rightarrow> u32 \<Rightarrow> u32 \<Rightarrow> int \<times> mqueue option \<times> resource list" where
  "dao_message_queue_init env message_size max_depth =
     (let sz = pad_size message_size;
          depth = round_to_pow2 max_depth;
          n = unat depth
      in case me_memory env of
           None \<Rightarrow> (- 1, None, [])
         | Some memory \<Rightarrow>
             (let held = [RMemory] in
              if \<not> me_freelist env then (- 1, None, error_after_memory held)
              else
                (let held = RFreelist # held;
                     freelist = map (\<lambda>i. memory + ucast (sz * of_nat i)) [0..<n]
                 in case sem_of AllocUnnamed (me_alloc_sem env) of
                      None \<Rightarrow> (- 1, None, error_after_freelist held)
                    | Some asem \<Rightarrow>
                        (let held = RSem asem # held in
                         if \<not> me_queue_data env then (- 1, None, error_after_alloc_sem asem held)
                         else
                           (let held = RQueueData # held
                            in case sem_of QueueUnnamed (me_queue_sem env) of
                                 None \<Rightarrow> (- 1, None, error_after_queue asem held)
                               | Some qsem \<Rightarrow>
                                   (0, Some
                                     \<lparr>mq_message_size = sz, mq_max_depth = depth, mq_memory = memory,
                                      mq_freelist = freelist, mq_queue_data = replicate n 0,
                                      mq_a_sem = asem, mq_a_posts = 0, mq_a_blocked = 0,
                                      mq_free_blocks = depth, mq_allocpos = 0, mq_freepos = 0,
                                      mq_q_sem = qsem, mq_q_posts = 0, mq_q_blocked = 0,
                                      mq_entries = 0, mq_readpos = 0, mq_writepos = 0\<rparr>,
                                    RSem qsem # held))))))"

text \<open>The number of bytes \<open>init\<close> asks \<open>malloc\<close> for: a 32-bit product.\<close>

definition mq_malloc_size :: "u32 \<Rightarrow> u32 \<Rightarrow> u64" where
  "mq_malloc_size message_size max_depth = ucast (pad_size message_size * round_to_pow2 max_depth)"

section \<open>Operations\<close>

definition cell_pos :: "mqueue \<Rightarrow> u32 \<Rightarrow> nat option" where
  "cell_pos q pos = (if mq_max_depth q = 0 then None else Some (unat (pos mod mq_max_depth q)))"

definition dao_message_queue_message_alloc :: "mqueue \<Rightarrow> (u64 \<times> mqueue) option" where
  "dao_message_queue_message_alloc q =
     (let before = mq_free_blocks q; q = q\<lparr>mq_free_blocks := before - 1\<rparr> in
      if 0 < sint before then
        (case cell_pos q (mq_allocpos q) of
           None \<Rightarrow> None
         | Some pos \<Rightarrow>
             (let q = q\<lparr>mq_allocpos := mq_allocpos q + 1\<rparr>; rv = mq_freelist q ! pos in
              if rv = 0 then None
              else Some (rv, q\<lparr>mq_freelist := (mq_freelist q)[pos := 0]\<rparr>)))
      else Some (0, q\<lparr>mq_free_blocks := mq_free_blocks q + 1\<rparr>))"

definition dao_message_queue_message_free :: "mqueue \<Rightarrow> u64 \<Rightarrow> mqueue option" where
  "dao_message_queue_message_free q message =
     (case cell_pos q (mq_freepos q) of
        None \<Rightarrow> None
      | Some pos \<Rightarrow>
          (let q = q\<lparr>mq_freepos := mq_freepos q + 1\<rparr> in
           if mq_freelist q ! pos \<noteq> 0 then None
           else
             (let q = q\<lparr>mq_freelist := (mq_freelist q)[pos := message]\<rparr>;
                  q = q\<lparr>mq_free_blocks := mq_free_blocks q + 1\<rparr>
              in Some (if mq_a_blocked q \<noteq> 0
                       then q\<lparr>mq_a_blocked := mq_a_blocked q - 1, mq_a_posts := mq_a_posts q + 1\<rparr>
                       else q))))"

definition dao_message_queue_write :: "mqueue \<Rightarrow> u64 \<Rightarrow> mqueue option" where
  "dao_message_queue_write q message =
     (case cell_pos q (mq_writepos q) of
        None \<Rightarrow> None
      | Some pos \<Rightarrow>
          (let q = q\<lparr>mq_writepos := mq_writepos q + 1\<rparr> in
           if mq_queue_data q ! pos \<noteq> 0 then None
           else
             (let q = q\<lparr>mq_queue_data := (mq_queue_data q)[pos := message]\<rparr>;
                  q = q\<lparr>mq_entries := mq_entries q + 1\<rparr>
              in Some (if mq_q_blocked q \<noteq> 0
                       then q\<lparr>mq_q_blocked := mq_q_blocked q - 1, mq_q_posts := mq_q_posts q + 1\<rparr>
                       else q))))"

definition dao_message_queue_tryread :: "mqueue \<Rightarrow> (u64 \<times> mqueue) option" where
  "dao_message_queue_tryread q =
     (let before = mq_entries q; q = q\<lparr>mq_entries := before - 1\<rparr> in
      if 0 < sint before then
        (case cell_pos q (mq_readpos q) of
           None \<Rightarrow> None
         | Some pos \<Rightarrow>
             (let q = q\<lparr>mq_readpos := mq_readpos q + 1\<rparr>; rv = mq_queue_data q ! pos in
              if rv = 0 then None
              else Some (rv, q\<lparr>mq_queue_data := (mq_queue_data q)[pos := 0]\<rparr>)))
      else Some (0, q\<lparr>mq_entries := mq_entries q + 1\<rparr>))"

text \<open>
  The blocking variants, for one thread: a wait on a semaphore that has no post never ends.
\<close>

partial_function (option) alloc_wait_loop :: "u64 \<Rightarrow> mqueue \<Rightarrow> (u64 \<times> mqueue) option" where
  "alloc_wait_loop rv q =
     (if rv \<noteq> 0 then Some (rv, q)
      else Option.bind (dao_message_queue_message_alloc (q\<lparr>mq_a_blocked := mq_a_blocked q + 1\<rparr>)) (\<lambda>(rv, q).
        if rv \<noteq> 0 then Some (rv, q\<lparr>mq_a_blocked := mq_a_blocked q - 1\<rparr>)
        else if mq_a_posts q = 0 then None
        else Option.bind (dao_message_queue_message_alloc (q\<lparr>mq_a_posts := mq_a_posts q - 1\<rparr>)) (\<lambda>(rv, q).
          alloc_wait_loop rv q)))"

definition dao_message_queue_message_alloc_blocking :: "mqueue \<Rightarrow> (u64 \<times> mqueue) option" where
  "dao_message_queue_message_alloc_blocking q =
     Option.bind (dao_message_queue_message_alloc q) (\<lambda>(rv, q). alloc_wait_loop rv q)"

partial_function (option) read_wait_loop :: "u64 \<Rightarrow> mqueue \<Rightarrow> (u64 \<times> mqueue) option" where
  "read_wait_loop rv q =
     (if rv \<noteq> 0 then Some (rv, q)
      else Option.bind (dao_message_queue_tryread (q\<lparr>mq_q_blocked := mq_q_blocked q + 1\<rparr>)) (\<lambda>(rv, q).
        if rv \<noteq> 0 then Some (rv, q\<lparr>mq_q_blocked := mq_q_blocked q - 1\<rparr>)
        else if mq_q_posts q = 0 then None
        else Option.bind (dao_message_queue_tryread (q\<lparr>mq_q_posts := mq_q_posts q - 1\<rparr>)) (\<lambda>(rv, q).
          read_wait_loop rv q)))"

definition dao_message_queue_read :: "mqueue \<Rightarrow> (u64 \<times> mqueue) option" where
  "dao_message_queue_read q =
     Option.bind (dao_message_queue_tryread q) (\<lambda>(rv, q). read_wait_loop rv q)"

text \<open>
  Destruction: the two semaphore calls it makes; the code compares both pointers with the queue's
  own unnamed semaphore.
\<close>

definition dao_message_queue_destroy :: "mqueue \<Rightarrow> sem_call list \<times> resource list" where
  "dao_message_queue_destroy q =
     ([if mq_q_sem q = QueueUnnamed then SemDestroy (mq_q_sem q) else SemClose (mq_q_sem q),
       if mq_a_sem q = QueueUnnamed then SemDestroy (mq_a_sem q) else SemClose (mq_a_sem q)],
      [RQueueData, RFreelist, RMemory])"

section \<open>Rings\<close>

text \<open>
  A ring of \<open>d\<close> cells with read position \<open>r\<close>, write position \<open>w\<close> and counter \<open>n\<close> that holds
  the list \<open>xs\<close>. The positions are 32-bit counters that wrap; that is harmless exactly because
  \<open>d\<close> divides \<open>2 ^ 32\<close>.
\<close>

definition ring :: "nat \<Rightarrow> u64 list \<Rightarrow> u32 \<Rightarrow> u32 \<Rightarrow> u32 \<Rightarrow> u64 list \<Rightarrow> bool" where
  "ring d data r w n xs \<longleftrightarrow>
     length data = d \<and> length xs \<le> d \<and> n = of_nat (length xs) \<and>
     unat w mod d = (unat r + length xs) mod d \<and>
     (\<forall>i<length xs. data ! ((unat r + i) mod d) = xs ! i \<and> xs ! i \<noteq> 0) \<and>
     (\<forall>i. length xs \<le> i \<and> i < d \<longrightarrow> data ! ((unat r + i) mod d) = 0)"

definition depth_ok :: "nat \<Rightarrow> bool" where
  "depth_ok d \<longleftrightarrow> (\<exists>k \<le> 30. d = 2 ^ k)"

lemma depth_ok_dvd: "depth_ok d \<Longrightarrow> d dvd 2 ^ 32 \<and> 0 < d \<and> d < 2 ^ 31"
proof -
  assume "depth_ok d"
  then obtain k where k: "k \<le> 30" "d = 2 ^ k" by (auto simp: depth_ok_def)
  have "(2::nat) ^ k \<le> 2 ^ 30" using k(1) by (rule power_increasing) simp
  then show ?thesis using k le_imp_power_dvd [of k 32 2] by simp
qed

lemma pos_add:
  assumes "d dvd 2 ^ 32"
  shows "unat (r + of_nat m :: u32) mod d = (unat r + m) mod d"
proof -
  have "unat (r + of_nat m) = (unat r + m) mod 2 ^ 32"
    by (simp add: unat_word_ariths unat_of_nat take_bit_eq_mod mod_simps)
  then show ?thesis using assms by (simp add: mod_mod_cancel)
qed

lemma pos_mod: "depth_ok d \<Longrightarrow> unat (p mod (of_nat d :: u32)) = unat p mod d"
  using depth_ok_dvd [of d] by (simp add: unat_mod unat_of_nat_u32)

lemma mod_add_inj:
  assumes "i < d" "j < d" "(r + i) mod d = (r + j) mod (d :: nat)"
  shows "i = j"
proof -
  have le: "i = j" if "i \<le> j" "j < d" "(r + j) mod d = (r + i) mod d" for i j
    using that mod_eq_dvd_iff_nat [of "r + i" "r + j" d] by (auto dest: dvd_imp_le)
  show ?thesis using le [of i j] le [of j i] assms by (cases "i \<le> j") auto
qed

lemma ring_put:
  assumes "ring d data r w n xs" "depth_ok d" "length xs < d" "x \<noteq> 0"
  shows "data ! (unat w mod d) = 0"
    "ring d (data[unat w mod d := x]) r (w + 1) (n + 1) (xs @ [x])"
proof -
  note dv = depth_ok_dvd [OF assms(2)]
  have w: "unat w mod d = (unat r + length xs) mod d"
    using assms(1) by (simp add: ring_def)
  show "data ! (unat w mod d) = 0" unfolding w using assms(1,3) by (simp add: ring_def)
  have other: "(unat r + length xs) mod d \<noteq> (unat r + i) mod d" if "i < d" "i \<noteq> length xs" for i
    using mod_add_inj [of i d "length xs" "unat r"] that assms(3) by auto
  have "\<forall>i<length (xs @ [x]). data[unat w mod d := x] ! ((unat r + i) mod d) = (xs @ [x]) ! i \<and> (xs @ [x]) ! i \<noteq> 0"
    unfolding w using assms dv other by (auto simp: ring_def nth_append less_Suc_eq)
  moreover have "\<forall>i. length (xs @ [x]) \<le> i \<and> i < d \<longrightarrow> data[unat w mod d := x] ! ((unat r + i) mod d) = 0"
    unfolding w using assms other by (auto simp: ring_def)
  moreover have "unat (w + 1) mod d = (unat r + length (xs @ [x])) mod d"
  proof -
    have "unat (w + 1) mod d = (unat w + 1) mod d" using pos_add [of d w 1] dv by simp
    also have "\<dots> = (unat r + length xs + 1) mod d" by (rule mod_add_cong [OF w refl])
    finally show ?thesis by simp
  qed
  ultimately show "ring d (data[unat w mod d := x]) r (w + 1) (n + 1) (xs @ [x])"
    using assms by (simp add: ring_def)
qed

lemma ring_get:
  assumes "ring d data r w n (x # xs)" "depth_ok d"
  shows "data ! (unat r mod d) = x" "x \<noteq> 0" "0 < sint n"
    "ring d (data[unat r mod d := 0]) (r + 1) w (n - 1) xs"
proof -
  note dv = depth_ok_dvd [OF assms(2)]
  show x: "data ! (unat r mod d) = x" "x \<noteq> 0" using assms(1) by (auto simp: ring_def dest: spec [of _ 0])
  have "unat n = Suc (length xs)"
    using assms(1) dv by (simp add: ring_def unat_of_nat_u32 del: of_nat_Suc)
  then show "0 < sint n" using assms(1) dv by (subst sint_u32_small) (auto simp: ring_def)
  have r1: "(unat (r + 1) + i) mod d = (unat r + Suc i) mod d" for i
  proof -
    have "unat (r + 1) mod d = (unat r + 1) mod d" using pos_add [of d r 1] dv by simp
    then have "(unat (r + 1) + i) mod d = (unat r + 1 + i) mod d" by (rule mod_add_cong) simp
    then show ?thesis by simp
  qed
  have other: "unat r mod d \<noteq> (unat r + Suc i) mod d" if "Suc i < d" for i
    using mod_add_inj [of "Suc i" d 0 "unat r"] that by (auto simp del: add_Suc_right)
  have "\<forall>i<length xs. data[unat r mod d := 0] ! ((unat (r + 1) + i) mod d) = xs ! i \<and> xs ! i \<noteq> 0"
  proof (intro allI impI)
    fix i assume i: "i < length xs"
    have l: "Suc i < d" using i assms(1) by (simp add: ring_def)
    have "data ! ((unat r + Suc i) mod d) = (x # xs) ! Suc i \<and> (x # xs) ! Suc i \<noteq> 0"
      using assms(1) i unfolding ring_def by (metis Suc_less_eq length_Cons)
    then show "data[unat r mod d := 0] ! ((unat (r + 1) + i) mod d) = xs ! i \<and> xs ! i \<noteq> 0"
      using other [OF l] by (simp add: r1)
  qed
  moreover have "data[unat r mod d := 0] ! ((unat (r + 1) + i) mod d) = 0"
    if "length xs \<le> i" "i < d" for i
  proof (cases "Suc i < d")
    case True
    then have "data ! ((unat r + Suc i) mod d) = 0"
      using assms(1) that unfolding ring_def by (metis Suc_le_mono length_Cons)
    then show ?thesis using other [OF True] by (simp add: r1)
  next
    case False
    then have "Suc i = d" using that by simp
    then have "(unat r + Suc i) mod d = unat r mod d" by simp
    then show ?thesis using assms(1) dv by (simp add: ring_def r1)
  qed
  ultimately show "ring d (data[unat r mod d := 0]) (r + 1) w (n - 1) xs"
    using assms(1) r1 [of "length xs"] by (simp add: ring_def)
qed

lemma ring_empty: "ring d data r w n [] \<Longrightarrow> n = 0"
  by (simp add: ring_def)

section \<open>The two rings of a queue\<close>

definition mq_wf :: "nat \<Rightarrow> mqueue \<Rightarrow> bool" where
  "mq_wf d q \<longleftrightarrow> depth_ok d \<and> mq_max_depth q = of_nat d"

definition mq_qrep :: "nat \<Rightarrow> mqueue \<Rightarrow> u64 list \<Rightarrow> bool" where
  "mq_qrep d q xs \<longleftrightarrow> mq_wf d q \<and>
     ring d (mq_queue_data q) (mq_readpos q) (mq_writepos q) (mq_entries q) xs"

definition mq_arep :: "nat \<Rightarrow> mqueue \<Rightarrow> u64 list \<Rightarrow> bool" where
  "mq_arep d q xs \<longleftrightarrow> mq_wf d q \<and>
     ring d (mq_freelist q) (mq_allocpos q) (mq_freepos q) (mq_free_blocks q) xs"

lemma cell_pos_update [simp]:
  "cell_pos (q\<lparr>mq_entries := v\<rparr>) p = cell_pos q p" "cell_pos (q\<lparr>mq_free_blocks := v\<rparr>) p = cell_pos q p"
  by (simp_all add: cell_pos_def)

lemma cell_pos_wf: "mq_wf d q \<Longrightarrow> cell_pos q p = Some (unat p mod d)"
proof -
  assume wf: "mq_wf d q"
  then have "mq_max_depth q \<noteq> 0"
    using depth_ok_dvd [of d] unat_of_nat_u32 [of d] by (auto simp: mq_wf_def)
  then show ?thesis using wf pos_mod [of d p] by (simp add: cell_pos_def mq_wf_def)
qed

lemma write_rep:
  assumes "mq_qrep d q xs" "length xs < d" "x \<noteq> 0"
  shows "\<exists>q'. dao_message_queue_write q x = Some q' \<and> mq_qrep d q' (xs @ [x]) \<and>
    (\<forall>fs. mq_arep d q' fs = mq_arep d q fs)"
proof -
  have wf: "mq_wf d q" and dk: "depth_ok d" using assms(1) by (simp_all add: mq_qrep_def mq_wf_def)
  note put = ring_put [OF conjunct2 [OF assms(1) [unfolded mq_qrep_def]] dk assms(2,3)]
  show ?thesis
    using put assms(1)
    by (simp add: dao_message_queue_write_def cell_pos_wf [OF wf] Let_def mq_qrep_def mq_arep_def mq_wf_def)
qed

lemma tryread_rep:
  "mq_qrep d q [] \<Longrightarrow> dao_message_queue_tryread q = Some (0, q)"
  "mq_qrep d q (x # xs) \<Longrightarrow> \<exists>q'. dao_message_queue_tryread q = Some (x, q') \<and> x \<noteq> 0 \<and>
     mq_qrep d q' xs \<and> (\<forall>fs. mq_arep d q' fs = mq_arep d q fs)"
proof -
  show "mq_qrep d q [] \<Longrightarrow> dao_message_queue_tryread q = Some (0, q)"
    by (simp add: dao_message_queue_tryread_def mq_qrep_def ring_def Let_def)
  assume r: "mq_qrep d q (x # xs)"
  then have wf: "mq_wf d q" and dk: "depth_ok d" by (simp_all add: mq_qrep_def mq_wf_def)
  note get = ring_get [OF conjunct2 [OF r [unfolded mq_qrep_def]] dk]
  show "\<exists>q'. dao_message_queue_tryread q = Some (x, q') \<and> x \<noteq> 0 \<and>
     mq_qrep d q' xs \<and> (\<forall>fs. mq_arep d q' fs = mq_arep d q fs)"
    using get wf
    by (simp add: dao_message_queue_tryread_def cell_pos_wf [OF wf] Let_def mq_qrep_def mq_arep_def mq_wf_def)
qed

lemma free_rep:
  assumes "mq_arep d q xs" "length xs < d" "x \<noteq> 0"
  shows "\<exists>q'. dao_message_queue_message_free q x = Some q' \<and> mq_arep d q' (xs @ [x]) \<and>
    (\<forall>fs. mq_qrep d q' fs = mq_qrep d q fs)"
proof -
  have wf: "mq_wf d q" and dk: "depth_ok d" using assms(1) by (simp_all add: mq_arep_def mq_wf_def)
  note put = ring_put [OF conjunct2 [OF assms(1) [unfolded mq_arep_def]] dk assms(2,3)]
  show ?thesis
    using put assms(1)
    by (simp add: dao_message_queue_message_free_def cell_pos_wf [OF wf] Let_def mq_qrep_def mq_arep_def mq_wf_def)
qed

lemma alloc_rep:
  "mq_arep d q [] \<Longrightarrow> dao_message_queue_message_alloc q = Some (0, q)"
  "mq_arep d q (x # xs) \<Longrightarrow> \<exists>q'. dao_message_queue_message_alloc q = Some (x, q') \<and> x \<noteq> 0 \<and>
     mq_arep d q' xs \<and> (\<forall>fs. mq_qrep d q' fs = mq_qrep d q fs)"
proof -
  show "mq_arep d q [] \<Longrightarrow> dao_message_queue_message_alloc q = Some (0, q)"
    by (simp add: dao_message_queue_message_alloc_def mq_arep_def ring_def Let_def)
  assume r: "mq_arep d q (x # xs)"
  then have wf: "mq_wf d q" and dk: "depth_ok d" by (simp_all add: mq_arep_def mq_wf_def)
  note get = ring_get [OF conjunct2 [OF r [unfolded mq_arep_def]] dk]
  show "\<exists>q'. dao_message_queue_message_alloc q = Some (x, q') \<and> x \<noteq> 0 \<and>
     mq_arep d q' xs \<and> (\<forall>fs. mq_qrep d q' fs = mq_qrep d q fs)"
    using get wf
    by (simp add: dao_message_queue_message_alloc_def cell_pos_wf [OF wf] Let_def mq_qrep_def mq_arep_def mq_wf_def)
qed

text \<open>Each ring is a queue; the operations as functions on the state.\<close>

definition mq_put :: "u64 \<Rightarrow> mqueue \<Rightarrow> mqueue" where
  "mq_put x q = (case dao_message_queue_write q x of None \<Rightarrow> q | Some q' \<Rightarrow> q')"

definition mq_get :: "mqueue \<Rightarrow> (u64 \<times> mqueue) option" where
  "mq_get q = (case dao_message_queue_tryread q of None \<Rightarrow> None
     | Some (rv, q') \<Rightarrow> if rv = 0 then None else Some (rv, q'))"

definition mq_release :: "u64 \<Rightarrow> mqueue \<Rightarrow> mqueue" where
  "mq_release x q = (case dao_message_queue_message_free q x of None \<Rightarrow> q | Some q' \<Rightarrow> q')"

definition mq_acquire :: "mqueue \<Rightarrow> (u64 \<times> mqueue) option" where
  "mq_acquire q = (case dao_message_queue_message_alloc q of None \<Rightarrow> None
     | Some (rv, q') \<Rightarrow> if rv = 0 then None else Some (rv, q'))"

interpretation mq: fifo_queue "mq_qrep d" "\<lambda>xs x. length xs < d \<and> x \<noteq> 0" mq_put mq_get for d
proof
  show "mq_qrep d (mq_put x s) (xs @ [x])" if "mq_qrep d s xs" "length xs < d \<and> x \<noteq> 0" for s xs x
    using write_rep [OF that(1), of x] that(2) by (auto simp: mq_put_def)
  show "mq_get s = None" if "mq_qrep d s []" for s
    using tryread_rep(1) [OF that] by (simp add: mq_get_def)
  show "\<exists>s'. mq_get s = Some (x, s') \<and> mq_qrep d s' xs" if "mq_qrep d s (x # xs)" for s x xs
    using tryread_rep(2) [OF that] by (auto simp: mq_get_def)
qed

interpretation pool: fifo_queue "mq_arep d" "\<lambda>xs x. length xs < d \<and> x \<noteq> 0" mq_release mq_acquire for d
proof
  show "mq_arep d (mq_release x s) (xs @ [x])" if "mq_arep d s xs" "length xs < d \<and> x \<noteq> 0" for s xs x
    using free_rep [OF that(1), of x] that(2) by (auto simp: mq_release_def)
  show "mq_acquire s = None" if "mq_arep d s []" for s
    using alloc_rep(1) [OF that] by (simp add: mq_acquire_def)
  show "\<exists>s'. mq_acquire s = Some (x, s') \<and> mq_arep d s' xs" if "mq_arep d s (x # xs)" for s x xs
    using alloc_rep(2) [OF that] by (auto simp: mq_acquire_def)
qed

section \<open>Sizes\<close>

lemma smear_step:
  fixes x y :: u32
  assumes "k' = 2 * k" "\<And>n. bit y n \<longleftrightarrow> (\<exists>m. n \<le> m \<and> m < n + k \<and> bit x m)"
  shows "bit (y OR drop_bit k y) n \<longleftrightarrow> (\<exists>m. n \<le> m \<and> m < n + k' \<and> bit x m)"
proof
  assume "bit (y OR drop_bit k y) n"
  then have "bit y n \<or> bit y (n + k)" by (simp add: bit_or_iff bit_drop_bit_eq add.commute)
  then obtain m where "bit x m" "(n \<le> m \<and> m < n + k) \<or> (n + k \<le> m \<and> m < n + k + k)"
    using assms(2) by blast
  then show "\<exists>m. n \<le> m \<and> m < n + k' \<and> bit x m"
    using assms(1) by (intro exI [of _ m]) auto
next
  assume "\<exists>m. n \<le> m \<and> m < n + k' \<and> bit x m"
  then obtain m where m: "n \<le> m" "m < n + k'" "bit x m" by blast
  show "bit (y OR drop_bit k y) n"
  proof (cases "m < n + k")
    case True
    then have "bit y n" using assms m by blast
    then show ?thesis by (simp add: bit_or_iff)
  next
    case False
    then have "bit y (n + k)" using assms(1) m by (subst assms(2)) (intro exI [of _ m], simp)
    then show ?thesis by (simp add: bit_or_iff bit_drop_bit_eq add.commute)
  qed
qed

definition smear :: "u32 \<Rightarrow> u32" where
  "smear x =
     (let x = x OR drop_bit 1 x; x = x OR drop_bit 2 x; x = x OR drop_bit 4 x; x = x OR drop_bit 8 x
      in x OR drop_bit 16 x)"

lemma bit_smear: "bit (smear x) n \<longleftrightarrow> (\<exists>m\<ge>n. bit x m)"
proof -
  have 0: "bit x n \<longleftrightarrow> (\<exists>m. n \<le> m \<and> m < n + 1 \<and> bit x m)" for n by (auto simp: less_Suc_eq)
  note 1 = smear_step [where k = 1 and k' = 2, OF _ 0, OF mult_1_right [symmetric]]
  note 2 = smear_step [where k = 2 and k' = 4, OF _ 1]
  note 3 = smear_step [where k = 4 and k' = 8, OF _ 2]
  note 4 = smear_step [where k = 8 and k' = 16, OF _ 3]
  note 5 = smear_step [where k = 16 and k' = 32, OF _ 4]
  have "bit (smear x) n \<longleftrightarrow> (\<exists>m. n \<le> m \<and> m < n + 32 \<and> bit x m)"
    unfolding smear_def Let_def by (rule 5) simp_all
  also have "\<dots> \<longleftrightarrow> (\<exists>m\<ge>n. bit x m)"
  proof
    assume "\<exists>m\<ge>n. bit x m"
    then obtain m where m: "n \<le> m" "bit x m" by blast
    then have "m < 32" using bit_imp_le_length [of x m] by simp
    then show "\<exists>m. n \<le> m \<and> m < n + 32 \<and> bit x m" using m by auto
  qed blast
  finally show ?thesis .
qed


lemma round_to_pow2_smear: "round_to_pow2 x = smear (x - 1) + 1"
  by (simp add: round_to_pow2_def smear_def Let_def)

lemma bit_unat: "bit (x :: u32) n \<longleftrightarrow> odd (unat x div 2 ^ n)"
  by (metis bit_iff_odd bit_unsigned_iff bit_imp_le_length order_less_le_trans exp_eq_zero_iff
      linorder_not_le possible_bit_def bit_imp_possible_bit possible_bit_nat possible_bit_word)

lemma smear_pow2:
  assumes "2 ^ t \<le> unat (y :: u32)" "unat y < 2 ^ Suc t" "t < 31"
  shows "unat (smear y + 1) = 2 ^ Suc t"
proof -
  have top: "bit y t"
  proof -
    have "unat y div 2 ^ t = 1" using assms(1,2) by (intro div_nat_eqI) simp_all
    then show ?thesis by (simp add: bit_unat)
  qed
  have above: "\<not> bit y m" if "t < m" for m
  proof -
    have "(2::nat) ^ Suc t \<le> 2 ^ m" using that by (intro power_increasing) simp_all
    then have "unat y div 2 ^ m = 0" using assms(2) by simp
    then show ?thesis by (simp add: bit_unat)
  qed
  have "smear y = mask (Suc t)"
  proof (rule bit_word_eqI)
    fix n
    have "bit (smear y) n \<longleftrightarrow> n \<le> t"
      unfolding bit_smear using top above by (metis le_trans not_le)
    then show "bit (smear y) n = bit (mask (Suc t) :: u32) n" if "n < LENGTH(32)"
      using that by (simp add: bit_mask_iff less_Suc_eq_le)
  qed
  then have "smear y + 1 = 2 ^ Suc t" by (simp add: mask_eq_exp_minus_1)
  moreover have "(2::nat) ^ Suc t < 2 ^ 32" using assms(3) by (intro power_strict_increasing) simp_all
  ultimately show ?thesis using unat_of_nat_u32 [of "2 ^ Suc t"] by simp
qed

lemma round_to_pow2_value:
  assumes "0 < unat x" "unat x \<le> 2 ^ 31"
  shows "\<exists>k \<le> 31. unat (round_to_pow2 x) = 2 ^ k \<and> unat x \<le> 2 ^ k \<and> 2 ^ k < 2 * unat x"
proof -
  have y: "unat (x - 1) = unat x - 1"
    using assms(1) by (subst unat_sub) (simp_all add: word_le_nat_alt)
  show ?thesis
  proof (cases "unat x = 1")
    case True
    then have "x - 1 = 0" using y by (simp add: unat_eq_zero)
    moreover have "smear 0 = 0" by (simp add: smear_def)
    ultimately show ?thesis using True by (intro exI [of _ 0]) (simp add: round_to_pow2_smear)
  next
    case False
    then obtain t where t: "2 ^ t \<le> unat (x - 1)" "unat (x - 1) < 2 ^ (t + 1)"
    proof -
      have "1 \<le> unat (x - 1)" using False assms(1) y by simp
      then show ?thesis using ex_power_ivl1 [of 2 "unat (x - 1)"] that by auto
    qed
    have "(2::nat) ^ t < 2 ^ 31" using t(1) y assms by (simp del: power_strict_increasing_iff)
    then have t31: "t < 31" by (rule power_less_imp_less_exp [rotated]) simp
    have "unat (round_to_pow2 x) = 2 ^ Suc t"
      unfolding round_to_pow2_smear by (rule smear_pow2) (use t t31 in simp_all)
    then show ?thesis using t y t31 assms(1) by (intro exI [of _ "Suc t"]) auto
  qed
qed

lemma round_to_pow2_depth:
  assumes "0 < unat x" "unat x \<le> 2 ^ 30"
  shows "depth_ok (unat (round_to_pow2 x))"
proof -
  obtain k where k: "k \<le> 31" "unat (round_to_pow2 x) = 2 ^ k" "2 ^ k < 2 * unat x"
    using round_to_pow2_value [of x] assms by auto
  have "unat x \<le> 1073741824" using assms(2) by simp
  then have "2 ^ k < (2147483648::nat)" using k(3) by linarith
  then have "(2::nat) ^ k < 2 ^ 31" by (simp del: power_strict_increasing_iff)
  then have "k < 31" by (rule power_less_imp_less_exp [rotated]) simp
  then show ?thesis using k(2) by (auto simp: depth_ok_def intro!: exI [of _ k])
qed

lemma pad_size_value:
  assumes "unat m < 2 ^ 31 - 8"
  shows "8 dvd unat (pad_size m) \<and> unat m \<le> unat (pad_size m) \<and> unat (pad_size m) < unat m + 8"
proof -
  let ?s = "scast m :: u64"
  have "sint m = int (unat m)" using assms by (intro sint_u32_small) simp
  then have "?s = of_nat (unat m)" by (simp add: scast_eq)
  then have s: "unat ?s = unat m" using assms by (simp add: unat_of_nat take_bit_nat_eq_self)
  have r: "unat (?s mod 8) = unat m mod 8" by (simp add: unat_mod s)
  show ?thesis
  proof (cases "unat m mod 8 = 0")
    case True
    then have "?s mod 8 = 0" using r by (simp add: unat_eq_zero)
    then show ?thesis using True by (auto simp: pad_size_def Let_def)
  next
    case False
    then have ne: "?s mod 8 \<noteq> 0" using r by (metis unat_0)
    have "unat (8 - ?s mod 8) = 8 - unat m mod 8"
      by (subst unat_sub) (simp_all add: word_le_nat_alt r less_imp_le)
    then have e: "unat (?s + (8 - ?s mod 8)) = unat m + (8 - unat m mod 8)"
      using assms by (simp add: unat_word_ariths s)
    have "unat (pad_size m) = unat m + (8 - unat m mod 8)"
      using ne e assms by (simp add: pad_size_def Let_def unat_ucast_64_32)
    moreover have "8 dvd unat m + (8 - unat m mod 8)" by presburger
    ultimately show ?thesis using False by simp
  qed
qed

text \<open>
  The sizes of a queue. For every positive message size that leaves room for the
  padding, \<open>pad_size\<close> is the least multiple of 8 not below it; for every depth from 1 to 2^31,
  \<open>round_to_pow2\<close> is a power of two, at least the depth and less than twice the depth.
\<close>

theorem mq_sizes:
  assumes "unat m < 2 ^ 31 - 8" "0 < unat n" "unat n \<le> 2 ^ 31"
  shows "8 dvd unat (pad_size m) \<and> unat m \<le> unat (pad_size m) \<and> unat (pad_size m) < unat m + 8 \<and>
    (\<exists>k. unat (round_to_pow2 n) = 2 ^ k \<and> unat n \<le> 2 ^ k \<and> 2 ^ k < 2 * unat n)"
proof -
  have p: "8 dvd unat (pad_size m) \<and> unat m \<le> unat (pad_size m) \<and> unat (pad_size m) < unat m + 8"
    by (rule pad_size_value [OF assms(1)])
  show ?thesis using p round_to_pow2_value [OF assms(2,3)] by blast
qed

theorem mq_sizes_witness:
  "8 dvd unat (pad_size 13) \<and> unat (pad_size 13) < 21 \<and> (\<exists>k. unat (round_to_pow2 5) = 2 ^ k \<and> 5 \<le> (2::nat) ^ k)"
  using mq_sizes [of 13 5] by auto

section \<open>A new queue\<close>

definition mq_block :: "u64 \<Rightarrow> u32 \<Rightarrow> nat \<Rightarrow> u64" where
  "mq_block memory sz i = memory + ucast (sz * of_nat i)"

definition mq_blocks :: "u64 \<Rightarrow> u32 \<Rightarrow> nat \<Rightarrow> u64 list" where
  "mq_blocks memory sz d = map (mq_block memory sz) [0..<d]"

lemma init_Some:
  assumes "dao_message_queue_init env m n = (0, Some q, held)"
  shows "\<exists>memory. me_memory env = Some memory \<and> mq_memory q = memory \<and>
    mq_max_depth q = round_to_pow2 n \<and> mq_queue_data q = replicate (unat (round_to_pow2 n)) 0 \<and>
    mq_freelist q = mq_blocks memory (pad_size m) (unat (round_to_pow2 n)) \<and>
    mq_free_blocks q = round_to_pow2 n \<and> mq_allocpos q = 0 \<and> mq_freepos q = 0 \<and>
    mq_entries q = 0 \<and> mq_readpos q = 0 \<and> mq_writepos q = 0 \<and>
    sem_of AllocUnnamed (me_alloc_sem env) = Some (mq_a_sem q) \<and>
    sem_of QueueUnnamed (me_queue_sem env) = Some (mq_q_sem q) \<and>
    held = [RSem (mq_q_sem q), RQueueData, RSem (mq_a_sem q), RFreelist, RMemory]"
  using assms
  by (auto simp: dao_message_queue_init_def Let_def mq_blocks_def mq_block_def
      split: option.splits if_splits)

lemma init_qrep:
  assumes "dao_message_queue_init env m n = (0, Some q, held)" "0 < unat n" "unat n \<le> 2 ^ 30"
  shows "mq_qrep (unat (round_to_pow2 n)) q []"
  using init_Some [OF assms(1)] round_to_pow2_depth [OF assms(2,3)]
    depth_ok_dvd [OF round_to_pow2_depth [OF assms(2,3)]]
  by (auto simp: mq_qrep_def mq_wf_def ring_def)

lemma init_arep:
  assumes "dao_message_queue_init env m n = (0, Some q, held)" "0 < unat n" "unat n \<le> 2 ^ 30"
    and "0 \<notin> set (mq_freelist q)"
  shows "mq_arep (unat (round_to_pow2 n)) q (mq_freelist q)"
proof -
  let ?d = "unat (round_to_pow2 n)"
  have l: "length (mq_freelist q) = ?d" using init_Some [OF assms(1)] by (auto simp: mq_blocks_def)
  have "mq_freelist q ! i \<noteq> 0" if "i < ?d" for i
    using assms(4) that l by (metis nth_mem)
  then show ?thesis
    using init_Some [OF assms(1)] round_to_pow2_depth [OF assms(2,3)] l
    by (auto simp: mq_arep_def mq_wf_def ring_def)
qed

text \<open>
  C2. The queue is first-in first-out for ever. On a queue created for a depth from 1 to
  2^30, along any run of writes and reads, however long (the 32-bit positions wrap), in which no
  more than \<open>round_to_pow2\<close> of the depth messages are queued and no message is NULL, no operation
  spins, and the messages read followed by those still queued are the messages written, in order.
\<close>

theorem mq_fifo:
  assumes "dao_message_queue_init env m n = (0, Some q, held)" "0 < unat n" "unat n \<le> 2 ^ 30"
    and "queue_ok (\<lambda>xs x. length xs < unat (round_to_pow2 n) \<and> x \<noteq> 0) [] ops"
  shows "\<exists>ys. mq_qrep (unat (round_to_pow2 n)) (fst (queue_run mq_put mq_get q ops)) ys \<and>
    queue_inputs ops = snd (queue_run mq_put mq_get q ops) @ ys"
  using mq.run_fifo [OF init_qrep [OF assms(1-3)] assms(4)] by simp

definition mq_env_example :: mq_env where
  "mq_env_example = \<lparr>me_memory = Some 0x1000, me_freelist = True, me_alloc_sem = SemInit,
     me_queue_data = True, me_queue_sem = SemInit\<rparr>"

definition mq_example :: mqueue where
  "mq_example = the (fst (snd (dao_message_queue_init mq_env_example 10 2)))"

lemma mq_example_init: "\<exists>held. dao_message_queue_init mq_env_example 10 2 = (0, Some mq_example, held)"
  by (simp add: mq_example_def mq_env_example_def dao_message_queue_init_def Let_def)

lemma round_to_pow2_2: "round_to_pow2 2 = 2"
  by (simp add: round_to_pow2_def)

theorem mq_fifo_witness:
  "\<exists>ys. [7, 8, 9] = snd (queue_run mq_put mq_get mq_example [Enq 7, Enq 8, Deq, Enq 9, Deq]) @ ys"
proof -
  obtain held where h: "dao_message_queue_init mq_env_example 10 2 = (0, Some mq_example, held)"
    using mq_example_init by blast
  have "queue_ok (\<lambda>xs x. length xs < unat (round_to_pow2 2) \<and> x \<noteq> 0) [] [Enq (7 :: u64), Enq 8, Deq, Enq 9, Deq]"
    by (simp add: round_to_pow2_2)
  from mq_fifo [OF h _ _ this] show ?thesis by auto
qed

text \<open>
  C23. \<open>dao_message_queue_init\<close> either returns 0 holding exactly its three
  allocations and two semaphores, or returns -1 holding nothing, whichever step failed: the error
  path takes the call that fits the kind of the allocator's semaphore, \<open>sem_destroy\<close> when it is
  the unnamed one and \<open>sem_close\<close> when it was opened by name.
\<close>

theorem mq_init_releases:
  "case dao_message_queue_init env m n of
     (r, Some q, held) \<Rightarrow> r = 0 \<and> set held = {RMemory, RFreelist, RQueueData, RSem (mq_a_sem q), RSem (mq_q_sem q)}
   | (r, None, held) \<Rightarrow> r = - 1 \<and> held = []"
  by (cases "me_alloc_sem env"; cases "me_queue_sem env")
    (auto simp: dao_message_queue_init_def Let_def error_after_memory_def error_after_freelist_def
      error_after_alloc_sem_def error_after_queue_def split: option.splits)

text \<open>
  \<open>dao_message_queue_destroy\<close> releases the allocator's semaphore the wrong
  way: it compares its address with the queue's unnamed semaphore, so the allocator's unnamed
  semaphore (the normal case) is never destroyed but passed to \<open>sem_close\<close>, which is only for
  named ones.
\<close>

theorem mq_destroy_alloc_sem:
  assumes "dao_message_queue_init env m n = (0, Some q, held)" "me_alloc_sem env = SemInit"
  shows "SemClose AllocUnnamed \<in> set (fst (dao_message_queue_destroy q)) \<and>
    SemDestroy AllocUnnamed \<notin> set (fst (dao_message_queue_destroy q))"
proof -
  have "mq_a_sem q = AllocUnnamed" using init_Some [OF assms(1)] assms(2) by auto
  then show ?thesis by (simp add: dao_message_queue_destroy_def)
qed

theorem mq_destroy_alloc_sem_witness:
  "SemClose AllocUnnamed \<in> set (fst (dao_message_queue_destroy mq_example))"
proof -
  obtain held where h: "dao_message_queue_init mq_env_example 10 2 = (0, Some mq_example, held)"
    using mq_example_init by blast
  have "me_alloc_sem mq_env_example = SemInit" by (simp add: mq_env_example_def)
  from mq_destroy_alloc_sem [OF h this] show ?thesis by blast
qed

section \<open>The block allocator\<close>

datatype pool_op = PAlloc | PFree u64

text \<open>
  A run of one caller that keeps track of the blocks it holds and frees only those; \<open>None\<close> is an
  operation that never returns.
\<close>

fun pool_run :: "mqueue \<Rightarrow> u64 list \<Rightarrow> pool_op list \<Rightarrow> (mqueue \<times> u64 list) option" where
  "pool_run q held [] = Some (q, held)"
| "pool_run q held (PAlloc # ops) =
     (case dao_message_queue_message_alloc q of
        None \<Rightarrow> None
      | Some (rv, q') \<Rightarrow> pool_run q' (if rv = 0 then held else rv # held) ops)"
| "pool_run q held (PFree b # ops) =
     (if b \<in> set held
      then (case dao_message_queue_message_free q b of
              None \<Rightarrow> None
            | Some q' \<Rightarrow> pool_run q' (remove1 b held) ops)
      else pool_run q held ops)"

lemma pool_run_rep:
  assumes "mq_arep d q fs" "mset fs + mset held = B" "size B = d" "0 \<notin># B"
  shows "\<exists>q' fs' held'. pool_run q held ops = Some (q', held') \<and> mq_arep d q' fs' \<and> mset fs' + mset held' = B"
  using assms
proof (induction ops arbitrary: q fs held)
  case (Cons p ops)
  show ?case
  proof (cases p)
    case PAlloc
    show ?thesis
    proof (cases fs)
      case Nil
      then show ?thesis using Cons.IH [OF Cons.prems] Cons.prems(1) PAlloc alloc_rep(1) [of d q] by simp
    next
      case fs: (Cons x xs)
      obtain q' where q': "dao_message_queue_message_alloc q = Some (x, q')" "x \<noteq> 0" "mq_arep d q' xs"
        using alloc_rep(2) Cons.prems(1) fs by blast
      have "mset xs + mset (x # held) = B" using Cons.prems(2) fs by simp
      from Cons.IH [OF q'(3) this Cons.prems(3,4)] show ?thesis using PAlloc q' by simp
    qed
  next
    case (PFree b)
    show ?thesis
    proof (cases "b \<in> set held")
      case True
      have "length fs + length held = d" using arg_cong [OF Cons.prems(2), of size] Cons.prems(3) by simp
      then have "length fs < d" using length_pos_if_in_set [OF True] by linarith
      moreover have "b \<in># B" using True Cons.prems(2) by auto
      then have "b \<noteq> 0" using Cons.prems(4) by auto
      ultimately obtain q' where q': "dao_message_queue_message_free q b = Some q'" "mq_arep d q' (fs @ [b])"
        using free_rep [OF Cons.prems(1), of b] by blast
      have hb: "add_mset b (mset held - {#b#}) = mset held" using True by simp
      have "mset (fs @ [b]) + mset (remove1 b held) = mset fs + add_mset b (mset held - {#b#})" by simp
      also have "\<dots> = B" unfolding hb by (rule Cons.prems(2))
      finally have "mset (fs @ [b]) + mset (remove1 b held) = B" .
      from Cons.IH [OF q'(2) this Cons.prems(3,4)] show ?thesis using PFree True q' by simp
    next
      case False
      then show ?thesis using Cons.IH [OF Cons.prems] PFree by simp
    qed
  qed
qed auto

lemma mq_block_unat:
  assumes "unat sz * d < 2 ^ 32" "unat memory + unat sz * d < 2 ^ 64" "i < d"
  shows "unat (mq_block memory sz i) = unat memory + unat sz * i"
proof (cases "unat sz = 0")
  case True
  then have "sz = 0" by (simp add: unat_eq_zero)
  then show ?thesis by (simp add: mq_block_def)
next
  case False
  have le: "unat sz * i \<le> unat sz * d" using assms(3) by simp
  have "i \<le> unat sz * i" using False by simp
  then have "i < 2 ^ 32" using le assms(1) by linarith
  moreover have "unat sz * i < 2 ^ 32" "unat memory + unat sz * i < 2 ^ 64"
    using le assms(1,2) by linarith+
  ultimately show ?thesis
    by (simp add: mq_block_def unat_word_ariths unat_of_nat_u32 mod_less del: mult_less_cancel1)
qed

text \<open>
  C3. The block allocator hands out every block at most once at a time. On a new
  queue whose blocks fit in 32 bits of bytes, after any run of allocations and of frees of blocks
  that are held, the held blocks are different, \<open>pad_size\<close>-aligned and inside the memory that was
  allocated; the next allocation returns a fresh one unless all are held, and NULL then. No call
  spins.
\<close>

theorem mq_alloc_exclusive:
  assumes "dao_message_queue_init env m n = (0, Some q, held0)" "0 < unat n" "unat n \<le> 2 ^ 30"
    and "me_memory env = Some memory" "memory \<noteq> 0"
  defines "sz \<equiv> unat (pad_size m)" and "d \<equiv> unat (round_to_pow2 n)"
  assumes "0 < sz" "sz * d < 2 ^ 32" "unat memory + sz * d < 2 ^ 64"
  shows "\<exists>q' held. pool_run q [] ops = Some (q', held) \<and> distinct held \<and> length held \<le> d \<and>
    (\<forall>b\<in>set held. \<exists>i<d. unat b = unat memory + sz * i \<and>
       unat b + sz \<le> unat memory + unat (mq_malloc_size m n)) \<and>
    (if length held < d
     then \<exists>rv q''. dao_message_queue_message_alloc q' = Some (rv, q'') \<and> rv \<noteq> 0 \<and> rv \<notin> set held
     else dao_message_queue_message_alloc q' = Some (0, q'))"
proof -
  let ?bs = "mq_blocks memory (pad_size m) d"
  have un: "unat (mq_block memory (pad_size m) i) = unat memory + sz * i" if "i < d" for i
    using mq_block_unat [of "pad_size m" d memory i] assms(9,10) that by (simp add: sz_def)
  have fl: "mq_freelist q = ?bs" using init_Some [OF assms(1)] assms(4) by (auto simp: d_def)
  have "distinct ?bs"
    unfolding distinct_conv_nth mq_blocks_def using un assms(8)
    by (auto simp: word_unat_eq_iff)
  have m0: "0 < unat memory" using assms(5) by (simp add: unat_gt_0)
  have "0 \<notin> set ?bs"
  proof
    assume "0 \<in> set ?bs"
    then obtain i where "i < d" "mq_block memory (pad_size m) i = 0" by (auto simp: mq_blocks_def)
    then show False using un [of i] m0 by simp
  qed
  then have "mq_arep d q ?bs"
    using init_arep [OF assms(1-3)] by (simp add: fl d_def)
  from pool_run_rep [OF this, of "[]" "mset ?bs" ops] \<open>0 \<notin> set ?bs\<close> obtain q' fs held where
    r: "pool_run q [] ops = Some (q', held)" "mq_arep d q' fs" "mset fs + mset held = mset ?bs"
    by (auto simp: mq_blocks_def)
  have ds: "distinct (fs @ held)" using \<open>distinct ?bs\<close> r(3) by (metis mset_append mset_eq_imp_distinct_iff)
  have len: "length fs + length held = d" using arg_cong [OF r(3), of size] by (simp add: mq_blocks_def)
  have sub: "set held \<subseteq> set ?bs" using r(3) by (metis mset_append set_append set_mset_mset sup_ge2)
  have ms: "unat (mq_malloc_size m n) = sz * d"
    using assms(9) by (simp add: mq_malloc_size_def sz_def d_def unat_word_ariths)
  have "\<exists>i<d. unat b = unat memory + sz * i \<and> unat b + sz \<le> unat memory + unat (mq_malloc_size m n)"
    if bh: "b \<in> set held" for b
  proof -
    obtain i where i: "i < d" "b = mq_block memory (pad_size m) i" using subsetD [OF sub bh] by (auto simp: mq_blocks_def)
    have "sz * Suc i \<le> sz * d" using i(1) by (intro mult_le_mono2) simp
    then show ?thesis using i un ms by (auto intro!: exI [of _ i])
  qed
  moreover have "if length held < d
     then \<exists>rv q''. dao_message_queue_message_alloc q' = Some (rv, q'') \<and> rv \<noteq> 0 \<and> rv \<notin> set held
     else dao_message_queue_message_alloc q' = Some (0, q')"
  proof (cases fs)
    case Nil
    then show ?thesis using len alloc_rep(1) r(2) by simp
  next
    case (Cons x xs)
    then show ?thesis using len alloc_rep(2) [of d q' x xs] r(2) ds by auto
  qed
  ultimately show ?thesis using r(1) ds len by auto
qed

lemma pad_size_10: "pad_size 10 = 16"
  by (simp add: pad_size_def)

theorem mq_alloc_exclusive_witness:
  "\<exists>q' held. pool_run mq_example [] [PAlloc, PAlloc, PAlloc, PFree 0x1000, PAlloc] = Some (q', held) \<and>
     distinct held \<and> length held \<le> 2"
proof -
  obtain held where h: "dao_message_queue_init mq_env_example 10 2 = (0, Some mq_example, held)"
    using mq_example_init by blast
  have m: "me_memory mq_env_example = Some 0x1000" by (simp add: mq_env_example_def)
  from mq_alloc_exclusive [OF h _ _ m, of "[PAlloc, PAlloc, PAlloc, PFree 0x1000, PAlloc]"]
  show ?thesis by (auto simp: pad_size_10 round_to_pow2_2)
qed

text \<open>
  The size passed to \<open>malloc\<close> is a 32-bit product and nothing checks it.
  Whenever \<open>message_size * max_depth\<close> (after rounding) reaches 2^32, some block of the freelist of
  a successfully created queue extends beyond the memory that was allocated.
\<close>

theorem mq_malloc_overflow:
  assumes "dao_message_queue_init env m n = (0, Some q, held)" "me_memory env = Some memory"
    and "2 ^ 32 \<le> unat (pad_size m) * unat (round_to_pow2 n)"
  shows "\<exists>i < length (mq_freelist q). \<exists>off. mq_freelist q ! i = memory + of_nat off \<and>
    unat (mq_malloc_size m n) < off + unat (pad_size m)"
proof -
  let ?sz = "unat (pad_size m)" and ?d = "unat (round_to_pow2 n)"
  have fl: "mq_freelist q = mq_blocks memory (pad_size m) ?d" using init_Some [OF assms(1)] assms(2) by auto
  define i where "i = (2 ^ 32 - 1) div ?sz"
  have sz: "0 < ?sz" using assms(3) by (cases "?sz = 0") auto
  have i1: "?sz * i \<le> 2 ^ 32 - 1" unfolding i_def by (rule times_div_less_eq_dividend)
  have i2: "2 ^ 32 \<le> ?sz * i + ?sz"
    using dividend_less_times_div [OF sz, of "2 ^ 32 - 1"] unfolding i_def by simp
  have "?sz * i < 2 ^ 32" using i1 by simp
  then have "?sz * i < ?sz * ?d" using assms(3) by (rule less_le_trans)
  then have id: "i < ?d" by simp
  have "?sz * i < 2 ^ 32" using i1 by simp
  moreover have "i \<le> ?sz * i" using sz by simp
  ultimately have "i < 2 ^ 32" by (rule le_less_trans [rotated])
  then have "unat (pad_size m * of_nat i) = ?sz * i"
    using i1 by (simp add: unat_word_ariths unat_of_nat_u32)
  then have "ucast (pad_size m * of_nat i) = (of_nat (?sz * i) :: u64)"
    using i1 by (simp add: word_unat_eq_iff unat_of_nat take_bit_nat_eq_self del: of_nat_mult)
  then have "mq_freelist q ! i = memory + of_nat (?sz * i)"
    using id by (simp add: fl mq_blocks_def mq_block_def del: of_nat_mult)
  moreover have "unat (mq_malloc_size m n) < 2 ^ 32"
    using unsigned_less [of "pad_size m * round_to_pow2 n", where 'a = nat] by (simp add: mq_malloc_size_def)
  ultimately show ?thesis using id i2 by (intro exI [of _ i] conjI exI [of _ "?sz * i"]) (simp_all add: fl mq_blocks_def)
qed

lemma round_to_pow2_4096: "round_to_pow2 4096 = 4096"
  by (simp add: round_to_pow2_def)

theorem mq_malloc_overflow_witness:
  "\<exists>q :: mqueue. \<exists>i < length (mq_freelist q). \<exists>off. mq_freelist q ! i = 0x1000 + of_nat off \<and>
    unat (mq_malloc_size 0x100000 4096) < off + unat (pad_size 0x100000)"
proof -
  obtain q held where h: "dao_message_queue_init mq_env_example 0x100000 4096 = (0, Some q, held)"
    by (simp add: mq_env_example_def dao_message_queue_init_def Let_def)
  have m: "me_memory mq_env_example = Some 0x1000" by (simp add: mq_env_example_def)
  have "2 ^ 32 \<le> unat (pad_size 0x100000) * unat (round_to_pow2 4096)"
    by (simp add: round_to_pow2_4096 pad_size_def)
  from mq_malloc_overflow [OF h m this] show ?thesis by (rule exI)
qed

end
