(* ===== verification/MessageThreads.thy ===== *)
theory MessageThreads imports MessageQueue begin

text \<open>
  The queue of \<open>kernel/message/queue.c\<close> under interleaving. Each atomic access of
  \<open>dao_message_queue_write\<close>, \<open>dao_message_queue_tryread\<close> and \<open>dao_message_queue_read\<close>
  to the shared struct (a fetch-and-add, a load or a store of a cell, a semaphore call) is one
  step; a schedule says which thread moves next. A thread that spins on a cell or waits on a
  semaphore without a post keeps its state when it is scheduled.
\<close>

section \<open>Threads\<close>

text \<open>Who called \<open>tryread\<close>: the user, or the first, the announced or the woken try of \<open>read\<close>.\<close>

datatype rctx = CTry | CFirst | CAnnounced | CWoken

text \<open>The next access of a thread; \<open>Idle\<close> is between calls.\<close>

datatype pc =
    Idle
  | WPos u64 | WCheck u64 nat | WStore u64 nat | WCount | WSignal | WDec | WPost
  | RTake rctx | RPos rctx | RCheck rctx nat | RClear rctx nat u64 | RUndo rctx
  | RAnnounce | RRetract u64 | RWait

record mq_sys =
  ms_q :: mqueue
  ms_pc :: "nat \<Rightarrow> pc"
  ms_in :: "u64 list"
  ms_out :: "u64 list"

datatype mq_call = CallWrite u64 | CallTryread | CallRead

datatype mq_event = Begin nat mq_call | Run nat

fun call_pc :: "mq_call \<Rightarrow> pc" where
  "call_pc (CallWrite m) = WPos m"
| "call_pc CallTryread = RTake CTry"
| "call_pc CallRead = RTake CFirst"

fun call_in :: "mq_call \<Rightarrow> u64 list" where
  "call_in (CallWrite m) = [m]"
| "call_in _ = []"

text \<open>\<open>tryread\<close> returns \<open>rv\<close> to its caller; the user gets the messages in \<open>ms_out\<close>.\<close>

fun tryread_return :: "rctx \<Rightarrow> u64 \<Rightarrow> pc" where
  "tryread_return CTry rv = Idle"
| "tryread_return CFirst rv = (if rv \<noteq> 0 then Idle else RAnnounce)"
| "tryread_return CAnnounced rv = (if rv \<noteq> 0 then RRetract rv else RWait)"
| "tryread_return CWoken rv = (if rv \<noteq> 0 then Idle else RAnnounce)"

definition deliver :: "pc \<Rightarrow> u64 \<Rightarrow> u64 list" where
  "deliver p rv = (if p = Idle \<and> rv \<noteq> 0 then [rv] else [])"

definition ring_pos :: "mqueue \<Rightarrow> u32 \<Rightarrow> nat" where
  "ring_pos q p = unat (p mod mq_max_depth q)"

text \<open>One access: the new shared state, the next access, and what is handed to the user.\<close>

fun thread_step :: "mqueue \<Rightarrow> pc \<Rightarrow> mqueue \<times> pc \<times> u64 list" where
  "thread_step q Idle = (q, Idle, [])"
| "thread_step q (WPos m) = (q\<lparr>mq_writepos := mq_writepos q + 1\<rparr>, WCheck m (ring_pos q (mq_writepos q)), [])"
| "thread_step q (WCheck m p) = (q, if mq_queue_data q ! p \<noteq> 0 then WCheck m p else WStore m p, [])"
| "thread_step q (WStore m p) = (q\<lparr>mq_queue_data := (mq_queue_data q)[p := m]\<rparr>, WCount, [])"
| "thread_step q WCount = (q\<lparr>mq_entries := mq_entries q + 1\<rparr>, WSignal, [])"
| "thread_step q WSignal = (q, if mq_q_blocked q \<noteq> 0 then WDec else Idle, [])"
| "thread_step q WDec = (q\<lparr>mq_q_blocked := mq_q_blocked q - 1\<rparr>, WPost, [])"
| "thread_step q WPost = (q\<lparr>mq_q_posts := mq_q_posts q + 1\<rparr>, Idle, [])"
| "thread_step q (RTake c) =
     (q\<lparr>mq_entries := mq_entries q - 1\<rparr>, if 0 < sint (mq_entries q) then RPos c else RUndo c, [])"
| "thread_step q (RPos c) = (q\<lparr>mq_readpos := mq_readpos q + 1\<rparr>, RCheck c (ring_pos q (mq_readpos q)), [])"
| "thread_step q (RCheck c p) =
     (q, if mq_queue_data q ! p = 0 then RCheck c p else RClear c p (mq_queue_data q ! p), [])"
| "thread_step q (RClear c p rv) =
     (q\<lparr>mq_queue_data := (mq_queue_data q)[p := 0]\<rparr>, tryread_return c rv, deliver (tryread_return c rv) rv)"
| "thread_step q (RUndo c) = (q\<lparr>mq_entries := mq_entries q + 1\<rparr>, tryread_return c 0, [])"
| "thread_step q RAnnounce = (q\<lparr>mq_q_blocked := mq_q_blocked q + 1\<rparr>, RTake CAnnounced, [])"
| "thread_step q (RRetract rv) = (q\<lparr>mq_q_blocked := mq_q_blocked q - 1\<rparr>, Idle, deliver Idle rv)"
| "thread_step q RWait =
     (if mq_q_posts q = 0 then (q, RWait, [])
      else (q\<lparr>mq_q_posts := mq_q_posts q - 1\<rparr>, RTake CWoken, []))"

text \<open>A call by a thread that is inside one, and a step of an idle thread, do nothing.\<close>

fun sys_step :: "mq_sys \<Rightarrow> mq_event \<Rightarrow> mq_sys" where
  "sys_step s (Begin t c) =
     (if ms_pc s t = Idle
      then s\<lparr>ms_pc := (ms_pc s)(t := call_pc c), ms_in := ms_in s @ call_in c\<rparr> else s)"
| "sys_step s (Run t) =
     (case thread_step (ms_q s) (ms_pc s t) of
        (q, p, out) \<Rightarrow> s\<lparr>ms_q := q, ms_pc := (ms_pc s)(t := p), ms_out := ms_out s @ out\<rparr>)"

definition sys_init :: "mqueue \<Rightarrow> mq_sys" where
  "sys_init q = \<lparr>ms_q = q, ms_pc = (\<lambda>_. Idle), ms_in = [], ms_out = []\<rparr>"

definition sys_run :: "mqueue \<Rightarrow> mq_event list \<Rightarrow> mq_sys" where
  "sys_run q es = foldl sys_step (sys_init q) es"

section \<open>A lost message\<close>

definition mq4 :: mqueue where
  "mq4 = the (fst (snd (dao_message_queue_init mq_env_example 8 4)))"

definition whole_write :: "nat \<Rightarrow> u64 \<Rightarrow> mq_event list" where
  "whole_write t m = Begin t (CallWrite m) # replicate 5 (Run t)"

definition whole_read :: "nat \<Rightarrow> mq_event list" where
  "whole_read t = Begin t CallTryread # replicate 4 (Run t)"

text \<open>
  Thread 0 has found its cell empty and is delayed before the store; the ring goes round once.
\<close>

definition lost_schedule :: "mq_event list" where
  "lost_schedule =
     [Begin 0 (CallWrite 1), Run 0, Run 0] @
     whole_write 1 2 @ whole_write 1 3 @ whole_write 1 4 @
     [Begin 2 CallTryread, Run 2, Run 2] @
     whole_read 3 @ whole_read 4 @
     whole_write 5 5 @
     [Run 0, Run 0, Run 0] @
     [Run 2, Run 2] @ whole_read 3 @
     [Begin 4 CallTryread, Run 4, Run 4, Run 4]"

text \<open>
  C24. The queue is not safe for several writers and readers, although every writer
  and reader follows the protocol and there are never more messages outstanding than the ring has
  cells (as many as the allocator has blocks). On a new queue of depth 4, the schedule above writes
  the messages 1 to 5, at no time with more than 4 of them unread; message 5 is overwritten by the
  delayed message 1 and never delivered, the ring is empty, and a reader spins on an empty cell, in
  every continuation in which only it runs.
\<close>

theorem mq_lost_message:
  "let s = sys_run mq4 lost_schedule in
     list_all (\<lambda>n. length (ms_in (sys_run mq4 (take n lost_schedule))) \<le>
        length (ms_out (sys_run mq4 (take n lost_schedule))) + 4) [0..<Suc (length lost_schedule)] \<and>
     ms_in s = [1, 2, 3, 4, 5] \<and> ms_out s = [2, 3, 1, 4] \<and>
     mq_queue_data (ms_q s) = [0, 0, 0, 0] \<and>
     ms_pc s 0 = Idle \<and> ms_pc s 5 = Idle \<and>
     (\<forall>k. ms_pc (foldl sys_step s (replicate k (Run 4))) 4 = RCheck CTry 0)"
proof -
  let ?s = "sys_run mq4 lost_schedule"
  have b: "list_all (\<lambda>n. length (ms_in (sys_run mq4 (take n lost_schedule))) \<le>
        length (ms_out (sys_run mq4 (take n lost_schedule))) + 4) [0..<55]"
    by code_simp
  have l: "length lost_schedule = 54" by code_simp
  have c: "ms_in ?s = [1, 2, 3, 4, 5] \<and> ms_out ?s = [2, 3, 1, 4] \<and> mq_queue_data (ms_q ?s) = [0, 0, 0, 0] \<and>
     ms_pc ?s 0 = Idle \<and> ms_pc ?s 5 = Idle \<and> ms_pc ?s 4 = RCheck CTry 0"
    by code_simp
  have "ms_pc (foldl sys_step t (replicate k (Run 4))) 4 = RCheck CTry 0"
    if "ms_pc t 4 = RCheck CTry 0" "mq_queue_data (ms_q t) = [0, 0, 0, 0]" for t k
    using that by (induction k arbitrary: t) simp_all
  then show ?thesis using b c unfolding l Let_def by simp
qed

section \<open>One writer and one reader\<close>

text \<open>
  Thread 0 writes messages that are not NULL, thread 1 calls \<open>tryread\<close>; they interleave
  arbitrarily.
\<close>

fun spsc_event :: "mq_event \<Rightarrow> bool" where
  "spsc_event (Begin t (CallWrite m)) = (t = 0 \<and> m \<noteq> 0)"
| "spsc_event (Begin t CallTryread) = (t = 1)"
| "spsc_event (Begin t CallRead) = False"
| "spsc_event (Run t) = (t \<le> 1)"

text \<open>What the program counters of the two threads say about the counters.\<close>

fun unstored :: "pc \<Rightarrow> nat" where
  "unstored (WPos m) = 1" | "unstored (WCheck m p) = 1" | "unstored (WStore m p) = 1"
| "unstored _ = 0"

fun unclaimed :: "pc \<Rightarrow> nat" where
  "unclaimed (WPos m) = 1" | "unclaimed _ = 0"

fun uncounted :: "pc \<Rightarrow> nat" where
  "uncounted WCount = 1" | "uncounted _ = 0"

fun taken :: "pc \<Rightarrow> nat" where
  "taken (RPos c) = 1" | "taken (RCheck c p) = 1" | "taken (RClear c p v) = 1" | "taken (RUndo c) = 1"
| "taken _ = 0"

fun claimed :: "pc \<Rightarrow> nat" where
  "claimed (RCheck c p) = 1" | "claimed (RClear c p v) = 1" | "claimed _ = 0"

fun writer_ok :: "nat \<Rightarrow> u64 list \<Rightarrow> nat \<Rightarrow> nat \<Rightarrow> pc \<Rightarrow> bool" where
  "writer_ok d ins S R Idle = True"
| "writer_ok d ins S R (WPos m) = (ins ! S = m)"
| "writer_ok d ins S R (WCheck m p) = (ins ! S = m \<and> p = S mod d)"
| "writer_ok d ins S R (WStore m p) = (ins ! S = m \<and> p = S mod d \<and> S < R + d)"
| "writer_ok d ins S R WCount = (0 < S)"
| "writer_ok d ins S R WSignal = True"
| "writer_ok d ins S R _ = False"

fun reader_ok :: "nat \<Rightarrow> u64 list \<Rightarrow> nat \<Rightarrow> nat \<Rightarrow> pc \<Rightarrow> bool" where
  "reader_ok d ins C R Idle = True"
| "reader_ok d ins C R (RTake c) = (c = CTry)"
| "reader_ok d ins C R (RPos c) = (c = CTry \<and> R < C)"
| "reader_ok d ins C R (RCheck c p) = (c = CTry \<and> R < C \<and> p = R mod d)"
| "reader_ok d ins C R (RClear c p v) = (c = CTry \<and> R < C \<and> p = R mod d \<and> v = ins ! R)"
| "reader_ok d ins C R (RUndo c) = (c = CTry)"
| "reader_ok d ins C R _ = False"

definition cells_ok :: "nat \<Rightarrow> u64 list \<Rightarrow> u64 list \<Rightarrow> nat \<Rightarrow> nat \<Rightarrow> bool" where
  "cells_ok d data ins S R \<longleftrightarrow> length data = d \<and>
     (\<forall>i. R \<le> i \<and> i < S \<longrightarrow> data ! (i mod d) = ins ! i) \<and>
     (\<forall>i. S \<le> i \<and> i < R + d \<longrightarrow> data ! (i mod d) = 0)"

definition spsc_inv :: "nat \<Rightarrow> mqueue \<Rightarrow> pc \<Rightarrow> pc \<Rightarrow> u64 list \<Rightarrow> u64 list \<Rightarrow> bool" where
  "spsc_inv d q wp rp ins outs \<longleftrightarrow>
     (let R = length outs; S = length ins - unstored wp; C = S - uncounted wp in
      mq_wf d q \<and> mq_q_blocked q = 0 \<and> 0 \<notin> set ins \<and> outs = take R ins \<and>
      unstored wp \<le> length ins \<and> R \<le> C \<and> S \<le> R + d \<and>
      writer_ok d ins S R wp \<and> reader_ok d ins C R rp \<and>
      mq_writepos q = of_nat (length ins - unclaimed wp) \<and>
      mq_readpos q = of_nat (R + claimed rp) \<and>
      mq_entries q = of_nat C - of_nat (R + taken rp) \<and>
      cells_ok d (mq_queue_data q) ins S R)"

lemma ring_pos_of_nat: "mq_wf d q \<Longrightarrow> ring_pos q (of_nat n) = n mod d"
proof -
  assume "mq_wf d q"
  then have "ring_pos q (of_nat n) = unat (of_nat n :: u32) mod d"
    by (simp add: ring_pos_def mq_wf_def pos_mod)
  also have "\<dots> = n mod d"
    using pos_add [of d 0 n] depth_ok_dvd [of d] \<open>mq_wf d q\<close> by (simp add: mq_wf_def)
  finally show ?thesis .
qed

lemma mod_near:
  assumes "i mod d = j mod d" "r \<le> i" "i < r + d" "r \<le> j" "j < r + (d :: nat)"
  shows "i = j"
proof -
  have "i - r = j - r" by (rule mod_add_inj [of _ d _ r]) (use assms in simp_all)
  then show ?thesis using assms(2,4) by simp
qed

lemma cells_store:
  assumes "cells_ok d data ins S R" "S < R + d" "R \<le> S"
  shows "cells_ok d (data[S mod d := ins ! S]) ins (Suc S) R"
proof -
  have d: "0 < d" using assms(2,3) by simp
  have ne: "S mod d \<noteq> i mod d" if "R \<le> i" "i < R + d" "i \<noteq> S" for i
    using mod_near [of S d i R] that assms by auto
  have "data[S mod d := ins ! S] ! (i mod d) = ins ! i" if "R \<le> i" "i < Suc S" for i
    using assms d that ne [of i] by (cases "i = S") (simp_all add: cells_ok_def)
  moreover have "data[S mod d := ins ! S] ! (i mod d) = 0" if "Suc S \<le> i" "i < R + d" for i
    using assms that ne [of i] by (simp add: cells_ok_def)
  ultimately show ?thesis using assms(1) by (simp add: cells_ok_def)
qed

lemma cells_clear:
  assumes "cells_ok d data ins S R" "R < S" "S \<le> R + d"
  shows "cells_ok d (data[R mod d := 0]) ins S (Suc R)"
proof -
  have d: "0 < d" using assms(2,3) by simp
  have ne: "R mod d \<noteq> i mod d" if "R < i" "i < R + d" for i
    using mod_near [of R d i R] that by auto
  have "data[R mod d := 0] ! (i mod d) = 0" if "S \<le> i" "i < Suc R + d" for i
  proof (cases "i = R + d")
    case True
    then show ?thesis using assms(1) d by (simp add: cells_ok_def)
  next
    case False
    then show ?thesis using assms that ne [of i] by (simp add: cells_ok_def)
  qed
  then show ?thesis using assms ne by (auto simp: cells_ok_def)
qed

text \<open>The invariant is kept by every step.\<close>

lemma entries_sint:
  assumes "R \<le> C" "C \<le> R + d" "d < 2 ^ 31"
  shows "0 < sint (of_nat C - of_nat R :: u32) \<longleftrightarrow> R < C"
proof -
  have "(of_nat C - of_nat R :: u32) = of_nat (C - R)" using assms(1) by simp
  moreover have "unat (of_nat (C - R) :: u32) = C - R"
    using assms by (intro unat_of_nat_u32) simp
  ultimately show ?thesis using assms by (subst sint_u32_small) auto
qed

lemma cells_ok_append: "cells_ok d data ins S R \<Longrightarrow> S \<le> length ins \<Longrightarrow> cells_ok d data (ins @ xs) S R"
  by (simp add: cells_ok_def nth_append)

lemma spsc_begin_write:
  assumes "spsc_inv d q Idle rp ins outs" "m \<noteq> 0"
  shows "spsc_inv d q (WPos m) rp (ins @ [m]) outs"
proof -
  have "reader_ok d (ins @ [m]) (length ins) (length outs) rp = reader_ok d ins (length ins) (length outs) rp"
    by (cases rp) (auto simp: nth_append)
  moreover have "length outs \<le> length ins" using assms(1) by (simp add: spsc_inv_def Let_def)
  ultimately show ?thesis
    using assms cells_ok_append [of d "mq_queue_data q" ins "length ins" "length outs" "[m]"]
    by (auto simp: spsc_inv_def Let_def)
qed

lemma spsc_writer_step:
  assumes inv: "spsc_inv d q wp rp ins outs" and st: "thread_step q wp = (q', wp', out)"
  shows "spsc_inv d q' wp' rp ins (outs @ out)"
proof -
  let ?R = "length outs"
  have wf: "mq_wf d q" and d: "depth_ok d" using inv by (simp_all add: spsc_inv_def Let_def mq_wf_def)
  show ?thesis
  proof (cases wp)
    case (WPos m)
    then obtain n where "length ins = Suc n" using inv by (cases ins) (auto simp: spsc_inv_def Let_def)
    then show ?thesis
      using WPos inv st ring_pos_of_nat [OF wf] by (auto simp: spsc_inv_def Let_def mq_wf_def)
  next
    case (WCheck m p)
    let ?S = "length ins - 1"
    have "?S < ?R + d" if "mq_queue_data q ! p = 0"
    proof (rule ccontr)
      assume "\<not> ?S < ?R + d"
      then have S: "?S = ?R + d" using inv WCheck by (simp add: spsc_inv_def Let_def)
      have "0 < d" using depth_ok_dvd [OF d] by simp
      then have "mq_queue_data q ! (?R mod d) = ins ! ?R"
        using inv WCheck S by (simp add: spsc_inv_def Let_def cells_ok_def)
      moreover have "p = ?R mod d" using inv WCheck S by (simp add: spsc_inv_def Let_def)
      moreover have "?R < length ins" using S \<open>0 < d\<close> by linarith
      then have "ins ! ?R \<noteq> 0"
        using inv nth_mem [of ?R ins] by (metis spsc_inv_def)
      ultimately show False using that by simp
    qed
    then show ?thesis using inv st WCheck by (auto simp: spsc_inv_def Let_def)
  next
    case (WStore m p)
    then obtain n where n: "length ins = Suc n" using inv by (cases ins) (auto simp: spsc_inv_def Let_def)
    have "cells_ok d (mq_queue_data q) ins n ?R" "n < ?R + d" "?R \<le> n" "ins ! n = m" "p = n mod d"
      using inv WStore n by (simp_all add: spsc_inv_def Let_def)
    then have "cells_ok d ((mq_queue_data q)[p := m]) ins (Suc n) ?R" "Suc n \<le> ?R + d"
      using cells_store by auto
    then show ?thesis using WStore inv st n by (auto simp: spsc_inv_def Let_def mq_wf_def)
  next
    case WCount
    then obtain n where n: "length ins = Suc n" using inv by (cases ins) (auto simp: spsc_inv_def Let_def)
    have "reader_ok d ins n ?R rp \<Longrightarrow> reader_ok d ins (Suc n) ?R rp" by (cases rp) auto
    then show ?thesis using WCount inv st n by (auto simp: spsc_inv_def Let_def mq_wf_def)
  qed (use inv st in \<open>auto simp: spsc_inv_def Let_def mq_wf_def\<close>)
qed

lemma spsc_reader_step:
  assumes inv: "spsc_inv d q wp rp ins outs" and st: "thread_step q rp = (q', rp', out)"
  shows "spsc_inv d q' wp rp' ins (outs @ out)"
proof -
  let ?R = "length outs" let ?S = "length ins - unstored wp" let ?C = "?S - uncounted wp"
  have wf: "mq_wf d q" and d: "depth_ok d" using inv by (simp_all add: spsc_inv_def Let_def mq_wf_def)
  have RC: "?R \<le> ?C" "?C \<le> ?R + d" "?S \<le> length ins" "?C \<le> ?S"
    using inv by (auto simp: spsc_inv_def Let_def)
  show ?thesis
  proof (cases rp)
    case (RTake c)
    have "0 < sint (mq_entries q) \<longleftrightarrow> ?R < ?C"
      using entries_sint [OF RC(1,2)] depth_ok_dvd [OF d] inv RTake by (simp add: spsc_inv_def Let_def)
    then show ?thesis using RTake inv st by (auto simp: spsc_inv_def Let_def mq_wf_def)
  next
    case (RPos c)
    then show ?thesis
      using inv st ring_pos_of_nat [OF wf, of ?R] by (auto simp: spsc_inv_def Let_def mq_wf_def)
  next
    case (RCheck c p)
    then have "mq_queue_data q ! p = ins ! ?R"
      using inv RC by (auto simp: spsc_inv_def Let_def cells_ok_def)
    then show ?thesis using RCheck inv st by (auto simp: spsc_inv_def Let_def)
  next
    case (RClear c p v)
    have f: "c = CTry" "?R < ?C" "p = ?R mod d" "v = ins ! ?R" "cells_ok d (mq_queue_data q) ins ?S ?R"
       "outs = take ?R ins" "0 \<notin> set ins" "?S \<le> ?R + d"
      using inv RClear by (auto simp: spsc_inv_def Let_def)
    have "?R < length ins" using f(2) by linarith
    then have v: "v \<noteq> 0" using f(4,7) nth_mem [of ?R ins] by metis
    have "cells_ok d ((mq_queue_data q)[p := 0]) ins ?S (Suc ?R)"
      using cells_clear [OF f(5)] f RC by simp
    moreover have "outs @ [v] = take (Suc ?R) ins" using f RC by (simp add: take_Suc_conv_app_nth)
    moreover have "writer_ok d ins ?S ?R wp \<Longrightarrow> writer_ok d ins ?S (Suc ?R) wp" by (cases wp) auto
    ultimately show ?thesis using RClear inv st f(1,2) v RC
      by (auto simp: spsc_inv_def Let_def mq_wf_def deliver_def)
  qed (use inv st in \<open>auto simp: spsc_inv_def Let_def mq_wf_def deliver_def\<close>)
qed

lemma spsc_run:
  assumes "spsc_inv d (ms_q s) (ms_pc s 0) (ms_pc s 1) (ms_in s) (ms_out s)" "\<forall>e \<in> set es. spsc_event e"
  shows "spsc_inv d (ms_q (foldl sys_step s es)) (ms_pc (foldl sys_step s es) 0) (ms_pc (foldl sys_step s es) 1)
    (ms_in (foldl sys_step s es)) (ms_out (foldl sys_step s es))"
  using assms
proof (induction es arbitrary: s)
  case (Cons e es)
  have "spsc_inv d (ms_q (sys_step s e)) (ms_pc (sys_step s e) 0) (ms_pc (sys_step s e) 1)
    (ms_in (sys_step s e)) (ms_out (sys_step s e))"
  proof (cases e)
    case (Begin t c)
    then show ?thesis
      using Cons.prems spsc_begin_write [of d "ms_q s"]
      by (cases c) (auto simp: spsc_inv_def Let_def)
  next
    case (Run t)
    obtain q p out where st: "thread_step (ms_q s) (ms_pc s t) = (q, p, out)" by (metis prod_cases3)
    have "t = 0 \<or> t = 1" using Cons.prems(2) Run by auto
    then show ?thesis
      using spsc_writer_step [OF Cons.prems(1)] spsc_reader_step [OF Cons.prems(1)] st Run by auto
  qed
  then show ?case using Cons.IH [of "sys_step s e"] Cons.prems(2) by simp
qed simp

lemma spsc_idle:
  assumes "spsc_inv d q Idle Idle ins outs"
  shows "mq_qrep d q (drop (length outs) ins)"
proof -
  let ?R = "length outs" and ?rest = "drop (length outs) ins"
  have f: "mq_wf d q" "0 \<notin> set ins" "?R \<le> length ins" "length ins \<le> ?R + d"
    "mq_writepos q = of_nat (length ins)" "mq_readpos q = of_nat ?R"
    "mq_entries q = of_nat (length ins) - of_nat ?R"
    "cells_ok d (mq_queue_data q) ins (length ins) ?R"
    using assms by (auto simp: spsc_inv_def Let_def)
  have m: "unat (of_nat n :: u32) mod d = n mod d" for n
    using ring_pos_of_nat [OF f(1), of n] f(1) by (simp add: ring_pos_def mq_wf_def pos_mod)
  have rp: "(unat (mq_readpos q) + i) mod d = (?R + i) mod d" for i
    unfolding f(6) by (rule mod_add_cong [OF m refl])
  have "?rest ! i \<noteq> 0" if "i < length ?rest" for i
    using f(2) nth_mem [OF that] by (metis in_set_dropD)
  moreover have "unat (mq_writepos q) mod d = (unat (mq_readpos q) + length ?rest) mod d"
    using f(3) unfolding rp f(5) m by simp
  ultimately show ?thesis
    using f rp by (auto simp: mq_qrep_def ring_def cells_ok_def)
qed

text \<open>
  C1. With one writer (of messages that are not NULL) and one reader the lock-free queue
  is correct under every interleaving of their atomic accesses, however long, also when the 32-bit
  positions wrap and when the writer finds the ring full: the messages delivered so far are a prefix
  of the messages written, in order, at most the ring's depth and the one being written are
  outstanding, and whenever both threads are between calls the ring holds exactly the others.
\<close>

theorem mq_spsc_fifo:
  assumes "dao_message_queue_init env m n = (0, Some q, held)" "0 < unat n" "unat n \<le> 2 ^ 30"
    and "\<forall>e \<in> set es. spsc_event e"
  shows "\<exists>rest. ms_in (sys_run q es) = ms_out (sys_run q es) @ rest \<and>
    length rest \<le> Suc (unat (round_to_pow2 n)) \<and>
    (ms_pc (sys_run q es) 0 = Idle \<and> ms_pc (sys_run q es) 1 = Idle \<longrightarrow>
       mq_qrep (unat (round_to_pow2 n)) (ms_q (sys_run q es)) rest)"
proof -
  let ?d = "unat (round_to_pow2 n)" and ?s = "sys_run q es"
  have "mq_q_blocked q = 0"
    using assms(1) by (auto simp: dao_message_queue_init_def Let_def split: option.splits if_splits)
  then have "spsc_inv ?d q Idle Idle [] []"
    using init_qrep [OF assms(1-3)] init_Some [OF assms(1)]
    by (auto simp: spsc_inv_def mq_qrep_def cells_ok_def)
  then have inv: "spsc_inv ?d (ms_q ?s) (ms_pc ?s 0) (ms_pc ?s 1) (ms_in ?s) (ms_out ?s)"
    unfolding sys_run_def using assms(4) by (intro spsc_run) (simp_all add: sys_init_def)
  have u: "unstored p \<le> 1" for p by (cases p) auto
  have "ms_out ?s = take (length (ms_out ?s)) (ms_in ?s)" "length (ms_in ?s) - unstored (ms_pc ?s 0) \<le> length (ms_out ?s) + ?d"
    using inv by (simp_all add: spsc_inv_def Let_def)
  then show ?thesis
    using inv spsc_idle [of ?d "ms_q ?s" "ms_in ?s" "ms_out ?s"] u [of "ms_pc ?s 0"]
    by (intro exI [of _ "drop (length (ms_out ?s)) (ms_in ?s)"]) (auto, metis append_take_drop_id)
qed

theorem mq_spsc_fifo_witness:
  "\<exists>rest. [7, 8] = ms_out (sys_run mq_example
       [Begin 0 (CallWrite 7), Run 0, Begin 1 CallTryread, Run 0, Run 0, Run 0, Run 1, Run 0, Run 1, Run 1, Run 1,
        Begin 0 (CallWrite 8), Run 0]) @ rest"
proof -
  let ?es = "[Begin 0 (CallWrite 7), Run 0, Begin 1 CallTryread, Run 0, Run 0, Run 0, Run 1, Run 0, Run 1, Run 1, Run 1,
        Begin 0 (CallWrite 8), Run 0]"
  obtain held where h: "dao_message_queue_init mq_env_example 10 2 = (0, Some mq_example, held)"
    using mq_example_init by blast
  have "ms_in (sys_run mq_example ?es) = [7, 8]" by code_simp
  then show ?thesis using mq_spsc_fifo [OF h, of ?es] by auto
qed

end
