(* ===== verification/PhpValue.thy ===== *)
theory PhpValue imports Prelude "HOL-Library.Char_ord" begin

text \<open>
  PHP values as the C code of the extension sees them: a tagged \<open>zval\<close>, arrays as ordered lists
  of entries with keys that are integers or strings. Conversions that the PHP engine makes (a
  number to a string, a double to an integer) are parameters of the definitions that use them.
\<close>

datatype zkey = KInt u64 | KStr string

datatype zval =
    ZNull
  | ZBool bool
  | ZLong u64
  | ZDouble c_double
  | ZStr string
  | ZArr "(zkey \<times> zval) list"
  | ZObj nat

section \<open>Characters\<close>

abbreviation NUL :: char where "NUL \<equiv> CHR 0x00"

definition is_lower :: "char \<Rightarrow> bool" where
  "is_lower ch = (97 \<le> (of_char ch :: nat) \<and> (of_char ch :: nat) \<le> 122)"

definition is_upper :: "char \<Rightarrow> bool" where
  "is_upper ch = (65 \<le> (of_char ch :: nat) \<and> (of_char ch :: nat) \<le> 90)"

definition is_digit :: "char \<Rightarrow> bool" where
  "is_digit ch = (48 \<le> (of_char ch :: nat) \<and> (of_char ch :: nat) \<le> 57)"

text \<open>\<open>isalpha\<close> and \<open>isalnum\<close> in the C locale.\<close>

definition is_alpha :: "char \<Rightarrow> bool" where
  "is_alpha ch = (is_lower ch \<or> is_upper ch)"

definition is_alnum :: "char \<Rightarrow> bool" where
  "is_alnum ch = (is_alpha ch \<or> is_digit ch)"

text \<open>What \<open>s[i]\<close> reads in a zero-terminated string.\<close>

definition char_at :: "string \<Rightarrow> nat \<Rightarrow> char" where
  "char_at s i = (if i < length s then s ! i else NUL)"

lemma char_at_append [simp]:
  "char_at (xs @ ys) (length xs + i) = char_at ys i"
  by (simp add: char_at_def nth_append)

lemma char_at_Cons [simp]: "char_at (c # cs) 0 = c" "char_at (c # cs) (Suc i) = char_at cs i"
  by (simp_all add: char_at_def)

lemma char_at_suffix: "pat = pre @ c # suf \<Longrightarrow> char_at pat (length pre) = c"
  using char_at_append [of pre "c # suf" 0] by simp

text \<open>A character as a byte.\<close>

definition byte_of :: "char \<Rightarrow> u8" where
  "byte_of ch = of_nat (of_char ch)"

definition chr_of :: "u8 \<Rightarrow> char" where
  "chr_of b = char_of (unat b)"

lemma byte_of_chr_of [simp]: "byte_of (chr_of b) = b"
proof -
  have "unat b mod 256 = unat b" using unsigned_less [of b, where 'a = nat] by simp
  then show ?thesis by (simp add: byte_of_def chr_of_def)
qed

lemma chr_of_byte_of [simp]: "chr_of (byte_of c) = c"
proof -
  have "(of_char c :: nat) < 256" using mod_less_divisor [of 256 "of_char c"] by (simp only: of_char_mod_256 zero_less_numeral)
  then show ?thesis by (simp add: byte_of_def chr_of_def unat_of_nat take_bit_nat_eq_self)
qed

section \<open>Decimal digits\<close>

definition char_digit :: "char \<Rightarrow> nat" where "char_digit c = of_char c - 48"

definition dec_value :: "string \<Rightarrow> nat" where
  "dec_value s = foldl (\<lambda>v c. 10 * v + char_digit c) 0 s"

text \<open>A string that is a decimal integer is stored in an array under the integer.\<close>

definition int_key :: "string \<Rightarrow> bool" where
  "int_key s =
     (let neg = (s \<noteq> [] \<and> hd s = CHR ''-''); t = (if neg then tl s else s)
      in t \<noteq> [] \<and> list_all is_digit t \<and> (if hd t = CHR ''0'' then s = ''0'' else dec_value t < 2 ^ 63 + (if neg then 1 else 0)))"

section \<open>Truth of a value\<close>

definition str_true :: "string \<Rightarrow> bool" where
  "str_true s = (s \<noteq> [] \<and> s \<noteq> ''0'')"

definition z_true :: "zval \<Rightarrow> bool" where
  "z_true v =
     (case v of ZNull \<Rightarrow> False | ZBool b \<Rightarrow> b | ZLong n \<Rightarrow> n \<noteq> 0 | ZDouble d \<Rightarrow> d AND 0x7FFFFFFFFFFFFFFF \<noteq> 0
      | ZStr s \<Rightarrow> str_true s | ZArr xs \<Rightarrow> xs \<noteq> [] | ZObj _ \<Rightarrow> True)"

section \<open>Calls without state\<close>

fun obind :: "'a outcome \<Rightarrow> ('a \<Rightarrow> 'b outcome) \<Rightarrow> 'b outcome" where
  "obind (Ret a) f = f a"
| "obind (Throw e) f = Throw e"
| "obind Crash f = Crash"

section \<open>Arrays\<close>

text \<open>Replacing the value of a key keeps its place; a new key goes to the end.\<close>

fun arr_upd :: "'k \<Rightarrow> 'v \<Rightarrow> ('k \<times> 'v) list \<Rightarrow> ('k \<times> 'v) list" where
  "arr_upd k v [] = [(k, v)]"
| "arr_upd k v ((k', v') # xs) = (if k = k' then (k, v) # xs else (k', v') # arr_upd k v xs)"

lemma map_of_arr_upd [simp]: "map_of (arr_upd k v xs) = (map_of xs)(k \<mapsto> v)"
  by (induction xs) auto

lemma keys_arr_upd: "fst ` set (arr_upd k v xs) = insert k (fst ` set xs)"
  by (induction k v xs rule: arr_upd.induct) (simp_all add: insert_commute insert_absorb)

lemma distinct_arr_upd [simp]: "distinct (map fst xs) \<Longrightarrow> distinct (map fst (arr_upd k v xs))"
  by (induction k v xs rule: arr_upd.induct) (simp_all add: keys_arr_upd)

end
