(* ===== verification/RouterParams.thy ===== *)
theory RouterParams imports PhpValue begin

text \<open>
  The pattern language of routes, \<open>kernel/framework/router.c\<close> and \<open>kernel/framework/url.c\<close>:
  \<open>dao_extract_named_params\<close> compiles a route such as \<open>/posts/{year:[0-9]{4}}/{title}\<close> to a
  regular expression and numbers its groups, and \<open>dao_replace_paths\<close> builds a URL from the route.
  The pattern is a zero-terminated string read through a cursor; the counters are 32 bits wide.
\<close>

section \<open>Replacing one placeholder\<close>

text \<open>The scan of a name: is it invalid, and the variable before a colon.\<close>

definition name_char :: "char \<Rightarrow> bool" where
  "name_char ch = (is_alnum ch \<or> ch = CHR ''-'' \<or> ch = CHR ''_'' \<or> ch = CHR '':'')"

fun marker_scan :: "string \<Rightarrow> string \<Rightarrow> bool \<times> string option" where
  "marker_scan seen [] = (False, None)"
| "marker_scan seen (ch # rest) =
     (if ch = NUL then (True, None)
      else if seen = [] \<and> \<not> is_alpha ch then (True, None)
      else if name_char ch then
        (if ch = CHR '':'' then (False, Some seen) else marker_scan (seen @ [ch]) rest)
      else (True, None))"

text \<open>The text strictly between the marker and the cursor.\<close>

definition marker_item :: "string \<Rightarrow> nat \<Rightarrow> nat \<Rightarrow> string" where
  "marker_item pat cursor marker = take (cursor - marker - 1) (drop (marker + 1) pat)"

type_synonym route_array = "(zkey \<times> zval) list"

text \<open>The value, if any, and the next position; \<open>item\<close> is given in the named case.\<close>

definition dao_replace_marker ::
  "string option \<Rightarrow> route_array \<Rightarrow> route_array \<Rightarrow> u64 \<Rightarrow> zval option \<times> u64" where
  "dao_replace_marker named paths replacements position =
     (let (not_valid, variable) = (case named of None \<Rightarrow> (False, None) | Some item \<Rightarrow> marker_scan [] item)
      in if \<not> not_valid then
           (case map_of paths (KInt position) of
              Some zv \<Rightarrow>
                (case named of
                   Some item \<Rightarrow>
                     (map_of replacements (KStr (case variable of Some v \<Rightarrow> v | None \<Rightarrow> item)), position + 1)
                 | None \<Rightarrow>
                     (case zv of
                        ZStr s \<Rightarrow> (map_of replacements (KStr s), position + 1)
                      | _ \<Rightarrow> (None, position + 1)))
            | None \<Rightarrow> (None, position + 1))
         else (None, position))"

section \<open>Building a URL\<close>

record rp_state =
  rp_cursor :: nat
  rp_marker :: "nat option"
  rp_bracket :: u32
  rp_paren :: u32
  rp_intermediate :: u32
  rp_looking :: bool
  rp_position :: u64
  rp_out :: string

record rp_env =
  re_printable :: "zval \<Rightarrow> string"
  re_paths :: route_array
  re_replacements :: route_array

definition rp_printable :: "rp_env \<Rightarrow> zval \<Rightarrow> string" where
  "rp_printable e v = (case v of ZStr s \<Rightarrow> s | _ \<Rightarrow> re_printable e v)"

text \<open>Lines 161 to 174, 195 to 208 and 221 to 234.\<close>

definition rp_append_marker :: "rp_env \<Rightarrow> string option \<Rightarrow> rp_state \<Rightarrow> rp_state" where
  "rp_append_marker e named s =
     (let (replace, position) = dao_replace_marker named (re_paths e) (re_replacements e) (rp_position s)
      in s\<lparr>rp_position := position,
           rp_out := rp_out s @ (case replace of Some v \<Rightarrow> rp_printable e v | None \<Rightarrow> [])\<rparr>)"

text \<open>A part of the loop body falls through or goes on with the next iteration.\<close>

datatype 's flow = Fall 's | Continue 's | Fault

fun flow_then :: "'s flow \<Rightarrow> ('s \<Rightarrow> 's flow) \<Rightarrow> 's flow" where
  "flow_then (Fall s) f = f s"
| "flow_then (Continue s) f = Continue s"
| "flow_then Fault f = Fault"

definition rp_brackets :: "rp_env \<Rightarrow> string \<Rightarrow> char \<Rightarrow> rp_state \<Rightarrow> rp_state flow" where
  "rp_brackets e pat ch s =
     (if rp_paren s = 0 \<and> \<not> rp_looking s then
        if ch = CHR ''{'' then
          (let s = (if rp_bracket s = 0 then s\<lparr>rp_marker := Some (rp_cursor s), rp_intermediate := 0\<rparr> else s)
           in Fall (s\<lparr>rp_bracket := rp_bracket s + 1\<rparr>))
        else if ch = CHR ''}'' then
          (let s = s\<lparr>rp_bracket := rp_bracket s - 1\<rparr> in
           if rp_intermediate s > 0 \<and> rp_bracket s = 0 then
             (case rp_marker s of
                None \<Rightarrow> Fault
              | Some marker \<Rightarrow>
                  (let s = rp_append_marker e (Some (marker_item pat (rp_cursor s) marker)) s
                   in Continue (s\<lparr>rp_cursor := rp_cursor s + 1\<rparr>)))
           else Fall s)
        else Fall s
      else Fall s)"

definition rp_parens :: "rp_env \<Rightarrow> char \<Rightarrow> rp_state \<Rightarrow> rp_state flow" where
  "rp_parens e ch s =
     (if rp_bracket s = 0 \<and> \<not> rp_looking s then
        if ch = CHR ''('' then
          (let s = (if rp_paren s = 0 then s\<lparr>rp_marker := Some (rp_cursor s), rp_intermediate := 0\<rparr> else s)
           in Fall (s\<lparr>rp_paren := rp_paren s + 1\<rparr>))
        else if ch = CHR '')'' then
          (let s = s\<lparr>rp_paren := rp_paren s - 1\<rparr> in
           if rp_intermediate s > 0 \<and> rp_paren s = 0 then
             (let s = rp_append_marker e None s in Continue (s\<lparr>rp_cursor := rp_cursor s + 1\<rparr>))
           else Fall s)
        else Fall s
      else Fall s)"

text \<open>\<open>final\<close>: this is the last iteration. The cursor stays when a placeholder ends.\<close>

definition rp_placeholder :: "rp_env \<Rightarrow> bool \<Rightarrow> char \<Rightarrow> rp_state \<Rightarrow> rp_state flow" where
  "rp_placeholder e final ch s =
     (if rp_bracket s = 0 \<and> rp_paren s = 0 then
        if rp_looking s then
          if rp_intermediate s > 0 \<and> (\<not> is_lower ch \<or> final) then
            Continue ((rp_append_marker e None s)\<lparr>rp_looking := False\<rparr>)
          else Fall s
        else if ch = CHR '':'' then
          Fall (s\<lparr>rp_looking := True, rp_marker := Some (rp_cursor s), rp_intermediate := 0\<rparr>)
        else Fall s
      else Fall s)"

definition rp_char :: "char \<Rightarrow> rp_state \<Rightarrow> rp_state" where
  "rp_char ch s =
     (let s = (if rp_bracket s > 0 \<or> rp_paren s > 0 \<or> rp_looking s
               then s\<lparr>rp_intermediate := rp_intermediate s + 1\<rparr> else s\<lparr>rp_out := rp_out s @ [ch]\<rparr>)
      in s\<lparr>rp_cursor := rp_cursor s + 1\<rparr>)"

definition rp_body :: "rp_env \<Rightarrow> string \<Rightarrow> bool \<Rightarrow> char \<Rightarrow> rp_state \<Rightarrow> rp_state flow" where
  "rp_body e pat final ch s =
     flow_then (flow_then (flow_then (rp_brackets e pat ch s) (rp_parens e ch)) (rp_placeholder e final ch))
       (\<lambda>s. Continue (rp_char ch s))"

text \<open>The loop with its number of iterations left (\<open>Z_STRLEN_P(pattern) - i\<close>).\<close>

fun rp_loop :: "rp_env \<Rightarrow> string \<Rightarrow> nat \<Rightarrow> rp_state \<Rightarrow> rp_state option" where
  "rp_loop e pat 0 s = Some s"
| "rp_loop e pat (Suc n) s =
     (let ch = char_at pat (rp_cursor s) in
      if ch = NUL then Some s
      else case rp_body e pat (n = 0) ch s of
             Continue s' \<Rightarrow> rp_loop e pat n s'
           | Fall s' \<Rightarrow> rp_loop e pat n s'
           | Fault \<Rightarrow> None)"

definition rp_start :: "nat \<Rightarrow> rp_state" where
  "rp_start i = \<lparr>rp_cursor = i, rp_marker = None, rp_bracket = 0, rp_paren = 0, rp_intermediate = 0,
     rp_looking = False, rp_position = 1, rp_out = []\<rparr>"

definition dao_replace_paths :: "(zval \<Rightarrow> string) \<Rightarrow> zval \<Rightarrow> zval \<Rightarrow> zval \<Rightarrow> zval outcome" where
  "dao_replace_paths printable pattern paths replacements =
     (case (pattern, replacements, paths) of
        (ZStr pat, ZArr repl, ZArr ps) \<Rightarrow>
          if length pat = 0 then Ret (ZBool False)
          else
            (let i = (if pat ! 0 = CHR ''/'' then 1 else 0) in
             if ps = [] then Ret (ZStr (drop i pat))
             else case rp_loop \<lparr>re_printable = printable, re_paths = ps, re_replacements = repl\<rparr> pat
                         (length pat - i) (rp_start i) of
                    None \<Rightarrow> Crash
                  | Some s \<Rightarrow> Ret (ZStr (rp_out s)))
      | _ \<Rightarrow> Ret ZNull)"

section \<open>Compiling a route\<close>

text \<open>This scan differs from \<open>marker_scan\<close> at a zero character; it also returns the regexp.\<close>

fun param_scan :: "string \<Rightarrow> string \<Rightarrow> bool \<times> (string \<times> string) option" where
  "param_scan seen [] = (False, None)"
| "param_scan seen (ch # rest) =
     (if ch = NUL then (False, None)
      else if seen = [] \<and> \<not> is_alpha ch then (True, None)
      else if name_char ch then
        (if ch = CHR '':'' then (False, Some (seen, rest)) else param_scan (seen @ [ch]) rest)
      else (True, None))"

text \<open>Does the expression contain a parenthesis that is closed later?\<close>

fun scan_pattern :: "nat \<Rightarrow> string \<Rightarrow> nat" where
  "scan_pattern found [] = found"
| "scan_pattern found (ch # rest) =
     (if ch = NUL then found
      else if found = 0 then scan_pattern (if ch = CHR ''('' then 1 else 0) rest
      else if ch = CHR '')'' then 2
      else scan_pattern found rest)"

record np_state =
  np_cursor :: nat
  np_marker :: "nat option"
  np_bracket :: u32
  np_paren :: u32
  np_intermediate :: u32
  np_number :: u32
  np_not_valid :: bool
  np_matches :: "(string \<times> u32) list"
  np_out :: string

definition np_match :: "string \<Rightarrow> np_state \<Rightarrow> np_state" where
  "np_match name s =
     (if map_of (np_matches s) name = None then s\<lparr>np_matches := np_matches s @ [(name, np_number s)]\<rparr> else s)"

definition np_emit :: "string \<Rightarrow> np_state \<Rightarrow> np_state" where
  "np_emit t s = s\<lparr>np_out := np_out s @ t\<rparr>"

text \<open>Lines 309 to 395: one \<open>{...}\<close> is complete.\<close>

definition np_item :: "string \<Rightarrow> np_state \<Rightarrow> np_state" where
  "np_item item s =
     (let s = s\<lparr>np_number := np_number s + 1\<rparr>;
          (invalid, variable) = param_scan [] item;
          s = (if invalid then s\<lparr>np_not_valid := True\<rparr> else s);
          s = (if \<not> np_not_valid s then
                 (case variable of
                    Some (name, regexp) \<Rightarrow>
                      if length regexp > 0 then
                        np_match name
                          (np_emit (if scan_pattern 0 regexp \<noteq> 2 then ''('' @ regexp @ '')'' else regexp) s)
                      else s
                  | None \<Rightarrow> np_match item (np_emit ''([^/]*)'' s))
               else np_emit (''{'' @ item @ ''}'') s)
      in s\<lparr>np_cursor := np_cursor s + 1\<rparr>)"

definition np_brackets :: "string \<Rightarrow> char \<Rightarrow> np_state \<Rightarrow> np_state flow" where
  "np_brackets pat ch s =
     (if np_paren s = 0 then
        if ch = CHR ''{'' then
          (let s = (if np_bracket s = 0
                    then s\<lparr>np_marker := Some (np_cursor s), np_intermediate := 0, np_not_valid := False\<rparr> else s)
           in Fall (s\<lparr>np_bracket := np_bracket s + 1\<rparr>))
        else if ch = CHR ''}'' then
          (let s = s\<lparr>np_bracket := np_bracket s - 1\<rparr> in
           if np_intermediate s > 0 \<and> np_bracket s = 0 then
             (case np_marker s of
                None \<Rightarrow> Fault
              | Some marker \<Rightarrow> Continue (np_item (marker_item pat (np_cursor s) marker) s))
           else Fall s)
        else Fall s
      else Fall s)"

definition np_parens :: "char \<Rightarrow> np_state \<Rightarrow> np_state" where
  "np_parens ch s =
     (if np_bracket s = 0 then
        if ch = CHR ''('' then s\<lparr>np_paren := np_paren s + 1\<rparr>
        else if ch = CHR '')'' then
          (let s = s\<lparr>np_paren := np_paren s - 1\<rparr>
           in if np_paren s = 0 then s\<lparr>np_number := np_number s + 1\<rparr> else s)
        else s
      else s)"

definition np_char :: "char \<Rightarrow> np_state \<Rightarrow> np_state" where
  "np_char ch s =
     (let s = (if np_bracket s > 0 then s\<lparr>np_intermediate := np_intermediate s + 1\<rparr> else np_emit [ch] s)
      in s\<lparr>np_cursor := np_cursor s + 1\<rparr>)"

definition np_body :: "string \<Rightarrow> char \<Rightarrow> np_state \<Rightarrow> np_state flow" where
  "np_body pat ch s = flow_then (np_brackets pat ch s) (\<lambda>s. Continue (np_char ch (np_parens ch s)))"

fun np_loop :: "string \<Rightarrow> nat \<Rightarrow> np_state \<Rightarrow> np_state option" where
  "np_loop pat 0 s = Some s"
| "np_loop pat (Suc n) s =
     (let ch = char_at pat (np_cursor s) in
      if ch = NUL then Some s
      else case np_body pat ch s of
             Continue s' \<Rightarrow> np_loop pat n s'
           | Fall s' \<Rightarrow> np_loop pat n s'
           | Fault \<Rightarrow> None)"

definition np_start :: "(string \<times> u32) list \<Rightarrow> np_state" where
  "np_start matches = \<lparr>np_cursor = 0, np_marker = None, np_bracket = 0, np_paren = 0, np_intermediate = 0,
     np_number = 0, np_not_valid = False, np_matches = matches, np_out = []\<rparr>"

text \<open>
  The compiled pattern and the map of names; \<open>matches\<close> is updated by reference, and is \<open>None\<close> when
  it is not an array.
\<close>

definition dao_extract_named_params ::
  "zval \<Rightarrow> (string \<times> u32) list option \<Rightarrow> (zval \<times> (string \<times> u32) list option) outcome" where
  "dao_extract_named_params str matches =
     (case (str, matches) of
        (ZStr s, Some arr) \<Rightarrow>
          if length s = 0 then Ret (ZBool False, matches)
          else (case np_loop s (length s) (np_start arr) of
                  None \<Rightarrow> Crash
                | Some st \<Rightarrow> Ret (ZStr (np_out st), Some (np_matches st)))
      | _ \<Rightarrow> Ret (ZBool False, matches))"

section \<open>The route language\<close>

text \<open>A route is a list of literals, variables, variables with an expression, and groups.\<close>

datatype route_tok = RLit string | RVar string | RVarRe string string | RGroup string

fun tok_render :: "route_tok \<Rightarrow> string" where
  "tok_render (RLit s) = s"
| "tok_render (RVar n) = ''{'' @ n @ ''}''"
| "tok_render (RVarRe n re) = ''{'' @ n @ '':'' @ re @ ''}''"
| "tok_render (RGroup g) = ''('' @ g @ '')''"

definition plain :: "char \<Rightarrow> bool" where
  "plain c = (c \<noteq> NUL \<and> c \<noteq> CHR ''{'' \<and> c \<noteq> CHR ''}'' \<and> c \<noteq> CHR ''('' \<and> c \<noteq> CHR '')'')"

fun balanced :: "char \<Rightarrow> char \<Rightarrow> nat \<Rightarrow> string \<Rightarrow> bool" where
  "balanced lft rgt d [] = (d = 0)"
| "balanced lft rgt d (x # xs) =
     (x \<noteq> NUL \<and>
      (if x = lft then balanced lft rgt (Suc d) xs
       else if x = rgt then 0 < d \<and> balanced lft rgt (d - 1) xs
       else balanced lft rgt d xs))"

fun valid_name :: "string \<Rightarrow> bool" where
  "valid_name [] = False"
| "valid_name (c # cs) = (is_alpha c \<and> list_all (\<lambda>x. name_char x \<and> x \<noteq> CHR '':'') cs)"

fun tok_ok :: "route_tok \<Rightarrow> bool" where
  "tok_ok (RLit s) = list_all plain s"
| "tok_ok (RVar n) = valid_name n"
| "tok_ok (RVarRe n re) = (valid_name n \<and> re \<noteq> [] \<and> balanced (CHR ''{'') (CHR ''}'') 0 re)"
| "tok_ok (RGroup g) = balanced (CHR ''('') (CHR '')'') 0 g"

definition route_render :: "route_tok list \<Rightarrow> string" where
  "route_render ts = concat (map tok_render ts)"

lemma balanced_length: "balanced lft rgt d xs \<Longrightarrow> d \<le> length xs"
  by (induction xs arbitrary: d) (fastforce split: if_splits)+

lemma not_zero_of_nat: "0 < d \<Longrightarrow> d < 2 ^ 32 \<Longrightarrow> (of_nat d :: u32) \<noteq> 0"
  using unat_of_nat_u32 [of d] by (metis less_numeral_extra(3) unsigned_0)

lemma is_alpha_name_char:
  assumes "is_alpha c"
  shows "name_char c" "c \<noteq> NUL" "c \<noteq> CHR '':''" "c \<noteq> CHR ''{''" "c \<noteq> CHR ''}''"
  using assms
  by (auto simp: name_char_def is_alnum_def is_alpha_def is_lower_def is_upper_def)

lemma name_char_plain:
  assumes "name_char c"
  shows "c \<noteq> NUL" "c \<noteq> CHR ''{''" "c \<noteq> CHR ''}''"
  using assms
  by (auto simp: name_char_def is_alnum_def is_alpha_def is_digit_def is_lower_def is_upper_def)

lemma valid_name_balanced: "valid_name n \<Longrightarrow> balanced (CHR ''{'') (CHR ''}'') 0 n"
proof -
  have "list_all (\<lambda>x. name_char x \<and> x \<noteq> CHR '':'') cs \<Longrightarrow> balanced (CHR ''{'') (CHR ''}'') 0 cs" for cs
    by (induction cs) (auto simp: name_char_plain)
  then show "valid_name n \<Longrightarrow> ?thesis"
    by (cases n) (auto simp: is_alpha_name_char name_char_plain)
qed

lemma balanced_append:
  "balanced lft rgt d xs \<Longrightarrow> balanced lft rgt 0 ys \<Longrightarrow> balanced lft rgt d (xs @ ys)"
  by (induction xs arbitrary: d) auto

lemma balanced_colon: "balanced (CHR ''{'') (CHR ''}'') 0 re \<Longrightarrow> balanced (CHR ''{'') (CHR ''}'') 0 (CHR '':'' # re)"
  by simp

text \<open>The scans of a valid name.\<close>

lemma scan_names:
  assumes "list_all (\<lambda>x. name_char x \<and> x \<noteq> CHR '':'') n" "seen \<noteq> []"
  shows "marker_scan seen n = (False, None)" "param_scan seen n = (False, None)"
    "marker_scan seen (n @ CHR '':'' # re) = (False, Some (seen @ n))"
    "param_scan seen (n @ CHR '':'' # re) = (False, Some (seen @ n, re))"
  using assms
  by (induction n arbitrary: seen) (auto simp: name_char_plain, simp_all add: name_char_def)

lemma scan_valid:
  assumes "valid_name n"
  shows "marker_scan [] n = (False, None)" "param_scan [] n = (False, None)"
    "marker_scan [] (n @ CHR '':'' # re) = (False, Some n)"
    "param_scan [] (n @ CHR '':'' # re) = (False, Some (n, re))"
  using assms scan_names(1,2) [of "tl n" "[hd n]"] scan_names(3,4) [of "tl n" "[hd n]" re]
  by (cases n; simp add: is_alpha_name_char)+

text \<open>An expression that brings its own group.\<close>

definition has_group :: "string \<Rightarrow> bool" where
  "has_group re = (CHR '')'' \<in> set (dropWhile (\<lambda>c. c \<noteq> CHR ''('') re))"

lemma scan_pattern_has_group:
  assumes "NUL \<notin> set re"
  shows "scan_pattern 0 re = 2 \<longleftrightarrow> has_group re"
proof -
  have one: "scan_pattern 1 xs = 2 \<longleftrightarrow> CHR '')'' \<in> set xs" if "NUL \<notin> set xs" for xs
    using that by (induction xs) auto
  show ?thesis using assms by (induction re) (auto simp: has_group_def one [simplified])
qed

section \<open>Compiling a route of the language\<close>

definition np_mk ::
  "nat \<Rightarrow> nat option \<Rightarrow> u32 \<Rightarrow> u32 \<Rightarrow> u32 \<Rightarrow> u32 \<Rightarrow> bool \<Rightarrow> (string \<times> u32) list \<Rightarrow> string \<Rightarrow> np_state" where
  "np_mk k mk b p i num nv ms out = \<lparr>np_cursor = k, np_marker = mk, np_bracket = b, np_paren = p,
     np_intermediate = i, np_number = num, np_not_valid = nv, np_matches = ms, np_out = out\<rparr>"

lemmas np_defs = np_mk_def np_body_def np_brackets_def np_parens_def np_char_def np_emit_def Let_def

lemma np_plain:
  assumes "char_at pat k = c" "plain c"
  shows "np_loop pat (Suc n) (np_mk k mk 0 0 i num nv ms out) =
    np_loop pat n (np_mk (Suc k) mk 0 0 i num nv ms (out @ [c]))"
  using assms by (simp add: np_defs plain_def)

lemma np_open:
  assumes "char_at pat k = CHR ''{''"
  shows "np_loop pat (Suc n) (np_mk k mk 0 0 i num nv ms out) =
    np_loop pat n (np_mk (Suc k) (Some k) 1 0 1 num False ms out)"
  using assms by (simp add: np_defs)

lemma np_inner:
  assumes "char_at pat k = c" "c \<noteq> NUL" "b \<noteq> 0" "c = CHR ''}'' \<longrightarrow> b - 1 \<noteq> 0"
    "c = CHR ''{'' \<longrightarrow> b + 1 \<noteq> 0"
  shows "np_loop pat (Suc n) (np_mk k mk b 0 i num nv ms out) =
    np_loop pat n (np_mk (Suc k) mk (if c = CHR ''{'' then b + 1 else if c = CHR ''}'' then b - 1 else b) 0
      (i + 1) num nv ms out)"
  using assms by (auto simp: np_defs word_gt_0)

lemma np_paren:
  assumes "char_at pat k = c" "c \<noteq> NUL" "p \<noteq> 0" "c = CHR '')'' \<longrightarrow> p - 1 \<noteq> 0"
  shows "np_loop pat (Suc n) (np_mk k mk 0 p i num nv ms out) =
    np_loop pat n (np_mk (Suc k) mk 0 (if c = CHR ''('' then p + 1 else if c = CHR '')'' then p - 1 else p)
      i num nv ms (out @ [c]))"
  using assms by (auto simp: np_defs)

lemma np_paren_open:
  assumes "char_at pat k = CHR ''(''"
  shows "np_loop pat (Suc n) (np_mk k mk 0 0 i num nv ms out) =
    np_loop pat n (np_mk (Suc k) mk 0 1 i num nv ms (out @ ''(''))"
  using assms by (simp add: np_defs)

lemma np_paren_close:
  assumes "char_at pat k = CHR '')''"
  shows "np_loop pat (Suc n) (np_mk k mk 0 1 i num nv ms out) =
    np_loop pat n (np_mk (Suc k) mk 0 0 i (num + 1) nv ms (out @ '')''))"
  using assms by (simp add: np_defs)

lemma np_close:
  assumes "char_at pat k = CHR ''}''" "i \<noteq> 0"
  shows "np_loop pat (Suc n) (np_mk k (Some m) 1 0 i num nv ms out) =
    np_loop pat n (np_item (marker_item pat k m) (np_mk k (Some m) 0 0 i num nv ms out))"
  using assms by (simp add: np_defs word_neq_0_conv)

declare np_loop.simps(2) [simp del]

text \<open>Runs of characters, inside braces and inside parentheses.\<close>

lemma np_braces:
  assumes "pat = pre @ re @ suf" "balanced (CHR ''{'') (CHR ''}'') d re" "Suc d + length re < 2 ^ 32"
  shows "np_loop pat (length re + n) (np_mk (length pre) mk (of_nat (Suc d)) 0 i num nv ms out) =
    np_loop pat n (np_mk (length pre + length re) mk 1 0 (i + of_nat (length re)) num nv ms out)"
  using assms
proof (induction re arbitrary: pre d i)
  case (Cons c re)
  have c: "char_at pat (length pre) = c" using char_at_suffix [of pat pre c] Cons.prems(1) by simp
  have nz: "(of_nat (Suc d) :: u32) \<noteq> 0" using not_zero_of_nat [of "Suc d"] Cons.prems(3) by simp
  have d1: "c = CHR ''}'' \<longrightarrow> (of_nat (Suc d) - 1 :: u32) \<noteq> 0"
    using not_zero_of_nat [of d] Cons.prems(2,3) by auto
  have d2: "c = CHR ''{'' \<longrightarrow> (of_nat (Suc d) + 1 :: u32) \<noteq> 0"
    using not_zero_of_nat [of "Suc (Suc d)"] Cons.prems(3) by (simp add: add.commute)
  let ?d = "if c = CHR ''{'' then Suc d else if c = CHR ''}'' then d - 1 else d"
  have "balanced (CHR ''{'') (CHR ''}'') ?d re" "c \<noteq> NUL" "Suc ?d + length re < 2 ^ 32"
    "(if c = CHR ''{'' then of_nat (Suc d) + 1 else if c = CHR ''}'' then of_nat (Suc d) - 1 else of_nat (Suc d))
      = (of_nat (Suc ?d) :: u32)"
    using Cons.prems(2,3) by auto
  then show ?case
    using np_inner [OF c _ nz d1 d2, of "length re + n"] Cons.IH [of "pre @ [c]" ?d "i + 1"] Cons.prems(1)
    by (simp add: add.assoc)
qed simp

lemma np_group:
  assumes "pat = pre @ g @ suf" "balanced (CHR ''('') (CHR '')'') d g" "Suc d + length g < 2 ^ 32"
  shows "np_loop pat (length g + n) (np_mk (length pre) mk 0 (of_nat (Suc d)) i num nv ms out) =
    np_loop pat n (np_mk (length pre + length g) mk 0 1 i num nv ms (out @ g))"
  using assms
proof (induction g arbitrary: pre d out)
  case (Cons c g)
  have c: "char_at pat (length pre) = c" using char_at_suffix [of pat pre c] Cons.prems(1) by simp
  have nz: "(of_nat (Suc d) :: u32) \<noteq> 0" using not_zero_of_nat [of "Suc d"] Cons.prems(3) by simp
  have d1: "c = CHR '')'' \<longrightarrow> (of_nat (Suc d) - 1 :: u32) \<noteq> 0"
    using not_zero_of_nat [of d] Cons.prems(2,3) by auto
  let ?d = "if c = CHR ''('' then Suc d else if c = CHR '')'' then d - 1 else d"
  have "balanced (CHR ''('') (CHR '')'') ?d g" "c \<noteq> NUL" "Suc ?d + length g < 2 ^ 32"
    "(if c = CHR ''('' then of_nat (Suc d) + 1 else if c = CHR '')'' then of_nat (Suc d) - 1 else of_nat (Suc d))
      = (of_nat (Suc ?d) :: u32)"
    using Cons.prems(2,3) by auto
  then show ?case
    using np_paren [OF c _ nz d1, of "length g + n"] Cons.IH [of "pre @ [c]" ?d "out @ [c]"] Cons.prems(1)
    by simp
qed simp

lemma marker_item_middle: "pat = pre @ c # item @ suf \<Longrightarrow> marker_item pat (Suc (length pre + length item)) (length pre) = item"
  by (simp add: marker_item_def)

lemma np_braced:
  assumes "pat = pre @ CHR ''{'' # item @ CHR ''}'' # suf" "balanced (CHR ''{'') (CHR ''}'') 0 item"
    "Suc (length item) < 2 ^ 32"
  shows "\<exists>i. np_loop pat (length item + 2 + n) (np_mk (length pre) mk 0 0 j num nv ms out) =
    np_loop pat n (np_item item (np_mk (Suc (length pre + length item)) (Some (length pre)) 0 0 i num False ms out))"
proof -
  let ?pre = "pre @ ''{''" and ?i = "1 + of_nat (length item) :: u32"
  have o: "char_at pat (length pre) = CHR ''{''" using assms(1) char_at_suffix by blast
  have c: "char_at pat (length (?pre @ item)) = CHR ''}''" using assms(1) by (intro char_at_suffix) simp
  have nz: "?i \<noteq> 0" using not_zero_of_nat [of "Suc (length item)"] assms(3) by simp
  have "np_loop pat (Suc (length item + Suc n)) (np_mk (length pre) mk 0 0 j num nv ms out) =
    np_loop pat (Suc n) (np_mk (length ?pre + length item) (Some (length pre)) 1 0 ?i num False ms out)"
    using np_open [OF o] np_braces [of pat ?pre item "CHR ''}'' # suf" 0 "Suc n"] assms by simp
  also have "\<dots> = np_loop pat n (np_item item
      (np_mk (Suc (length pre + length item)) (Some (length pre)) 0 0 ?i num False ms out))"
    using np_close [of pat "length ?pre + length item" ?i] c nz marker_item_middle [OF assms(1)] by simp
  finally show ?thesis by (intro exI [of _ ?i]) simp
qed

text \<open>What a token is compiled to, and the names with the numbers that the code counts.\<close>

fun tok_regexp :: "route_tok \<Rightarrow> string" where
  "tok_regexp (RLit s) = s"
| "tok_regexp (RVar n) = ''([^/]*)''"
| "tok_regexp (RVarRe n re) = (if has_group re then re else ''('' @ re @ '')'')"
| "tok_regexp (RGroup g) = ''('' @ g @ '')''"

fun counted_names :: "nat \<Rightarrow> route_tok list \<Rightarrow> (string \<times> u32) list" where
  "counted_names k [] = []"
| "counted_names k (RLit s # ts) = counted_names k ts"
| "counted_names k (RVar n # ts) = (n, of_nat (Suc k)) # counted_names (Suc k) ts"
| "counted_names k (RVarRe n re # ts) = (n, of_nat (Suc k)) # counted_names (Suc k) ts"
| "counted_names k (RGroup g # ts) = counted_names (Suc k) ts"

fun tok_groups :: "route_tok \<Rightarrow> nat" where
  "tok_groups (RLit s) = 0"
| "tok_groups _ = 1"

definition add_match :: "string \<Rightarrow> u32 \<Rightarrow> (string \<times> u32) list \<Rightarrow> (string \<times> u32) list" where
  "add_match n v ms = (if map_of ms n = None then ms @ [(n, v)] else ms)"

lemma np_item_plain:
  assumes "valid_name n"
  shows "np_item n (np_mk k mk 0 0 i num False ms out) =
    np_mk (Suc k) mk 0 0 i (num + 1) False (add_match n (num + 1) ms) (out @ ''([^/]*)'')"
  using scan_valid(2) [OF assms] by (simp add: np_item_def np_match_def np_emit_def np_mk_def add_match_def)

lemma balanced_no_NUL: "balanced lft rgt d xs \<Longrightarrow> NUL \<notin> set xs"
  by (induction xs arbitrary: d) (auto split: if_splits)

lemma np_item_regexp:
  assumes "valid_name n" "re \<noteq> []" "balanced (CHR ''{'') (CHR ''}'') 0 re"
  shows "np_item (n @ CHR '':'' # re) (np_mk k mk 0 0 i num False ms out) =
    np_mk (Suc k) mk 0 0 i (num + 1) False (add_match n (num + 1) ms) (out @ tok_regexp (RVarRe n re))"
  using scan_valid(4) [OF assms(1), of re] assms(2) scan_pattern_has_group [OF balanced_no_NUL [OF assms(3)]]
  by (simp add: np_item_def np_match_def np_emit_def np_mk_def add_match_def)

text \<open>One token, and a whole route.\<close>

fun tok_match :: "nat \<Rightarrow> route_tok \<Rightarrow> (string \<times> u32) list \<Rightarrow> (string \<times> u32) list" where
  "tok_match k (RVar n) ms = add_match n (of_nat (Suc k)) ms"
| "tok_match k (RVarRe n re) ms = add_match n (of_nat (Suc k)) ms"
| "tok_match k _ ms = ms"

lemma np_literal:
  assumes "pat = pre @ s @ suf" "list_all plain s"
  shows "np_loop pat (length s + n) (np_mk (length pre) mk 0 0 i num nv ms out) =
    np_loop pat n (np_mk (length pre + length s) mk 0 0 i num nv ms (out @ s))"
  using assms
proof (induction s arbitrary: pre out)
  case (Cons c s)
  have "char_at pat (length pre) = c" using char_at_suffix [of pat pre c] Cons.prems(1) by simp
  then show ?case
    using np_plain [of pat "length pre" c] Cons.IH [of "pre @ [c]" "out @ [c]"] Cons.prems by simp
qed simp

lemma np_token:
  assumes "pat = pre @ tok_render t @ suf" "tok_ok t" "length (tok_render t) < 2 ^ 31"
  shows "\<exists>mk' i' nv'. np_loop pat (length (tok_render t) + n) (np_mk (length pre) mk 0 0 i (of_nat k) nv ms out) =
    np_loop pat n (np_mk (length pre + length (tok_render t)) mk' 0 0 i' (of_nat (k + tok_groups t)) nv'
      (tok_match k t ms) (out @ tok_regexp t))"
proof (cases t)
  case (RLit s)
  then show ?thesis using np_literal [of pat pre s suf n] assms by auto
next
  case (RVar v)
  obtain i' where "np_loop pat (length v + 2 + n) (np_mk (length pre) mk 0 0 i (of_nat k) nv ms out) =
    np_loop pat n (np_item v (np_mk (Suc (length pre + length v)) (Some (length pre)) 0 0 i' (of_nat k) False ms out))"
    using np_braced [of pat pre v suf n mk i "of_nat k" nv ms out] RVar assms valid_name_balanced by auto
  then show ?thesis
    using RVar assms(2) np_item_plain [of v]
    by (intro exI [of _ "Some (length pre)"] exI [of _ i'] exI [of _ False]) (simp add: add.commute)
next
  case (RVarRe v re)
  let ?item = "v @ CHR '':'' # re"
  have "balanced (CHR ''{'') (CHR ''}'') 0 ?item"
    using RVarRe assms(2) valid_name_balanced balanced_append by simp
  then obtain i' where "np_loop pat (length ?item + 2 + n) (np_mk (length pre) mk 0 0 i (of_nat k) nv ms out) =
    np_loop pat n (np_item ?item (np_mk (Suc (length pre + length ?item)) (Some (length pre)) 0 0 i' (of_nat k) False ms out))"
    using np_braced [of pat pre ?item suf n mk i "of_nat k" nv ms out] RVarRe assms by auto
  then show ?thesis
    using RVarRe assms(2) np_item_regexp [of v re]
    by (intro exI [of _ "Some (length pre)"] exI [of _ i'] exI [of _ False]) (simp add: add.commute)
next
  case (RGroup g)
  have o: "char_at pat (length pre) = CHR ''(''" using RGroup assms(1) char_at_suffix [of pat pre "CHR ''(''"] by simp
  have c: "char_at pat (length (pre @ ''('' @ g)) = CHR '')''"
    by (rule char_at_suffix) (use RGroup assms(1) in simp)
  show ?thesis
    using np_paren_open [OF o, of "length g + Suc n"] np_paren_close [of pat "length pre + Suc (length g)"] c
      np_group [of pat "pre @ ''(''" g "CHR '')'' # suf" 0 "Suc n"] RGroup assms
    by (intro exI [of _ mk] exI [of _ i] exI [of _ nv]) (simp add: add.commute)
qed

lemma np_tokens:
  assumes "pat = pre @ route_render ts @ suf" "list_all tok_ok ts" "length pat < 2 ^ 31"
  shows "\<exists>mk' i' nv'. np_loop pat (length (route_render ts) + n) (np_mk (length pre) mk 0 0 i (of_nat k) nv ms out) =
    np_loop pat n (np_mk (length pre + length (route_render ts)) mk' 0 0 i' (of_nat (k + sum_list (map tok_groups ts))) nv'
      (snd (foldl (\<lambda>(k, ms) t. (k + tok_groups t, tok_match k t ms)) (k, ms) ts))
      (out @ concat (map tok_regexp ts)))"
  using assms
proof (induction ts arbitrary: pre mk i k nv ms out)
  case (Cons t ts)
  let ?rest = "route_render ts"
  have r: "route_render (t # ts) = tok_render t @ ?rest" by (simp add: route_render_def)
  obtain mk1 i1 nv1 where 1: "np_loop pat (length (tok_render t) + (length ?rest + n))
      (np_mk (length pre) mk 0 0 i (of_nat k) nv ms out) =
    np_loop pat (length ?rest + n) (np_mk (length pre + length (tok_render t)) mk1 0 0 i1
      (of_nat (k + tok_groups t)) nv1 (tok_match k t ms) (out @ tok_regexp t))"
    using np_token [of pat pre t "?rest @ suf" "length ?rest + n"] Cons.prems r by fastforce
  have "pat = (pre @ tok_render t) @ ?rest @ suf" using Cons.prems(1) r by simp
  from Cons.IH [OF this, of mk1 i1 "k + tok_groups t" nv1 "tok_match k t ms" "out @ tok_regexp t"] Cons.prems(2,3)
  obtain mk2 i2 nv2 where "np_loop pat (length ?rest + n) (np_mk (length pre + length (tok_render t)) mk1 0 0 i1
      (of_nat (k + tok_groups t)) nv1 (tok_match k t ms) (out @ tok_regexp t)) =
    np_loop pat n (np_mk (length pre + length (tok_render t) + length ?rest) mk2 0 0 i2
      (of_nat (k + tok_groups t + sum_list (map tok_groups ts))) nv2
      (snd (foldl (\<lambda>(k, ms) t. (k + tok_groups t, tok_match k t ms)) (k + tok_groups t, tok_match k t ms) ts))
      (out @ tok_regexp t @ concat (map tok_regexp ts)))" by auto
  with 1 show ?case unfolding r by (intro exI [of _ mk2] exI [of _ i2] exI [of _ nv2]) (simp add: add.assoc)
qed (auto simp: route_render_def)

lemma foldl_matches:
  "map_of (snd (foldl (\<lambda>(k, ms) t. (k + tok_groups t, tok_match k t ms)) (k, ms) ts)) =
     map_of (counted_names k ts) ++ map_of ms"
proof (induction ts arbitrary: k ms)
  case (Cons t ts)
  have a: "map_of (add_match n v ms) = (case map_of ms n of None \<Rightarrow> (map_of ms)(n \<mapsto> v) | Some _ \<Rightarrow> map_of ms)"
    for n v and ms :: "(string \<times> u32) list"
    by (auto simp: add_match_def fun_eq_iff map_add_def split: option.splits)
  show ?case
    by (cases t) (auto simp: Cons.IH a fun_eq_iff map_add_def split: option.splits)
qed simp

text \<open>
  The number that the regular expression library gives to a group: one more than the number of
  groups opened before it in the compiled pattern. The scan knows escapes and character classes;
  the constructs \<open>(?...)\<close> and \<open>(*...)\<close>, \<open>\Q\<close>, and a class with a bracket in it lead to \<open>ReOther\<close>,
  which it does not leave.
\<close>

datatype regex_pos = ReText | ReEscape | ReOpen | ReClass bool | ReClassEscape | ReOther

fun regex_step :: "regex_pos \<times> nat \<Rightarrow> char \<Rightarrow> regex_pos \<times> nat" where
  "regex_step (ReEscape, n) c = (if c = CHR ''Q'' then ReOther else ReText, n)"
| "regex_step (ReClassEscape, n) c = (if c = CHR ''Q'' then ReOther else ReClass False, n)"
| "regex_step (ReClass start, n) c =
     (if c = CHR 0x5C then ReClassEscape
      else if c = CHR ''['' then ReOther
      else if c = CHR ''^'' \<and> start then ReClass True
      else if c = CHR '']'' then (if start then ReOther else ReText)
      else ReClass False, n)"
| "regex_step (ReOther, n) c = (ReOther, n)"
| "regex_step (pos, n) c =
     (if pos = ReOpen \<and> (c = CHR ''?'' \<or> c = CHR ''*'') then (ReOther, n)
      else (if c = CHR 0x5C then ReEscape
            else if c = CHR ''['' then ReClass True
            else if c = CHR ''('' then ReOpen
            else ReText,
            if c = CHR ''('' then Suc n else n))"

definition regex_scan :: "regex_pos \<times> nat \<Rightarrow> string \<Rightarrow> regex_pos \<times> nat" where
  "regex_scan = foldl regex_step"

fun tok_name :: "route_tok \<Rightarrow> string option" where
  "tok_name (RVar n) = Some n"
| "tok_name (RVarRe n re) = Some n"
| "tok_name _ = None"

text \<open>The number of the group that belongs to the first token of a name.\<close>

fun group_of :: "string \<Rightarrow> string \<Rightarrow> route_tok list \<Rightarrow> nat option" where
  "group_of name compiled [] = None"
| "group_of name compiled (t # ts) =
     (if tok_name t = Some name then Some (Suc (snd (regex_scan (ReText, 0) compiled)))
      else group_of name (compiled @ tok_regexp t) ts)"

text \<open>A token that opens no group but its own.\<close>

definition one_group :: "route_tok \<Rightarrow> bool" where
  "one_group t = (regex_scan (ReText, 0) (tok_regexp t) = (ReText, tok_groups t))"

lemma regex_step_add: "regex_step (p, k + n) c = (fst (regex_step (p, n) c), k + snd (regex_step (p, n) c))"
  by (cases p) auto

lemma regex_scan_add: "regex_scan (p, k + n) s = (fst (regex_scan (p, n) s), k + snd (regex_scan (p, n) s))"
proof (induction s arbitrary: p n)
  case (Cons c s)
  show ?case
    using Cons.IH [of "fst (regex_step (p, n) c)" "snd (regex_step (p, n) c)"] regex_step_add [of p k n c]
    by (simp add: regex_scan_def)
qed (simp add: regex_scan_def)

lemma counted_names_groups:
  assumes "list_all one_group ts" "regex_scan (ReText, 0) compiled = (ReText, k)"
  shows "map_of (counted_names k ts) name = map_option of_nat (group_of name compiled ts)"
  using assms
proof (induction ts arbitrary: k compiled)
  case (Cons t ts)
  have "regex_scan (ReText, 0) (compiled @ tok_regexp t) = regex_scan (ReText, k + 0) (tok_regexp t)"
    using Cons.prems(2) by (simp add: regex_scan_def)
  also have "\<dots> = (ReText, k + tok_groups t)"
    using Cons.prems(1) by (subst regex_scan_add) (simp add: one_group_def)
  finally have "map_of (counted_names (k + tok_groups t) ts) name =
      map_option of_nat (group_of name (compiled @ tok_regexp t) ts)"
    using Cons.IH Cons.prems(1) by simp
  then show ?case using Cons.prems(2) by (cases t) auto
qed simp

text \<open>
  C27. Every route of the language, a non-empty sequence of literals, variables
  \<open>{name}\<close>, variables with an expression \<open>{name:regexp}\<close> (which may contain balanced braces) and
  groups, shorter than 2^31 characters, is compiled to the concatenation of what its tokens stand
  for; and when every variable and every group of the route opens exactly one group of the
  compiled pattern (no groups within groups, which the code miscounts), the names that were added
  to the empty array are exactly those of the variables, each mapped to the number of its group
  in the compiled pattern (of the first one, if a name is used twice).
\<close>

theorem extract_named_params:
  assumes "list_all tok_ok ts" "route_render ts \<noteq> []" "length (route_render ts) < 2 ^ 31"
  shows "\<exists>ms. dao_extract_named_params (ZStr (route_render ts)) (Some []) =
      Ret (ZStr (concat (map tok_regexp ts)), Some ms) \<and>
      (list_all one_group ts \<longrightarrow> (\<forall>name. map_of ms name = map_option of_nat (group_of name [] ts)))"
proof -
  let ?pat = "route_render ts"
  have "map_of (counted_names 0 ts) name = map_option of_nat (group_of name [] ts)" if "list_all one_group ts" for name
    using counted_names_groups [OF that, of "[]" 0] by (simp add: regex_scan_def)
  then show ?thesis
    using np_tokens [of ?pat "[]" ts "[]" 0 None 0 0 False "[]" "[]"] foldl_matches [of 0 "[]" ts] assms
    unfolding dao_extract_named_params_def by (auto simp: np_start_def np_mk_def)
qed

theorem extract_named_params_witness:
  "\<exists>ms. dao_extract_named_params (ZStr ''/posts/{year:[0-9]{4}}/{title}(/more)'') (Some []) =
      Ret (ZStr ''/posts/([0-9]{4})/([^/]*)(/more)'', Some ms) \<and> map_of ms ''title'' = Some 2"
proof -
  let ?ts = "[RLit ''/posts/'', RVarRe ''year'' ''[0-9]{4}'', RLit ''/'', RVar ''title'', RGroup ''/more'']"
  have "list_all tok_ok ?ts" by code_simp
  moreover have "list_all one_group ?ts" by code_simp
  moreover have "group_of ''title'' [] ?ts = Some 2" by code_simp
  moreover have "route_render ?ts = ''/posts/{year:[0-9]{4}}/{title}(/more)''"
    "concat (map tok_regexp ?ts) = ''/posts/([0-9]{4})/([^/]*)(/more)''" by code_simp+
  ultimately show ?thesis using extract_named_params [of ?ts] by auto
qed

section \<open>Building a URL from a route of the language\<close>

definition rp_mk ::
  "nat \<Rightarrow> nat option \<Rightarrow> u32 \<Rightarrow> u32 \<Rightarrow> u32 \<Rightarrow> bool \<Rightarrow> u64 \<Rightarrow> string \<Rightarrow> rp_state" where
  "rp_mk k mk b p i look pos out = \<lparr>rp_cursor = k, rp_marker = mk, rp_bracket = b, rp_paren = p,
     rp_intermediate = i, rp_looking = look, rp_position = pos, rp_out = out\<rparr>"

lemmas rp_defs = rp_mk_def rp_body_def rp_brackets_def rp_parens_def rp_placeholder_def rp_char_def Let_def

lemma rp_plain:
  assumes "char_at pat k = c" "plain c" "c \<noteq> CHR '':''"
  shows "rp_loop e pat (Suc n) (rp_mk k mk 0 0 i False pos out) =
    rp_loop e pat n (rp_mk (Suc k) mk 0 0 i False pos (out @ [c]))"
  using assms by (simp add: rp_defs plain_def)

lemma rp_open:
  assumes "char_at pat k = CHR ''{''"
  shows "rp_loop e pat (Suc n) (rp_mk k mk 0 0 i False pos out) =
    rp_loop e pat n (rp_mk (Suc k) (Some k) 1 0 1 False pos out)"
  using assms by (simp add: rp_defs)

lemma rp_inner:
  assumes "char_at pat k = c" "c \<noteq> NUL" "b \<noteq> 0" "c = CHR ''}'' \<longrightarrow> b - 1 \<noteq> 0"
    "c = CHR ''{'' \<longrightarrow> b + 1 \<noteq> 0"
  shows "rp_loop e pat (Suc n) (rp_mk k mk b 0 i False pos out) =
    rp_loop e pat n (rp_mk (Suc k) mk (if c = CHR ''{'' then b + 1 else if c = CHR ''}'' then b - 1 else b) 0
      (i + 1) False pos out)"
  using assms by (auto simp: rp_defs word_gt_0)

lemma rp_paren_open:
  assumes "char_at pat k = CHR ''(''"
  shows "rp_loop e pat (Suc n) (rp_mk k mk 0 0 i False pos out) =
    rp_loop e pat n (rp_mk (Suc k) (Some k) 0 1 1 False pos out)"
  using assms by (simp add: rp_defs)

lemma rp_paren_inner:
  assumes "char_at pat k = c" "c \<noteq> NUL" "p \<noteq> 0" "c = CHR '')'' \<longrightarrow> p - 1 \<noteq> 0"
    "c = CHR ''('' \<longrightarrow> p + 1 \<noteq> 0"
  shows "rp_loop e pat (Suc n) (rp_mk k mk 0 p i False pos out) =
    rp_loop e pat n (rp_mk (Suc k) mk 0 (if c = CHR ''('' then p + 1 else if c = CHR '')'' then p - 1 else p)
      (i + 1) False pos out)"
  using assms by (auto simp: rp_defs word_gt_0)

lemma rp_close:
  assumes "char_at pat k = CHR ''}''" "i \<noteq> 0"
  shows "rp_loop e pat (Suc n) (rp_mk k (Some m) 1 0 i False pos out) =
    rp_loop e pat n ((rp_append_marker e (Some (marker_item pat k m)) (rp_mk k (Some m) 0 0 i False pos out))
      \<lparr>rp_cursor := Suc k\<rparr>)"
  using assms by (simp add: rp_defs word_neq_0_conv rp_append_marker_def split: prod.splits)

lemma rp_paren_close:
  assumes "char_at pat k = CHR '')''" "i \<noteq> 0"
  shows "rp_loop e pat (Suc n) (rp_mk k mk 0 1 i False pos out) =
    rp_loop e pat n ((rp_append_marker e None (rp_mk k mk 0 0 i False pos out))\<lparr>rp_cursor := Suc k\<rparr>)"
  using assms by (simp add: rp_defs word_neq_0_conv rp_append_marker_def split: prod.splits)

declare rp_loop.simps(2) [simp del]

text \<open>The rules for braces and for parentheses as one induction.\<close>

lemma depth_words:
  assumes "balanced lft rgt d (c # xs)" "lft \<noteq> rgt" "Suc d + length (c # xs) < 2 ^ 32"
  shows "(of_nat (Suc d) :: u32) \<noteq> 0" "c = rgt \<longrightarrow> (of_nat (Suc d) - 1 :: u32) \<noteq> 0"
    "c = lft \<longrightarrow> (of_nat (Suc d) + 1 :: u32) \<noteq> 0"
    "\<exists>d'. balanced lft rgt d' xs \<and> Suc d' + length xs < 2 ^ 32 \<and>
       (if c = lft then of_nat (Suc d) + 1 else if c = rgt then of_nat (Suc d) - 1 else of_nat (Suc d)) =
         (of_nat (Suc d') :: u32)"
proof -
  show "(of_nat (Suc d) :: u32) \<noteq> 0" using not_zero_of_nat [of "Suc d"] assms(3) by simp
  show "c = rgt \<longrightarrow> (of_nat (Suc d) - 1 :: u32) \<noteq> 0"
    using not_zero_of_nat [of d] assms by auto
  show "c = lft \<longrightarrow> (of_nat (Suc d) + 1 :: u32) \<noteq> 0"
    using not_zero_of_nat [of "Suc (Suc d)"] assms(3) by (simp add: add.commute)
  show "\<exists>d'. balanced lft rgt d' xs \<and> Suc d' + length xs < 2 ^ 32 \<and>
       (if c = lft then of_nat (Suc d) + 1 else if c = rgt then of_nat (Suc d) - 1 else of_nat (Suc d)) =
         (of_nat (Suc d') :: u32)"
    by (intro exI [of _ "if c = lft then Suc d else if c = rgt then d - 1 else d"]) (use assms in auto)
qed

lemma rp_run:
  fixes step :: "u32 \<Rightarrow> u32 \<Rightarrow> nat \<Rightarrow> rp_state"
  assumes step: "\<And>k c b i n. char_at pat k = c \<Longrightarrow> c \<noteq> NUL \<Longrightarrow> b \<noteq> 0 \<Longrightarrow> c = rgt \<longrightarrow> b - 1 \<noteq> 0 \<Longrightarrow>
      c = lft \<longrightarrow> b + 1 \<noteq> 0 \<Longrightarrow> rp_loop e pat (Suc n) (step b i k) =
      rp_loop e pat n (step (if c = lft then b + 1 else if c = rgt then b - 1 else b) (i + 1) (Suc k))"
    and "lft \<noteq> rgt"
    and "pat = pre @ xs @ suf" "balanced lft rgt d xs" "Suc d + length xs < 2 ^ 32"
  shows "rp_loop e pat (length xs + n) (step (of_nat (Suc d)) i (length pre)) =
    rp_loop e pat n (step 1 (i + of_nat (length xs)) (length pre + length xs))"
  using assms(3-)
proof (induction xs arbitrary: pre d i)
  case (Cons c xs)
  note dw = depth_words [OF Cons.prems(2) assms(2) Cons.prems(3)]
  have c: "char_at pat (length pre) = c" using char_at_suffix [of pat pre c] Cons.prems(1) by simp
  obtain d' where d': "balanced lft rgt d' xs" "Suc d' + length xs < 2 ^ 32"
    "(if c = lft then of_nat (Suc d) + 1 else if c = rgt then of_nat (Suc d) - 1 else of_nat (Suc d)) =
         (of_nat (Suc d') :: u32)" using dw(4) by blast
  have "rp_loop e pat (Suc (length xs + n)) (step (of_nat (Suc d)) i (length pre)) =
    rp_loop e pat (length xs + n) (step (of_nat (Suc d')) (i + 1) (Suc (length pre)))"
    using step [OF c _ dw(1-3), of "length xs + n" i] Cons.prems(2) unfolding d'(3) by simp
  then show ?case using Cons.IH [of "pre @ [c]" d' "i + 1"] Cons.prems(1) d'(1,2) by (simp add: add.assoc)
qed simp

text \<open>What a token is replaced by, given the position of the next parameter.\<close>

definition rp_value :: "rp_env \<Rightarrow> string \<Rightarrow> string" where
  "rp_value e n = (case map_of (re_replacements e) (KStr n) of Some v \<Rightarrow> rp_printable e v | None \<Rightarrow> [])"

fun tok_url :: "rp_env \<Rightarrow> u64 \<Rightarrow> route_tok \<Rightarrow> string" where
  "tok_url e p (RLit s) = s"
| "tok_url e p (RVar n) = (if map_of (re_paths e) (KInt p) = None then [] else rp_value e n)"
| "tok_url e p (RVarRe n re) = (if map_of (re_paths e) (KInt p) = None then [] else rp_value e n)"
| "tok_url e p (RGroup g) =
     (case map_of (re_paths e) (KInt p) of Some (ZStr s) \<Rightarrow> rp_value e s | _ \<Rightarrow> [])"

fun route_url :: "rp_env \<Rightarrow> u64 \<Rightarrow> route_tok list \<Rightarrow> string" where
  "route_url e p [] = []"
| "route_url e p (t # ts) = tok_url e p t @ route_url e (p + of_nat (tok_groups t)) ts"

lemma append_marker_named:
  assumes "valid_name n"
  shows "rp_append_marker e (Some n) s =
      s\<lparr>rp_position := rp_position s + 1, rp_out := rp_out s @ tok_url e (rp_position s) (RVar n)\<rparr>"
    "rp_append_marker e (Some (n @ CHR '':'' # re)) s =
      s\<lparr>rp_position := rp_position s + 1, rp_out := rp_out s @ tok_url e (rp_position s) (RVarRe n re)\<rparr>"
  using scan_valid(1,3) [OF assms]
  by (auto simp: rp_append_marker_def dao_replace_marker_def rp_value_def split: option.splits)

lemma append_marker_group:
  "rp_append_marker e None s =
     s\<lparr>rp_position := rp_position s + 1, rp_out := rp_out s @ tok_url e (rp_position s) (RGroup g)\<rparr>"
  by (auto simp: rp_append_marker_def dao_replace_marker_def rp_value_def split: option.splits zval.splits)

lemma rp_literal:
  assumes "pat = pre @ s @ suf" "list_all (\<lambda>c. plain c \<and> c \<noteq> CHR '':'') s"
  shows "rp_loop e pat (length s + n) (rp_mk (length pre) mk 0 0 i False pos out) =
    rp_loop e pat n (rp_mk (length pre + length s) mk 0 0 i False pos (out @ s))"
  using assms
proof (induction s arbitrary: pre out)
  case (Cons c s)
  have "char_at pat (length pre) = c" using char_at_suffix [of pat pre c] Cons.prems(1) by simp
  then show ?case
    using rp_plain [of pat "length pre" c] Cons.IH [of "pre @ [c]" "out @ [c]"] Cons.prems by simp
qed simp

lemma rp_braced:
  assumes "pat = pre @ CHR ''{'' # item @ CHR ''}'' # suf" "balanced (CHR ''{'') (CHR ''}'') 0 item"
    "Suc (length item) < 2 ^ 32"
  shows "\<exists>i. rp_loop e pat (length item + 2 + n) (rp_mk (length pre) mk 0 0 j False pos out) =
    rp_loop e pat n ((rp_append_marker e (Some item) (rp_mk (Suc (length pre + length item)) (Some (length pre)) 0 0 i False pos out))
      \<lparr>rp_cursor := Suc (Suc (length pre + length item))\<rparr>)"
proof -
  let ?pre = "pre @ ''{''" and ?i = "1 + of_nat (length item) :: u32"
  have o: "char_at pat (length pre) = CHR ''{''" using assms(1) char_at_suffix by blast
  have c: "char_at pat (length (?pre @ item)) = CHR ''}''" using assms(1) by (intro char_at_suffix) simp
  have nz: "?i \<noteq> 0" using not_zero_of_nat [of "Suc (length item)"] assms(3) by simp
  have "rp_loop e pat (length item + Suc n) (rp_mk (length ?pre) (Some (length pre)) (of_nat (Suc 0)) 0 1 False pos out) =
    rp_loop e pat (Suc n) (rp_mk (length ?pre + length item) (Some (length pre)) 1 0 ?i False pos out)"
    by (rule rp_run [where step = "\<lambda>b i k. rp_mk k (Some (length pre)) b 0 i False pos out", OF rp_inner])
      (use assms in auto)
  then show ?thesis
    using rp_open [OF o, of e "length item + Suc n"]
      rp_close [of pat "length ?pre + length item" ?i e n "length pre"] c nz marker_item_middle [OF assms(1)]
    by (intro exI [of _ ?i]) simp
qed

lemma rp_group:
  assumes "pat = pre @ CHR ''('' # g @ CHR '')'' # suf" "balanced (CHR ''('') (CHR '')'') 0 g"
    "Suc (length g) < 2 ^ 32"
  shows "\<exists>i. rp_loop e pat (length g + 2 + n) (rp_mk (length pre) mk 0 0 j False pos out) =
    rp_loop e pat n ((rp_append_marker e None (rp_mk (Suc (length pre + length g)) (Some (length pre)) 0 0 i False pos out))
      \<lparr>rp_cursor := Suc (Suc (length pre + length g))\<rparr>)"
proof -
  let ?pre = "pre @ ''(''" and ?i = "1 + of_nat (length g) :: u32"
  have o: "char_at pat (length pre) = CHR ''(''" using assms(1) char_at_suffix by blast
  have c: "char_at pat (length (?pre @ g)) = CHR '')''" using assms(1) by (intro char_at_suffix) simp
  have nz: "?i \<noteq> 0" using not_zero_of_nat [of "Suc (length g)"] assms(3) by simp
  have "rp_loop e pat (length g + Suc n) (rp_mk (length ?pre) (Some (length pre)) 0 (of_nat (Suc 0)) 1 False pos out) =
    rp_loop e pat (Suc n) (rp_mk (length ?pre + length g) (Some (length pre)) 0 1 ?i False pos out)"
    by (rule rp_run [where step = "\<lambda>b i k. rp_mk k (Some (length pre)) 0 b i False pos out", OF rp_paren_inner])
      (use assms in auto)
  then show ?thesis
    using rp_paren_open [OF o, of e "length g + Suc n"]
      rp_paren_close [of pat "length ?pre + length g" ?i e n "Some (length pre)"] c nz
    by (intro exI [of _ ?i]) simp
qed

text \<open>Literals without a colon, which starts a placeholder of another kind.\<close>

fun tok_ok_url :: "route_tok \<Rightarrow> bool" where
  "tok_ok_url (RLit s) = list_all (\<lambda>c. plain c \<and> c \<noteq> CHR '':'') s"
| "tok_ok_url t = tok_ok t"

lemma rp_token:
  assumes "pat = pre @ tok_render t @ suf" "tok_ok_url t" "length (tok_render t) < 2 ^ 31"
  shows "\<exists>mk' i'. rp_loop e pat (length (tok_render t) + n) (rp_mk (length pre) mk 0 0 i False pos out) =
    rp_loop e pat n (rp_mk (length pre + length (tok_render t)) mk' 0 0 i' False (pos + of_nat (tok_groups t))
      (out @ tok_url e pos t))"
proof (cases t)
  case (RLit s)
  then show ?thesis using rp_literal [of pat pre s suf e n] assms by auto
next
  case (RVar v)
  obtain i' where "rp_loop e pat (length v + 2 + n) (rp_mk (length pre) mk 0 0 i False pos out) =
    rp_loop e pat n ((rp_append_marker e (Some v) (rp_mk (Suc (length pre + length v)) (Some (length pre)) 0 0 i' False pos out))
      \<lparr>rp_cursor := Suc (Suc (length pre + length v))\<rparr>)"
    using rp_braced [of pat pre v suf e n mk i pos out] RVar assms valid_name_balanced by auto
  then show ?thesis
    using RVar assms(2) append_marker_named(1) [of v]
    by (intro exI [of _ "Some (length pre)"] exI [of _ i']) (simp add: rp_mk_def)
next
  case (RVarRe v re)
  let ?item = "v @ CHR '':'' # re"
  have "balanced (CHR ''{'') (CHR ''}'') 0 ?item"
    using RVarRe assms(2) valid_name_balanced balanced_append by simp
  then obtain i' where "rp_loop e pat (length ?item + 2 + n) (rp_mk (length pre) mk 0 0 i False pos out) =
    rp_loop e pat n ((rp_append_marker e (Some ?item) (rp_mk (Suc (length pre + length ?item)) (Some (length pre)) 0 0 i' False pos out))
      \<lparr>rp_cursor := Suc (Suc (length pre + length ?item))\<rparr>)"
    using rp_braced [of pat pre ?item suf e n mk i pos out] RVarRe assms by auto
  then show ?thesis
    using RVarRe assms(2) append_marker_named(2) [of v e re]
    by (intro exI [of _ "Some (length pre)"] exI [of _ i']) (simp add: rp_mk_def)
next
  case (RGroup g)
  obtain i' where "rp_loop e pat (length g + 2 + n) (rp_mk (length pre) mk 0 0 i False pos out) =
    rp_loop e pat n ((rp_append_marker e None (rp_mk (Suc (length pre + length g)) (Some (length pre)) 0 0 i' False pos out))
      \<lparr>rp_cursor := Suc (Suc (length pre + length g))\<rparr>)"
    using rp_group [of pat pre g suf e n mk i pos out] RGroup assms by auto
  then show ?thesis
    using RGroup append_marker_group [of e _ g]
    by (intro exI [of _ "Some (length pre)"] exI [of _ i']) (simp add: rp_mk_def)
qed

lemma rp_tokens:
  assumes "pat = pre @ route_render ts @ suf" "list_all tok_ok_url ts" "length pat < 2 ^ 31"
  shows "\<exists>mk' i' pos'. rp_loop e pat (length (route_render ts) + n) (rp_mk (length pre) mk 0 0 i False pos out) =
    rp_loop e pat n (rp_mk (length pre + length (route_render ts)) mk' 0 0 i' False pos' (out @ route_url e pos ts))"
  using assms
proof (induction ts arbitrary: pre mk i pos out)
  case (Cons t ts)
  let ?rest = "route_render ts"
  have r: "route_render (t # ts) = tok_render t @ ?rest" by (simp add: route_render_def)
  obtain mk1 i1 where 1: "rp_loop e pat (length (tok_render t) + (length ?rest + n))
      (rp_mk (length pre) mk 0 0 i False pos out) =
    rp_loop e pat (length ?rest + n) (rp_mk (length pre + length (tok_render t)) mk1 0 0 i1 False
      (pos + of_nat (tok_groups t)) (out @ tok_url e pos t))"
    using rp_token [of pat pre t "?rest @ suf" e "length ?rest + n"] Cons.prems r by fastforce
  have p: "pat = (pre @ tok_render t) @ ?rest @ suf" using Cons.prems(1) r by simp
  obtain mk2 i2 pos2 where "rp_loop e pat (length ?rest + n) (rp_mk (length pre + length (tok_render t)) mk1 0 0 i1 False
      (pos + of_nat (tok_groups t)) (out @ tok_url e pos t)) =
    rp_loop e pat n (rp_mk (length pre + length (tok_render t) + length ?rest) mk2 0 0 i2 False pos2
      (out @ route_url e pos (t # ts)))"
    using Cons.IH [OF p, of mk1 i1 "pos + of_nat (tok_groups t)" "out @ tok_url e pos t"] Cons.prems(2,3) by auto
  with 1 show ?case unfolding r by (intro exI [of _ mk2] exI [of _ i2] exI [of _ pos2]) (simp add: add.assoc)
qed (auto simp: route_render_def)

lemma rp_start_mk: "rp_start k = rp_mk k None 0 0 0 False 1 []"
  by (simp add: rp_start_def rp_mk_def)

text \<open>
  C28. \<open>dao_replace_paths\<close> builds the URL of every route of the language in which no
  literal has a colon, shorter than 2^31 - 1 characters, written with or without a leading slash,
  which is dropped. If \<open>paths\<close> is empty the result is the route itself, unchanged. Otherwise
  literals are kept, and the n-th variable or group stands for the replacement of its name (of
  the name that \<open>paths\<close> gives to its number, for a group) in printed form, or for nothing if
  \<open>paths\<close> or the replacements do not have it.
\<close>

theorem replace_paths_url:
  assumes "list_all tok_ok_url ts" "length (route_render ts) < 2 ^ 31 - 1"
    and "pat = CHR ''/'' # route_render ts \<or> pat = route_render ts \<and> pat \<noteq> [] \<and> hd pat \<noteq> CHR ''/''"
  shows "dao_replace_paths printable (ZStr pat) (ZArr ps) (ZArr repl) =
    Ret (ZStr (if ps = [] then route_render ts
               else route_url \<lparr>re_printable = printable, re_paths = ps, re_replacements = repl\<rparr> 1 ts))"
proof -
  let ?e = "\<lparr>re_printable = printable, re_paths = ps, re_replacements = repl\<rparr>"
  let ?i = "if pat ! 0 = CHR ''/'' then 1 else 0 :: nat"
  have pat: "pat = take ?i pat @ route_render ts @ []" "length (take ?i pat) = ?i" "pat \<noteq> []"
    "drop ?i pat = route_render ts"
    using assms(3) by (cases pat; force)+
  have len: "length pat - ?i = length (route_render ts)" "length pat < 2 ^ 31"
    using assms(2,3) by (auto simp: hd_conv_nth)
  obtain mk i pos where "rp_loop ?e pat (length (route_render ts)) (rp_start ?i) =
    Some (rp_mk (?i + length (route_render ts)) mk 0 0 i False pos (route_url ?e 1 ts))"
    using rp_tokens [OF pat(1) assms(1) len(2), of ?e 0 None 0 1 "[]"] pat(2) by (auto simp: rp_start_mk)
  then show ?thesis using pat(3,4) len(1) by (simp add: dao_replace_paths_def rp_mk_def Let_def)
qed

theorem replace_paths_url_witness:
  "dao_replace_paths (\<lambda>_. ''?'') (ZStr ''/posts/{year:[0-9]{4}}/{title}(/more)'')
     (ZArr [(KInt 1, ZStr ''year''), (KInt 2, ZStr ''title''), (KInt 3, ZStr ''tail'')])
     (ZArr [(KStr ''title'', ZStr ''isabelle''), (KStr ''year'', ZStr ''2025''), (KStr ''tail'', ZStr ''.html'')]) =
   Ret (ZStr ''posts/2025/isabelle.html'')"
proof -
  let ?ts = "[RLit ''posts/'', RVarRe ''year'' ''[0-9]{4}'', RLit ''/'', RVar ''title'', RGroup ''/more'']"
  have "list_all tok_ok_url ?ts" by code_simp
  moreover have "CHR ''/'' # route_render ?ts = ''/posts/{year:[0-9]{4}}/{title}(/more)''" by code_simp
  ultimately show ?thesis
    using replace_paths_url [of ?ts "''/posts/{year:[0-9]{4}}/{title}(/more)''" "\<lambda>_. ''?''"
        "[(KInt 1, ZStr ''year''), (KInt 2, ZStr ''title''), (KInt 3, ZStr ''tail'')]"]
    by (simp add: rp_value_def rp_printable_def)
qed

section \<open>Placeholders\<close>

lemma rp_colon:
  assumes "char_at pat k = CHR '':''"
  shows "rp_loop e pat (Suc n) (rp_mk k mk 0 0 i False pos out) =
    rp_loop e pat n (rp_mk (Suc k) (Some k) 0 0 1 True pos out)"
  using assms by (subst rp_loop.simps) (simp add: rp_defs)

lemma rp_looking:
  assumes "char_at pat k = c" "is_lower c" "0 < n"
  shows "rp_loop e pat (Suc n) (rp_mk k mk 0 0 i True pos out) =
    rp_loop e pat n (rp_mk (Suc k) mk 0 0 (i + 1) True pos out)"
proof -
  have "c \<noteq> NUL" using assms(2) by (auto simp: is_lower_def)
  then show ?thesis using assms by (subst rp_loop.simps) (auto simp: rp_defs)
qed

lemma rp_found:
  assumes "char_at pat k = c" "c \<noteq> NUL" "\<not> is_lower c \<or> n = 0" "i \<noteq> 0"
  shows "rp_loop e pat (Suc n) (rp_mk k mk 0 0 i True pos out) =
    rp_loop e pat n (rp_mk k mk 0 0 i False (pos + 1) (out @ tok_url e pos (RGroup g)))"
  using assms by (subst rp_loop.simps) (auto simp: rp_defs word_gt_0 append_marker_group [of e _ g])

lemma rp_looking_run:
  assumes "pat = pre @ xs @ suf" "list_all is_lower xs" "0 < n"
  shows "rp_loop e pat (length xs + n) (rp_mk (length pre) mk 0 0 i True pos out) =
    rp_loop e pat n (rp_mk (length pre + length xs) mk 0 0 (i + of_nat (length xs)) True pos out)"
  using assms
proof (induction xs arbitrary: pre i)
  case (Cons c xs)
  have "char_at pat (length pre) = c" using char_at_suffix [of pat pre c] Cons.prems(1) by simp
  then show ?case
    using rp_looking [of pat "length pre" c "length xs + n"] Cons.IH [of "pre @ [c]" "i + 1"] Cons.prems
    by (simp add: add.assoc)
qed simp

text \<open>
  A route of a literal, one placeholder \<open>:name\<close> and a literal: the last character after the
  placeholder is lost, because the iteration that ends the placeholder advances the counter but not
  the cursor. With several placeholders one more character is lost for each.
\<close>

theorem replace_paths_placeholder:
  assumes "list_all (\<lambda>c. plain c \<and> c \<noteq> CHR '':'') a" "list_all is_lower n" "n \<noteq> []"
    "list_all (\<lambda>c. plain c \<and> c \<noteq> CHR '':'') t" "t = [] \<or> \<not> is_lower (hd t)"
    "length a + length n + length t < 2 ^ 31 - 2" "ps \<noteq> []"
  shows "dao_replace_paths printable (ZStr (CHR ''/'' # a @ CHR '':'' # n @ t)) (ZArr ps) (ZArr repl) =
    Ret (ZStr (a @ tok_url \<lparr>re_printable = printable, re_paths = ps, re_replacements = repl\<rparr> 1 (RGroup n) @ butlast t))"
proof -
  let ?e = "\<lparr>re_printable = printable, re_paths = ps, re_replacements = repl\<rparr>"
    and ?pat = "CHR ''/'' # a @ CHR '':'' # n @ t" and ?v = "tok_url \<lparr>re_printable = printable, re_paths = ps, re_replacements = repl\<rparr> 1 (RGroup n)"
    and ?A = "''/'' @ a @ '':''"
  have col: "char_at ?pat (length (''/'' @ a)) = CHR '':''" by (rule char_at_suffix) simp
  have to_name: "rp_loop ?e ?pat (length a + (length n + length t) + 1) (rp_start 1) =
    rp_loop ?e ?pat (length n + length t) (rp_mk (length ?A) (Some (length (''/'' @ a))) 0 0 1 True 1 a)"
    using rp_literal [of ?pat "''/''" a "CHR '':'' # n @ t" ?e "Suc (length n + length t)" None 0 1 "[]"]
      rp_colon [OF col] assms(1) by (simp add: rp_start_mk)
  have i: "(1 + of_nat m :: u32) \<noteq> 0" if "m \<le> length n" for m
    using not_zero_of_nat [of "Suc m"] assms(6) that by simp
  have "\<exists>k mk j b pos. rp_loop ?e ?pat (length a + (length n + length t) + 1) (rp_start 1) =
     Some (rp_mk k mk 0 0 j b pos (a @ ?v @ butlast t))"
  proof (cases t rule: rev_cases)
    case Nil
    obtain n' c where n: "n = n' @ [c]" using assms(3) by (cases n rule: rev_cases) auto
    have c: "char_at ?pat (length (?A @ n')) = c" "c \<noteq> NUL"
      using assms(2) char_at_suffix [of ?pat "?A @ n'" c "[]"] Nil by (auto simp: n is_lower_def)
    have "rp_loop ?e ?pat (length n' + 1) (rp_mk (length ?A) (Some (length (''/'' @ a))) 0 0 1 True 1 a) =
      rp_loop ?e ?pat (Suc 0) (rp_mk (length (?A @ n')) (Some (length (''/'' @ a))) 0 0 (1 + of_nat (length n')) True 1 a)"
      using rp_looking_run [of ?pat ?A n' "[c]" 1 ?e] assms(2) Nil n by simp
    also have "\<dots> = rp_loop ?e ?pat 0 (rp_mk (length (?A @ n')) (Some (length (''/'' @ a))) 0 0 (1 + of_nat (length n')) False (1 + 1) (a @ ?v))"
      by (rule rp_found [OF c]) (use i [of "length n'"] n in auto)
    finally have "rp_loop ?e ?pat (length n + length t) (rp_mk (length ?A) (Some (length (''/'' @ a))) 0 0 1 True 1 a) =
      Some (rp_mk (length (?A @ n')) (Some (length (''/'' @ a))) 0 0 (1 + of_nat (length n')) False (1 + 1) (a @ ?v @ butlast t))"
      using Nil n by simp
    then show ?thesis unfolding to_name by blast
  next
    case (snoc t' z)
    have ne: "t \<noteq> []" using snoc by simp
    have hd: "char_at ?pat (length (?A @ n)) = hd t" "hd t \<noteq> NUL" "\<not> is_lower (hd t)"
      using assms(4,5) ne char_at_suffix [of ?pat "?A @ n" "hd t" "tl t"] hd_in_set [OF ne]
      by (auto simp: list_all_iff plain_def)
    have "rp_loop ?e ?pat (length n + length t) (rp_mk (length ?A) (Some (length (''/'' @ a))) 0 0 1 True 1 a) =
      rp_loop ?e ?pat (Suc (length t')) (rp_mk (length (?A @ n)) (Some (length (''/'' @ a))) 0 0 (1 + of_nat (length n)) True 1 a)"
      using rp_looking_run [of ?pat ?A n t "length t" ?e] assms(2) snoc by simp
    also have "\<dots> = rp_loop ?e ?pat (length t') (rp_mk (length (?A @ n)) (Some (length (''/'' @ a))) 0 0 (1 + of_nat (length n)) False (1 + 1) (a @ ?v))"
      by (rule rp_found [OF hd(1,2)]) (use hd(3) i [of "length n"] in auto)
    also have "\<dots> = Some (rp_mk (length (?A @ n) + length t') (Some (length (''/'' @ a))) 0 0 (1 + of_nat (length n)) False (1 + 1) ((a @ ?v) @ t'))"
      using rp_literal [of ?pat "?A @ n" t' "[z]" ?e 0 "Some (length (''/'' @ a))" "1 + of_nat (length n)" "1 + 1" "a @ ?v"] assms(4) snoc
      by simp
    finally have "rp_loop ?e ?pat (length n + length t) (rp_mk (length ?A) (Some (length (''/'' @ a))) 0 0 1 True 1 a) =
      Some (rp_mk (length (?A @ n) + length t') (Some (length (''/'' @ a))) 0 0 (1 + of_nat (length n)) False (1 + 1) (a @ ?v @ butlast t))"
      using snoc by simp
    then show ?thesis unfolding to_name by blast
  qed
  then show ?thesis using assms(7) by (auto simp: dao_replace_paths_def rp_mk_def)
qed

theorem replace_paths_placeholder_witness:
  "dao_replace_paths (\<lambda>_. ''?'') (ZStr ''/:controller/edit'') (ZArr [(KInt 1, ZStr ''controller'')])
     (ZArr [(KStr ''controller'', ZStr ''posts'')]) = Ret (ZStr ''posts/edi'')"
  using replace_paths_placeholder [of "[]" "''controller''" "''/edit''" "[(KInt 1, ZStr ''controller'')]" "\<lambda>_. ''?''"
      "[(KStr ''controller'', ZStr ''posts'')]"]
  by (simp add: plain_def is_lower_def rp_value_def rp_printable_def)

text \<open>
  An expression with groups of its own is counted as one group, so the
  names after it get the number of the wrong group: the title below is the third group of the
  compiled pattern and is mapped to 2.
\<close>

theorem named_params_inner_groups:
  "dao_extract_named_params (ZStr ''/{id:([0-9])([a-z])}/{title}'') (Some []) =
     Ret (ZStr ''/([0-9])([a-z])/([^/]*)'', Some [(''id'', 1), (''title'', 2)])"
  by code_simp

section \<open>The segment of a path, and URL encoding\<close>

text \<open>\<open>dao_get_uri\<close> walks back from the end; \<open>i\<close> is the length of what is left.\<close>

fun uri_loop :: "string \<Rightarrow> nat \<Rightarrow> nat \<Rightarrow> nat \<Rightarrow> string" where
  "uri_loop path 0 found mark = []"
| "uri_loop path (Suc i) found mark =
     (let ch = char_at path i in
      if ch = CHR ''/'' \<or> ch = CHR 0x5C then
        (if found = 0 then uri_loop path i 1 i
         else take (mark - Suc i) (drop (Suc i) path))
      else uri_loop path i found mark)"

definition dao_get_uri :: "zval \<Rightarrow> string" where
  "dao_get_uri path = (case path of ZStr p \<Rightarrow> uri_loop p (length p) 0 0 | _ \<Rightarrow> [])"

definition is_sep :: "char \<Rightarrow> bool" where
  "is_sep c = (c = CHR ''/'' \<or> c = CHR 0x5C)"

lemma uri_sep:
  assumes "char_at path i = c" "is_sep c"
  shows "uri_loop path (Suc i) 0 mark = uri_loop path i 1 i"
    "0 < found \<Longrightarrow> uri_loop path (Suc i) found mark = take (mark - Suc i) (drop (Suc i) path)"
  using assms by (auto simp: is_sep_def Let_def)

lemma uri_no_sep: "char_at path i = c \<Longrightarrow> \<not> is_sep c \<Longrightarrow> uri_loop path (Suc i) found mark = uri_loop path i found mark"
  by (simp add: is_sep_def Let_def)

declare uri_loop.simps(2) [simp del]

lemma uri_loop_skip:
  assumes "path = pre @ xs @ suf" "list_all (\<lambda>c. \<not> is_sep c) xs"
  shows "uri_loop path (length pre + length xs) found mark = uri_loop path (length pre) found mark"
  using assms
proof (induction xs arbitrary: suf rule: rev_induct)
  case (snoc c xs)
  have "char_at path (length (pre @ xs)) = c" by (rule char_at_suffix) (use snoc.prems(1) in simp)
  then show ?case using snoc.IH [of "c # suf"] snoc.prems uri_no_sep [of path "length (pre @ xs)" c] by simp
qed simp

text \<open>
  \<open>dao_get_uri\<close> returns what stands between the last two separators (slash or
  backslash) of a path, and the empty string for a path with fewer than two.
\<close>

theorem get_uri_segment:
  assumes "list_all (\<lambda>c. \<not> is_sep c) b" "list_all (\<lambda>c. \<not> is_sep c) c" "is_sep s1" "is_sep s2"
  shows "dao_get_uri (ZStr (a @ s1 # b @ s2 # c)) = b \<and> dao_get_uri (ZStr (b @ s2 # c)) = [] \<and>
    dao_get_uri (ZStr b) = []"
proof -
  let ?p = "a @ s1 # b @ s2 # c" and ?q = "b @ s2 # c"
  have s2: "char_at ?p (length (a @ s1 # b)) = s2" "char_at ?q (length b) = s2"
    by (rule char_at_suffix, simp)+
  have s1: "char_at ?p (length a) = s1" by (rule char_at_suffix) simp
  have "uri_loop ?p (length ?p) 0 0 = uri_loop ?p (Suc (length (a @ s1 # b))) 0 0"
    using uri_loop_skip [of ?p "a @ s1 # b @ [s2]" c "[]"] assms(2) by (simp add: add.assoc)
  also have "\<dots> = uri_loop ?p (length (a @ [s1]) + length b) 1 (length (a @ s1 # b))"
    using uri_sep(1) [OF s2(1) assms(4)] by simp
  also have "\<dots> = uri_loop ?p (Suc (length a)) 1 (length (a @ s1 # b))"
    using uri_loop_skip [of ?p "a @ [s1]" b "s2 # c"] assms(1) by simp
  also have "\<dots> = b" using uri_sep(2) [OF s1 assms(3)] by simp
  finally have 1: "dao_get_uri (ZStr ?p) = b" by (simp add: dao_get_uri_def)
  have nil: "uri_loop (b @ r) (length b) found mark = []" for r found mark
    using uri_loop_skip [of "b @ r" "[]" b r] assms(1) by simp
  have 2: "dao_get_uri (ZStr b) = []" using nil [of "[]"] by (simp add: dao_get_uri_def)
  have "uri_loop ?q (length ?q) 0 0 = uri_loop ?q (Suc (length b)) 0 0"
    using uri_loop_skip [of ?q "b @ [s2]" c "[]"] assms(2) by simp
  then have "dao_get_uri (ZStr ?q) = []"
    using uri_sep(1) [OF s2(2) assms(4)] nil [of "s2 # c"] by (simp add: dao_get_uri_def)
  then show ?thesis using 1 2 by blast
qed

theorem get_uri_segment_witness: "dao_get_uri (ZStr ''/blog/posts/index'') = ''posts''"
  using get_uri_segment [of "''posts''" "''index''" "CHR ''/''" "CHR ''/''" "''/blog''"]
  by (simp add: is_sep_def)

text \<open>
  \<open>php_raw_url_encode\<close> is the parameter \<open>encode\<close>. The type test is inverted: a value that is not a
  string is not converted, and its bits are read as a string pointer.
\<close>

definition dao_raw_url_encode :: "(string \<Rightarrow> string) \<Rightarrow> zval \<Rightarrow> zval outcome" where
  "dao_raw_url_encode encode url =
     (case url of
        ZStr s \<Rightarrow> (let escaped = encode s in Ret (if length escaped > 0 then ZStr escaped else ZNull))
      | _ \<Rightarrow> Crash)"

end
