(* ===== verification/KernelFilter.thy ===== *)
theory KernelFilter imports PhpValue begin

text \<open>
  Filtering and escaping: \<open>kernel/filter.c\<close>, the HTML escaping of \<open>kernel/string.c\<close>, and the
  class \<open>Escaper\<close> of \<open>escaper.c\<close>. The functions of PHP's own extensions (mbstring, HTML
  entities, URL encoding) are parameters.
\<close>

section \<open>Filters\<close>

definition printable_str :: "(zval \<Rightarrow> string) \<Rightarrow> zval \<Rightarrow> string" where
  "printable_str printable param = (case param of ZStr s \<Rightarrow> s | _ \<Rightarrow> printable param)"

fun alphanum_loop :: "string \<Rightarrow> string" where
  "alphanum_loop [] = []"
| "alphanum_loop (ch # s) =
     (if ch = NUL then [] else if is_alnum ch then ch # alphanum_loop s else alphanum_loop s)"

definition dao_filter_alphanum :: "(zval \<Rightarrow> string) \<Rightarrow> zval \<Rightarrow> string" where
  "dao_filter_alphanum printable param = alphanum_loop (printable_str printable param)"

fun identifier_loop :: "string \<Rightarrow> string" where
  "identifier_loop [] = []"
| "identifier_loop (ch # s) =
     (if ch = NUL then []
      else if is_alnum ch \<or> ch = CHR ''_'' then ch # identifier_loop s else identifier_loop s)"

definition dao_filter_identifier :: "(zval \<Rightarrow> string) \<Rightarrow> zval \<Rightarrow> string" where
  "dao_filter_identifier printable param = identifier_loop (printable_str printable param)"

text \<open>The flag \<open>iso88591\<close> and the bytes left; \<open>None\<close> is the return of \<open>false\<close>.\<close>

fun charset_loop :: "bool \<Rightarrow> u8 list \<Rightarrow> bool option" where
  "charset_loop iso88591 [] = Some iso88591"
| "charset_loop iso88591 (ch # s) =
     (if ch \<noteq> 0 then
        if ch = 172 \<or> (128 \<le> ch \<and> ch \<le> 159) then charset_loop iso88591 s
        else if 160 \<le> ch then charset_loop True s
        else None
      else None)"

text \<open>The string of a value that is not one does not exist: its bits are read as a pointer.\<close>

definition dao_is_basic_charset :: "zval \<Rightarrow> zval outcome" where
  "dao_is_basic_charset param =
     (case param of
        ZStr s \<Rightarrow>
          (case charset_loop False (map byte_of s) of
             None \<Rightarrow> Ret (ZBool False)
           | Some iso88591 \<Rightarrow> Ret (ZStr (if \<not> iso88591 then ''ASCII'' else ''ISO-8859-1'')))
      | _ \<Rightarrow> Crash)"

section \<open>Escaping\<close>

text \<open>\<open>cresult\<close> is the little-endian memory of a \<open>long\<close>.\<close>

definition dao_unpack :: "u8 list \<Rightarrow> nat \<Rightarrow> bool \<Rightarrow> nat list \<Rightarrow> u64" where
  "dao_unpack data sz issigned mp =
     le64 (foldl (\<lambda>cresult i. cresult[mp ! i := data ! i]) (replicate 8 (if issigned then 0xFF else 0)) [0..<sz])"

definition hex_digits :: string where "hex_digits = ''0123456789abcdef''"

text \<open>The buffer has room for 16 digits.\<close>

fun hex_loop :: "nat \<Rightarrow> u64 \<Rightarrow> string \<Rightarrow> string" where
  "hex_loop 0 v acc = acc"
| "hex_loop (Suc n) v acc =
     (let acc = (hex_digits ! unat (v AND 0x0F)) # acc; v = drop_bit 4 v in
      if n > 0 \<and> v \<noteq> 0 then hex_loop n v acc else acc)"

definition dao_longtohex :: "u64 \<Rightarrow> string" where
  "dao_longtohex v = hex_loop 16 v []"

definition escape_whitelist :: string where
  "escape_whitelist = '' /*+-'' @ [CHR 0x09, CHR 0x0A] @ ''^$!?'' @ [CHR 0x5C] @ ''#}{)(][.,:;_|~'' @ [CHR 0x60]"

definition big_endian_long_map :: "nat list" where
  "big_endian_long_map = [3, 2, 1, 0]"

text \<open>The value of one group of four bytes.\<close>

definition escape_value :: "u8 list \<Rightarrow> u64" where
  "escape_value data =
     (let issigned = data ! 0 AND 0x80 \<noteq> 0;
          v = (if issigned then NOT 0x7FFFFFFF else 0);
          v = v OR dao_unpack data 4 issigned big_endian_long_map
      in ucast (ucast v :: u32))"

definition escape_char_of :: "string \<Rightarrow> char \<Rightarrow> bool \<Rightarrow> u64 \<Rightarrow> string" where
  "escape_char_of escape_char escape_extra use_whitelist v =
     (if 32 < v \<and> v < 127 \<and> is_alnum (chr_of (ucast v)) then [chr_of (ucast v)]
      else if use_whitelist \<and> v \<in> set (map (ucast \<circ> byte_of) escape_whitelist) then [chr_of (ucast v)]
      else escape_char @ dao_longtohex v @ (if escape_extra \<noteq> NUL then [escape_extra] else []))"

text \<open>
  The loop over the groups of four bytes with its index, an \<open>int\<close>: when adding 4 to it overflows,
  the behaviour is undefined (\<open>Crash\<close>). \<open>Ret None\<close> is the return of \<open>false\<close> at a zero code point.
\<close>

fun escape_loop :: "string \<Rightarrow> char \<Rightarrow> bool \<Rightarrow> int \<Rightarrow> u8 list \<Rightarrow> string option outcome" where
  "escape_loop ec ex wl i (b0 # b1 # b2 # b3 # s) =
     (let v = escape_value [b0, b1, b2, b3] in
      if v = 0 then Ret None
      else if 0x7FFFFFFF < i + 4 then Crash
      else case escape_loop ec ex wl (i + 4) s of
             Ret (Some r) \<Rightarrow> Ret (Some (escape_char_of ec ex wl v @ r))
           | res \<Rightarrow> res)"
| "escape_loop ec ex wl i _ = Ret (Some [])"

definition dao_escape_multi ::
  "(zval \<Rightarrow> string) \<Rightarrow> zval \<Rightarrow> string \<Rightarrow> char \<Rightarrow> bool \<Rightarrow> zval outcome" where
  "dao_escape_multi printable param escape_char escape_extra use_whitelist =
     (let s = printable_str printable param in
      if length s = 0 then Ret (ZBool False)
      else if length s mod 4 \<noteq> 0 then Ret (ZBool False)
      else case escape_loop escape_char escape_extra use_whitelist 0 (map byte_of s) of
             Ret None \<Rightarrow> Ret (ZBool False)
           | Ret (Some r) \<Rightarrow> Ret (ZStr r)
           | Throw e \<Rightarrow> Throw e
           | Crash \<Rightarrow> Crash)"

definition dao_escape_css :: "(zval \<Rightarrow> string) \<Rightarrow> zval \<Rightarrow> zval outcome" where
  "dao_escape_css printable param = dao_escape_multi printable param [CHR 0x5C] (CHR '' '') False"

definition dao_escape_js :: "(zval \<Rightarrow> string) \<Rightarrow> zval \<Rightarrow> zval outcome" where
  "dao_escape_js printable param = dao_escape_multi printable param [CHR 0x5C, CHR ''x''] NUL True"

definition dao_escape_htmlattr :: "(zval \<Rightarrow> string) \<Rightarrow> zval \<Rightarrow> zval outcome" where
  "dao_escape_htmlattr printable param = dao_escape_multi printable param ''&#x'' (CHR '';'') True"

section \<open>HTML\<close>

text \<open>
  \<open>php_escape_html_entities_ex\<close>, with its arguments \<open>all\<close>, the quote style and the charset, is the
  parameter \<open>escape_ex\<close>; \<open>ENT_COMPAT\<close> is 2.
\<close>

type_synonym html_escape = "bool \<Rightarrow> u64 \<Rightarrow> string option \<Rightarrow> string \<Rightarrow> string"

definition html_charset :: "zval option \<Rightarrow> string option" where
  "html_charset charset = (case charset of Some (ZStr cs) \<Rightarrow> Some cs | _ \<Rightarrow> None)"

definition html_quoting :: "zval option \<Rightarrow> u64" where
  "html_quoting quoting = (case quoting of Some (ZLong qs) \<Rightarrow> qs | _ \<Rightarrow> 2)"

definition dao_htmlspecialchars ::
  "html_escape \<Rightarrow> (zval \<Rightarrow> string) \<Rightarrow> zval \<Rightarrow> zval option \<Rightarrow> zval option \<Rightarrow> zval" where
  "dao_htmlspecialchars escape_ex printable str quoting charset =
     ZStr (escape_ex False (html_quoting quoting) (html_charset charset) (printable_str printable str))"

definition dao_htmlentities ::
  "html_escape \<Rightarrow> (zval \<Rightarrow> string) \<Rightarrow> zval \<Rightarrow> zval option \<Rightarrow> zval option \<Rightarrow> zval" where
  "dao_htmlentities escape_ex printable str quoting charset =
     ZStr (escape_ex False (html_quoting quoting) (html_charset charset) (printable_str printable str))"

definition dao_escape_html :: "(string \<Rightarrow> u64 \<Rightarrow> string \<Rightarrow> string) \<Rightarrow> zval \<Rightarrow> zval \<Rightarrow> zval \<Rightarrow> zval" where
  "dao_escape_html escape str quote_style charset =
     (case str of
        ZStr s \<Rightarrow>
          (case quote_style of
             ZLong q \<Rightarrow> (case charset of ZStr cs \<Rightarrow> ZStr (escape s q cs) | _ \<Rightarrow> str)
           | _ \<Rightarrow> str)
      | _ \<Rightarrow> str)"

section \<open>The escaper\<close>

record escaper =
  esc_object :: nat
  esc_encoding :: zval
  esc_quote_type :: zval

record escaper_env =
  ee_printable :: "zval \<Rightarrow> string"
  ee_mb :: bool
  ee_detect :: "zval \<Rightarrow> string \<Rightarrow> bool"
  ee_detect_default :: "zval \<Rightarrow> zval"
  ee_convert :: "zval \<Rightarrow> string \<Rightarrow> zval \<Rightarrow> zval"
  ee_html :: html_escape
  ee_url :: "string \<Rightarrow> string"

definition escaper_new :: "nat \<Rightarrow> escaper" where
  "escaper_new ob = \<lparr>esc_object = ob, esc_encoding = ZStr ''utf-8'', esc_quote_type = ZLong 3\<rparr>"

definition escaper_setEncoding :: "escaper \<Rightarrow> zval \<Rightarrow> escaper" where
  "escaper_setEncoding esc encoding = esc\<lparr>esc_encoding := encoding\<rparr>"

definition escaper_getEncoding :: "escaper \<Rightarrow> zval" where
  "escaper_getEncoding esc = esc_encoding esc"

definition escaper_setHtmlQuoteType :: "escaper \<Rightarrow> zval \<Rightarrow> escaper" where
  "escaper_setHtmlQuoteType esc quote_type = esc\<lparr>esc_quote_type := quote_type\<rparr>"

text \<open>The charsets are tried in the order of the source.\<close>

definition escaper_detectEncoding :: "escaper_env \<Rightarrow> zval \<Rightarrow> zval outcome" where
  "escaper_detectEncoding env str =
     (case dao_is_basic_charset str of
        Ret (ZStr charset) \<Rightarrow> Ret (ZStr charset)
      | Ret _ \<Rightarrow>
          if \<not> ee_mb env then Ret ZNull
          else if ee_detect env str ''UTF-32'' then Ret (ZStr ''UTF-32'')
          else if ee_detect env str ''UTF-16'' then Ret (ZStr ''UTF-16'')
          else if ee_detect env str ''UTF-8'' then Ret (ZStr ''UTF-8'')
          else if ee_detect env str ''ISO-8859-1'' then Ret (ZStr ''ISO-8859-1'')
          else if ee_detect env str ''ASCII'' then Ret (ZStr ''ASCII'')
          else Ret (ee_detect_default env str)
      | Throw e \<Rightarrow> Throw e
      | Crash \<Rightarrow> Crash)"

text \<open>The argument of \<open>detectencoding\<close> is the escaper itself.\<close>

definition escaper_normalizeEncoding :: "escaper_env \<Rightarrow> escaper \<Rightarrow> zval \<Rightarrow> zval outcome" where
  "escaper_normalizeEncoding env esc str =
     (if \<not> ee_mb env then Throw ''Extension 'mbstring' is required''
      else case escaper_detectEncoding env (ZObj (esc_object esc)) of
             Ret encoding \<Rightarrow> Ret (ee_convert env str ''UTF-32'' encoding)
           | Throw e \<Rightarrow> Throw e
           | Crash \<Rightarrow> Crash)"

text \<open>\<open>zend_is_true\<close> of a string.\<close>

definition escaper_escapeHtml :: "escaper_env \<Rightarrow> escaper \<Rightarrow> zval \<Rightarrow> zval" where
  "escaper_escapeHtml env esc text =
     (case text of
        ZStr _ \<Rightarrow>
          dao_htmlspecialchars (ee_html env) (ee_printable env) text (Some (esc_quote_type esc)) (Some (esc_encoding esc))
      | _ \<Rightarrow> text)"

definition escaper_escapeHtmlAttr :: "escaper_env \<Rightarrow> escaper \<Rightarrow> zval \<Rightarrow> zval" where
  "escaper_escapeHtmlAttr env esc attribute =
     (case attribute of
        ZStr s \<Rightarrow>
          if str_true s then
            dao_htmlspecialchars (ee_html env) (ee_printable env) attribute (Some (ZLong 3)) (Some (esc_encoding esc))
          else attribute
      | _ \<Rightarrow> attribute)"

definition escaper_escapeCss :: "escaper_env \<Rightarrow> escaper \<Rightarrow> zval \<Rightarrow> zval outcome" where
  "escaper_escapeCss env esc css =
     (case css of
        ZStr s \<Rightarrow>
          if str_true s then
            (case escaper_normalizeEncoding env esc css of
               Ret normalized \<Rightarrow> dao_escape_css (ee_printable env) normalized
             | Throw e \<Rightarrow> Throw e
             | Crash \<Rightarrow> Crash)
          else Ret css
      | _ \<Rightarrow> Ret css)"

definition escaper_escapeJs :: "escaper_env \<Rightarrow> escaper \<Rightarrow> zval \<Rightarrow> zval outcome" where
  "escaper_escapeJs env esc js =
     (case js of
        ZStr s \<Rightarrow>
          if str_true s then
            (case escaper_normalizeEncoding env esc js of
               Ret normalized \<Rightarrow> dao_escape_js (ee_printable env) normalized
             | Throw e \<Rightarrow> Throw e
             | Crash \<Rightarrow> Crash)
          else Ret js
      | _ \<Rightarrow> Ret js)"

section \<open>What escaping keeps\<close>

text \<open>UTF-32, most significant byte first.\<close>

definition utf32_char :: "u32 \<Rightarrow> string" where
  "utf32_char c = map (\<lambda>k. chr_of (ucast (drop_bit k c))) [24, 16, 8, 0]"

definition utf32 :: "u32 list \<Rightarrow> string" where
  "utf32 cs = concat (map utf32_char cs)"

lemma utf32_bytes: "map byte_of (utf32_char c) = rev (le_bytes32 c)"
  by (simp add: utf32_char_def le_bytes32_def upt_rec)

lemma dao_unpack_4:
  "dao_unpack [a, b, c, d] 4 sg [3, 2, 1, 0] = le64 ([d, c, b, a] @ replicate 4 (if sg then 0xFF else 0))"
  by (simp add: dao_unpack_def upt_rec numeral_eq_Suc)

lemma dao_unpack_bytes:
  "dao_unpack (rev (le_bytes32 c)) 4 sg [3, 2, 1, 0] = le64 (le_bytes32 c @ replicate 4 (if sg then 0xFF else 0))"
proof -
  have "le_bytes32 c = [le_bytes32 c ! 0, le_bytes32 c ! 1, le_bytes32 c ! 2, le_bytes32 c ! 3]"
    by (simp add: le_bytes32_def upt_rec)
  then show ?thesis
    using dao_unpack_4 [of "le_bytes32 c ! 3" "le_bytes32 c ! 2" "le_bytes32 c ! 1" "le_bytes32 c ! 0" sg]
    by (metis append.simps rev.simps)
qed

lemma escape_value_utf32: "escape_value (map byte_of (utf32_char c)) = ucast c"
proof -
  have sg: "(rev (le_bytes32 c) ! 0) AND 0x80 \<noteq> 0 \<longleftrightarrow> bit c 31"
    using and_exp_eq_0_iff_not_bit [of "ucast (drop_bit 24 c) :: u8" 7]
    by (simp add: le_bytes32_def upt_rec bit_simps)
  have low: "bit (le64 (le_bytes32 c @ replicate 4 x)) n = bit c n" if "n < 32" for x n
    using that by (auto simp: bit_le64 nth_append le_bytes32_def bit_simps)
  have m: "(0x7FFFFFFF :: u64) = mask 31" by (simp add: mask_eq_exp_minus_1)
  have v: "escape_value (map byte_of (utf32_char c)) =
    ucast (ucast ((if bit c 31 then NOT 0x7FFFFFFF else 0) OR
      le64 (le_bytes32 c @ replicate 4 (if bit c 31 then 0xFF else 0))) :: u32)"
    unfolding escape_value_def utf32_bytes sg Let_def big_endian_long_map_def dao_unpack_bytes ..
  show ?thesis
    unfolding v m
  proof (rule bit_word_eqI)
    fix n :: nat
    have "n < 32" if "bit c n" using bit_imp_le_length [OF that] by simp
    then show "bit (ucast (ucast ((if bit c 31 then NOT (mask 31) else 0) OR
      le64 (le_bytes32 c @ replicate 4 (if bit c 31 then 0xFF else 0)) :: u64) :: u32) :: u64) n = bit (ucast c :: u64) n"
      by (cases "n < 31"; cases "n = 31") (auto simp: bit_simps low)
  qed
qed

text \<open>Hexadecimal numbers.\<close>

definition hex_digit_value :: "char \<Rightarrow> u64" where
  "hex_digit_value c = of_nat (length (takeWhile (\<lambda>x. x \<noteq> c) hex_digits))"

definition hex_value :: "string \<Rightarrow> u64" where
  "hex_value s = foldl (\<lambda>v c. v * 16 + hex_digit_value c) 0 s"

lemma hex_digit_value:
  assumes "n < 16"
  shows "hex_digit_value (hex_digits ! n) = of_nat n" "hex_digits ! n \<in> set hex_digits"
proof -
  have "\<forall>n \<in> {..<16::nat}. hex_digit_value (hex_digits ! n) = of_nat n \<and> hex_digits ! n \<in> set hex_digits"
    by code_simp
  then show "hex_digit_value (hex_digits ! n) = of_nat n" "hex_digits ! n \<in> set hex_digits"
    using assms by blast+
qed

lemma hex_value_append:
  "foldl (\<lambda>v c. v * 16 + hex_digit_value c) a s = a * 16 ^ length s + hex_value s"
proof (induction s arbitrary: a)
  case (Cons c s)
  show ?case
    using Cons [of "a * 16 + hex_digit_value c"] Cons [of "hex_digit_value c"]
    by (simp add: hex_value_def algebra_simps)
qed (simp add: hex_value_def)

lemma low_digit: "unat (v AND 0x0F :: u64) < 16" "(v AND 0x0F) + drop_bit 4 v * 16 = v"
proof -
  have m: "(0x0F :: u64) = mask 4" by (simp add: mask_eq_exp_minus_1)
  have "v AND 0x0F = v mod 16" unfolding m using take_bit_eq_mask [of 4 v] take_bit_eq_mod [of 4 v] by (simp add: ac_simps)
  moreover have "drop_bit 4 v = v div 16" by (simp add: drop_bit_eq_div)
  ultimately show "unat (v AND 0x0F :: u64) < 16" "(v AND 0x0F) + drop_bit 4 v * 16 = v"
    by (simp_all add: unat_mod mod_div_mult_eq)
qed

lemma hex_loop:
  assumes "unat v < 16 ^ n" "0 < n"
  shows "\<exists>ds. hex_loop n v acc = ds @ acc \<and> hex_value ds = v \<and> ds \<noteq> [] \<and> set ds \<subseteq> set hex_digits"
  using assms
proof (induction n arbitrary: v acc)
  case (Suc n)
  let ?d = "hex_digits ! unat (v AND 0x0F)"
  have d: "hex_digit_value ?d = v AND 0x0F" "?d \<in> set hex_digits"
    using hex_digit_value [OF low_digit(1) [of v]] by simp_all
  show ?case
  proof (cases "n > 0 \<and> drop_bit 4 v \<noteq> 0")
    case True
    have "unat (drop_bit 4 v) = unat v div 16" by (simp add: drop_bit_eq_div unat_div)
    then have "unat (drop_bit 4 v) < 16 ^ n" using Suc.prems(1) by (simp add: less_mult_imp_div_less mult.commute)
    from Suc.IH [OF this, of "?d # acc"] True obtain ds where
      ds: "hex_loop n (drop_bit 4 v) (?d # acc) = ds @ ?d # acc" "hex_value ds = drop_bit 4 v" "set ds \<subseteq> set hex_digits"
      by blast
    have "hex_value (ds @ [?d]) = v"
      using ds(2) d(1) low_digit(2) [of v] by (simp add: hex_value_def add.commute)
    then show ?thesis using True ds d(2) by (intro exI [of _ "ds @ [?d]"]) simp
  next
    case False
    have "drop_bit 4 v = 0"
    proof (cases n)
      case 0
      then have "unat v div 16 = 0" using Suc.prems(1) by simp
      then show ?thesis by (simp add: word_unat_eq_iff drop_bit_eq_div unat_div)
    qed (use False in simp)
    then have "v AND 0x0F = v" using low_digit(2) [of v] by simp
    then show ?thesis using False d by (intro exI [of _ "[?d]"]) (auto simp: hex_value_def)
  qed
qed simp

lemma dao_longtohex:
  "hex_value (dao_longtohex v) = v" "dao_longtohex v \<noteq> []" "set (dao_longtohex v) \<subseteq> set hex_digits"
proof -
  have "unat v < 16 ^ 16" using unsigned_less [of v, where 'a = nat] by simp
  from hex_loop [OF this, of "[]"] obtain ds where
    "hex_loop 16 v [] = ds" "hex_value ds = v" "ds \<noteq> []" "set ds \<subseteq> set hex_digits" by auto
  then show "hex_value (dao_longtohex v) = v" "dao_longtohex v \<noteq> []" "set (dao_longtohex v) \<subseteq> set hex_digits"
    by (simp_all add: dao_longtohex_def del: hex_loop.simps)
qed

text \<open>A reader of escaped text: an escape is the prefix, hexadecimal digits and the end character.\<close>

fun starts_with :: "string \<Rightarrow> string \<Rightarrow> bool" where
  "starts_with [] s = True"
| "starts_with (p # ps) (c # s) = (p = c \<and> starts_with ps s)"
| "starts_with (p # ps) [] = False"

function multi_decode :: "string \<Rightarrow> char \<Rightarrow> string \<Rightarrow> u32 list" where
  "multi_decode ec ex [] = []"
| "multi_decode ec ex (c # s) =
     (if starts_with ec (c # s) then
        (let t = drop (length ec) (c # s); h = takeWhile (\<lambda>x. x \<in> set hex_digits) t
         in ucast (hex_value h) # multi_decode ec ex (drop (Suc (length h)) t))
      else ucast (byte_of c) # multi_decode ec ex s)"
  by pat_completeness auto
termination by (relation "measure (\<lambda>(_, _, s). length s)") auto

declare multi_decode.simps(2) [simp del]

lemma starts_with_append [simp]: "starts_with p (p @ s)"
  by (induction p) auto

lemma decode_escape:
  assumes "ec \<noteq> []" "ex \<notin> set hex_digits"
  shows "multi_decode ec ex (ec @ dao_longtohex v @ ex # s) = ucast v # multi_decode ec ex s"
proof -
  let ?t = "ec @ dao_longtohex v @ ex # s"
  have "takeWhile (\<lambda>x. x \<in> set hex_digits) (dao_longtohex v @ ex # s) = dao_longtohex v"
    using dao_longtohex(3) [of v] assms(2) by (subst takeWhile_append2) auto
  moreover have "?t = hd ?t # tl ?t" using assms(1) by simp
  ultimately show ?thesis
    using multi_decode.simps(2) [of ec ex "hd ?t" "tl ?t"] dao_longtohex(1) [of v]
    by (simp add: Let_def)
qed

lemma decode_plain:
  assumes "ec \<noteq> []" "c \<noteq> hd ec"
  shows "multi_decode ec ex (c # s) = ucast (byte_of c) # multi_decode ec ex s"
  using assms by (cases ec) (simp_all add: multi_decode.simps(2))

text \<open>One code point at a time.\<close>

lemma escape_loop_utf32:
  assumes "0 \<notin> set cs" "i \<le> 0x7FFFFFFF"
  shows "escape_loop ec ex wl i (map byte_of (utf32 cs)) =
    (if i + 4 * int (length cs) \<le> 0x7FFFFFFF then Ret (Some (concat (map (escape_char_of ec ex wl \<circ> ucast) cs))) else Crash)"
  using assms
proof (induction cs arbitrary: i)
  case (Cons c cs)
  obtain b0 b1 b2 b3 where b: "map byte_of (utf32_char c) = [b0, b1, b2, b3]" by (simp add: utf32_char_def)
  then have "escape_value [b0, b1, b2, b3] = ucast c" using escape_value_utf32 [of c] by simp
  moreover have "(ucast c :: u64) \<noteq> 0" using Cons.prems by (simp add: word_unat_eq_iff unat_ucast_32_64)
  ultimately show ?case using Cons.IH [of "i + 4"] Cons.prems by (simp add: utf32_def b comp_def)
qed (simp add: utf32_def)

lemma length_utf32: "length (utf32 cs) = 4 * length cs"
  by (induction cs) (simp_all add: utf32_def utf32_char_def)

lemma escape_multi_utf32:
  assumes "0 \<notin> set cs" "cs \<noteq> []"
  shows "dao_escape_multi printable (ZStr (utf32 cs)) ec ex wl =
    (if length cs < 2 ^ 29 then Ret (ZStr (concat (map (escape_char_of ec ex wl \<circ> ucast) cs))) else Crash)"
proof -
  have "utf32 cs \<noteq> []" using assms(2) length_utf32 [of cs] by auto
  then show ?thesis
    using escape_loop_utf32 [OF assms(1), of 0]
    by (simp add: dao_escape_multi_def printable_str_def length_utf32 Let_def)
qed

text \<open>A code point that is left as it is.\<close>

lemma escape_char_cases:
  fixes c :: u32
  obtains (plain) ch where "escape_char_of ec ex wl (ucast c) = [ch]" "ucast (byte_of ch) = c"
      "is_alnum ch \<or> (wl \<and> ch \<in> set escape_whitelist)"
  | (hex) "escape_char_of ec ex wl (ucast c) = ec @ dao_longtohex (ucast c) @ (if ex \<noteq> NUL then [ex] else [])"
proof (cases "(32 < (ucast c :: u64) \<and> (ucast c :: u64) < 127 \<and> is_alnum (chr_of (ucast (ucast c :: u64)))) \<or>
    (wl \<and> (ucast c :: u64) \<in> set (map (ucast \<circ> byte_of) escape_whitelist))")
  case True
  let ?ch = "chr_of (ucast (ucast c :: u64))"
  have "unat c < 256" "is_alnum ?ch \<or> (wl \<and> ?ch \<in> set escape_whitelist)"
  proof -
    have bk: "ucast (ucast (b :: u8) :: u64) = b" for b by (rule bit_word_eqI) (auto simp: bit_simps)
    have u: "unat (ucast c :: u64) = unat c" by simp
    show "is_alnum ?ch \<or> (wl \<and> ?ch \<in> set escape_whitelist)"
      using True by (auto simp: bk)
    have "unat (ucast (b :: u8) :: u64) < 256" for b using unat_u8_less [of b] by simp
    moreover from True have "unat (ucast c :: u64) < 127 \<or> (\<exists>b :: u8. (ucast c :: u64) = ucast b)"
      by (auto simp: word_less_nat_alt)
    ultimately have "unat (ucast c :: u64) < 256" by fastforce
    then show "unat c < 256" unfolding u .
  qed
  moreover from this have "ucast (byte_of ?ch) = c"
    by (simp add: word_unat_eq_iff unat_ucast_to_8)
  moreover have "escape_char_of ec ex wl (ucast c) = [?ch]" using True by (auto simp: escape_char_of_def)
  ultimately show thesis using plain by blast
next
  case False
  then have "escape_char_of ec ex wl (ucast c) = ec @ dao_longtohex (ucast c) @ (if ex \<noteq> NUL then [ex] else [])"
    unfolding escape_char_of_def by (auto simp del: set_map)
  then show thesis by (rule hex)
qed

lemma decode_escape_char:
  assumes "ec \<noteq> []" "ex \<notin> set hex_digits" "ex \<noteq> NUL" "\<not> is_alnum (hd ec)" "wl \<longrightarrow> hd ec \<notin> set escape_whitelist"
  shows "multi_decode ec ex (escape_char_of ec ex wl (ucast c) @ s) = c # multi_decode ec ex s"
proof (cases rule: escape_char_cases [of ec ex wl c])
  case (plain ch)
  then show ?thesis using decode_plain [of ec ch ex s] assms by auto
next
  case hex
  have "ucast (ucast c :: u64) = c" by (rule bit_word_eqI) (auto simp: bit_simps)
  then show ?thesis using hex decode_escape [OF assms(1,2), of "ucast c" s] assms(3) by simp
qed

lemma decode_escape_multi:
  assumes "ec \<noteq> []" "ex \<notin> set hex_digits" "ex \<noteq> NUL" "\<not> is_alnum (hd ec)" "wl \<longrightarrow> hd ec \<notin> set escape_whitelist"
    and "0 \<notin> set cs" "cs \<noteq> []" "length cs < 2 ^ 29"
  shows "\<exists>r. dao_escape_multi printable (ZStr (utf32 cs)) ec ex wl = Ret (ZStr r) \<and> multi_decode ec ex r = cs"
proof -
  have "multi_decode ec ex (concat (map (escape_char_of ec ex wl \<circ> ucast) cs)) = cs"
    by (induction cs) (simp_all add: decode_escape_char [OF assms(1-5)])
  then show ?thesis using escape_multi_utf32 [OF assms(6,7)] assms(8) by simp
qed

text \<open>
  C29. Escaping for CSS and for HTML attributes loses nothing and confuses nothing:
  for every non-empty UTF-32 text without a zero code point that is shorter than 2^31 bytes (2^29
  code points), a reader that takes the prefix, the hexadecimal digits after it and the end
  character as one code point, and every other character as itself, recovers the text from what
  \<open>dao_escape_css\<close> and \<open>dao_escape_htmlattr\<close> return.
\<close>

theorem escape_roundtrip:
  assumes "0 \<notin> set cs" "cs \<noteq> []" "length cs < 2 ^ 29"
  shows "(\<exists>r. dao_escape_css printable (ZStr (utf32 cs)) = Ret (ZStr r) \<and> multi_decode [CHR 0x5C] (CHR '' '') r = cs) \<and>
    (\<exists>r. dao_escape_htmlattr printable (ZStr (utf32 cs)) = Ret (ZStr r) \<and> multi_decode ''&#x'' (CHR '';'') r = cs)"
proof (intro conjI)
  have a: "\<not> is_alnum (CHR 0x5C)" "\<not> is_alnum (CHR ''&'')" "CHR ''&'' \<notin> set escape_whitelist"
    "CHR '' '' \<notin> set hex_digits" "CHR '';'' \<notin> set hex_digits"
    by code_simp+
  show "\<exists>r. dao_escape_css printable (ZStr (utf32 cs)) = Ret (ZStr r) \<and> multi_decode [CHR 0x5C] (CHR '' '') r = cs"
    unfolding dao_escape_css_def by (rule decode_escape_multi) (use a assms in simp_all)
  show "\<exists>r. dao_escape_htmlattr printable (ZStr (utf32 cs)) = Ret (ZStr r) \<and> multi_decode ''&#x'' (CHR '';'') r = cs"
    unfolding dao_escape_htmlattr_def by (rule decode_escape_multi) (use a assms in simp_all)
qed

theorem escape_roundtrip_witness:
  "\<exists>r. dao_escape_css (\<lambda>_. []) (ZStr (utf32 [0x61, 0x20AC, 0x22])) = Ret (ZStr r) \<and>
     multi_decode [CHR 0x5C] (CHR '' '') r = [0x61, 0x20AC, 0x22]"
  using escape_roundtrip [of "[0x61, 0x20AC, 0x22]"] by simp

text \<open>
  From 2^31 bytes on, the index of the loop overflows before the text is read.
\<close>

theorem escape_overflow:
  assumes "0 \<notin> set cs" "2 ^ 29 \<le> length cs"
  shows "dao_escape_css printable (ZStr (utf32 cs)) = Crash \<and> dao_escape_js printable (ZStr (utf32 cs)) = Crash \<and>
    dao_escape_htmlattr printable (ZStr (utf32 cs)) = Crash"
proof -
  have "cs \<noteq> []" using assms(2) by auto
  then show ?thesis
    using escape_multi_utf32 [OF assms(1)] assms(2)
    by (simp add: dao_escape_css_def dao_escape_js_def dao_escape_htmlattr_def)
qed

theorem escape_overflow_witness: "dao_escape_css (\<lambda>_. []) (ZStr (utf32 (replicate (2 ^ 29) 0x61))) = Crash"
proof -
  have "0 \<notin> set (replicate n (0x61 :: u32))" for n by auto
  from escape_overflow [OF this order_eq_refl [OF length_replicate [symmetric]]] show ?thesis by (rule conjunct1)
qed

text \<open>
  Escaping for JavaScript is not injective: the escape has no end character
  and no fixed width, so the one code point 20AC (the euro sign) and the two code points 20A and c
  become the same text; and a backslash is left as it is, so the text of a string that ends in one
  escapes the closing quote.
\<close>

theorem escape_js_ambiguous:
  "dao_escape_js printable (ZStr (utf32 [0x20AC])) = dao_escape_js printable (ZStr (utf32 [0x20A, 0x63])) \<and>
   dao_escape_js printable (ZStr (utf32 [0x5C])) = Ret (ZStr [CHR 0x5C])"
proof -
  have "dao_escape_js (\<lambda>_. []) (ZStr (utf32 [0x20AC])) = dao_escape_js (\<lambda>_. []) (ZStr (utf32 [0x20A, 0x63]))"
    "dao_escape_js (\<lambda>_. []) (ZStr (utf32 [0x5C])) = Ret (ZStr [CHR 0x5C])" by code_simp+
  then show ?thesis by (simp add: dao_escape_js_def dao_escape_multi_def printable_str_def)
qed

section \<open>Filters and charsets\<close>

lemma charset_loop_ge: "charset_loop f bs \<noteq> None \<longleftrightarrow> list_all (\<lambda>b. 128 \<le> b) bs"
proof (induction bs arbitrary: f)
  case (Cons b bs)
  have "b \<le> 159 \<or> 160 \<le> b"
  proof -
    have "unat b \<le> 159 \<or> 160 \<le> unat b" by linarith
    then show ?thesis by (simp add: word_le_nat_alt)
  qed
  moreover have "(128 :: u8) \<le> 172" "(0 :: u8) < 128" by simp_all
  moreover have "128 \<le> b" if "160 \<le> b" using that by (simp add: word_le_nat_alt)
  ultimately show ?case using Cons by auto
qed simp

text \<open>
  Contrary to its comment, \<open>dao_is_basic_charset\<close> recognises no ASCII
  text: it returns false for every string that has a byte below 128, and answers "ASCII" or
  "ISO-8859-1" for the strings of bytes from 128 on only (and for the empty string).
\<close>

theorem basic_charset_rejects_ascii:
  "(dao_is_basic_charset (ZStr s) = Ret (ZBool False)) = (\<not> list_all (\<lambda>c. 128 \<le> byte_of c) s)"
  using charset_loop_ge [of False "map byte_of s"]
  by (auto simp: dao_is_basic_charset_def list_all_iff split: option.splits)

lemma filter_loops:
  "alphanum_loop s = filter is_alnum (takeWhile (\<lambda>c. c \<noteq> NUL) s)"
  "identifier_loop s = filter (\<lambda>c. is_alnum c \<or> c = CHR ''_'') (takeWhile (\<lambda>c. c \<noteq> NUL) s)"
  by (induction s) auto

text \<open>
  \<open>normalizeEncoding\<close> passes the escaper, not the text, to \<open>detectEncoding\<close>,
  which reads the object as a string: with mbstring, \<open>escapeCss\<close> and \<open>escapeJs\<close> of any text that
  is not empty and not "0" do what C leaves undefined, whatever the settings of the escaper.
\<close>

theorem escaper_wrong_argument:
  assumes "ee_mb env" "s \<noteq> []" "s \<noteq> ''0''"
  shows "escaper_escapeCss env esc (ZStr s) = Crash \<and> escaper_escapeJs env esc (ZStr s) = Crash"
  using assms
  by (simp_all add: escaper_escapeCss_def escaper_escapeJs_def str_true_def escaper_normalizeEncoding_def
      escaper_detectEncoding_def dao_is_basic_charset_def)

definition escaper_env_example :: escaper_env where
  "escaper_env_example = \<lparr>ee_printable = \<lambda>_. [], ee_mb = True, ee_detect = \<lambda>_ c. c = ''UTF-8'',
     ee_detect_default = \<lambda>_. ZBool False, ee_convert = \<lambda>v _ _. v, ee_html = \<lambda>_ _ _ s. s, ee_url = \<lambda>s. s\<rparr>"

theorem escaper_wrong_argument_witness:
  "escaper_escapeCss escaper_env_example (escaper_new 1) (ZStr ''a{b}'') = Crash"
  using escaper_wrong_argument [of escaper_env_example "''a{b}''"] by (simp add: escaper_env_example_def)

end
