(* ===== verification/MemoryPool.thy ===== *)
theory MemoryPool imports Prelude begin

text \<open>
  The memory pool of \<open>kernel/mpool.c\<close> and \<open>kernel/mpool.h\<close>: a first-fit allocator inside one block
  of memory, with boundary tags of 16 bytes, a free list in address order and a bit for the head of
  each free block. A tag is named by its index; the memory of the caller starts 8 bytes into a tag,
  over its link field, so the links of allocated tags hold whatever the caller writes.
\<close>

section \<open>The pool\<close>

record mpool =
  mp_bom :: u64
  mp_size :: u64
  mp_balance :: u64
  mp_ntags :: nat
  mp_bits :: bytes
  mp_freetag :: "nat option"
  mp_tag_size :: "nat \<Rightarrow> u64"
  mp_tag_link :: "nat \<Rightarrow> nat option"

definition MP_BOM :: u64 where "MP_BOM = 0xfafafafafafafafa"

text \<open>\<open>sizeof(dao_memory_pool_tag)\<close> is 16, \<open>sizeof(dao_memory_pool)\<close> is 56.\<close>

definition mp_size_aligned :: "u64 \<Rightarrow> u64" where
  "mp_size_aligned need = 16 * (1 + (need + 8 - 1) div 16)"

definition mp_size_bits :: "u64 \<Rightarrow> u64" where
  "mp_size_bits ntags = (ntags + 7) div 8"

definition mp_tomem :: "nat \<Rightarrow> nat" where "mp_tomem tag = 16 * tag + 8"

definition mp_ofmem :: "nat \<Rightarrow> nat" where "mp_ofmem mem = (mem - 8) div 16"

definition mp_tag_next :: "nat \<Rightarrow> mpool \<Rightarrow> nat option" where
  "mp_tag_next tag p = mp_tag_link p tag"

definition mp_link :: "nat \<Rightarrow> nat option \<Rightarrow> mpool \<Rightarrow> mpool" where
  "mp_link tag l p = p\<lparr>mp_tag_link := (mp_tag_link p)(tag := l)\<rparr>"

definition mp_set_size :: "nat \<Rightarrow> u64 \<Rightarrow> mpool \<Rightarrow> mpool" where
  "mp_set_size tag sz p = p\<lparr>mp_tag_size := (mp_tag_size p)(tag := sz)\<rparr>"

definition mp_bits_set :: "nat \<Rightarrow> mpool \<Rightarrow> mpool" where
  "mp_bits_set tag p =
     p\<lparr>mp_bits := (mp_bits p)[tag div 8 := (mp_bits p ! (tag div 8)) OR push_bit (tag mod 8) 1]\<rparr>"

definition mp_bits_drop :: "nat \<Rightarrow> mpool \<Rightarrow> mpool" where
  "mp_bits_drop tag p =
     p\<lparr>mp_bits := (mp_bits p)[tag div 8 := (mp_bits p ! (tag div 8)) AND NOT (push_bit (tag mod 8) 1)]\<rparr>"

fun mp_left_loop :: "bytes \<Rightarrow> nat \<Rightarrow> nat option" where
  "mp_left_loop bits 0 = None"
| "mp_left_loop bits (Suc b) =
     (if bits ! (b div 8) \<noteq> 0 \<and> push_bit (b mod 8) 1 = (bits ! (b div 8)) AND push_bit (b mod 8) 1
      then Some b else mp_left_loop bits b)"

definition mp_tag_left :: "nat \<Rightarrow> mpool \<Rightarrow> nat option" where
  "mp_tag_left tag p = mp_left_loop (mp_bits p) tag"

text \<open>Merging may loop for ever on a corrupt list: then there is no result.\<close>

partial_function (option) mp_merge_loop :: "nat \<Rightarrow> mpool \<Rightarrow> mpool option" where
  "mp_merge_loop tag p =
     (if mp_tag_next tag p = None then Some p
      else let n = the (mp_tag_next tag p) in
        if 16 * n > 16 * tag + unat (mp_tag_size p tag) then Some p
        else mp_merge_loop tag
          (mp_bits_drop n (mp_link tag (mp_tag_next n p) (mp_set_size tag (mp_tag_size p tag + mp_tag_size p n) p))))"

definition mp_merge :: "nat \<Rightarrow> mpool \<Rightarrow> mpool option" where
  "mp_merge tag p = map_option (mp_bits_set tag) (mp_merge_loop tag p)"

section \<open>Creating a pool\<close>

definition mp_size_hint :: "u64 \<Rightarrow> u64 \<Rightarrow> u64" where
  "mp_size_hint itemsize nitem =
     (let tagssize = mp_size_aligned itemsize * nitem; bitssize = mp_size_bits (tagssize div 16)
      in tagssize + bitssize + 56)"

text \<open>The number of tags that fit, counted down; the products cannot overflow below the first one.\<close>

fun mp_fit :: "u64 \<Rightarrow> nat \<Rightarrow> nat" where
  "mp_fit asize 0 = 0"
| "mp_fit asize (Suc n) =
     (if mp_size_bits (of_nat (Suc n)) + of_nat (Suc n) * 16 > asize then mp_fit asize n else Suc n)"

definition mp_size_stuff :: "u64 \<Rightarrow> u64" where
  "mp_size_stuff memsize =
     (let asize = memsize - mp_size_hint 0 0; ntags = mp_fit asize (unat (asize div 16))
      in memsize - (of_nat ntags * 16 - 8))"

text \<open>
  Clearing writes the first tag after the pool's header and the bits; with no room for a tag that
  write is outside the memory.
\<close>

definition mp_clear :: "mpool \<Rightarrow> mpool outcome" where
  "mp_clear p =
     (let nbits = unat (mp_size_bits (of_nat (mp_ntags p)));
          p = p\<lparr>mp_bits := replicate nbits 0, mp_freetag := Some 0\<rparr>
      in if 56 + nbits + 16 \<le> unat (mp_size p)
         then Ret (mp_link 0 None (mp_set_size 0 (of_nat (mp_ntags p) * 16) p))
         else Crash)"

text \<open>\<open>garbage\<close> is what the memory held before.\<close>

definition mp_format :: "mpool \<Rightarrow> u64 \<Rightarrow> mpool option outcome" where
  "mp_format garbage nsrc =
     (if nsrc < mp_size_hint 0 0 then Ret None
      else
        (let asize = nsrc - mp_size_hint 0 0;
             ntags = mp_fit asize (unat (asize div 16));
             p = garbage\<lparr>mp_bom := MP_BOM, mp_size := nsrc, mp_balance := 0, mp_ntags := ntags\<rparr>
         in case mp_clear p of Ret p \<Rightarrow> Ret (Some p) | Throw e \<Rightarrow> Throw e | Crash \<Rightarrow> Crash))"

definition mp_attach :: "mpool \<Rightarrow> mpool option" where
  "mp_attach p = (if MP_BOM = (MP_BOM AND mp_bom p) then Some p else None)"

definition mp_memory_size :: "mpool \<Rightarrow> u64" where "mp_memory_size p = mp_size p"

definition mp_capacity :: "mpool \<Rightarrow> u64" where
  "mp_capacity p = (if mp_ntags p = 0 then 0 else of_nat (mp_ntags p) * 16 - 8)"

partial_function (option) mp_avail_loop :: "mpool \<Rightarrow> nat option \<Rightarrow> u64 \<Rightarrow> u64 option" where
  "mp_avail_loop p tag avail =
     (if tag = None then Some avail
      else mp_avail_loop p (mp_tag_next (the tag) p) (avail + (mp_tag_size p (the tag) - 8)))"

definition mp_avail :: "mpool \<Rightarrow> u64 option" where
  "mp_avail p = mp_avail_loop p (mp_freetag p) 0"

section \<open>Allocating and freeing\<close>

text \<open>The first free tag that is large enough, and the free tag before it.\<close>

partial_function (option) mp_find :: "mpool \<Rightarrow> u64 \<Rightarrow> nat option \<Rightarrow> nat option \<Rightarrow> (nat option \<times> nat option) option" where
  "mp_find p aligned prev tag =
     (if tag = None then Some (prev, None)
      else if mp_tag_size p (the tag) < aligned then mp_find p aligned tag (mp_tag_next (the tag) p)
      else Some (prev, tag))"

text \<open>The outer option is \<open>None\<close> when the call does not return; the inner one is the pointer.\<close>

definition mp_alloc :: "mpool \<Rightarrow> u64 \<Rightarrow> (nat option \<times> mpool) option" where
  "mp_alloc p sz =
     (let aligned = mp_size_aligned sz in
      Option.bind (mp_find p aligned None (mp_freetag p)) (\<lambda>(prev, t).
        if t = None then Some (None, p)
        else
          (let tag = the t in
           Option.bind
             (if mp_tag_size p tag > aligned then
                (let n = tag + unat aligned div 16;
                     p = mp_set_size n (mp_tag_size p tag - aligned) p;
                     p = mp_set_size tag aligned p;
                     p = mp_link n (mp_tag_next tag p) p;
                     p = mp_link tag (Some n) p
                 in mp_merge n p)
              else Some p) (\<lambda>p.
             let p = (if prev \<noteq> None then mp_link (the prev) (mp_tag_next tag p) p
                      else p\<lparr>mp_freetag := mp_tag_next tag p\<rparr>);
                 p = mp_bits_drop tag p;
                 p = p\<lparr>mp_balance := mp_balance p + aligned\<rparr>
             in Some (Some (mp_tomem tag), p)))))"

definition mp_free :: "mpool \<Rightarrow> nat option \<Rightarrow> mpool option" where
  "mp_free p ptr =
     (if ptr = None then Some p
      else
        (let tag = mp_ofmem (the ptr) in
         if mp_balance p < mp_tag_size p tag then Some p
         else
           (let p = p\<lparr>mp_balance := mp_balance p - mp_tag_size p tag\<rparr>; tmp = mp_freetag p in
            if tmp = None \<or> the tmp > tag then
              map_option (\<lambda>p. p\<lparr>mp_freetag := Some tag\<rparr>) (mp_merge tag (mp_link tag tmp p))
            else
              (let tmp = mp_tag_left tag p in
               if tmp = None then Some p
               else Option.bind
                 (mp_merge tag (mp_link (the tmp) (Some tag) (mp_link tag (mp_tag_next (the tmp) p) p)))
                 (mp_merge (the tmp))))))"

text \<open>\<open>memcpy(np, ptr, tag->size - 8)\<close>: the link of the first tag and the tags that follow.\<close>

definition mp_store :: "(nat \<Rightarrow> nat option) \<Rightarrow> (nat \<Rightarrow> u64) \<Rightarrow> nat \<Rightarrow> nat \<Rightarrow> mpool \<Rightarrow> mpool" where
  "mp_store f g t n p =
     p\<lparr>mp_tag_link := (\<lambda>i. if t \<le> i \<and> i < t + n then f (i - t) else mp_tag_link p i),
       mp_tag_size := (\<lambda>i. if t < i \<and> i < t + n then g (i - t) else mp_tag_size p i)\<rparr>"

definition mp_memcpy :: "nat \<Rightarrow> nat \<Rightarrow> mpool \<Rightarrow> mpool" where
  "mp_memcpy t' t p =
     mp_store (\<lambda>i. mp_tag_link p (t + i)) (\<lambda>i. mp_tag_size p (t + i)) t' (unat (mp_tag_size p t) div 16) p"

definition mp_realloc :: "mpool \<Rightarrow> nat option \<Rightarrow> u64 \<Rightarrow> (nat option \<times> mpool) option" where
  "mp_realloc p ptr newsz =
     (if ptr = None then mp_alloc p newsz
      else
        (let aligned = mp_size_aligned newsz; tag = mp_ofmem (the ptr) in
         if aligned = mp_tag_size p tag then Some (ptr, p)
         else if mp_tag_size p tag < aligned then
           Option.bind (mp_alloc p newsz) (\<lambda>(np, p).
             if np = None then Some (None, p)
             else map_option (\<lambda>p. (np, p)) (mp_free (mp_memcpy (mp_ofmem (the np)) tag p) ptr))
         else
           (let n = tag + unat aligned div 16;
                p = mp_set_size n (mp_tag_size p tag - aligned) p;
                p = mp_set_size tag aligned p
            in if mp_balance p < mp_tag_size p n then Some (None, p)
               else
                 (let p = p\<lparr>mp_balance := mp_balance p - mp_tag_size p n\<rparr>; tmp = mp_freetag p in
                  if tmp = None \<or> the tmp > n then
                    map_option (\<lambda>p. (ptr, p)) (mp_merge n (mp_link n tmp (p\<lparr>mp_freetag := Some n\<rparr>)))
                  else
                    (let tmp = mp_tag_left tag p in
                     if tmp = None then Some (None, p)
                     else map_option (\<lambda>p. (ptr, p))
                       (Option.bind
                         (mp_merge n (mp_link (the tmp) (Some n) (mp_link n (mp_tag_next (the tmp) p) p)))
                         (mp_merge (the tmp))))))))"

section \<open>The pool as a list of segments\<close>

text \<open>A segment is a number of tags and whether it is in use; the segments tile the pool.\<close>

type_synonym seg = "nat \<times> bool"

definition seg_total :: "seg list \<Rightarrow> nat" where
  "seg_total segs = sum_list (map fst segs)"

fun first_free :: "nat \<Rightarrow> seg list \<Rightarrow> nat option" where
  "first_free pos [] = None"
| "first_free pos ((s, u) # segs) = (if u then first_free (pos + s) segs else Some pos)"

fun last_free :: "nat \<Rightarrow> seg list \<Rightarrow> nat option \<Rightarrow> nat option" where
  "last_free pos [] prev = prev"
| "last_free pos ((s, u) # segs) prev = last_free (pos + s) segs (if u then prev else Some pos)"

fun free_starts :: "nat \<Rightarrow> seg list \<Rightarrow> nat set" where
  "free_starts pos [] = {}"
| "free_starts pos ((s, u) # segs) = (if u then {} else {pos}) \<union> free_starts (pos + s) segs"

definition free_head :: "seg list \<Rightarrow> bool" where
  "free_head segs = (segs \<noteq> [] \<and> \<not> snd (hd segs))"

fun coalesced :: "seg list \<Rightarrow> bool" where
  "coalesced [] = True"
| "coalesced ((s, u) # segs) = (0 < s \<and> (u \<or> \<not> free_head segs) \<and> coalesced segs)"

text \<open>The links of a run of segments, whose last free one points to \<open>q\<close>.\<close>

definition or_else :: "nat option \<Rightarrow> nat option \<Rightarrow> nat option" where
  "or_else a q = (if a = None then q else a)"

fun chained :: "mpool \<Rightarrow> nat \<Rightarrow> seg list \<Rightarrow> nat option \<Rightarrow> bool" where
  "chained p pos [] q = True"
| "chained p pos ((s, u) # segs) q =
     (mp_tag_size p pos = of_nat (16 * s) \<and>
      (u \<or> mp_tag_link p pos = or_else (first_free (pos + s) segs) q) \<and> chained p (pos + s) segs q)"

lemma or_else_simps [simp]: "or_else None q = q" "or_else (Some x) q = Some x" "or_else a None = a"
  "or_else (or_else a b) c = or_else a (or_else b c)"
  by (auto simp: or_else_def)

lemma seg_total_simps [simp]: "seg_total [] = 0" "seg_total ((s, u) # segs) = s + seg_total segs"
  "seg_total (xs @ ys) = seg_total xs + seg_total ys"
  by (simp_all add: seg_total_def)

lemma first_free_append: "first_free pos (xs @ ys) = or_else (first_free pos xs) (first_free (pos + seg_total xs) ys)"
  by (induction pos xs rule: first_free.induct) (auto simp: add.assoc)

lemma chained_append:
  "chained p pos (xs @ ys) q =
     (chained p pos xs (or_else (first_free (pos + seg_total xs) ys) q) \<and> chained p (pos + seg_total xs) ys q)"
  by (induction p pos xs q rule: chained.induct) (auto simp: first_free_append add.assoc)

lemma free_starts_append: "free_starts pos (xs @ ys) = free_starts pos xs \<union> free_starts (pos + seg_total xs) ys"
  by (induction pos xs rule: free_starts.induct) (auto simp: add.assoc)

lemma coalesced_append:
  "coalesced (xs @ ys) = (coalesced xs \<and> coalesced ys \<and> (xs = [] \<or> snd (last xs) \<or> \<not> free_head ys))"
  by (induction xs rule: coalesced.induct) (auto simp: free_head_def hd_append)

lemma free_starts_range: "coalesced segs \<Longrightarrow> x \<in> free_starts pos segs \<Longrightarrow> pos \<le> x \<and> x < pos + seg_total segs"
  by (induction pos segs rule: free_starts.induct) (fastforce split: if_splits)+

lemma first_free_range: "coalesced segs \<Longrightarrow> first_free pos segs = Some x \<Longrightarrow> pos \<le> x \<and> x < pos + seg_total segs"
  by (induction pos segs rule: first_free.induct) (fastforce split: if_splits)+

lemma first_free_head:
  assumes "coalesced segs"
  shows "first_free pos segs = Some pos \<longleftrightarrow> free_head segs"
  using assms first_free_range [of "tl segs"]
  by (cases segs) (fastforce simp: free_head_def)+

text \<open>Only the tags at the heads of segments matter.\<close>

lemma chained_cong:
  assumes "coalesced segs" "\<And>i. pos \<le> i \<Longrightarrow> i < pos + seg_total segs \<Longrightarrow> mp_tag_size p' i = mp_tag_size p i"
    "\<And>i. pos \<le> i \<Longrightarrow> i < pos + seg_total segs \<Longrightarrow> mp_tag_link p' i = mp_tag_link p i"
  shows "chained p' pos segs q = chained p pos segs q"
  using assms
proof (induction p pos segs q rule: chained.induct)
  case (2 p pos s u segs q)
  have "chained p' (pos + s) segs q = chained p (pos + s) segs q"
    by (rule 2(1)) (use 2(2) 2(3) 2(4) in auto)
  then show ?case using 2(2) 2(3) [of pos] 2(4) [of pos] by simp
qed simp

lemma no_free:
  assumes "list_all snd segs"
  shows "first_free pos segs = None" "free_starts pos segs = {}" "last_free pos segs prev = prev"
    "chained p pos segs q = chained p pos segs q'"
  using assms by (induction segs arbitrary: pos) (auto simp: split: prod.splits)

lemma last_free_split:
  "(list_all snd segs \<and> last_free pos segs prev = prev) \<or>
   (\<exists>l s r. segs = l @ (s, False) # r \<and> list_all snd r \<and> last_free pos segs prev = Some (pos + seg_total l))"
proof (induction pos segs prev rule: last_free.induct)
  case (2 pos s u segs prev)
  then show ?case
  proof (elim disjE exE conjE)
    assume a: "list_all snd segs" "last_free (pos + s) segs (if u then prev else Some pos) = (if u then prev else Some pos)"
    show ?thesis
    proof (cases u)
      case False
      then show ?thesis using a by (intro disjI2 exI [of _ "[]"]) simp
    qed (use a in simp)
  next
    fix l s' r
    assume "segs = l @ (s', False) # r" "list_all snd r"
      "last_free (pos + s) segs (if u then prev else Some pos) = Some (pos + s + seg_total l)"
    then show ?thesis by (intro disjI2 exI [of _ "(s, u) # l"] exI [of _ s'] exI [of _ r]) simp
  qed
qed simp

text \<open>Linking the last free segment of a run.\<close>

lemma mp_link_simps [simp]:
  "mp_tag_link (mp_link t l p) i = (if i = t then l else mp_tag_link p i)"
  "mp_tag_size (mp_link t l p) = mp_tag_size p" "mp_bits (mp_link t l p) = mp_bits p"
  "mp_freetag (mp_link t l p) = mp_freetag p" "mp_balance (mp_link t l p) = mp_balance p"
  "mp_ntags (mp_link t l p) = mp_ntags p" "mp_size (mp_link t l p) = mp_size p"
  by (simp_all add: mp_link_def)

lemma mp_set_size_simps [simp]:
  "mp_tag_size (mp_set_size t z p) i = (if i = t then z else mp_tag_size p i)"
  "mp_tag_link (mp_set_size t z p) = mp_tag_link p" "mp_bits (mp_set_size t z p) = mp_bits p"
  "mp_freetag (mp_set_size t z p) = mp_freetag p" "mp_balance (mp_set_size t z p) = mp_balance p"
  "mp_ntags (mp_set_size t z p) = mp_ntags p" "mp_size (mp_set_size t z p) = mp_size p"
  by (simp_all add: mp_set_size_def)

lemma mp_bits_simps [simp]:
  "mp_tag_size (mp_bits_set t p) = mp_tag_size p" "mp_tag_link (mp_bits_set t p) = mp_tag_link p"
  "mp_freetag (mp_bits_set t p) = mp_freetag p" "mp_balance (mp_bits_set t p) = mp_balance p"
  "mp_ntags (mp_bits_set t p) = mp_ntags p" "mp_size (mp_bits_set t p) = mp_size p"
  "mp_tag_size (mp_bits_drop t p) = mp_tag_size p" "mp_tag_link (mp_bits_drop t p) = mp_tag_link p"
  "mp_freetag (mp_bits_drop t p) = mp_freetag p" "mp_balance (mp_bits_drop t p) = mp_balance p"
  "mp_ntags (mp_bits_drop t p) = mp_ntags p" "mp_size (mp_bits_drop t p) = mp_size p"
  "length (mp_bits (mp_bits_set t p)) = length (mp_bits p)"
  "length (mp_bits (mp_bits_drop t p)) = length (mp_bits p)"
  by (simp_all add: mp_bits_set_def mp_bits_drop_def)

lemma chained_relink:
  assumes "chained p pos (l @ (s, False) # r) q" "list_all snd r" "coalesced (l @ (s, False) # r)"
  shows "chained (mp_link (pos + seg_total l) q' p) pos (l @ (s, False) # r) q'"
proof -
  let ?x = "pos + seg_total l" and ?p = "mp_link (pos + seg_total l) q' p"
  have c: "coalesced l" "coalesced r" "0 < s" using assms(3) by (auto simp: coalesced_append)
  have "chained ?p pos l (Some ?x)"
    using assms(1) chained_cong [OF c(1), of pos ?p p "Some ?x"] by (simp add: chained_append)
  moreover have "chained ?p (?x + s) r q'"
    using assms(1) chained_cong [OF c(2), of "?x + s" ?p p q'] no_free(4) [OF assms(2), of p "?x + s" q q'] c(3)
    by (simp add: chained_append)
  ultimately show ?thesis
    using assms(1) no_free(1) [OF assms(2)] by (simp add: chained_append)
qed

section \<open>The bits\<close>

definition bset :: "mpool \<Rightarrow> nat set" where
  "bset p = {i. i div 8 < length (mp_bits p) \<and> bit (mp_bits p ! (i div 8)) (i mod 8)}"

lemma same_bit: "i div 8 = j div 8 \<Longrightarrow> i mod 8 = j mod 8 \<Longrightarrow> i = (j :: nat)"
  by (metis div_mod_decomp)

lemma bset_set: "t div 8 < length (mp_bits p) \<Longrightarrow> bset (mp_bits_set t p) = insert t (bset p)"
  using same_bit [of _ t]
  by (auto simp: bset_def mp_bits_set_def nth_list_update bit_simps split: if_splits)

lemma bset_drop: "t div 8 < length (mp_bits p) \<Longrightarrow> bset (mp_bits_drop t p) = bset p - {t}"
  using same_bit [of _ t]
  by (auto simp: bset_def mp_bits_drop_def nth_list_update bit_simps split: if_splits)

lemma bset_link [simp]: "bset (mp_link t l p) = bset p" "bset (mp_set_size t z p) = bset p"
  by (simp_all add: bset_def)

section \<open>Searching and merging\<close>

text \<open>The first free segment of at least \<open>k\<close> tags.\<close>

fun find_seg :: "nat \<Rightarrow> seg list \<Rightarrow> (seg list \<times> nat \<times> seg list) option" where
  "find_seg k [] = None"
| "find_seg k ((s, u) # segs) =
     (if \<not> u \<and> k \<le> s then Some ([], s, segs)
      else case find_seg k segs of None \<Rightarrow> None | Some (l, s', r) \<Rightarrow> Some ((s, u) # l, s', r))"

lemma find_seg_Some: "find_seg k segs = Some (l, s, r) \<Longrightarrow> segs = l @ (s, False) # r \<and> k \<le> s"
  by (induction k segs arbitrary: l rule: find_seg.induct) (auto split: if_splits option.splits)

lemma find_seg_None: "find_seg k segs = None \<longleftrightarrow> (\<forall>s. (s, False) \<in> set segs \<longrightarrow> s < k)"
  by (induction k segs rule: find_seg.induct) (auto split: if_splits option.splits)

lemma find_seg_first: "find_seg k segs = Some (l, s, r) \<Longrightarrow> \<forall>s'. (s', False) \<in> set l \<longrightarrow> s' < k"
  by (induction k segs arbitrary: l rule: find_seg.induct) (auto split: if_splits option.splits)

lemma size_less:
  assumes "16 * n < 2 ^ 63" "s \<le> n" "unat (a :: u64) = 16 * k"
  shows "of_nat (16 * s) < a \<longleftrightarrow> s < k" "of_nat (16 * s) > a \<longleftrightarrow> k < s" "of_nat (16 * s) = a \<longleftrightarrow> s = k"
proof -
  have "unat (of_nat (16 * s) :: u64) = 16 * s" by (rule unat_of_nat_u64) (use assms in simp)
  then show "of_nat (16 * s) < a \<longleftrightarrow> s < k" "of_nat (16 * s) > a \<longleftrightarrow> k < s" "of_nat (16 * s) = a \<longleftrightarrow> s = k"
    using assms(3) by (simp_all add: word_less_nat_alt word_unat_eq_iff)
qed

lemma mp_find:
  assumes "chained p pos segs None" "16 * (pos + seg_total segs) < 2 ^ 63" "unat a = 16 * k"
  shows "\<exists>prev'. mp_find p a prev (first_free pos segs) =
    (case find_seg k segs of None \<Rightarrow> Some (prev', None)
     | Some (l, s, r) \<Rightarrow> Some (last_free pos l prev, Some (pos + seg_total l)))"
  using assms(1,2)
proof (induction segs arbitrary: pos prev)
  case (Cons su segs)
  obtain s u where su: "su = (s, u)" by (cases su)
  have less: "of_nat (16 * s) < a \<longleftrightarrow> s < k" using size_less(1) [OF Cons.prems(2) _ assms(3)] su by simp
  obtain prev' where IH: "mp_find p a (if u then prev else Some pos) (first_free (pos + s) segs) =
    (case find_seg k segs of None \<Rightarrow> Some (prev', None)
     | Some (l, s', r) \<Rightarrow> Some (last_free (pos + s) l (if u then prev else Some pos), Some (pos + s + seg_total l)))"
    using Cons.IH [of "pos + s" "if u then prev else Some pos"] Cons.prems su by auto
  show ?case
  proof (cases u)
    case True
    then show ?thesis using IH su by (intro exI [of _ prev']) (auto split: option.splits)
  next
    case False
    have n: "mp_tag_size p pos = of_nat (16 * s)" "mp_tag_next pos p = first_free (pos + s) segs"
      using Cons.prems(1) su False by (auto simp: mp_tag_next_def)
    have "mp_find p a prev (Some pos) =
      (if s < k then mp_find p a (Some pos) (first_free (pos + s) segs) else Some (prev, Some pos))"
      using mp_find.simps [of p a prev "Some pos"] less n by simp
    then show ?thesis using IH su False by (intro exI [of _ prev']) (auto split: option.splits)
  qed
qed (simp add: mp_find.simps)

text \<open>The free segment after a tag is merged into it when it is adjacent.\<close>

lemma merge_apart:
  assumes "mp_tag_size p tag = of_nat (16 * s)" "mp_tag_link p tag = first_free (tag + s) segs"
    "coalesced segs" "\<not> free_head segs" "16 * s < 2 ^ 63"
  shows "mp_merge tag p = Some (mp_bits_set tag p)"
proof -
  have "16 * n > 16 * tag + unat (mp_tag_size p tag)" if "mp_tag_link p tag = Some n" for n
  proof -
    have "tag + s \<le> n" "n \<noteq> tag + s"
      using that assms(2-4) first_free_range [of segs "tag + s" n] first_free_head [of segs "tag + s"] by auto
    moreover have "unat (mp_tag_size p tag) = 16 * s"
      unfolding assms(1) by (rule unat_of_nat_u64) (use assms(5) in simp)
    ultimately show ?thesis by simp
  qed
  then have "mp_merge_loop tag p = Some p"
    by (subst mp_merge_loop.simps) (auto simp: mp_tag_next_def Let_def)
  then show ?thesis by (simp add: mp_merge_def)
qed

lemma merge_adjacent:
  assumes "mp_tag_size p tag = of_nat (16 * s)" "mp_tag_link p tag = Some (tag + s)" "0 < s"
    "chained p (tag + s) ((s', False) # segs) None" "coalesced ((s', False) # segs)" "16 * (s + s') < 2 ^ 63"
  shows "mp_merge tag p = Some (mp_bits_set tag (mp_bits_drop (tag + s)
    (mp_link tag (first_free (tag + s + s') segs) (mp_set_size tag (of_nat (16 * (s + s'))) p))))"
proof -
  let ?p = "mp_bits_drop (tag + s)
    (mp_link tag (first_free (tag + s + s') segs) (mp_set_size tag (of_nat (16 * (s + s'))) p))"
  have u: "unat (mp_tag_size p tag) = 16 * s"
    unfolding assms(1) by (rule unat_of_nat_u64) (use assms(6) in simp)
  have "mp_merge_loop tag p = mp_merge_loop tag ?p"
    using mp_merge_loop.simps [of tag p] assms(1,2,4) u
    by (simp add: mp_tag_next_def Let_def algebra_simps)
  moreover have "mp_merge tag ?p = Some (mp_bits_set tag ?p)"
    by (rule merge_apart [where s = "s + s'" and segs = segs]) (use assms(5,6) in \<open>simp_all add: add.assoc\<close>)
  ultimately show ?thesis by (simp add: mp_merge_def)
qed

text \<open>The nearest free segment on the left.\<close>

lemma bit_test: "(b \<noteq> 0 \<and> push_bit n 1 = b AND push_bit n 1) \<longleftrightarrow> bit b n" if "n < 8" for b :: u8
proof
  assume "bit b n"
  then show "b \<noteq> 0 \<and> push_bit n 1 = b AND push_bit n 1"
    using that by (auto intro!: bit_word_eqI simp: bit_simps)
next
  assume a: "b \<noteq> 0 \<and> push_bit n 1 = b AND push_bit n 1"
  have "bit (push_bit n (1 :: u8)) n" using that by (simp add: bit_simps)
  then have "bit (b AND push_bit n 1) n" using a by metis
  then show "bit b n" by (simp add: bit_and_iff)
qed

lemma left_loop:
  assumes "\<And>i. i < t \<Longrightarrow> i div 8 < length bits"
  shows "mp_left_loop bits t =
    (if \<exists>i<t. bit (bits ! (i div 8)) (i mod 8) then Some (GREATEST i. i < t \<and> bit (bits ! (i div 8)) (i mod 8)) else None)"
  using assms
proof (induction t)
  case (Suc t)
  have g: "(GREATEST i. i < Suc t \<and> bit (bits ! (i div 8)) (i mod 8)) =
    (if bit (bits ! (t div 8)) (t mod 8) then t else GREATEST i. i < t \<and> bit (bits ! (i div 8)) (i mod 8))"
  proof (cases "bit (bits ! (t div 8)) (t mod 8)")
    case True
    then show ?thesis by (auto intro: Greatest_equality)
  next
    case False
    then have "(i < Suc t \<and> bit (bits ! (i div 8)) (i mod 8)) = (i < t \<and> bit (bits ! (i div 8)) (i mod 8))" for i
      by (auto simp: less_Suc_eq)
    then show ?thesis using False by simp
  qed
  show ?case using Suc bit_test [of "t mod 8" "bits ! (t div 8)"] unfolding g by (auto simp: less_Suc_eq)
qed simp

lemma free_starts_last:
  "list_all snd r \<Longrightarrow> coalesced (l @ (s, False) # r) \<Longrightarrow> i \<in> free_starts pos (l @ (s, False) # r) \<Longrightarrow> i \<le> pos + seg_total l"
  using free_starts_range [of l i pos] no_free(2) [of r]
  by (auto simp: free_starts_append coalesced_append)

lemma tag_left:
  assumes "\<And>i. i < seg_total l \<Longrightarrow> i \<in> bset p \<longleftrightarrow> i \<in> free_starts 0 l" "seg_total l \<le> 8 * length (mp_bits p)" "coalesced l"
  shows "mp_tag_left (seg_total l) p = last_free 0 l None"
proof -
  have len: "i div 8 < length (mp_bits p)" if "i < seg_total l" for i using that assms(2) by simp
  have bit: "bit (mp_bits p ! (i div 8)) (i mod 8) \<longleftrightarrow> i \<in> free_starts 0 l" if "i < seg_total l" for i
    using assms(1) [OF that] len [OF that] by (simp add: bset_def)
  note ll = left_loop [of "seg_total l" "mp_bits p", OF len]
  show ?thesis using last_free_split [of l 0 None]
  proof (elim disjE exE conjE)
    assume "list_all snd l" "last_free 0 l None = None"
    then show ?thesis using ll bit no_free(2) [of l 0] by (auto simp: mp_tag_left_def)
  next
    fix l1 s r
    assume l: "l = l1 @ (s, False) # r" "list_all snd r" "last_free 0 l None = Some (0 + seg_total l1)"
    have x: "seg_total l1 < seg_total l" "seg_total l1 \<in> free_starts 0 l"
      using l(1) assms(3) by (simp_all add: free_starts_append coalesced_append)
    have "(GREATEST i. i < seg_total l \<and> bit (mp_bits p ! (i div 8)) (i mod 8)) = seg_total l1"
      by (rule Greatest_equality)
        (use x bit free_starts_last [OF l(2), where l = l1 and s = s and pos = 0] assms(3) l(1) in auto)
    then show ?thesis using ll x bit l(3) by (auto simp: mp_tag_left_def)
  qed
qed

section \<open>The invariant\<close>

definition used :: "seg list \<Rightarrow> nat" where
  "used segs = sum_list (map (\<lambda>(s, u). if u then s else 0) segs)"

lemma used_simps [simp]: "used [] = 0" "used ((s, u) # segs) = (if u then s else 0) + used segs"
  "used (xs @ ys) = used xs + used ys"
  by (simp_all add: used_def)

lemma used_le: "used segs \<le> seg_total segs"
  by (induction segs) auto

definition mp_inv :: "mpool \<Rightarrow> seg list \<Rightarrow> bool" where
  "mp_inv p segs \<longleftrightarrow>
     seg_total segs = mp_ntags p \<and> 16 * mp_ntags p < 2 ^ 63 \<and> coalesced segs \<and>
     mp_freetag p = first_free 0 segs \<and> chained p 0 segs None \<and>
     mp_ntags p \<le> 8 * length (mp_bits p) \<and>
     bset p \<subseteq> free_starts 0 segs \<and> (free_starts 0 segs \<subseteq> bset p \<or> segs = [(mp_ntags p, False)]) \<and>
     mp_balance p = of_nat (16 * used segs)"

lemma chained_eq:
  assumes "mp_tag_size p' = mp_tag_size p" "mp_tag_link p' = mp_tag_link p"
  shows "chained p' pos segs q = chained p pos segs q"
  using assms by (induction segs arbitrary: pos) auto

lemma chained_other [simp]:
  "chained (mp_bits_set t p) pos segs q = chained p pos segs q"
  "chained (mp_bits_drop t p) pos segs q = chained p pos segs q"
  "chained (p\<lparr>mp_freetag := x\<rparr>) pos segs q = chained p pos segs q"
  "chained (p\<lparr>mp_balance := b\<rparr>) pos segs q = chained p pos segs q"
  by (rule chained_eq; simp)+

text \<open>Making the last free segment of \<open>l\<close>, or the head of the list, point to \<open>q'\<close>.\<close>

definition relink :: "nat option \<Rightarrow> nat option \<Rightarrow> mpool \<Rightarrow> mpool" where
  "relink prev q p = (if prev \<noteq> None then mp_link (the prev) q p else p\<lparr>mp_freetag := q\<rparr>)"

lemma relink_simps [simp]:
  "mp_tag_size (relink prev q p) = mp_tag_size p" "mp_bits (relink prev q p) = mp_bits p"
  "mp_balance (relink prev q p) = mp_balance p" "mp_ntags (relink prev q p) = mp_ntags p"
  by (simp_all add: relink_def)

lemma relink:
  assumes "chained p pos l q" "coalesced l" "pos = 0 \<Longrightarrow> mp_freetag p = or_else (first_free 0 l) q"
  shows "chained (relink (last_free pos l None) q' p) pos l q'"
    "pos + seg_total l \<le> i \<Longrightarrow> mp_tag_link (relink (last_free pos l None) q' p) i = mp_tag_link p i"
    "pos = 0 \<Longrightarrow> mp_freetag (relink (last_free pos l None) q' p) = or_else (first_free 0 l) q'"
proof -
  have "chained (relink (last_free pos l None) q' p) pos l q' \<and>
    (pos + seg_total l \<le> i \<longrightarrow> mp_tag_link (relink (last_free pos l None) q' p) i = mp_tag_link p i) \<and>
    (pos = 0 \<longrightarrow> mp_freetag (relink (last_free pos l None) q' p) = or_else (first_free 0 l) q')"
    using last_free_split [of l pos None]
  proof (elim disjE exE conjE)
    assume l: "list_all snd l" "last_free pos l None = None"
    have "chained (p\<lparr>mp_freetag := q'\<rparr>) pos l q' = chained p pos l q'" by simp
    then show ?thesis
      using l assms(1) no_free(4) [OF l(1), of p pos q q'] no_free(1) [OF l(1)] no_free(3) [OF l(1), of 0 None]
      by (simp add: relink_def)
  next
    fix l1 s r
    assume l: "l = l1 @ (s, False) # r" "list_all snd r" "last_free pos l None = Some (pos + seg_total l1)"
    have "0 < s" using assms(2) l(1) by (simp add: coalesced_append)
    then show ?thesis
      using chained_relink [of p pos l1 s r q q'] assms l
      by (auto simp: relink_def first_free_append or_else_def)
  qed
  then show "chained (relink (last_free pos l None) q' p) pos l q'"
    "pos + seg_total l \<le> i \<Longrightarrow> mp_tag_link (relink (last_free pos l None) q' p) i = mp_tag_link p i"
    "pos = 0 \<Longrightarrow> mp_freetag (relink (last_free pos l None) q' p) = or_else (first_free 0 l) q'" by auto
qed

section \<open>Allocation\<close>

definition tags_needed :: "nat \<Rightarrow> nat" where
  "tags_needed n = 1 + (n + 7) div 16"

lemma aligned_tags:
  assumes "unat sz < 2 ^ 63"
  shows "unat (mp_size_aligned sz) = 16 * tags_needed (unat sz)" "0 < tags_needed (unat sz)"
proof -
  have "unat (sz + 8 - 1) = unat sz + 7"
    using assms by (simp add: unat_word_ariths)
  then have d: "(sz + 8 - 1) div 16 = of_nat ((unat sz + 7) div 16)"
    using assms by (simp add: word_unat_eq_iff unat_div, subst unat_of_nat_u64) auto
  have "mp_size_aligned sz = of_nat (16 * tags_needed (unat sz))"
    unfolding mp_size_aligned_def d tags_needed_def by simp
  moreover have "16 * tags_needed (unat sz) < 2 ^ 64"
  proof -
    have "(unat sz + 7) div 16 < 2 ^ 60 - 1" using assms by simp
    then show ?thesis by (simp add: tags_needed_def)
  qed
  ultimately show "unat (mp_size_aligned sz) = 16 * tags_needed (unat sz)" using unat_of_nat_u64 by metis
  show "0 < tags_needed (unat sz)" by (simp add: tags_needed_def)
qed

definition take_seg :: "nat \<Rightarrow> seg list \<Rightarrow> nat \<Rightarrow> seg list \<Rightarrow> seg list" where
  "take_seg k l s r = l @ (k, True) # (if s = k then r else (s - k, False) # r)"

lemma bset_rec [simp]: "bset (p\<lparr>mp_freetag := x\<rparr>) = bset p" "bset (p\<lparr>mp_balance := b\<rparr>) = bset p"
  "bset (relink prev q p) = bset p"
  by (simp_all add: bset_def)

text \<open>The split of a segment that is larger than needed.\<close>

lemma mp_split:
  assumes inv: "mp_inv p (l @ (s, False) # r)" and k: "0 < k" "k \<le> s" and a: "unat a = 16 * k"
  defines "tag \<equiv> seg_total l" and "R \<equiv> (if s = k then r else (s - k, False) # r)"
  shows "\<exists>p1. (if mp_tag_size p tag > a then
        (let n = tag + unat a div 16;
             p = mp_set_size n (mp_tag_size p tag - a) p;
             p = mp_set_size tag a p;
             p = mp_link n (mp_tag_next tag p) p;
             p = mp_link tag (Some n) p
         in mp_merge n p)
      else Some p) = Some p1 \<and>
    mp_tag_size p1 tag = a \<and> mp_tag_link p1 tag = first_free (tag + k) R \<and>
    chained p1 (tag + k) R None \<and> chained p1 0 l (Some tag) \<and> mp_freetag p1 = mp_freetag p \<and>
    mp_balance p1 = mp_balance p \<and> mp_ntags p1 = mp_ntags p \<and> length (mp_bits p1) = length (mp_bits p) \<and>
    bset p1 = (if s = k then bset p else insert (tag + k) (bset p))"
proof -
  have c: "coalesced l" "coalesced r" "\<not> free_head r" "0 < s"
    and ch: "chained p 0 l (Some tag)" "mp_tag_size p tag = of_nat (16 * s)" "mp_tag_link p tag = first_free (tag + s) r"
      "chained p (tag + s) r None"
    and bd: "tag + s + seg_total r = mp_ntags p" "16 * mp_ntags p < 2 ^ 63" "mp_ntags p \<le> 8 * length (mp_bits p)"
    using inv by (auto simp: mp_inv_def coalesced_append chained_append tag_def)
  have less: "mp_tag_size p tag > a \<longleftrightarrow> k < s" "of_nat (16 * s) = a \<longleftrightarrow> s = k"
    using size_less(2,3) [OF bd(2) _ a, of s] bd(1) ch(2) by simp_all
  show ?thesis
  proof (cases "s = k")
    case True
    then show ?thesis using less ch c by (intro exI [of _ p]) (simp add: R_def)
  next
    case False
    then have ks: "k < s" using k by simp
    let ?n = "tag + k"
    let ?p = "mp_link tag (Some ?n) (mp_link ?n (first_free (tag + s) r) (mp_set_size tag a (mp_set_size ?n (of_nat (16 * (s - k))) p)))"
    have sz: "mp_tag_size p tag - a = of_nat (16 * (s - k))"
    proof -
      have "a = of_nat (16 * k)" using a bd ks by (simp add: word_unat_eq_iff unat_of_nat_u64 del: of_nat_mult)
      then show ?thesis using ch(2) ks by (simp add: diff_mult_distrib2)
    qed
    have m: "mp_merge ?n ?p = Some (mp_bits_set ?n ?p)"
      by (rule merge_apart [where s = "s - k" and segs = r]) (use ks k c bd in auto)
    have "chained ?p 0 l (Some tag)"
      using ch(1) chained_cong [OF c(1), of 0 ?p p "Some tag"] k by (simp add: tag_def)
    moreover have "chained ?p (tag + s) r None"
      using ch(4) chained_cong [OF c(2), of "tag + s" ?p p None] ks by simp
    moreover have "?n div 8 < length (mp_bits ?p)" using bd ks by simp
    ultimately show ?thesis
      using False ks k m less sz ch(3) bset_set [of ?n ?p]
      by (intro exI [of _ "mp_bits_set ?n ?p"])
        (auto simp: R_def Let_def a mp_tag_next_def)
  qed
qed

lemma coalesced_take:
  assumes "coalesced (l @ (s, False) # r)" "0 < k" "k \<le> s"
  shows "coalesced (take_seg k l s r)"
  using assms by (auto simp: take_seg_def coalesced_append free_head_def)

lemma free_starts_take:
  assumes "coalesced (l @ (s, False) # r)" "0 < k" "k \<le> s"
  shows "free_starts 0 (take_seg k l s r) =
    (free_starts 0 (l @ (s, False) # r) - {seg_total l}) \<union> (if s = k then {} else {seg_total l + k})"
proof -
  have L: "i < seg_total l" if "i \<in> free_starts 0 l" for i
    using free_starts_range [of l i 0] that assms(1) by (simp add: coalesced_append)
  have R: "seg_total l + s \<le> i" if "i \<in> free_starts (seg_total l + s) r" for i
    using free_starts_range [of r i "seg_total l + s"] that assms(1) by (simp add: coalesced_append)
  have "0 < s" using assms(2,3) by simp
  then show ?thesis
    using assms(2,3) L [of "seg_total l"] R [of "seg_total l"]
    by (cases "s = k") (auto simp: take_seg_def free_starts_append dest: L R)
qed

text \<open>The first free segment that is large enough is cut.\<close>

lemma alloc_takes:
  assumes "mp_inv p segs" "unat sz < 2 ^ 63"
  shows "case find_seg (tags_needed (unat sz)) segs of
      None \<Rightarrow> mp_alloc p sz = Some (None, p)
    | Some (l, s, r) \<Rightarrow> \<exists>p'. mp_alloc p sz = Some (Some (mp_tomem (seg_total l)), p') \<and>
        mp_inv p' (take_seg (tags_needed (unat sz)) l s r)"
proof -
  let ?k = "tags_needed (unat sz)" and ?a = "mp_size_aligned sz"
  note a = aligned_tags [OF assms(2)]
  have inv: "chained p 0 segs None" "16 * (0 + seg_total segs) < 2 ^ 63" "mp_freetag p = first_free 0 segs"
    using assms(1) by (simp_all add: mp_inv_def)
  obtain prev' where find: "mp_find p ?a None (first_free 0 segs) =
    (case find_seg ?k segs of None \<Rightarrow> Some (prev', None)
     | Some (l, s, r) \<Rightarrow> Some (last_free 0 l None, Some (0 + seg_total l)))"
    using mp_find [OF inv(1,2) a(1), of None] by blast
  show ?thesis
  proof (cases "find_seg ?k segs")
    case None
    then show ?thesis using find inv(3) by (simp add: mp_alloc_def)
  next
    case (Some lsr)
    obtain l s r where lsr: "lsr = (l, s, r)" by (cases lsr)
    have segs: "segs = l @ (s, False) # r" "?k \<le> s" using find_seg_Some Some lsr by auto
    let ?tag = "seg_total l" and ?R = "if s = ?k then r else (s - ?k, False) # r"
    have I: "mp_inv p (l @ (s, False) # r)" using assms(1) segs(1) by simp
    then have co: "coalesced (l @ (s, False) # r)" and fr: "mp_freetag p = or_else (first_free 0 l) (Some ?tag)"
      and bits: "?tag + s \<le> 8 * length (mp_bits p)" "0 < s"
      by (auto simp: mp_inv_def first_free_append coalesced_append)
    obtain p1 where split: "(if mp_tag_size p ?tag > ?a then
        (let n = ?tag + unat ?a div 16;
             p = mp_set_size n (mp_tag_size p ?tag - ?a) p;
             p = mp_set_size ?tag ?a p;
             p = mp_link n (mp_tag_next ?tag p) p;
             p = mp_link ?tag (Some n) p
         in mp_merge n p)
      else Some p) = Some p1"
      and p1: "mp_tag_size p1 ?tag = ?a" "mp_tag_link p1 ?tag = first_free (?tag + ?k) ?R"
        "chained p1 (?tag + ?k) ?R None" "chained p1 0 l (Some ?tag)" "mp_freetag p1 = mp_freetag p"
        "mp_balance p1 = mp_balance p" "mp_ntags p1 = mp_ntags p" "length (mp_bits p1) = length (mp_bits p)"
        "bset p1 = (if s = ?k then bset p else insert (?tag + ?k) (bset p))"
      using mp_split [OF I a(2) segs(2) a(1)] by blast
    let ?q = "first_free (?tag + ?k) ?R" and ?prev = "last_free 0 l None"
    let ?p2 = "relink ?prev ?q p1"
    let ?p3 = "mp_bits_drop ?tag ?p2"
    let ?p4 = "?p3\<lparr>mp_balance := mp_balance ?p3 + ?a\<rparr>"
    have alloc: "mp_alloc p sz = Some (Some (mp_tomem ?tag), ?p4)"
      using find Some lsr split p1(2) inv(3)
      by (simp add: mp_alloc_def Let_def relink_def mp_tag_next_def del: mp_bits_simps)
    have cl: "coalesced l" "coalesced ?R" using co a(2) segs(2) by (auto simp: coalesced_append free_head_def)
    have ch: "chained ?p2 0 l ?q" and fr2: "mp_freetag ?p2 = or_else (first_free 0 l) ?q"
      using relink(1,3) [OF p1(4) cl(1), of ?q] fr p1(5) by simp_all
    have chR: "chained ?p2 (?tag + ?k) ?R None"
      using chained_cong [OF cl(2), of "?tag + ?k" ?p2 p1 None] relink(2) [OF p1(4) cl(1), of _ ?q] fr p1(3,5) by simp
    have ak: "?a = of_nat (16 * ?k)"
      using a(1) segs(2) I
      by (simp add: word_unat_eq_iff unat_of_nat_u64 mp_inv_def del: of_nat_mult)
    have nb: "?tag div 8 < length (mp_bits ?p2)" using bits p1(8) by simp
    have "mp_inv ?p4 (take_seg ?k l s r)"
      unfolding mp_inv_def
    proof (intro conjI)
      show "chained ?p4 0 (take_seg ?k l s r) None"
        using ch chR p1(1) ak by (simp add: take_seg_def chained_append)
      show "mp_freetag ?p4 = first_free 0 (take_seg ?k l s r)"
        using fr2 by (simp add: take_seg_def first_free_append)
      show "coalesced (take_seg ?k l s r)" by (rule coalesced_take [OF co a(2) segs(2)])
      have b4: "bset ?p4 = (bset p - {?tag}) \<union> (if s = ?k then {} else {?tag + ?k})"
        using bset_drop [OF nb] p1(9) a(2) by auto
      show "bset ?p4 \<subseteq> free_starts 0 (take_seg ?k l s r)"
        unfolding b4 free_starts_take [OF co a(2) segs(2)] using I by (auto simp: mp_inv_def)
      have "free_starts 0 (l @ (s, False) # r) - {?tag} \<subseteq> bset p - {?tag}"
      proof (cases "l @ (s, False) # r = [(mp_ntags p, False)]")
        case True
        then have "l = []" "r = []" by (cases l; simp)+
        then show ?thesis by simp
      qed (use I in \<open>auto simp: mp_inv_def\<close>)
      then show "free_starts 0 (take_seg ?k l s r) \<subseteq> bset ?p4 \<or> take_seg ?k l s r = [(mp_ntags ?p4, False)]"
        unfolding b4 free_starts_take [OF co a(2) segs(2)] by auto
      show "mp_balance ?p4 = of_nat (16 * used (take_seg ?k l s r))"
        using p1(6) ak I by (simp add: mp_inv_def take_seg_def algebra_simps)
    qed (use I p1(7,8) segs(2) in \<open>auto simp: mp_inv_def take_seg_def\<close>)
    then show ?thesis using Some lsr alloc by simp
  qed
qed

section \<open>Freeing\<close>

definition join_size :: "nat \<Rightarrow> seg list \<Rightarrow> nat" where
  "join_size s r = (if free_head r then s + fst (hd r) else s)"

definition join_rest :: "seg list \<Rightarrow> seg list" where
  "join_rest r = (if free_head r then tl r else r)"

lemma join_simps [simp]:
  "join_size s [] = s" "join_rest [] = []"
  "join_size s ((s', u) # r) = (if u then s else s + s')" "join_rest ((s', u) # r) = (if u then (s', u) # r else r)"
  by (simp_all add: join_size_def join_rest_def free_head_def)

lemma mp_join:
  assumes "mp_tag_size p tag = of_nat (16 * s)" "mp_tag_link p tag = first_free (tag + s) r" "0 < s"
    "chained p (tag + s) r None" "coalesced r" "tag + s + seg_total r \<le> 8 * length (mp_bits p)"
    "16 * (tag + s + seg_total r) < 2 ^ 63" "tag div 8 < length (mp_bits p)"
  shows "\<exists>p1. mp_merge tag p = Some p1 \<and> mp_tag_size p1 tag = of_nat (16 * join_size s r) \<and>
    mp_tag_link p1 tag = first_free (tag + join_size s r) (join_rest r) \<and>
    chained p1 (tag + join_size s r) (join_rest r) None \<and>
    (\<forall>i. i \<noteq> tag \<longrightarrow> mp_tag_size p1 i = mp_tag_size p i \<and> mp_tag_link p1 i = mp_tag_link p i) \<and>
    bset p1 = insert tag (bset p - (if free_head r then {tag + s} else {})) \<and>
    mp_freetag p1 = mp_freetag p \<and> mp_balance p1 = mp_balance p \<and> mp_ntags p1 = mp_ntags p \<and>
    length (mp_bits p1) = length (mp_bits p)"
proof (cases "free_head r")
  case False
  have "mp_merge tag p = Some (mp_bits_set tag p)"
    by (rule merge_apart [OF assms(1,2,5) False]) (use assms(7) in simp)
  then show ?thesis
    using assms False bset_set [OF assms(8)] by (auto simp: join_size_def join_rest_def)
next
  case True
  obtain s' r' where r: "r = (s', False) # r'" using True by (cases r) (auto simp: free_head_def)
  let ?q = "mp_link tag (first_free (tag + s + s') r') (mp_set_size tag (of_nat (16 * (s + s'))) p)"
  let ?p1 = "mp_bits_set tag (mp_bits_drop (tag + s) ?q)"
  have m: "mp_merge tag p = Some ?p1"
    using merge_adjacent [of p tag s s' r'] assms r by simp
  have "chained ?p1 (tag + s + s') r' None"
    using assms(4,5) r chained_cong [of r' "tag + s + s'" ?q p None] assms(3) by simp
  moreover have "tag + s < length (mp_bits ?q) * 8" using assms(5,6) r by auto
  then have "(tag + s) div 8 < length (mp_bits ?q)" by (rule less_mult_imp_div_less)
  ultimately show ?thesis
    using m r assms(8) bset_set [of tag "mp_bits_drop (tag + s) ?q"] bset_drop [of "tag + s" ?q] True
    by (intro exI [of _ ?p1]) (simp add: add.assoc)
qed

definition give_seg :: "seg list \<Rightarrow> nat \<Rightarrow> seg list \<Rightarrow> seg list" where
  "give_seg l s r =
     (if l \<noteq> [] \<and> \<not> snd (last l)
      then butlast l @ (fst (last l) + join_size s r, False) # join_rest r
      else l @ (join_size s r, False) # join_rest r)"

lemma join_total: "join_size s r + seg_total (join_rest r) = s + seg_total r"
  by (cases r) (auto simp: add.assoc)

lemma join_coalesced:
  "coalesced r \<Longrightarrow> 0 < s \<Longrightarrow> coalesced (join_rest r) \<and> \<not> free_head (join_rest r) \<and> 0 < join_size s r"
  by (cases r) (auto simp: free_head_def)

lemma join_used: "used (join_rest r) = used r"
  by (cases r) auto

lemma join_free_starts:
  assumes "coalesced r" "0 < s"
  shows "free_starts (pos + join_size s r) (join_rest r) = free_starts (pos + s) r - (if free_head r then {pos + s} else {})"
proof (cases r)
  case (Cons a r')
  obtain s' u where a: "a = (s', u)" by (cases a)
  have "pos + s \<notin> free_starts (pos + s + s') r'" 
    using free_starts_range [of r' "pos + s" "pos + s + s'"] assms(1) Cons a by auto
  then show ?thesis using Cons a by (auto simp: free_head_def add.assoc)
qed simp

lemma give_coalesced:
  assumes "coalesced (l @ (s, True) # r)"
  shows "coalesced (give_seg l s r)" "seg_total (give_seg l s r) = seg_total l + s + seg_total r"
    "used (give_seg l s r) = used l + used r"
proof -
  have c: "coalesced l" "coalesced r" "0 < s" using assms by (auto simp: coalesced_append)
  note j = join_coalesced [OF c(2,3)] join_total [of s r] join_used [of r]
  show "coalesced (give_seg l s r)" "seg_total (give_seg l s r) = seg_total l + s + seg_total r"
    "used (give_seg l s r) = used l + used r"
    using c j by (cases l rule: rev_cases;
      auto simp: give_seg_def coalesced_append free_head_def split: if_splits)+
qed

lemma bset_used:
  assumes "mp_inv p (l @ (s, True) # r)" "0 < s"
  shows "bset p = free_starts 0 l \<union> free_starts (seg_total l + s) r"
  using assms by (auto simp: mp_inv_def free_starts_append append_eq_Cons_conv)

text \<open>A freed segment is joined with its free neighbours.\<close>

lemma free_gives:
  assumes "mp_inv p (l @ (s, True) # r)"
  shows "\<exists>p'. mp_free p (Some (mp_tomem (seg_total l))) = Some p' \<and> mp_inv p' (give_seg l s r)"
proof -
  let ?tag = "seg_total l" and ?S = "join_size s r" and ?R = "join_rest r"
  have c: "coalesced l" "coalesced r" "0 < s"
    and ch: "chained p 0 l (first_free (?tag + s) r)" "mp_tag_size p ?tag = of_nat (16 * s)"
      "chained p (?tag + s) r None"
    and fr: "mp_freetag p = or_else (first_free 0 l) (first_free (?tag + s) r)"
    and bd: "?tag + s + seg_total r = mp_ntags p" "16 * mp_ntags p < 2 ^ 63" "mp_ntags p \<le> 8 * length (mp_bits p)"
    and bal: "mp_balance p = of_nat (16 * (used l + s + used r))"
    using assms by (auto simp: mp_inv_def coalesced_append chained_append first_free_append add.assoc)
  note bs = bset_used [OF assms c(3)]
  note gc = give_coalesced [of l s r]
  have co: "coalesced (l @ (s, True) # r)" using assms by (simp add: mp_inv_def)
  have us: "used l + s + used r \<le> mp_ntags p" using used_le [of l] used_le [of r] bd(1) by simp
  have enough: "\<not> mp_balance p < mp_tag_size p ?tag"
    using size_less(2) [OF bd(2) us, of "of_nat (16 * s)" s] size_less(1) [OF bd(2) us, of "of_nat (16 * s)" s]
      bd us by (simp add: bal ch(2) unat_of_nat_u64 not_less word_le_nat_alt del: of_nat_mult)
  let ?b = "mp_balance p - mp_tag_size p ?tag"
  have b: "?b = of_nat (16 * (used l + used r))" unfolding bal ch(2) by (simp add: algebra_simps)
  let ?p0 = "p\<lparr>mp_balance := ?b\<rparr>"
  have tmem: "mp_ofmem (mp_tomem ?tag) = ?tag" by (simp add: mp_ofmem_def mp_tomem_def)
  have "?tag < length (mp_bits p) * 8" using bd c(3) by simp
  then have nb: "?tag div 8 < length (mp_bits p)" by (rule less_mult_imp_div_less)
  show ?thesis using last_free_split [of l 0 None]
  proof (elim disjE exE conjE)
    assume l: "list_all snd l" "last_free 0 l None = None"
    note nf = no_free(1,2) [OF l(1)]
    have tmp: "mp_freetag p = None \<or> the (mp_freetag p) > ?tag"
      using fr nf first_free_range [OF c(2), of "?tag + s"] c(3)
      by (cases "first_free (?tag + s) r") fastforce+
    let ?p1 = "mp_link ?tag (mp_freetag p) ?p0"
    obtain p2 where p2: "mp_merge ?tag ?p1 = Some p2" "mp_tag_size p2 ?tag = of_nat (16 * ?S)"
      "mp_tag_link p2 ?tag = first_free (?tag + ?S) ?R" "chained p2 (?tag + ?S) ?R None"
      "\<forall>i. i \<noteq> ?tag \<longrightarrow> mp_tag_size p2 i = mp_tag_size p i \<and> mp_tag_link p2 i = mp_tag_link p i"
      "bset p2 = insert ?tag (bset p - (if free_head r then {?tag + s} else {}))"
      "mp_balance p2 = ?b" "mp_ntags p2 = mp_ntags p" "length (mp_bits p2) = length (mp_bits p)"
      using mp_join [of ?p1 ?tag s r] ch fr nf c bd nb chained_cong [OF c(2), of "?tag + s" ?p1 p None] by auto
    let ?p3 = "p2\<lparr>mp_freetag := Some ?tag\<rparr>"
    have free: "mp_free p (Some (mp_tomem ?tag)) = Some ?p3"
      using enough tmp p2(1) by (simp add: mp_free_def tmem Let_def)
    have g: "give_seg l s r = l @ (?S, False) # ?R"
      using l(1) by (cases l rule: rev_cases) (auto simp: give_seg_def)
    have chl: "chained ?p3 0 l (Some ?tag)"
      using ch(1) no_free(4) [OF l(1), of p 0 "first_free (?tag + s) r" "Some ?tag"]
        chained_cong [OF c(1), of 0 p2 p "Some ?tag"] p2(5) by simp
    have fs: "free_starts 0 (give_seg l s r) = bset ?p3"
      unfolding g using nf bs p2(6) join_free_starts [OF c(2,3), of ?tag] by (simp add: free_starts_append)
    have "mp_inv ?p3 (give_seg l s r)"
      unfolding mp_inv_def fs using gc(1-3) [OF co] chl p2 bd nf b
      by (simp add: g chained_append first_free_append)
    then show ?thesis using free by blast
  next
    fix l1 sx l2
    assume l: "l = l1 @ (sx, False) # l2" "list_all snd l2" "last_free 0 l None = Some (0 + seg_total l1)"
    let ?x = "seg_total l1"
    note nf = no_free(1,2) [OF l(2)]
    have cl: "coalesced l1" "coalesced l2" "0 < sx" using c(1) l(1) by (auto simp: coalesced_append)
    have chx: "chained p 0 l1 (Some ?x)" "mp_tag_size p ?x = of_nat (16 * sx)"
      "mp_tag_link p ?x = first_free (?tag + s) r" "chained p (?x + sx) l2 (first_free (?tag + s) r)"
      using ch(1) l(1) nf by (auto simp: chained_append)
    have xt: "?x < ?tag" "?tag = ?x + sx + seg_total l2" using l(1) cl(3) by simp_all
    obtain y where y: "first_free 0 l = Some y" "y \<le> ?x"
      using l(1) first_free_range [OF cl(1), of 0] by (cases "first_free 0 l1") (auto simp: first_free_append)
    have tmp: "mp_freetag p = Some y" "\<not> y > ?tag" using fr y xt by simp_all
    have left: "mp_tag_left ?tag ?p0 = Some ?x"
    proof -
      have "i \<in> bset ?p0 \<longleftrightarrow> i \<in> free_starts 0 l" if "i < ?tag" for i
        using bs free_starts_range [OF c(2), of i "?tag + s"] that by auto
      then show ?thesis using tag_left [of l ?p0] c(1) bd l(3) by simp
    qed
    let ?p1 = "mp_link ?x (Some ?tag) (mp_link ?tag (first_free (?tag + s) r) ?p0)"
    obtain p2 where p2: "mp_merge ?tag ?p1 = Some p2" "mp_tag_size p2 ?tag = of_nat (16 * ?S)"
      "mp_tag_link p2 ?tag = first_free (?tag + ?S) ?R" "chained p2 (?tag + ?S) ?R None"
      "\<forall>i. i \<noteq> ?tag \<longrightarrow> mp_tag_size p2 i = mp_tag_size p i \<and> mp_tag_link p2 i = (if i = ?x then Some ?tag else mp_tag_link p i)"
      "bset p2 = insert ?tag (bset p - (if free_head r then {?tag + s} else {}))" "mp_freetag p2 = mp_freetag p"
      "mp_balance p2 = ?b" "mp_ntags p2 = mp_ntags p" "length (mp_bits p2) = length (mp_bits p)"
      using mp_join [of ?p1 ?tag s r] ch c bd nb xt(1) chained_cong [OF c(2), of "?tag + s" ?p1 p None] by auto
    let ?r = "l2 @ (?S, False) # ?R"
    have cr: "coalesced ?r" "seg_total ?r = seg_total l2 + s + seg_total r"
      using join_coalesced [OF c(2,3)] join_total [of s r] cl(2) l(2) 
      by (cases l2 rule: rev_cases; auto simp: coalesced_append free_head_def)+
    have chr: "chained p2 (?x + sx) ?r None"
      using chx(4) no_free(4) [OF l(2), of p "?x + sx" "first_free (?tag + s) r" "Some ?tag"] p2(2-5) xt
        chained_cong [OF cl(2), of "?x + sx" p2 p "Some ?tag"] cl(3)
      by (simp add: chained_append)
    have ffr: "first_free (?x + sx) ?r = Some ?tag" using nf xt(2) by (simp add: first_free_append)
    have "?x < length (mp_bits p2) * 8" using bd(1,3) xt cl(3) p2(10) by linarith
    then have nbx: "?x div 8 < length (mp_bits p2)" by (rule less_mult_imp_div_less)
    have bdx: "?x + sx + seg_total ?r = mp_ntags p" using bd(1) xt(2) cr(2) by simp
    obtain p3 where p3: "mp_merge ?x p2 = Some p3" "mp_tag_size p3 ?x = of_nat (16 * join_size sx ?r)"
      "mp_tag_link p3 ?x = first_free (?x + join_size sx ?r) (join_rest ?r)"
      "chained p3 (?x + join_size sx ?r) (join_rest ?r) None"
      "\<forall>i. i \<noteq> ?x \<longrightarrow> mp_tag_size p3 i = mp_tag_size p2 i \<and> mp_tag_link p3 i = mp_tag_link p2 i"
      "bset p3 = insert ?x (bset p2 - (if free_head ?r then {?x + sx} else {}))" "mp_freetag p3 = mp_freetag p2"
      "mp_balance p3 = mp_balance p2" "mp_ntags p3 = mp_ntags p2" "length (mp_bits p3) = length (mp_bits p2)"
      using mp_join [of p2 ?x sx ?r] p2(5,9,10) chx(2) ffr cl(3) chr cr(1) bdx bd nbx xt(1) by auto
    have free: "mp_free p (Some (mp_tomem ?tag)) = Some p3"
      using enough tmp left p2(1) p3(1) xt(1) chx(3)
      by (simp add: mp_free_def tmem Let_def mp_tag_next_def)
    have g: "give_seg l s r = l1 @ (join_size sx ?r, False) # join_rest ?r"
    proof -
      have "free_head ?r \<longleftrightarrow> l2 = []" using l(2) by (cases l2) (auto simp: free_head_def)
      moreover have "snd (last l) \<longleftrightarrow> l2 \<noteq> []"
        using l(1,2) by (cases l2 rule: rev_cases) auto
      ultimately show ?thesis
        using l(1) by (cases "l2 = []") (simp_all add: give_seg_def join_size_def join_rest_def butlast_append)
    qed
    have chl: "chained p3 0 l1 (Some ?x)"
      using chx(1) chained_cong [OF cl(1), of 0 p3 p "Some ?x"] p2(5) p3(5) xt(1) by simp
    have fs: "free_starts 0 (give_seg l s r) = bset p3"
    proof -
      have 1: "free_starts 0 l = free_starts 0 l1 \<union> {?x}" using l(1) nf by (simp add: free_starts_append)
      have 2: "free_starts (?x + join_size sx ?r) (join_rest ?r) =
        free_starts (?x + sx) ?r - (if free_head ?r then {?x + sx} else {})"
        by (rule join_free_starts [OF cr(1) cl(3)])
      have 3: "free_starts (?x + sx) ?r = insert ?tag (free_starts (?tag + s) r - (if free_head r then {?tag + s} else {}))"
        using nf join_free_starts [OF c(2,3), of ?tag] xt(2) by (simp add: free_starts_append)
      have lt: "i < ?x" if "i \<in> free_starts 0 l1" for i using free_starts_range [OF cl(1) that] by simp
      show ?thesis
        unfolding g p3(6) p2(6) bs 1 free_starts_append using 2 3 lt xt cl(3) by (auto dest: lt)
    qed
    have "mp_freetag p3 = first_free 0 (give_seg l s r)"
      using p3(7) p2(7) fr y(1) l(1) unfolding g by (auto simp: first_free_append or_else_def split: if_splits)
    then have "mp_inv p3 (give_seg l s r)"
      unfolding mp_inv_def fs using gc(1-3) [OF co] chl p2(8-10) p3 bd b
      by (simp add: g chained_append)
    then show ?thesis using free by blast
  qed
qed

section \<open>The blocks in use\<close>

text \<open>First tag and number of tags of the segments in use.\<close>

fun used_blocks :: "nat \<Rightarrow> seg list \<Rightarrow> (nat \<times> nat) set" where
  "used_blocks pos [] = {}"
| "used_blocks pos ((s, u) # segs) = (if u then {(pos, s)} else {}) \<union> used_blocks (pos + s) segs"

lemma used_blocks_append: "used_blocks pos (xs @ ys) = used_blocks pos xs \<union> used_blocks (pos + seg_total xs) ys"
  by (induction pos xs rule: used_blocks.induct) (auto simp: add.assoc)

lemma used_blocks_range:
  "coalesced segs \<Longrightarrow> (t, s) \<in> used_blocks pos segs \<Longrightarrow> pos \<le> t \<and> t + s \<le> pos + seg_total segs \<and> 0 < s"
  by (induction pos segs rule: used_blocks.induct) (fastforce split: if_splits)+

lemma used_blocks_split:
  "(t, s) \<in> used_blocks pos segs \<Longrightarrow> \<exists>l r. segs = l @ (s, True) # r \<and> t = pos + seg_total l"
proof (induction pos segs rule: used_blocks.induct)
  case (2 pos s' u segs)
  show ?case
  proof (cases "u \<and> t = pos \<and> s = s'")
    case True
    then show ?thesis by (intro exI [of _ "[]"] exI [of _ segs]) simp
  next
    case False
    then obtain l r where "segs = l @ (s, True) # r" "t = pos + s' + seg_total l" using 2 by (auto split: if_splits)
    then have "(s', u) # segs = ((s', u) # l) @ (s, True) # r" "t = pos + seg_total ((s', u) # l)" by simp_all
    then show ?thesis by blast
  qed
qed simp

lemma used_blocks_disjoint:
  assumes "coalesced segs" "(t, s) \<in> used_blocks pos segs" "(t', s') \<in> used_blocks pos segs" "t \<noteq> t' \<or> s \<noteq> s'"
  shows "t + s \<le> t' \<or> t' + s' \<le> t"
  using assms
proof (induction pos segs rule: used_blocks.induct)
  case (2 pos n u segs)
  have r: "pos + n \<le> a" if "(a, b) \<in> used_blocks (pos + n) segs" for a b
    using used_blocks_range [of segs a b "pos + n"] that 2(2) by simp
  then show ?case using 2 by (auto split: if_splits dest: r)
qed simp

lemma join_blocks: "used_blocks (pos + join_size s r) (join_rest r) = used_blocks (pos + s) r"
  by (cases r) (auto simp: add.assoc)

lemma give_blocks:
  assumes "coalesced (l @ (s, True) # r)"
  shows "used_blocks 0 (give_seg l s r) = used_blocks 0 (l @ (s, True) # r) - {(seg_total l, s)}"
proof -
  have c: "coalesced l" "coalesced r" "0 < s" using assms by (auto simp: coalesced_append)
  have n: "(seg_total l, s) \<notin> used_blocks 0 l" "(seg_total l, s) \<notin> used_blocks (seg_total l + s) r"
    using used_blocks_range [OF c(1), of _ _ 0] used_blocks_range [OF c(2), of _ _ "seg_total l + s"] c(3) by fastforce+
  have "used_blocks 0 (give_seg l s r) = used_blocks 0 l \<union> used_blocks (seg_total l + s) r"
  proof (cases "l \<noteq> [] \<and> \<not> snd (last l)")
    case True
    then obtain l1 sx where l: "l = l1 @ [(sx, False)]" by (cases l rule: rev_cases) auto
    then show ?thesis
      using join_blocks [of "seg_total l1 + sx" s r] by (simp add: give_seg_def used_blocks_append add.assoc)
  next
    case False
    then show ?thesis
      using join_blocks [of "seg_total l" s r] by (auto simp: give_seg_def used_blocks_append)
  qed
  then show ?thesis using n by (auto simp: used_blocks_append)
qed

lemma take_blocks:
  assumes "coalesced (l @ (s, False) # r)" "0 < k" "k \<le> s"
  shows "used_blocks 0 (take_seg k l s r) = insert (seg_total l, k) (used_blocks 0 (l @ (s, False) # r))"
    "(seg_total l, m) \<notin> used_blocks 0 (l @ (s, False) # r)"
proof -
  have c: "coalesced l" "coalesced r" using assms(1) by (auto simp: coalesced_append)
  show "(seg_total l, m) \<notin> used_blocks 0 (l @ (s, False) # r)"
    using used_blocks_range [OF c(1), of "seg_total l" m 0] used_blocks_range [OF c(2), of "seg_total l" m "seg_total l + s"] assms
    by (auto simp: used_blocks_append)
  show "used_blocks 0 (take_seg k l s r) = insert (seg_total l, k) (used_blocks 0 (l @ (s, False) # r))"
    using assms(2,3) by (auto simp: take_seg_def used_blocks_append)
qed

text \<open>The pool and the blocks that are in use.\<close>

definition mp_ok :: "mpool \<Rightarrow> (nat \<times> nat) set \<Rightarrow> bool" where
  "mp_ok p B \<longleftrightarrow> (\<exists>segs. mp_inv p segs \<and> used_blocks 0 segs = B)"

lemma mp_ok_alloc:
  assumes "mp_ok p B" "unat sz < 2 ^ 63"
  shows "mp_alloc p sz = Some (None, p) \<or>
    (\<exists>t p'. mp_alloc p sz = Some (Some (mp_tomem t), p') \<and> mp_ok p' (insert (t, tags_needed (unat sz)) B) \<and>
       mp_ntags p' = mp_ntags p \<and> t \<notin> fst ` B)"
proof -
  let ?k = "tags_needed (unat sz)"
  obtain segs where segs: "mp_inv p segs" "used_blocks 0 segs = B" using assms(1) by (auto simp: mp_ok_def)
  show ?thesis
  proof (cases "find_seg ?k segs")
    case None
    then show ?thesis using alloc_takes [OF segs(1) assms(2)] by simp
  next
    case (Some lsr)
    obtain l s r where lsr: "lsr = (l, s, r)" by (cases lsr)
    obtain p' where p': "mp_alloc p sz = Some (Some (mp_tomem (seg_total l)), p')" "mp_inv p' (take_seg ?k l s r)"
      using alloc_takes [OF segs(1) assms(2)] Some lsr by auto
    have f: "segs = l @ (s, False) # r" "?k \<le> s" using find_seg_Some Some lsr by auto
    have c: "coalesced (l @ (s, False) # r)" using segs(1) f(1) by (simp add: mp_inv_def)
    note t = take_blocks [OF c aligned_tags(2) [OF assms(2)] f(2)]
    have "seg_total (take_seg ?k l s r) = seg_total segs" using f by (simp add: take_seg_def)
    then have "mp_ntags p' = mp_ntags p" using p'(2) segs(1) unfolding mp_inv_def by metis
    moreover have "mp_ok p' (insert (seg_total l, ?k) B)" unfolding mp_ok_def using p'(2) t(1) segs(2) f(1) by metis
    moreover have "seg_total l \<notin> fst ` B" using t(2) segs(2) f(1) by auto
    ultimately show ?thesis using p'(1) by blast
  qed
qed

lemma mp_ok_free:
  assumes "mp_ok p B" "(t, s) \<in> B"
  shows "\<exists>p'. mp_free p (Some (mp_tomem t)) = Some p' \<and> mp_ok p' (B - {(t, s)}) \<and> mp_ntags p' = mp_ntags p"
proof -
  obtain segs where segs: "mp_inv p segs" "used_blocks 0 segs = B" using assms(1) by (auto simp: mp_ok_def)
  obtain l r where lr: "segs = l @ (s, True) # r" "t = seg_total l"
    using used_blocks_split [of t s 0 segs] assms(2) segs(2) by auto
  have c: "coalesced (l @ (s, True) # r)" using segs(1) lr(1) by (simp add: mp_inv_def)
  obtain p' where p': "mp_free p (Some (mp_tomem t)) = Some p'" "mp_inv p' (give_seg l s r)"
    using free_gives [of p l s r] segs(1) lr by auto
  have "mp_ntags p' = mp_ntags p"
    using p'(2) segs(1) lr give_coalesced(2) [OF c] by (simp add: mp_inv_def)
  then show ?thesis using p' give_blocks [OF c] segs(2) lr unfolding mp_ok_def by auto
qed

lemma mp_ok_facts:
  assumes "mp_ok p B"
  shows "finite B" "(t, s) \<in> B \<Longrightarrow> t + s \<le> mp_ntags p \<and> 0 < s \<and> mp_tag_size p t = of_nat (16 * s)"
    "(t, s) \<in> B \<Longrightarrow> (t', s') \<in> B \<Longrightarrow> t \<noteq> t' \<or> s \<noteq> s' \<Longrightarrow> t + s \<le> t' \<or> t' + s' \<le> t"
    "16 * mp_ntags p < 2 ^ 63"
proof -
  obtain segs where segs: "mp_inv p segs" "used_blocks 0 segs = B" using assms by (auto simp: mp_ok_def)
  have c: "coalesced segs" "seg_total segs = mp_ntags p" "chained p 0 segs None" "16 * mp_ntags p < 2 ^ 63"
    using segs(1) by (auto simp: mp_inv_def)
  have "finite (used_blocks pos xs)" for pos xs by (induction pos xs rule: used_blocks.induct) auto
  then show "finite B" using segs(2) by metis
  show "(t, s) \<in> B \<Longrightarrow> t + s \<le> mp_ntags p \<and> 0 < s \<and> mp_tag_size p t = of_nat (16 * s)"
    using used_blocks_range [OF c(1), of t s 0] used_blocks_split [of t s 0 segs] c(2,3) segs(2)
    by (auto simp: chained_append)
  show "(t, s) \<in> B \<Longrightarrow> (t', s') \<in> B \<Longrightarrow> t \<noteq> t' \<or> s \<noteq> s' \<Longrightarrow> t + s \<le> t' \<or> t' + s' \<le> t"
    using used_blocks_disjoint [OF c(1)] segs(2) by blast
  show "16 * mp_ntags p < 2 ^ 63" by (rule c(4))
qed

lemma mp_ok_empty:
  assumes "mp_ok p {}" "0 < mp_ntags p"
  shows "mp_inv p [(mp_ntags p, False)]"
proof -
  obtain segs where segs: "mp_inv p segs" "used_blocks 0 segs = {}" using assms(1) by (auto simp: mp_ok_def)
  have "list_all (\<lambda>su. \<not> snd su) xs" if "used_blocks pos xs = {}" for pos xs
    using that by (induction pos xs rule: used_blocks.induct) (auto split: if_splits)
  from this [OF segs(2)] have "\<exists>n. segs = [(n, False)]"
    using segs(1) assms(2) by (cases segs; cases "tl segs") (auto simp: mp_inv_def free_head_def)
  then show ?thesis using segs(1) by (auto simp: mp_inv_def)
qed

text \<open>
  The owner of a block writes what it wants to its memory: over the link of the block's tag and
  over everything in the other tags of the block.
\<close>

lemma mp_store_simps [simp]:
  "mp_ntags (mp_store f g t n p) = mp_ntags p" "mp_freetag (mp_store f g t n p) = mp_freetag p"
  "mp_balance (mp_store f g t n p) = mp_balance p" "mp_bits (mp_store f g t n p) = mp_bits p"
  "bset (mp_store f g t n p) = bset p"
  "mp_tag_size (mp_store f g t n p) i = (if t < i \<and> i < t + n then g (i - t) else mp_tag_size p i)"
  "mp_tag_link (mp_store f g t n p) i = (if t \<le> i \<and> i < t + n then f (i - t) else mp_tag_link p i)"
  by (simp_all add: mp_store_def bset_def)

lemma mp_inv_store:
  assumes "mp_inv p (l @ (s, True) # r)" "n \<le> s"
  shows "mp_inv (mp_store f g (seg_total l) n p) (l @ (s, True) # r)"
proof -
  let ?t = "seg_total l" and ?q = "mp_store f g (seg_total l) n p"
  have c: "coalesced l" "coalesced r" "0 < s" using assms(1) by (auto simp: mp_inv_def coalesced_append)
  have "chained ?q 0 l (first_free (?t + s) r) = chained p 0 l (first_free (?t + s) r)"
    by (rule chained_cong [OF c(1)]) simp_all
  moreover have "chained ?q (?t + s) r None = chained p (?t + s) r None"
    by (rule chained_cong [OF c(2)]) (use assms(2) in simp_all)
  ultimately have "chained ?q 0 (l @ (s, True) # r) None = chained p 0 (l @ (s, True) # r) None"
    by (simp add: chained_append)
  then show ?thesis using assms(1) by (simp add: mp_inv_def)
qed

lemma mp_ok_store:
  assumes "mp_ok p B" "(t, s) \<in> B" "n \<le> s"
  shows "mp_ok (mp_store f g t n p) B"
proof -
  obtain segs where segs: "mp_inv p segs" "used_blocks 0 segs = B" using assms(1) by (auto simp: mp_ok_def)
  obtain l r where lr: "segs = l @ (s, True) # r" "t = seg_total l"
    using used_blocks_split [of t s 0 segs] assms(2) segs(2) by auto
  show ?thesis using mp_inv_store [of p l s r n f g] segs lr assms(3) unfolding mp_ok_def by metis
qed

section \<open>Reallocation\<close>

lemma freetag_commute:
  "(mp_link t l p)\<lparr>mp_freetag := x\<rparr> = mp_link t l (p\<lparr>mp_freetag := x\<rparr>)"
  "(mp_set_size t z p)\<lparr>mp_freetag := x\<rparr> = mp_set_size t z (p\<lparr>mp_freetag := x\<rparr>)"
  "(mp_bits_drop t p)\<lparr>mp_freetag := x\<rparr> = mp_bits_drop t (p\<lparr>mp_freetag := x\<rparr>)"
  "(mp_bits_set t p)\<lparr>mp_freetag := x\<rparr> = mp_bits_set t (p\<lparr>mp_freetag := x\<rparr>)"
  "mp_tag_next t (p\<lparr>mp_freetag := x\<rparr>) = mp_tag_next t p"
  by (simp_all add: mp_link_def mp_set_size_def mp_bits_drop_def mp_bits_set_def mp_tag_next_def)

lemma merge_loop_freetag:
  "mp_merge_loop tag p = Some q \<Longrightarrow> mp_merge_loop tag (p\<lparr>mp_freetag := x\<rparr>) = Some (q\<lparr>mp_freetag := x\<rparr>)"
proof (erule mp_merge_loop.raw_induct [rotated])
  fix loop tag p q
  assume "\<And>tag p q. loop tag p = Some q \<Longrightarrow> mp_merge_loop tag (p\<lparr>mp_freetag := x\<rparr>) = Some (q\<lparr>mp_freetag := x\<rparr>)"
    "(if mp_tag_next tag p = None then Some p
      else let n = the (mp_tag_next tag p) in
        if 16 * n > 16 * tag + unat (mp_tag_size p tag) then Some p
        else loop tag
          (mp_bits_drop n (mp_link tag (mp_tag_next n p) (mp_set_size tag (mp_tag_size p tag + mp_tag_size p n) p)))) = Some q"
  then show "mp_merge_loop tag (p\<lparr>mp_freetag := x\<rparr>) = Some (q\<lparr>mp_freetag := x\<rparr>)"
    using mp_merge_loop.simps [of tag "p\<lparr>mp_freetag := x\<rparr>"]
    by (fastforce simp: Let_def freetag_commute split: if_splits)
qed

lemma merge_freetag:
  "mp_merge tag p = Some q \<Longrightarrow> mp_merge tag (p\<lparr>mp_freetag := x\<rparr>) = Some (q\<lparr>mp_freetag := x\<rparr>)"
  using merge_loop_freetag [of tag p _ x] by (auto simp: mp_merge_def freetag_commute)

lemma mp_shrink:
  assumes inv: "mp_inv p (l @ (s, True) # r)" and k: "0 < k" "k < s" and sz: "unat (mp_size_aligned sz) = 16 * k"
  shows "\<exists>p'. mp_realloc p (Some (mp_tomem (seg_total l))) sz = Some (Some (mp_tomem (seg_total l)), p') \<and>
    mp_inv p' (give_seg (l @ [(k, True)]) (s - k) r)"
proof -
  let ?t = "seg_total l" and ?n = "seg_total l + k" and ?a = "mp_size_aligned sz"
  let ?p = "mp_set_size ?t ?a (mp_set_size ?n (of_nat (16 * (s - k))) p)"
  let ?l = "l @ [(k, True)]"
  have c: "coalesced l" "coalesced r" "0 < s"
    and ch: "chained p 0 l (first_free (?t + s) r)" "mp_tag_size p ?t = of_nat (16 * s)" "chained p (?t + s) r None"
    and fr: "mp_freetag p = or_else (first_free 0 l) (first_free (?t + s) r)"
    and bd: "?t + s + seg_total r = mp_ntags p" "16 * mp_ntags p < 2 ^ 63" "mp_ntags p \<le> 8 * length (mp_bits p)"
    and bal: "mp_balance p = of_nat (16 * (used l + s + used r))"
    using inv by (auto simp: mp_inv_def coalesced_append chained_append first_free_append add.assoc)
  have ak: "?a = of_nat (16 * k)"
    using sz k bd by (simp add: word_unat_eq_iff unat_of_nat_u64 del: of_nat_mult)
  have less: "\<not> ?a = mp_tag_size p ?t" "\<not> mp_tag_size p ?t < ?a"
    using size_less [OF bd(2) _ sz, of s] bd(1) k unfolding ch(2) by auto
  have sub: "mp_tag_size p ?t - ?a = of_nat (16 * (s - k))"
    unfolding ch(2) ak using k by (simp add: diff_mult_distrib2)
  have "chained ?p 0 l (first_free (?t + s) r)" "chained ?p (?t + s) r None"
    using ch chained_cong [OF c(1), of 0 ?p p] chained_cong [OF c(2), of "?t + s" ?p p] k by simp_all
  then have inv': "mp_inv ?p (?l @ (s - k, True) # r)"
    using inv k ak by (auto simp: mp_inv_def chained_append coalesced_append first_free_append free_starts_append
        append_eq_Cons_conv free_head_def)
  have tl: "?n = seg_total ?l" by simp
  obtain p' where free: "mp_free ?p (Some (mp_tomem ?n)) = Some p'" and p': "mp_inv p' (give_seg ?l (s - k) r)"
    using free_gives [OF inv'] unfolding tl by blast
  have us: "used l + s + used r \<le> mp_ntags p" using used_le [of l] used_le [of r] bd(1) by simp
  have enough: "\<not> mp_balance ?p < mp_tag_size ?p ?n"
  proof -
    have "unat (mp_balance p) = 16 * (used l + s + used r)"
      unfolding bal by (rule unat_of_nat_u64) (use us bd(2) in simp)
    moreover have "unat (of_nat (16 * (s - k)) :: u64) = 16 * (s - k)"
      by (rule unat_of_nat_u64) (use us bd(2) in simp)
    ultimately show ?thesis using k by (simp add: word_less_nat_alt del: of_nat_mult)
  qed
  let ?pb = "?p\<lparr>mp_balance := mp_balance ?p - mp_tag_size ?p ?n\<rparr>"
  have left: "mp_tag_left ?t ?pb = last_free 0 l None" "mp_tag_left ?n ?pb = last_free 0 l None"
  proof -
    note bs = bset_used [OF inv c(3)]
    have R: "?t + s \<le> i" if "i \<in> free_starts (?t + s) r" for i
      using free_starts_range [OF c(2) that] by simp
    have L: "i < ?t" if "i \<in> free_starts 0 l" for i using free_starts_range [OF c(1) that] by simp
    show "mp_tag_left ?t ?pb = last_free 0 l None"
      by (rule tag_left) (use bs R c bd in \<open>auto dest: R\<close>)
    have "mp_tag_left (seg_total ?l) ?pb = last_free 0 ?l None"
      by (rule tag_left) (use bs R c bd k in \<open>auto simp: coalesced_append free_starts_append free_head_def dest: R\<close>)
    moreover have "last_free pos (l @ [(k, True)]) prev = last_free pos l prev" for pos prev
      by (induction pos l prev rule: last_free.induct) auto
    ultimately show "mp_tag_left ?n ?pb = last_free 0 l None" by simp
  qed
  have nt: "mp_ofmem (mp_tomem i) = i" for i by (simp add: mp_ofmem_def mp_tomem_def)
  have ptag: "mp_freetag ?pb = mp_freetag p" by simp
  have "mp_realloc p (Some (mp_tomem ?t)) sz = Some (Some (mp_tomem ?t), p')"
  proof (cases "mp_freetag p = None \<or> the (mp_freetag p) > ?n")
    case True
    then obtain q where q: "mp_merge ?n (mp_link ?n (mp_freetag p) ?pb) = Some q" "p' = q\<lparr>mp_freetag := Some ?n\<rparr>"
      using free enough by (auto simp: mp_free_def nt Let_def)
    have "mp_merge ?n (mp_link ?n (mp_freetag p) (?pb\<lparr>mp_freetag := Some ?n\<rparr>)) = Some p'"
      using merge_freetag [OF q(1), of "Some ?n"] q(2) by (simp only: freetag_commute)
    then show ?thesis
      using True less enough unfolding mp_realloc_def Let_def by (simp add: nt sub sz k)
  next
    case False
    have "\<not> list_all snd l"
      using False fr no_free(1) [of l 0] first_free_range [OF c(2), of "?t + s"] k
      by (cases "first_free (?t + s) r") fastforce+
    then obtain x where x: "last_free 0 l None = Some x" using last_free_split [of l 0 None] by auto
    obtain y where y: "mp_freetag p = Some y" "\<not> y > ?n" using False by auto
    have "Option.bind (mp_merge ?n (mp_link x (Some ?n) (mp_link ?n (mp_tag_next x ?pb) ?pb))) (mp_merge x) = Some p'"
      using free enough y left(2) x by (simp add: mp_free_def nt Let_def del: of_nat_mult of_nat_diff mp_set_size_simps(1))
    then show ?thesis
      using y less enough left(1) x k unfolding mp_realloc_def Let_def
      by (simp add: nt sub sz del: of_nat_mult of_nat_diff)
  qed
  then show ?thesis using p' by blast
qed

text \<open>Reallocation replaces the block by one of the size needed, or changes nothing.\<close>

lemma mp_ok_other:
  assumes "mp_ok p B" "(t, s) \<in> B"
  shows "t \<notin> fst ` (B - {(t, s)})"
proof
  assume "t \<in> fst ` (B - {(t, s)})"
  then obtain s' where "(t, s') \<in> B" "s \<noteq> s'" by fastforce
  then show False
    using mp_ok_facts(3) [OF assms(1), of t s t s'] mp_ok_facts(2) [OF assms(1)] assms(2) by fastforce
qed

lemma mp_ok_shrink:
  assumes "mp_ok p B" "(t, s) \<in> B" and sz: "unat sz < 2 ^ 63" and k: "tags_needed (unat sz) < s"
  shows "\<exists>p'. mp_realloc p (Some (mp_tomem t)) sz = Some (Some (mp_tomem t), p') \<and>
    mp_ok p' (insert (t, tags_needed (unat sz)) (B - {(t, s)})) \<and> mp_ntags p' = mp_ntags p"
proof -
  let ?k = "tags_needed (unat sz)"
  obtain segs where segs: "mp_inv p segs" "used_blocks 0 segs = B" using assms(1) by (auto simp: mp_ok_def)
  obtain l r where lr: "segs = l @ (s, True) # r" "t = seg_total l"
    using used_blocks_split [of t s 0 segs] assms(2) segs(2) by auto
  have inv: "mp_inv p (l @ (s, True) # r)" using segs(1) lr(1) by simp
  have c: "coalesced (l @ (s, True) # r)" using inv by (simp add: mp_inv_def)
  have c': "coalesced ((l @ [(?k, True)]) @ (s - ?k, True) # r)"
    using c k aligned_tags(2) [OF sz] by (simp add: coalesced_append free_head_def)
  obtain p' where p': "mp_realloc p (Some (mp_tomem t)) sz = Some (Some (mp_tomem t), p')"
    "mp_inv p' (give_seg (l @ [(?k, True)]) (s - ?k) r)"
    using mp_shrink [OF inv aligned_tags(2) [OF sz] k aligned_tags(1) [OF sz]] lr(2) by blast
  have n: "mp_ntags p' = mp_ntags p"
    using p'(2) inv give_coalesced(2) [OF c'] k by (simp add: mp_inv_def)
  have out: "(t, s) \<notin> used_blocks 0 l" "(t, s) \<notin> used_blocks (t + s) r"
    "(t + ?k, s - ?k) \<notin> used_blocks 0 l" "(t + ?k, s - ?k) \<notin> used_blocks (t + s) r"
    using used_blocks_range [of l _ _ 0] used_blocks_range [of r _ _ "t + s"] c k lr(2) aligned_tags(2) [OF sz]
    by (fastforce simp: coalesced_append)+
  have B: "B = insert (t, s) (used_blocks 0 l \<union> used_blocks (t + s) r)"
    using segs(2) lr by (auto simp: used_blocks_append)
  have "used_blocks 0 (give_seg (l @ [(?k, True)]) (s - ?k) r) = insert (t, ?k) (B - {(t, s)})"
    using give_blocks [OF c'] out k lr(2) aligned_tags(2) [OF sz] unfolding B
    by (auto simp: used_blocks_append)
  then show ?thesis using p' n unfolding mp_ok_def by metis
qed

lemma mp_ok_realloc:
  assumes ok: "mp_ok p B" "(t, s) \<in> B" and sz: "unat sz < 2 ^ 63"
  shows "mp_realloc p (Some (mp_tomem t)) sz = Some (None, p) \<or>
    (\<exists>t' p'. mp_realloc p (Some (mp_tomem t)) sz = Some (Some (mp_tomem t'), p') \<and>
       mp_ok p' (insert (t', tags_needed (unat sz)) (B - {(t, s)})) \<and> mp_ntags p' = mp_ntags p \<and>
       t' \<notin> fst ` (B - {(t, s)}))"
proof -
  let ?k = "tags_needed (unat sz)"
  have nt: "mp_ofmem (mp_tomem i) = i" for i by (simp add: mp_ofmem_def mp_tomem_def)
  have f: "t + s \<le> mp_ntags p" "0 < s" "mp_tag_size p t = of_nat (16 * s)" "16 * mp_ntags p < 2 ^ 63"
    using mp_ok_facts(2,4) [OF ok(1)] ok(2) by auto
  have ts: "unat (mp_tag_size p t) = 16 * s" unfolding f(3) by (rule unat_of_nat_u64) (use f in simp)
  have eq: "mp_size_aligned sz = mp_tag_size p t \<longleftrightarrow> ?k = s" "mp_tag_size p t < mp_size_aligned sz \<longleftrightarrow> s < ?k"
    using ts aligned_tags(1) [OF sz] by (auto simp: word_unat_eq_iff word_less_nat_alt)
  consider "?k = s" | "s < ?k" | "?k < s" by linarith
  then show ?thesis
  proof cases
    case 1
    then have "mp_realloc p (Some (mp_tomem t)) sz = Some (Some (mp_tomem t), p)"
      using eq(1) by (simp add: mp_realloc_def nt Let_def)
    moreover have "insert (t, ?k) (B - {(t, s)}) = B" using ok(2) 1 by blast
    ultimately show ?thesis using ok(1) mp_ok_other [OF ok] by (intro disjI2 exI [of _ t] exI [of _ p]) simp
  next
    case 2
    have g: "mp_realloc p (Some (mp_tomem t)) sz = Option.bind (mp_alloc p sz) (\<lambda>(np, p).
             if np = None then Some (None, p)
             else map_option (\<lambda>p. (np, p)) (mp_free (mp_memcpy (mp_ofmem (the np)) t p) (Some (mp_tomem t))))"
      using 2 eq by (simp add: mp_realloc_def nt Let_def)
    show ?thesis using mp_ok_alloc [OF ok(1) sz]
    proof (elim disjE exE conjE)
      fix t' p1
      assume a: "mp_alloc p sz = Some (Some (mp_tomem t'), p1)" "mp_ok p1 (insert (t', ?k) B)"
        "mp_ntags p1 = mp_ntags p" "t' \<notin> fst ` B"
      have "mp_tag_size p1 t = of_nat (16 * s)" using mp_ok_facts(2) [OF a(2)] ok(2) by blast
      then have n: "unat (mp_tag_size p1 t) div 16 = s" using ts f(3) by simp
      have st: "mp_ok (mp_memcpy t' t p1) (insert (t', ?k) B)"
        unfolding mp_memcpy_def n by (rule mp_ok_store [OF a(2)]) (use 2 in auto)
      have "mp_ntags (mp_memcpy t' t p1) = mp_ntags p" using a(3) by (simp add: mp_memcpy_def)
      then obtain p2 where p2: "mp_free (mp_memcpy t' t p1) (Some (mp_tomem t)) = Some p2"
        "mp_ok p2 (insert (t', ?k) B - {(t, s)})" "mp_ntags p2 = mp_ntags p"
        using mp_ok_free [OF st, of t s] ok(2) by auto
      have "t' \<noteq> t" using a(4) ok(2) by force
      then have "insert (t', ?k) B - {(t, s)} = insert (t', ?k) (B - {(t, s)})" by auto
      then show ?thesis using g a(1,4) p2 by (intro disjI2 exI [of _ t'] exI [of _ p2]) (auto simp: nt)
    qed (use g in simp)
  next
    case 3
    then show ?thesis using mp_ok_shrink [OF ok sz] mp_ok_other [OF ok] by blast
  qed
qed

section \<open>A new pool, and what is left of it\<close>

lemma mp_fit_le: "mp_fit asize n \<le> n"
  by (induction asize n rule: mp_fit.induct) auto

lemma mp_size_bits_nat:
  assumes "n < 2 ^ 63"
  shows "unat (mp_size_bits (of_nat n)) = (n + 7) div 8"
  using assms by (simp add: mp_size_bits_def unat_div unat_word_ariths unat_of_nat_u64)

lemma mp_fits:
  assumes "n < 2 ^ 58"
  shows "mp_size_bits (of_nat n) + of_nat n * 16 > asize \<longleftrightarrow> (n + 7) div 8 + 16 * n > unat asize"
proof -
  have "(n + 7) div 8 \<le> n" if "0 < n" using that by presburger
  then have b: "(n + 7) div 8 + 16 * n < 2 ^ 63" using assms by (cases "n = 0") auto
  have "mp_size_bits (of_nat n) + of_nat n * 16 = (of_nat ((n + 7) div 8 + 16 * n) :: u64)"
    using mp_size_bits_nat [of n] assms
    by (simp add: word_unat_eq_iff [of "mp_size_bits (of_nat n)" "of_nat ((n + 7) div 8)"] unat_of_nat_u64)
  then show ?thesis using b by (simp add: word_less_nat_alt unat_of_nat_u64 del: of_nat_add of_nat_mult)
qed

lemma mp_fit_fits:
  assumes "n < 2 ^ 58" "mp_fit asize n = m" "unat asize < 2 ^ 62"
  shows "(m + 7) div 8 + 16 * m \<le> unat asize" "17 \<le> unat asize \<Longrightarrow> 0 < n \<Longrightarrow> 0 < m"
proof -
  have "(m + 7) div 8 + 16 * m \<le> unat asize \<and> (17 \<le> unat asize \<and> 0 < n \<longrightarrow> 0 < m)"
    using assms
  proof (induction asize n arbitrary: m rule: mp_fit.induct)
    case (2 asize n)
    show ?case
    proof (cases "(Suc n + 7) div 8 + 16 * Suc n > unat asize")
      case True
      then have "mp_fit asize (Suc n) = mp_fit asize n" "17 \<le> unat asize \<longrightarrow> 0 < n"
        using mp_fits [of "Suc n" asize] 2(2) by auto
      then show ?thesis using 2 True mp_fits [of "Suc n" asize] by auto
    next
      case False
      then have "mp_fit asize (Suc n) = Suc n" using mp_fits [of "Suc n" asize] 2(2) by auto
      then show ?thesis using 2 False by auto
    qed
  qed simp
  then show "(m + 7) div 8 + 16 * m \<le> unat asize" "17 \<le> unat asize \<Longrightarrow> 0 < n \<Longrightarrow> 0 < m" by auto
qed

lemma mp_hint_0: "mp_size_hint 0 0 = 56"
  by (simp add: mp_size_hint_def mp_size_bits_def mp_size_aligned_def)

lemma bset_zero: "mp_bits p = replicate n 0 \<Longrightarrow> bset p = {}"
  by (auto simp: bset_def)

lemma format_new:
  assumes "73 \<le> unat nsrc" "unat nsrc < 2 ^ 61"
  shows "\<exists>p. mp_format g nsrc = Ret (Some p) \<and> mp_ok p {} \<and> 0 < mp_ntags p \<and>
    56 + (mp_ntags p + 7) div 8 + 16 * mp_ntags p \<le> unat nsrc \<and> mp_attach p = Some p"
proof -
  have h: "\<not> nsrc < mp_size_hint 0 0" using assms by (simp add: mp_hint_0 word_less_nat_alt)
  let ?a = "nsrc - 56" and ?n = "mp_fit (nsrc - 56) (unat ((nsrc - 56) div 16))"
  have a: "unat ?a = unat nsrc - 56" using assms(1) by (simp add: unat_sub_if')
  have st: "unat (?a div 16) < 2 ^ 58" "0 < unat (?a div 16)" using assms a by (simp_all add: unat_div)
  have fit: "(?n + 7) div 8 + 16 * ?n \<le> unat ?a" "0 < ?n"
    using mp_fit_fits [OF st(1) refl, of ?a] st(2) assms a by simp_all
  have n: "?n < 2 ^ 58" using mp_fit_le [of ?a] st(1) le_less_trans by blast
  have nb: "unat (mp_size_bits (of_nat ?n)) = (?n + 7) div 8" by (rule mp_size_bits_nat) (use n in simp)
  let ?p = "g\<lparr>mp_bom := MP_BOM, mp_size := nsrc, mp_balance := 0, mp_ntags := ?n,
      mp_bits := replicate ((?n + 7) div 8) 0, mp_freetag := Some 0\<rparr>"
  let ?q = "mp_link 0 None (mp_set_size 0 (of_nat ?n * 16) ?p)"
  have f: "mp_format g nsrc = Ret (Some ?q)"
    using h fit a nb unfolding mp_format_def mp_clear_def mp_hint_0 Let_def by simp
  have "bset ?q = {}" by (simp add: bset_zero)
  then have "mp_inv ?q [(?n, False)]"
    unfolding mp_inv_def using fit(2) n by (simp add: free_head_def mult.commute)
  then have "mp_ok ?q {}" unfolding mp_ok_def by (intro exI [of _ "[(?n, False)]"]) simp
  moreover have "mp_attach ?q = Some ?q" by (simp add: mp_attach_def mp_link_def mp_set_size_def)
  ultimately show ?thesis using f fit a assms(1) by simp
qed

definition free_bytes :: "seg list \<Rightarrow> u64" where
  "free_bytes segs = sum_list (map (\<lambda>(s, u). if u then 0 else of_nat (16 * s) - 8) segs)"

lemma avail_loop:
  "chained p pos segs None \<Longrightarrow> mp_avail_loop p (first_free pos segs) a = Some (a + free_bytes segs)"
proof (induction segs arbitrary: pos a)
  case (Cons su segs)
  obtain s u where su: "su = (s, u)" by (cases su)
  show ?case
    using Cons su mp_avail_loop.simps [of p "Some pos" a]
    by (auto simp: free_bytes_def mp_tag_next_def add.assoc)
qed (simp add: mp_avail_loop.simps free_bytes_def)

section \<open>Clients\<close>

text \<open>
  A client keeps the pointers it was given with the sizes it asked for, frees and reallocates only
  those, and writes what it likes to the tags its blocks reach.
\<close>

datatype pool_cmd = PAlloc u64 | PFree nat | PRealloc nat u64 | PWrite nat "nat \<Rightarrow> nat option" "nat \<Rightarrow> u64"

type_synonym held = "(nat \<times> nat) list"

fun pool_step :: "pool_cmd \<Rightarrow> mpool \<times> held \<Rightarrow> (mpool \<times> held) option" where
  "pool_step (PAlloc sz) (p, hs) =
     Option.bind (mp_alloc p sz) (\<lambda>(r, p). Some (p, case r of None \<Rightarrow> hs | Some ptr \<Rightarrow> hs @ [(ptr, unat sz)]))"
| "pool_step (PFree i) (p, hs) =
     (if i < length hs
      then map_option (\<lambda>p. (p, take i hs @ drop (Suc i) hs)) (mp_free p (Some (fst (hs ! i))))
      else Some (p, hs))"
| "pool_step (PRealloc i sz) (p, hs) =
     (if i < length hs
      then Option.bind (mp_realloc p (Some (fst (hs ! i))) sz)
        (\<lambda>(r, p). Some (p, case r of None \<Rightarrow> hs | Some ptr \<Rightarrow> hs[i := (ptr, unat sz)]))
      else Some (p, hs))"
| "pool_step (PWrite i f g) (p, hs) =
     (if i < length hs
      then Some (mp_store f g (mp_ofmem (fst (hs ! i))) (tags_needed (snd (hs ! i))) p, hs)
      else Some (p, hs))"

fun pool_run :: "pool_cmd list \<Rightarrow> mpool \<times> held \<Rightarrow> (mpool \<times> held) option" where
  "pool_run [] st = Some st"
| "pool_run (c # cs) st = Option.bind (pool_step c st) (pool_run cs)"

fun pool_cmd_ok :: "pool_cmd \<Rightarrow> bool" where
  "pool_cmd_ok (PAlloc sz) = (unat sz < 2 ^ 63)"
| "pool_cmd_ok (PRealloc i sz) = (unat sz < 2 ^ 63)"
| "pool_cmd_ok c = True"

definition holds :: "mpool \<Rightarrow> (nat \<times> nat) list \<Rightarrow> held \<Rightarrow> bool" where
  "holds p bs hs \<longleftrightarrow> mp_ok p (set bs) \<and> distinct (map fst bs) \<and> length bs = length hs \<and>
     (\<forall>i<length hs. fst (hs ! i) = mp_tomem (fst (bs ! i)) \<and> snd (bs ! i) = tags_needed (snd (hs ! i)))"

lemma set_without:
  assumes "distinct bs" "i < length bs"
  shows "set (take i bs @ drop (Suc i) bs) = set bs - {bs ! i}"
  using assms distinct_take [of bs i]
  by (subst (3) id_take_nth_drop [OF assms(2)], subst (asm) (1) id_take_nth_drop [OF assms(2)]) auto

lemma set_replaced:
  assumes "distinct bs" "i < length bs"
  shows "set (bs[i := b]) = insert b (set bs - {bs ! i})"
  using set_without [OF assms] assms(2) by (simp add: upd_conv_take_nth_drop)

lemma pool_step_ok:
  assumes h: "holds p bs hs" and c: "pool_cmd_ok c"
  shows "\<exists>p' hs' bs'. pool_step c (p, hs) = Some (p', hs') \<and> holds p' bs' hs' \<and> mp_ntags p' = mp_ntags p"
proof -
  have ok: "mp_ok p (set bs)" and d: "distinct (map fst bs)" and l: "length bs = length hs"
    and at: "\<And>i. i < length hs \<Longrightarrow> fst (hs ! i) = mp_tomem (fst (bs ! i)) \<and> snd (bs ! i) = tags_needed (snd (hs ! i))"
    using h by (auto simp: holds_def)
  have db: "distinct bs" using d by (simp add: distinct_map)
  have mem: "(fst (bs ! i), snd (bs ! i)) \<in> set bs" if "i < length hs" for i using that l by simp
  have nt: "mp_ofmem (mp_tomem i) = i" for i by (simp add: mp_ofmem_def mp_tomem_def)
  show ?thesis
  proof (cases c)
    case (PAlloc sz)
    have sz: "unat sz < 2 ^ 63" using c PAlloc by simp
    show ?thesis using mp_ok_alloc [OF ok sz]
    proof (elim disjE exE conjE)
      fix t p'
      assume a: "mp_alloc p sz = Some (Some (mp_tomem t), p')" "mp_ok p' (insert (t, tags_needed (unat sz)) (set bs))"
        "mp_ntags p' = mp_ntags p" "t \<notin> fst ` set bs"
      have "holds p' (bs @ [(t, tags_needed (unat sz))]) (hs @ [(mp_tomem t, unat sz)])"
        using a d l at by (simp add: holds_def nth_append less_Suc_eq)
      then show ?thesis using PAlloc a by (auto simp del: of_nat_mult)
    qed (use PAlloc h in auto)
  next
    case (PFree i)
    show ?thesis
    proof (cases "i < length hs")
      case True
      obtain p' where f: "mp_free p (Some (mp_tomem (fst (bs ! i)))) = Some p'" "mp_ok p' (set bs - {bs ! i})"
        "mp_ntags p' = mp_ntags p"
        using mp_ok_free [OF ok mem [OF True]] by auto
      have "holds p' (take i bs @ drop (Suc i) bs) (take i hs @ drop (Suc i) hs)"
        unfolding holds_def
      proof (intro conjI allI impI)
        show "mp_ok p' (set (take i bs @ drop (Suc i) bs))" using f(2) set_without [OF db] True l by simp
        have "distinct (map fst (take i bs @ bs ! i # drop (Suc i) bs))"
          using d True l by (simp add: id_take_nth_drop [symmetric])
        then show "distinct (map fst (take i bs @ drop (Suc i) bs))" by auto
      qed (use at True l in \<open>auto simp: nth_append\<close>)
      then show ?thesis using PFree True f at by auto
    qed (use PFree h in auto)
  next
    case (PRealloc i sz)
    have sz: "unat sz < 2 ^ 63" using c PRealloc by simp
    show ?thesis
    proof (cases "i < length hs")
      case True
      show ?thesis using mp_ok_realloc [OF ok mem [OF True] sz]
      proof (elim disjE exE conjE)
        fix t p'
        assume a: "mp_realloc p (Some (mp_tomem (fst (bs ! i)))) sz = Some (Some (mp_tomem t), p')"
          "mp_ok p' (insert (t, tags_needed (unat sz)) (set bs - {(fst (bs ! i), snd (bs ! i))}))"
          "mp_ntags p' = mp_ntags p" "t \<notin> fst ` (set bs - {(fst (bs ! i), snd (bs ! i))})"
        have "holds p' (bs[i := (t, tags_needed (unat sz))]) (hs[i := (mp_tomem t, unat sz)])"
          unfolding holds_def
        proof (intro conjI allI impI)
          show "mp_ok p' (set (bs[i := (t, tags_needed (unat sz))]))"
            using a(2) set_replaced [OF db] True l by simp
          have "distinct (map fst (take i bs @ bs ! i # drop (Suc i) bs))"
            using d True l by (simp add: id_take_nth_drop [symmetric])
          moreover have "t \<notin> fst ` set (take i bs @ drop (Suc i) bs)"
            using a(4) set_without [OF db, of i] True l by simp
          ultimately show "distinct (map fst (bs[i := (t, tags_needed (unat sz))]))"
            using True l by (auto simp: upd_conv_take_nth_drop)
        qed (use at True l in \<open>auto simp: nth_list_update\<close>)
        then show ?thesis using PRealloc True a at by auto
      qed (use PRealloc True h at in auto)
    qed (use PRealloc h in auto)
  next
    case (PWrite i f g)
    show ?thesis
    proof (cases "i < length hs")
      case True
      have "mp_ok (mp_store f g (fst (bs ! i)) (tags_needed (snd (hs ! i))) p) (set bs)"
        by (rule mp_ok_store [OF ok mem [OF True]]) (use at True in simp)
      then show ?thesis using PWrite True h at by (auto simp: holds_def nt)
    qed (use PWrite h in auto)
  qed
qed

lemma pool_run_ok:
  assumes "holds p bs hs" "list_all pool_cmd_ok cs"
  shows "\<exists>p' hs' bs'. pool_run cs (p, hs) = Some (p', hs') \<and> holds p' bs' hs' \<and> mp_ntags p' = mp_ntags p"
  using assms
proof (induction cs arbitrary: p bs hs)
  case (Cons c cs)
  obtain p1 hs1 bs1 where s: "pool_step c (p, hs) = Some (p1, hs1)" "holds p1 bs1 hs1" "mp_ntags p1 = mp_ntags p"
    using pool_step_ok [OF Cons(2), of c] Cons(3) by auto
  show ?case using Cons(1) [OF s(2)] Cons(3) s(1,3) by auto
qed auto

section \<open>Properties\<close>

definition mp_blank :: mpool where
  "mp_blank = \<lparr>mp_bom = 0, mp_size = 0, mp_balance = 0, mp_ntags = 0, mp_bits = [], mp_freetag = None,
     mp_tag_size = (\<lambda>i. 0), mp_tag_link = (\<lambda>i. None)\<rparr>"

text \<open>
  C30. A client of a pool made by \<open>dao_memory_pool_format\<close> in a memory of at least 73 and
  less than 2^61 bytes may allocate, free and reallocate in any order, with requests below 2^63
  bytes, and write what it likes to its blocks: every call returns,
  every block it holds lies inside the pool's memory and is as large as was asked for, no two blocks
  overlap, and when it has freed everything the whole capacity of the pool is available again.
  (A request near 2^64 bytes wraps in \<open>dao_memory_pool_alloc\<close>: \<open>mp_alloc_wraps\<close>.)
\<close>

theorem mp_run_safe:
  assumes "73 \<le> unat nsrc" "unat nsrc < 2 ^ 61" "list_all pool_cmd_ok cs"
  shows "\<exists>p p' hs. mp_format g nsrc = Ret (Some p) \<and> pool_run cs (p, []) = Some (p', hs) \<and>
    list_all (\<lambda>(ptr, n). 8 \<le> ptr \<and> 56 + (mp_ntags p + 7) div 8 + ptr + n \<le> unat nsrc) hs \<and>
    sorted_wrt (\<lambda>(ptr, n) (ptr', n'). ptr + n \<le> ptr' \<or> ptr' + n' \<le> ptr) hs \<and>
    (if hs = [] then mp_avail p' = Some (mp_capacity p') else True)"
proof -
  obtain p where p: "mp_format g nsrc = Ret (Some p)" "mp_ok p {}" "0 < mp_ntags p"
    "56 + (mp_ntags p + 7) div 8 + 16 * mp_ntags p \<le> unat nsrc"
    using format_new [OF assms(1,2)] by blast
  have "holds p [] []" using p(2) by (simp add: holds_def)
  then obtain p' hs bs where r: "pool_run cs (p, []) = Some (p', hs)" "holds p' bs hs" "mp_ntags p' = mp_ntags p"
    using pool_run_ok [OF _ assms(3)] by blast
  have ok: "mp_ok p' (set bs)" and d: "distinct (map fst bs)" and l: "length bs = length hs"
    and at: "\<And>i. i < length hs \<Longrightarrow> fst (hs ! i) = mp_tomem (fst (bs ! i)) \<and> snd (bs ! i) = tags_needed (snd (hs ! i))"
    using r(2) by (auto simp: holds_def)
  have reach: "fst (hs ! i) + snd (hs ! i) \<le> 16 * (fst (bs ! i) + snd (bs ! i))" if "i < length hs" for i
    using at [OF that] by (simp add: mp_tomem_def tags_needed_def)
  have mem: "(fst (bs ! i), snd (bs ! i)) \<in> set bs" if "i < length hs" for i using that l by simp
  have inside: "8 \<le> fst (hs ! i) \<and> 56 + (mp_ntags p + 7) div 8 + fst (hs ! i) + snd (hs ! i) \<le> unat nsrc"
    if "i < length hs" for i
    using reach [OF that] mp_ok_facts(2) [OF ok mem [OF that]] r(3) p(4) at [OF that] by (simp add: mp_tomem_def)
  have apart: "fst (hs ! i) + snd (hs ! i) \<le> fst (hs ! j) \<or> fst (hs ! j) + snd (hs ! j) \<le> fst (hs ! i)"
    if "i < j" "j < length hs" for i j
  proof -
    have ij: "i < length hs" using that by simp
    have "fst (bs ! i) \<noteq> fst (bs ! j)" using nth_eq_iff_index_eq [OF d, of i j] that l by simp
    then show ?thesis
      using mp_ok_facts(3) [OF ok mem [OF ij] mem [OF that(2)]] reach [OF ij] reach [OF that(2)] at [OF ij] at [OF that(2)]
      by (auto simp: mp_tomem_def)
  qed
  have "mp_avail p' = Some (mp_capacity p')" if "hs = []"
  proof -
    have "mp_inv p' [(mp_ntags p', False)]" using mp_ok_empty [of p'] ok l that r(3) p(3) by simp
    then have "mp_freetag p' = first_free 0 [(mp_ntags p', False)]" "chained p' 0 [(mp_ntags p', False)] None"
      by (simp_all only: mp_inv_def)
    then show ?thesis
      using avail_loop [of p' 0 "[(mp_ntags p', False)]" 0] p(3) r(3)
      by (simp add: mp_avail_def mp_capacity_def free_bytes_def mult.commute)
  qed
  then show ?thesis
    using p(1) r(1) inside apart by (simp add: list_all_length sorted_wrt_iff_nth_less case_prod_beta)
qed

theorem mp_run_safe_witness:
  "\<exists>p p' hs. mp_format mp_blank 200 = Ret (Some p) \<and>
    pool_run [PAlloc 10, PAlloc 20, PWrite 0 (\<lambda>i. Some 3) (\<lambda>i. 7), PFree 0, PRealloc 0 40] (p, []) = Some (p', hs)"
  using mp_run_safe [of 200 "[PAlloc 10, PAlloc 20, PWrite 0 (\<lambda>i. Some 3) (\<lambda>i. 7), PFree 0, PRealloc 0 40]" mp_blank]
  by (simp only: pool_cmd_ok.simps list.pred_inject) fastforce

text \<open>
  C31. In a well-formed pool, \<open>dao_memory_pool_alloc\<close> of fewer than 2^63 bytes
  returns, and takes the first free segment that is large enough: it returns the memory of that
  segment's tag, whose first tags become a segment in use of just the size needed while the rest
  stays free, or returns NULL and changes nothing when there is none; the pool stays well-formed.
\<close>

theorem mp_alloc_first_fit:
  assumes "mp_inv p segs" "unat sz < 2 ^ 63"
  shows "case find_seg (tags_needed (unat sz)) segs of
      None \<Rightarrow> mp_alloc p sz = Some (None, p)
    | Some (l, s, r) \<Rightarrow> \<exists>p'. mp_alloc p sz = Some (Some (mp_tomem (seg_total l)), p') \<and>
        mp_inv p' (take_seg (tags_needed (unat sz)) l s r)"
  by (rule alloc_takes [OF assms])

definition mp_eight :: mpool where
  "mp_eight = mp_blank\<lparr>mp_ntags := 8, mp_bits := [0], mp_freetag := Some 0, mp_tag_size := (\<lambda>i. 128)\<rparr>"

lemma mp_eight: "mp_inv mp_eight [(8, False)]"
proof -
  have "bset mp_eight = {}" by (rule bset_zero [of _ 1]) (simp add: mp_eight_def)
  then show ?thesis by (simp add: mp_inv_def mp_eight_def mp_blank_def free_head_def)
qed

lemma tags_values: "tags_needed 8 = 1" "tags_needed 20 = 2" "tags_needed 40 = 3"
  by (simp_all add: tags_needed_def)

theorem mp_alloc_first_fit_witness:
  "\<exists>p'. mp_alloc mp_eight 20 = Some (Some 8, p') \<and> mp_inv p' [(2, True), (6, False)]"
  using mp_alloc_first_fit [OF mp_eight, of 20] by (simp add: tags_values take_seg_def mp_tomem_def)

text \<open>
  C32. In a well-formed pool, freeing the memory of a segment in use returns and makes
  the segment free, joined with the free segments that touch it on the left and on the right; the
  pool stays well-formed, so no two free segments ever touch.
\<close>

theorem mp_free_coalesces:
  assumes "mp_inv p (l @ (s, True) # r)"
  shows "\<exists>p'. mp_free p (Some (mp_tomem (seg_total l))) = Some p' \<and> mp_inv p' (give_seg l s r)"
  by (rule free_gives [OF assms])

theorem mp_free_coalesces_witness:
  "\<exists>p p'. mp_alloc mp_eight 20 = Some (Some 8, p) \<and> mp_free p (Some 8) = Some p' \<and> mp_inv p' [(8, False)]"
proof -
  obtain p where p: "mp_alloc mp_eight 20 = Some (Some 8, p)" "mp_inv p ([] @ (2, True) # [(6, False)])"
    using alloc_takes [OF mp_eight, of 20] by (auto simp: tags_values take_seg_def mp_tomem_def)
  show ?thesis using mp_free_coalesces [OF p(2)] p(1) by (simp add: give_seg_def mp_tomem_def)
qed

text \<open>
  In a well-formed pool, \<open>dao_memory_pool_realloc\<close> to a smaller size keeps the
  pointer, cuts the block to the size needed and frees the tags it no longer needs, joined with the
  free segment after the block; reallocating to a size that needs as many tags changes nothing.
\<close>

theorem mp_realloc_shrinks:
  assumes "mp_inv p (l @ (s, True) # r)" "unat sz < 2 ^ 63" "tags_needed (unat sz) \<le> s"
  shows "\<exists>p'. mp_realloc p (Some (mp_tomem (seg_total l))) sz = Some (Some (mp_tomem (seg_total l)), p') \<and>
    (if tags_needed (unat sz) = s then p' = p
     else mp_inv p' (give_seg (l @ [(tags_needed (unat sz), True)]) (s - tags_needed (unat sz)) r))"
proof (cases "tags_needed (unat sz) = s")
  case True
  have f: "mp_tag_size p (seg_total l) = of_nat (16 * s)" "16 * s < 2 ^ 63"
    using assms(1) by (auto simp: mp_inv_def chained_append)
  have "unat (of_nat (16 * s) :: u64) = 16 * s" by (rule unat_of_nat_u64) (use f(2) in simp)
  then have "mp_size_aligned sz = mp_tag_size p (seg_total l)"
    using f(1) aligned_tags(1) [OF assms(2)] True by (simp add: word_unat_eq_iff del: of_nat_mult)
  then show ?thesis using True by (simp add: mp_realloc_def Let_def mp_ofmem_def mp_tomem_def)
next
  case False
  then show ?thesis
    using mp_shrink [OF assms(1) aligned_tags(2) [OF assms(2)] _ aligned_tags(1) [OF assms(2)]] assms(3) by auto
qed

theorem mp_realloc_shrinks_witness:
  "\<exists>p p'. mp_alloc mp_eight 40 = Some (Some 8, p) \<and> mp_realloc p (Some 8) 8 = Some (Some 8, p') \<and>
    mp_inv p' [(1, True), (7, False)]"
proof -
  obtain p where p: "mp_alloc mp_eight 40 = Some (Some 8, p)" "mp_inv p ([] @ (3, True) # [(5, False)])"
    using alloc_takes [OF mp_eight, of 40] by (auto simp: tags_values take_seg_def mp_tomem_def)
  show ?thesis using mp_realloc_shrinks [OF p(2), of 8] p(1) by (simp add: give_seg_def mp_tomem_def tags_values)
qed

text \<open>
  The size computation of \<open>dao_memory_pool_alloc\<close> overflows: a request for one of the
  seven largest sizes, 2^64 - 7 bytes or more, is served like a request for 8 bytes.
\<close>

theorem mp_alloc_wraps:
  assumes "2 ^ 64 - 7 \<le> unat sz"
  shows "mp_alloc p sz = mp_alloc p 8"
proof -
  have "unat (7 + sz) < 16"
    using assms unsigned_less [of sz, where 'a = nat] by (simp add: unat_word_ariths mod_if, intro impI, linarith)
  then have "unat (7 + sz) div 16 = 0" by simp
  then have "(sz + 8 - 1) div 16 = 0" by (simp add: word_unat_eq_iff unat_div)
  then have "mp_size_aligned sz = mp_size_aligned 8" by (simp add: mp_size_aligned_def)
  then show ?thesis by (simp add: mp_alloc_def)
qed

theorem mp_alloc_wraps_witness: "\<exists>p'. mp_alloc mp_eight 0xFFFFFFFFFFFFFFFF = Some (Some 8, p')"
  using mp_alloc_wraps [where sz = "0xFFFFFFFFFFFFFFFF" and p = mp_eight] alloc_takes [OF mp_eight, where sz = 8]
  by (auto simp: tags_values mp_tomem_def)

text \<open>
  \<open>dao_memory_pool_format\<close> accepts a memory of 56 to 71 bytes, for which there is no
  room for a tag, and still writes the first tag, past the end of the memory.
\<close>

theorem mp_format_overrun:
  assumes "56 \<le> unat nsrc" "unat nsrc < 72"
  shows "mp_format g nsrc = Crash"
proof -
  have h: "\<not> nsrc < mp_size_hint 0 0" using assms by (simp add: mp_hint_0 word_less_nat_alt)
  have "unat (nsrc - 56) = unat nsrc - 56" using assms(1) by (simp add: unat_sub_if')
  then have "unat ((nsrc - 56) div 16) = 0" using assms by (simp add: unat_div)
  then have "mp_fit (nsrc - 56) (unat ((nsrc - 56) div 16)) = 0" by simp
  then show ?thesis
    using h assms unfolding mp_format_def mp_clear_def mp_hint_0 Let_def by simp
qed

theorem mp_format_overrun_witness: "mp_format mp_blank 60 = Crash"
  by (rule mp_format_overrun) simp_all

end
