(* ===== verification/Snowflake.thy ===== *)
theory Snowflake imports PhpValue begin

text \<open>
  The identifiers of \<open>snowflake.c\<close>: 41 bits of milliseconds since an epoch, 10 bits of node number, 12
  bits of sequence number. The last time stamp and sequence number are in a shared memory that is
  locked for each identifier. The clock is a parameter: what the successive calls of
  \<open>gettimeofday\<close> read, as seconds and microseconds; \<open>n\<close> counts the calls made.
\<close>

section \<open>Numbers in decimal\<close>

definition digit_char :: "nat \<Rightarrow> char" where "digit_char d = char_of (48 + d)"

fun show_nat :: "nat \<Rightarrow> string" where
  "show_nat n = (if n < 10 then [digit_char n] else show_nat (n div 10) @ [digit_char (n mod 10)])"

declare show_nat.simps [simp del]

text \<open>The format \<open>%ld\<close>.\<close>

definition show_id :: "u64 \<Rightarrow> string" where
  "show_id w = (if sint w < 0 then CHR ''-'' # show_nat (nat (- sint w)) else show_nat (nat (sint w)))"

section \<open>The generator\<close>

record sf_globals =
  sg_node :: u32
  sg_epoch :: u64

record sf_data =
  sf_sequence :: u32
  sf_timestamp :: u64

type_synonym clock = "nat \<Rightarrow> u64 \<times> u64"

definition get_time_in_ms :: "clock \<Rightarrow> nat \<Rightarrow> u64" where
  "get_time_in_ms clk n = fst (clk n) * 1000 + snd (clk n) div 1000"

text \<open>Waiting ends only when the clock advances.\<close>

partial_function (option) till_next_ms :: "clock \<Rightarrow> nat \<Rightarrow> u64 \<Rightarrow> (u64 \<times> nat) option" where
  "till_next_ms clk n last_ts =
     (let ts = get_time_in_ms clk n
      in if ts \<le> last_ts then till_next_ms clk (n + 1) last_ts else Some (ts, n + 1))"

definition sf_pack :: "sf_globals \<Rightarrow> u64 \<Rightarrow> u32 \<Rightarrow> u64" where
  "sf_pack g ts sq =
     push_bit 22 (ts - sg_epoch g) OR ucast (push_bit 12 (sg_node g AND 0x3FF)) OR ucast sq"

text \<open>What \<open>nextId\<close> does while it holds the lock.\<close>

definition sf_next :: "sf_globals \<Rightarrow> clock \<Rightarrow> sf_data \<times> nat \<Rightarrow> (u64 \<times> sf_data \<times> nat) option" where
  "sf_next g clk = (\<lambda>(d, n).
     let ts = get_time_in_ms clk n; n = n + 1 in
     if ts = sf_timestamp d then
       let sq = (sf_sequence d + 1) AND 0xFFF in
       if sq = 0 then
         Option.bind (till_next_ms clk n ts) (\<lambda>(ts, n).
           Some (sf_pack g ts sq, \<lparr>sf_sequence = sq, sf_timestamp = ts\<rparr>, n))
       else Some (sf_pack g ts sq, \<lparr>sf_sequence = sq, sf_timestamp = ts\<rparr>, n)
     else Some (sf_pack g ts 0, \<lparr>sf_sequence = 0, sf_timestamp = ts\<rparr>, n))"

text \<open>\<open>locked\<close> says whether the semaphore was acquired.\<close>

definition snowflake_nextId ::
    "sf_globals \<Rightarrow> clock \<Rightarrow> bool \<Rightarrow> sf_data option \<times> nat \<Rightarrow> (zval \<times> sf_data option \<times> nat) option" where
  "snowflake_nextId g clk locked = (\<lambda>(data, n).
     if data = None \<or> \<not> locked then Some (ZBool False, data, n)
     else map_option (\<lambda>(w, d, n). (ZStr (show_id w), Some d, n)) (sf_next g clk (the data, n)))"

text \<open>
  Creating an object opens the shared memory, or creates it. \<open>opened\<close> and \<open>created\<close> are the data found
  there, \<open>msize\<close> its size, \<open>mapped\<close> whether it is mapped; \<open>sizeof(snowflake_data_t)\<close> is 16.
\<close>

definition snowflake_create ::
    "sf_data option \<Rightarrow> sf_data option \<Rightarrow> u32 \<Rightarrow> bool \<Rightarrow> sf_data outcome" where
  "snowflake_create opened created msize mapped =
     (if opened = None then
        if created = None then Throw ''Failed to create shared memory''
        else if msize < 16 then Throw ''Shared memory size is error''
        else if \<not> mapped then Throw ''Failed to get shared memory''
        else Ret ((the created)\<lparr>sf_sequence := 0, sf_timestamp := 0\<rparr>)
      else if msize < 16 then Throw ''Shared memory size is error''
      else if \<not> mapped then Throw ''Failed to get shared memory''
      else Ret (the opened))"

section \<open>Parsing\<close>

definition is_space :: "char \<Rightarrow> bool" where
  "is_space c = (c = CHR '' '' \<or> (9 \<le> (of_char c :: nat) \<and> (of_char c :: nat) \<le> 13))"

text \<open>
  \<open>sscanf\<close> leaves the variable as it is when the text ends before the number begins: \<open>key2int\<close> then
  reads a variable that was never written. A number that does not fit is undefined too.
\<close>

definition key2int :: "string \<Rightarrow> u64 outcome" where
  "key2int key =
     (let s = dropWhile is_space (takeWhile (\<lambda>c. c \<noteq> NUL) key) in
      if s = [] then Crash
      else
        (let neg = (hd s = CHR ''-''); t = (if hd s = CHR ''-'' \<or> hd s = CHR ''+'' then tl s else s);
             ds = takeWhile is_digit t; v = dec_value ds
         in if ds = [] then Ret 0
            else if (if neg then v \<le> 2 ^ 63 else v < 2 ^ 63) then Ret (if neg then - of_nat v else of_nat v)
            else Crash))"

text \<open>\<open>i2d\<close> converts an \<open>int\<close> to a \<open>double\<close>; \<open>parse\<close> and \<open>parseID\<close> have the same body.\<close>

definition snowflake_parse :: "sf_globals \<Rightarrow> (int \<Rightarrow> c_double) \<Rightarrow> zval \<Rightarrow> zval outcome" where
  "snowflake_parse g i2d v =
     (case v of ZStr s \<Rightarrow>
        (case key2int s of
           Ret w \<Rightarrow>
             if w = 0 then Ret (ZBool False)
             else
               (let node = drop_bit 12 w AND 0x3FF; ts = (drop_bit 22 w + sg_epoch g) div 1000
                in Ret (ZArr [(KStr ''node'', ZLong (of_int (sint (ucast node :: u32)))),
                              (KStr ''timestamp'', ZDouble (i2d (sint (ucast ts :: u32))))]))
         | Throw e \<Rightarrow> Throw e | Crash \<Rightarrow> Crash)
      | _ \<Rightarrow> Crash)"

definition snowflake_parseID :: "sf_globals \<Rightarrow> (int \<Rightarrow> c_double) \<Rightarrow> zval \<Rightarrow> zval outcome" where
  "snowflake_parseID = snowflake_parse"

section \<open>Printing and scanning\<close>

lemma digit_char: "d < 10 \<Longrightarrow> is_digit (digit_char d)" "d < 10 \<Longrightarrow> char_digit (digit_char d) = d"
  by (auto simp: is_digit_def digit_char_def char_digit_def)

lemma show_nat_digits: "list_all is_digit (show_nat n)"
proof (induction n rule: show_nat.induct)
  case (1 n)
  then show ?case by (subst show_nat.simps) (simp add: digit_char)
qed

lemma show_nat_value: "dec_value (show_nat n) = n"
proof (induction n rule: show_nat.induct)
  case (1 n)
  then show ?case by (subst show_nat.simps) (simp add: digit_char dec_value_def)
qed

lemma show_nat_ne: "show_nat n \<noteq> []"
  by (subst show_nat.simps) simp

lemma digit_plain: "is_digit c \<Longrightarrow> c \<noteq> NUL \<and> \<not> is_space c \<and> c \<noteq> CHR ''-'' \<and> c \<noteq> CHR ''+''"
  by (auto simp: is_digit_def is_space_def)

lemma take_while_all: "list_all P xs \<Longrightarrow> takeWhile P xs = xs"
  by (induction xs) auto

lemma key2int_show:
  assumes "unat w < 2 ^ 63"
  shows "key2int (show_id w) = Ret w"
proof -
  let ?s = "show_nat (unat w)"
  have s: "sint w = int (unat w)" by (rule sint_u64_small [OF assms])
  then have e: "show_id w = ?s" by (simp add: show_id_def)
  have d: "list_all is_digit ?s" by (rule show_nat_digits)
  then have h: "is_digit (hd ?s)" using show_nat_ne [of "unat w"] by (cases ?s) auto
  have n: "list_all (\<lambda>c. c \<noteq> NUL) ?s" using d digit_plain by (auto simp: list_all_iff)
  have "dropWhile is_space ?s = ?s" using h show_nat_ne [of "unat w"] digit_plain by (cases ?s) auto
  then show ?thesis
    unfolding key2int_def e take_while_all [OF n] Let_def
    unfolding dec_value_def [symmetric]
    using digit_plain [OF h] show_nat_ne assms by (simp add: show_nat_value take_while_all [OF d] del: takeWhile_eq_all_conv)
qed

section \<open>Packing\<close>

definition sf_seq :: "u64 \<Rightarrow> nat" where "sf_seq w = unat w mod 2 ^ 12"
definition sf_node :: "u64 \<Rightarrow> nat" where "sf_node w = unat w div 2 ^ 12 mod 2 ^ 10"
definition sf_time :: "u64 \<Rightarrow> nat" where "sf_time w = unat w div 2 ^ 22"

lemma or_shift:
  fixes x y :: "'a::len word"
  assumes "unat y < 2 ^ k" "unat x * 2 ^ k + unat y < 2 ^ LENGTH('a)"
  shows "unat (push_bit k x OR y) = unat x * 2 ^ k + unat y"
proof -
  have "unat (take_bit k y) = unat y" using assms(1) by (simp add: unsigned_take_bit_eq take_bit_nat_eq_self)
  then have t: "take_bit k y = y" by (simp add: word_unat_eq_iff)
  have "push_bit k x OR take_bit k y = push_bit k x + take_bit k y"
    by (rule disjunctive_add_eq_or [symmetric]) (auto simp: bit_eq_iff bit_simps)
  then have "push_bit k x OR y = push_bit k x + y" unfolding t .
  also have "\<dots> = of_nat (unat x * 2 ^ k + unat y)" by (simp add: push_bit_eq_mult)
  finally show ?thesis using assms(2) by (simp only: unat_of_nat take_bit_eq_mod mod_less)
qed

lemma unat_and_10: "unat (w AND 0x3FF) = unat w mod 2 ^ 10" for w :: "'a::len word"
proof -
  have "w AND 0x3FF = take_bit 10 w" by (simp add: take_bit_eq_mask mask_eq_exp_minus_1)
  then have "unat (w AND 0x3FF) = take_bit 10 (unat w)" by (simp only: unsigned_take_bit_eq)
  then show ?thesis by (simp only: take_bit_eq_mod)
qed

lemma unat_sf_pack:
  assumes "unat (ts - sg_epoch g) < 2 ^ 41" "unat sq < 2 ^ 12"
  shows "unat (sf_pack g ts sq) = unat (ts - sg_epoch g) * 2 ^ 22 + unat (sg_node g AND 0x3FF) * 2 ^ 12 + unat sq"
    "unat (sf_pack g ts sq) < 2 ^ 63"
proof -
  let ?N = "sg_node g AND 0x3FF"
  have n: "unat ?N < 2 ^ 10" by (simp add: unat_and_10)
  have "unat (push_bit 12 ?N OR 0) = unat ?N * 2 ^ 12 + unat (0 :: u32)"
    by (rule or_shift) (use n in simp_all)
  then have p: "unat (push_bit 12 ?N) = unat ?N * 2 ^ 12" by simp
  have e: "ucast (push_bit 12 ?N) = (push_bit 12 (ucast ?N) :: u64)"
    using or_shift [of "0 :: u64" 12 "ucast ?N"] n p by (simp add: word_unat_eq_iff unat_ucast_32_64)
  have y: "unat (ucast (push_bit 12 ?N) OR ucast sq :: u64) = unat ?N * 2 ^ 12 + unat sq"
    unfolding e using or_shift [of "ucast sq :: u64" 12 "ucast ?N"] n assms(2) by (simp add: unat_ucast_32_64)
  show u: "unat (sf_pack g ts sq) = unat (ts - sg_epoch g) * 2 ^ 22 + unat ?N * 2 ^ 12 + unat sq"
    unfolding sf_pack_def using or_shift [of "ucast (push_bit 12 ?N) OR ucast sq" 22 "ts - sg_epoch g"] n assms y
    by simp
  show "unat (sf_pack g ts sq) < 2 ^ 63" unfolding u using n assms by simp
qed

section \<open>A clock that moves on\<close>

text \<open>The reading of the clock, in milliseconds.\<close>

abbreviation ms :: "clock \<Rightarrow> nat \<Rightarrow> nat" where "ms clk n \<equiv> unat (get_time_in_ms clk n)"

text \<open>
  Up to reading \<open>N\<close> the clock never goes back and moves on by a millisecond within \<open>K\<close> readings, and it
  stays within 41 bits of the epoch.
\<close>

definition clock_ok :: "sf_globals \<Rightarrow> clock \<Rightarrow> nat \<Rightarrow> nat \<Rightarrow> bool" where
  "clock_ok g clk K N \<longleftrightarrow>
     list_all (\<lambda>n. ms clk n \<le> ms clk (Suc n)) [0..<N] \<and>
     list_all (\<lambda>n. ms clk n < ms clk (n + K)) [0..<Suc N - K] \<and>
     unat (sg_epoch g) \<le> ms clk 0 \<and> ms clk N < unat (sg_epoch g) + 2 ^ 41"

lemma clock_mono:
  assumes "clock_ok g clk K N" "m \<le> n" "n \<le> N"
  shows "ms clk m \<le> ms clk n"
  using assms(2,3)
proof (induction n)
  case (Suc n)
  have "ms clk n \<le> ms clk (Suc n)" using assms(1) Suc(3) by (simp add: clock_ok_def list_all_iff)
  then show ?case using Suc by (cases "m = Suc n") auto
qed simp

lemma clock_moves: "clock_ok g clk K N \<Longrightarrow> n + K \<le> N \<Longrightarrow> ms clk n < ms clk (n + K)"
  by (simp add: clock_ok_def list_all_iff)

lemma clock_range:
  assumes "clock_ok g clk K N" "n \<le> N"
  shows "unat (sg_epoch g) \<le> ms clk n" "ms clk n < unat (sg_epoch g) + 2 ^ 41"
    "unat (get_time_in_ms clk n - sg_epoch g) = ms clk n - unat (sg_epoch g)"
proof -
  show a: "unat (sg_epoch g) \<le> ms clk n"
    using clock_mono [OF assms(1), of 0 n] assms by (simp add: clock_ok_def)
  show "ms clk n < unat (sg_epoch g) + 2 ^ 41"
    using clock_mono [OF assms(1,2) order.refl] assms(1) by (simp add: clock_ok_def)
  show "unat (get_time_in_ms clk n - sg_epoch g) = ms clk n - unat (sg_epoch g)"
    using a by (simp add: unat_sub_if')
qed

text \<open>Waiting ends within the next \<open>K\<close> readings.\<close>

lemma till_next:
  assumes ok: "clock_ok g clk K N" and j: "j \<le> K" "n + j \<le> N" "unat ts < ms clk (n + j)"
  shows "\<exists>m. till_next_ms clk n ts = Some (get_time_in_ms clk m, Suc m) \<and> n \<le> m \<and> m \<le> n + j \<and> unat ts < ms clk m"
  using j
proof (induction j arbitrary: n)
  case 0
  then show ?case by (subst till_next_ms.simps) (simp add: Let_def word_le_nat_alt)
next
  case (Suc j)
  show ?case
  proof (cases "get_time_in_ms clk n \<le> ts")
    case True
    obtain m where "till_next_ms clk (Suc n) ts = Some (get_time_in_ms clk m, Suc m)" "Suc n \<le> m"
      "m \<le> Suc n + j" "unat ts < ms clk m"
      using Suc(1) [of "Suc n"] Suc(2-4) by auto
    then show ?thesis using True by (subst till_next_ms.simps) (auto simp: Let_def)
  next
    case False
    then show ?thesis by (subst till_next_ms.simps) (auto simp: Let_def word_le_nat_alt not_le)
  qed
qed

definition sf_key :: "sf_data \<Rightarrow> nat \<times> nat" where
  "sf_key d = (unat (sf_timestamp d), unat (sf_sequence d))"

lemma seq_step:
  assumes "unat (sq :: u32) < 2 ^ 12"
  shows "unat ((sq + 1) AND 0xFFF) = (unat sq + 1) mod 2 ^ 12"
proof -
  have "(sq + 1) AND 0xFFF = take_bit 12 (sq + 1)" by (simp add: take_bit_eq_mask mask_eq_exp_minus_1)
  then have "unat ((sq + 1) AND 0xFFF) = take_bit 12 (unat (sq + 1))" by (simp only: unsigned_take_bit_eq)
  moreover have "unat (sq + 1) = unat sq + 1" using assms by (simp add: unat_word_ariths)
  ultimately show ?thesis by (simp only: take_bit_eq_mod)
qed

text \<open>
  Each identifier packs the state it leaves behind, whose time stamp and sequence number are larger
  than those before in the order of pairs.
\<close>

lemma sf_next_ok:
  assumes ok: "clock_ok g clk K N" and n: "n + K \<le> N" and d: "unat (sf_sequence d) < 2 ^ 12"
    "unat (sf_timestamp d) \<le> ms clk n"
  shows "\<exists>d' n'. sf_next g clk (d, n) = Some (sf_pack g (sf_timestamp d') (sf_sequence d'), d', n') \<and>
    unat (sf_sequence d') < 2 ^ 12 \<and> n < n' \<and> n' \<le> n + K + 1 \<and>
    (\<exists>m. n \<le> m \<and> m < n' \<and> m \<le> N \<and> sf_timestamp d' = get_time_in_ms clk m) \<and>
    (unat (sf_timestamp d) < unat (sf_timestamp d') \<or>
     sf_timestamp d = sf_timestamp d' \<and> unat (sf_sequence d) < unat (sf_sequence d'))"
proof -
  let ?ts = "get_time_in_ms clk n" and ?sq = "(sf_sequence d + 1) AND 0xFFF"
  note sq = seq_step [OF d(1)]
  have K: "0 < K" using clock_moves [OF ok n] by (cases K) auto
  consider "?ts \<noteq> sf_timestamp d" | "?ts = sf_timestamp d" "?sq \<noteq> 0" | "?ts = sf_timestamp d" "?sq = 0" by blast
  then show ?thesis
  proof cases
    case 1
    then have "unat (sf_timestamp d) < ms clk n" using d(2) by (metis le_neq_implies_less word_unat_eq_iff)
    then show ?thesis
      using 1 n K by (intro exI [of _ "\<lparr>sf_sequence = 0, sf_timestamp = ?ts\<rparr>"] exI [of _ "n + 1"])
        (auto simp: sf_next_def Let_def intro!: exI [of _ n])
  next
    case 2
    have "unat ?sq \<noteq> 0" using 2(2) by (metis unat_eq_0)
    then have "unat ?sq = unat (sf_sequence d) + 1" using sq d(1) by (cases "unat (sf_sequence d) + 1 = 2 ^ 12") auto
    then show ?thesis
      using 2 n K sq by (intro exI [of _ "\<lparr>sf_sequence = ?sq, sf_timestamp = ?ts\<rparr>"] exI [of _ "n + 1"])
        (auto simp: sf_next_def Let_def intro!: exI [of _ n])
  next
    case 3
    have "unat ?ts < ms clk (Suc n + (K - 1))" using clock_moves [OF ok n] K by simp
    then obtain m where m: "till_next_ms clk (Suc n) ?ts = Some (get_time_in_ms clk m, Suc m)" "Suc n \<le> m"
      "m \<le> Suc n + (K - 1)" "unat ?ts < ms clk m"
      using till_next [OF ok, of "K - 1" "Suc n" ?ts] n K by auto
    then show ?thesis
      using 3 n K by (intro exI [of _ "\<lparr>sf_sequence = 0, sf_timestamp = get_time_in_ms clk m\<rparr>"] exI [of _ "Suc m"])
        (auto simp: sf_next_def Let_def intro!: exI [of _ m])
  qed
qed

section \<open>Successive identifiers\<close>

fun sf_calls :: "sf_globals \<Rightarrow> clock \<Rightarrow> nat \<Rightarrow> sf_data option \<times> nat \<Rightarrow> zval list option" where
  "sf_calls g clk 0 st = Some []"
| "sf_calls g clk (Suc k) st =
     Option.bind (snowflake_nextId g clk True st) (\<lambda>(v, st). map_option (\<lambda>vs. v # vs) (sf_calls g clk k st))"

definition stamp_less :: "u64 \<times> u32 \<Rightarrow> u64 \<times> u32 \<Rightarrow> bool" where
  "stamp_less p q \<longleftrightarrow> fst p < fst q \<or> fst p = fst q \<and> snd p < snd q"

definition stamp_ok :: "sf_globals \<Rightarrow> u64 \<times> u32 \<Rightarrow> bool" where
  "stamp_ok g p \<longleftrightarrow> unat (sg_epoch g) \<le> unat (fst p) \<and> unat (fst p - sg_epoch g) < 2 ^ 41 \<and> unat (snd p) < 2 ^ 12"

definition stamp_of :: "sf_data \<Rightarrow> u64 \<times> u32" where
  "stamp_of d = (sf_timestamp d, sf_sequence d)"

lemma stamp_trans: "stamp_less p q \<Longrightarrow> stamp_less q r \<Longrightarrow> stamp_less p r"
  by (auto simp: stamp_less_def)

lemma sf_calls_ok:
  assumes ok: "clock_ok g clk K N" and n: "n + k * (K + 1) \<le> N" and d: "unat (sf_sequence d) < 2 ^ 12"
    "unat (sf_timestamp d) \<le> ms clk n"
  shows "\<exists>ps. sf_calls g clk k (Some d, n) = Some (map (\<lambda>p. ZStr (show_id (sf_pack g (fst p) (snd p)))) ps) \<and>
    length ps = k \<and> sorted_wrt stamp_less (stamp_of d # ps) \<and> list_all (stamp_ok g) ps"
  using n d
proof (induction k arbitrary: n d)
  case (Suc k)
  have nK: "n + K \<le> N" using Suc(2) by simp
  obtain d' n' m where s: "sf_next g clk (d, n) = Some (sf_pack g (sf_timestamp d') (sf_sequence d'), d', n')"
    and sq: "unat (sf_sequence d') < 2 ^ 12" and n': "n < n'" "n' \<le> n + K + 1"
    and m: "n \<le> m" "m < n'" "m \<le> N" "sf_timestamp d' = get_time_in_ms clk m"
    and less: "unat (sf_timestamp d) < unat (sf_timestamp d') \<or>
      sf_timestamp d = sf_timestamp d' \<and> unat (sf_sequence d) < unat (sf_sequence d')"
    using sf_next_ok [OF ok nK Suc(3,4)] by blast
  have N': "n' + k * (K + 1) \<le> N" using Suc(2) n'(2) by simp
  have t': "unat (sf_timestamp d') \<le> ms clk n'" using clock_mono [OF ok, of m n'] m N' by simp
  obtain ps where ps: "sf_calls g clk k (Some d', n') = Some (map (\<lambda>p. ZStr (show_id (sf_pack g (fst p) (snd p)))) ps)"
    "length ps = k" "sorted_wrt stamp_less (stamp_of d' # ps)" "list_all (stamp_ok g) ps"
    using Suc(1) [OF N' sq t'] by blast
  have "stamp_less (stamp_of d) (stamp_of d')" using less by (auto simp: stamp_less_def stamp_of_def word_less_nat_alt)
  moreover have "stamp_ok g (stamp_of d')" using clock_range [OF ok m(3)] m(4) sq by (simp add: stamp_ok_def stamp_of_def)
  ultimately show ?case
    using s ps stamp_trans
    by (intro exI [of _ "stamp_of d' # ps"]) (auto simp: snowflake_nextId_def stamp_of_def)
qed simp

lemma pack_less:
  assumes "stamp_ok g p" "stamp_ok g q" "stamp_less p q"
  shows "sf_pack g (fst p) (snd p) < sf_pack g (fst q) (snd q)"
proof -
  have n: "unat (sg_node g AND 0x3FF) < 2 ^ 10" by (simp add: unat_and_10)
  have b: "unat (fst p - sg_epoch g) < 2 ^ 41" "unat (fst q - sg_epoch g) < 2 ^ 41"
    "unat (snd p) < 2 ^ 12" "unat (snd q) < 2 ^ 12" using assms(1,2) by (simp_all add: stamp_ok_def)
  have e: "unat (fst p - sg_epoch g) = unat (fst p) - unat (sg_epoch g)"
    "unat (fst q - sg_epoch g) = unat (fst q) - unat (sg_epoch g)"
    "unat (sg_epoch g) \<le> unat (fst p)"
    using assms(1,2) by (simp_all add: stamp_ok_def unat_sub_if')
  have "unat (fst p - sg_epoch g) < unat (fst q - sg_epoch g) \<or>
    fst p = fst q \<and> unat (snd p) < unat (snd q)"
    using assms(3) e by (auto simp: stamp_less_def word_less_nat_alt)
  then show ?thesis
    unfolding word_less_nat_alt unat_sf_pack(1) [OF b(1,3)] unat_sf_pack(1) [OF b(2,4)]
    using n b by auto
qed

lemma pack_digits:
  fixes a m c :: nat
  assumes "c < 2 ^ 12"
  shows "(a * 2 ^ 22 + m * 2 ^ 12 + c) div 2 ^ 12 mod 2 ^ 10 = m mod 2 ^ 10"
proof -
  have "a * 2 ^ 22 + m * 2 ^ 12 + c = c + (a * 2 ^ 10 + m) * 2 ^ 12" by simp
  moreover have "(c + x * 2 ^ 12) div 2 ^ 12 = x" for x using assms by simp
  ultimately have "(a * 2 ^ 22 + m * 2 ^ 12 + c) div 2 ^ 12 = a * 2 ^ 10 + m" by (simp only:)
  then show ?thesis by simp
qed

lemma node_pack:
  assumes "unat (t - sg_epoch g) < 2 ^ 41" "unat sq < 2 ^ 12"
  shows "sf_node (sf_pack g t sq) = unat (sg_node g) mod 2 ^ 10"
  unfolding sf_node_def unat_sf_pack(1) [OF assms] pack_digits [OF assms(2)] unat_and_10 by simp

lemma pack_node: "stamp_ok g p \<Longrightarrow> sf_node (sf_pack g (fst p) (snd p)) = unat (sg_node g) mod 2 ^ 10"
  by (rule node_pack) (simp_all add: stamp_ok_def)

text \<open>
  C33. With a clock that never goes back and moves on within \<open>K\<close> readings, \<open>k\<close> calls of
  \<open>nextId\<close> all return, and their identifiers increase strictly (so no two are equal), however many calls fall in
  one millisecond; each carries the ten bits of the node, so machines with different nodes never clash.
\<close>

theorem snowflake_ids_increasing:
  assumes "clock_ok g clk K N" "k * (K + 1) \<le> N" "unat (sf_sequence d) < 2 ^ 12" "unat (sf_timestamp d) \<le> ms clk 0"
  shows "\<exists>ws. sf_calls g clk k (Some d, 0) = Some (map (\<lambda>w. ZStr (show_id w)) ws) \<and> length ws = k \<and>
    sorted_wrt (<) ws \<and> list_all (\<lambda>w. sf_node w = unat (sg_node g) mod 2 ^ 10) ws"
proof -
  obtain ps where ps: "sf_calls g clk k (Some d, 0) = Some (map (\<lambda>p. ZStr (show_id (sf_pack g (fst p) (snd p)))) ps)"
    "length ps = k" "sorted_wrt stamp_less ps" "list_all (stamp_ok g) ps"
    using sf_calls_ok [OF assms(1), of 0 k d] assms(2-4) by auto
  let ?ws = "map (\<lambda>p. sf_pack g (fst p) (snd p)) ps"
  have "sorted_wrt (<) ?ws"
    unfolding sorted_wrt_map using ps(3,4) pack_less by (auto simp: list_all_iff elim: sorted_wrt_mono_rel [rotated])
  moreover have "list_all (\<lambda>w. sf_node w = unat (sg_node g) mod 2 ^ 10) ?ws"
    using ps(4) pack_node by (auto simp: list_all_iff)
  ultimately show ?thesis using ps(1,2) by (intro exI [of _ ?ws]) (simp add: comp_def)
qed

text \<open>A clock for the examples: one reading for each millisecond from the hour 1 on.\<close>

definition ticking :: clock where "ticking n = (3600, of_nat n * 1000)"

definition sf_example :: sf_globals where "sf_example = \<lparr>sg_node = 5, sg_epoch = 3000000\<rparr>"

lemma ticking_ok: "clock_ok sf_example ticking 1 20"
  by (simp add: clock_ok_def ticking_def sf_example_def get_time_in_ms_def upt_rec unat_div)

theorem snowflake_ids_increasing_witness:
  "\<exists>ws. sf_calls sf_example ticking 3 (Some \<lparr>sf_sequence = 4095, sf_timestamp = 3600000\<rparr>, 0) =
      Some (map (\<lambda>w. ZStr (show_id w)) ws) \<and> length ws = 3 \<and> sorted_wrt (<) ws"
  using snowflake_ids_increasing [OF ticking_ok, of 3 "\<lparr>sf_sequence = 4095, sf_timestamp = 3600000\<rparr>"]
  by (auto simp: ticking_def get_time_in_ms_def)

section \<open>Parsing an identifier\<close>

lemma parse_id:
  assumes "unat (t - sg_epoch g) < 2 ^ 41" "unat sq < 2 ^ 12" "sf_pack g t sq \<noteq> 0"
  shows "snowflake_parse g i2d (ZStr (show_id (sf_pack g t sq))) =
    Ret (ZArr [(KStr ''node'', ZLong (of_nat (unat (sg_node g) mod 2 ^ 10))),
               (KStr ''timestamp'', ZDouble (i2d (sint (of_nat (unat t div 1000) :: u32))))])"
proof -
  let ?w = "sf_pack g t sq"
  note w = unat_sf_pack [OF assms(1,2)]
  have n: "unat (sg_node g AND 0x3FF) < 2 ^ 10" by (simp add: unat_and_10)
  have "unat (drop_bit 22 ?w) = unat ?w div 2 ^ 22" by (simp add: drop_bit_eq_div unat_div)
  also have "\<dots> = unat (t - sg_epoch g)" unfolding w(1) using n assms(2) by simp
  finally have dt: "drop_bit 22 ?w = t - sg_epoch g" by (simp add: word_unat_eq_iff)
  have t: "ucast ((drop_bit 22 ?w + sg_epoch g) div 1000) = (of_nat (unat t div 1000) :: u32)"
    unfolding dt by (simp add: word_unat_eq_iff unat_div unsigned_ucast_eq unat_of_nat take_bit_eq_mod)
  have d: "unat (drop_bit 12 ?w AND 0x3FF) = unat (sg_node g) mod 2 ^ 10"
    unfolding node_pack [OF assms(1,2), symmetric] sf_node_def unat_and_10 by (simp add: drop_bit_eq_div unat_div)
  have u: "unat (ucast (drop_bit 12 ?w AND 0x3FF) :: u32) = unat (sg_node g) mod 2 ^ 10"
    by (subst unat_ucast_64_32) (simp_all add: d)
  have "sint (ucast (drop_bit 12 ?w AND 0x3FF) :: u32) = int (unat (sg_node g) mod 2 ^ 10)"
    by (subst sint_u32_small) (simp_all add: u)
  then have "of_int (sint (ucast (drop_bit 12 ?w AND 0x3FF) :: u32)) = (of_nat (unat (sg_node g) mod 2 ^ 10) :: u64)"
    by (simp only: of_int_of_nat_eq)
  then show ?thesis
    unfolding snowflake_parse_def using key2int_show [OF w(2)] assms(3) t by (simp add: Let_def del: of_int_sint)
qed

text \<open>
  C34. \<open>parse\<close> and \<open>parseID\<close> give back the node and the second in which an
  identifier was made, for every time up to January 2038.
\<close>

theorem snowflake_parse_roundtrip:
  assumes "unat (t - sg_epoch g) < 2 ^ 41" "unat sq < 2 ^ 12" "sf_pack g t sq \<noteq> 0" "unat t div 1000 < 2 ^ 31"
  shows "snowflake_parse g i2d (ZStr (show_id (sf_pack g t sq))) =
    Ret (ZArr [(KStr ''node'', ZLong (of_nat (unat (sg_node g) mod 2 ^ 10))),
               (KStr ''timestamp'', ZDouble (i2d (int (unat t div 1000))))])"
proof -
  have u: "unat (of_nat (unat t div 1000) :: u32) = unat t div 1000"
    using assms(4) by (simp add: unat_of_nat_u32)
  have "sint (of_nat (unat t div 1000) :: u32) = int (unat t div 1000)"
    by (subst sint_u32_small) (use u assms(4) in simp_all)
  then show ?thesis using parse_id [OF assms(1-3)] by simp
qed

theorem snowflake_parse_roundtrip_witness:
  "snowflake_parse sf_example (\<lambda>_. 0) (ZStr (show_id (sf_pack sf_example 3600007 9))) =
    Ret (ZArr [(KStr ''node'', ZLong 5), (KStr ''timestamp'', ZDouble 0)])"
proof -
  have "sf_pack sf_example 3600007 9 \<noteq> 0"
    using unat_sf_pack(1) [of 3600007 sf_example 9] by (intro notI) (simp add: sf_example_def)
  then show ?thesis using snowflake_parse_roundtrip [of 3600007 sf_example 9 "\<lambda>_. 0"] by (simp add: sf_example_def)
qed

text \<open>
  From January 2038 on the \<open>int\<close> that holds the second overflows, and \<open>parse\<close> gives a
  negative time.
\<close>

theorem snowflake_2038:
  assumes "unat (t - sg_epoch g) < 2 ^ 41" "unat sq < 2 ^ 12" "sf_pack g t sq \<noteq> 0"
    "2 ^ 31 \<le> unat t div 1000" "unat t div 1000 < 2 ^ 32"
  shows "snowflake_parse g i2d (ZStr (show_id (sf_pack g t sq))) =
    Ret (ZArr [(KStr ''node'', ZLong (of_nat (unat (sg_node g) mod 2 ^ 10))),
               (KStr ''timestamp'', ZDouble (i2d (int (unat t div 1000) - 2 ^ 32)))])"
proof -
  let ?k = "int (unat t div 1000) - 2 ^ 32"
  have "(of_nat (unat t div 1000) :: u32) = of_int ?k" by simp
  moreover have "sint (of_int ?k :: u32) = ?k"
    unfolding sint_sbintrunc' by (rule signed_take_bit_int_eq_self) (use assms(4,5) in simp_all)
  ultimately have "sint (of_nat (unat t div 1000) :: u32) = ?k" by (simp only:)
  then show ?thesis using parse_id [OF assms(1-3)] by (simp only:)
qed

theorem snowflake_2038_witness:
  "snowflake_parse \<lparr>sg_node = 5, sg_epoch = 1420864633000\<rparr> (\<lambda>i. if i = - 2147483648 then 1 else 0)
     (ZStr (show_id (sf_pack \<lparr>sg_node = 5, sg_epoch = 1420864633000\<rparr> 2147483648000 0))) =
    Ret (ZArr [(KStr ''node'', ZLong 5), (KStr ''timestamp'', ZDouble 1)])"
proof -
  let ?g = "\<lparr>sg_node = 5, sg_epoch = 1420864633000\<rparr>"
  have "sf_pack ?g 2147483648000 0 \<noteq> 0"
    using unat_sf_pack(1) [of 2147483648000 ?g 0] by (intro notI) simp
  then show ?thesis using snowflake_2038 [of 2147483648000 ?g 0 "\<lambda>i. if i = - 2147483648 then 1 else 0"] by simp
qed

text \<open>
  When the clock is set back to a millisecond it has shown before, \<open>nextId\<close> does
  not notice: it starts the sequence again and returns an identifier it has returned before. All
  three calls return an identifier, and the first and the last are the same.
\<close>

theorem snowflake_clock_back:
  assumes "get_time_in_ms clk 0 = t" "get_time_in_ms clk 1 = t + 1" "get_time_in_ms clk 2 = t" "sf_timestamp d \<noteq> t"
  shows "sf_calls g clk 3 (Some d, 0) =
    Some [ZStr (show_id (sf_pack g t 0)), ZStr (show_id (sf_pack g (t + 1) 0)), ZStr (show_id (sf_pack g t 0))]"
  using assms by (simp add: snowflake_nextId_def sf_next_def Let_def numeral_3_eq_3 numeral_2_eq_2)

theorem snowflake_clock_back_witness:
  "\<exists>v w. sf_calls sf_example (\<lambda>n. if n = 1 then (3600, 1000) else (3600, 0)) 3
     (Some \<lparr>sf_sequence = 0, sf_timestamp = 0\<rparr>, 0) = Some [ZStr v, w, ZStr v]"
  using snowflake_clock_back [of "\<lambda>n. if n = 1 then (3600, 1000) else (3600, 0)" 3600000 "\<lparr>sf_sequence = 0, sf_timestamp = 0\<rparr>" sf_example]
  by (auto simp: get_time_in_ms_def)

end
