(* ===== verification/Crypt.thy ===== *)
theory Crypt imports PhpValue begin

text \<open>
  Encryption in \<open>crypt.c\<close>: the padding schemes, \<open>encrypt\<close> and \<open>decrypt\<close> with their user hooks, and the
  base64 variants, together with \<open>dao_substr\<close> of \<open>kernel/string.c\<close>. OpenSSL, the base64 code of PHP, \<open>rand\<close>
  and the conversions of the PHP engine are parameters.
\<close>

section \<open>Substrings\<close>

text \<open>A negative length that reaches before the start gives a huge size.\<close>

definition dao_substr :: "zval \<Rightarrow> nat \<Rightarrow> int \<Rightarrow> zval outcome" where
  "dao_substr str from len =
     (case str of
        ZStr s \<Rightarrow>
          (let n = length s mod 2 ^ 32 in
           if n < from then Ret (ZBool False)
           else
             (let k = (if len < 0 then int n - int from + len
                       else if len = 0 \<or> int n < len + int from then int n - int from else len)
              in if k = 0 then Ret ZNull
                 else if k < 0 then Crash
                 else Ret (ZStr (take (nat k) (drop from s)))))
      | ZNull \<Rightarrow> Ret (ZBool False)
      | ZBool b \<Rightarrow> Ret (ZBool False)
      | ZLong i \<Rightarrow> Ret ZNull
      | _ \<Rightarrow> Ret (ZBool False))"

section \<open>Padding\<close>

definition chr_nat :: "nat \<Rightarrow> char" where "chr_nat n = chr_of (of_nat n)"

text \<open>The first \<open>n\<close> bytes of the local array \<open>padding\<close>; \<open>rnd\<close> gives the successive results of \<open>rand\<close>.\<close>

definition pad_bytes :: "(nat \<Rightarrow> u8) \<Rightarrow> u32 \<Rightarrow> nat \<Rightarrow> string" where
  "pad_bytes rnd ptype n =
     (if ptype = 1 then replicate (n - 1) NUL @ [chr_nat n]
      else if ptype = 2 then replicate n (chr_nat n)
      else if ptype = 3 then map (\<lambda>i. chr_of (rnd i)) [0..<n - 1] @ [chr_nat n]
      else if ptype = 4 then CHR 0x80 # replicate (n - 1) NUL
      else if ptype = 5 then replicate n NUL
      else if ptype = 6 then replicate n (CHR '' '')
      else [])"

definition block_mode :: "string \<Rightarrow> bool" where
  "block_mode mode = (let m = takeWhile (\<lambda>c. c \<noteq> NUL) mode in m = ''ecb'' \<or> m = ''cbc'')"

text \<open>A mode that is not a string, because the method has none, is a null pointer for \<open>strcmp\<close>.\<close>

definition dao_crypt_pad_text :: "(nat \<Rightarrow> u8) \<Rightarrow> string \<Rightarrow> zval \<Rightarrow> u32 \<Rightarrow> u32 \<Rightarrow> zval outcome" where
  "dao_crypt_pad_text rnd txt mode block_size ptype =
     (case mode of
        ZStr m \<Rightarrow>
          (if block_mode m then
             (if block_size = 0 then Crash
              else
                (let n = unat block_size - length txt mod unat block_size in
                 if 256 \<le> n then Ret (ZBool False) else Ret (ZStr (txt @ pad_bytes rnd ptype n))))
           else Ret (ZStr txt))
      | _ \<Rightarrow> Crash)"

text \<open>
  The size of the padding that is found. The last byte is read through a signed \<open>char\<close>, so from 128 on it
  becomes a huge unsigned size; the array \<open>padding\<close> has 256 bytes.
\<close>

fun iec_loop :: "string \<Rightarrow> nat \<Rightarrow> nat \<Rightarrow> nat \<Rightarrow> nat \<times> nat" where
  "iec_loop txt bs 0 ps = (0, ps)"
| "iec_loop txt bs (Suc i) ps =
     (if txt ! Suc i = NUL \<and> ps < bs then iec_loop txt bs i (ps + 1) else (Suc i, ps))"

fun trail_loop :: "char \<Rightarrow> string \<Rightarrow> nat \<Rightarrow> nat \<Rightarrow> nat \<Rightarrow> nat" where
  "trail_loop c txt bs 0 ps = ps"
| "trail_loop c txt bs (Suc i) ps =
     (if txt ! i = c \<and> ps \<le> bs then trail_loop c txt bs i (ps + 1) else ps)"

definition unpad_size :: "string \<Rightarrow> nat \<Rightarrow> nat \<Rightarrow> u32 \<Rightarrow> nat outcome" where
  "unpad_size txt len bs ptype =
     (let b = unat (byte_of (txt ! (len - 1))); ps = (if b < 128 then b else 2 ^ 32 - 256 + b) in
      if ptype = 1 then
        (if b \<le> bs then
           (if ps = 0 \<or> 256 < ps then Crash
            else if take ps (drop (len - ps) txt) = replicate (ps - 1) NUL @ [chr_nat ps] then Ret ps else Ret 0)
         else Ret 0)
      else if ptype = 2 then
        (if b \<le> bs then
           (if 256 < ps then Crash
            else if take ps (drop (len - ps) txt) = replicate ps (chr_nat ps) then Ret ps else Ret 0)
         else Ret 0)
      else if ptype = 3 then Ret ps
      else if ptype = 4 then
        (if 2 ^ 31 < len then Crash
         else let (i, k) = iec_loop txt bs (len - 1) 0 in Ret (if txt ! i = CHR 0x80 then k + 1 else 0))
      else if ptype = 5 then Ret (if 2 ^ 31 < len then 0 else trail_loop NUL txt bs len 0)
      else if ptype = 6 then Ret (if 2 ^ 31 < len then 0 else trail_loop (CHR '' '') txt bs len 0)
      else Ret 0)"

definition dao_crypt_unpad_text :: "string \<Rightarrow> zval \<Rightarrow> u32 \<Rightarrow> u32 \<Rightarrow> zval outcome" where
  "dao_crypt_unpad_text txt mode block_size ptype =
     (let len = length txt mod 2 ^ 32; bs = unat block_size in
      if len = 0 then Ret (ZStr txt)
      else if bs = 0 then Crash
      else if len mod bs \<noteq> 0 then Ret (ZStr txt)
      else case mode of
        ZStr m \<Rightarrow>
          (if block_mode m then
             obind (unpad_size txt len bs ptype) (\<lambda>ps.
               if ps \<noteq> 0 \<and> ps \<le> bs then
                 (if ps < len then dao_substr (ZStr txt) 0 (int (len - ps)) else Ret (ZStr []))
               else Ret (ZStr txt))
           else Ret (ZStr txt))
      | _ \<Rightarrow> Crash)"

section \<open>The Crypt class\<close>

record crypt =
  cr_key :: zval
  cr_method :: zval
  cr_options :: zval
  cr_padding :: zval
  cr_before_encrypt :: zval
  cr_after_encrypt :: zval
  cr_before_decrypt :: zval
  cr_after_decrypt :: zval

definition crypt_new :: crypt where
  "crypt_new = \<lparr>cr_key = ZNull, cr_method = ZStr ''aes-256-cbc'', cr_options = ZLong 1, cr_padding = ZLong 0,
     cr_before_encrypt = ZNull, cr_after_encrypt = ZNull, cr_before_decrypt = ZNull, cr_after_decrypt = ZNull\<rparr>"

text \<open>
  The functions of OpenSSL, with \<open>openssl_encrypt\<close> and \<open>openssl_decrypt\<close> taking the data, the method, the key,
  the options and the initialisation vector; the engine's callability test, calls, comparisons and
  conversions; the base64 functions.
\<close>

record crypt_env =
  ce_exists :: bool
  ce_methods :: zval
  ce_iv_length :: "zval \<Rightarrow> zval"
  ce_random :: "zval \<Rightarrow> zval"
  ce_encrypt :: "zval \<Rightarrow> zval \<Rightarrow> zval \<Rightarrow> zval \<Rightarrow> zval \<Rightarrow> zval"
  ce_decrypt :: "zval \<Rightarrow> zval \<Rightarrow> zval \<Rightarrow> zval \<Rightarrow> zval \<Rightarrow> zval"
  ce_callable :: "zval \<Rightarrow> bool"
  ce_call :: "zval \<Rightarrow> zval \<Rightarrow> zval outcome"
  ce_string :: "zval \<Rightarrow> string"
  ce_positive :: "zval \<Rightarrow> bool"
  ce_equal :: "zval \<Rightarrow> zval \<Rightarrow> bool"
  ce_rand :: "nat \<Rightarrow> u8"
  ce_base64_encode :: "string \<Rightarrow> string option"
  ce_base64_decode :: "string \<Rightarrow> string option"

definition to_str :: "crypt_env \<Rightarrow> zval \<Rightarrow> string" where
  "to_str env v =
     (case v of ZStr s \<Rightarrow> s | ZNull \<Rightarrow> [] | ZBool b \<Rightarrow> (if b then ''1'' else []) | _ \<Rightarrow> ce_string env v)"

text \<open>\<open>DAO_GT_LONG(v, 0)\<close> and \<open>DAO_LE_LONG(v, 0)\<close>, \<open>Z_LVAL\<close>, \<open>DAO_IS_EMPTY\<close>.\<close>

definition gt_zero :: "crypt_env \<Rightarrow> zval \<Rightarrow> bool" where
  "gt_zero env v = (case v of ZLong n \<Rightarrow> 0 < sint n | _ \<Rightarrow> ce_positive env v)"

definition z_lval :: "zval \<Rightarrow> u64 outcome" where
  "z_lval v = (case v of ZLong n \<Rightarrow> Ret n | _ \<Rightarrow> Crash)"

definition dao_is_empty :: "zval \<Rightarrow> bool" where
  "dao_is_empty v = (case v of ZNull \<Rightarrow> True | ZStr s \<Rightarrow> s = [] | ZArr xs \<Rightarrow> xs = [] | _ \<Rightarrow> False)"

definition lower_char :: "char \<Rightarrow> char" where
  "lower_char c = (if is_upper c then char_of (of_char c + 32 :: nat) else c)"

definition dao_strrpos_dash :: "string \<Rightarrow> nat option" where
  "dao_strrpos_dash s =
     (if CHR ''-'' \<in> set s then Some (length s - 1 - length (takeWhile (\<lambda>c. c \<noteq> CHR ''-'') (rev s))) else None)"

text \<open>The mode, after the last dash of the method, and the cipher, before it and without dashes.\<close>

definition crypt_mode :: "crypt_env \<Rightarrow> zval \<Rightarrow> zval \<Rightarrow> (zval \<times> zval) outcome" where
  "crypt_mode env padding meth =
     (case meth of
        ZStr m \<Rightarrow>
          (case (if gt_zero env padding then dao_strrpos_dash m else None) of
             Some pos \<Rightarrow>
               obind (dao_substr meth (pos + 1) 0) (\<lambda>mode.
               obind (dao_substr meth 0 (int pos)) (\<lambda>tmp.
               Ret (mode, ZStr (map lower_char (filter (\<lambda>c. c \<noteq> CHR ''-'') (to_str env tmp))))))
           | None \<Rightarrow> Ret (ZNull, ZNull))
      | _ \<Rightarrow> Ret (ZNull, ZNull))"

definition cipher_true :: "zval \<Rightarrow> bool" where
  "cipher_true v = (case v of ZStr s \<Rightarrow> str_true s | _ \<Rightarrow> False)"

definition crypt_block_size :: "crypt_env \<Rightarrow> zval \<Rightarrow> zval \<Rightarrow> zval" where
  "crypt_block_size env iv_size cipher =
     (if \<not> gt_zero env iv_size \<and> cipher_true cipher then ce_iv_length env cipher else iv_size)"

definition crypt_hook :: "crypt_env \<Rightarrow> zval \<Rightarrow> zval \<Rightarrow> zval outcome" where
  "crypt_hook env handler v = (if ce_callable env handler then ce_call env handler v else Ret v)"

definition crypt_encrypt :: "crypt_env \<Rightarrow> crypt \<Rightarrow> zval \<Rightarrow> zval \<Rightarrow> zval \<Rightarrow> zval outcome" where
  "crypt_encrypt env c source key options =
     (if \<not> ce_exists env then Throw ''openssl extension is required''
      else
        obind (crypt_hook env (cr_before_encrypt c) source) (\<lambda>source.
        let txt = to_str env source;
            encrypt_key = (if key = ZNull then cr_key c else key);
            encrypt_options = (if options = ZNull then cr_options c else options);
            meth = cr_method c; padding = cr_padding c
        in if dao_is_empty encrypt_key then Throw ''Encryption key cannot be empty''
           else
             obind (crypt_mode env padding meth) (\<lambda>(mode, cipher).
             let iv_size = ce_iv_length env meth;
                 iv = (if gt_zero env iv_size then ce_random env iv_size else ZNull)
             in obind
                  (if gt_zero env padding then
                     obind (z_lval (crypt_block_size env iv_size cipher)) (\<lambda>bs.
                     obind (z_lval padding) (\<lambda>ptype.
                       dao_crypt_pad_text (ce_rand env) txt mode (ucast bs) (ucast ptype)))
                   else Ret (ZStr txt))
                  (\<lambda>padded.
                     let encrypted = ce_encrypt env padded meth encrypt_key encrypt_options iv
                     in crypt_hook env (cr_after_encrypt c) (ZStr (to_str env iv @ to_str env encrypted))))))"

definition crypt_decrypt :: "crypt_env \<Rightarrow> crypt \<Rightarrow> zval \<Rightarrow> zval \<Rightarrow> zval \<Rightarrow> zval outcome" where
  "crypt_decrypt env c source key options =
     (if \<not> ce_exists env then Throw ''openssl extension is required''
      else
        obind (crypt_hook env (cr_before_decrypt c) source) (\<lambda>source.
        let txt = ZStr (to_str env source);
            encrypt_key = (if key = ZNull then cr_key c else key);
            encrypt_options = (if options = ZNull then cr_options c else options);
            meth = cr_method c; padding = cr_padding c
        in obind (crypt_mode env padding meth) (\<lambda>(mode, cipher).
           let iv_size = ce_iv_length env meth
           in obind (z_lval iv_size) (\<lambda>n.
              obind (if sint n \<le> 0 then Ret ZNull else dao_substr txt 0 (sint n)) (\<lambda>iv.
              obind (if sint n \<le> 0 then Ret txt else dao_substr txt (nat (sint n)) 0) (\<lambda>text_to_decipher.
              let decrypted = to_str env (ce_decrypt env text_to_decipher meth encrypt_key encrypt_options iv)
              in obind
                   (if gt_zero env padding then
                      obind (z_lval (crypt_block_size env iv_size cipher)) (\<lambda>bs.
                      obind (z_lval padding) (\<lambda>ptype.
                        dao_crypt_unpad_text decrypted mode (ucast bs) (ucast ptype)))
                    else Ret (ZStr decrypted))
                   (crypt_hook env (cr_after_decrypt c))))))))"

text \<open>\<open>php_strtr\<close> with two pairs of characters.\<close>

definition strtr2 :: "char \<Rightarrow> char \<Rightarrow> char \<Rightarrow> char \<Rightarrow> string \<Rightarrow> string" where
  "strtr2 a b a' b' = map (\<lambda>c. if c = a then a' else if c = b then b' else c)"

definition dao_base64_encode :: "crypt_env \<Rightarrow> zval \<Rightarrow> zval" where
  "dao_base64_encode env v = (case ce_base64_encode env (to_str env v) of Some s \<Rightarrow> ZStr s | None \<Rightarrow> ZNull)"

definition dao_base64_decode :: "crypt_env \<Rightarrow> zval \<Rightarrow> zval" where
  "dao_base64_decode env v = (case ce_base64_decode env (to_str env v) of Some s \<Rightarrow> ZStr s | None \<Rightarrow> ZNull)"

definition crypt_encryptBase64 :: "crypt_env \<Rightarrow> crypt \<Rightarrow> zval \<Rightarrow> zval \<Rightarrow> zval \<Rightarrow> zval outcome" where
  "crypt_encryptBase64 env c txt key safe =
     obind (crypt_encrypt env c txt key ZNull) (\<lambda>v.
       let r = dao_base64_encode env v
       in if z_true safe then
            (case r of ZStr s \<Rightarrow> Ret (ZStr (strtr2 (CHR ''+'') (CHR ''/'') (CHR ''-'') (CHR ''_'') s)) | _ \<Rightarrow> Crash)
          else Ret r)"

definition crypt_decryptBase64 :: "crypt_env \<Rightarrow> crypt \<Rightarrow> zval \<Rightarrow> zval \<Rightarrow> zval \<Rightarrow> zval outcome" where
  "crypt_decryptBase64 env c txt key safe =
     obind
       (if z_true safe then
          (case txt of ZStr s \<Rightarrow> Ret (ZStr (strtr2 (CHR ''-'') (CHR ''_'') (CHR ''+'') (CHR ''/'') s)) | _ \<Rightarrow> Crash)
        else Ret txt)
       (\<lambda>v. crypt_decrypt env c (dao_base64_decode env v) key ZNull)"

section \<open>Settings\<close>

definition crypt_setMethod :: "crypt_env \<Rightarrow> crypt \<Rightarrow> zval \<Rightarrow> crypt outcome" where
  "crypt_setMethod env c m =
     (case ce_methods env of
        ZArr xs \<Rightarrow>
          (if list_ex (\<lambda>(k, v). ce_equal env m v) xs then Ret (c\<lparr>cr_method := m\<rparr>)
           else Throw ''Cipher method not available'')
      | _ \<Rightarrow> Throw ''Cipher method not available'')"

definition crypt_getMethod :: "crypt \<Rightarrow> zval" where "crypt_getMethod c = cr_method c"

definition crypt_setKey :: "crypt \<Rightarrow> zval \<Rightarrow> crypt" where "crypt_setKey c v = c\<lparr>cr_key := v\<rparr>"

definition crypt_getKey :: "crypt \<Rightarrow> zval" where "crypt_getKey c = cr_key c"

definition crypt_setOptions :: "crypt \<Rightarrow> zval \<Rightarrow> crypt" where "crypt_setOptions c v = c\<lparr>cr_options := v\<rparr>"

definition crypt_getOptions :: "crypt \<Rightarrow> zval" where "crypt_getOptions c = cr_options c"

definition crypt_setPadding :: "crypt \<Rightarrow> zval \<Rightarrow> crypt" where "crypt_setPadding c v = c\<lparr>cr_padding := v\<rparr>"

definition crypt_getPadding :: "crypt \<Rightarrow> zval" where "crypt_getPadding c = cr_padding c"

definition crypt_getAvailableMethods :: "crypt_env \<Rightarrow> zval" where
  "crypt_getAvailableMethods env = ce_methods env"

definition crypt_handler_ok :: "crypt_env \<Rightarrow> zval \<Rightarrow> bool" where
  "crypt_handler_ok env h = ((case h of ZObj _ \<Rightarrow> True | _ \<Rightarrow> False) \<or> ce_callable env h)"

definition crypt_beforeEncrypt :: "crypt_env \<Rightarrow> crypt \<Rightarrow> zval \<Rightarrow> crypt outcome" where
  "crypt_beforeEncrypt env c h =
     (if crypt_handler_ok env h then Ret (c\<lparr>cr_before_encrypt := h\<rparr>) else Throw ''Handler must be an callable'')"

definition crypt_afterEncrypt :: "crypt_env \<Rightarrow> crypt \<Rightarrow> zval \<Rightarrow> crypt outcome" where
  "crypt_afterEncrypt env c h =
     (if crypt_handler_ok env h then Ret (c\<lparr>cr_after_encrypt := h\<rparr>) else Throw ''Handler must be an callable'')"

definition crypt_beforeDecrypt :: "crypt_env \<Rightarrow> crypt \<Rightarrow> zval \<Rightarrow> crypt outcome" where
  "crypt_beforeDecrypt env c h =
     (if crypt_handler_ok env h then Ret (c\<lparr>cr_before_decrypt := h\<rparr>) else Throw ''Handler must be an callable'')"

definition crypt_afterDecrypt :: "crypt_env \<Rightarrow> crypt \<Rightarrow> zval \<Rightarrow> crypt outcome" where
  "crypt_afterDecrypt env c h =
     (if crypt_handler_ok env h then Ret (c\<lparr>cr_after_decrypt := h\<rparr>) else Throw ''Handler must be an callable'')"

section \<open>Padding and its removal\<close>

text \<open>Zero and space padding cannot tell the padding from the end of the text.\<close>

definition pad_safe :: "u32 \<Rightarrow> string \<Rightarrow> bool" where
  "pad_safe ptype txt \<longleftrightarrow>
     (txt = [] \<or> (ptype \<noteq> 5 \<or> last txt \<noteq> NUL) \<and> (ptype \<noteq> 6 \<or> last txt \<noteq> CHR '' ''))"

lemma pad_length: "0 < n \<Longrightarrow> 1 \<le> ptype \<Longrightarrow> ptype \<le> 6 \<Longrightarrow> length (pad_bytes rnd ptype n) = n"
proof -
  assume "0 < n" "1 \<le> ptype" "ptype \<le> 6"
  then have "unat ptype \<in> {1, 2, 3, 4, 5, 6}" by (auto simp: word_le_nat_alt)
  then have "ptype \<in> {1, 2, 3, 4, 5, 6}" by (auto simp: word_unat_eq_iff)
  then show ?thesis using \<open>0 < n\<close> by (auto simp: pad_bytes_def)
qed

lemma chr_nat_value:
  assumes "n < 256"
  shows "unat (byte_of (chr_nat n)) = n"
  using assms by (simp add: chr_nat_def unat_of_nat)

lemma trail_loop:
  assumes "k \<le> j" "j \<le> length txt" "\<And>i. j - k \<le> i \<Longrightarrow> i < j \<Longrightarrow> txt ! i = c" "ps + k \<le> bs"
    "j = k \<or> txt ! (j - k - 1) \<noteq> c"
  shows "trail_loop c txt bs j ps = ps + k"
  using assms
proof (induction k arbitrary: j ps)
  case 0
  then show ?case by (cases j) auto
next
  case (Suc k)
  obtain i where j: "j = Suc i" using Suc(2) by (cases j) auto
  have "trail_loop c txt bs i (ps + 1) = ps + 1 + k"
    by (rule Suc(1)) (use Suc(2-6) j in auto)
  then show ?case using Suc(4) [of i] Suc(5) j by simp
qed

lemma iec_loop:
  assumes "k \<le> j" "\<And>i. j - k < i \<Longrightarrow> i \<le> j \<Longrightarrow> txt ! i = NUL" "ps + k \<le> bs" "txt ! (j - k) \<noteq> NUL"
  shows "iec_loop txt bs j ps = (j - k, ps + k)"
  using assms
proof (induction k arbitrary: j ps)
  case 0
  then show ?case by (cases j) auto
next
  case (Suc k)
  obtain i where j: "j = Suc i" using Suc(2) by (cases j) auto
  have "iec_loop txt bs i (ps + 1) = (i - k, ps + 1 + k)"
    by (rule Suc(1)) (use Suc(2-5) j in auto)
  then show ?case using Suc(3) [of j] Suc(2,4) j by simp
qed

lemma pad_last:
  assumes "0 < n"
  shows "(txt @ replicate (n - 1) c @ [x]) ! (length txt + n - 1) = x"
    "(txt @ map f [0..<n - 1] @ [x]) ! (length txt + n - 1) = x"
    "(txt @ replicate n c) ! (length txt + n - 1) = c"
  using assms by (auto simp: nth_append)

lemma unpad_pad:
  fixes t :: string
  defines "len \<equiv> length t"
  assumes n: "0 < n" "n \<le> bs" "bs < 128" and p: "1 \<le> ptype" "ptype \<le> 6" and l: "len + n \<le> 2 ^ 31"
    and safe: "pad_safe ptype t"
  shows "unpad_size (t @ pad_bytes rnd ptype n) (len + n) bs ptype = Ret n"
proof -
  have v: "unat (byte_of (chr_nat n)) = n" by (rule chr_nat_value) (use n in simp)
  have "unat ptype \<in> {1, 2, 3, 4, 5, 6}" using p by (auto simp: word_le_nat_alt)
  then have "ptype \<in> {1, 2, 3, 4, 5, 6}" by (auto simp: word_unat_eq_iff)
  have ne: "t = [] \<or> length t - Suc 0 < length t" by (cases t) auto
  consider "ptype = 1" | "ptype = 2" | "ptype = 3" | "ptype = 4" | "ptype = 5" | "ptype = 6"
    using \<open>ptype \<in> {1, 2, 3, 4, 5, 6}\<close> by blast
  then show ?thesis
  proof cases
    case 1
    then show ?thesis using n v pad_last(1) [OF n(1), of t NUL "chr_nat n"] by (simp add: unpad_size_def pad_bytes_def len_def)
  next
    case 2
    then show ?thesis using n v pad_last(3) [OF n(1), of t "chr_nat n"] by (simp add: unpad_size_def pad_bytes_def len_def)
  next
    case 3
    then show ?thesis using n v pad_last(2) [OF n(1), of t "\<lambda>i. chr_of (rnd i)" "chr_nat n"]
      by (simp add: unpad_size_def pad_bytes_def len_def)
  next
    case 4
    let ?t = "t @ CHR 0x80 # replicate (n - 1) NUL"
    have "iec_loop ?t bs (len + n - 1) 0 = (len + n - 1 - (n - 1), 0 + (n - 1))"
      by (rule iec_loop) (use n in \<open>auto simp: len_def nth_append nth_Cons'\<close>)
    moreover have "?t ! len = CHR 0x80" by (simp add: len_def nth_append)
    ultimately show ?thesis using 4 n l by (simp add: unpad_size_def pad_bytes_def)
  next
    case 5
    let ?t = "t @ replicate n NUL"
    have "trail_loop NUL ?t bs (len + n) 0 = 0 + n"
      by (rule trail_loop) (use n safe 5 ne in \<open>auto simp: len_def nth_append pad_safe_def last_conv_nth\<close>)
    then show ?thesis using 5 n l by (simp add: unpad_size_def pad_bytes_def)
  next
    case 6
    let ?t = "t @ replicate n (CHR '' '')"
    have "trail_loop (CHR '' '') ?t bs (len + n) 0 = 0 + n"
      by (rule trail_loop) (use n safe 6 ne in \<open>auto simp: len_def nth_append pad_safe_def last_conv_nth\<close>)
    then show ?thesis using 6 n l by (simp add: unpad_size_def pad_bytes_def)
  qed
qed

lemma substr_simps:
  "length s < 2 ^ 32 \<Longrightarrow> 0 < n \<Longrightarrow> n \<le> length s \<Longrightarrow> dao_substr (ZStr s) 0 (int n) = Ret (ZStr (take n s))"
  "length s < 2 ^ 32 \<Longrightarrow> n < length s \<Longrightarrow> dao_substr (ZStr s) n 0 = Ret (ZStr (drop n s))"
  by (simp_all add: dao_substr_def Let_def)

lemma pad_unpad:
  fixes t :: string
  assumes bs: "0 < unat bs" "unat bs < 128" and l: "length t + unat bs \<le> 2 ^ 31" and safe: "pad_safe ptype t"
  shows "\<exists>p. dao_crypt_pad_text rnd t (ZStr m) bs ptype = Ret (ZStr p) \<and> length p \<le> length t + unat bs \<and>
    dao_crypt_unpad_text p (ZStr m) bs ptype = Ret (ZStr t) \<and>
    (if block_mode m \<and> 1 \<le> ptype \<and> ptype \<le> 6 then unat bs dvd length p else p = t)"
proof (cases "block_mode m \<and> 1 \<le> ptype \<and> ptype \<le> 6")
  case False
  have "pad_bytes rnd ptype n = []" "unpad_size t k j ptype = Ret 0" if "\<not> (1 \<le> ptype \<and> ptype \<le> 6)" for n k j
  proof -
    have "unat ptype \<notin> {1, 2, 3, 4, 5, 6}" using that by (auto simp: word_le_nat_alt)
    then have "ptype \<notin> {1, 2, 3, 4, 5, 6}" by (auto simp: word_unat_eq_iff)
    then show "pad_bytes rnd ptype n = []" "unpad_size t k j ptype = Ret 0"
      by (simp_all add: pad_bytes_def unpad_size_def Let_def)
  qed
  moreover have "bs \<noteq> 0" using bs(1) by (simp add: word_unat_eq_iff)
  ultimately show ?thesis using False bs l
    by (auto simp: dao_crypt_pad_text_def dao_crypt_unpad_text_def Let_def)
next
  case True
  define n where "n = unat bs - length t mod unat bs"
  have n: "0 < n" "n \<le> unat bs" using bs(1) by (simp_all add: n_def)
  let ?p = "t @ pad_bytes rnd ptype n"
  have lp: "length ?p = length t + n" using pad_length [of n ptype rnd] n True by simp
  have dvd: "(length t + n) mod unat bs = 0"
  proof -
    have "length t mod unat bs \<le> length t" by simp
    moreover have "length t mod unat bs < unat bs" using bs(1) by simp
    ultimately have "length t + n = length t div unat bs * unat bs + unat bs"
      unfolding n_def using div_mult_mod_eq [of "length t" "unat bs"] by linarith
    then show ?thesis by simp
  qed
  have "unpad_size ?p (length t + n) (unat bs) ptype = Ret n"
    by (rule unpad_pad) (use n True bs l safe in auto)
  moreover from bs(1) have "bs \<noteq> 0" by (simp add: word_unat_eq_iff)
  moreover have "length ?p mod 2 ^ 32 = length t + n" unfolding lp using n l by simp
  moreover have "dao_substr (ZStr ?p) 0 (int (length t)) = Ret (ZStr t)" if "t \<noteq> []"
    using substr_simps(1) [of ?p "length t"] that lp n l by simp
  ultimately have "dao_crypt_unpad_text ?p (ZStr m) bs ptype = Ret (ZStr t)"
    unfolding dao_crypt_unpad_text_def Let_def using True n bs(1) dvd by auto
  moreover have "dao_crypt_pad_text rnd t (ZStr m) bs ptype = Ret (ZStr ?p)"
    using True n bs \<open>bs \<noteq> 0\<close> n_def [symmetric] by (simp add: dao_crypt_pad_text_def Let_def)
  moreover have "unat bs dvd length ?p" using dvd lp by (simp add: dvd_eq_mod_eq_0)
  ultimately show ?thesis using lp n True by (intro exI [of _ ?p]) simp
qed

lemma strrpos_dash: "CHR ''-'' \<notin> set mode \<Longrightarrow> dao_strrpos_dash (ciph @ CHR ''-'' # mode) = Some (length ciph)"
proof -
  assume a: "CHR ''-'' \<notin> set mode"
  have "takeWhile (\<lambda>c. c \<noteq> CHR ''-'') (rev mode @ CHR ''-'' # rev ciph) = rev mode"
    using a by (subst takeWhile_append2) auto
  then show ?thesis by (simp add: dao_strrpos_dash_def)
qed

lemma to_str_ZStr: "to_str env (ZStr s) = s" "to_str env ZNull = []"
  by (simp_all add: to_str_def)

lemma z_lval_ZLong: "z_lval (ZLong w) = Ret w"
  by (simp add: z_lval_def)

text \<open>The cipher that \<open>encrypt\<close> asks the block size of when the method has no initialisation vector.\<close>

definition crypt_cipher :: "string \<Rightarrow> string" where
  "crypt_cipher ciph = map lower_char (filter (\<lambda>c. c \<noteq> CHR ''-'') ciph)"

lemma crypt_mode_dash:
  assumes "gt_zero env padding" "CHR ''-'' \<notin> set mode" "mode \<noteq> []" "ciph \<noteq> []" "length ciph + length mode < 2 ^ 31"
  shows "crypt_mode env padding (ZStr (ciph @ CHR ''-'' # mode)) = Ret (ZStr mode, ZStr (crypt_cipher ciph))"
proof -
  let ?m = "ciph @ CHR ''-'' # mode"
  have "dao_substr (ZStr ?m) (length ciph + 1) 0 = Ret (ZStr mode)"
    using substr_simps(2) [of ?m "length ciph + 1"] assms(3,5) by simp
  moreover have "dao_substr (ZStr ?m) 0 (int (length ciph)) = Ret (ZStr ciph)"
    using substr_simps(1) [of ?m "length ciph"] assms(4,5) by simp
  ultimately show ?thesis
    using assms(1) strrpos_dash [OF assms(2), of ciph] by (simp add: crypt_mode_def crypt_cipher_def to_str_def)
qed

text \<open>
  What the manual of OpenSSL's functions promises for a method, a key and options, with vectors of
  \<open>n\<close> bytes (\<open>null\<close> for a method without one) and blocks of \<open>bs\<close> bytes: decryption undoes encryption,
  for texts below 2^30 bytes; when OpenSSL's own padding is switched off
  (\<open>OPENSSL_ZERO_PADDING\<close>, bit 1 of the options), a method of mode ECB or CBC takes texts of whole
  blocks only. The result is at most one block longer, or its base64 code. The result of a stream
  mode for the empty text is empty; \<open>null\<close> is converted to the empty text.
\<close>

definition zero_padding :: "zval \<Rightarrow> bool" where
  "zero_padding opt = (case opt of ZLong w \<Rightarrow> bit w 1 | _ \<Rightarrow> False)"

definition block_name :: "string \<Rightarrow> bool" where
  "block_name mode = block_mode (map lower_char mode)"

definition openssl_ok :: "crypt_env \<Rightarrow> string \<Rightarrow> string \<Rightarrow> zval \<Rightarrow> zval \<Rightarrow> nat \<Rightarrow> nat \<Rightarrow> bool" where
  "openssl_ok env ciph mode key opt n bs \<longleftrightarrow>
     (\<forall>s iv. length s < 2 ^ 30 \<longrightarrow> (if n = 0 then iv = ZNull else \<exists>v. iv = ZStr v \<and> length v = n) \<longrightarrow>
        (zero_padding opt \<and> block_name mode \<longrightarrow> bs dvd length s) \<longrightarrow>
        (\<exists>e. ce_encrypt env (ZStr s) (ZStr (ciph @ CHR ''-'' # mode)) key opt iv = ZStr e \<and> length e \<le> 2 * length s + 256 \<and>
           ce_decrypt env (ZStr e) (ZStr (ciph @ CHR ''-'' # mode)) key opt iv = ZStr s \<and>
           (e = [] \<longrightarrow> ce_decrypt env ZNull (ZStr (ciph @ CHR ''-'' # mode)) key opt iv = ZStr s)))"

lemma openssl_okD:
  assumes "openssl_ok env ciph mode key opt n bs" "length s < 2 ^ 30"
    and "if n = 0 then iv = ZNull else \<exists>v. iv = ZStr v \<and> length v = n"
    and "zero_padding opt \<and> block_name mode \<longrightarrow> bs dvd length s"
  obtains e where "ce_encrypt env (ZStr s) (ZStr (ciph @ CHR ''-'' # mode)) key opt iv = ZStr e" "length e \<le> 2 * length s + 256"
    "ce_decrypt env (ZStr e) (ZStr (ciph @ CHR ''-'' # mode)) key opt iv = ZStr s"
    "e = [] \<longrightarrow> ce_decrypt env ZNull (ZStr (ciph @ CHR ''-'' # mode)) key opt iv = ZStr s"
  using assms unfolding openssl_ok_def by blast

definition no_hooks :: "crypt_env \<Rightarrow> crypt \<Rightarrow> bool" where
  "no_hooks env c \<longleftrightarrow> list_all (\<lambda>h. \<not> ce_callable env h)
     [cr_before_encrypt c, cr_after_encrypt c, cr_before_decrypt c, cr_after_decrypt c]"

text \<open>
  The vector and the block size of a method: the vector is as long as was asked for, and the block is
  as long as it, or as long as the vector of the bare cipher when the method has none.
\<close>

definition openssl_sizes :: "crypt_env \<Rightarrow> string \<Rightarrow> string \<Rightarrow> u64 \<Rightarrow> u64 \<Rightarrow> bool" where
  "openssl_sizes env ciph mode n bs \<longleftrightarrow>
     ce_iv_length env (ZStr (ciph @ CHR ''-'' # mode)) = ZLong n \<and> 0 < unat bs \<and> unat bs < 128 \<and>
     (if unat n = 0 then str_true (crypt_cipher ciph) \<and> ce_iv_length env (ZStr (crypt_cipher ciph)) = ZLong bs
      else bs = n \<and> (\<exists>iv. ce_random env (ZLong n) = ZStr iv \<and> length iv = unat n))"

lemma crypt_padding:
  assumes "openssl_sizes env ciph mode n bs" "ciph \<noteq> []" "CHR ''-'' \<notin> set mode" "mode \<noteq> []" "length ciph + length mode < 2 ^ 31"
    and "pad_safe (ucast p) t" "length t < 2 ^ 30 - 512"
    and whole: "whole \<longrightarrow> block_mode mode \<and> 1 \<le> p \<and> p \<le> 6 \<or> unat bs dvd length t"
  obtains q md cipher where "crypt_mode env (ZLong p) (ZStr (ciph @ CHR ''-'' # mode)) = Ret (md, cipher)"
    "(if gt_zero env (ZLong p) then
        obind (z_lval (crypt_block_size env (ZLong n) cipher)) (\<lambda>b.
        obind (z_lval (ZLong p)) (\<lambda>ptype. dao_crypt_pad_text (ce_rand env) t md (ucast b) (ucast ptype)))
      else Ret (ZStr t)) = Ret (ZStr q)"
    "(if gt_zero env (ZLong p) then
        obind (z_lval (crypt_block_size env (ZLong n) cipher)) (\<lambda>b.
        obind (z_lval (ZLong p)) (\<lambda>ptype. dao_crypt_unpad_text q md (ucast b) (ucast ptype)))
      else Ret (ZStr q)) = Ret (ZStr t)"
    "length q \<le> length t + 128" "whole \<longrightarrow> unat bs dvd length q"
proof (cases "gt_zero env (ZLong p)")
  case True
  have bs: "0 < unat bs" "unat bs < 128" using assms(1) by (simp_all add: openssl_sizes_def)
  have un: "unat (ucast bs :: u32) = unat bs" by (rule unat_ucast_64_32) (use bs in simp)
  have size: "crypt_block_size env (ZLong n) (ZStr (crypt_cipher ciph)) = ZLong bs"
  proof (cases "unat n = 0")
    case z: True
    then have "\<not> gt_zero env (ZLong n)" by (simp add: gt_zero_def unat_eq_0)
    then show ?thesis using assms(1) z by (simp add: crypt_block_size_def cipher_true_def openssl_sizes_def)
  next
    case False
    then have b: "bs = n" using assms(1) by (simp add: openssl_sizes_def)
    have "sint n = int (unat n)" by (rule sint_u64_small) (use b bs in simp)
    then have "gt_zero env (ZLong n)" using False by (simp add: gt_zero_def del: of_nat_unat)
    then show ?thesis using b by (simp add: crypt_block_size_def)
  qed
  obtain q where q: "dao_crypt_pad_text (ce_rand env) t (ZStr mode) (ucast bs) (ucast p) = Ret (ZStr q)"
    "length q \<le> length t + unat bs" "dao_crypt_unpad_text q (ZStr mode) (ucast bs) (ucast p) = Ret (ZStr t)"
    "if block_mode mode \<and> 1 \<le> (ucast p :: u32) \<and> (ucast p :: u32) \<le> 6 then unat bs dvd length q else q = t"
    using pad_unpad [of "ucast bs" t "ucast p" "ce_rand env" mode, unfolded un] bs assms(6,7) by auto
  have small: "1 \<le> (ucast p :: u32) \<and> (ucast p :: u32) \<le> 6" if "1 \<le> p" "p \<le> 6"
  proof -
    have "unat (ucast p :: u32) = unat p"
      by (rule unat_ucast_64_32) (use that(2) in \<open>simp add: word_le_nat_alt\<close>)
    then show ?thesis using that by (simp add: word_le_nat_alt)
  qed
  have "whole \<longrightarrow> unat bs dvd length q" using whole q(4) small by (auto split: if_splits)
  then show thesis
    using that [OF crypt_mode_dash [OF True assms(3,4,2,5)], of q] True q(1-3) size bs(2)
    by (simp add: z_lval_def)
next
  case False
  then have "\<not> (1 \<le> p \<and> p \<le> 6)"
  proof -
    have "sint p = int (unat p)" if "unat p \<le> 6" by (rule sint_u64_small) (use that in simp)
    then show ?thesis using False by (auto simp: gt_zero_def word_le_nat_alt simp del: of_nat_unat)
  qed
  then show thesis using False that [of ZNull ZNull t] whole by (auto simp: crypt_mode_def)
qed

text \<open>
  C40. \<open>decrypt\<close> gives back what \<open>encrypt\<close> was given, for each padding scheme and for
  none, with the initialisation vector in front of the encrypted text and without one (as ECB has),
  given that \<open>openssl_decrypt\<close> undoes \<open>openssl_encrypt\<close>, that no hooks are set, that the method is a
  cipher, a dash and a mode, that blocks are shorter than 128 bytes and the text shorter than
  2^30 - 512 bytes. With zero or space padding the text must not end in the padding character;
  with OpenSSL's padding switched off for a block mode, the class must pad (mode \<open>ecb\<close> or \<open>cbc\<close>, one
  of its six schemes) or the text must consist of whole blocks.
\<close>

theorem crypt_roundtrip:
  assumes "ce_exists env" "no_hooks env c" "key \<noteq> ZNull" "\<not> dao_is_empty key"
    and m: "cr_method c = ZStr (ciph @ CHR ''-'' # mode)" "ciph \<noteq> []" "CHR ''-'' \<notin> set mode" "mode \<noteq> []"
      "length ciph + length mode < 2 ^ 31"
    and sizes: "openssl_sizes env ciph mode n bs"
    and ok: "openssl_ok env ciph mode key (cr_options c) (unat n) (unat bs)"
    and p: "cr_padding c = ZLong p" "pad_safe (ucast p) t" and l: "length t < 2 ^ 30 - 512"
    and whole: "zero_padding (cr_options c) \<and> block_name mode \<longrightarrow> block_mode mode \<and> 1 \<le> p \<and> p \<le> 6 \<or> unat bs dvd length t"
  shows "obind (crypt_encrypt env c (ZStr t) key ZNull) (\<lambda>v. crypt_decrypt env c v key ZNull) = Ret (ZStr t)"
proof -
  obtain q md cipher where mo: "crypt_mode env (ZLong p) (cr_method c) = Ret (md, cipher)"
    and pad: "(if gt_zero env (ZLong p) then
        obind (z_lval (crypt_block_size env (ZLong n) cipher)) (\<lambda>b.
        obind (z_lval (ZLong p)) (\<lambda>ptype. dao_crypt_pad_text (ce_rand env) t md (ucast b) (ucast ptype)))
      else Ret (ZStr t)) = Ret (ZStr q)"
    and unpad: "(if gt_zero env (ZLong p) then
        obind (z_lval (crypt_block_size env (ZLong n) cipher)) (\<lambda>b.
        obind (z_lval (ZLong p)) (\<lambda>ptype. dao_crypt_unpad_text q md (ucast b) (ucast ptype)))
      else Ret (ZStr q)) = Ret (ZStr t)"
    and lq: "length q \<le> length t + 128" "zero_padding (cr_options c) \<and> block_name mode \<longrightarrow> unat bs dvd length q"
    unfolding m(1) by (rule crypt_padding [OF sizes m(2-5) p(2) l whole])
  have h: "crypt_hook env (cr_before_encrypt c) = Ret" "crypt_hook env (cr_after_encrypt c) = Ret"
    "crypt_hook env (cr_before_decrypt c) = Ret" "crypt_hook env (cr_after_decrypt c) = Ret"
    using assms(2) by (auto simp: no_hooks_def crypt_hook_def)
  have ivl: "ce_iv_length env (cr_method c) = ZLong n" using sizes m(1) by (simp add: openssl_sizes_def)
  define iv where "iv = (if gt_zero env (ZLong n) then ce_random env (ZLong n) else ZNull)"
  have enc: "crypt_encrypt env c (ZStr t) key ZNull =
      Ret (ZStr (to_str env iv @ to_str env (ce_encrypt env (ZStr q) (cr_method c) key (cr_options c) iv)))"
    using assms(1,3,4) mo pad ivl p(1)
    by (cases "gt_zero env (ZLong p)"; simp add: crypt_encrypt_def h iv_def to_str_ZStr Let_def)
  have dec: "crypt_decrypt env c (ZStr s) key ZNull = Ret (ZStr t)"
    if "if sint n \<le> 0 then iv = ZNull else dao_substr (ZStr s) 0 (sint n) = Ret iv"
      "if sint n \<le> 0 then rest = ZStr s else dao_substr (ZStr s) (nat (sint n)) 0 = Ret rest"
      "ce_decrypt env rest (cr_method c) key (cr_options c) iv = ZStr q" for s rest
    using assms(1,3) mo unpad ivl p(1) that
    by (cases "gt_zero env (ZLong p)"; cases "sint n \<le> 0"; simp add: crypt_decrypt_def h to_str_ZStr z_lval_ZLong Let_def)
  show ?thesis
  proof (cases "unat n = 0")
    case True
    then have n: "sint n = 0" "iv = ZNull" by (simp_all add: iv_def gt_zero_def unat_eq_0)
    obtain e where "ce_encrypt env (ZStr q) (cr_method c) key (cr_options c) iv = ZStr e"
      "ce_decrypt env (ZStr e) (cr_method c) key (cr_options c) iv = ZStr q"
      by (rule openssl_okD [OF ok, of q iv, folded m(1)]) (use lq l True n(2) in simp_all)
    then show ?thesis using enc dec [of e "ZStr e"] n by (simp add: to_str_def)
  next
    case False
    then obtain v where v: "ce_random env (ZLong n) = ZStr v" "length v = unat n" "unat n < 128"
      using sizes by (auto simp: openssl_sizes_def)
    have sn: "sint n = int (unat n)" by (rule sint_u64_small) (use v(3) in simp)
    have gn: "0 < sint n" using False by (simp only: sn of_nat_0_less_iff)
    then have iv: "iv = ZStr v" using v(1) by (simp add: iv_def gt_zero_def)
    obtain e where e: "ce_encrypt env (ZStr q) (cr_method c) key (cr_options c) iv = ZStr e" "length e \<le> 2 * length q + 256"
      "ce_decrypt env (ZStr e) (cr_method c) key (cr_options c) iv = ZStr q"
      "e = [] \<longrightarrow> ce_decrypt env ZNull (cr_method c) key (cr_options c) iv = ZStr q"
      by (rule openssl_okD [OF ok, of q iv, folded m(1)]) (use lq l False iv v(2) in simp_all)
    have len: "length (v @ e) < 2 ^ 32" using e(2) lq(1) l v(2,3) by simp
    have "dao_substr (ZStr (v @ e)) 0 (int (unat n)) = Ret (ZStr v)"
      using substr_simps(1) [OF len, of "unat n"] False v(2) by simp
    moreover have "dao_substr (ZStr (v @ e)) (unat n) 0 = Ret (if e = [] then ZNull else ZStr e)"
    proof (cases "e = []")
      case True
      then show ?thesis using v(2,3) by (simp add: dao_substr_def Let_def)
    next
      case False
      then show ?thesis using substr_simps(2) [OF len, of "unat n"] v(2) by simp
    qed
    ultimately have "crypt_decrypt env c (ZStr (v @ e)) key ZNull = Ret (ZStr t)"
      using dec [of "v @ e" "if e = [] then ZNull else ZStr e"] gn e(3,4) iv by (simp only: sn nat_int) auto
    then show ?thesis using enc e(1) iv by (simp add: to_str_def)
  qed
qed

text \<open>
  An environment for the examples: a cipher that turns the text round (and so keeps its length) and
  has vectors of 16 bytes except in ECB; the base64 code is the identity.
\<close>

definition z_rev :: "zval \<Rightarrow> zval" where
  "z_rev v = (case v of ZStr s \<Rightarrow> ZStr (rev s) | ZNull \<Rightarrow> ZStr [] | _ \<Rightarrow> ZBool False)"

definition crypt_example :: crypt_env where
  "crypt_example = \<lparr>ce_exists = True, ce_methods = ZArr [],
     ce_iv_length = (\<lambda>m. if m = ZStr ''aes-256-ecb'' then ZLong 0 else ZLong 16),
     ce_random = (\<lambda>_. ZStr ''0123456789abcdef''), ce_encrypt = (\<lambda>s _ _ _ _. z_rev s),
     ce_decrypt = (\<lambda>s _ _ _ _. z_rev s), ce_callable = (\<lambda>_. False), ce_call = (\<lambda>_ v. Ret v),
     ce_string = (\<lambda>_. []), ce_positive = (\<lambda>_. False), ce_equal = (\<lambda>_ _. False), ce_rand = (\<lambda>_. 7),
     ce_base64_encode = Some, ce_base64_decode = Some\<rparr>"

lemma crypt_example:
  "openssl_ok crypt_example ciph mode key opt n bs"
  "openssl_sizes crypt_example ''aes-256'' ''cbc'' 16 16"
  "openssl_sizes crypt_example ''aes-256'' ''ctr'' 16 16"
  "openssl_sizes crypt_example ''aes-256'' ''ecb'' 0 16"
  "no_hooks crypt_example c"
  by (simp_all add: openssl_ok_def openssl_sizes_def no_hooks_def crypt_example_def z_rev_def crypt_cipher_def
      str_true_def lower_char_def is_upper_def)

theorem crypt_roundtrip_witness:
  "obind (crypt_encrypt crypt_example (crypt_new\<lparr>cr_padding := ZLong 2, cr_options := ZLong 3\<rparr>) (ZStr ''text'') (ZStr ''k'') ZNull)
     (\<lambda>v. crypt_decrypt crypt_example (crypt_new\<lparr>cr_padding := ZLong 2, cr_options := ZLong 3\<rparr>) v (ZStr ''k'') ZNull) = Ret (ZStr ''text'')
   \<and> obind (crypt_encrypt crypt_example (crypt_new\<lparr>cr_method := ZStr ''aes-256-ctr''\<rparr>) (ZStr []) (ZStr ''k'') ZNull)
     (\<lambda>v. crypt_decrypt crypt_example (crypt_new\<lparr>cr_method := ZStr ''aes-256-ctr''\<rparr>) v (ZStr ''k'') ZNull) = Ret (ZStr [])
   \<and> obind (crypt_encrypt crypt_example (crypt_new\<lparr>cr_method := ZStr ''aes-256-ecb'', cr_padding := ZLong 1\<rparr>) (ZStr ''text'') (ZStr ''k'') ZNull)
     (\<lambda>v. crypt_decrypt crypt_example (crypt_new\<lparr>cr_method := ZStr ''aes-256-ecb'', cr_padding := ZLong 1\<rparr>) v (ZStr ''k'') ZNull) = Ret (ZStr ''text'')"
proof (intro conjI)
  show "obind (crypt_encrypt crypt_example (crypt_new\<lparr>cr_padding := ZLong 2, cr_options := ZLong 3\<rparr>) (ZStr ''text'') (ZStr ''k'') ZNull)
     (\<lambda>v. crypt_decrypt crypt_example (crypt_new\<lparr>cr_padding := ZLong 2, cr_options := ZLong 3\<rparr>) v (ZStr ''k'') ZNull) = Ret (ZStr ''text'')"
    by (rule crypt_roundtrip [where p = 2, OF _ crypt_example(5) _ _ _ _ _ _ _ crypt_example(2) crypt_example(1)])
      (simp_all add: crypt_new_def crypt_example_def dao_is_empty_def pad_safe_def block_mode_def word_le_nat_alt)
  show "obind (crypt_encrypt crypt_example (crypt_new\<lparr>cr_method := ZStr ''aes-256-ctr''\<rparr>) (ZStr []) (ZStr ''k'') ZNull)
     (\<lambda>v. crypt_decrypt crypt_example (crypt_new\<lparr>cr_method := ZStr ''aes-256-ctr''\<rparr>) v (ZStr ''k'') ZNull) = Ret (ZStr [])"
    by (rule crypt_roundtrip [where p = 0, OF _ crypt_example(5) _ _ _ _ _ _ _ crypt_example(3) crypt_example(1)])
      (simp_all add: crypt_new_def crypt_example_def dao_is_empty_def pad_safe_def block_mode_def word_le_nat_alt)
  show "obind (crypt_encrypt crypt_example (crypt_new\<lparr>cr_method := ZStr ''aes-256-ecb'', cr_padding := ZLong 1\<rparr>) (ZStr ''text'') (ZStr ''k'') ZNull)
     (\<lambda>v. crypt_decrypt crypt_example (crypt_new\<lparr>cr_method := ZStr ''aes-256-ecb'', cr_padding := ZLong 1\<rparr>) v (ZStr ''k'') ZNull) = Ret (ZStr ''text'')"
    by (rule crypt_roundtrip [where p = 1, OF _ crypt_example(5) _ _ _ _ _ _ _ crypt_example(4) crypt_example(1)])
      (simp_all add: crypt_new_def crypt_example_def dao_is_empty_def pad_safe_def block_mode_def word_le_nat_alt)
qed

text \<open>
  With ANSI X.923 padding, when the last byte of the decrypted text is 0 (as with a
  wrong key, or a text that was not padded), \<open>dao_crypt_unpad_text\<close> clears 2^32 - 1 bytes of a local array of
  256.
\<close>

theorem crypt_ansi_overflow:
  assumes "block_mode m" "t \<noteq> []" "length t < 2 ^ 32" "0 < unat bs" "length t mod unat bs = 0" "last t = NUL"
  shows "dao_crypt_unpad_text t (ZStr m) bs 1 = Crash"
proof -
  have "t ! (length t - 1) = NUL" using assms(2,6) by (simp add: last_conv_nth)
  then have "unpad_size t (length t) (unat bs) 1 = Crash" by (simp add: unpad_size_def byte_of_def)
  moreover have "bs \<noteq> 0" using assms(4) by auto
  ultimately show ?thesis using assms by (simp add: dao_crypt_unpad_text_def Let_def)
qed

theorem crypt_ansi_overflow_witness:
  "dao_crypt_unpad_text (replicate 15 (CHR ''a'') @ [NUL]) (ZStr ''cbc'') 16 1 = Crash"
  by (rule crypt_ansi_overflow) (simp_all add: block_mode_def)

text \<open>
  With a padding set and a method whose name has no dash (as \<open>rc4\<close> or \<open>des3\<close>), \<open>encrypt\<close>
  compares a mode that was never set: a null pointer.
\<close>

theorem crypt_no_mode:
  assumes "ce_exists env" "no_hooks env c" "\<not> dao_is_empty (cr_key c)"
    "cr_method c = ZStr m" "CHR ''-'' \<notin> set m" "cr_padding c = ZLong p" "0 < sint p"
  shows "crypt_encrypt env c v ZNull ZNull = Crash"
proof -
  have "crypt_mode env (ZLong p) (ZStr m) = Ret (ZNull, ZNull)"
    using assms(5,7) by (simp add: crypt_mode_def dao_strrpos_dash_def gt_zero_def)
  moreover have "crypt_hook env (cr_before_encrypt c) = Ret" using assms(2) by (auto simp: no_hooks_def crypt_hook_def)
  moreover have "obind (z_lval b) (\<lambda>bs. obind (z_lval (ZLong p)) (\<lambda>ptype.
      dao_crypt_pad_text rnd t ZNull (ucast bs) (ucast ptype))) = Crash" for b rnd t
    by (cases b) (simp_all add: z_lval_def dao_crypt_pad_text_def)
  ultimately show ?thesis
    using assms by (simp add: crypt_encrypt_def gt_zero_def crypt_block_size_def cipher_true_def Let_def)
qed

theorem crypt_no_mode_witness:
  "crypt_encrypt crypt_example (crypt_new\<lparr>cr_padding := ZLong 2, cr_method := ZStr ''des3'', cr_key := ZStr ''k''\<rparr>)
     (ZStr ''text'') ZNull ZNull = Crash"
  by (rule crypt_no_mode [where m = "''des3''" and p = 2])
    (simp_all add: no_hooks_def crypt_example_def crypt_new_def dao_is_empty_def)

text \<open>
  The base64 methods add nothing and lose nothing, with and without the safe
  alphabet: what \<open>decryptBase64\<close> makes of the result of \<open>encryptBase64\<close> is what \<open>decrypt\<close> makes of the
  result of \<open>encrypt\<close>.
\<close>

theorem crypt_base64_roundtrip:
  assumes "crypt_encrypt env c (ZStr t) key ZNull = Ret (ZStr r)" "ce_base64_encode env r = Some s"
    "ce_base64_decode env s = Some r" "CHR ''-'' \<notin> set s" "CHR ''_'' \<notin> set s"
  shows "obind (crypt_encryptBase64 env c (ZStr t) key safe) (\<lambda>v. crypt_decryptBase64 env c v key safe) =
    obind (crypt_encrypt env c (ZStr t) key ZNull) (\<lambda>v. crypt_decrypt env c v key ZNull)"
proof -
  have "strtr2 (CHR ''-'') (CHR ''_'') (CHR ''+'') (CHR ''/'') (strtr2 (CHR ''+'') (CHR ''/'') (CHR ''-'') (CHR ''_'') s) = s"
    using assms(4,5) by (induction s) (auto simp: strtr2_def)
  then show ?thesis
    using assms(1-3)
    by (simp add: crypt_encryptBase64_def crypt_decryptBase64_def dao_base64_encode_def dao_base64_decode_def to_str_def Let_def)
qed

theorem crypt_base64_roundtrip_witness:
  "obind (crypt_encryptBase64 crypt_example crypt_new (ZStr ''+text/'') (ZStr ''k'') (ZBool True))
     (\<lambda>v. crypt_decryptBase64 crypt_example crypt_new v (ZStr ''k'') (ZBool True)) =
   obind (crypt_encrypt crypt_example crypt_new (ZStr ''+text/'') (ZStr ''k'') ZNull)
     (\<lambda>v. crypt_decrypt crypt_example crypt_new v (ZStr ''k'') ZNull)"
proof (rule crypt_base64_roundtrip [where s = "''0123456789abcdef/txet+''" and r = "''0123456789abcdef/txet+''"])
  show "crypt_encrypt crypt_example crypt_new (ZStr ''+text/'') (ZStr ''k'') ZNull =
    Ret (ZStr ''0123456789abcdef/txet+'')"
    by (simp add: crypt_encrypt_def crypt_example_def crypt_new_def crypt_hook_def to_str_def dao_is_empty_def
        crypt_mode_def gt_zero_def z_rev_def Let_def)
qed (simp_all add: crypt_example_def)

end
