(* ===== verification/Acl.thy ===== *)
theory Acl imports PhpValue begin

text \<open>
  The access control list of \<open>acl/adapter/memory.c\<close> and \<open>acl/adapter.c\<close>: roles, resources, rules with the
  key \<open>role!resource!access\<close>, callbacks and role inheritance. Arrays that are \<open>null\<close> until the first
  element is added and never shrink are lists, empty for \<open>null\<close>; the array of inheritance, which
  is never made by the class, is an option.
\<close>

section \<open>The list\<close>

record acl =
  acl_default :: zval
  acl_granted :: zval
  acl_active_role :: string
  acl_active_resource :: string
  acl_active_access :: string
  acl_roles_names :: "string list"
  acl_roles :: "string list"
  acl_resources_names :: "string list"
  acl_resources :: "string list"
  acl_access :: "(string \<times> zval) list"
  acl_funcs :: "(string \<times> zval) list"
  acl_role_inherits :: "(string \<times> string list) list option"
  acl_access_list :: "string list"

text \<open>
  A role or resource in a call: a string; an object, with the name its method returns and what it prints
  as; or something else. The role and resource objects of the list are known by their names.
\<close>

datatype acl_arg = Named string | Object string string | Foreign

fun arg_name :: "acl_arg \<Rightarrow> string" where
  "arg_name (Named s) = s"
| "arg_name (Object n p) = n"
| "arg_name Foreign = []"

fun arg_str :: "acl_arg \<Rightarrow> string" where
  "arg_str (Named s) = s"
| "arg_str (Object n p) = p"
| "arg_str Foreign = ''Array''"

datatype acl_names = OneName string | ManyNames "string list" | NoNames

definition acl_new :: acl where
  "acl_new = \<lparr>acl_default = ZLong 1, acl_granted = ZBool False, acl_active_role = [], acl_active_resource = [],
     acl_active_access = [], acl_roles_names = [], acl_roles = [], acl_resources_names = [''*''],
     acl_resources = [], acl_access = [], acl_funcs = [], acl_role_inherits = None, acl_access_list = [''*!*'']\<rparr>"

definition acl_key2 :: "string \<Rightarrow> string \<Rightarrow> string" where
  "acl_key2 s a = s @ ''!'' @ a"

definition acl_key3 :: "string \<Rightarrow> string \<Rightarrow> string \<Rightarrow> string" where
  "acl_key3 r s a = r @ ''!'' @ s @ ''!'' @ a"

definition acl_setDefaultAction :: "zval \<Rightarrow> acl \<Rightarrow> acl" where
  "acl_setDefaultAction v acl = acl\<lparr>acl_default := v\<rparr>"

definition acl_getDefaultAction :: "acl \<Rightarrow> zval" where "acl_getDefaultAction acl = acl_default acl"

definition acl_getActiveRole :: "acl \<Rightarrow> string" where "acl_getActiveRole acl = acl_active_role acl"

definition acl_getActiveResource :: "acl \<Rightarrow> string" where "acl_getActiveResource acl = acl_active_resource acl"

definition acl_getActiveAccess :: "acl \<Rightarrow> string" where "acl_getActiveAccess acl = acl_active_access acl"

definition acl_isRole :: "acl \<Rightarrow> string \<Rightarrow> bool" where "acl_isRole acl r = (r \<in> set (acl_roles_names acl))"

definition acl_isResource :: "acl \<Rightarrow> string \<Rightarrow> bool" where
  "acl_isResource acl s = (s \<in> set (acl_resources_names acl))"

section \<open>Roles and resources\<close>

text \<open>The parent is appended only to an array: \<open>dao_array_append_multi_2\<close> does nothing with \<open>null\<close>.\<close>

definition dao_array_append_multi_2 :: "(string \<times> string list) list option \<Rightarrow> string \<Rightarrow> string \<Rightarrow> (string \<times> string list) list option" where
  "dao_array_append_multi_2 arr k v =
     (case arr of None \<Rightarrow> None
      | Some m \<Rightarrow> Some (arr_upd k ((case map_of m k of Some vs \<Rightarrow> vs | None \<Rightarrow> []) @ [v]) m))"

definition acl_addInherit :: "string \<Rightarrow> acl_arg \<Rightarrow> acl \<Rightarrow> acl \<times> bool outcome" where
  "acl_addInherit role parent acl =
     (if \<not> acl_isRole acl role then (acl, Throw (''Role '' @ role @ '' does not exist in the role list''))
      else if parent = Foreign \<or> \<not> acl_isRole acl (arg_name parent) then
        (acl, Throw (''Role '' @ arg_str parent @ '' (to inherit) does not exist in the role list''))
      else if arg_name parent = role then (acl, Ret False)
      else (acl\<lparr>acl_role_inherits := dao_array_append_multi_2 (acl_role_inherits acl) role (arg_name parent)\<rparr>, Ret True))"

definition acl_addRole :: "acl_arg \<Rightarrow> acl_arg option \<Rightarrow> acl \<Rightarrow> acl \<times> bool outcome" where
  "acl_addRole role inherits acl =
     (if role = Foreign then (acl, Throw ''Call to undefined method getname'')
      else if role = Named ''*'' then (acl, Throw ''Role name cannot be *'')
      else
        (let name = arg_name role in
         if acl_isRole acl name then (acl, Ret False)
         else
           (let acl = acl\<lparr>acl_roles := acl_roles acl @ [name], acl_roles_names := acl_roles_names acl @ [name]\<rparr>
            in case inherits of None \<Rightarrow> (acl, Ret True) | Some p \<Rightarrow> acl_addInherit name p acl)))"

definition acl_add_key :: "string \<Rightarrow> string list \<Rightarrow> string list" where
  "acl_add_key k ks = (if k \<in> set ks then ks else ks @ [k])"

fun names_list :: "acl_names \<Rightarrow> string list" where
  "names_list (OneName a) = [a]"
| "names_list (ManyNames xs) = xs"
| "names_list NoNames = []"

definition acl_addResourceAccess :: "string \<Rightarrow> acl_names \<Rightarrow> acl \<Rightarrow> acl \<times> bool outcome" where
  "acl_addResourceAccess res names acl =
     (if \<not> acl_isResource acl res then (acl, Throw (''Resource '' @ res @ '' does not exist in ACL''))
      else (acl\<lparr>acl_access_list := fold (\<lambda>a. acl_add_key (acl_key2 res a)) (names_list names) (acl_access_list acl)\<rparr>,
            Ret True))"

definition acl_addResource :: "acl_arg \<Rightarrow> acl_names \<Rightarrow> acl \<Rightarrow> acl \<times> bool outcome" where
  "acl_addResource res names acl =
     (if res = Foreign then (acl, Throw ''Call to undefined method getname'')
      else if res = Named ''*'' then (acl, Throw ''Resource name cannot be *'')
      else
        (let name = arg_name res;
             acl = (if acl_isResource acl name then acl
                    else acl\<lparr>acl_resources := acl_resources acl @ [name],
                             acl_resources_names := acl_resources_names acl @ [name]\<rparr>)
         in acl_addResourceAccess name names acl))"

text \<open>Without a list the access is printed as the empty string.\<close>

definition acl_dropResourceAccess :: "string \<Rightarrow> acl_names \<Rightarrow> acl \<Rightarrow> acl" where
  "acl_dropResourceAccess res names acl =
     (let ks = map (acl_key2 res) (if names = NoNames then [[]] else names_list names)
      in acl\<lparr>acl_access_list := filter (\<lambda>k. k \<notin> set ks) (acl_access_list acl)\<rparr>)"

section \<open>Rules\<close>

definition acl_set :: "zval \<Rightarrow> zval \<Rightarrow> string \<Rightarrow> acl \<Rightarrow> acl" where
  "acl_set action callback key acl =
     (let acl = acl\<lparr>acl_access := arr_upd key action (acl_access acl)\<rparr>
      in if callback \<noteq> ZNull then acl\<lparr>acl_funcs := arr_upd key callback (acl_funcs acl)\<rparr> else acl)"

text \<open>The parts of a key between exclamation marks.\<close>

fun explode :: "string \<Rightarrow> string list" where
  "explode [] = [[]]"
| "explode (c # cs) = (if c = CHR ''!'' then [] # explode cs else (c # hd (explode cs)) # tl (explode cs))"

text \<open>
  One step of the loop over the keys that \<open>deny\<close> and \<open>allow\<close> of \<open>*\<close> make. The loop of the source has
  read the ends of the table before it starts, so it visits the keys that were there, as the fold
  over them below does. A key with four or more parts makes it add a key to the table it walks; what
  happens when that moves the table (a walk over freed memory) is not modelled.
\<close>

definition acl_rewrite :: "zval \<Rightarrow> zval \<Rightarrow> string \<Rightarrow> string \<Rightarrow> string \<Rightarrow> acl \<Rightarrow> acl" where
  "acl_rewrite action callback role res key acl =
     (let ps = explode key in
      if 3 \<le> length ps \<and> ps ! 0 = role \<and> ps ! 1 = res then acl_set action callback (acl_key3 role res (ps ! 2)) acl
      else acl)"

definition acl_allowOrDeny ::
    "zval \<Rightarrow> zval \<Rightarrow> string \<Rightarrow> string \<Rightarrow> acl_names \<Rightarrow> acl \<Rightarrow> acl \<times> unit outcome" where
  "acl_allowOrDeny action callback role res access acl =
     (if \<not> acl_isRole acl role then (acl, Throw (''Role '' @ role @ '' does not exist in ACL''))
      else if \<not> acl_isResource acl res then (acl, Throw (''Resource '' @ res @ '' does not exist in ACL''))
      else case access of
        ManyNames as \<Rightarrow>
          (if list_ex (\<lambda>a. acl_key2 res a \<notin> set (acl_access_list acl)) as
           then (acl, Throw ''Acccess does not exist in resource'')
           else (fold (\<lambda>a. acl_set action callback (acl_key3 role res a)) as acl, Ret ()))
      | _ \<Rightarrow>
          (let a = (case access of OneName a \<Rightarrow> a | _ \<Rightarrow> []) in
           if a \<noteq> ''*'' \<and> res \<noteq> ''*'' \<and> acl_key2 res a \<notin> set (acl_access_list acl)
           then (acl, Throw ''Acccess does not exist in resource'')
           else
             (let acl = acl_set action callback (acl_key3 role res a) acl
              in (if res \<noteq> ''*'' \<and> a = ''*''
                  then fold (acl_rewrite action callback role res) (map fst (acl_access acl)) acl
                  else acl, Ret ()))))"

fun acl_each :: "(string \<Rightarrow> acl \<Rightarrow> acl \<times> unit outcome) \<Rightarrow> string list \<Rightarrow> acl \<Rightarrow> acl \<times> unit outcome" where
  "acl_each f [] acl = (acl, Ret ())"
| "acl_each f (x # xs) acl = bind_out (f x acl) (\<lambda>acl _. acl_each f xs acl)"

text \<open>
  The body that \<open>allow\<close> and \<open>deny\<close> have in common. The arrays of roles and of resources are \<open>null\<close> as long
  as nothing was added, and then they are dereferenced.
\<close>

definition acl_role_rule ::
    "zval \<Rightarrow> zval \<Rightarrow> string \<Rightarrow> acl_names \<Rightarrow> string \<Rightarrow> acl \<Rightarrow> acl \<times> unit outcome" where
  "acl_role_rule action callback res access role acl =
     bind_out (acl_allowOrDeny action callback role res access acl) (\<lambda>acl _.
       if res = ''*'' then
         (if acl_resources acl = [] then (acl, Crash)
          else acl_each (\<lambda>name. acl_allowOrDeny action callback role name access) (acl_resources acl) acl)
       else (acl, Ret ()))"

definition acl_rule ::
    "zval \<Rightarrow> string \<Rightarrow> string \<Rightarrow> acl_names \<Rightarrow> zval \<Rightarrow> acl \<Rightarrow> acl \<times> unit outcome" where
  "acl_rule action role res access callback acl =
     (if role \<noteq> ''*'' then acl_role_rule action callback res access role acl
      else if acl_roles_names acl = [] then (acl, Crash)
      else acl_each (acl_role_rule action callback res access)
             (filter (\<lambda>r. \<not> int_key r) (acl_roles_names acl)) acl)"

definition acl_allow :: "string \<Rightarrow> string \<Rightarrow> acl_names \<Rightarrow> zval \<Rightarrow> acl \<Rightarrow> acl \<times> unit outcome" where
  "acl_allow = acl_rule (ZLong 1)"

definition acl_deny :: "string \<Rightarrow> string \<Rightarrow> acl_names \<Rightarrow> zval \<Rightarrow> acl \<Rightarrow> acl \<times> unit outcome" where
  "acl_deny = acl_rule (ZLong 0)"

section \<open>Decisions\<close>

datatype acl_decision = Allow | Deny | Dunno

definition acl_decide :: "(string \<times> zval) list \<Rightarrow> string \<Rightarrow> acl_decision" where
  "acl_decide access key =
     (case map_of access key of None \<Rightarrow> Dunno | Some v \<Rightarrow> if z_true v then Allow else Deny)"

definition acl_parents :: "(string \<times> string list) list option \<Rightarrow> string \<Rightarrow> string list" where
  "acl_parents inh r = (case inh of None \<Rightarrow> [] | Some m \<Rightarrow> (case map_of m r of None \<Rightarrow> [] | Some ps \<Rightarrow> ps))"

text \<open>The loop over the parents of a role; it calls itself for the parents of a parent, without end on a cycle.\<close>

partial_function (option) acl_check_list ::
    "(string \<times> zval) list \<Rightarrow> (string \<times> string list) list option \<Rightarrow> string \<Rightarrow> string \<Rightarrow> string list \<Rightarrow> acl_decision option" where
  "acl_check_list access inh res acc ps =
     (if ps = [] then Some Dunno
      else
        Option.bind
          (if acl_decide access (acl_key3 (hd ps) res acc) \<noteq> Dunno
           then Some (acl_decide access (acl_key3 (hd ps) res acc))
           else acl_check_list access inh res acc (acl_parents inh (hd ps)))
          (\<lambda>d. if d \<noteq> Dunno then Some d else acl_check_list access inh res acc (tl ps)))"

text \<open>The role is passed on as it came: an object is not a key of the array of inheritance.\<close>

definition acl_check_inheritance :: "acl \<Rightarrow> acl_arg \<Rightarrow> string \<Rightarrow> string \<Rightarrow> acl_decision option" where
  "acl_check_inheritance acl role res acc =
     (case role of
        Named r \<Rightarrow> acl_check_list (acl_access acl) (acl_role_inherits acl) res acc (acl_parents (acl_role_inherits acl) r)
      | _ \<Rightarrow> Some Dunno)"

text \<open>
  The listeners of the event before the check, and the user callbacks, which are told the decision, are
  parameters; they are taken not to change the list.
\<close>

record acl_env =
  ae_cancel :: "acl \<Rightarrow> bool"
  ae_call :: "zval \<Rightarrow> acl_arg \<Rightarrow> acl_arg \<Rightarrow> string \<Rightarrow> zval \<Rightarrow> acl_decision \<Rightarrow> bool"

text \<open>One level of the search: the key of the role itself, then the inherited roles.\<close>

definition acl_level :: "acl \<Rightarrow> acl_arg \<Rightarrow> string \<Rightarrow> string \<Rightarrow> string \<Rightarrow> acl_decision option" where
  "acl_level acl role key res acc =
     (if acl_decide (acl_access acl) key \<noteq> Dunno then Some (acl_decide (acl_access acl) key)
      else acl_check_inheritance acl role res acc)"

definition acl_search :: "acl \<Rightarrow> acl_arg \<Rightarrow> acl_arg \<Rightarrow> string \<Rightarrow> (acl_decision \<times> string) option" where
  "acl_search acl role res acc =
     (let r = arg_name role; s = arg_name res;
          k1 = acl_key3 r s acc; k2 = acl_key3 r s ''*''; k3 = acl_key3 r ''*'' ''*''
      in Option.bind (acl_level acl role k1 (arg_str res) acc) (\<lambda>d1.
         if d1 \<noteq> Dunno then Some (d1, k1)
         else Option.bind (acl_level acl role k2 (arg_str res) ''*'') (\<lambda>d2.
           if d2 \<noteq> Dunno then Some (d2, k2)
           else map_option (\<lambda>d3. (d3, k3)) (acl_level acl role k3 ''*'' ''*''))))"

definition acl_isAllowed ::
    "acl_env \<Rightarrow> acl_arg \<Rightarrow> acl_arg \<Rightarrow> string \<Rightarrow> zval \<Rightarrow> acl \<Rightarrow> (acl \<times> zval outcome) option" where
  "acl_isAllowed env role res acc data acl =
     (if role = Foreign then Some (acl, Throw ''Object passed as role must implement RoleAware'')
      else if res = Foreign then Some (acl, Throw ''Object passed as resource must implement ResourceAware'')
      else
        (let acl = acl\<lparr>acl_active_role := arg_name role, acl_active_resource := arg_name res, acl_active_access := acc\<rparr>
         in if ae_cancel env acl then Some (acl, Ret (ZBool False))
            else if \<not> acl_isRole acl (arg_name role) then Some (acl, Ret (acl_default acl))
            else
              map_option (\<lambda>(d, key).
                let granted =
                  (case (if d \<noteq> Dunno then map_of (acl_funcs acl) key else None) of
                     Some f \<Rightarrow> if ae_call env f role res acc data d then d = Allow else d = Deny
                   | None \<Rightarrow> d = Allow)
                in (acl\<lparr>acl_granted := ZBool granted\<rparr>, Ret (ZBool granted)))
              (acl_search acl role res acc)))"

definition acl_getRoles :: "acl \<Rightarrow> string list" where "acl_getRoles acl = acl_roles acl"

definition acl_getResources :: "acl \<Rightarrow> string list" where "acl_getResources acl = acl_resources acl"

definition acl_getAccess :: "acl \<Rightarrow> (string \<times> zval) list" where "acl_getAccess acl = acl_access acl"

section \<open>Histories\<close>

text \<open>Every call that changes the list; an exception keeps the state reached.\<close>

datatype acl_cmd =
    AddRole acl_arg "acl_arg option"
  | AddInherit string acl_arg
  | AddResource acl_arg acl_names
  | AddAccess string acl_names
  | DropAccess string acl_names
  | AllowRule string string acl_names zval
  | DenyRule string string acl_names zval
  | SetDefault zval

fun acl_exec :: "acl_cmd \<Rightarrow> acl \<Rightarrow> acl" where
  "acl_exec (AddRole r i) acl = fst (acl_addRole r i acl)"
| "acl_exec (AddInherit r p) acl = fst (acl_addInherit r p acl)"
| "acl_exec (AddResource s n) acl = fst (acl_addResource s n acl)"
| "acl_exec (AddAccess s n) acl = fst (acl_addResourceAccess s n acl)"
| "acl_exec (DropAccess s n) acl = acl_dropResourceAccess s n acl"
| "acl_exec (AllowRule r s n f) acl = fst (acl_allow r s n f acl)"
| "acl_exec (DenyRule r s n f) acl = fst (acl_deny r s n f acl)"
| "acl_exec (SetDefault v) acl = acl_setDefaultAction v acl"

definition acl_run :: "acl_cmd list \<Rightarrow> acl" where "acl_run cs = fold acl_exec cs acl_new"

section \<open>What rules change\<close>

text \<open>Everything but the rules and the callbacks.\<close>

definition frame :: "acl \<Rightarrow> acl \<Rightarrow> bool" where
  "frame acl acl' \<longleftrightarrow> acl_roles_names acl' = acl_roles_names acl \<and> acl_resources_names acl' = acl_resources_names acl \<and>
     acl_roles acl' = acl_roles acl \<and> acl_resources acl' = acl_resources acl \<and>
     acl_role_inherits acl' = acl_role_inherits acl \<and> acl_access_list acl' = acl_access_list acl \<and>
     acl_default acl' = acl_default acl"

lemma frame_refl [simp]: "frame acl acl" by (simp add: frame_def)

lemma frame_trans: "frame a b \<Longrightarrow> frame b c \<Longrightarrow> frame a c" by (simp add: frame_def)

lemma acl_set_simps [simp]:
  "acl_access (acl_set act cb k acl) = arr_upd k act (acl_access acl)"
  "acl_funcs (acl_set act cb k acl) = (if cb \<noteq> ZNull then arr_upd k cb (acl_funcs acl) else acl_funcs acl)"
  "frame acl (acl_set act cb k acl)"
  by (simp_all add: acl_set_def frame_def Let_def)

text \<open>
  A rule is a fold of single settings: \<open>P\<close> is kept by the whole rule when it is kept by setting each key
  the rule may set.
\<close>

definition names_cover :: "acl_names \<Rightarrow> string \<Rightarrow> bool" where
  "names_cover access a \<longleftrightarrow> a \<in> set (names_list access) \<or> ''*'' \<in> set (names_list access) \<or> access = NoNames \<and> a = []"

definition rule_key :: "string \<Rightarrow> string \<Rightarrow> acl_names \<Rightarrow> acl \<Rightarrow> string \<Rightarrow> bool" where
  "rule_key role res access acl k \<longleftrightarrow>
     (\<exists>r s a. k = acl_key3 r s a \<and> acl_isRole acl r \<and> acl_isResource acl s \<and> (role = r \<or> role = ''*'') \<and>
        (res = s \<or> res = ''*'') \<and> names_cover access a)"

lemma frame_rule_key: "frame acl acl' \<Longrightarrow> rule_key role res access acl' k = rule_key role res access acl k"
  by (simp add: rule_key_def frame_def acl_isRole_def acl_isResource_def)

lemma fold_keeps:
  assumes "P acl" "\<And>x acl. x \<in> set xs \<Longrightarrow> P acl \<Longrightarrow> P (f x acl)"
  shows "P (fold f xs acl)"
  using assms by (induction xs arbitrary: acl) auto

lemma allowOrDeny_keeps:
  assumes P: "P acl" and step: "\<And>k acl'. frame acl acl' \<Longrightarrow> P acl' \<Longrightarrow> rule_key role res access acl k \<Longrightarrow> P (acl_set act cb k acl')"
  shows "P (fst (acl_allowOrDeny act cb role res access acl)) \<and> frame acl (fst (acl_allowOrDeny act cb role res access acl))"
proof -
  let ?Q = "\<lambda>acl'. P acl' \<and> frame acl acl'"
  have set: "?Q (acl_set act cb (acl_key3 role res a) acl')"
    if "?Q acl'" "acl_isRole acl role" "acl_isResource acl res"
      "names_cover access a" for a acl'
    using that step [of acl' "acl_key3 role res a"] frame_trans [of acl acl']
    unfolding rule_key_def by (metis acl_set_simps(3))
  have Q: "?Q acl" using P by simp
  have many: "?Q (fold (\<lambda>a. acl_set act cb (acl_key3 role res a)) xs acl)"
    if "acl_isRole acl role" "acl_isResource acl res" "set xs \<subseteq> set (names_list access)" for xs
    by (rule fold_keeps [where P = ?Q, OF Q]) (use set that in \<open>auto simp: names_cover_def\<close>)
  have rew: "?Q (fold (acl_rewrite act cb role res) ks acl')"
    if "?Q acl'" "acl_isRole acl role" "acl_isResource acl res" "''*'' \<in> set (names_list access)" for ks acl'
    by (rule fold_keeps [where P = ?Q, OF that(1)]) (use set that in \<open>auto simp: acl_rewrite_def Let_def names_cover_def\<close>)
  show ?thesis
    using Q set [OF Q] many rew by (cases access) (auto simp: acl_allowOrDeny_def names_cover_def Let_def)
qed

lemma bind_out_keeps:
  assumes "P (fst m)" "\<And>s a. m = (s, Ret a) \<Longrightarrow> P (fst (f s a))"
  shows "P (fst (bind_out m f))"
  using assms by (cases m; cases "snd m") auto

lemma each_keeps:
  assumes "P acl" "\<And>x acl. x \<in> set xs \<Longrightarrow> P acl \<Longrightarrow> P (fst (f x acl))"
  shows "P (fst (acl_each f xs acl))"
  using assms
proof (induction xs arbitrary: acl)
  case (Cons x xs)
  have head: "P (fst (f x acl))" by (rule Cons(3)) (use Cons(2) in simp_all)
  have rest: "P (fst (acl_each f xs acl'))" if "P acl'" for acl'
    by (rule Cons(1) [OF that]) (rule Cons(3), simp_all)
  show ?case
    unfolding acl_each.simps
  proof (rule bind_out_keeps [where P = P])
    show "P (fst (f x acl))" by (rule head)
  next
    fix s a assume "f x acl = (s, Ret a)"
    then show "P (fst (acl_each f xs s))" using head rest by simp
  qed
qed simp

lemma rule_key_cases:
  "rule_key r s access acl k \<Longrightarrow> r = role \<or> role = ''*'' \<Longrightarrow> s = res \<or> res = ''*'' \<Longrightarrow> rule_key role res access acl k"
  by (auto simp: rule_key_def)

lemma role_rule_keeps:
  assumes P: "P acl" and step: "\<And>k acl'. frame acl acl' \<Longrightarrow> P acl' \<Longrightarrow> rule_key role res access acl k \<Longrightarrow> P (acl_set act cb k acl')"
  shows "P (fst (acl_role_rule act cb res access role acl)) \<and> frame acl (fst (acl_role_rule act cb res access role acl))"
proof -
  let ?Q = "\<lambda>acl'. P acl' \<and> frame acl acl'"
  have inner: "?Q (fst (acl_allowOrDeny act cb role name access acl'))" if "?Q acl'" "name = res \<or> res = ''*''" for name acl'
  proof -
    have "P (fst (acl_allowOrDeny act cb role name access acl')) \<and> frame acl' (fst (acl_allowOrDeny act cb role name access acl'))"
    proof (rule allowOrDeny_keeps)
      fix k acl''
      assume k: "frame acl' acl''" "P acl''" "rule_key role name access acl' k"
      have "rule_key role res access acl k"
        using k(3) that frame_rule_key [of acl acl'] by (auto intro: rule_key_cases)
      then show "P (acl_set act cb k acl'')" using step k(1,2) that(1) frame_trans by blast
    qed (use that in simp)
    then show ?thesis using that(1) frame_trans by blast
  qed
  show ?thesis
    unfolding acl_role_rule_def
    by (rule bind_out_keeps [where P = ?Q])
      (use inner [of acl res] P inner in \<open>auto intro!: each_keeps [where P = ?Q] split: if_splits\<close>)
qed

lemma rule_keeps:
  assumes P: "P acl" and step: "\<And>k acl'. frame acl acl' \<Longrightarrow> P acl' \<Longrightarrow> rule_key role res access acl k \<Longrightarrow> P (acl_set act cb k acl')"
  shows "P (fst (acl_rule act role res access cb acl)) \<and> frame acl (fst (acl_rule act role res access cb acl))"
proof -
  let ?Q = "\<lambda>acl'. P acl' \<and> frame acl acl'"
  have inner: "?Q (fst (acl_role_rule act cb res access r acl'))" if "?Q acl'" "role = r \<or> role = ''*''" for r acl'
  proof -
    have "P (fst (acl_role_rule act cb res access r acl')) \<and> frame acl' (fst (acl_role_rule act cb res access r acl'))"
    proof (rule role_rule_keeps)
      fix k acl''
      assume k: "frame acl' acl''" "P acl''" "rule_key r res access acl' k"
      have "rule_key role res access acl k"
        using k(3) that frame_rule_key [of acl acl'] by (auto intro: rule_key_cases)
      then show "P (acl_set act cb k acl'')" using step k(1,2) that(1) frame_trans by blast
    qed (use that in simp)
    then show ?thesis using that(1) frame_trans by blast
  qed
  show ?thesis
    unfolding acl_rule_def using P inner [of acl role] inner by (auto intro!: each_keeps [where P = ?Q])
qed

section \<open>Inheritance is never recorded\<close>

lemma exec_inherits: "acl_role_inherits acl = None \<Longrightarrow> acl_role_inherits (acl_exec c acl) = None"
proof (induction c acl rule: acl_exec.induct)
  case (6 r s n f acl)
  then show ?case using rule_keeps [of "\<lambda>_. True" acl r s n "ZLong 1" f] by (simp add: acl_allow_def frame_def)
next
  case (7 r s n f acl)
  then show ?case using rule_keeps [of "\<lambda>_. True" acl r s n "ZLong 0" f] by (simp add: acl_deny_def frame_def)
qed (auto simp: acl_addRole_def acl_addInherit_def acl_addResource_def acl_addResourceAccess_def acl_dropResourceAccess_def
    acl_setDefaultAction_def dao_array_append_multi_2_def Let_def split: option.splits)

lemma run_inherits: "acl_role_inherits (acl_run cs) = None"
  unfolding acl_run_def
  by (rule fold_keeps [where P = "\<lambda>acl. acl_role_inherits acl = None"]) (simp_all add: acl_new_def exec_inherits)

lemma check_nil: "acl_check_list access inh res acc [] = Some Dunno"
  by (simp add: acl_check_list.simps)

lemma no_parents: "acl_role_inherits acl = None \<Longrightarrow> acl_check_inheritance acl role res acc = Some Dunno"
  by (cases role) (simp_all add: acl_check_inheritance_def acl_parents_def check_nil)

text \<open>The first rule that is set among some keys.\<close>

definition first_rule :: "(string \<times> zval) list \<Rightarrow> string list \<Rightarrow> acl_decision" where
  "first_rule access ks = (case filter (\<lambda>d. d \<noteq> Dunno) (map (acl_decide access) ks) of [] \<Rightarrow> Dunno | d # _ \<Rightarrow> d)"

lemma search_no_parents:
  assumes "acl_role_inherits acl = None"
  shows "\<exists>k. acl_search acl role res a = Some (first_rule (acl_access acl)
    [acl_key3 (arg_name role) (arg_name res) a, acl_key3 (arg_name role) (arg_name res) ''*'', acl_key3 (arg_name role) ''*'' ''*''], k)"
  using no_parents [OF assms] by (simp add: acl_search_def acl_level_def first_rule_def Let_def)

lemma isAllowed_direct_rules:
  assumes "acl_isRole (acl_run cs) r" "acl_funcs (acl_run cs) = []" "\<not> ae_cancel env ((acl_run cs)\<lparr>acl_active_role := r, acl_active_resource := s, acl_active_access := a\<rparr>)"
  shows "map_option snd (acl_isAllowed env (Named r) (Named s) a data (acl_run cs)) =
    Some (Ret (ZBool (first_rule (acl_access (acl_run cs)) [acl_key3 r s a, acl_key3 r s ''*'', acl_key3 r ''*'' ''*''] = Allow)))"
proof -
  let ?acl = "(acl_run cs)\<lparr>acl_active_role := r, acl_active_resource := s, acl_active_access := a\<rparr>"
  obtain k where "acl_search ?acl (Named r) (Named s) a =
    Some (first_rule (acl_access ?acl) [acl_key3 r s a, acl_key3 r s ''*'', acl_key3 r ''*'' ''*''], k)"
    using search_no_parents [of ?acl "Named r" "Named s" a] run_inherits [of cs] by auto
  moreover have "acl_isRole ?acl r" using assms(1) by (simp add: acl_isRole_def)
  ultimately show ?thesis using assms(2,3) by (simp add: acl_isAllowed_def Let_def)
qed

text \<open>
  C37. After any calls on a new list, \<open>isAllowed\<close> without callbacks returns, and its answer
  for a role of the list is that of the first rule of the role itself among role-resource-access,
  role-resource-* and role-*-*, and no when there is none: roles that the role was made to inherit from
  have no effect (the array of parents is never created, so nothing is appended to it), nor has the
  default action.
\<close>

theorem acl_direct_rules_only:
  assumes "acl_isRole (acl_run cs) r" "acl_funcs (acl_run cs) = []" "\<not> ae_cancel env ((acl_run cs)\<lparr>acl_active_role := r, acl_active_resource := s, acl_active_access := a\<rparr>)"
  shows "map_option snd (acl_isAllowed env (Named r) (Named s) a data (acl_run cs)) =
    Some (Ret (ZBool (first_rule (acl_access (acl_run cs)) [acl_key3 r s a, acl_key3 r s ''*'', acl_key3 r ''*'' ''*''] = Allow)))"
  by (rule isAllowed_direct_rules [OF assms])

definition env_plain :: acl_env where "env_plain = \<lparr>ae_cancel = (\<lambda>_. False), ae_call = (\<lambda>_ _ _ _ _ _. False)\<rparr>"

definition acl_story :: "acl_cmd list" where
  "acl_story = [AddRole (Named ''guest'') None, AddRole (Named ''admin'') None, AddInherit ''admin'' (Named ''guest''),
     AddResource (Named ''post'') (ManyNames [''read'', ''edit'']), AllowRule ''guest'' ''post'' (OneName ''read'') ZNull]"

lemma acl_story: "acl_roles_names (acl_run acl_story) = [''guest'', ''admin'']" "acl_funcs (acl_run acl_story) = []"
  "acl_access (acl_run acl_story) = [(''guest!post!read'', ZLong 1)]" "acl_resources_names (acl_run acl_story) = [''*'', ''post'']"
  "acl_access_list (acl_run acl_story) = [''*!*'', ''post!read'', ''post!edit'']"
  by (simp_all add: acl_run_def acl_story_def acl_new_def acl_addRole_def acl_addInherit_def acl_addResource_def
      acl_addResourceAccess_def acl_allow_def acl_rule_def acl_role_rule_def acl_allowOrDeny_def acl_set_def acl_isRole_def
      acl_isResource_def acl_add_key_def acl_key2_def acl_key3_def Let_def)

theorem acl_direct_rules_only_witness:
  "map_option snd (acl_isAllowed env_plain (Named ''admin'') (Named ''post'') ''read'' ZNull (acl_run acl_story)) =
    Some (Ret (ZBool False))"
  using acl_direct_rules_only [where cs = acl_story and r = "''admin''" and env = env_plain and s = "''post''"
      and a = "''read''" and data = ZNull]
  by (simp add: acl_story acl_isRole_def env_plain_def first_rule_def acl_decide_def acl_key3_def)

end
