(* ===== verification/AclRules.thy ===== *)
theory AclRules imports Acl begin

text \<open>What the rules of the access control list guarantee: which calls grant, which revoke, and how the
  search through inherited roles ends.\<close>

lemma z_true_long [simp]: "z_true (ZLong n) = (n \<noteq> 0)"
  by (simp add: z_true_def)

section \<open>A rule takes effect\<close>

lemma rule_one:
  assumes "r \<noteq> ''*''" "s \<noteq> ''*''" "a \<noteq> ''*''" "acl_isRole acl r" "acl_isResource acl s" "acl_key2 s a \<in> set (acl_access_list acl)"
  shows "acl_rule act r s (OneName a) cb acl = (acl_set act cb (acl_key3 r s a) acl, Ret ())"
  using assms by (simp add: acl_rule_def acl_role_rule_def acl_allowOrDeny_def Let_def)

lemma isAllowed_direct:
  assumes "acl_isRole acl r" "\<forall>x. \<not> ae_cancel env x" "map_of (acl_funcs acl) (acl_key3 r s a) = None"
    and "map_of (acl_access acl) (acl_key3 r s a) = Some v"
  shows "map_option snd (acl_isAllowed env (Named r) (Named s) a data acl) = Some (Ret (ZBool (z_true v)))"
  using assms by (simp add: acl_isAllowed_def acl_search_def acl_level_def acl_decide_def acl_isRole_def Let_def)

text \<open>
  C38. An \<open>allow\<close> (a \<open>deny\<close>) without a callback, of one access that the resource has and for
  a role of the list, is taken, provided that no callback was ever set for that role, resource and access and that
  no listener vetoes: the next \<open>isAllowed\<close> of the three says yes (no), whatever other rules were set before, and
  no other rule is changed. (An earlier callback stays and can turn the answer round: \<open>acl_deny_callback_grants\<close>.)
\<close>

theorem acl_last_rule_wins:
  assumes "r \<noteq> ''*''" "s \<noteq> ''*''" "a \<noteq> ''*''" "acl_isRole acl r" "acl_isResource acl s" "acl_key2 s a \<in> set (acl_access_list acl)"
    and "\<forall>x. \<not> ae_cancel env x" "map_of (acl_funcs acl) (acl_key3 r s a) = None"
  shows "map_option snd (acl_isAllowed env (Named r) (Named s) a data (fst (acl_allow r s (OneName a) ZNull acl))) = Some (Ret (ZBool True))
    \<and> map_option snd (acl_isAllowed env (Named r) (Named s) a data (fst (acl_deny r s (OneName a) ZNull acl))) = Some (Ret (ZBool False))
    \<and> (\<forall>k. k \<noteq> acl_key3 r s a \<longrightarrow> map_of (acl_access (fst (acl_allow r s (OneName a) ZNull acl))) k = map_of (acl_access acl) k
         \<and> map_of (acl_access (fst (acl_deny r s (OneName a) ZNull acl))) k = map_of (acl_access acl) k)"
proof -
  have "map_option snd (acl_isAllowed env (Named r) (Named s) a data (acl_set v ZNull (acl_key3 r s a) acl)) = Some (Ret (ZBool (z_true v)))" for v
    by (rule isAllowed_direct) (use assms(4,7,8) in \<open>simp_all add: acl_isRole_def acl_set_def Let_def\<close>)
  from this [of "ZLong 1"] this [of "ZLong 0"] show ?thesis
    using assms(1-6) by (simp add: acl_allow_def acl_deny_def rule_one)
qed

theorem acl_last_rule_wins_witness:
  "map_option snd (acl_isAllowed env_plain (Named ''guest'') (Named ''post'') ''edit'' ZNull
     (fst (acl_allow ''guest'' ''post'' (OneName ''edit'') ZNull (acl_run acl_story)))) = Some (Ret (ZBool True))"
proof -
  have "''post!edit'' \<in> set (acl_access_list (acl_run acl_story))" "acl_isRole (acl_run acl_story) ''guest''"
    "acl_isResource (acl_run acl_story) ''post''"
    by (simp_all add: acl_story acl_isRole_def acl_isResource_def)
  then show ?thesis
    by (intro acl_last_rule_wins [where a = "''edit''", THEN conjunct1]) (simp_all add: acl_story env_plain_def acl_key2_def)
qed

section \<open>A yes needs an allow\<close>

text \<open>A call that grants access \<open>a\<close> of a resource to a role.\<close>

fun acl_grants :: "acl_cmd \<Rightarrow> string \<Rightarrow> string \<Rightarrow> string \<Rightarrow> bool" where
  "acl_grants (AllowRule role res access f) r s a \<longleftrightarrow>
     (role = r \<or> role = ''*'') \<and> (res = s \<or> res = ''*'') \<and> names_cover access a"
| "acl_grants _ r s a \<longleftrightarrow> False"

definition granted_by :: "acl_cmd set \<Rightarrow> acl \<Rightarrow> bool" where
  "granted_by C acl \<longleftrightarrow> (\<forall>k v. map_of (acl_access acl) k = Some v \<longrightarrow> z_true v \<longrightarrow>
     (\<exists>r s a. k = acl_key3 r s a \<and> acl_isRole acl r \<and> acl_isResource acl s \<and> (\<exists>c\<in>C. acl_grants c r s a)))"

lemma granted_mono:
  "granted_by C acl \<Longrightarrow> acl_access acl' = acl_access acl \<Longrightarrow> set (acl_roles_names acl) \<subseteq> set (acl_roles_names acl') \<Longrightarrow>
   set (acl_resources_names acl) \<subseteq> set (acl_resources_names acl') \<Longrightarrow> granted_by C acl'"
  unfolding granted_by_def acl_isRole_def acl_isResource_def by (metis subsetD)

lemma granted_set:
  assumes "granted_by C acl'" "frame acl acl'" "rule_key role res access acl k"
    and "z_true act \<Longrightarrow> \<exists>f. AllowRule role res access f \<in> C"
  shows "granted_by C (acl_set act cb k acl')"
proof -
  obtain r s a where k: "k = acl_key3 r s a" "acl_isRole acl r" "acl_isResource acl s" "role = r \<or> role = ''*''"
      "res = s \<or> res = ''*''" "names_cover access a"
    using assms(3) unfolding rule_key_def by blast
  have old: "\<exists>r s a. k' = acl_key3 r s a \<and> acl_isRole acl' r \<and> acl_isResource acl' s \<and> (\<exists>c\<in>C. acl_grants c r s a)"
    if "map_of (acl_access acl') k' = Some v" "z_true v" for k' v
    using assms(1) that unfolding granted_by_def by blast
  have new: "\<exists>c\<in>C. acl_grants c r s a" if act: "z_true act"
  proof -
    obtain f where "AllowRule role res access f \<in> C" using assms(4) act by blast
    then show ?thesis using k(4-6) by (intro bexI [of _ "AllowRule role res access f"]) simp_all
  qed
  have fr: "acl_isRole (acl_set act cb k acl') = acl_isRole acl'" "acl_isResource (acl_set act cb k acl') = acl_isResource acl'"
    "acl_isRole acl' r" "acl_isResource acl' s"
    using acl_set_simps(3) [of acl' act cb k] assms(2) k(2,3) by (auto simp: frame_def acl_isRole_def acl_isResource_def fun_eq_iff)
  show ?thesis
    unfolding granted_by_def fr(1,2) acl_set_simps(1) map_of_arr_upd
  proof (intro allI impI)
    fix k' v assume k': "((map_of (acl_access acl'))(k \<mapsto> act)) k' = Some v" "z_true v"
    show "\<exists>r s a. k' = acl_key3 r s a \<and> acl_isRole acl' r \<and> acl_isResource acl' s \<and> (\<exists>c\<in>C. acl_grants c r s a)"
    proof (cases "k' = k")
      case True
      then show ?thesis using k' new k(1) fr(3,4) by auto
    next
      case False
      then show ?thesis using k' by (intro old) simp_all
    qed
  qed
qed

lemma granted_exec: "granted_by C acl \<Longrightarrow> c \<in> C \<Longrightarrow> granted_by C (acl_exec c acl)"
proof (induction c acl rule: acl_exec.induct)
  case (6 r s n f acl)
  then show ?case
    using rule_keeps [where P = "granted_by C" and acl = acl and act = "ZLong 1" and role = r and res = s and access = n and cb = f]
    by (auto simp: acl_allow_def intro: granted_set)
next
  case (7 r s n f acl)
  have "granted_by C (acl_set (ZLong 0) f k acl')" if "frame acl acl'" "granted_by C acl'" "rule_key r s n acl k" for k acl'
    by (rule granted_set [OF that(2,1,3)]) simp
  then show ?case
    using rule_keeps [where P = "granted_by C" and acl = acl and act = "ZLong 0" and role = r and res = s and access = n and cb = f] 7
    by (simp add: acl_deny_def)
qed (auto simp: acl_addRole_def acl_addInherit_def acl_addResource_def acl_addResourceAccess_def acl_dropResourceAccess_def
    acl_setDefaultAction_def Let_def split: option.splits elim!: granted_mono)

lemma granted_run: "granted_by (set cs) (acl_run cs)"
  unfolding acl_run_def
proof (rule fold_keeps [where P = "granted_by (set cs)"])
  show "granted_by (set cs) acl_new" by (simp add: granted_by_def acl_new_def)
qed (rule granted_exec)

lemma bang_split: "CHR ''!'' \<notin> set u \<Longrightarrow> CHR ''!'' \<notin> set u' \<Longrightarrow> u @ CHR ''!'' # v = u' @ CHR ''!'' # v' \<Longrightarrow> u = u' \<and> v = v'"
proof (induction u arbitrary: u')
  case Nil then show ?case by (cases u') auto
next
  case (Cons x u) then show ?case by (cases u') auto
qed

lemma key3_inject:
  assumes "CHR ''!'' \<notin> set r" "CHR ''!'' \<notin> set r'" "CHR ''!'' \<notin> set s" "CHR ''!'' \<notin> set s'" "acl_key3 r s a = acl_key3 r' s' a'"
  shows "r = r' \<and> s = s' \<and> a = a'"
  using bang_split [of r r' "s @ CHR ''!'' # a" "s' @ CHR ''!'' # a'"] bang_split [of s s' a a'] assms
  by (simp add: acl_key3_def)

lemma first_rule_allow: "first_rule access ks = Allow \<Longrightarrow> \<exists>k\<in>set ks. acl_decide access k = Allow"
proof (induction ks)
  case (Cons k ks)
  then show ?case by (cases "acl_decide access k") (auto simp: first_rule_def split: list.splits)
qed (simp add: first_rule_def)

text \<open>
  C35. After any calls without callbacks, when the names of the roles and resources
  (those of the list and those asked for) have no exclamation mark and no listener vetoes, a yes of \<open>isAllowed\<close>
  for a role of the list is backed by one of the calls of \<open>allow\<close>, for that role or all roles, that resource or
  all resources, and that access or all (or, for the empty access, with no access given at all). A role that is
  not in the list gets the default action, which may be a yes.
\<close>

theorem acl_no_grant_without_allow:
  assumes "acl_funcs (acl_run cs) = []" "\<forall>x. \<not> ae_cancel env x" "acl_isRole (acl_run cs) r"
    and "\<forall>u \<in> {r, s} \<union> set (acl_roles_names (acl_run cs)) \<union> set (acl_resources_names (acl_run cs)). CHR ''!'' \<notin> set u"
    and "map_option snd (acl_isAllowed env (Named r) (Named s) a data (acl_run cs)) = Some (Ret (ZBool True))"
  shows "\<exists>role res access f. AllowRule role res access f \<in> set cs \<and> (role = r \<or> role = ''*'') \<and>
    (res = s \<or> res = ''*'') \<and> (a \<in> set (names_list access) \<or> ''*'' \<in> set (names_list access) \<or> access = NoNames \<and> a = [])"
proof -
  let ?acl = "acl_run cs"
  let ?ks = "[acl_key3 r s a, acl_key3 r s ''*'', acl_key3 r ''*'' ''*'']"
  have "first_rule (acl_access ?acl) ?ks = Allow"
    using isAllowed_direct_rules [where env = env and s = s and a = a and data = data, OF assms(3,1)] assms(2,5) by simp
  then obtain k where k: "k \<in> set ?ks" "acl_decide (acl_access ?acl) k = Allow"
    using first_rule_allow by blast
  then obtain v where "map_of (acl_access ?acl) k = Some v" "z_true v"
    by (auto simp: acl_decide_def split: option.splits if_splits)
  then obtain r0 s0 a0 c where g: "k = acl_key3 r0 s0 a0" "acl_isRole ?acl r0" "acl_isResource ?acl s0" "c \<in> set cs" "acl_grants c r0 s0 a0"
    using granted_run unfolding granted_by_def by blast
  have "CHR ''!'' \<notin> set r0" "CHR ''!'' \<notin> set s0" "CHR ''!'' \<notin> set r" "CHR ''!'' \<notin> set s"
    using assms(4) g(2,3) unfolding acl_isRole_def acl_isResource_def by blast+
  note clean = this
  have "r0 = r \<and> s0 = s' \<and> a0 = a'" if "acl_key3 r s' a' = acl_key3 r0 s0 a0" "s' \<in> {s, ''*''}" for s' a'
  proof -
    have "CHR ''!'' \<notin> set s'" using that(2) clean(4) by auto
    from key3_inject [OF clean(3,1) this clean(2) that(1)] show ?thesis by simp
  qed
  moreover have "\<exists>s' a'. k = acl_key3 r s' a' \<and> (s' = s \<or> s' = ''*'') \<and> (a' = a \<or> a' = ''*'')"
    using k(1) by auto
  ultimately have "r0 = r \<and> (s0 = s \<or> s0 = ''*'') \<and> (a0 = a \<or> a0 = ''*'')"
    using g(1) by (metis insertCI)
  note fit = this
  from g(5) obtain role res access f where c: "c = AllowRule role res access f" "role = r0 \<or> role = ''*''"
      "res = s0 \<or> res = ''*''" "names_cover access a0"
    by (cases c) simp_all
  show ?thesis
    using g(4) c fit unfolding names_cover_def
    by (intro exI [of _ role] exI [of _ res] exI [of _ access] exI [of _ f]) auto
qed

theorem acl_no_grant_without_allow_witness:
  "\<exists>role res access f. AllowRule role res access f \<in> set acl_story \<and> (role = ''guest'' \<or> role = ''*'') \<and>
    (res = ''post'' \<or> res = ''*'') \<and> (''read'' \<in> set (names_list access) \<or> ''*'' \<in> set (names_list access) \<or> access = NoNames \<and> ''read'' = [])"
proof (rule acl_no_grant_without_allow [where env = env_plain and data = ZNull])
  show "map_option snd (acl_isAllowed env_plain (Named ''guest'') (Named ''post'') ''read'' ZNull (acl_run acl_story)) = Some (Ret (ZBool True))"
    by (subst isAllowed_direct [where v = "ZLong 1"]) (simp_all add: acl_story acl_isRole_def env_plain_def acl_key3_def)
qed (simp_all add: acl_story acl_isRole_def env_plain_def)

section \<open>Denying every access\<close>

lemma explode_clean: "CHR ''!'' \<notin> set u \<Longrightarrow> explode u = [u]"
  by (induction u) auto

lemma explode_bang: "CHR ''!'' \<notin> set u \<Longrightarrow> explode (u @ CHR ''!'' # v) = u # explode v"
  by (induction u) auto

lemma explode_key3:
  "CHR ''!'' \<notin> set r \<Longrightarrow> CHR ''!'' \<notin> set s \<Longrightarrow> CHR ''!'' \<notin> set a \<Longrightarrow> explode (acl_key3 r s a) = [r, s, a]"
  by (simp add: acl_key3_def explode_bang explode_clean)

lemma rewrite_access:
  "map_of (acl_access (acl_rewrite act cb r s k0 acl)) k \<in> {map_of (acl_access acl) k, Some act}"
  by (simp add: acl_rewrite_def Let_def)

lemma fold_rewrite_access:
  "map_of (acl_access (fold (acl_rewrite act cb r s) ks acl)) k \<in> {map_of (acl_access acl) k, Some act}"
proof (induction ks arbitrary: acl)
  case (Cons k0 ks)
  show ?case using Cons [of "acl_rewrite act cb r s k0 acl"] rewrite_access [of act cb r s k0 acl k] by auto
qed simp

lemma fold_rewrite_hit:
  assumes "k \<in> set ks" "k = acl_key3 r s a" "explode k = [r, s, a]"
  shows "map_of (acl_access (fold (acl_rewrite act cb r s) ks acl)) k = Some act"
  using assms(1)
proof (induction ks arbitrary: acl)
  case (Cons k0 ks)
  show ?case
  proof (cases "k0 = k")
    case True
    have "map_of (acl_access (acl_rewrite act cb r s k acl)) k = Some act"
      using assms(2,3) by (simp add: acl_rewrite_def Let_def)
    then show ?thesis using fold_rewrite_access [of act cb r s ks "acl_rewrite act cb r s k acl" k] True by auto
  qed (use Cons in auto)
qed simp

lemma rule_star:
  assumes "r \<noteq> ''*''" "s \<noteq> ''*''" "acl_isRole acl r" "acl_isResource acl s"
  shows "fst (acl_rule act r s (OneName ''*'') cb acl) =
    (let acl = acl_set act cb (acl_key3 r s ''*'') acl in fold (acl_rewrite act cb r s) (map fst (acl_access acl)) acl)"
  using assms by (simp add: acl_rule_def acl_role_rule_def acl_allowOrDeny_def Let_def)

lemma run_snoc: "acl_run (cs @ [c]) = acl_exec c (acl_run cs)"
  by (simp add: acl_run_def)

lemma deny_funcs: "acl_funcs acl = [] \<Longrightarrow> acl_funcs (fst (acl_rule act r s n ZNull acl)) = []"
  using rule_keeps [where P = "\<lambda>acl. acl_funcs acl = []" and cb = ZNull] by simp

text \<open>
  C36. After any calls without callbacks, \<open>deny\<close> of \<open>*\<close> for a role and a resource makes \<open>isAllowed\<close> say no
  for every access of that resource to that role, those allowed one by one before included, when none of the three names has
  an exclamation mark.
\<close>

theorem acl_deny_all_revokes:
  assumes "acl_funcs (acl_run cs) = []" "\<forall>x. \<not> ae_cancel env x" "r \<noteq> ''*''" "s \<noteq> ''*''"
    and "acl_isRole (acl_run cs) r" "acl_isResource (acl_run cs) s"
    and "CHR ''!'' \<notin> set r" "CHR ''!'' \<notin> set s" "CHR ''!'' \<notin> set a"
  shows "map_option snd (acl_isAllowed env (Named r) (Named s) a data (acl_run (cs @ [DenyRule r s (OneName ''*'') ZNull]))) =
    Some (Ret (ZBool False))"
proof -
  let ?cs = "cs @ [DenyRule r s (OneName ''*'') ZNull]"
  let ?acl = "acl_set (ZLong 0) ZNull (acl_key3 r s ''*'') (acl_run cs)"
  have run: "acl_run ?cs = fold (acl_rewrite (ZLong 0) ZNull r s) (map fst (acl_access ?acl)) ?acl"
    using rule_star [OF assms(3-6)] by (simp add: run_snoc acl_deny_def Let_def)
  have star: "map_of (acl_access (acl_run ?cs)) (acl_key3 r s ''*'') = Some (ZLong 0)"
    unfolding run using fold_rewrite_access [of "ZLong 0" ZNull r s "map fst (acl_access ?acl)" ?acl "acl_key3 r s ''*''"] by simp
  have one: "map_of (acl_access (acl_run ?cs)) (acl_key3 r s a) \<in> {None, Some (ZLong 0)}"
  proof (cases "acl_key3 r s a \<in> set (map fst (acl_access ?acl))")
    case True
    then show ?thesis
      unfolding run using fold_rewrite_hit [OF True refl explode_key3] assms(7-9) by blast
  next
    case False
    then have "map_of (acl_access ?acl) (acl_key3 r s a) = None" unfolding map_of_eq_None_iff set_map .
    then show ?thesis
      unfolding run using fold_rewrite_access [of "ZLong 0" ZNull r s "map fst (acl_access ?acl)" ?acl "acl_key3 r s a"] by simp
  qed
  have role: "acl_isRole (acl_run ?cs) r"
    using rule_keeps [of "\<lambda>_. True" "acl_run cs" r s "OneName ''*''" "ZLong 0" ZNull] assms(5)
    by (simp add: run_snoc acl_deny_def frame_def acl_isRole_def)
  have funcs: "acl_funcs (acl_run ?cs) = []" using deny_funcs [OF assms(1)] by (simp add: run_snoc acl_deny_def)
  have "acl_decide (acl_access (acl_run ?cs)) (acl_key3 r s ''*'') = Deny"
    "acl_decide (acl_access (acl_run ?cs)) (acl_key3 r s a) \<in> {Dunno, Deny}"
    using star one by (auto simp: acl_decide_def)
  then have "first_rule (acl_access (acl_run ?cs)) [acl_key3 r s a, acl_key3 r s ''*'', acl_key3 r ''*'' ''*''] = Deny"
    by (auto simp: first_rule_def)
  then show ?thesis
    using isAllowed_direct_rules [where cs = ?cs and env = env and s = s and a = a and data = data, OF role funcs] assms(2) by simp
qed

theorem acl_deny_all_revokes_witness:
  "map_option snd (acl_isAllowed env_plain (Named ''guest'') (Named ''post'') ''read'' ZNull
     (acl_run (acl_story @ [DenyRule ''guest'' ''post'' (OneName ''*'') ZNull]))) = Some (Ret (ZBool False))"
  by (rule acl_deny_all_revokes) (simp_all add: acl_story acl_isRole_def acl_isResource_def env_plain_def)

text \<open>
  An access whose name has an exclamation mark keeps its permission: the keys are taken apart at the marks,
  and only the first part of the access is put back.
\<close>

definition acl_bang_story :: "acl_cmd list" where
  "acl_bang_story = [AddRole (Named ''guest'') None, AddResource (Named ''post'') (OneName ''a!b''),
     AllowRule ''guest'' ''post'' (OneName ''a!b'') ZNull, DenyRule ''guest'' ''post'' (OneName ''*'') ZNull]"

theorem acl_deny_all_misses_bang:
  "map_option snd (acl_isAllowed env_plain (Named ''guest'') (Named ''post'') ''a!b'' ZNull (acl_run acl_bang_story)) =
    Some (Ret (ZBool True))"
proof -
  have "acl_isRole (acl_run acl_bang_story) ''guest''" "acl_funcs (acl_run acl_bang_story) = []"
    "map_of (acl_access (acl_run acl_bang_story)) (acl_key3 ''guest'' ''post'' ''a!b'') = Some (ZLong 1)"
    by (simp_all add: acl_run_def acl_bang_story_def acl_new_def acl_addRole_def acl_addResource_def acl_addResourceAccess_def
        acl_allow_def acl_deny_def acl_rule_def acl_role_rule_def acl_allowOrDeny_def acl_set_def acl_rewrite_def acl_isRole_def
        acl_isResource_def acl_add_key_def acl_key2_def acl_key3_def Let_def)
  then show ?thesis by (subst isAllowed_direct [where v = "ZLong 1"]) (simp_all add: env_plain_def)
qed

section \<open>Callbacks\<close>

lemma isAllowed_callback:
  assumes "acl_isRole acl r" "\<forall>x. \<not> ae_cancel env x" "map_of (acl_funcs acl) (acl_key3 r s a) = Some f"
    and "map_of (acl_access acl) (acl_key3 r s a) = Some v"
  shows "map_option snd (acl_isAllowed env (Named r) (Named s) a data acl) =
    Some (Ret (ZBool (z_true v = ae_call env f (Named r) (Named s) a data (if z_true v then Allow else Deny))))"
  using assms by (simp add: acl_isAllowed_def acl_search_def acl_level_def acl_decide_def acl_isRole_def Let_def)

text \<open>
  When an earlier \<open>allow\<close> of the same role, resource and access came with a
  callback, a later \<open>deny\<close> without one keeps that callback, and as the answer of a callback
  that returns false is the opposite of the rule, \<open>isAllowed\<close> then says yes exactly when the callback returns false.
\<close>

theorem acl_deny_callback_grants:
  assumes "r \<noteq> ''*''" "s \<noteq> ''*''" "a \<noteq> ''*''" "acl_isRole acl r" "acl_isResource acl s" "acl_key2 s a \<in> set (acl_access_list acl)"
    and "\<forall>x. \<not> ae_cancel env x" "f \<noteq> ZNull"
  shows "map_option snd (acl_isAllowed env (Named r) (Named s) a data
      (fst (acl_deny r s (OneName a) ZNull (fst (acl_allow r s (OneName a) f acl))))) =
    Some (Ret (ZBool (\<not> ae_call env f (Named r) (Named s) a data Deny)))"
proof -
  let ?k = "acl_key3 r s a" and ?acl1 = "acl_set (ZLong 1) f (acl_key3 r s a) acl"
  have "frame acl ?acl1" by simp
  then have one: "fst (acl_allow r s (OneName a) f acl) = ?acl1" "acl_isRole ?acl1 r" "acl_isResource ?acl1 s"
    "acl_key2 s a \<in> set (acl_access_list ?acl1)"
    using assms(4-6) rule_one [OF assms(1-6)] by (simp_all only: acl_allow_def fst_conv frame_def acl_isRole_def acl_isResource_def)
  have two: "fst (acl_deny r s (OneName a) ZNull ?acl1) = acl_set (ZLong 0) ZNull ?k ?acl1"
    using rule_one [OF assms(1-3) one(2-4)] by (simp only: acl_deny_def fst_conv)
  have fr: "acl_isRole (acl_set (ZLong 0) ZNull ?k ?acl1) r"
    using one(2) acl_set_simps(3) [of ?acl1 "ZLong 0" ZNull ?k] by (simp only: frame_def acl_isRole_def)
  show ?thesis
    unfolding one(1) two by (subst isAllowed_callback [where v = "ZLong 0" and f = f, OF fr assms(7)]) (use assms(8) in simp_all)
qed

theorem acl_deny_callback_grants_witness:
  "map_option snd (acl_isAllowed env_plain (Named ''guest'') (Named ''post'') ''edit'' ZNull
      (fst (acl_deny ''guest'' ''post'' (OneName ''edit'') ZNull (fst (acl_allow ''guest'' ''post'' (OneName ''edit'') (ZObj 5) (acl_run acl_story)))))) =
    Some (Ret (ZBool True))"
  by (subst acl_deny_callback_grants) (simp_all add: acl_story acl_isRole_def acl_isResource_def acl_key2_def env_plain_def)

section \<open>Wildcards without roles or resources\<close>

text \<open>
  A rule for all roles of a list without roles, and a rule that takes effect for all resources of a
  list without resources, dereference the null array.
\<close>

theorem acl_wildcard_crash:
  assumes "acl_roles_names acl0 = []" "acl_resources acl = []" "acl_isRole acl r" "r \<noteq> ''*''" "acl_isResource acl ''*''"
  shows "snd (acl_rule act ''*'' s access cb acl0) = Crash \<and> snd (acl_rule act r ''*'' (OneName a) cb acl) = Crash"
  using assms by (simp add: acl_rule_def acl_role_rule_def acl_allowOrDeny_def acl_set_def Let_def)

theorem acl_wildcard_crash_witness:
  "snd (acl_allow ''*'' ''post'' (OneName ''read'') ZNull acl_new) = Crash \<and>
   snd (acl_allow ''guest'' ''*'' (OneName ''read'') ZNull (fst (acl_addRole (Named ''guest'') None acl_new))) = Crash"
  unfolding acl_allow_def
  by (rule acl_wildcard_crash) (simp_all add: acl_new_def acl_addRole_def acl_isRole_def acl_isResource_def Let_def)

section \<open>The search through inherited roles\<close>

definition inherits_rel :: "(string \<times> string list) list option \<Rightarrow> (string \<times> string) set" where
  "inherits_rel inh = {(r, p). p \<in> set (acl_parents inh r)}"

lemma inherits_finite: "finite (inherits_rel inh)"
proof (cases inh)
  case (Some m)
  have "inherits_rel inh \<subseteq> (\<Union>(r, ps)\<in>set m. {r} \<times> set ps)"
  proof
    fix x assume "x \<in> inherits_rel inh"
    then obtain r p where rp: "x = (r, p)" "p \<in> set (acl_parents (Some m) r)"
      using Some by (auto simp: inherits_rel_def)
    then obtain ps where "map_of m r = Some ps" "p \<in> set ps"
      by (cases "map_of m r") (simp_all add: acl_parents_def)
    with rp(1) show "x \<in> (\<Union>(r, ps)\<in>set m. {r} \<times> set ps)" by (auto dest!: map_of_SomeD)
  qed
  then show ?thesis by (rule finite_subset) auto
qed (simp add: inherits_rel_def acl_parents_def)

text \<open>What the search over a list of roles returns: the rule of one of them or of their ancestors.\<close>

definition searched :: "(string \<times> zval) list \<Rightarrow> (string \<times> string list) list option \<Rightarrow> string \<Rightarrow> string \<Rightarrow> string list \<Rightarrow> bool" where
  "searched access inh res acc ps \<longleftrightarrow> (\<exists>d. acl_check_list access inh res acc ps = Some d \<and>
     (if d = Dunno then \<forall>p\<in>set ps. \<forall>q. (p, q) \<in> (inherits_rel inh)\<^sup>* \<longrightarrow> acl_decide access (acl_key3 q res acc) = Dunno
      else \<exists>p\<in>set ps. \<exists>q. (p, q) \<in> (inherits_rel inh)\<^sup>* \<and> acl_decide access (acl_key3 q res acc) = d))"

lemma searched_list:
  assumes "\<And>p. p \<in> set ps \<Longrightarrow> searched access inh res acc (acl_parents inh p)"
  shows "searched access inh res acc ps"
  using assms
proof (induction ps)
  case Nil then show ?case by (simp add: searched_def check_nil)
next
  case (Cons p ps)
  let ?dec = "\<lambda>q. acl_decide access (acl_key3 q res acc)"
  obtain d where d: "acl_check_list access inh res acc ps = Some d"
    "if d = Dunno then \<forall>p\<in>set ps. \<forall>q. (p, q) \<in> (inherits_rel inh)\<^sup>* \<longrightarrow> ?dec q = Dunno
     else \<exists>p\<in>set ps. \<exists>q. (p, q) \<in> (inherits_rel inh)\<^sup>* \<and> ?dec q = d"
    using Cons unfolding searched_def by force
  obtain e where e: "acl_check_list access inh res acc (acl_parents inh p) = Some e"
    "if e = Dunno then \<forall>p\<in>set (acl_parents inh p). \<forall>q. (p, q) \<in> (inherits_rel inh)\<^sup>* \<longrightarrow> ?dec q = Dunno
     else \<exists>p\<in>set (acl_parents inh p). \<exists>q. (p, q) \<in> (inherits_rel inh)\<^sup>* \<and> ?dec q = e"
    using Cons.prems [of p] unfolding searched_def by auto
  have edge: "(p, p') \<in> inherits_rel inh \<longleftrightarrow> p' \<in> set (acl_parents inh p)" for p' by (simp add: inherits_rel_def)
  consider "?dec p \<noteq> Dunno" | "?dec p = Dunno" "e \<noteq> Dunno" | "?dec p = Dunno" "e = Dunno" by blast
  then show ?case
  proof cases
    case 1
    then have "acl_check_list access inh res acc (p # ps) = Some (?dec p)"
      by (subst acl_check_list.simps) simp
    then show ?thesis using 1 unfolding searched_def by auto
  next
    case 2
    then have "acl_check_list access inh res acc (p # ps) = Some e"
      using e(1) by (subst acl_check_list.simps) simp
    moreover have "\<exists>q. (p, q) \<in> (inherits_rel inh)\<^sup>* \<and> ?dec q = e"
      using e(2) 2(2) edge by (auto intro: converse_rtrancl_into_rtrancl)
    ultimately show ?thesis using 2(2) unfolding searched_def by auto
  next
    case 3
    then have "acl_check_list access inh res acc (p # ps) = Some d"
      using e(1) d(1) by (subst acl_check_list.simps) simp
    moreover have "?dec q = Dunno" if "(p, q) \<in> (inherits_rel inh)\<^sup>*" for q
      using that
    proof (cases rule: converse_rtranclE)
      case base then show ?thesis using 3(1) by simp
    next
      case (step y) then show ?thesis using e(2) 3(2) edge by auto
    qed
    ultimately show ?thesis using d(2) unfolding searched_def by auto
  qed
qed

lemma searched_acyclic:
  assumes "acyclic (inherits_rel inh)"
  shows "searched access inh res acc (acl_parents inh r)"
proof -
  have "wf ((inherits_rel inh)\<inverse>)" using finite_acyclic_wf_converse [OF inherits_finite assms] .
  then show ?thesis
  proof (induction r rule: wf_induct_rule)
    case (less r)
    show ?case by (rule searched_list, rule less) (simp add: inherits_rel_def)
  qed
qed

text \<open>
  C39. When no role inherits from itself in any number of steps, the search through the inherited
  roles ends. It finds nothing exactly when no ancestor of the role has a rule for the key, and otherwise it
  returns the decision of one of the ancestors.
\<close>

theorem acl_inheritance_search:
  assumes "acyclic (inherits_rel (acl_role_inherits acl))"
  shows "\<exists>d. acl_check_inheritance acl (Named r) res acc = Some d \<and>
    (if d = Dunno then \<forall>q. (r, q) \<in> (inherits_rel (acl_role_inherits acl))\<^sup>+ \<longrightarrow> acl_decide (acl_access acl) (acl_key3 q res acc) = Dunno
     else \<exists>q. (r, q) \<in> (inherits_rel (acl_role_inherits acl))\<^sup>+ \<and> acl_decide (acl_access acl) (acl_key3 q res acc) = d)"
proof -
  let ?R = "inherits_rel (acl_role_inherits acl)"
  have tr: "(r, q) \<in> ?R\<^sup>+ \<longleftrightarrow> (\<exists>p \<in> set (acl_parents (acl_role_inherits acl) r). (p, q) \<in> ?R\<^sup>*)" for q
    by (subst trancl_unfold_left) (auto simp: inherits_rel_def)
  show ?thesis
    using searched_acyclic [OF assms, of "acl_access acl" res acc r] unfolding searched_def acl_check_inheritance_def
    by (simp add: tr) metis
qed

theorem acl_inheritance_search_witness:
  "\<exists>d. acl_check_inheritance (acl_new\<lparr>acl_role_inherits := Some [(''c'', [''b'']), (''b'', [''a''])],
      acl_access := [(''a!post!read'', ZLong 1)]\<rparr>) (Named ''c'') ''post'' ''read'' = Some d"
proof -
  have "inherits_rel (Some [(''c'', [''b'']), (''b'', [''a''])]) \<subseteq> {(''c'', ''b''), (''b'', ''a'')}"
    by (auto simp: inherits_rel_def acl_parents_def split: if_splits)
  moreover have "acyclic {(''c'', ''b''), (''b'', ''a'')}"
    by (simp add: acyclic_insert rtrancl_insert wf_acyclic)
  ultimately have "acyclic (inherits_rel (Some [(''c'', [''b'']), (''b'', [''a''])]))" by (rule acyclic_subset [rotated])
  then show ?thesis
    using acl_inheritance_search [of "acl_new\<lparr>acl_role_inherits := Some [(''c'', [''b'']), (''b'', [''a''])],
      acl_access := [(''a!post!read'', ZLong 1)]\<rparr>" "''c''" "''post''" "''read''"] by fastforce
qed

text \<open>Two roles that inherit from each other and have no rule: the search calls itself without end.\<close>

lemma cycle_no_result:
  "acl_check_list access inh res acc ps = Some d \<Longrightarrow>
   acl_parents inh p = [q] \<and> acl_parents inh q = [p] \<and> acl_decide access (acl_key3 p res acc) = Dunno \<and>
   acl_decide access (acl_key3 q res acc) = Dunno \<longrightarrow> ps \<noteq> [p] \<and> ps \<noteq> [q]"
proof (erule acl_check_list.raw_induct [rotated])
  fix search access inh res acc ps d
  assume IH: "\<And>access inh res acc ps d. search access inh res acc ps = Some d \<Longrightarrow>
      acl_parents inh p = [q] \<and> acl_parents inh q = [p] \<and> acl_decide access (acl_key3 p res acc) = Dunno \<and>
      acl_decide access (acl_key3 q res acc) = Dunno \<longrightarrow> ps \<noteq> [p] \<and> ps \<noteq> [q]"
    and step: "(if ps = [] then Some Dunno
      else Option.bind
        (if acl_decide access (acl_key3 (hd ps) res acc) \<noteq> Dunno then Some (acl_decide access (acl_key3 (hd ps) res acc))
         else search access inh res acc (acl_parents inh (hd ps)))
        (\<lambda>d. if d \<noteq> Dunno then Some d else search access inh res acc (tl ps))) = Some d"
  show "acl_parents inh p = [q] \<and> acl_parents inh q = [p] \<and> acl_decide access (acl_key3 p res acc) = Dunno \<and>
      acl_decide access (acl_key3 q res acc) = Dunno \<longrightarrow> ps \<noteq> [p] \<and> ps \<noteq> [q]"
    using step by (auto simp: bind_eq_Some_conv dest!: IH)
qed

text \<open>
  When two roles inherit from each other and neither has a rule for the key, the search never
  returns: nothing in \<open>addInherit\<close> or in the search looks for a cycle.
\<close>

theorem acl_cycle_diverges:
  assumes "acl_parents (acl_role_inherits acl) p = [q]" "acl_parents (acl_role_inherits acl) q = [p]"
    and "acl_decide (acl_access acl) (acl_key3 p res acc) = Dunno" "acl_decide (acl_access acl) (acl_key3 q res acc) = Dunno"
  shows "acl_check_inheritance acl (Named p) res acc = None"
  using cycle_no_result [of "acl_access acl" "acl_role_inherits acl" res acc "[q]" _ p q] assms
  by (cases "acl_check_list (acl_access acl) (acl_role_inherits acl) res acc [q]") (auto simp: acl_check_inheritance_def)

text \<open>The two roles are accepted by \<open>addInherit\<close> once the array of parents exists.\<close>

theorem acl_cycle_diverges_witness:
  "acl_check_inheritance (acl_exec (AddInherit ''b'' (Named ''a'')) (acl_exec (AddInherit ''a'' (Named ''b''))
     (acl_new\<lparr>acl_roles_names := [''a'', ''b''], acl_role_inherits := Some []\<rparr>))) (Named ''a'') ''post'' ''read'' = None"
  by (rule acl_cycle_diverges [where q = "''b''"])
    (simp_all add: acl_addInherit_def acl_isRole_def acl_new_def dao_array_append_multi_2_def acl_parents_def acl_decide_def)

end
