(* ===== verification/RbTree.thy ===== *)
theory RbTree imports Prelude begin

text \<open>
  The red-black tree of \<open>kernel/rbtree.c\<close> and \<open>kernel/rbtree.h\<close>, on memory: a node is the address of its
  three words, the colour is the lowest bit of the word that holds the parent, and NULL is the address 0.
  The result \<open>None\<close> of a function is that it dereferences NULL or never returns.
\<close>

section \<open>Nodes and links\<close>

record rb_node =
  parent_color :: u64
  rb_right :: u64
  rb_left :: u64

record rbtree =
  rb_mem :: "u64 \<Rightarrow> rb_node"
  rb_root :: u64

definition upd_node :: "u64 \<Rightarrow> (rb_node \<Rightarrow> rb_node) \<Rightarrow> rbtree \<Rightarrow> rbtree" where
  "upd_node x f s = s\<lparr>rb_mem := (rb_mem s)(x := f (rb_mem s x))\<rparr>"

definition get_left :: "rbtree \<Rightarrow> u64 \<Rightarrow> u64" where "get_left s x = rb_left (rb_mem s x)"

definition get_right :: "rbtree \<Rightarrow> u64 \<Rightarrow> u64" where "get_right s x = rb_right (rb_mem s x)"

definition set_left :: "u64 \<Rightarrow> u64 \<Rightarrow> rbtree \<Rightarrow> rbtree" where "set_left x v = upd_node x (rb_left_update (\<lambda>_. v))"

definition set_right :: "u64 \<Rightarrow> u64 \<Rightarrow> rbtree \<Rightarrow> rbtree" where "set_right x v = upd_node x (rb_right_update (\<lambda>_. v))"

definition set_root :: "u64 \<Rightarrow> rbtree \<Rightarrow> rbtree" where "set_root v s = s\<lparr>rb_root := v\<rparr>"

definition dao_rbtree_parent :: "rbtree \<Rightarrow> u64 \<Rightarrow> u64" where
  "dao_rbtree_parent s r = parent_color (rb_mem s r) AND NOT 3"

definition dao_rbtree_color :: "rbtree \<Rightarrow> u64 \<Rightarrow> u64" where
  "dao_rbtree_color s r = parent_color (rb_mem s r) AND 1"

definition dao_rbtree_is_red :: "rbtree \<Rightarrow> u64 \<Rightarrow> bool" where
  "dao_rbtree_is_red s r \<longleftrightarrow> dao_rbtree_color s r = 0"

definition dao_rbtree_is_black :: "rbtree \<Rightarrow> u64 \<Rightarrow> bool" where
  "dao_rbtree_is_black s r \<longleftrightarrow> dao_rbtree_color s r \<noteq> 0"

definition dao_rbtree_set_red :: "u64 \<Rightarrow> rbtree \<Rightarrow> rbtree" where
  "dao_rbtree_set_red r = upd_node r (parent_color_update (\<lambda>pc. pc AND NOT 1))"

definition dao_rbtree_set_black :: "u64 \<Rightarrow> rbtree \<Rightarrow> rbtree" where
  "dao_rbtree_set_black r = upd_node r (parent_color_update (\<lambda>pc. pc OR 1))"

definition dao_rbtree_set_parent :: "u64 \<Rightarrow> u64 \<Rightarrow> rbtree \<Rightarrow> rbtree" where
  "dao_rbtree_set_parent rb p = upd_node rb (parent_color_update (\<lambda>pc. (pc AND 3) OR p))"

definition dao_rbtree_set_color :: "u64 \<Rightarrow> u64 \<Rightarrow> rbtree \<Rightarrow> rbtree" where
  "dao_rbtree_set_color rb color = upd_node rb (parent_color_update (\<lambda>pc. (pc AND NOT 1) OR color))"

definition dao_rbtree_init :: "rbtree \<Rightarrow> rbtree" where "dao_rbtree_init s = set_root 0 s"

definition dao_rbtree_init_node :: "u64 \<Rightarrow> rbtree \<Rightarrow> rbtree" where
  "dao_rbtree_init_node rb s =
     (let s = upd_node rb (parent_color_update (\<lambda>_. 0)) s;
          s = set_right rb 0 s;
          s = set_left rb 0 s
      in dao_rbtree_set_parent rb rb s)"

text \<open>The place a pointer to a node is stored in.\<close>

datatype rb_link = RootLink | LeftLink u64 | RightLink u64

fun read_link :: "rbtree \<Rightarrow> rb_link \<Rightarrow> u64" where
  "read_link s RootLink = rb_root s"
| "read_link s (LeftLink p) = get_left s p"
| "read_link s (RightLink p) = get_right s p"

fun write_link :: "rb_link \<Rightarrow> u64 \<Rightarrow> rbtree \<Rightarrow> rbtree" where
  "write_link RootLink v s = set_root v s"
| "write_link (LeftLink p) v s = set_left p v s"
| "write_link (RightLink p) v s = set_right p v s"

definition dao_rbtree_link_node :: "u64 \<Rightarrow> u64 \<Rightarrow> rb_link \<Rightarrow> rbtree \<Rightarrow> rbtree" where
  "dao_rbtree_link_node node parent link s =
     (let s = upd_node node (parent_color_update (\<lambda>_. parent)) s;
          s = set_right node 0 s;
          s = set_left node 0 s
      in write_link link node s)"

section \<open>Rotations\<close>

definition rotate_left :: "u64 \<Rightarrow> rbtree \<Rightarrow> rbtree option" where
  "rotate_left node s =
     (let right = get_right s node; parent = dao_rbtree_parent s node in
      if right = 0 then None
      else
        (let s = set_right node (get_left s right) s;
             s = (if get_right s node \<noteq> 0 then dao_rbtree_set_parent (get_left s right) node s else s);
             s = set_left right node s;
             s = dao_rbtree_set_parent right parent s;
             s = (if parent \<noteq> 0
                  then (if node = get_left s parent then set_left parent right s else set_right parent right s)
                  else set_root right s)
         in Some (dao_rbtree_set_parent node right s)))"

definition rotate_right :: "u64 \<Rightarrow> rbtree \<Rightarrow> rbtree option" where
  "rotate_right node s =
     (let left = get_left s node; parent = dao_rbtree_parent s node in
      if left = 0 then None
      else
        (let s = set_left node (get_right s left) s;
             s = (if get_left s node \<noteq> 0 then dao_rbtree_set_parent (get_right s left) node s else s);
             s = set_right left node s;
             s = dao_rbtree_set_parent left parent s;
             s = (if parent \<noteq> 0
                  then (if node = get_right s parent then set_right parent left s else set_left parent left s)
                  else set_root left s)
         in Some (dao_rbtree_set_parent node left s)))"

section \<open>Insertion\<close>

partial_function (option) rb_insert_loop :: "u64 \<Rightarrow> rbtree \<Rightarrow> rbtree option" where
  "rb_insert_loop node s =
     (let parent = dao_rbtree_parent s node in
      if parent \<noteq> 0 \<and> dao_rbtree_is_red s parent then
        (let gparent = dao_rbtree_parent s parent in
         if gparent = 0 then None
         else if parent = get_left s gparent then
           (let uncle = get_right s gparent in
            if uncle \<noteq> 0 \<and> dao_rbtree_is_red s uncle then
              rb_insert_loop gparent (dao_rbtree_set_red gparent (dao_rbtree_set_black parent (dao_rbtree_set_black uncle s)))
            else
              Option.bind
                (if get_right s parent = node then map_option (\<lambda>s. (s, node, parent)) (rotate_left parent s)
                 else Some (s, parent, node))
                (\<lambda>(s, parent, node).
                  Option.bind (rotate_right gparent (dao_rbtree_set_red gparent (dao_rbtree_set_black parent s)))
                    (\<lambda>s. rb_insert_loop node s)))
         else
           (let uncle = get_left s gparent in
            if uncle \<noteq> 0 \<and> dao_rbtree_is_red s uncle then
              rb_insert_loop gparent (dao_rbtree_set_red gparent (dao_rbtree_set_black parent (dao_rbtree_set_black uncle s)))
            else
              Option.bind
                (if get_left s parent = node then map_option (\<lambda>s. (s, node, parent)) (rotate_right parent s)
                 else Some (s, parent, node))
                (\<lambda>(s, parent, node).
                  Option.bind (rotate_left gparent (dao_rbtree_set_red gparent (dao_rbtree_set_black parent s)))
                    (\<lambda>s. rb_insert_loop node s))))
      else Some s)"

definition dao_rbtree_insert_color :: "u64 \<Rightarrow> rbtree \<Rightarrow> rbtree option" where
  "dao_rbtree_insert_color node s =
     Option.bind (rb_insert_loop node s) (\<lambda>s. if rb_root s = 0 then None else Some (dao_rbtree_set_black (rb_root s) s))"

text \<open>The search for the place: an equal node, or the parent and the link of the new one.\<close>

partial_function (option) rb_find_link ::
    "(u64 \<Rightarrow> u64 \<Rightarrow> int) \<Rightarrow> u64 \<Rightarrow> rbtree \<Rightarrow> rb_link \<Rightarrow> u64 \<Rightarrow> (u64 + u64 \<times> rb_link) option" where
  "rb_find_link cmp node s link parent =
     (let n = read_link s link in
      if n = 0 then Some (Inr (parent, link))
      else if cmp node n < 0 then rb_find_link cmp node s (LeftLink n) n
      else if cmp node n > 0 then rb_find_link cmp node s (RightLink n) n
      else Some (Inl n))"

definition dao_rbtree_insert :: "u64 \<Rightarrow> (u64 \<Rightarrow> u64 \<Rightarrow> int) \<Rightarrow> rbtree \<Rightarrow> (u64 \<times> rbtree) option" where
  "dao_rbtree_insert node cmp s =
     Option.bind (rb_find_link cmp node s RootLink 0) (\<lambda>r.
       case r of
         Inl n \<Rightarrow> Some (n, s)
       | Inr (parent, link) \<Rightarrow>
           map_option (\<lambda>s. (read_link s link, s)) (dao_rbtree_insert_color node (dao_rbtree_link_node node parent link s)))"

partial_function (option) rb_lookup_loop :: "(u64 \<Rightarrow> u64 \<Rightarrow> int) \<Rightarrow> u64 \<Rightarrow> rbtree \<Rightarrow> u64 \<Rightarrow> u64 option" where
  "rb_lookup_loop cmp key s node =
     (if node = 0 then Some 0
      else if cmp key node < 0 then rb_lookup_loop cmp key s (get_left s node)
      else if cmp key node > 0 then rb_lookup_loop cmp key s (get_right s node)
      else Some node)"

definition dao_rbtree_lookup :: "u64 \<Rightarrow> (u64 \<Rightarrow> u64 \<Rightarrow> int) \<Rightarrow> rbtree \<Rightarrow> u64 option" where
  "dao_rbtree_lookup key cmp s = rb_lookup_loop cmp key s (rb_root s)"

section \<open>Removal\<close>

partial_function (option) rb_remove_loop :: "u64 \<Rightarrow> u64 \<Rightarrow> rbtree \<Rightarrow> (u64 \<times> rbtree) option" where
  "rb_remove_loop node parent s =
     (if (node = 0 \<or> dao_rbtree_is_black s node) \<and> node \<noteq> rb_root s then
        if parent = 0 then None
        else if get_left s parent = node then
          (let other = get_right s parent in
           if other = 0 then None
           else
             Option.bind
               (if dao_rbtree_is_red s other
                then map_option (\<lambda>s. (get_right s parent, s)) (rotate_left parent (dao_rbtree_set_red parent (dao_rbtree_set_black other s)))
                else Some (other, s))
               (\<lambda>(other, s).
                 if other = 0 then None
                 else if (get_left s other = 0 \<or> dao_rbtree_is_black s (get_left s other)) \<and>
                         (get_right s other = 0 \<or> dao_rbtree_is_black s (get_right s other)) then
                   (let s = dao_rbtree_set_red other s in rb_remove_loop parent (dao_rbtree_parent s parent) s)
                 else
                   Option.bind
                     (if get_right s other = 0 \<or> dao_rbtree_is_black s (get_right s other) then
                        if get_left s other = 0 then None
                        else map_option (\<lambda>s. (get_right s parent, s))
                               (rotate_right other (dao_rbtree_set_red other (dao_rbtree_set_black (get_left s other) s)))
                      else Some (other, s))
                     (\<lambda>(other, s).
                       if other = 0 then None
                       else
                         (let s = dao_rbtree_set_color other (dao_rbtree_color s parent) s;
                              s = dao_rbtree_set_black parent s
                          in if get_right s other = 0 then None
                             else map_option (\<lambda>s. (rb_root s, s)) (rotate_left parent (dao_rbtree_set_black (get_right s other) s))))))
        else
          (let other = get_left s parent in
           if other = 0 then None
           else
             Option.bind
               (if dao_rbtree_is_red s other
                then map_option (\<lambda>s. (get_left s parent, s)) (rotate_right parent (dao_rbtree_set_red parent (dao_rbtree_set_black other s)))
                else Some (other, s))
               (\<lambda>(other, s).
                 if other = 0 then None
                 else if (get_left s other = 0 \<or> dao_rbtree_is_black s (get_left s other)) \<and>
                         (get_right s other = 0 \<or> dao_rbtree_is_black s (get_right s other)) then
                   (let s = dao_rbtree_set_red other s in rb_remove_loop parent (dao_rbtree_parent s parent) s)
                 else
                   Option.bind
                     (if get_left s other = 0 \<or> dao_rbtree_is_black s (get_left s other) then
                        if get_right s other = 0 then None
                        else map_option (\<lambda>s. (get_left s parent, s))
                               (rotate_left other (dao_rbtree_set_red other (dao_rbtree_set_black (get_right s other) s)))
                      else Some (other, s))
                     (\<lambda>(other, s).
                       if other = 0 then None
                       else
                         (let s = dao_rbtree_set_color other (dao_rbtree_color s parent) s;
                              s = dao_rbtree_set_black parent s
                          in if get_left s other = 0 then None
                             else map_option (\<lambda>s. (rb_root s, s)) (rotate_right parent (dao_rbtree_set_black (get_left s other) s))))))
      else Some (node, s))"

definition dao_rbtree_remove_color :: "u64 \<Rightarrow> u64 \<Rightarrow> rbtree \<Rightarrow> rbtree option" where
  "dao_rbtree_remove_color node parent s =
     map_option (\<lambda>(node, s). if node \<noteq> 0 then dao_rbtree_set_black node s else s) (rb_remove_loop node parent s)"

partial_function (option) rb_leftmost :: "rbtree \<Rightarrow> u64 \<Rightarrow> u64 option" where
  "rb_leftmost s n = (if get_left s n = 0 then Some n else rb_leftmost s (get_left s n))"

partial_function (option) rb_rightmost :: "rbtree \<Rightarrow> u64 \<Rightarrow> u64 option" where
  "rb_rightmost s n = (if get_right s n = 0 then Some n else rb_rightmost s (get_right s n))"

definition dao_rbtree_remove :: "u64 \<Rightarrow> rbtree \<Rightarrow> rbtree option" where
  "dao_rbtree_remove node s =
     (let fix = (\<lambda>color child parent s. if color = 1 then dao_rbtree_remove_color child parent s else Some s) in
      if get_left s node = 0 \<or> get_right s node = 0 then
        (let child = (if get_left s node = 0 then get_right s node else get_left s node);
             parent = dao_rbtree_parent s node;
             color = dao_rbtree_color s node;
             s = (if child \<noteq> 0 then dao_rbtree_set_parent child parent s else s);
             s = (if parent \<noteq> 0
                  then (if get_left s parent = node then set_left parent child s else set_right parent child s)
                  else set_root child s)
         in fix color child parent s)
      else
        Option.bind (rb_leftmost s (get_right s node)) (\<lambda>next.
          (let old = node; node = next;
               s = (if dao_rbtree_parent s old \<noteq> 0
                    then (if get_left s (dao_rbtree_parent s old) = old then set_left (dao_rbtree_parent s old) node s
                          else set_right (dao_rbtree_parent s old) node s)
                    else set_root node s);
               child = get_right s node;
               parent = dao_rbtree_parent s node;
               color = dao_rbtree_color s node;
               (parent, s) =
                 (if parent = old then (node, s)
                  else
                    (let s = (if child \<noteq> 0 then dao_rbtree_set_parent child parent s else s);
                         s = set_left parent child s;
                         s = set_right node (get_right s old) s
                     in (parent, dao_rbtree_set_parent (get_right s old) node s)));
               s = upd_node node (parent_color_update (\<lambda>_. parent_color (rb_mem s old))) s;
               s = set_left node (get_left s old) s;
               s = dao_rbtree_set_parent (get_left s old) node s
           in fix color child parent s)))"

section \<open>Traversal\<close>

definition dao_rbtree_first :: "rbtree \<Rightarrow> u64 option" where
  "dao_rbtree_first s = (if rb_root s = 0 then Some 0 else rb_leftmost s (rb_root s))"

definition dao_rbtree_last :: "rbtree \<Rightarrow> u64 option" where
  "dao_rbtree_last s = (if rb_root s = 0 then Some 0 else rb_rightmost s (rb_root s))"

partial_function (option) rb_climb_right :: "rbtree \<Rightarrow> u64 \<Rightarrow> u64 option" where
  "rb_climb_right s node =
     (let parent = dao_rbtree_parent s node in
      if parent \<noteq> 0 \<and> node = get_right s parent then rb_climb_right s parent else Some parent)"

partial_function (option) rb_climb_left :: "rbtree \<Rightarrow> u64 \<Rightarrow> u64 option" where
  "rb_climb_left s node =
     (let parent = dao_rbtree_parent s node in
      if parent \<noteq> 0 \<and> node = get_left s parent then rb_climb_left s parent else Some parent)"

definition dao_rbtree_next :: "rbtree \<Rightarrow> u64 \<Rightarrow> u64 option" where
  "dao_rbtree_next s node =
     (if dao_rbtree_parent s node = node then Some 0
      else if get_right s node \<noteq> 0 then rb_leftmost s (get_right s node)
      else rb_climb_right s node)"

definition dao_rbtree_prev :: "rbtree \<Rightarrow> u64 \<Rightarrow> u64 option" where
  "dao_rbtree_prev s node =
     (if dao_rbtree_parent s node = node then Some 0
      else if get_left s node \<noteq> 0 then rb_rightmost s (get_left s node)
      else rb_climb_left s node)"

definition dao_rbtree_replace :: "u64 \<Rightarrow> u64 \<Rightarrow> rbtree \<Rightarrow> rbtree" where
  "dao_rbtree_replace old new s =
     (let parent = dao_rbtree_parent s old;
          s = (if parent \<noteq> 0
               then (if old = get_left s parent then set_left parent new s else set_right parent new s)
               else set_root new s);
          s = (if get_left s old \<noteq> 0 then dao_rbtree_set_parent (get_left s old) new s else s);
          s = (if get_right s old \<noteq> 0 then dao_rbtree_set_parent (get_right s old) new s else s)
      in upd_node new (\<lambda>_. rb_mem s old) s)"

end
