(* ===== verification/TreeHeap.thy ===== *)
theory TreeHeap imports Prelude begin

text \<open>
  Binary trees in memory, as the red-black tree (\<open>kernel/rbtree.c\<close>) and the AVL tree (\<open>kernel/avltree.c\<close>) keep them: every
  node has a left and a right child, a parent and a mark (the colour, the balance), and NULL is the address 0. What shape a
  pointer is the root of, a path from the root down to a subtree as a list of frames, and what the changes that both trees
  make do to the subtree at the end of a path: rotating, marking, linking, unlinking and replacing a node.
\<close>

section \<open>The view\<close>

text \<open>The fields of all nodes, and the root.\<close>

record 'c tview =
  tv_left :: "u64 \<Rightarrow> u64"
  tv_right :: "u64 \<Rightarrow> u64"
  tv_parent :: "u64 \<Rightarrow> u64"
  tv_tag :: "u64 \<Rightarrow> 'c"
  tv_root :: u64

abbreviation aligned :: "u64 \<Rightarrow> bool" where "aligned p \<equiv> p AND 3 = 0"

section \<open>Shapes\<close>

datatype 'c rtree = RLeaf | RNode 'c "'c rtree" u64 "'c rtree"

fun rinorder :: "'c rtree \<Rightarrow> u64 list" where
  "rinorder RLeaf = []"
| "rinorder (RNode c l a r) = rinorder l @ a # rinorder r"

abbreviation rset :: "'c rtree \<Rightarrow> u64 set" where "rset t \<equiv> set (rinorder t)"

fun reps :: "'c tview \<Rightarrow> u64 \<Rightarrow> u64 \<Rightarrow> 'c rtree \<Rightarrow> bool" where
  "reps s p x RLeaf \<longleftrightarrow> x = 0"
| "reps s p x (RNode c l a r) \<longleftrightarrow>
     x = a \<and> a \<noteq> 0 \<and> aligned a \<and> tv_parent s a = p \<and> tv_tag s a = c \<and>
     reps s a (tv_left s a) l \<and> reps s a (tv_right s a) r"

text \<open>A frame: whether the path goes left, the mark and address of the node, and the other subtree.\<close>

type_synonym 'c frame = "bool \<times> 'c \<times> u64 \<times> 'c rtree"

fun ktop :: "'c frame list \<Rightarrow> u64" where
  "ktop [] = 0"
| "ktop ((d, c, a, u) # k) = a"

definition child :: "bool \<Rightarrow> 'c tview \<Rightarrow> u64 \<Rightarrow> u64" where
  "child d s x = (if d then tv_left s x else tv_right s x)"

definition mk :: "bool \<Rightarrow> 'c \<Rightarrow> 'c rtree \<Rightarrow> u64 \<Rightarrow> 'c rtree \<Rightarrow> 'c rtree" where
  "mk d c t a u = (if d then RNode c t a u else RNode c u a t)"

fun repc :: "'c tview \<Rightarrow> 'c frame list \<Rightarrow> u64 \<Rightarrow> bool" where
  "repc s [] x \<longleftrightarrow> tv_root s = x"
| "repc s ((d, c, a, u) # k) x \<longleftrightarrow>
     a \<noteq> 0 \<and> aligned a \<and> tv_parent s a = ktop k \<and> tv_tag s a = c \<and> child d s a = x \<and>
     reps s a (child (\<not> d) s a) u \<and> repc s k a"

fun before :: "'c frame list \<Rightarrow> u64 list" where
  "before [] = []"
| "before ((d, c, a, u) # k) = before k @ (if d then [] else rinorder u @ [a])"

fun after :: "'c frame list \<Rightarrow> u64 list" where
  "after [] = []"
| "after ((d, c, a, u) # k) = (if d then a # rinorder u else []) @ after k"

fun plug :: "'c frame list \<Rightarrow> 'c rtree \<Rightarrow> 'c rtree" where
  "plug [] t = t"
| "plug ((d, c, a, u) # k) t = plug k (mk d c t a u)"

lemma rinorder_plug: "rinorder (plug k t) = before k @ rinorder t @ after k"
  by (induction k t rule: plug.induct) (simp_all add: mk_def)

text \<open>The subtree \<open>t\<close> stands at \<open>x\<close>, at the end of the path \<open>k\<close>; all nodes are different.\<close>

definition focus :: "'c tview \<Rightarrow> 'c frame list \<Rightarrow> 'c rtree \<Rightarrow> u64 \<Rightarrow> bool" where
  "focus s k t x \<longleftrightarrow> reps s (ktop k) x t \<and> repc s k x \<and> distinct (before k @ rinorder t @ after k)"

lemma reps_mk:
  "reps s p x (mk d c t a u) \<longleftrightarrow> x = a \<and> a \<noteq> 0 \<and> aligned a \<and> tv_parent s a = p \<and> tv_tag s a = c \<and>
     reps s a (child d s a) t \<and> reps s a (child (\<not> d) s a) u"
  by (auto simp: mk_def child_def)

lemma focus_down: "focus s k (mk d c t a u) x \<longleftrightarrow> x = a \<and> focus s ((d, c, a, u) # k) t (child d s a)"
proof -
  have "before k @ rinorder (mk d c t a u) @ after k = before ((d, c, a, u) # k) @ rinorder t @ after ((d, c, a, u) # k)"
    by (simp add: mk_def)
  then show ?thesis unfolding focus_def reps_mk by (intro iffI; elim conjE; simp)
qed

lemma focus_disjoint: "focus s k t x \<Longrightarrow> a \<in> rset t \<Longrightarrow> a \<notin> set (before k) \<union> set (after k)"
  by (auto simp: focus_def)

lemma ktop_in: "ktop k = 0 \<or> ktop k \<in> set (before k) \<union> set (after k)"
  by (cases k rule: ktop.cases) auto

lemma focus_left: "focus s k (RNode c l a r) x \<longleftrightarrow> x = a \<and> focus s ((True, c, a, r) # k) l (tv_left s a)"
  using focus_down [of s k True c l a r x] by (simp add: mk_def child_def)

lemma focus_right: "focus s k (RNode c l a r) x \<longleftrightarrow> x = a \<and> focus s ((False, c, a, l) # k) r (tv_right s a)"
  using focus_down [of s k False c r a l x] by (simp add: mk_def child_def)

lemma focus_plug: "focus s k t x \<Longrightarrow> focus s [] (plug k t) (tv_root s)"
proof (induction k t arbitrary: x rule: plug.induct)
  case (1 t)
  then show ?case by (simp add: focus_def)
next
  case (2 d c a u k t)
  have "focus s k (mk d c t a u) a"
  proof -
    have "x = child d s a" using 2(2) by (simp add: focus_def)
    then show ?thesis using 2(2) by (simp add: focus_down)
  qed
  then show ?case using 2(1) by simp
qed

lemma top_aligned: "repc s k x \<Longrightarrow> aligned (ktop k)"
  by (cases "(s, k, x)" rule: repc.cases) auto

lemma reps_cong:
  assumes "\<And>a. a \<in> rset t \<Longrightarrow> tv_left s' a = tv_left s a \<and> tv_right s' a = tv_right s a \<and>
    tv_parent s' a = tv_parent s a \<and> tv_tag s' a = tv_tag s a"
  shows "reps s' p x t = reps s p x t"
  using assms by (induction t arbitrary: p x) auto

lemma repc_cong:
  assumes "\<And>a. a \<in> set (before k) \<union> set (after k) \<Longrightarrow> tv_left s' a = tv_left s a \<and> tv_right s' a = tv_right s a \<and>
    tv_parent s' a = tv_parent s a \<and> tv_tag s' a = tv_tag s a"
    and "tv_root s' = tv_root s"
  shows "repc s' k x = repc s k x"
  using assms
proof (induction k arbitrary: x)
  case (Cons f k)
  obtain d c a u where f: "f = (d, c, a, u)" by (cases f)
  have "reps s' p y u = reps s p y u" for p y
    by (rule reps_cong) (use Cons(2) f in \<open>auto split: if_splits\<close>)
  moreover have "repc s' k a = repc s k a"
    by (rule Cons(1)) (use Cons(2,3) f in auto)
  moreover have "a \<in> set (before (f # k)) \<union> set (after (f # k))" using f by auto
  ultimately show ?case using Cons(2) [of a] f by (simp add: child_def)
qed simp

text \<open>Replacing what the end of a path points to.\<close>

lemma repc_relink:
  assumes "repc s k x" "distinct (before k @ after k)"
    and same: "\<And>a. a \<in> set (before k) \<union> set (after k) \<Longrightarrow>
      tv_parent s' a = tv_parent s a \<and> tv_tag s' a = tv_tag s a"
    and links: "\<And>a. a \<in> set (before k) \<union> set (after k) \<Longrightarrow> a \<noteq> ktop k \<Longrightarrow>
      tv_left s' a = tv_left s a \<and> tv_right s' a = tv_right s a"
    and new: "case k of [] \<Rightarrow> tv_root s' = y
       | (d, _, a, _) # _ \<Rightarrow> child d s' a = y \<and> child (\<not> d) s' a = child (\<not> d) s a \<and> tv_root s' = tv_root s"
  shows "repc s' k y"
proof (cases k)
  case (Cons f k')
  obtain d c a u where f: "f = (d, c, a, u)" by (cases f)
  let ?N = "set (before k) \<union> set (after k)"
  have N: "rset u \<subseteq> ?N" "set (before k') \<union> set (after k') \<subseteq> ?N" "a \<notin> rset u" "a \<notin> set (before k') \<union> set (after k')"
    using assms(2) Cons f by (auto split: if_splits)
  have keep: "tv_left s' b = tv_left s b \<and> tv_right s' b = tv_right s b \<and>
      tv_parent s' b = tv_parent s b \<and> tv_tag s' b = tv_tag s b"
    if "b \<in> ?N" "b \<noteq> a" for b
    using that same [of b] links [of b] Cons f by simp
  have "reps s' a z u = reps s a z u" for z
    by (rule reps_cong, rule keep) (use N in auto)
  moreover have "repc s' k' a = repc s k' a"
  proof (rule repc_cong)
    show "tv_root s' = tv_root s" using new Cons f by simp
  qed (rule keep, use N in auto)
  moreover have "a \<in> set (before k) \<union> set (after k)" using Cons f by auto
  ultimately show ?thesis using assms(1) same [of a] new Cons f by simp
qed (use assms in simp)

lemma reps_nonzero: "reps s p x t \<Longrightarrow> x \<noteq> 0 \<Longrightarrow> x \<in> rset t"
  by (cases t) auto

lemma reps_zero: "reps s p x t \<Longrightarrow> x = 0 \<longleftrightarrow> t = RLeaf"
  by (cases t) auto

lemma focus_nonzero: "focus s k (RNode c l a r) x \<Longrightarrow> x = a \<and> a \<noteq> 0 \<and> aligned a \<and> tv_parent s a = ktop k
    \<and> tv_tag s a = c \<and> reps s a (tv_left s a) l \<and> reps s a (tv_right s a) r"
  by (simp add: focus_def)

text \<open>Giving a subtree another parent.\<close>

lemma reps_reparent:
  assumes "reps s p x t" "distinct (rinorder t)" "aligned q"
    and "\<And>b. b \<in> rset t \<Longrightarrow> tv_left s' b = tv_left s b \<and> tv_right s' b = tv_right s b \<and> tv_tag s' b = tv_tag s b \<and>
      tv_parent s' b = (if b = x then q else tv_parent s b)"
  shows "reps s' q x t"
proof (cases t)
  case (RNode c l a r)
  have "reps s' a y l = reps s a y l" "reps s' a y r = reps s a y r" for y
    using assms(1,2,4) RNode by (auto intro!: reps_cong split: if_splits)
  then show ?thesis using assms RNode by auto
qed (use assms in simp)

text \<open>The parent of a frame has the frame's subtree on one side only.\<close>

lemma focus_side:
  assumes "focus s ((d, c, a, u) # k) t x" "x \<noteq> 0"
  shows "child d s a = x \<and> child (\<not> d) s a \<noteq> x"
proof -
  have "x \<in> rset t" using assms reps_nonzero by (auto simp: focus_def)
  moreover have "child (\<not> d) s a \<noteq> 0 \<Longrightarrow> child (\<not> d) s a \<in> rset u"
    using assms(1) reps_nonzero by (auto simp: focus_def)
  moreover have "rset t \<inter> rset u = {}" using assms(1) by (auto simp: focus_def split: if_splits)
  ultimately show ?thesis using assms by (auto simp: focus_def)
qed

section \<open>Rotations and marks\<close>

text \<open>The fields after a rotation at \<open>g\<close> that lifts the child on side \<open>d\<close>.\<close>

definition rotated :: "bool \<Rightarrow> u64 \<Rightarrow> 'c tview \<Rightarrow> 'c tview \<Rightarrow> bool" where
  "rotated d g s s' \<longleftrightarrow>
     (let p = child d s g; q = tv_parent s g in
      tv_root s' = (if q = 0 then p else tv_root s) \<and>
      (\<forall>y. child d s' y = (if y = g then child (\<not> d) s p else if y = q \<and> q \<noteq> 0 \<and> child (\<not> d) s q \<noteq> g then p else child d s y) \<and>
           child (\<not> d) s' y = (if y = p then g else if y = q \<and> q \<noteq> 0 \<and> child (\<not> d) s q = g then p else child (\<not> d) s y) \<and>
           tv_parent s' y = (if y = g then p else if y = p then q else if y = child (\<not> d) s p \<and> y \<noteq> 0 then g else tv_parent s y) \<and>
           tv_tag s' y = tv_tag s y))"

lemma same_children: "child d s' y = child d s y \<Longrightarrow> child (\<not> d) s' y = child (\<not> d) s y \<Longrightarrow> tv_left s' y = tv_left s y \<and> tv_right s' y = tv_right s y"
  by (cases d) (simp_all add: child_def)

lemma rotated_focus:
  assumes "focus s k (mk d cg (mk d cp A p B) g U) g" "rotated d g s s'"
  shows "focus s' k (mk d cp A p (mk d cg B g U)) p"
proof -
  let ?q = "ktop k" and ?N = "set (before k) \<union> set (after k)"
  have f: "child d s g = p" "p \<noteq> 0" "tv_parent s g = ?q" "aligned g" "aligned p" "g \<noteq> 0"
    "tv_tag s g = cg" "tv_tag s p = cp" "reps s p (child d s p) A" "reps s p (child (\<not> d) s p) B"
    "reps s g (child (\<not> d) s g) U" "repc s k g"
    using assms(1) by (auto simp: focus_def reps_mk)
  have in1: "rinorder (mk d cg (mk d cp A p B) g U) = rinorder (mk d cp A p (mk d cg B g U))"
    by (simp add: mk_def)
  have dist: "distinct (before k @ rinorder (mk d cg (mk d cp A p B) g U) @ after k)"
    using assms(1) by (simp add: focus_def)
  have D: "g \<noteq> p" "g \<notin> rset A \<union> rset B \<union> rset U \<union> ?N" "p \<notin> rset A \<union> rset B \<union> rset U \<union> ?N"
    "rset B \<inter> (rset A \<union> rset U \<union> ?N) = {}" "distinct (rinorder B)" "?N \<inter> (rset A \<union> rset U) = {}"
    "distinct (before k @ after k)"
    using dist by (auto simp: mk_def split: if_splits)
  have q: "aligned ?q" "?q \<noteq> 0 \<Longrightarrow> ?q \<in> ?N"
    using f(12) top_aligned by (auto elim: repc.elims)
  have qn: "?q \<noteq> p" "?q \<noteq> g" using q(2) D(2,3) f(2,6) by auto
  have s': "tv_root s' = (if ?q = 0 then p else tv_root s)"
    and F: "\<And>y. child d s' y = (if y = g then child (\<not> d) s p else if y = ?q \<and> ?q \<noteq> 0 \<and> child (\<not> d) s ?q \<noteq> g then p else child d s y)"
      "\<And>y. child (\<not> d) s' y = (if y = p then g else if y = ?q \<and> ?q \<noteq> 0 \<and> child (\<not> d) s ?q = g then p else child (\<not> d) s y)"
      "\<And>y. tv_parent s' y = (if y = g then p else if y = p then ?q else if y = child (\<not> d) s p \<and> y \<noteq> 0 then g else tv_parent s y)"
      "\<And>y. tv_tag s' y = tv_tag s y"
    using assms(2) unfolding rotated_def Let_def f(1,3) by simp_all
  have b: "child (\<not> d) s p \<noteq> 0 \<Longrightarrow> child (\<not> d) s p \<in> rset B" using f(10) reps_nonzero by blast
  have K: "tv_left s' y = tv_left s y \<and> tv_right s' y = tv_right s y" if "y \<noteq> g" "y \<noteq> p" "y = 0 \<or> y \<noteq> ?q" for y
  proof (rule same_children)
    show "child d s' y = child d s y" using F(1) [of y] that by auto
    show "child (\<not> d) s' y = child (\<not> d) s y" using F(2) [of y] that by auto
  qed
  have K2: "tv_parent s' y = tv_parent s y" if "y \<noteq> g" "y \<noteq> p" "y = 0 \<or> y \<noteq> child (\<not> d) s p" for y
    using F(3) [of y] that by auto
  have keep: "tv_left s' y = tv_left s y \<and> tv_right s' y = tv_right s y \<and>
      tv_parent s' y = tv_parent s y \<and> tv_tag s' y = tv_tag s y"
    if "y \<in> rset A \<union> rset U" for y
  proof -
    have y: "y \<noteq> g" "y \<noteq> p" "y = 0 \<or> y \<noteq> child (\<not> d) s p" "y = 0 \<or> y \<noteq> ?q"
      using that D b q(2) by blast+
    show ?thesis using K [OF y(1,2,4)] K2 [OF y(1-3)] F(4) by simp
  qed
  have "reps s' p x A = reps s p x A" "reps s' g x U = reps s g x U" for x
    by (rule reps_cong, rule keep, simp)+
  moreover have "reps s' g (child (\<not> d) s p) B"
  proof (rule reps_reparent [OF f(10) D(5) f(4)])
    fix y assume y: "y \<in> rset B"
    have y': "y \<noteq> g" "y \<noteq> p" "y = 0 \<or> y \<noteq> ?q" using D(2,3,4) q(2) y by blast+
    have "y \<noteq> 0" if "y = child (\<not> d) s p" using y f(10) that by (cases B) auto
    then have "tv_parent s' y = (if y = child (\<not> d) s p then g else tv_parent s y)"
      using F(3) [of y] y' by auto
    then show "tv_left s' y = tv_left s y \<and> tv_right s' y = tv_right s y \<and> tv_tag s' y = tv_tag s y \<and>
      tv_parent s' y = (if y = child (\<not> d) s p then g else tv_parent s y)"
      using K [OF y'] F(4) by simp
  qed
  moreover have "repc s' k p"
  proof (rule repc_relink [OF f(12) D(7)])
    fix y assume y: "y \<in> ?N"
    then have y': "y \<noteq> g" "y \<noteq> p" "y = 0 \<or> y \<noteq> child (\<not> d) s p" using D b by blast+
    show "tv_parent s' y = tv_parent s y \<and> tv_tag s' y = tv_tag s y"
      using K2 [OF y'] F(4) by simp
    show "tv_left s' y = tv_left s y \<and> tv_right s' y = tv_right s y" if "y \<noteq> ?q"
      using K [OF y'(1,2)] that by simp
  next
    show "case k of [] \<Rightarrow> tv_root s' = p
       | (d, _, a, _) # _ \<Rightarrow> child d s' a = p \<and> child (\<not> d) s' a = child (\<not> d) s a \<and> tv_root s' = tv_root s"
    proof (cases k)
      case (Cons fr k')
      obtain d' c a u where fr: "fr = (d', c, a, u)" by (cases fr)
      have side: "child d' s a = g \<and> child (\<not> d') s a \<noteq> g"
        using focus_side [of s d' c a u k' _ g] assms(1) Cons fr f(6) by blast
      have "a = ?q" "a \<noteq> 0" using Cons fr f(12) by auto
      then show ?thesis
        using side F(1,2) [of a] s' qn Cons fr by (cases "d' = d") (auto simp: child_def split: if_splits)
    qed (use s' in simp)
  qed
  ultimately show ?thesis
    using f D(1) F [of g] F [of p] q qn dist in1 unfolding focus_def reps_mk by (auto simp: mk_def)
qed

lemma recolor_focus:
  assumes "focus s k (mk d c t a u) a" "tv_root s' = tv_root s"
    and "\<And>y. tv_left s' y = tv_left s y \<and> tv_right s' y = tv_right s y \<and> tv_parent s' y = tv_parent s y
      \<and> tv_tag s' y = (if y = a then c' else tv_tag s y)"
  shows "focus s' k (mk d c' t a u) a"
proof -
  have io: "rinorder (mk d c t a u) = rinorder (mk d c' t a u)" by (simp add: mk_def)
  have dist: "distinct (before k @ rinorder (mk d c t a u) @ after k)" using assms(1) by (simp add: focus_def)
  have a: "a \<notin> rset t" "a \<notin> rset u" "a \<notin> set (before k) \<union> set (after k)"
    using dist by (auto simp: mk_def split: if_splits)
  have keep: "tv_left s' y = tv_left s y \<and> tv_right s' y = tv_right s y \<and> tv_parent s' y = tv_parent s y
      \<and> tv_tag s' y = tv_tag s y" if "y \<noteq> a" for y
    using assms(3) [of y] that by simp
  have "reps s' a y t = reps s a y t" for y by (rule reps_cong, rule keep) (use a in auto)
  moreover have "reps s' a y u = reps s a y u" for y by (rule reps_cong, rule keep) (use a in auto)
  moreover have "repc s' k a = repc s k a"
    by (rule repc_cong [OF keep assms(2)]) (use a(3) in auto)
  moreover have "child e s' y = child e s y" for e y using assms(3) [of y] by (simp add: child_def)
  ultimately show ?thesis
    using assms(1) assms(3) [of a] dist unfolding focus_def reps_mk io by (simp del: distinct_append)
qed

section \<open>Moving along a path\<close>

lemma mk_flip: "mk (\<not> d) c t a u = mk d c u a t"
  by (simp add: mk_def)

lemma mk_ex: "RNode c l a r = mk d c (if d then l else r) a (if d then r else l)"
  by (simp add: mk_def)

lemma focus_at: "focus s ((d, c, a, u) # k) t x \<Longrightarrow> x = child d s a"
  by (simp add: focus_def)

lemma focus_up: "focus s ((d, c, a, u) # k) t x \<Longrightarrow> focus s k (mk d c t a u) a"
  using focus_at [of s d c a u k t x] by (simp add: focus_down)

lemma focus_into: "focus s k (mk d c t a u) a \<Longrightarrow> focus s ((d, c, a, u) # k) t (child d s a)"
  by (simp add: focus_down)

lemma focus_flip: "focus s ((d, c, a, u) # k) t x \<Longrightarrow> focus s ((\<not> d, c, a, t) # k) u (child (\<not> d) s a)"
  using focus_up [of s d c a u k t x] focus_into [of s k "\<not> d" c u a t] by (simp add: mk_flip)

lemma focus_root: "focus s k (mk d c t a u) x \<Longrightarrow> x = a"
  by (simp add: focus_down)

lemma focus_frame: "focus s ((d, c, a, u) # k) t x \<Longrightarrow>
  a \<noteq> 0 \<and> aligned a \<and> tv_tag s a = c \<and> tv_parent s a = ktop k"
  by (simp add: focus_def)

lemma focus_parent: "focus s k t x \<Longrightarrow> x \<noteq> 0 \<Longrightarrow> tv_parent s x = ktop k"
  by (cases t) (auto simp: focus_def)

lemma focus_leaf: "focus s k t x \<Longrightarrow> x = 0 \<longleftrightarrow> t = RLeaf"
  using reps_zero by (auto simp: focus_def)

lemma mk_False: "mk False c t a u = RNode c u a t"
  by (simp add: mk_def)

lemma before_append [simp]: "before (k2 @ k) = before k @ before k2"
  by (induction k2 rule: before.induct) auto

lemma after_append [simp]: "after (k2 @ k) = after k2 @ after k"
  by (induction k2 rule: after.induct) auto

lemma plug_append: "plug (k2 @ k) t = plug k (plug k2 t)"
  by (induction k2 t rule: plug.induct) auto

lemma ktop_append: "ktop (k2 @ k) = (if k2 = [] then ktop k else ktop k2)"
  by (cases k2 rule: ktop.cases) auto

fun root_of :: "'c rtree \<Rightarrow> u64" where
  "root_of RLeaf = 0"
| "root_of (RNode c l a r) = a"

lemma reps_root_of: "reps s p x t \<Longrightarrow> x = root_of t"
  by (cases t) auto

lemma focus_root_of: "focus s k t x \<Longrightarrow> x = root_of t"
  by (cases t) (auto simp: focus_def)

lemma focus_append: "focus s (k2 @ k) t x \<longleftrightarrow> focus s k (plug k2 t) (root_of (plug k2 t)) \<and> x = root_of t"
proof (induction k2 t arbitrary: x rule: plug.induct)
  case (1 t)
  then show ?case using focus_root_of by auto
next
  case (2 d c a u k2 t)
  have "focus s ((d, c, a, u) # k2 @ k) t x \<longleftrightarrow> focus s (k2 @ k) (mk d c t a u) a \<and> x = child d s a"
    using focus_down [of s "k2 @ k" d c t a u a] focus_at [of s d c a u "k2 @ k" t x] by auto
  also have "\<dots> \<longleftrightarrow> focus s (k2 @ k) (mk d c t a u) a \<and> x = root_of t"
    using focus_root_of [of s "(d, c, a, u) # k2 @ k" t "child d s a"] by (auto simp: focus_down)
  finally show ?case using 2 [of a] by (auto simp: mk_def)
qed

lemma focus_cong:
  assumes "focus s k t x" "tv_root s' = tv_root s"
    and "\<And>y. tv_left s' y = tv_left s y \<and> tv_right s' y = tv_right s y \<and> tv_parent s' y = tv_parent s y \<and>
      tv_tag s' y = tv_tag s y"
  shows "focus s' k t x"
  using assms reps_cong [of t s' s] repc_cong [of k s' s] by (simp add: focus_def)

text \<open>The leftmost and the rightmost node below a pointer.\<close>

lemma leftmost:
  assumes rec: "\<And>n. f n = (if tv_left s n = 0 then Some n else f (tv_left s n))"
    and "focus s k t x" "t \<noteq> RLeaf"
  shows "\<exists>k2 c y r. f x = Some y \<and> focus s (k2 @ k) (RNode c RLeaf y r) y \<and> before k2 = [] \<and>
    plug k2 (RNode c RLeaf y r) = t"
  using assms(2,3)
proof (induction t arbitrary: k x)
  case (RNode c l a r)
  have x: "x = a" "focus s ((True, c, a, r) # k) l (tv_left s a)" using RNode.prems(1) by (simp_all add: focus_left)
  show ?case
  proof (cases "l = RLeaf")
    case True
    then have "f x = Some a" using x focus_leaf [OF x(2)] by (subst rec) simp
    then show ?thesis using RNode.prems(1) x True by (intro exI [of _ "[]"]) auto
  next
    case False
    then have "f x = f (tv_left s a)" using x focus_leaf [OF x(2)] by (subst rec) simp
    moreover obtain k2 c' y r' where "f (tv_left s a) = Some y" "focus s (k2 @ (True, c, a, r) # k) (RNode c' RLeaf y r') y"
        "before k2 = []" "plug k2 (RNode c' RLeaf y r') = l"
      using RNode.IH(1) [OF x(2) False] by blast
    ultimately show ?thesis
      by (intro exI [of _ "k2 @ [(True, c, a, r)]"] exI [of _ c'] exI [of _ y] exI [of _ r']) (simp add: plug_append mk_def)
  qed
qed simp

lemma rightmost:
  assumes rec: "\<And>n. f n = (if tv_right s n = 0 then Some n else f (tv_right s n))"
    and "focus s k t x" "t \<noteq> RLeaf"
  shows "\<exists>k2 c y l. f x = Some y \<and> focus s (k2 @ k) (RNode c l y RLeaf) y \<and> after k2 = [] \<and>
    plug k2 (RNode c l y RLeaf) = t"
  using assms(2,3)
proof (induction t arbitrary: k x)
  case (RNode c l a r)
  have x: "x = a" "focus s ((False, c, a, l) # k) r (tv_right s a)" using RNode.prems(1) by (simp_all add: focus_right)
  show ?case
  proof (cases "r = RLeaf")
    case True
    then have "f x = Some a" using x focus_leaf [OF x(2)] by (subst rec) simp
    then show ?thesis using RNode.prems(1) x True by (intro exI [of _ "[]"]) auto
  next
    case False
    then have "f x = f (tv_right s a)" using x focus_leaf [OF x(2)] by (subst rec) simp
    moreover obtain k2 c' y l' where "f (tv_right s a) = Some y" "focus s (k2 @ (False, c, a, l) # k) (RNode c' l' y RLeaf) y"
        "after k2 = []" "plug k2 (RNode c' l' y RLeaf) = r"
      using RNode.IH(2) [OF x(2) False] by blast
    ultimately show ?thesis
      by (intro exI [of _ "k2 @ [(False, c, a, l)]"] exI [of _ c'] exI [of _ y] exI [of _ l']) (simp add: plug_append mk_def)
  qed
qed simp

lemma reps_zero_notin: "reps s p x t \<Longrightarrow> 0 \<notin> rset t"
  by (induction t arbitrary: p x) auto

lemma focus_cong_at:
  assumes "focus s k t x" "tv_root s' = tv_root s"
    and "\<And>y. y \<in> set (before k @ rinorder t @ after k) \<Longrightarrow> tv_left s' y = tv_left s y \<and> tv_right s' y = tv_right s y \<and>
      tv_parent s' y = tv_parent s y \<and> tv_tag s' y = tv_tag s y"
  shows "focus s' k t x"
proof -
  have "reps s' p z t = reps s p z t" for p z by (rule reps_cong, rule assms(3)) auto
  moreover have "repc s' k z = repc s k z" for z by (rule repc_cong [OF assms(3,2)]) auto
  ultimately show ?thesis using assms(1) by (simp add: focus_def)
qed

lemma focus_zero_notin: "focus s k t x \<Longrightarrow> 0 \<notin> set (before k) \<union> set (after k)"
proof -
  have "repc s k z \<Longrightarrow> 0 \<notin> set (before k) \<union> set (after k)" for z
    by (induction k arbitrary: z rule: before.induct) (auto dest: reps_zero_notin)
  then show "focus s k t x \<Longrightarrow> 0 \<notin> set (before k) \<union> set (after k)" by (auto simp: focus_def)
qed

text \<open>The path to a node of the tree.\<close>

lemma find_path:
  assumes "focus s k t x" "n \<in> rset t"
  shows "\<exists>k2 c l r. focus s (k2 @ k) (RNode c l n r) n \<and> plug k2 (RNode c l n r) = t"
  using assms
proof (induction t arbitrary: k x)
  case (RNode c l a r)
  have x: "x = a" "focus s ((True, c, a, r) # k) l (tv_left s a)" "focus s ((False, c, a, l) # k) r (tv_right s a)"
    using RNode.prems(1) focus_left [of s k c l a r x] focus_right [of s k c l a r x] by simp_all
  consider "n = a" | "n \<in> rset l" | "n \<in> rset r" using RNode.prems(2) by auto
  then show ?case
  proof cases
    case 1
    then show ?thesis using RNode.prems(1) x(1) by (intro exI [of _ "[]"]) auto
  next
    case 2
    then obtain k2 c' l' r' where "focus s (k2 @ (True, c, a, r) # k) (RNode c' l' n r') n" "plug k2 (RNode c' l' n r') = l"
      using RNode.IH(1) [OF x(2)] by blast
    then show ?thesis
      by (intro exI [of _ "k2 @ [(True, c, a, r)]"] exI [of _ c'] exI [of _ l'] exI [of _ r']) (simp add: plug_append mk_def)
  next
    case 3
    then obtain k2 c' l' r' where "focus s (k2 @ (False, c, a, l) # k) (RNode c' l' n r') n" "plug k2 (RNode c' l' n r') = r"
      using RNode.IH(2) [OF x(3)] by blast
    then show ?thesis
      by (intro exI [of _ "k2 @ [(False, c, a, l)]"] exI [of _ c'] exI [of _ l'] exI [of _ r']) (simp add: plug_append mk_def)
  qed
qed simp

lemma root_in_frames:
  assumes F: "focus s (f # k) t x"
  shows "tv_root s \<noteq> x"
proof -
  have r: "repc s k y \<Longrightarrow> tv_root s = y \<or> tv_root s \<in> set (before k) \<union> set (after k)" for k y
  proof (induction k arbitrary: y rule: before.induct)
    case (2 d c a u k)
    then show ?case using 2(1) [of a] by (cases d) auto
  qed simp
  obtain d c a u where f: "f = (d, c, a, u)" by (cases f)
  have a: "repc s k a" "a \<noteq> 0" using F f by (auto simp: focus_def)
  have in_N: "tv_root s \<in> set (before (f # k)) \<union> set (after (f # k))" using r [OF a(1)] f by auto
  then have "tv_root s \<noteq> 0" using focus_zero_notin [OF F] by auto
  moreover have "x \<noteq> 0 \<Longrightarrow> x \<in> rset t" using F reps_nonzero by (auto simp: focus_def)
  ultimately show ?thesis using in_N focus_disjoint [OF F] by blast
qed

section \<open>Neighbours\<close>

lemma focus_neq_parent: "focus s k t x \<Longrightarrow> x \<noteq> 0 \<Longrightarrow> ktop k \<noteq> x"
proof -
  assume F: "focus s k t x" and x: "x \<noteq> 0"
  have "x \<in> rset t" using F x reps_nonzero by (auto simp: focus_def)
  moreover have "ktop k = 0 \<or> ktop k \<in> set (before k) \<union> set (after k)" by (cases k rule: ktop.cases) auto
  ultimately show ?thesis using F x by (auto simp: focus_def)
qed

lemma climb_right:
  "(\<And>n. f n = (if tv_parent s n \<noteq> 0 \<and> n = tv_right s (tv_parent s n) then f (tv_parent s n) else Some (tv_parent s n))) \<Longrightarrow>
   focus s k t x \<Longrightarrow> x \<noteq> 0 \<Longrightarrow> f x = Some (case after k of [] \<Rightarrow> 0 | y # _ \<Rightarrow> y)"
proof (induction k arbitrary: t x)
  case Nil
  then show ?case using focus_parent [OF Nil(2,3)] by (subst Nil(1)) simp
next
  case (Cons fr k)
  obtain d c a u where fr: "fr = (d, c, a, u)" by (cases fr)
  note F = Cons.prems(2) [unfolded fr]
  have a: "tv_parent s x = a" "a \<noteq> 0" "child d s a = x" "child (\<not> d) s a \<noteq> x"
    using focus_parent [OF F Cons.prems(3)] focus_frame [OF F] focus_side [OF F Cons.prems(3)] by auto
  show ?case
  proof (cases d)
    case True
    then show ?thesis using a fr by (subst Cons.prems(1)) (auto simp: child_def)
  next
    case False
    then have "f x = f a" using a by (subst Cons.prems(1)) (auto simp: child_def)
    then show ?thesis using Cons.IH [OF Cons.prems(1) focus_up [OF F] a(2)] fr False by simp
  qed
qed

lemma climb_left:
  "(\<And>n. f n = (if tv_parent s n \<noteq> 0 \<and> n = tv_left s (tv_parent s n) then f (tv_parent s n) else Some (tv_parent s n))) \<Longrightarrow>
   focus s k t x \<Longrightarrow> x \<noteq> 0 \<Longrightarrow> f x = Some (if before k = [] then 0 else last (before k))"
proof (induction k arbitrary: t x)
  case Nil
  then show ?case using focus_parent [OF Nil(2,3)] by (subst Nil(1)) simp
next
  case (Cons fr k)
  obtain d c a u where fr: "fr = (d, c, a, u)" by (cases fr)
  note F = Cons.prems(2) [unfolded fr]
  have a: "tv_parent s x = a" "a \<noteq> 0" "child d s a = x" "child (\<not> d) s a \<noteq> x"
    using focus_parent [OF F Cons.prems(3)] focus_frame [OF F] focus_side [OF F Cons.prems(3)] by auto
  show ?case
  proof (cases d)
    case False
    then show ?thesis using a fr by (subst Cons.prems(1)) (auto simp: child_def)
  next
    case True
    then have "f x = f a" using a by (subst Cons.prems(1)) (auto simp: child_def)
    then show ?thesis using Cons.IH [OF Cons.prems(1) focus_up [OF F] a(2)] fr True by simp
  qed
qed

end
