(* ===== verification/TreeOps.thy ===== *)
theory TreeOps imports TreeHeap begin

text \<open>
  What removing a node and putting one node in the place of another write to a tree in memory, on the view that the
  red-black tree and the AVL tree share: unlinking a node with at most one child, replacing a node, and moving the
  successor of a node with two children to its place.
\<close>

section \<open>Writes\<close>

definition vset_left :: "u64 \<Rightarrow> u64 \<Rightarrow> 'c tview \<Rightarrow> 'c tview" where "vset_left x v s = s\<lparr>tv_left := (tv_left s)(x := v)\<rparr>"

definition vset_right :: "u64 \<Rightarrow> u64 \<Rightarrow> 'c tview \<Rightarrow> 'c tview" where "vset_right x v s = s\<lparr>tv_right := (tv_right s)(x := v)\<rparr>"

definition vset_parent :: "u64 \<Rightarrow> u64 \<Rightarrow> 'c tview \<Rightarrow> 'c tview" where "vset_parent x v s = s\<lparr>tv_parent := (tv_parent s)(x := v)\<rparr>"

definition vset_tag :: "u64 \<Rightarrow> 'c \<Rightarrow> 'c tview \<Rightarrow> 'c tview" where "vset_tag x v s = s\<lparr>tv_tag := (tv_tag s)(x := v)\<rparr>"

definition vset_root :: "u64 \<Rightarrow> 'c tview \<Rightarrow> 'c tview" where "vset_root v s = s\<lparr>tv_root := v\<rparr>"

lemma vset_fields [simp]:
  "tv_left (vset_left x v s) y = (if y = x then v else tv_left s y)" "tv_left (vset_right x v s) y = tv_left s y"
  "tv_left (vset_parent x v s) y = tv_left s y" "tv_left (vset_tag x c s) y = tv_left s y" "tv_left (vset_root v s) y = tv_left s y"
  "tv_right (vset_right x v s) y = (if y = x then v else tv_right s y)" "tv_right (vset_left x v s) y = tv_right s y"
  "tv_right (vset_parent x v s) y = tv_right s y" "tv_right (vset_tag x c s) y = tv_right s y" "tv_right (vset_root v s) y = tv_right s y"
  "tv_parent (vset_parent x v s) y = (if y = x then v else tv_parent s y)" "tv_parent (vset_left x v s) y = tv_parent s y"
  "tv_parent (vset_right x v s) y = tv_parent s y" "tv_parent (vset_tag x c s) y = tv_parent s y" "tv_parent (vset_root v s) y = tv_parent s y"
  "tv_tag (vset_tag x c s) y = (if y = x then c else tv_tag s y)" "tv_tag (vset_left x v s) y = tv_tag s y"
  "tv_tag (vset_right x v s) y = tv_tag s y" "tv_tag (vset_parent x v s) y = tv_tag s y" "tv_tag (vset_root v s) y = tv_tag s y"
  "tv_root (vset_left x v s) = tv_root s" "tv_root (vset_right x v s) = tv_root s" "tv_root (vset_parent x v s) = tv_root s"
  "tv_root (vset_tag x c s) = tv_root s" "tv_root (vset_root v s) = v"
  by (simp_all add: vset_left_def vset_right_def vset_parent_def vset_tag_def vset_root_def)

lemma tview_eqI: "tv_root s' = tv_root s \<Longrightarrow> (\<And>y. tv_left s' y = tv_left s y) \<Longrightarrow> (\<And>y. tv_right s' y = tv_right s y) \<Longrightarrow>
  (\<And>y. tv_parent s' y = tv_parent s y) \<Longrightarrow> (\<And>y. tv_tag s' y = tv_tag s y) \<Longrightarrow> s' = (s :: 'c tview)"
  by (simp add: fun_eq_iff)

section \<open>Relinking\<close>

text \<open>The pointer to a node in its parent, or the root.\<close>

definition relink :: "u64 \<Rightarrow> u64 \<Rightarrow> u64 \<Rightarrow> 'c tview \<Rightarrow> 'c tview" where
  "relink q n v s = (if q \<noteq> 0 then (if tv_left s q = n then vset_left q v s else vset_right q v s) else vset_root v s)"

lemma relink_fields [simp]:
  "tv_parent (relink q n v s) y = tv_parent s y" "tv_tag (relink q n v s) y = tv_tag s y"
  "tv_left (relink q n v s) y = (if y = q \<and> q \<noteq> 0 \<and> tv_left s q = n then v else tv_left s y)"
  "tv_right (relink q n v s) y = (if y = q \<and> q \<noteq> 0 \<and> tv_left s q \<noteq> n then v else tv_right s y)"
  "tv_root (relink q n v s) = (if q \<noteq> 0 then tv_root s else v)"
  by (auto simp: relink_def)

lemma focus_relink:
  assumes "focus s k t n" "n \<noteq> 0"
    and "\<And>a. a \<in> set (before k) \<union> set (after k) \<Longrightarrow> tv_left s1 a = tv_left s a \<and> tv_right s1 a = tv_right s a \<and>
      tv_parent s1 a = tv_parent s a \<and> tv_tag s1 a = tv_tag s a"
    and "tv_root s1 = tv_root s"
  shows "repc (relink (ktop k) n v s1) k v"
proof (rule repc_relink)
  show "repc s k n" "distinct (before k @ after k)" using assms(1) by (auto simp: focus_def)
  show "case k of [] \<Rightarrow> tv_root (relink (ktop k) n v s1) = v
     | (d, _, a, _) # _ \<Rightarrow> child d (relink (ktop k) n v s1) a = v \<and> child (\<not> d) (relink (ktop k) n v s1) a = child (\<not> d) s a \<and>
         tv_root (relink (ktop k) n v s1) = tv_root s"
  proof (cases k)
    case (Cons fr k')
    obtain d c a u where fr: "fr = (d, c, a, u)" by (cases fr)
    have "child d s a = n \<and> child (\<not> d) s a \<noteq> n" "a \<noteq> 0"
      using focus_side [of s d c a u k' t n] focus_frame [of s d c a u k' t n] assms(1,2) Cons fr by auto
    moreover have "tv_left s1 a = tv_left s a \<and> tv_right s1 a = tv_right s a" using assms(3) [of a] Cons fr by auto
    ultimately show ?thesis using Cons fr assms(4) by (auto simp: child_def split: if_splits)
  qed simp
qed (use assms(3) in auto)

lemma unlink_focus:
  assumes F: "focus s k (RNode c l n r) n" and ch: "l = RLeaf \<and> ch = r \<or> r = RLeaf \<and> ch = l" and x: "x = root_of ch"
  shows "focus (relink (ktop k) n x (if x \<noteq> 0 then vset_parent x (ktop k) s else s)) k ch x"
proof -
  let ?s1 = "if x \<noteq> 0 then vset_parent x (ktop k) s else s"
  let ?s = "relink (ktop k) n x ?s1"
  have n: "n \<noteq> 0" using F by (simp add: focus_def)
  have al: "aligned (ktop k)" using F top_aligned by (auto simp: focus_def)
  have dist: "distinct (before k @ rinorder ch @ after k)" "n \<notin> rset ch" "n \<notin> set (before k) \<union> set (after k)"
    using F ch by (auto simp: focus_def)
  have "reps s n (tv_left s n) l" "reps s n (tv_right s n) r" using F by (simp_all add: focus_def)
  then have rch: "reps s n x ch" using ch x reps_root_of by metis
  have x0: "x \<noteq> 0 \<Longrightarrow> x \<in> rset ch" using reps_nonzero [OF rch] by simp
  have keep: "tv_left ?s1 a = tv_left s a \<and> tv_right ?s1 a = tv_right s a \<and>
      tv_parent ?s1 a = tv_parent s a \<and> tv_tag ?s1 a = tv_tag s a"
    if "a \<in> set (before k) \<union> set (after k)" for a
    using that dist(1) x0 al by auto
  have "repc ?s k x" by (rule focus_relink [OF F n keep]) auto
  moreover have "reps ?s (ktop k) x ch"
  proof (rule reps_reparent [OF rch _ al])
    show "distinct (rinorder ch)" using dist by simp
    fix b assume b: "b \<in> rset ch"
    have "ktop k = 0 \<or> ktop k \<in> set (before k) \<union> set (after k)" by (cases k rule: ktop.cases) auto
    then have "b \<noteq> ktop k \<or> ktop k = 0" using b dist by auto
    moreover have "b = x \<Longrightarrow> x \<noteq> 0" using b rch by (cases ch) auto
    ultimately show "tv_left ?s b = tv_left s b \<and> tv_right ?s b = tv_right s b \<and> tv_tag ?s b = tv_tag s b \<and>
      tv_parent ?s b = (if b = x then ktop k else tv_parent s b)"
      using al by auto
  qed
  ultimately show ?thesis using dist by (simp add: focus_def)
qed

definition vcopy :: "u64 \<Rightarrow> u64 \<Rightarrow> 'c tview \<Rightarrow> 'c tview" where
  "vcopy n y s = vset_left y (tv_left s n) (vset_right y (tv_right s n) (vset_parent y (tv_parent s n) (vset_tag y (tv_tag s n) s)))"

definition vreplace :: "u64 \<Rightarrow> u64 \<Rightarrow> 'c tview \<Rightarrow> 'c tview" where
  "vreplace n y s =
     (let s = relink (tv_parent s n) n y s;
          s = (if tv_left s n \<noteq> 0 then vset_parent (tv_left s n) y s else s);
          s = (if tv_right s n \<noteq> 0 then vset_parent (tv_right s n) y s else s)
      in vcopy n y s)"

lemma vcopy_fields [simp]:
  "tv_left (vcopy n y s) z = tv_left s (if z = y then n else z)" "tv_right (vcopy n y s) z = tv_right s (if z = y then n else z)"
  "tv_parent (vcopy n y s) z = tv_parent s (if z = y then n else z)" "tv_tag (vcopy n y s) z = tv_tag s (if z = y then n else z)"
  "tv_root (vcopy n y s) = tv_root s"
  by (simp_all add: vcopy_def)

lemma replace_fields:
  assumes "q \<noteq> n" "tv_parent s n = q" "tv_left s n = x1" "tv_right s n = x2" "x1 \<noteq> n" "x2 \<noteq> n"
  shows "tv_left (vreplace n y s) z = (if z = y then x1 else tv_left (relink q n y s) z)"
    "tv_right (vreplace n y s) z = (if z = y then x2 else tv_right (relink q n y s) z)"
    "tv_parent (vreplace n y s) z = (if z = y then q else if z \<noteq> 0 \<and> (z = x1 \<or> z = x2) then y else tv_parent s z)"
    "tv_tag (vreplace n y s) z = tv_tag s (if z = y then n else z)"
    "tv_root (vreplace n y s) = tv_root (relink q n y s)"
proof -
  let ?s1 = "relink q n y s"
  let ?s2 = "if x1 \<noteq> 0 then vset_parent x1 y ?s1 else ?s1"
  let ?s3 = "if x2 \<noteq> 0 then vset_parent x2 y ?s2 else ?s2"
  have at_n: "tv_left ?s1 n = x1" "tv_right ?s1 n = x2" using assms(1,3,4) by simp_all
  then have "tv_left ?s2 n = x1" "tv_right ?s2 n = x2" by simp_all
  then have eq: "vreplace n y s = vcopy n y ?s3" using assms(2) at_n by (simp only: vreplace_def Let_def)
  have s3: "tv_left ?s3 u = tv_left ?s1 u" "tv_right ?s3 u = tv_right ?s1 u" "tv_tag ?s3 u = tv_tag s u"
    "tv_parent ?s3 u = (if u \<noteq> 0 \<and> (u = x1 \<or> u = x2) then y else tv_parent s u)" "tv_root ?s3 = tv_root ?s1" for u
    by auto
  show "tv_left (vreplace n y s) z = (if z = y then x1 else tv_left (relink q n y s) z)"
    unfolding eq vcopy_fields s3 using at_n by (simp only: if_distrib [of "tv_left _"])
  show "tv_right (vreplace n y s) z = (if z = y then x2 else tv_right (relink q n y s) z)"
    unfolding eq vcopy_fields s3 using at_n by (simp only: if_distrib [of "tv_right _"])
  show "tv_parent (vreplace n y s) z = (if z = y then q else if z \<noteq> 0 \<and> (z = x1 \<or> z = x2) then y else tv_parent s z)"
    unfolding eq vcopy_fields s3 using assms(2,5,6) by auto
  show "tv_tag (vreplace n y s) z = tv_tag s (if z = y then n else z)" unfolding eq vcopy_fields s3 by (rule refl)
  show "tv_root (vreplace n y s) = tv_root (relink q n y s)" unfolding eq vcopy_fields s3 by (rule refl)
qed

lemma replace_focus:
  assumes F: "focus s k (RNode c l n r) n" and y: "y \<noteq> 0" "aligned y" "y \<notin> set (before k) \<union> set (after k) \<union> rset l \<union> rset r"
  shows "focus (vreplace n y s) k (RNode c l y r) y"
proof -
  let ?s = "vreplace n y s" and ?q = "ktop k"
  have n: "n \<noteq> 0" "tv_parent s n = ?q" "reps s n (tv_left s n) l" "reps s n (tv_right s n) r" "tv_tag s n = c"
    using F by (simp_all add: focus_def)
  have dist: "distinct (before k @ rinorder l @ n # rinorder r @ after k)" using F by (simp add: focus_def)
  have q: "?q = 0 \<or> ?q \<in> set (before k) \<union> set (after k)" by (cases k rule: ktop.cases) auto
  have al: "aligned ?q" using F top_aligned by (auto simp: focus_def)
  have x: "tv_left s n \<noteq> 0 \<Longrightarrow> tv_left s n \<in> rset l" "tv_right s n \<noteq> 0 \<Longrightarrow> tv_right s n \<in> rset r"
    using n(3,4) reps_nonzero by auto
  have ne: "?q \<noteq> n" "tv_left s n \<noteq> n" "tv_right s n \<noteq> n" using q n(1) dist x by auto
  note R = replace_fields [OF ne(1) n(2) refl refl ne(2,3)]
  have sub: "tv_left ?s b = tv_left s b \<and> tv_right ?s b = tv_right s b \<and> tv_tag ?s b = tv_tag s b \<and>
      tv_parent ?s b = (if b = tv_left s n \<or> b = tv_right s n then y else tv_parent s b) \<and> b \<noteq> 0"
    if b: "b \<in> rset l \<union> rset r" for b
  proof -
    have "b \<noteq> y" "b \<noteq> ?q \<or> ?q = 0" using b y(3) q dist by auto
    moreover have "b \<noteq> 0" using b n(3,4) reps_zero_notin by blast
    ultimately show ?thesis unfolding R relink_fields by auto
  qed
  have lr: "rset l \<inter> rset r = {}" using dist by auto
  have "reps ?s y (tv_left s n) l"
  proof (rule reps_reparent [OF n(3) _ y(2)])
    fix b assume b: "b \<in> rset l"
    then have "b \<noteq> tv_right s n" using sub [of b] x(2) lr by auto
    then show "tv_left ?s b = tv_left s b \<and> tv_right ?s b = tv_right s b \<and> tv_tag ?s b = tv_tag s b \<and>
      tv_parent ?s b = (if b = tv_left s n then y else tv_parent s b)" using sub [of b] b by auto
  qed (use dist in simp)
  moreover have "reps ?s y (tv_right s n) r"
  proof (rule reps_reparent [OF n(4) _ y(2)])
    fix b assume b: "b \<in> rset r"
    then have "b \<noteq> tv_left s n" using sub [of b] x(1) lr by auto
    then show "tv_left ?s b = tv_left s b \<and> tv_right ?s b = tv_right s b \<and> tv_tag ?s b = tv_tag s b \<and>
      tv_parent ?s b = (if b = tv_right s n then y else tv_parent s b)" using sub [of b] b by auto
  qed (use dist in simp)
  moreover have "repc ?s k y"
  proof -
    have N: "b \<noteq> y \<and> b \<noteq> tv_left s n \<and> b \<noteq> tv_right s n \<or> b = 0" if "b \<in> set (before k) \<union> set (after k)" for b
      using that y(3) x dist by auto
    have "repc (relink ?q n y s) k y" by (rule focus_relink [OF F n(1)]) auto
    moreover have "0 \<notin> set (before k) \<union> set (after k)"
    proof -
      have "repc s k z \<Longrightarrow> 0 \<notin> set (before k) \<union> set (after k)" for z
        by (induction k arbitrary: z rule: before.induct) (auto dest: reps_zero_notin)
      then show ?thesis using F by (auto simp: focus_def)
    qed
    ultimately have N0: "b \<noteq> y" "b \<noteq> tv_left s n" "b \<noteq> tv_right s n" if "b \<in> set (before k) \<union> set (after k)" for b
      using N [OF that] that by metis+
    have "repc ?s k y = repc (relink ?q n y s) k y"
    proof (rule repc_cong)
      fix b assume "b \<in> set (before k) \<union> set (after k)"
      note b = N0 [OF this]
      show "tv_left ?s b = tv_left (relink ?q n y s) b \<and> tv_right ?s b = tv_right (relink ?q n y s) b \<and>
        tv_parent ?s b = tv_parent (relink ?q n y s) b \<and> tv_tag ?s b = tv_tag (relink ?q n y s) b"
        unfolding R(1-4) relink_fields(1,2) using b by (simp del: relink_fields)
    qed (rule R(5))
    with \<open>repc (relink ?q n y s) k y\<close> show ?thesis by simp
  qed
  moreover have "distinct (before k @ rinorder (RNode c l y r) @ after k)" using dist y(3) by auto
  ultimately show ?thesis using y n al by (simp add: focus_def R(1-4))
qed

section \<open>Removal\<close>

text \<open>What takes the place of a node with two children, in the two cases of the code.\<close>

definition vsplice :: "u64 \<Rightarrow> u64 \<Rightarrow> u64 \<Rightarrow> u64 \<Rightarrow> 'c tview \<Rightarrow> 'c tview" where
  "vsplice n y pr yc s =
     (let s = relink (tv_parent s n) n y s;
          s = (if pr = n then s
               else
                 (let s = (if yc \<noteq> 0 then vset_parent yc pr s else s);
                      s = vset_left pr yc s;
                      s = vset_right y (tv_right s n) s
                  in vset_parent (tv_right s n) y s));
          s = vset_parent y (tv_parent s n) (vset_tag y (tv_tag s n) s);
          s = vset_left y (tv_left s n) s
      in vset_parent (tv_left s n) y s)"

lemma splice_child:
  assumes "tv_parent s n = q" "tv_left s n = xl" "tv_right s n = y" "tv_right s y = yc" "tv_parent s y = n"
    and "y \<noteq> n" "q \<noteq> n" "q \<noteq> y" "yc \<noteq> n" "yc \<noteq> y" "xl \<noteq> n" "xl \<noteq> y" "xl \<noteq> 0" "n \<noteq> 0" "aligned y" "aligned n" "yc \<noteq> 0 \<Longrightarrow> tv_parent s yc = y"
    and "z \<noteq> n"
  defines "r \<equiv> vreplace n y (relink n y yc (if yc \<noteq> 0 then vset_parent yc n s else s))" and "s' \<equiv> vsplice n y n yc s"
  shows "tv_left s' z = tv_left r z \<and> tv_right s' z = tv_right r z \<and> tv_parent s' z = tv_parent r z \<and>
    tv_tag s' z = tv_tag r z \<and> tv_root s' = tv_root r"
proof -
  obtain u where ud: "u = relink n y yc (if yc \<noteq> 0 then vset_parent yc n s else s)" by blast
  have U: "tv_left u w = tv_left s w" "tv_right u w = (if w = n then yc else tv_right s w)"
    "tv_parent u w = (if w = yc \<and> yc \<noteq> 0 then n else tv_parent s w)"
    "tv_tag u w = tv_tag s w" "tv_root u = tv_root s" for w
    using assms(2,12,14,16) by (simp_all add: ud)
  have u: "tv_parent u n = q" "tv_left u n = xl" "tv_right u n = yc" using assms(1-14) by (simp_all add: U)
  note R = replace_fields [OF assms(7) u assms(11,9)]
  have S: "tv_left s' z = (if z = y then xl else tv_left (relink q n y s) z)" "tv_right s' z = tv_right (relink q n y s) z"
    "tv_parent s' z = (if z = xl then y else if z = y then q else tv_parent s z)"
    "tv_tag s' z = tv_tag s (if z = y then n else z)" "tv_root s' = tv_root (relink q n y s)"
    unfolding s'_def vsplice_def Let_def using assms(1-15) by simp_all
  have "tv_left s' z = tv_left r z" "tv_tag s' z = tv_tag r z" "tv_root s' = tv_root r"
    unfolding S r_def ud [symmetric] R relink_fields U by (rule refl)+
  moreover have "tv_right s' z = tv_right r z"
    unfolding S r_def ud [symmetric] R relink_fields U using assms(4,8,18) by simp
  moreover have "tv_parent s' z = tv_parent r z"
    unfolding S r_def ud [symmetric] R U using assms(6,10-13) assms(17) by auto
  ultimately show ?thesis by blast
qed

lemma splice_deep:
  assumes "tv_parent s n = q" "tv_left s n = xl" "tv_right s n = xr" "tv_right s y = yc" "tv_parent s y = pr"
    and "y \<noteq> n" "q \<noteq> n" "q \<noteq> y" "yc \<noteq> n" "yc \<noteq> y" "xl \<noteq> n" "xl \<noteq> y" "xl \<noteq> 0" "n \<noteq> 0" "aligned y" "aligned pr"
    and "xr \<noteq> n" "xr \<noteq> y" "xr \<noteq> 0" "pr \<noteq> n" "pr \<noteq> y" "pr \<noteq> q" "pr \<noteq> 0" "tv_left s pr = y" "yc \<noteq> xl" "yc \<noteq> xr" "z \<noteq> n"
  defines "r \<equiv> vreplace n y (relink pr y yc (if yc \<noteq> 0 then vset_parent yc pr s else s))" and "s' \<equiv> vsplice n y pr yc s"
  shows "tv_left s' z = tv_left r z \<and> tv_right s' z = tv_right r z \<and> tv_parent s' z = tv_parent r z \<and>
    tv_tag s' z = tv_tag r z \<and> tv_root s' = tv_root r"
proof -
  obtain u where ud: "u = relink pr y yc (if yc \<noteq> 0 then vset_parent yc pr s else s)" by blast
  have U: "tv_left u w = (if w = pr then yc else tv_left s w)" "tv_right u w = tv_right s w"
    "tv_parent u w = (if w = yc \<and> yc \<noteq> 0 then pr else tv_parent s w)"
    "tv_tag u w = tv_tag s w" "tv_root u = tv_root s" for w
    using assms(16,23,24) by (simp_all add: ud)
  have u: "tv_parent u n = q" "tv_left u n = xl" "tv_right u n = xr" using assms(1-3,9,20) by (simp_all add: U)
  note R = replace_fields [OF assms(7) u assms(11,17)]
  have S: "tv_left s' z = (if z = y then xl else if z = pr then yc else tv_left (relink q n y s) z)"
    "tv_right s' z = (if z = y then xr else tv_right (relink q n y s) z)"
    "tv_parent s' z = (if z = xl then y else if z = y then q else if z = xr then y else if z = yc \<and> yc \<noteq> 0 then pr else tv_parent s z)"
    "tv_tag s' z = tv_tag s (if z = y then n else z)" "tv_root s' = tv_root (relink q n y s)"
    unfolding s'_def vsplice_def Let_def using assms(1-26) by simp_all
  have "tv_tag s' z = tv_tag r z" "tv_root s' = tv_root r"
    unfolding S r_def ud [symmetric] R relink_fields U by (rule refl)+
  moreover have "tv_left s' z = tv_left r z" "tv_right s' z = tv_right r z"
    unfolding S r_def ud [symmetric] R relink_fields U using assms(21,22) by auto
  moreover have "tv_parent s' z = tv_parent r z"
    unfolding S r_def ud [symmetric] R U using assms(10,12,13,18,19,25,26) by auto
  ultimately show ?thesis by blast
qed


text \<open>After the splice the successor stands where the node stood, and its own subtree in its old place.\<close>

lemma splice_focus:
  assumes F: "focus s (k2 @ (False, c, n, l) # k) (RNode cy RLeaf y ry) y" and l: "l \<noteq> RLeaf" and k2: "before k2 = []"
  shows "focus (vsplice n y (tv_parent s y) (tv_right s y) s) (k2 @ (False, c, y, l) # k) ry (tv_right s y)"
proof -
  let ?K = "(False, c, n, l) # k" and ?yc = "tv_right s y" and ?pr = "ktop (k2 @ (False, c, n, l) # k)"
  let ?u = "relink ?pr y ?yc (if ?yc \<noteq> 0 then vset_parent ?yc ?pr s else s)"
  let ?r = "plug k2 (RNode cy RLeaf y ry)"
  have y: "y \<noteq> 0" "aligned y" "tv_parent s y = ?pr" "tv_left s y = 0" "reps s y ?yc ry" "?yc = root_of ry"
    using F reps_root_of by (auto simp: focus_def)
  have FK: "focus s ?K ?r (root_of ?r)" using F focus_append by blast
  note FN = focus_up [OF FK, unfolded mk_False]
  have n: "n \<noteq> 0" "aligned n" "tv_parent s n = ktop k" "reps s n (tv_left s n) l" "reps s n (tv_right s n) ?r"
    using FN by (auto simp: focus_def)
  have dist: "distinct (before k @ rinorder l @ n # y # rinorder ry @ after k2 @ after k)"
    using F k2 by (simp add: focus_def)
  have xl: "tv_left s n \<in> rset l" "tv_left s n \<noteq> 0" using n(4) l reps_zero reps_nonzero by blast+
  have yc: "?yc \<noteq> 0 \<Longrightarrow> ?yc \<in> rset ry" using y(5) reps_nonzero by blast
  have q: "ktop k = 0 \<or> ktop k \<in> set (before k) \<union> set (after k)" by (cases k rule: ktop.cases) auto
  have U: "focus ?u (k2 @ ?K) ry ?yc"
    by (rule unlink_focus [OF F]) (simp_all add: y(6))
  have U2: "focus ?u k (RNode c l n (plug k2 ry)) n"
    by (rule focus_up [OF conjunct1 [OF focus_append [THEN iffD1, OF U]], unfolded mk_False])
  have fresh: "y \<notin> set (before k) \<union> set (after k) \<union> rset l \<union> rset (plug k2 ry)"
    using dist k2 by (auto simp: rinorder_plug)
  have R: "focus (vreplace n y ?u) (k2 @ (False, c, y, l) # k) ry ?yc"
  proof -
    have "focus (vreplace n y ?u) k (RNode c l y (plug k2 ry)) y" by (rule replace_focus [OF U2 y(1,2) fresh])
    then have "focus (vreplace n y ?u) ((False, c, y, l) # k) (plug k2 ry) (root_of (plug k2 ry))"
      using focus_right focus_root_of by metis
    then show ?thesis using focus_append y(6) by blast
  qed
  let ?s = "vsplice n y ?pr ?yc s"
  have ne: "y \<noteq> n" "ktop k \<noteq> n" "ktop k \<noteq> y" "?yc \<noteq> n" "?yc \<noteq> y" "tv_left s n \<noteq> n" "tv_left s n \<noteq> y" "?yc \<noteq> tv_left s n"
    using dist q n(1) y(1) xl yc by (auto simp del: relink_fields)
  have eq: "tv_left ?s z = tv_left (vreplace n y ?u) z \<and> tv_right ?s z = tv_right (vreplace n y ?u) z \<and>
    tv_parent ?s z = tv_parent (vreplace n y ?u) z \<and>
    tv_tag ?s z = tv_tag (vreplace n y ?u) z \<and> tv_root ?s = tv_root (vreplace n y ?u)"
    if z: "z \<noteq> n" for z
  proof (cases "k2 = []")
    case True
    then have "tv_right s n = y" "?pr = n" using n(5) by auto
    moreover have "?yc \<noteq> 0 \<Longrightarrow> tv_parent s ?yc = y" using y(5) by (cases ry) auto
    ultimately show ?thesis
      using splice_child [OF n(3) refl, of y ?yc z] ne xl(2) n(1,2) y z by simp
  next
    case False
    then obtain d c' a u k3 where k2': "k2 = (d, c', a, u) # k3" by (cases k2 rule: ktop.cases) auto
    then have d: "d" using k2 by (auto split: if_splits)
    have pr: "?pr = a" "aligned a" "a \<noteq> 0" "tv_left s a = y" using F k2' d by (auto simp: focus_def child_def)
    have a: "a \<in> set (after k2)" using k2' d by simp
    have xr: "tv_right s n \<noteq> 0" "tv_right s n \<in> set (after k2)"
    proof -
      have "rinorder ?r \<noteq> []" by (simp add: rinorder_plug)
      then have "?r \<noteq> RLeaf" by (metis rinorder.simps(1))
      then show 1: "tv_right s n \<noteq> 0" using n(5) reps_zero by blast
      have "tv_right s n = root_of ?r" using n(5) reps_root_of by blast
      moreover have "root_of (plug k2 t) \<in> set (after k2)" if "k2 \<noteq> []" "before k2 = []" for k2 t
        using that
      proof (induction k2 t rule: plug.induct)
        case (2 d c a u k t)
        then have d: d by (auto split: if_splits)
        then show ?case using 2 by (cases "k = []") (auto simp: mk_def)
      qed simp
      ultimately show "tv_right s n \<in> set (after k2)" using False k2 by simp
    qed
    have "tv_right s n \<noteq> n" "tv_right s n \<noteq> y" "a \<noteq> n" "a \<noteq> y" "a \<noteq> ktop k" "?yc \<noteq> tv_right s n"
      using dist xr a q pr(3) yc by (auto simp del: relink_fields)
    then show ?thesis
      using splice_deep [OF n(3) refl refl refl y(3), of z] ne xl(2) n(1,2) y pr xr(1) z by (simp only:) simp
  qed
  show ?thesis
    unfolding y(3)
  proof (rule focus_cong_at [OF R])
    show "tv_root ?s = tv_root (vreplace n y ?u)" using eq [OF ne(1)] by simp
    fix z assume "z \<in> set (before (k2 @ (False, c, y, l) # k) @ rinorder ry @ after (k2 @ (False, c, y, l) # k))"
    then have "z \<noteq> n" using dist k2 by auto
    then show "tv_left ?s z = tv_left (vreplace n y ?u) z \<and> tv_right ?s z = tv_right (vreplace n y ?u) z \<and>
      tv_parent ?s z = tv_parent (vreplace n y ?u) z \<and>
      tv_tag ?s z = tv_tag (vreplace n y ?u) z" using eq by blast
  qed
qed

end
