(* ===== verification/RbHeap.thy ===== *)
theory RbHeap imports RbTree TreeOps begin

text \<open>
  The red-black tree seen as a tree in memory (\<open>TreeHeap\<close>), the mark of a node being whether it is red, and what the rotations and
  colour changes of the code do to the subtree at the end of a path.
\<close>

section \<open>Fields after updates\<close>

lemma bit_three: "bit (3 :: u64) n \<longleftrightarrow> n = 0 \<or> n = 1"
proof -
  have three: "(3 :: u64) = mask 2" by (simp add: mask_eq_exp_minus_1)
  show ?thesis unfolding three bit_mask_iff by (simp add: less_2_cases_iff) auto
qed

lemma word_bits_gen:
  fixes pc p c m b :: u64
  assumes m: "\<And>n. bit m n \<longleftrightarrow> n = 0 \<or> n = 1" and b: "\<And>n. bit b n \<longleftrightarrow> n = 0"
  shows "p AND m = 0 \<Longrightarrow> ((pc AND m) OR p) AND NOT m = p" "p AND m = 0 \<Longrightarrow> ((pc AND m) OR p) AND b = pc AND b"
    "p AND m = 0 \<Longrightarrow> p AND NOT m = p" "p AND m = 0 \<Longrightarrow> p AND b = 0"
    "(pc AND NOT b) AND NOT m = pc AND NOT m" "(pc OR b) AND NOT m = pc AND NOT m" "(pc AND NOT b) AND b = 0" "(pc OR b) AND b = b"
    "((pc AND NOT b) OR (c AND b)) AND NOT m = pc AND NOT m" "((pc AND NOT b) OR (c AND b)) AND b = c AND b"
  by (auto simp: bit_eq_iff bit_and_iff bit_or_iff bit_not_iff m b)

lemmas word_bits = word_bits_gen [of 3 1, OF bit_three bit_1_iff, simplified]

lemma mem_upd [simp]: "rb_mem (upd_node x f s) y = (if y = x then f (rb_mem s x) else rb_mem s y)"
  "rb_root (upd_node x f s) = rb_root s" "rb_mem (set_root v s) = rb_mem s" "rb_root (set_root v s) = v"
  by (simp_all add: upd_node_def set_root_def)

named_theorems field_defs

lemmas [field_defs] = get_left_def get_right_def set_left_def set_right_def dao_rbtree_parent_def dao_rbtree_color_def
  dao_rbtree_is_red_def dao_rbtree_set_red_def dao_rbtree_set_black_def dao_rbtree_set_parent_def dao_rbtree_set_color_def

lemma root_simps [simp]:
  "rb_root (set_left x v s) = rb_root s" "rb_root (set_right x v s) = rb_root s" "rb_root (dao_rbtree_set_red x s) = rb_root s"
  "rb_root (dao_rbtree_set_black x s) = rb_root s" "rb_root (dao_rbtree_set_parent x v s) = rb_root s"
  "rb_root (dao_rbtree_set_color x c s) = rb_root s"
  by (simp_all add: field_defs)

lemma left_simps [simp]:
  "get_left (set_left x v s) y = (if y = x then v else get_left s y)" "get_left (set_right x v s) y = get_left s y"
  "get_left (set_root v s) y = get_left s y" "get_left (dao_rbtree_set_red x s) y = get_left s y"
  "get_left (dao_rbtree_set_black x s) y = get_left s y" "get_left (dao_rbtree_set_parent x v s) y = get_left s y"
  "get_left (dao_rbtree_set_color x c s) y = get_left s y"
  by (simp_all add: field_defs)

lemma right_simps [simp]:
  "get_right (set_right x v s) y = (if y = x then v else get_right s y)" "get_right (set_left x v s) y = get_right s y"
  "get_right (set_root v s) y = get_right s y" "get_right (dao_rbtree_set_red x s) y = get_right s y"
  "get_right (dao_rbtree_set_black x s) y = get_right s y" "get_right (dao_rbtree_set_parent x v s) y = get_right s y"
  "get_right (dao_rbtree_set_color x c s) y = get_right s y"
  by (simp_all add: field_defs)

lemma parent_simps [simp]:
  "dao_rbtree_parent (set_left x v s) y = dao_rbtree_parent s y" "dao_rbtree_parent (set_right x v s) y = dao_rbtree_parent s y"
  "dao_rbtree_parent (set_root v s) y = dao_rbtree_parent s y"
  "dao_rbtree_parent (dao_rbtree_set_red x s) y = dao_rbtree_parent s y"
  "dao_rbtree_parent (dao_rbtree_set_black x s) y = dao_rbtree_parent s y"
  "dao_rbtree_parent (dao_rbtree_set_color x (dao_rbtree_color s' z) s) y = dao_rbtree_parent s y"
  "aligned v \<Longrightarrow> dao_rbtree_parent (dao_rbtree_set_parent x v s) y = (if y = x then v else dao_rbtree_parent s y)"
  by (simp_all add: field_defs word_bits)

lemma red_simps [simp]:
  "dao_rbtree_is_red (set_left x v s) y = dao_rbtree_is_red s y" "dao_rbtree_is_red (set_right x v s) y = dao_rbtree_is_red s y"
  "dao_rbtree_is_red (set_root v s) y = dao_rbtree_is_red s y"
  "dao_rbtree_is_red (dao_rbtree_set_red x s) y = (y = x \<or> dao_rbtree_is_red s y)"
  "dao_rbtree_is_red (dao_rbtree_set_black x s) y = (y \<noteq> x \<and> dao_rbtree_is_red s y)"
  "dao_rbtree_is_red (dao_rbtree_set_color x (dao_rbtree_color s' z) s) y = (if y = x then dao_rbtree_is_red s' z else dao_rbtree_is_red s y)"
  "aligned v \<Longrightarrow> dao_rbtree_is_red (dao_rbtree_set_parent x v s) y = dao_rbtree_is_red s y"
  by (simp_all add: field_defs word_bits)

lemma is_black [simp]: "dao_rbtree_is_black s x = (\<not> dao_rbtree_is_red s x)"
  by (simp add: dao_rbtree_is_black_def dao_rbtree_is_red_def)

section \<open>The view\<close>

definition rview :: "rbtree \<Rightarrow> bool tview" where
  "rview s = \<lparr>tv_left = get_left s, tv_right = get_right s, tv_parent = dao_rbtree_parent s, tv_tag = dao_rbtree_is_red s, tv_root = rb_root s\<rparr>"

lemma rview_fields [simp]:
  "tv_left (rview s) = get_left s" "tv_right (rview s) = get_right s" "tv_parent (rview s) = dao_rbtree_parent s"
  "tv_tag (rview s) = dao_rbtree_is_red s" "tv_root (rview s) = rb_root s"
  by (simp_all add: rview_def)

abbreviation rfocus :: "rbtree \<Rightarrow> bool frame list \<Rightarrow> bool rtree \<Rightarrow> u64 \<Rightarrow> bool" where "rfocus s \<equiv> focus (rview s)"

abbreviation rchild :: "bool \<Rightarrow> rbtree \<Rightarrow> u64 \<Rightarrow> u64" where "rchild d s \<equiv> child d (rview s)"

text \<open>What a path says of the fields.\<close>

lemmas rfocus_plug = focus_plug [where s = "rview s" for s, unfolded rview_fields]

lemmas rfocus_frame = focus_frame [where s = "rview s" for s, unfolded rview_fields]

lemmas rfocus_parent = focus_parent [where s = "rview s" for s, unfolded rview_fields]

lemmas rfocus_left = focus_left [where s = "rview s" for s, unfolded rview_fields]

lemmas rfocus_right = focus_right [where s = "rview s" for s, unfolded rview_fields]

text \<open>The writes of the code are writes to the view.\<close>

lemma rview_writes:
  "rview (set_left x v s) = vset_left x v (rview s)" "rview (set_right x v s) = vset_right x v (rview s)"
  "rview (set_root v s) = vset_root v (rview s)" "aligned v \<Longrightarrow> rview (dao_rbtree_set_parent x v s) = vset_parent x v (rview s)"
  "rview (dao_rbtree_set_red x s) = vset_tag x True (rview s)" "rview (dao_rbtree_set_black x s) = vset_tag x False (rview s)"
  "rview (dao_rbtree_set_color x (dao_rbtree_color s' z) s) = vset_tag x (dao_rbtree_is_red s' z) (rview s)"
  by (rule tview_eqI; simp)+

section \<open>Rotations and colours\<close>

lemma rotate_right_fields:
  assumes "get_left s g = p" "p \<noteq> 0" "dao_rbtree_parent s g = q" "aligned g" "aligned p" "aligned q" "q \<noteq> p" "q \<noteq> g"
  shows "\<exists>s'. rotate_right g s = Some s' \<and> rb_root s' = (if q = 0 then p else rb_root s) \<and>
    (\<forall>y. get_left s' y = (if y = g then get_right s p else if y = q \<and> q \<noteq> 0 \<and> get_right s q \<noteq> g then p else get_left s y) \<and>
         get_right s' y = (if y = p then g else if y = q \<and> q \<noteq> 0 \<and> get_right s q = g then p else get_right s y) \<and>
         dao_rbtree_parent s' y = (if y = g then p else if y = p then q else if y = get_right s p \<and> y \<noteq> 0 then g else dao_rbtree_parent s y) \<and>
         dao_rbtree_is_red s' y = dao_rbtree_is_red s y)"
  using assms by (auto simp: rotate_right_def Let_def)

lemma rotate_left_fields:
  assumes "get_right s g = p" "p \<noteq> 0" "dao_rbtree_parent s g = q" "aligned g" "aligned p" "aligned q" "q \<noteq> p" "q \<noteq> g"
  shows "\<exists>s'. rotate_left g s = Some s' \<and> rb_root s' = (if q = 0 then p else rb_root s) \<and>
    (\<forall>y. get_right s' y = (if y = g then get_left s p else if y = q \<and> q \<noteq> 0 \<and> get_left s q \<noteq> g then p else get_right s y) \<and>
         get_left s' y = (if y = p then g else if y = q \<and> q \<noteq> 0 \<and> get_left s q = g then p else get_left s y) \<and>
         dao_rbtree_parent s' y = (if y = g then p else if y = p then q else if y = get_left s p \<and> y \<noteq> 0 then g else dao_rbtree_parent s y) \<and>
         dao_rbtree_is_red s' y = dao_rbtree_is_red s y)"
  using assms by (auto simp: rotate_left_def Let_def)

text \<open>Both rotations at once: \<open>rot d\<close> lifts the child on side \<open>d\<close>.\<close>

definition rot :: "bool \<Rightarrow> u64 \<Rightarrow> rbtree \<Rightarrow> rbtree option" where
  "rot d g s = (if d then rotate_right g s else rotate_left g s)"

lemma rot_rotated:
  assumes "rchild d s g = p" "p \<noteq> 0" "dao_rbtree_parent s g = q" "aligned g" "aligned p" "aligned q" "q \<noteq> p" "q \<noteq> g"
  shows "\<exists>s'. rot d g s = Some s' \<and> rotated d g (rview s) (rview s')"
proof (cases d)
  case True
  have "get_left s g = p" using assms(1) True by (simp add: child_def)
  from rotate_right_fields [OF this assms(2-)] True show ?thesis
    unfolding rotated_def Let_def rview_fields assms(1,3)
    by (simp only: child_def rview_fields rot_def if_True if_False not_True_eq_False)
next
  case False
  have "get_right s g = p" using assms(1) False by (simp add: child_def)
  from rotate_left_fields [OF this assms(2-)] False show ?thesis
    unfolding rotated_def Let_def rview_fields assms(1,3)
    by (simp only: child_def rview_fields rot_def if_True if_False not_False_eq_True)
qed

lemma rot_focus:
  assumes "rfocus s k (mk d cg (mk d cp A p B) g U) g"
  shows "\<exists>s'. rot d g s = Some s' \<and> rfocus s' k (mk d cp A p (mk d cg B g U)) p"
proof -
  have "\<exists>s'. rot d g s = Some s' \<and> rotated d g (rview s) (rview s')"
  proof (rule rot_rotated [OF refl _ refl])
    show "rchild d s g \<noteq> 0" "aligned g" "aligned (rchild d s g)" using assms by (simp_all add: focus_def reps_mk)
    show "aligned (dao_rbtree_parent s g)" using assms top_aligned by (auto simp: focus_def reps_mk)
    have g: "rchild d s g = p" "p \<noteq> 0" "g \<noteq> 0" "dao_rbtree_parent s g = ktop k" using assms by (simp_all add: focus_def reps_mk)
    have "p \<in> rset (mk d cg (mk d cp A p B) g U)" "g \<in> rset (mk d cg (mk d cp A p B) g U)" by (simp_all add: mk_def)
    then have "p \<noteq> ktop k" "g \<noteq> ktop k" using focus_disjoint [OF assms] ktop_in [of k] g(2,3) by metis+
    then show "dao_rbtree_parent s g \<noteq> rchild d s g" "dao_rbtree_parent s g \<noteq> g" using g by simp_all
  qed
  then show ?thesis using rotated_focus [OF assms] by blast
qed

lemma paint_black: "rfocus s k (mk d c t a u) a \<Longrightarrow> rfocus (dao_rbtree_set_black a s) k (mk d False t a u) a"
  by (erule recolor_focus) (simp_all add: rview_writes)

lemma paint_red: "rfocus s k (mk d c t a u) a \<Longrightarrow> rfocus (dao_rbtree_set_red a s) k (mk d True t a u) a"
  by (erule recolor_focus) (simp_all add: rview_writes)

lemma paint_like: "rfocus s k (mk d c t a u) a \<Longrightarrow> dao_rbtree_is_red s' z = c' \<Longrightarrow>
  rfocus (dao_rbtree_set_color a (dao_rbtree_color s' z) s) k (mk d c' t a u) a"
  by (erule recolor_focus) (simp_all add: rview_writes)

fun isred :: "bool rtree \<Rightarrow> bool" where
  "isred RLeaf = False"
| "isred (RNode c l a r) = c"

lemma focus_isred: "rfocus s k t x \<Longrightarrow> isred t \<longleftrightarrow> x \<noteq> 0 \<and> dao_rbtree_is_red s x"
  by (cases t) (auto simp: focus_def)

lemma focus_split: "rfocus s k t x \<Longrightarrow> x \<noteq> 0 \<Longrightarrow> \<exists>l r. t = mk d (isred t) l x r"
proof (cases t)
  case (RNode c l a r)
  assume "rfocus s k t x"
  then have "a = x" using RNode by (simp add: focus_def)
  then have "t = mk d (isred t) (if d then l else r) x (if d then r else l)" using RNode by (simp add: mk_def)
  then show ?thesis by blast
qed (auto simp: focus_def)

end
