(* ===== verification/OrderedSet.thy ===== *)
theory OrderedSet imports Prelude begin

text \<open>
  The contract of a set of nodes kept in the order of their keys, with at most one node for a key, as the
  red-black tree (\<open>kernel/rbtree.c\<close>) provides it.
\<close>

datatype 'a set_op = SetIns 'a | SetDel 'a

text \<open>What the list of nodes becomes: a node whose key is there already is not put in.\<close>

fun set_step :: "('a \<Rightarrow> 'k::linorder) \<Rightarrow> 'a set_op \<Rightarrow> 'a list \<Rightarrow> 'a list" where
  "set_step key (SetIns x) xs = (if \<exists>m\<in>set xs. key m = key x then xs else insort_key key x xs)"
| "set_step key (SetDel x) xs = remove1 x xs"

text \<open>Only nodes outside the set are put in, and only members taken out.\<close>

fun set_ok :: "('a \<Rightarrow> bool) \<Rightarrow> ('a \<Rightarrow> 'k::linorder) \<Rightarrow> 'a list \<Rightarrow> 'a set_op list \<Rightarrow> bool" where
  "set_ok good key xs [] = True"
| "set_ok good key xs (SetIns x # ops) = (good x \<and> x \<notin> set xs \<and> set_ok good key (set_step key (SetIns x) xs) ops)"
| "set_ok good key xs (SetDel x # ops) = (x \<in> set xs \<and> set_ok good key (set_step key (SetDel x) xs) ops)"

fun set_run :: "('a \<Rightarrow> 's \<Rightarrow> ('r \<times> 's) option) \<Rightarrow> ('a \<Rightarrow> 's \<Rightarrow> 's option) \<Rightarrow> 'a set_op list \<Rightarrow> 's \<Rightarrow> 's option" where
  "set_run ins del [] s = Some s"
| "set_run ins del (SetIns x # ops) s = Option.bind (ins x s) (\<lambda>(r, s). set_run ins del ops s)"
| "set_run ins del (SetDel x # ops) s = Option.bind (del x s) (set_run ins del ops)"

locale ordered_set =
  fixes rep :: "'s \<Rightarrow> 'a list \<Rightarrow> bool"
    and good :: "'a \<Rightarrow> bool"
    and key :: "'a \<Rightarrow> 'k::linorder"
    and ins :: "'a \<Rightarrow> 's \<Rightarrow> ('r \<times> 's) option"
    and del :: "'a \<Rightarrow> 's \<Rightarrow> 's option"
    and look :: "'a \<Rightarrow> 's \<Rightarrow> 'a option"
    and null :: 'a
  assumes rep_ins: "rep s xs \<Longrightarrow> good x \<Longrightarrow> x \<notin> set xs \<Longrightarrow> \<exists>r s'. ins x s = Some (r, s') \<and> rep s' (set_step key (SetIns x) xs)"
    and rep_del: "rep s xs \<Longrightarrow> x \<in> set xs \<Longrightarrow> \<exists>s'. del x s = Some s' \<and> rep s' (set_step key (SetDel x) xs)"
    and rep_look: "rep s xs \<Longrightarrow> look x s = Some (case find (\<lambda>m. key m = key x) xs of Some m \<Rightarrow> m | None \<Rightarrow> null)"
begin

lemma rep_run:
  "rep s xs \<Longrightarrow> set_ok good key xs ops \<Longrightarrow> \<exists>s'. set_run ins del ops s = Some s' \<and> rep s' (fold (set_step key) ops xs)"
proof (induction ops arbitrary: s xs)
  case (Cons c ops)
  show ?case
  proof (cases c)
    case (SetIns x)
    then have ok: "good x" "x \<notin> set xs" "set_ok good key (set_step key (SetIns x) xs) ops"
      using Cons.prems(2) by (simp_all del: set_step.simps)
    then obtain r s' where "ins x s = Some (r, s')" "rep s' (set_step key (SetIns x) xs)"
      using rep_ins [OF Cons.prems(1)] by blast
    then show ?thesis using Cons.IH ok(3) SetIns by (simp del: set_step.simps)
  next
    case (SetDel x)
    then have ok: "x \<in> set xs" "set_ok good key (set_step key (SetDel x) xs) ops"
      using Cons.prems(2) by (simp_all del: set_step.simps)
    then obtain s' where "del x s = Some s'" "rep s' (set_step key (SetDel x) xs)"
      using rep_del [OF Cons.prems(1)] by blast
    then show ?thesis using Cons.IH ok(2) SetDel by (simp del: set_step.simps)
  qed
qed simp

lemma look_run:
  assumes "rep s xs" "set_ok good key xs ops"
  shows "Option.bind (set_run ins del ops s) (look x) =
    Some (case find (\<lambda>m. key m = key x) (fold (set_step key) ops xs) of Some m \<Rightarrow> m | None \<Rightarrow> null)"
  using rep_run [OF assms] rep_look by auto

end

end
