(* ===== verification/SortedTree.thy ===== *)
theory SortedTree imports TreeOps OrderedSet begin

text \<open>
  Trees in memory whose nodes stand in the order of a key: searching, the neighbours of a node, and what inserting,
  removing and replacing a node do to the sorted list of nodes. Both search trees of the kernel rest on it.
\<close>

section \<open>Order\<close>

text \<open>The comparison orders nodes by a key.\<close>

definition cmp_by :: "(u64 \<Rightarrow> u64 \<Rightarrow> int) \<Rightarrow> (u64 \<Rightarrow> 'k::linorder) \<Rightarrow> bool" where
  "cmp_by cmp key \<longleftrightarrow> (\<forall>a b. (cmp a b < 0 \<longleftrightarrow> key a < key b) \<and> (cmp a b > 0 \<longleftrightarrow> key b < key a))"

text \<open>The comparison that goes with a key.\<close>

definition cmp_of :: "(u64 \<Rightarrow> 'k::linorder) \<Rightarrow> u64 \<Rightarrow> u64 \<Rightarrow> int" where
  "cmp_of key a b = (if key a < key b then - 1 else if key b < key a then 1 else 0)"

lemma cmp_of: "cmp_by (cmp_of key) key"
  by (auto simp: cmp_by_def cmp_of_def)

definition key_sorted :: "(u64 \<Rightarrow> 'k::linorder) \<Rightarrow> u64 list \<Rightarrow> bool" where
  "key_sorted key = sorted_wrt (\<lambda>a b. key a < key b)"

lemma key_sorted_append: "key_sorted key (xs @ ys) \<longleftrightarrow>
  key_sorted key xs \<and> key_sorted key ys \<and> (\<forall>x\<in>set xs. \<forall>y\<in>set ys. key x < key y)"
  by (simp add: key_sorted_def sorted_wrt_append)

lemma key_sorted_Cons: "key_sorted key (x # ys) \<longleftrightarrow> (\<forall>y\<in>set ys. key x < key y) \<and> key_sorted key ys"
  by (simp add: key_sorted_def)

lemma insort_between:
  "\<forall>x\<in>set xs. key x < key n \<Longrightarrow> \<forall>y\<in>set ys. key n < key y \<Longrightarrow> insort_key key n (xs @ ys) = xs @ n # ys"
  by (induction xs) (auto simp: insort_is_Cons less_imp_le)

lemma insort_sorted:
  "key_sorted key xs \<Longrightarrow> \<forall>x\<in>set xs. key x \<noteq> key n \<Longrightarrow> key_sorted key (insort_key key n xs)"
  by (induction xs) (auto simp: key_sorted_Cons set_insort_key intro: less_trans)

lemma key_sorted_remove1: "key_sorted key xs \<Longrightarrow> key_sorted key (remove1 x xs)"
  by (induction xs) (auto simp: key_sorted_Cons dest: notin_set_remove1)

lemma key_sorted_map: "(\<And>a. a \<in> set xs \<Longrightarrow> key (f a) = key a) \<Longrightarrow> key_sorted key xs \<Longrightarrow> key_sorted key (map f xs)"
  by (induction xs) (auto simp: key_sorted_Cons key_sorted_def)

lemma distinct_split: "distinct (xs @ n # ys) \<Longrightarrow> xs @ n # ys = us @ n # vs \<Longrightarrow> xs = us \<and> ys = vs"
proof -
  assume d: "distinct (xs @ n # ys)" and e: "xs @ n # ys = us @ n # vs"
  have "n \<notin> set xs" "n \<notin> set ys" using d by auto
  then show ?thesis using append_Cons_eq_iff [of n xs ys us vs] e by blast
qed

section \<open>Sorted trees\<close>

text \<open>The tree holds the nodes \<open>xs\<close>, in order of their keys; \<open>ok\<close> is the balance the tree keeps.\<close>

definition tree_holds :: "('c rtree \<Rightarrow> bool) \<Rightarrow> (u64 \<Rightarrow> 'k::linorder) \<Rightarrow> 'c tview \<Rightarrow> u64 list \<Rightarrow> bool" where
  "tree_holds ok key v xs \<longleftrightarrow> (\<exists>t. focus v [] t (tv_root v) \<and> ok t \<and> rinorder t = xs) \<and> key_sorted key xs"

lemma holds_path:
  assumes "tree_holds ok key v xs" "n \<in> set xs"
  shows "\<exists>k c l r. focus v k (RNode c l n r) n \<and> ok (plug k (RNode c l n r)) \<and> rinorder (plug k (RNode c l n r)) = xs"
  using assms find_path [of v "[]"] by (fastforce simp: tree_holds_def)

lemma holds_distinct: "tree_holds ok key v xs \<Longrightarrow> distinct xs"
  by (auto simp: tree_holds_def focus_def)

lemma holds_remove:
  assumes "tree_holds ok key v (rinorder (plug k (RNode c l n r)))" "focus v k (RNode c l n r) n"
    and "focus v' [] t (tv_root v')" "ok t" "rinorder t = before k @ rinorder l @ rinorder r @ after k"
  shows "tree_holds ok key v' (remove1 n (rinorder (plug k (RNode c l n r))))"
proof -
  have "n \<notin> set (before k)" "n \<notin> rset l" using assms(2) by (auto simp: focus_def)
  then have "rinorder t = remove1 n (rinorder (plug k (RNode c l n r)))"
    using assms(5) by (auto simp: rinorder_plug remove1_append)
  moreover have "key_sorted key (rinorder (plug k (RNode c l n r)))" using assms(1) by (simp add: tree_holds_def)
  ultimately show ?thesis using assms(3,4) key_sorted_remove1 unfolding tree_holds_def by metis
qed

lemma plug_replace:
  "distinct (before k @ rinorder l @ n # rinorder r @ after k) \<Longrightarrow>
   rinorder (plug k (RNode c l y r)) = map (\<lambda>a. if a = n then y else a) (rinorder (plug k (RNode c l n r)))"
  by (auto simp: rinorder_plug intro!: map_idI [symmetric])

text \<open>Searching for a key, by the recursion of both lookup loops.\<close>

lemma lookup_loop:
  assumes rec: "\<And>x. f x = (if x = 0 then Some 0 else if key n < key x then f (tv_left s x)
      else if key x < key n then f (tv_right s x) else Some x)"
    and "focus s k t x" "key_sorted key (rinorder t)"
  shows "f x = Some (case find (\<lambda>m. key m = key n) (rinorder t) of Some m \<Rightarrow> m | None \<Rightarrow> 0)"
  using assms(2,3)
proof (induction t arbitrary: k x)
  case RLeaf
  then show ?case by (subst rec) (simp add: focus_def)
next
  case (RNode c l a r)
  have a: "x = a" "a \<noteq> 0" using RNode.prems(1) by (auto simp: focus_def)
  have sl: "focus s ((True, c, a, r) # k) l (tv_left s a)" using RNode.prems(1) by (simp add: focus_left)
  have sr: "focus s ((False, c, a, l) # k) r (tv_right s a)" using RNode.prems(1) by (simp add: focus_right)
  have srt: "\<forall>y\<in>rset r. key a < key y" "\<forall>y\<in>rset l. key y < key a" "key_sorted key (rinorder l)" "key_sorted key (rinorder r)"
    using RNode.prems(2) by (auto simp: key_sorted_append key_sorted_Cons)
  have none: "find P ys = None" if "\<forall>y\<in>set ys. \<not> P y" for P and ys :: "u64 list"
    using that by (auto simp: find_None_iff)
  have app: "find P (xs @ ys) = (case find P xs of Some x \<Rightarrow> Some x | None \<Rightarrow> find P ys)" for P and xs ys :: "u64 list"
    by (induction xs) auto
  consider "key n < key a" | "key a < key n" | "key a = key n" by (meson linorder_cases)
  then show ?case
  proof cases
    case 1
    then have "find (\<lambda>m. key m = key n) (rinorder r) = None" using srt(1) by (intro none) auto
    moreover have "f x = f (tv_left s a)" using 1 a by (subst rec) simp
    ultimately show ?thesis using RNode.IH(1) [OF sl srt(3)] 1 less_irrefl by (auto simp: app split: option.split)
  next
    case 2
    then have "find (\<lambda>m. key m = key n) (rinorder l) = None" using srt(2) by (intro none) auto
    moreover have "f x = f (tv_right s a)" using 2 a by (subst rec) auto
    ultimately show ?thesis using RNode.IH(2) [OF sr srt(4)] 2 less_irrefl by (auto simp: app split: option.split)
  next
    case 3
    then have "find (\<lambda>m. key m = key n) (rinorder l) = None" using srt(2) by (intro none) auto
    moreover have "f x = Some a" using 3 a by (subst rec) simp
    ultimately show ?thesis using 3 by (simp add: app)
  qed
qed

section \<open>Neighbours\<close>

locale tree_walk =
  fixes v :: "'c tview" and lm rm cr cl :: "u64 \<Rightarrow> u64 option"
  assumes lm: "lm n = (if tv_left v n = 0 then Some n else lm (tv_left v n))"
    and rm: "rm n = (if tv_right v n = 0 then Some n else rm (tv_right v n))"
    and cr: "cr n = (if tv_parent v n \<noteq> 0 \<and> n = tv_right v (tv_parent v n) then cr (tv_parent v n) else Some (tv_parent v n))"
    and cl: "cl n = (if tv_parent v n \<noteq> 0 \<and> n = tv_left v (tv_parent v n) then cl (tv_parent v n) else Some (tv_parent v n))"
begin

lemma neighbours:
  assumes "focus v k (RNode c l n r) n"
  shows "(if tv_right v n \<noteq> 0 then lm (tv_right v n) else cr n) = Some (case rinorder r @ after k of [] \<Rightarrow> 0 | y # _ \<Rightarrow> y)"
    "(if tv_left v n \<noteq> 0 then rm (tv_left v n) else cl n) = Some (if before k @ rinorder l = [] then 0 else last (before k @ rinorder l))"
proof -
  have n: "n \<noteq> 0" "tv_right v n = 0 \<longleftrightarrow> r = RLeaf" "tv_left v n = 0 \<longleftrightarrow> l = RLeaf"
    using assms reps_zero by (auto simp: focus_def)
  show "(if tv_right v n \<noteq> 0 then lm (tv_right v n) else cr n) = Some (case rinorder r @ after k of [] \<Rightarrow> 0 | y # _ \<Rightarrow> y)"
  proof (cases "r = RLeaf")
    case True
    then show ?thesis using n climb_right [OF cr assms n(1)] by simp
  next
    case False
    obtain k2 c' y r' where y: "lm (tv_right v n) = Some y" "before k2 = []" "plug k2 (RNode c' RLeaf y r') = r"
      using leftmost [OF lm conjunct2 [OF assms [unfolded focus_right]] False] by blast
    have "rinorder r = y # rinorder r' @ after k2" using y(2) rinorder_plug [of k2 "RNode c' RLeaf y r'"] y(3) by simp
    then show ?thesis using y(1) n False by simp
  qed
  show "(if tv_left v n \<noteq> 0 then rm (tv_left v n) else cl n) = Some (if before k @ rinorder l = [] then 0 else last (before k @ rinorder l))"
  proof (cases "l = RLeaf")
    case True
    then show ?thesis using n climb_left [OF cl assms n(1)] by simp
  next
    case False
    obtain k2 c' y l' where y: "rm (tv_left v n) = Some y" "after k2 = []" "plug k2 (RNode c' l' y RLeaf) = l"
      using rightmost [OF rm conjunct2 [OF assms [unfolded focus_left]] False] by blast
    have "rinorder l = before k2 @ rinorder l' @ [y]" using y(2) rinorder_plug [of k2 "RNode c' l' y RLeaf"] y(3) by simp
    then show ?thesis using y(1) n False by simp
  qed
qed

lemma ends:
  assumes "focus v k t x" "t \<noteq> RLeaf"
  shows "lm x = Some (hd (rinorder t))" "rm x = Some (last (rinorder t))"
proof -
  obtain k2 c y r where y: "lm x = Some y" "before k2 = []" "plug k2 (RNode c RLeaf y r) = t"
    using leftmost [OF lm assms] by blast
  have "rinorder t = y # rinorder r @ after k2" using y(2) rinorder_plug [of k2 "RNode c RLeaf y r"] y(3) by simp
  then show "lm x = Some (hd (rinorder t))" using y(1) by simp
  obtain k3 c z l where z: "rm x = Some z" "after k3 = []" "plug k3 (RNode c l z RLeaf) = t"
    using rightmost [OF rm assms] by blast
  have "rinorder t = before k3 @ rinorder l @ [z]" using z(2) rinorder_plug [of k3 "RNode c l z RLeaf"] z(3) by simp
  then show "rm x = Some (last (rinorder t))" using z(1) by simp
qed

lemma holds_neighbours:
  assumes "tree_holds ok key v (xs @ n # ys)"
  shows "(if tv_right v n \<noteq> 0 then lm (tv_right v n) else cr n) = Some (case ys of [] \<Rightarrow> 0 | y # _ \<Rightarrow> y)"
    "(if tv_left v n \<noteq> 0 then rm (tv_left v n) else cl n) = Some (if xs = [] then 0 else last xs)"
    "tv_parent v n \<noteq> n"
proof -
  obtain k c l r where F: "focus v k (RNode c l n r) n" "rinorder (plug k (RNode c l n r)) = xs @ n # ys"
    using holds_path [OF assms, of n] by auto
  have "before k @ rinorder l = xs \<and> rinorder r @ after k = ys"
    using distinct_split [OF holds_distinct [OF assms], of "before k @ rinorder l" "rinorder r @ after k"] F(2) by (simp add: rinorder_plug)
  then show "(if tv_right v n \<noteq> 0 then lm (tv_right v n) else cr n) = Some (case ys of [] \<Rightarrow> 0 | y # _ \<Rightarrow> y)"
    "(if tv_left v n \<noteq> 0 then rm (tv_left v n) else cl n) = Some (if xs = [] then 0 else last xs)"
    using neighbours [OF F(1)] by auto
  have "n \<noteq> 0" "tv_parent v n = ktop k" using F(1) by (simp_all add: focus_def)
  then show "tv_parent v n \<noteq> n" using focus_neq_parent [OF F(1)] by simp
qed

lemma holds_ends:
  assumes "tree_holds ok key v xs" "xs \<noteq> []"
  shows "lm (tv_root v) = Some (hd xs)" "rm (tv_root v) = Some (last xs)" "tv_root v \<noteq> 0"
proof -
  obtain t where t: "focus v [] t (tv_root v)" "rinorder t = xs" using assms(1) by (auto simp: tree_holds_def)
  have "t \<noteq> RLeaf" using t assms(2) by auto
  then show "lm (tv_root v) = Some (hd xs)" "rm (tv_root v) = Some (last xs)" "tv_root v \<noteq> 0"
    using ends [OF t(1)] t(2) focus_leaf [OF t(1)] by auto
qed

end

section \<open>Height\<close>

fun rheight :: "'c rtree \<Rightarrow> nat" where
  "rheight RLeaf = 0"
| "rheight (RNode c l a r) = 1 + max (rheight l) (rheight r)"

lemma rheight_mk [simp]: "rheight (mk d c t a u) = 1 + max (rheight t) (rheight u)"
  by (simp add: mk_def max.commute)

lemma rheight_plug: "length k + rheight t \<le> rheight (plug k t)"
proof (induction k t rule: plug.induct)
  case (2 d c a u k t)
  have "rheight t + 1 \<le> rheight (mk d c t a u)" by simp
  then show ?case using 2 by simp
qed simp

text \<open>Going up from the end of a path leads out of the tree after as many steps as the path is long.\<close>

lemma parent_path: "focus s k t x \<Longrightarrow> x \<noteq> 0 \<Longrightarrow> (tv_parent s ^^ (length k + 1)) x = 0"
proof (induction k arbitrary: t x)
  case Nil
  then show ?case using focus_parent [OF Nil] by simp
next
  case (Cons f k)
  obtain d c a u where f: "f = (d, c, a, u)" by (cases f)
  note F = Cons.prems(1) [unfolded f]
  have "tv_parent s x = a" "a \<noteq> 0" using focus_parent [OF F Cons.prems(2)] focus_frame [OF F] by auto
  then show ?case using Cons.IH [OF focus_up [OF F]] by (simp add: funpow_swap1)
qed

section \<open>Linking a leaf\<close>

lemma link_focus:
  assumes F: "focus s k RLeaf 0" "n \<noteq> 0" "aligned n" "n \<notin> set (before k) \<union> set (after k)"
    and new: "tv_left s' n = 0" "tv_right s' n = 0" "tv_parent s' n = ktop k" "tv_tag s' n = c"
    and keep: "\<And>y. y \<noteq> n \<Longrightarrow> tv_parent s' y = tv_parent s y \<and> tv_tag s' y = tv_tag s y"
      "\<And>y. y \<noteq> n \<Longrightarrow> y \<noteq> ktop k \<Longrightarrow> tv_left s' y = tv_left s y \<and> tv_right s' y = tv_right s y"
    and link: "case k of [] \<Rightarrow> tv_root s' = n
       | (d, _, a, _) # _ \<Rightarrow> child d s' a = n \<and> child (\<not> d) s' a = child (\<not> d) s a \<and> tv_root s' = tv_root s"
  shows "focus s' k (RNode c RLeaf n RLeaf) n"
proof -
  have "repc s' k n"
  proof (rule repc_relink [OF _ _ _ _ link])
    show "repc s k 0" "distinct (before k @ after k)" using F(1) by (simp_all add: focus_def)
  next
    fix y assume "y \<in> set (before k) \<union> set (after k)"
    then have y: "y \<noteq> n" using F(4) by auto
    then show "tv_parent s' y = tv_parent s y \<and> tv_tag s' y = tv_tag s y" by (rule keep)
    show "y \<noteq> ktop k \<Longrightarrow> tv_left s' y = tv_left s y \<and> tv_right s' y = tv_right s y" using y by (rule keep)
  qed
  then show ?thesis using F new by (simp add: focus_def)
qed

end
