(* ===== verification/RbInsert.thy ===== *)
theory RbInsert imports RbHeap SortedTree begin

text \<open>
  Insertion into the red-black tree: the search for the place, the loop that repairs the colours, and the
  tree that results.
\<close>

section \<open>Red-black trees\<close>

fun bheight :: "bool rtree \<Rightarrow> nat" where
  "bheight RLeaf = 0"
| "bheight (RNode c l a r) = bheight l + (if c then 0 else 1)"

fun invh :: "bool rtree \<Rightarrow> bool" where
  "invh RLeaf = True"
| "invh (RNode c l a r) \<longleftrightarrow> bheight l = bheight r \<and> invh l \<and> invh r"

fun invc :: "bool rtree \<Rightarrow> bool" where
  "invc RLeaf = True"
| "invc (RNode c l a r) \<longleftrightarrow> (c \<longrightarrow> \<not> isred l \<and> \<not> isred r) \<and> invc l \<and> invc r"

fun paintb :: "bool rtree \<Rightarrow> bool rtree" where
  "paintb RLeaf = RLeaf"
| "paintb (RNode c l a r) = RNode False l a r"

text \<open>The same of a path: what a subtree of black height \<open>h\<close> at its end fits into.\<close>

fun hinv :: "bool frame list \<Rightarrow> nat \<Rightarrow> bool" where
  "hinv [] h = True"
| "hinv ((d, c, a, u) # k) h \<longleftrightarrow> invh u \<and> bheight u = h \<and> hinv k (h + (if c then 0 else 1))"

fun ktop_black :: "bool frame list \<Rightarrow> bool" where
  "ktop_black [] = False"
| "ktop_black ((d, c, a, u) # k) = (\<not> c)"

fun cinv :: "bool frame list \<Rightarrow> bool" where
  "cinv [] = True"
| "cinv ((d, c, a, u) # k) \<longleftrightarrow> invc u \<and> (c \<longrightarrow> \<not> isred u \<and> ktop_black k) \<and> cinv k"

lemma mk_simps [simp]:
  "isred (mk d c t a u) = c" "rinorder (mk d c t a u) = (if d then rinorder t @ a # rinorder u else rinorder u @ a # rinorder t)"
  "invc (mk d c t a u) \<longleftrightarrow> (c \<longrightarrow> \<not> isred t \<and> \<not> isred u) \<and> invc t \<and> invc u"
  "invh (mk d c t a u) \<longleftrightarrow> bheight t = bheight u \<and> invh t \<and> invh u"
  "bheight t = bheight u \<Longrightarrow> bheight (mk d c t a u) = bheight t + (if c then 0 else 1)"
  "mk d c t a u \<noteq> RLeaf" "paintb (mk d c t a u) = mk d False t a u"
  by (auto simp: mk_def)

lemma hinv_plug: "invh t \<Longrightarrow> hinv k (bheight t) \<Longrightarrow> invh (plug k t)"
  by (induction k t rule: plug.induct) auto

lemma cinv_plug: "invc t \<Longrightarrow> cinv k \<Longrightarrow> isred t \<longrightarrow> k = [] \<or> ktop_black k \<Longrightarrow> invc (plug k t)"
proof (induction k t rule: plug.induct)
  case (2 d c a u k t)
  then show ?case by (cases c) auto
qed simp

definition is_rbt :: "bool rtree \<Rightarrow> bool" where
  "is_rbt t \<longleftrightarrow> invh t \<and> invc t \<and> \<not> isred t"

section \<open>The loop\<close>

lemma insert_stop:
  assumes "rfocus s k t n" "n \<noteq> 0" "k = [] \<or> ktop_black k"
  shows "rb_insert_loop n s = Some s"
proof -
  have "ktop k = 0 \<or> \<not> dao_rbtree_is_red s (ktop k)"
    using assms(1,3) by (cases k rule: ktop_black.cases) (auto simp: focus_def)
  then show ?thesis using rfocus_parent [OF assms(1,2)] by (subst rb_insert_loop.simps) (auto simp: Let_def)
qed

lemma insert_step:
  assumes "dao_rbtree_parent s n = p" "p \<noteq> 0" "dao_rbtree_is_red s p" "dao_rbtree_parent s p = g" "g \<noteq> 0"
    "rchild d s g = p" "rchild (\<not> d) s g \<noteq> p"
  shows "rb_insert_loop n s =
    (let uncle = rchild (\<not> d) s g in
     if uncle \<noteq> 0 \<and> dao_rbtree_is_red s uncle then
       rb_insert_loop g (dao_rbtree_set_red g (dao_rbtree_set_black p (dao_rbtree_set_black uncle s)))
     else
       Option.bind (if rchild (\<not> d) s p = n then map_option (\<lambda>s. (s, n, p)) (rot (\<not> d) p s) else Some (s, p, n))
         (\<lambda>(s, p, n). Option.bind (rot d g (dao_rbtree_set_red g (dao_rbtree_set_black p s))) (\<lambda>s. rb_insert_loop n s)))"
  using assms by (subst rb_insert_loop.simps) (cases d; simp add: Let_def child_def rot_def cong: if_cong)

lemma insert_straight:
  assumes "rfocus s ((d, True, p, B) # (d, False, g, U) # k) t n" "n \<noteq> 0"
  shows "\<exists>s'. rot d g (dao_rbtree_set_red g (dao_rbtree_set_black p s)) = Some s' \<and>
    rfocus s' ((d, False, p, mk d True B g U) # k) t n \<and> rb_insert_loop n s' = Some s'"
proof -
  note F = paint_red [OF focus_up [OF paint_black [OF focus_up [OF assms(1)]]]]
  obtain s' where s': "rot d g (dao_rbtree_set_red g (dao_rbtree_set_black p s)) = Some s'"
    "rfocus s' k (mk d False t p (mk d True B g U)) p"
    using rot_focus [OF F] by blast
  have into: "rfocus s' ((d, False, p, mk d True B g U) # k) t (rchild d s' p)" by (rule focus_into [OF s'(2)])
  have "t \<noteq> RLeaf" using focus_leaf [OF assms(1)] assms(2) by simp
  then have "rchild d s' p = n"
    using into assms(1) by (cases t) (auto simp: focus_def)
  then show ?thesis using s'(1) into insert_stop [OF into] assms(2) by simp
qed

lemma insert_loop:
  assumes "rfocus s k t n" "isred t" "invc t" "invh t" "cinv k" "hinv k (bheight t)"
  shows "\<exists>s' t'. rb_insert_loop n s = Some s' \<and> rfocus s' [] t' (rb_root s') \<and> rinorder t' = rinorder (plug k t) \<and>
    invh t' \<and> invc (paintb t')"
  using assms
proof (induction "length k" arbitrary: s k t n rule: less_induct)
  case less
  have n0: "n \<noteq> 0" using focus_isred [OF less.prems(1)] less.prems(2) by simp
  have fin: ?case if "rfocus s' k' t' n'" "rb_insert_loop n s = Some s'" "rinorder (plug k' t') = rinorder (plug k t)"
      "invh t'" "hinv k' (bheight t')" "invc t'" "cinv k'" "k' = [] \<or> ktop_black k'" for s' k' t' n'
  proof -
    have "invc (paintb (plug k' t'))"
      using cinv_plug [OF that(6,7)] that(8) by (cases "plug k' t'") auto
    then show ?thesis using that rfocus_plug [OF that(1)] hinv_plug [OF that(4,5)] by blast
  qed
  show ?case
  proof (cases "k = [] \<or> ktop_black k")
    case True
    then show ?thesis using fin [OF less.prems(1) insert_stop [OF less.prems(1) n0 True]] less.prems by simp
  next
    case False
    then obtain d p B k1 where k1: "k = (d, True, p, B) # k1" by (cases k rule: ktop_black.cases) auto
    then have "ktop_black k1" using less.prems(5) by simp
    then obtain e g U k' where k: "k = (d, True, p, B) # (e, False, g, U) # k'"
      using k1 by (cases k1 rule: ktop_black.cases) auto
    note F0 = less.prems(1) [unfolded k]
    note F1 = focus_up [OF F0]
    have p: "p \<noteq> 0" "dao_rbtree_is_red s p" "dao_rbtree_parent s p = g" using rfocus_frame [OF F0] by auto
    have g: "g \<noteq> 0" using rfocus_frame [OF F1] by simp
    have side: "rchild e s g = p" "rchild (\<not> e) s g \<noteq> p" using focus_side [OF F1 p(1)] by auto
    have par: "dao_rbtree_parent s n = p" using rfocus_parent [OF F0 n0] by simp
    note step = insert_step [OF par p(1-3) g side]
    note F2 = focus_flip [OF F1]
    have inv: "invc B" "\<not> isred B" "invc U" "cinv k'" "invh B" "bheight B = bheight t" "invh U" "bheight U = bheight t"
      "hinv k' (bheight t + 1)" "\<not> isred t \<or> t \<noteq> RLeaf"
      using less.prems(5,6) k by (auto split: if_splits)
    show ?thesis
    proof (cases "isred U")
      case True
      let ?u = "rchild (\<not> e) s g"
      have u: "?u \<noteq> 0" "dao_rbtree_is_red s ?u" using focus_isred [OF F2] True by auto
      obtain ul ur where U: "U = mk True True ul ?u ur" using focus_split [OF F2 u(1), of True] True by auto
      have F3: "rfocus (dao_rbtree_set_black ?u s) ((\<not> e, False, g, mk d True t p B) # k') (mk True False ul ?u ur) ?u"
        using paint_black F2 unfolding U by blast
      have F4: "rfocus (dao_rbtree_set_black ?u s) ((e, False, g, mk True False ul ?u ur) # k') (mk d True t p B) p"
        using focus_flip [OF F3] focus_root [OF focus_flip [OF F3]] by simp
      note F5 = paint_red [OF focus_up [OF paint_black [OF F4]]]
      have "\<exists>s' t'. rb_insert_loop g (dao_rbtree_set_red g (dao_rbtree_set_black p (dao_rbtree_set_black ?u s))) = Some s' \<and>
          rfocus s' [] t' (rb_root s') \<and> rinorder t' = rinorder (plug k' (mk e True (mk d False t p B) g (mk True False ul ?u ur))) \<and>
          invh t' \<and> invc (paintb t')"
      proof (rule less.hyps [OF _ F5])
        show "length k' < length k" using k by simp
        show "isred (mk e True (mk d False t p B) g (mk True False ul ?u ur))" by simp
        show "invc (mk e True (mk d False t p B) g (mk True False ul ?u ur))" using inv U less.prems(3) by auto
        have "bheight ul = bheight ur" "bheight ul = bheight t" "invh ul" "invh ur" using inv U by auto
        then show "invh (mk e True (mk d False t p B) g (mk True False ul ?u ur))"
          "hinv k' (bheight (mk e True (mk d False t p B) g (mk True False ul ?u ur)))"
          using inv less.prems(4) by simp_all
      qed (rule inv)
      moreover have "rinorder (plug k' (mk e True (mk d False t p B) g (mk True False ul ?u ur))) = rinorder (plug k t)"
      proof -
        have "rinorder U = rinorder ul @ ?u # rinorder ur" by (subst U) simp
        then show ?thesis unfolding k plug.simps rinorder_plug by simp
      qed
      moreover have "rb_insert_loop n s =
          rb_insert_loop g (dao_rbtree_set_red g (dao_rbtree_set_black p (dao_rbtree_set_black ?u s)))"
        using step u by (simp only: Let_def if_True simp_thms)
      ultimately show ?thesis by (simp only:)
    next
      case False
      then have nu: "\<not> (rchild (\<not> e) s g \<noteq> 0 \<and> dao_rbtree_is_red s (rchild (\<not> e) s g))" using focus_isred [OF F2] by simp
      show ?thesis
      proof (cases "d = e")
        case True
        have "rchild (\<not> e) s p \<noteq> n" using focus_side [OF F0 n0] True by simp
        moreover obtain s' where s': "rot e g (dao_rbtree_set_red g (dao_rbtree_set_black p s)) = Some s'"
          "rfocus s' ((e, False, p, mk e True B g U) # k') t n" "rb_insert_loop n s' = Some s'"
          using insert_straight [OF F0 [unfolded True] n0] by blast
        ultimately have "rb_insert_loop n s = Some s'" using step nu by (simp add: Let_def)
        then show ?thesis
          by (rule fin [OF s'(2)]) (use inv less.prems False k True in \<open>auto simp: rinorder_plug\<close>)
      next
        case neq: False
        then have d: "d = (\<not> e)" by auto
        obtain Y X where t: "t = mk d True Y n X" using focus_split [OF F0 n0, of d] less.prems(2) by auto
        have n: "rchild (\<not> e) s p = n" using focus_side [OF F0 n0] d by simp
        obtain s1 where s1: "rot d p s = Some s1" "rfocus s1 ((e, False, g, U) # k') (mk d True Y n (mk d True X p B)) n"
          using rot_focus [OF F1 [unfolded t]] by blast
        have eq: "mk d True Y n (mk d True X p B) = mk e True (mk e True B p X) n Y" using d by (simp add: mk_def)
        note G = focus_into [OF s1(2) [unfolded eq]]
        have cp: "rchild e s1 n = p" using G by (auto simp: focus_def mk_def split: if_splits)
        obtain s' where s': "rot e g (dao_rbtree_set_red g (dao_rbtree_set_black n s1)) = Some s'"
          "rfocus s' ((e, False, n, mk e True Y g U) # k') (mk e True B p X) p" "rb_insert_loop p s' = Some s'"
          using insert_straight [OF G [unfolded cp] p(1)] by blast
        have "rb_insert_loop n s = Some s'" using step nu n s1(1) s' d by (simp add: Let_def)
        then show ?thesis
          by (rule fin [OF s'(2)]) (use inv less.prems False k t d in \<open>auto simp: rinorder_plug\<close>)
      qed
    qed
  qed
qed

section \<open>Sorted trees\<close>

lemma invc_plug: "invc (plug k t) \<and> \<not> isred (plug k t) \<longleftrightarrow> cinv k \<and> invc t \<and> (isred t \<longrightarrow> ktop_black k)"
  by (induction k t rule: plug.induct) auto

lemma invh_plug: "invh (plug k t) \<longleftrightarrow> invh t \<and> hinv k (bheight t)"
proof (induction k t rule: plug.induct)
  case (2 d c a u k t)
  then show ?case by (cases "bheight t = bheight u") auto
qed simp

text \<open>The tree holds the nodes \<open>xs\<close>, in order of their keys.\<close>

definition rb_holds :: "(u64 \<Rightarrow> 'k::linorder) \<Rightarrow> rbtree \<Rightarrow> u64 list \<Rightarrow> bool" where
  "rb_holds key s = tree_holds is_rbt key (rview s)"

lemmas holds_def = rb_holds_def tree_holds_def rview_fields

section \<open>Searching\<close>

fun link_of :: "bool frame list \<Rightarrow> rb_link" where
  "link_of [] = RootLink"
| "link_of ((d, c, a, u) # k) = (if d then LeftLink a else RightLink a)"

lemma focus_link: "rfocus s k t x \<Longrightarrow> read_link s (link_of k) = x"
  by (cases k rule: link_of.cases) (auto simp: focus_def child_def)

lemma find_link:
  assumes "cmp_by cmp key" "rfocus s k t x" "key_sorted key (rinorder (plug k t))"
    and "\<forall>a\<in>set (before k). key a < key n" "\<forall>a\<in>set (after k). key n < key a"
  shows "(\<exists>m\<in>rset t. key m = key n \<and> rb_find_link cmp n s (link_of k) (ktop k) = Some (Inl m)) \<or>
    (\<exists>k'. rb_find_link cmp n s (link_of k) (ktop k) = Some (Inr (ktop k', link_of k')) \<and> rfocus s k' RLeaf 0 \<and>
       plug k' RLeaf = plug k t \<and> (\<forall>a\<in>set (before k'). key a < key n) \<and> (\<forall>a\<in>set (after k'). key n < key a))"
  using assms(2-5)
proof (induction t arbitrary: k x)
  case RLeaf
  then have "x = 0" "read_link s (link_of k) = 0" using focus_link [OF RLeaf(1)] by (simp_all add: focus_def)
  then have "rb_find_link cmp n s (link_of k) (ktop k) = Some (Inr (ktop k, link_of k))"
    by (subst rb_find_link.simps) simp
  then show ?case using RLeaf \<open>x = 0\<close> by blast
next
  case (RNode c l a r)
  have a: "x = a" "a \<noteq> 0" "read_link s (link_of k) = a" using focus_link [OF RNode.prems(1)] RNode.prems(1) by (auto simp: focus_def)
  have sl: "rfocus s ((True, c, a, r) # k) l (get_left s a)" using RNode.prems(1) by (simp add: rfocus_left)
  have sr: "rfocus s ((False, c, a, l) # k) r (get_right s a)" using RNode.prems(1) by (simp add: rfocus_right)
  have srt: "\<forall>y\<in>rset r. key a < key y" "\<forall>y\<in>rset l. key y < key a"
    using RNode.prems(2) by (auto simp: rinorder_plug key_sorted_append key_sorted_Cons)
  have pl: "plug ((True, c, a, r) # k) l = plug k (RNode c l a r)" "plug ((False, c, a, l) # k) r = plug k (RNode c l a r)"
    by (simp_all add: mk_def)
  consider "key n < key a" | "key a < key n" | "key a = key n" by (meson linorder_cases)
  then show ?case
  proof cases
    case 1
    then have "rb_find_link cmp n s (link_of k) (ktop k) = rb_find_link cmp n s (link_of ((True, c, a, r) # k)) (ktop ((True, c, a, r) # k))"
      using a assms(1) by (subst rb_find_link.simps) (simp add: cmp_by_def Let_def)
    moreover have "\<forall>y\<in>set (after ((True, c, a, r) # k)). key n < key y"
      using 1 srt RNode.prems(4) by (auto intro: less_trans)
    ultimately show ?thesis
      using RNode.IH(1) [OF sl] RNode.prems(2,3) unfolding pl by auto
  next
    case 2
    then have "rb_find_link cmp n s (link_of k) (ktop k) = rb_find_link cmp n s (link_of ((False, c, a, l) # k)) (ktop ((False, c, a, l) # k))"
      using a assms(1) by (subst rb_find_link.simps) (auto simp: cmp_by_def Let_def)
    moreover have "\<forall>y\<in>set (before ((False, c, a, l) # k)). key y < key n"
      using 2 srt RNode.prems(3) by (auto intro: less_trans)
    ultimately show ?thesis
      using RNode.IH(2) [OF sr] RNode.prems(2,4) unfolding pl by auto
  next
    case 3
    then have "rb_find_link cmp n s (link_of k) (ktop k) = Some (Inl a)"
      using a assms(1) by (subst rb_find_link.simps) (simp add: cmp_by_def Let_def)
    then show ?thesis using 3 by auto
  qed
qed

lemma rb_lookup:
  assumes "cmp_by cmp key" "rfocus s k t x" "key_sorted key (rinorder t)"
  shows "rb_lookup_loop cmp n s x = Some (case find (\<lambda>m. key m = key n) (rinorder t) of Some m \<Rightarrow> m | None \<Rightarrow> 0)"
proof (rule lookup_loop [OF _ assms(2,3)])
  show "rb_lookup_loop cmp n s x = (if x = 0 then Some 0 else if key n < key x then rb_lookup_loop cmp n s (tv_left (rview s) x)
      else if key x < key n then rb_lookup_loop cmp n s (tv_right (rview s) x) else Some x)" for x
    using assms(1) by (subst rb_lookup_loop.simps) (simp add: cmp_by_def)
qed

section \<open>Linking a node and inserting it\<close>

lemma write_link_fields:
  "dao_rbtree_parent (write_link l v s) y = dao_rbtree_parent s y" "dao_rbtree_is_red (write_link l v s) y = dao_rbtree_is_red s y"
  by (cases l; simp)+

lemma link_node:
  assumes "rfocus s k RLeaf 0" "n \<noteq> 0" "aligned n" "n \<notin> set (before k) \<union> set (after k)"
  shows "rfocus (dao_rbtree_link_node n (ktop k) (link_of k) s) k (RNode True RLeaf n RLeaf) n"
proof -
  let ?s1 = "set_left n 0 (set_right n 0 (upd_node n (parent_color_update (\<lambda>_. ktop k)) s))"
  have al: "aligned (ktop k)" using assms(1) top_aligned by (auto simp: focus_def)
  have s: "dao_rbtree_link_node n (ktop k) (link_of k) s = write_link (link_of k) n ?s1" by (simp add: dao_rbtree_link_node_def Let_def)
  have n: "ktop k \<noteq> n" using ktop_in [of k] assms(2,4) by auto
  have keep: "get_left ?s1 y = get_left s y \<and> get_right ?s1 y = get_right s y \<and> dao_rbtree_parent ?s1 y = dao_rbtree_parent s y \<and>
      dao_rbtree_is_red ?s1 y = dao_rbtree_is_red s y" if "y \<noteq> n" for y
    using that by (simp add: field_defs)
  have new: "get_left ?s1 n = 0" "get_right ?s1 n = 0" "dao_rbtree_parent ?s1 n = ktop k" "dao_rbtree_is_red ?s1 n"
    using al by (simp_all add: field_defs word_bits)
  show ?thesis
    unfolding s
  proof (rule link_focus [OF assms], unfold rview_fields write_link_fields)
    show "get_left (write_link (link_of k) n ?s1) n = 0" "get_right (write_link (link_of k) n ?s1) n = 0"
      using new(1,2) n by (cases k rule: link_of.cases; auto split: if_splits)+
    show "case k of [] \<Rightarrow> rb_root (write_link (link_of k) n ?s1) = n
       | (d, _, a, _) # _ \<Rightarrow> rchild d (write_link (link_of k) n ?s1) a = n \<and>
           rchild (\<not> d) (write_link (link_of k) n ?s1) a = rchild (\<not> d) s a \<and> rb_root (write_link (link_of k) n ?s1) = rb_root s"
      using keep [of "ktop k"] n by (cases k rule: link_of.cases) (auto simp: child_def)
    fix y assume y: "y \<noteq> n"
    show "dao_rbtree_parent ?s1 y = dao_rbtree_parent s y \<and> dao_rbtree_is_red ?s1 y = dao_rbtree_is_red s y"
      using keep [OF y] by simp
    show "y \<noteq> ktop k \<Longrightarrow> get_left (write_link (link_of k) n ?s1) y = get_left s y \<and> get_right (write_link (link_of k) n ?s1) y = get_right s y"
      using keep [OF y] by (cases k rule: link_of.cases) auto
  qed (use new in simp_all)
qed

lemma insert_color:
  assumes "rfocus s k (RNode True RLeaf n RLeaf) n" "is_rbt (plug k RLeaf)"
  shows "\<exists>s' t'. dao_rbtree_insert_color n s = Some s' \<and> rfocus s' [] t' (rb_root s') \<and> is_rbt t' \<and>
    rinorder t' = before k @ n # after k"
proof -
  have k: "cinv k" "hinv k 0" using assms(2) invc_plug [of k RLeaf] invh_plug [of k RLeaf] by (auto simp: is_rbt_def)
  obtain s1 t1 where s1: "rb_insert_loop n s = Some s1" "rfocus s1 [] t1 (rb_root s1)" "rinorder t1 = before k @ n # after k"
      "invh t1" "invc (paintb t1)"
    using insert_loop [OF assms(1)] k by (auto simp: rinorder_plug)
  have "t1 \<noteq> RLeaf" using s1(3) by auto
  then have r: "rb_root s1 \<noteq> 0" using focus_leaf [OF s1(2)] by simp
  obtain l r where t1: "t1 = mk True (isred t1) l (rb_root s1) r" using focus_split [OF s1(2) r] by blast
  let ?t = "mk True False l (rb_root s1) r"
  have "rfocus (dao_rbtree_set_black (rb_root s1) s1) [] ?t (rb_root s1)"
    using paint_black s1(2) t1 by metis
  moreover have "is_rbt ?t" using s1(4,5) by (subst (asm) (1 2) t1) (simp add: is_rbt_def mk_def)
  moreover have "rinorder ?t = before k @ n # after k" using s1(3) by (subst (asm) t1) (simp add: mk_def)
  ultimately show ?thesis using s1(1) r by (auto simp: dao_rbtree_insert_color_def)
qed

lemma insert_holds:
  assumes "cmp_by cmp key" "rb_holds key s xs" "n \<noteq> 0" "aligned n" "n \<notin> set xs"
  shows "if \<exists>m\<in>set xs. key m = key n
    then \<exists>m\<in>set xs. key m = key n \<and> dao_rbtree_insert n cmp s = Some (m, s)
    else \<exists>r s'. dao_rbtree_insert n cmp s = Some (r, s') \<and> rb_holds key s' (insort_key key n xs)"
proof -
  obtain t where t: "rfocus s [] t (rb_root s)" "is_rbt t" "rinorder t = xs" "key_sorted key xs"
    using assms(2) by (auto simp: holds_def)
  from find_link [where n = n, OF assms(1) t(1)] t(3,4)
  consider (old) m where "m \<in> set xs" "key m = key n" "rb_find_link cmp n s RootLink 0 = Some (Inl m)"
    | (new) k where "rb_find_link cmp n s RootLink 0 = Some (Inr (ktop k, link_of k))" "rfocus s k RLeaf 0" "plug k RLeaf = t"
      "\<forall>a\<in>set (before k). key a < key n" "\<forall>a\<in>set (after k). key n < key a"
    by auto
  then show ?thesis
  proof cases
    case old
    then show ?thesis by (auto simp: dao_rbtree_insert_def)
  next
    case new
    have xs: "xs = before k @ after k" using new(3) t(3) rinorder_plug [of k RLeaf] by simp
    then have ne: "\<forall>m\<in>set xs. key m \<noteq> key n" using new(4,5) by auto
    have "rfocus (dao_rbtree_link_node n (ktop k) (link_of k) s) k (RNode True RLeaf n RLeaf) n"
      using link_node [OF new(2) assms(3,4)] assms(5) xs by simp
    then obtain s' t' where s': "dao_rbtree_insert_color n (dao_rbtree_link_node n (ktop k) (link_of k) s) = Some s'"
        "rfocus s' [] t' (rb_root s')" "is_rbt t'" "rinorder t' = before k @ n # after k"
      using insert_color t(2) new(3) by blast
    have "rinorder t' = insort_key key n xs" using s'(4) insort_between [OF new(4,5)] xs by simp
    then have "rb_holds key s' (insort_key key n xs)"
      using s'(2,3) insort_sorted [OF t(4) ne] unfolding holds_def by blast
    moreover have "dao_rbtree_insert n cmp s = Some (read_link s' (link_of k), s')"
      using new(1) s'(1) by (simp add: dao_rbtree_insert_def)
    ultimately show ?thesis using ne by (auto simp del: insort_key.simps)
  qed
qed

end
