(* ===== verification/RbRemove.thy ===== *)
theory RbRemove imports RbInsert begin

text \<open>
  Removal from the red-black tree: the loop that repairs a missing black node, taking a node out of the
  tree, and the tree that results.
\<close>

section \<open>The loop\<close>

text \<open>What the loop does once the sibling is black, for both sides.\<close>

definition remove_rest :: "bool \<Rightarrow> u64 \<Rightarrow> u64 \<times> rbtree \<Rightarrow> (u64 \<times> rbtree) option" where
  "remove_rest d p = (\<lambda>(other, s).
     if other = 0 then None
     else if (rchild d s other = 0 \<or> \<not> dao_rbtree_is_red s (rchild d s other)) \<and>
             (rchild (\<not> d) s other = 0 \<or> \<not> dao_rbtree_is_red s (rchild (\<not> d) s other)) then
       rb_remove_loop p (dao_rbtree_parent s p) (dao_rbtree_set_red other s)
     else
       Option.bind
         (if rchild (\<not> d) s other = 0 \<or> \<not> dao_rbtree_is_red s (rchild (\<not> d) s other) then
            if rchild d s other = 0 then None
            else map_option (\<lambda>s. (rchild (\<not> d) s p, s))
                   (rot d other (dao_rbtree_set_red other (dao_rbtree_set_black (rchild d s other) s)))
          else Some (other, s))
         (\<lambda>(other, s).
           if other = 0 then None
           else
             (let s = dao_rbtree_set_black p (dao_rbtree_set_color other (dao_rbtree_color s p) s)
              in if rchild (\<not> d) s other = 0 then None
                 else map_option (\<lambda>s. (rb_root s, s)) (rot (\<not> d) p (dao_rbtree_set_black (rchild (\<not> d) s other) s)))))"

lemma remove_step:
  assumes "x = 0 \<or> \<not> dao_rbtree_is_red s x" "x \<noteq> rb_root s" "p \<noteq> 0" "rchild d s p = x" "rchild (\<not> d) s p \<noteq> x"
  shows "rb_remove_loop x p s =
    (if rchild (\<not> d) s p = 0 then None
     else Option.bind
       (if dao_rbtree_is_red s (rchild (\<not> d) s p)
        then map_option (\<lambda>s. (rchild (\<not> d) s p, s)) (rot (\<not> d) p (dao_rbtree_set_red p (dao_rbtree_set_black (rchild (\<not> d) s p) s)))
        else Some (rchild (\<not> d) s p, s)) (remove_rest d p))"
proof (cases d)
  case True
  then show ?thesis
    using assms by (subst rb_remove_loop.simps) (simp add: Let_def child_def rot_def remove_rest_def split_def cong: if_cong)
next
  case False
  then show ?thesis
    using assms by (subst rb_remove_loop.simps)
      (simp add: Let_def child_def rot_def remove_rest_def split_def conj_commute cong: if_cong)
qed

lemma child_upd [simp]:
  "rchild d (dao_rbtree_set_black x s) y = rchild d s y" "rchild d (dao_rbtree_set_red x s) y = rchild d s y"
  "rchild d (dao_rbtree_set_color x v s) y = rchild d s y"
  by (simp_all add: child_def)

text \<open>The last two steps: the far rchild of the sibling is red.\<close>

lemma remove_far:
  assumes "rfocus s ((d, c, p, mk d False N w (mk d True F1 f F2)) # k) t x"
  shows "f \<noteq> 0 \<and> rchild (\<not> d) s w = f \<and> rchild (\<not> d) s p = w \<and> w \<noteq> 0 \<and>
    (\<exists>s'. rot (\<not> d) p (dao_rbtree_set_black f (dao_rbtree_set_black p (dao_rbtree_set_color w (dao_rbtree_color s p) s))) = Some s' \<and>
      rfocus s' k (mk d c (mk d False t p N) w (mk d False F1 f F2)) w)"
proof -
  let ?F = "mk d True F1 f F2"
  have red: "dao_rbtree_is_red s p = c" using rfocus_frame [OF assms] by simp
  note W1 = focus_flip [OF assms]
  have w: "rchild (\<not> d) s p = w" by (rule focus_root [OF W1])
  note W2 = paint_like [where s' = s and z = p, OF W1 [unfolded w] red]
  note P1 = focus_up [OF W2]
  have "rfocus (dao_rbtree_set_black p (dao_rbtree_set_color w (dao_rbtree_color s p) s)) ((\<not> d, False, p, t) # k) (mk d c N w ?F) w"
    using focus_into [OF paint_black [OF P1]] w by simp
  note W3 = focus_flip [OF focus_into [OF this]]
  have f: "rchild (\<not> d) s w = f" using focus_root [OF W3] by simp
  have f0: "f \<noteq> 0" using focus_leaf [OF W3] f by simp
  note F1 = focus_up [OF paint_black [OF W3 [unfolded child_upd f]]]
  note P2 = focus_up [OF F1, unfolded mk_flip]
  obtain s' where "rot (\<not> d) p (dao_rbtree_set_black f (dao_rbtree_set_black p (dao_rbtree_set_color w (dao_rbtree_color s p) s))) = Some s'"
    "rfocus s' k (mk (\<not> d) c (mk d False F1 f F2) w (mk (\<not> d) False N p t)) w"
    using rot_focus [of _ k "\<not> d" False c "mk d False F1 f F2" w N p t] P2 by (auto simp: mk_flip)
  then show ?thesis using f f0 w rfocus_frame [OF focus_into [OF W2]] by (auto simp: mk_flip)
qed

lemma focus_children:
  assumes "rfocus s k (mk d c t a u) a"
  shows "isred t \<longleftrightarrow> rchild d s a \<noteq> 0 \<and> dao_rbtree_is_red s (rchild d s a)" "t = RLeaf \<longleftrightarrow> rchild d s a = 0"
    "isred u \<longleftrightarrow> rchild (\<not> d) s a \<noteq> 0 \<and> dao_rbtree_is_red s (rchild (\<not> d) s a)" "u = RLeaf \<longleftrightarrow> rchild (\<not> d) s a = 0"
  using focus_isred focus_leaf focus_into [OF assms] focus_flip [OF focus_into [OF assms]] by blast+

lemma rtree_red: "isred t \<Longrightarrow> \<exists>l a r. t = mk d True l a r"
proof (cases t)
  case (RNode c l a r)
  assume "isred t"
  then have "t = mk d True (if d then l else r) a (if d then r else l)" using RNode by (simp add: mk_def)
  then show ?thesis by blast
qed simp

lemma remove_both:
  assumes "rfocus s ((d, c, p, mk d False N w F) # k) t x" "\<not> isred N" "\<not> isred F"
  shows "remove_rest d p (w, s) = rb_remove_loop p (ktop k) (dao_rbtree_set_red w s) \<and>
    rfocus (dao_rbtree_set_red w s) k (mk d c t p (mk d True N w F)) p"
proof -
  note W1 = focus_flip [OF assms(1)]
  note W2 = W1 [unfolded focus_root [OF W1]]
  have "rfocus (dao_rbtree_set_red w s) ((d, c, p, mk d True N w F) # k) t x"
    using focus_flip [OF paint_red [OF W2]] focus_at [OF assms(1)] by simp
  then show ?thesis
    using focus_children [OF W2] assms(2,3) focus_leaf [OF W2] rfocus_frame [OF assms(1)]
    by (auto simp: remove_rest_def dest: focus_up)
qed

lemma remove_near:
  assumes "rfocus s ((d, c, p, mk d False (mk d True N1 n N2) w F) # k) t x" "\<not> isred F"
  shows "\<exists>s'. remove_rest d p (w, s) = Some (rb_root s', s') \<and>
    rfocus s' k (mk d c (mk d False t p N1) n (mk d False N2 w F)) n"
proof -
  note W1 = focus_flip [OF assms(1)]
  note W2 = W1 [unfolded focus_root [OF W1]]
  note N1 = focus_into [OF W2]
  note N2 = paint_black [OF N1 [unfolded focus_root [OF N1]]]
  note W3 = paint_red [OF focus_up [OF N2]]
  obtain s1 where s1: "rot d w (dao_rbtree_set_red w (dao_rbtree_set_black n s)) = Some s1"
    "rfocus s1 ((\<not> d, c, p, t) # k) (mk d False N1 n (mk d True N2 w F)) n"
    using rot_focus [OF W3] by blast
  have F: "rfocus s1 ((d, c, p, mk d False N1 n (mk d True N2 w F)) # k) t (rchild d s1 p)"
    using focus_flip [OF s1(2)] by simp
  obtain s' where s': "w \<noteq> 0" "rchild (\<not> d) s1 n = w" "rchild (\<not> d) s1 p = n" "n \<noteq> 0"
    "rot (\<not> d) p (dao_rbtree_set_black w (dao_rbtree_set_black p (dao_rbtree_set_color n (dao_rbtree_color s1 p) s1))) = Some s'"
    "rfocus s' k (mk d c (mk d False t p N1) n (mk d False N2 w F)) n"
    using remove_far [OF F] by blast
  have "rchild d s w = n" "n \<noteq> 0" "dao_rbtree_is_red s n" using focus_root [OF N1] focus_isred [OF N1] by auto
  then show ?thesis
    using focus_children(3,4) [OF W2] assms(2) s1(1) s' by (auto simp: remove_rest_def Let_def)
qed

lemma remove_outer:
  assumes "rfocus s ((d, c, p, mk d False N w (mk d True F1 f F2)) # k) t x"
  shows "\<exists>s'. remove_rest d p (w, s) = Some (rb_root s', s') \<and>
    rfocus s' k (mk d c (mk d False t p N) w (mk d False F1 f F2)) w"
proof -
  obtain s' where s': "f \<noteq> 0" "rchild (\<not> d) s w = f" "rchild (\<not> d) s p = w" "w \<noteq> 0"
    "rot (\<not> d) p (dao_rbtree_set_black f (dao_rbtree_set_black p (dao_rbtree_set_color w (dao_rbtree_color s p) s))) = Some s'"
    "rfocus s' k (mk d c (mk d False t p N) w (mk d False F1 f F2)) w"
    using remove_far [OF assms] by blast
  note W1 = focus_flip [OF assms]
  have "dao_rbtree_is_red s f"
    using focus_children(3) [OF W1 [unfolded focus_root [OF W1]]] s'(2) by simp
  then show ?thesis using s' by (auto simp: remove_rest_def Let_def)
qed

text \<open>All three: either the loop goes on one level up, or it is over.\<close>

lemma remove_rest:
  assumes F: "rfocus s ((d, c, p, W) # k) t x" and W: "\<not> isred W" "invc W" "invh W" "bheight W = bheight t + 1"
    and t: "invc t" "\<not> isred t" "invh t"
  shows "(\<exists>s1 t1. remove_rest d p (rchild (\<not> d) s p, s) = rb_remove_loop p (ktop k) s1 \<and> rfocus s1 k t1 p \<and>
       isred t1 = c \<and> invc (paintb t1) \<and> invh t1 \<and> bheight t1 = bheight t + (if c then 0 else 1) \<and>
       rinorder t1 = rinorder (mk d c t p W)) \<or>
    (\<exists>s1 t1 y. remove_rest d p (rchild (\<not> d) s p, s) = Some (rb_root s1, s1) \<and> rfocus s1 k t1 y \<and>
       isred t1 = c \<and> invc t1 \<and> invh t1 \<and> bheight t1 = bheight t + 1 + (if c then 0 else 1) \<and>
       rinorder t1 = rinorder (mk d c t p W))"
proof -
  have "W \<noteq> RLeaf" using W(4) by auto
  then obtain N w R where Wm: "W = mk d False N w R"
    using focus_split [OF focus_flip [OF F], of d] focus_leaf [OF focus_flip [OF F]] W(1) by auto
  note F = F [unfolded Wm]
  have w: "rchild (\<not> d) s p = w" by (rule focus_root [OF focus_flip [OF F]])
  have inv: "invc N" "invc R" "invh N" "invh R" "bheight N = bheight t" "bheight R = bheight t"
    using W(2-4) Wm by auto
  consider "\<not> isred N" "\<not> isred R" | "isred R" | "isred N" "\<not> isred R" by blast
  then show ?thesis
  proof cases
    case 1
    then have "remove_rest d p (rchild (\<not> d) s p, s) = rb_remove_loop p (ktop k) (dao_rbtree_set_red w s)"
      "rfocus (dao_rbtree_set_red w s) k (mk d c t p (mk d True N w R)) p"
      using remove_both [OF F] w by auto
    then show ?thesis using inv t 1 Wm by (intro disjI1 exI conjI) (assumption | simp)+
  next
    case 2
    then obtain F1 f F2 where R: "R = mk d True F1 f F2" using rtree_red by blast
    then obtain s' where "remove_rest d p (w, s) = Some (rb_root s', s')"
      "rfocus s' k (mk d c (mk d False t p N) w (mk d False F1 f F2)) w"
      using remove_outer F by blast
    then show ?thesis using inv t R Wm w by (intro disjI2 exI conjI) (assumption | simp)+
  next
    case 3
    then obtain N1 n N2 where N: "N = mk d True N1 n N2" using rtree_red by blast
    then obtain s' where "remove_rest d p (w, s) = Some (rb_root s', s')"
      "rfocus s' k (mk d c (mk d False t p N1) n (mk d False N2 w R)) n"
      using remove_near F 3(2) by blast
    then show ?thesis using inv t N Wm w 3 by (intro disjI2 exI conjI) (assumption | simp)+
  qed
qed

lemma repaired:
  assumes "rfocus s k t x" "invc t" "\<not> isred t \<or> ktop_black k" "invh t" "cinv k" "hinv k (bheight t)"
  shows "rfocus s [] (plug k t) (rb_root s)" "is_rbt (plug k t)"
  using rfocus_plug [OF assms(1)] invc_plug [of k t] invh_plug [of k t] assms by (auto simp: is_rbt_def)

text \<open>A missing black is made up for by a red node.\<close>

lemma remove_color_red:
  assumes "rfocus s k t x" "isred t" "invc (paintb t)" "invh t" "cinv k" "hinv k (bheight t + 1)"
  shows "\<exists>s' t'. dao_rbtree_remove_color x q s = Some s' \<and> rfocus s' [] t' (rb_root s') \<and> is_rbt t' \<and> rinorder t' = rinorder (plug k t)"
proof -
  have x: "x \<noteq> 0" "dao_rbtree_is_red s x" using focus_isred [OF assms(1)] assms(2) by auto
  then obtain l r where t: "t = mk True True l x r" using focus_split [OF assms(1), of True] assms(2) by auto
  have "dao_rbtree_remove_color x q s = Some (dao_rbtree_set_black x s)"
    unfolding dao_rbtree_remove_color_def using x by (subst rb_remove_loop.simps) simp
  moreover have "rfocus (dao_rbtree_set_black x s) k (mk True False l x r) x"
    using paint_black assms(1) t by blast
  moreover have "bheight l = bheight r" using assms(4) t by simp
  ultimately show ?thesis
    using repaired [of "dao_rbtree_set_black x s" k "mk True False l x r" x] assms(3-6) t
    by (intro exI [of _ "dao_rbtree_set_black x s"] exI [of _ "plug k (mk True False l x r)"]) (simp add: rinorder_plug)
qed

lemma remove_color_break:
  assumes "rb_remove_loop x q s = Some (rb_root s1, s1)" "rfocus s1 k t y" "invc t" "\<not> isred t \<or> ktop_black k" "invh t" "cinv k" "hinv k (bheight t)"
  shows "\<exists>s' t'. dao_rbtree_remove_color x q s = Some s' \<and> rfocus s' [] t' (rb_root s') \<and> is_rbt t' \<and> rinorder t' = rinorder (plug k t)"
proof -
  note P = repaired [OF assms(2-7)]
  show ?thesis
  proof (cases "rb_root s1 = 0")
    case True
    then show ?thesis using P assms(1) by (auto simp: dao_rbtree_remove_color_def)
  next
    case False
    then obtain l r where m: "plug k t = mk True False l (rb_root s1) r"
      using focus_split [OF P(1), of True] P(2) by (auto simp: is_rbt_def)
    have "rfocus (dao_rbtree_set_black (rb_root s1) s1) [] (plug k t) (rb_root s1)"
      using paint_black P(1) m by metis
    then show ?thesis using P(2) assms(1) False by (auto simp: dao_rbtree_remove_color_def)
  qed
qed

lemma remove_color:
  assumes "rfocus s k t x" "invc (paintb t)" "invh t" "cinv k" "hinv k (bheight t + 1)"
  shows "\<exists>s' t'. dao_rbtree_remove_color x (ktop k) s = Some s' \<and> rfocus s' [] t' (rb_root s') \<and> is_rbt t' \<and>
    rinorder t' = rinorder (plug k t)"
  using assms
proof (induction k arbitrary: s t x)
  case Nil
  show ?case
  proof (cases "isred t")
    case True
    then show ?thesis using remove_color_red [OF Nil(1)] Nil by simp
  next
    case False
    then have "invc t" using Nil(2) by (cases t) auto
    moreover have "rb_remove_loop x (ktop []) s = Some (rb_root s, s)"
      using Nil(1) by (subst rb_remove_loop.simps) (simp add: focus_def)
    ultimately show ?thesis using remove_color_break [OF _ Nil(1)] Nil(3) False by simp
  qed
next
  case (Cons f k)
  obtain d c p W where f: "f = (d, c, p, W)" by (cases f)
  note F = Cons.prems(1) [unfolded f]
  show ?case
  proof (cases "isred t")
    case True
    then show ?thesis using remove_color_red [OF Cons.prems(1)] Cons.prems by simp
  next
    case False
    then have ic: "invc t" using Cons.prems(2) by (cases t) auto
    have p: "p \<noteq> 0" using rfocus_frame [OF F] by simp
    have W: "invc W" "invh W" "bheight W = bheight t + 1" "c \<longrightarrow> \<not> isred W \<and> ktop_black k" "cinv k"
      "hinv k (bheight t + 1 + (if c then 0 else 1))"
      using Cons.prems(4,5) f by auto
    have nb: "x = 0 \<or> \<not> dao_rbtree_is_red s x" using focus_isred [OF F] False by auto
    note Wf = focus_flip [OF F]
    have w0: "rchild (\<not> d) s p \<noteq> 0" using focus_leaf [OF Wf] W(3) by auto
    have cx: "rchild d s p = x" "rchild (\<not> d) s p \<noteq> x" using focus_at [OF F] focus_side [OF Wf w0] by auto
    note step = remove_step [OF nb root_in_frames [OF F, unfolded rview_fields, symmetric] p cx]
    have fin: ?thesis if "rb_remove_loop x p s = Some (rb_root s1, s1)" "rfocus s1 k t1 y" "invc t1" "\<not> isred t1 \<or> ktop_black k" "invh t1"
      "hinv k (bheight t1)" "rinorder t1 = rinorder (mk d c t p W)" for s1 t1 y
      using remove_color_break [OF that(1-5) W(5) that(6)] that(7) f by (simp add: rinorder_plug)
    show ?thesis
    proof (cases "isred W")
      case False
      then have loop: "rb_remove_loop x p s = remove_rest d p (rchild (\<not> d) s p, s)"
        using step w0 focus_isred [OF Wf] by simp
      from remove_rest [OF F False W(1-3) ic \<open>\<not> isred t\<close> Cons.prems(3)]
      show ?thesis
      proof (elim disjE exE conjE)
        fix s1 t1
        assume *: "remove_rest d p (rchild (\<not> d) s p, s) = rb_remove_loop p (ktop k) s1" "rfocus s1 k t1 p" "isred t1 = c"
          "invc (paintb t1)" "invh t1" "bheight t1 = bheight t + (if c then 0 else 1)" "rinorder t1 = rinorder (mk d c t p W)"
        have "dao_rbtree_remove_color x p s = dao_rbtree_remove_color p (ktop k) s1"
          using loop *(1) by (simp add: dao_rbtree_remove_color_def)
        then show ?thesis using Cons.IH [OF *(2,4,5) W(5)] W(6) *(6,7) f by (simp add: rinorder_plug add.commute)
      next
        fix s1 t1 y
        assume *: "remove_rest d p (rchild (\<not> d) s p, s) = Some (rb_root s1, s1)" "rfocus s1 k t1 y" "isred t1 = c"
          "invc t1" "invh t1" "bheight t1 = bheight t + 1 + (if c then 0 else 1)" "rinorder t1 = rinorder (mk d c t p W)"
        show ?thesis by (rule fin [OF _ *(2,4)]) (use loop * W in auto)
      qed
    next
      case True
      have c: "\<not> c" using W(4) True by simp
      let ?w = "rchild (\<not> d) s p"
      obtain N R where Wm: "W = mk d True N ?w R" using focus_split [OF Wf w0, of d] True by auto
      have NR: "\<not> isred N" "\<not> isred R" "invc N" "invc R" "invh N" "invh R" "bheight N = bheight t + 1" "bheight R = bheight t + 1"
        using W(1-3) by (subst (asm) (1 2 3) Wm, simp)+
      have "rfocus (dao_rbtree_set_black ?w s) ((\<not> d, c, p, t) # k) (mk d False N ?w R) ?w"
        using paint_black [of s "(\<not> d, c, p, t) # k" d True N ?w R] Wf Wm by simp
      note W1 = this
      have "rfocus (dao_rbtree_set_red p (dao_rbtree_set_black ?w s)) k (mk (\<not> d) True (mk (\<not> d) False R ?w N) p t) p"
        using paint_red [OF focus_up [OF W1]] by (simp add: mk_flip)
      then obtain s1 where s1: "rot (\<not> d) p (dao_rbtree_set_red p (dao_rbtree_set_black ?w s)) = Some s1"
        "rfocus s1 k (mk d False (mk d True t p N) ?w R) ?w"
        using rot_focus [of _ k "\<not> d" True False R ?w N p t] by (auto simp: mk_flip)
      note F1 = focus_into [OF s1(2)]
      note F2 = focus_into [OF F1 [unfolded focus_root [OF F1]]]
      let ?k = "(d, False, ?w, R) # k"
      have K: "cinv ?k" "hinv ?k (bheight t + 1)" "ktop_black ?k" using NR W(5,6) c by simp_all
      have io: "rinorder (plug ?k (mk d True t p N)) = rinorder (plug (f # k) t)"
      proof -
        have "rinorder W = rinorder (mk d True N ?w R)" by (subst Wm) simp
        then show ?thesis using f by (simp add: rinorder_plug)
      qed
      have loop: "rb_remove_loop x p s = remove_rest d p (rchild (\<not> d) s1 p, s1)"
        using step w0 s1(1) focus_isred [OF Wf] True by simp
      from remove_rest [OF F2 NR(1,3,5,7) ic False Cons.prems(3)]
      show ?thesis
      proof (elim disjE exE conjE)
        fix s2 t1
        assume *: "remove_rest d p (rchild (\<not> d) s1 p, s1) = rb_remove_loop p (ktop ?k) s2" "rfocus s2 ?k t1 p" "isred t1 = True"
          "invc (paintb t1)" "invh t1" "bheight t1 = bheight t + (if True then 0 else 1)" "rinorder t1 = rinorder (mk d True t p N)"
        have "dao_rbtree_remove_color x p s = dao_rbtree_remove_color p (ktop ?k) s2"
          using loop *(1) by (simp add: dao_rbtree_remove_color_def)
        moreover have "rinorder (plug ?k t1) = rinorder (plug ?k (mk d True t p N))" using *(7) by (simp only: rinorder_plug)
        ultimately show ?thesis
          using remove_color_red [OF *(2) _ *(4,5) K(1)] * K(2) io f by (metis add_0_right ktop.simps(2) if_True)
      next
        fix s2 t1 y
        assume *: "remove_rest d p (rchild (\<not> d) s1 p, s1) = Some (rb_root s2, s2)" "rfocus s2 ?k t1 y" "isred t1 = True"
          "invc t1" "invh t1" "bheight t1 = bheight t + 1 + (if True then 0 else 1)" "rinorder t1 = rinorder (mk d True t p N)"
        have "rinorder (plug ?k t1) = rinorder (plug ?k (mk d True t p N))" using *(7) by (simp only: rinorder_plug)
        then show ?thesis
          using remove_color_break [OF loop [unfolded *(1)] *(2,4) _ *(5) K(1)] * K(2,3) io f by (metis add_0_right ktop.simps(2) if_True)
      qed
    qed
  qed
qed

end
