(* ===== verification/RbTreeOps.thy ===== *)
theory RbTreeOps imports RbRemove begin

text \<open>
  Taking a node out of the red-black tree, putting one node in the place of another, and walking through the
  tree in order: the relinking of the code writes what \<open>TreeOps\<close> describes.
\<close>

section \<open>Relinking\<close>

lemma cinv_addr: "cinv (k2 @ (d, c, a, u) # k) = cinv (k2 @ (d, c, b, u) # k)"
  "hinv (k2 @ (d, c, a, u) # k) h = hinv (k2 @ (d, c, b, u) # k) h"
proof -
  have top: "ktop_black (k2 @ (d, c, a, u) # k) = ktop_black (k2 @ (d, c, b, u) # k)" for k2
    by (cases k2 rule: ktop_black.cases) auto
  show "cinv (k2 @ (d, c, a, u) # k) = cinv (k2 @ (d, c, b, u) # k)"
    by (induction k2 rule: cinv.induct) (simp_all add: top)
  show "hinv (k2 @ (d, c, a, u) # k) h = hinv (k2 @ (d, c, b, u) # k) h"
    by (induction k2 h rule: hinv.induct) simp_all
qed

text \<open>The pointer to a node in its parent, or the root.\<close>

definition rb_relink :: "u64 \<Rightarrow> u64 \<Rightarrow> u64 \<Rightarrow> rbtree \<Rightarrow> rbtree" where
  "rb_relink q n v s = (if q \<noteq> 0 then (if get_left s q = n then set_left q v s else set_right q v s) else set_root v s)"

lemma rb_relink_fields [simp]:
  "dao_rbtree_parent (rb_relink q n v s) y = dao_rbtree_parent s y" "dao_rbtree_is_red (rb_relink q n v s) y = dao_rbtree_is_red s y"
  "get_left (rb_relink q n v s) y = (if y = q \<and> q \<noteq> 0 \<and> get_left s q = n then v else get_left s y)"
  "get_right (rb_relink q n v s) y = (if y = q \<and> q \<noteq> 0 \<and> get_left s q \<noteq> n then v else get_right s y)"
  "rb_root (rb_relink q n v s) = (if q \<noteq> 0 then rb_root s else v)"
  by (auto simp: rb_relink_def)

lemma rview_relink [simp]: "rview (rb_relink q n v s) = relink q n v (rview s)"
  by (simp add: rb_relink_def relink_def rview_writes)

lemma rb_unlink:
  assumes "rfocus s k (RNode c l n r) n" "l = RLeaf \<and> ch = r \<or> r = RLeaf \<and> ch = l" "x = root_of ch"
  shows "rfocus (rb_relink (ktop k) n x (if x \<noteq> 0 then dao_rbtree_set_parent x (ktop k) s else s)) k ch x"
proof -
  have "aligned (ktop k)" using assms(1) top_aligned by (auto simp: focus_def)
  then show ?thesis using unlink_focus [OF assms] by (cases "x = 0") (simp_all add: rview_writes)
qed

lemma rview_copy: "rview (upd_node y (\<lambda>_. rb_mem s n) s) = vcopy n y (rview s)"
  by (rule tview_eqI)
    (simp_all add: get_left_def get_right_def dao_rbtree_parent_def dao_rbtree_is_red_def dao_rbtree_color_def)

lemma rview_replace:
  assumes "aligned y"
  shows "rview (dao_rbtree_replace n y s) = vreplace n y (rview s)"
proof -
  let ?s1 = "rb_relink (dao_rbtree_parent s n) n y s"
  let ?s2 = "if get_left ?s1 n \<noteq> 0 then dao_rbtree_set_parent (get_left ?s1 n) y ?s1 else ?s1"
  let ?s3 = "if get_right ?s2 n \<noteq> 0 then dao_rbtree_set_parent (get_right ?s2 n) y ?s2 else ?s2"
  have "dao_rbtree_replace n y s = upd_node y (\<lambda>_. rb_mem ?s3 n) ?s3"
    by (simp add: dao_rbtree_replace_def rb_relink_def Let_def eq_commute [of n])
  moreover have l: "get_left s z = tv_left (rview s) z" "get_right s z = tv_right (rview s) z" "dao_rbtree_parent s z = tv_parent (rview s) z" for s z
    by simp_all
  ultimately show ?thesis
    using assms unfolding vreplace_def Let_def by (simp only: rview_copy rview_relink rview_writes l if_distrib [of rview])
qed

lemma replace_node:
  assumes "rfocus s k (RNode c l n r) n" "y \<noteq> 0" "aligned y" "y \<notin> set (before k) \<union> set (after k) \<union> rset l \<union> rset r"
  shows "rfocus (dao_rbtree_replace n y s) k (RNode c l y r) y"
  using replace_focus [OF assms] rview_replace [OF assms(3)] by simp

section \<open>Walking through the tree\<close>

interpretation rbw: tree_walk "rview s" "rb_leftmost s" "rb_rightmost s" "rb_climb_right s" "rb_climb_left s" for s
  by unfold_locales
    (simp_all add: Let_def rb_leftmost.simps [of s] rb_rightmost.simps [of s] rb_climb_right.simps [of s] rb_climb_left.simps [of s])

section \<open>Removal\<close>

text \<open>What takes the place of a node with two children, in the two cases of the code.\<close>

definition rb_splice :: "u64 \<Rightarrow> u64 \<Rightarrow> u64 \<Rightarrow> u64 \<Rightarrow> rbtree \<Rightarrow> rbtree" where
  "rb_splice n y pr yc s =
     (let s = rb_relink (dao_rbtree_parent s n) n y s;
          s = (if pr = n then s
               else
                 (let s = (if yc \<noteq> 0 then dao_rbtree_set_parent yc pr s else s);
                      s = set_left pr yc s;
                      s = set_right y (get_right s n) s
                  in dao_rbtree_set_parent (get_right s n) y s));
          s = upd_node y (parent_color_update (\<lambda>_. parent_color (rb_mem s n))) s;
          s = set_left y (get_left s n) s
      in dao_rbtree_set_parent (get_left s n) y s)"

lemma remove_two:
  assumes "get_left s n \<noteq> 0" "get_right s n \<noteq> 0" "rb_leftmost s (get_right s n) = Some y" "dao_rbtree_parent s n \<noteq> y" "y \<noteq> 0"
  shows "dao_rbtree_remove n s =
    (let pr = dao_rbtree_parent s y; yc = get_right s y; s' = rb_splice n y pr yc s in
     if dao_rbtree_color s y = 1 then dao_rbtree_remove_color yc (if pr = n then y else pr) s' else Some s')"
proof -
  have "dao_rbtree_color (rb_relink q n y s) z = dao_rbtree_color s z" for q z
    by (simp add: rb_relink_def dao_rbtree_color_def set_left_def set_right_def)
  then show ?thesis
    using assms by (simp add: dao_rbtree_remove_def rb_splice_def rb_relink_def [symmetric] Let_def)
qed

lemma copy_pc: "rview (upd_node y (parent_color_update (\<lambda>_. parent_color (rb_mem s n))) s) =
    vset_parent y (dao_rbtree_parent s n) (vset_tag y (dao_rbtree_is_red s n) (rview s))"
  by (rule tview_eqI)
    (simp_all add: get_left_def get_right_def dao_rbtree_parent_def dao_rbtree_is_red_def dao_rbtree_color_def)

lemma rview_splice: "aligned y \<Longrightarrow> aligned pr \<Longrightarrow> rview (rb_splice n y pr yc s) = vsplice n y pr yc (rview s)"
proof -
  assume al: "aligned y" "aligned pr"
  have l: "get_left s z = tv_left (rview s) z" "get_right s z = tv_right (rview s) z" "dao_rbtree_parent s z = tv_parent (rview s) z"
    "dao_rbtree_is_red s z = tv_tag (rview s) z" for s z
    by simp_all
  show ?thesis
    using al unfolding rb_splice_def vsplice_def Let_def by (simp only: copy_pc rview_relink rview_writes l if_distrib [of rview])
qed

lemma color_one: "dao_rbtree_color s x = 1 \<longleftrightarrow> \<not> dao_rbtree_is_red s x"
proof -
  have "(w AND 1 :: u64) = 1 \<longleftrightarrow> w AND 1 \<noteq> 0" for w :: u64
    by (auto simp: and_one_eq odd_iff_mod_2_eq_one)
  then show ?thesis by (simp add: dao_rbtree_color_def dao_rbtree_is_red_def)
qed

lemma remove_focus:
  assumes F: "rfocus s k (RNode c l n r) n" and ok: "is_rbt (plug k (RNode c l n r))"
  shows "\<exists>s' t'. dao_rbtree_remove n s = Some s' \<and> rfocus s' [] t' (rb_root s') \<and> is_rbt t' \<and>
    rinorder t' = before k @ rinorder l @ rinorder r @ after k"
proof -
  have inv: "cinv k" "hinv k (bheight l + (if c then 0 else 1))" "c \<longrightarrow> ktop_black k" "invc l" "invc r" "c \<longrightarrow> \<not> isred l \<and> \<not> isred r"
    "bheight l = bheight r" "invh l" "invh r"
    using ok invc_plug [of k "RNode c l n r"] invh_plug [of k "RNode c l n r"] by (auto simp: is_rbt_def)
  have n: "dao_rbtree_parent s n = ktop k" "dao_rbtree_is_red s n = c" "get_left s n = root_of l" "get_right s n = root_of r"
    "get_left s n = 0 \<longleftrightarrow> l = RLeaf" "get_right s n = 0 \<longleftrightarrow> r = RLeaf"
    using F reps_zero reps_root_of by (auto simp: focus_def)
  have ipc: "invc t \<Longrightarrow> invc (paintb t)" for t by (cases t) auto
  show ?thesis
  proof (cases "l = RLeaf \<or> r = RLeaf")
    case True
    define ch where "ch = (if l = RLeaf then r else l)"
    have ch: "l = RLeaf \<and> ch = r \<or> r = RLeaf \<and> ch = l" "bheight ch = bheight l" "invc ch" "invh ch" "c \<longrightarrow> \<not> isred ch"
      "rinorder ch = rinorder l @ rinorder r"
      using True inv by (auto simp: ch_def)
    let ?x = "root_of ch"
    let ?s = "rb_relink (ktop k) n ?x (if ?x \<noteq> 0 then dao_rbtree_set_parent ?x (ktop k) s else s)"
    have U: "rfocus ?s k ch ?x" by (rule rb_unlink [OF F ch(1) refl])
    have rm: "dao_rbtree_remove n s = (if \<not> c then dao_rbtree_remove_color ?x (ktop k) ?s else Some ?s)"
    proof (cases "l = RLeaf")
      case l: True
      then have "get_left s n = 0" "get_right s n = ?x" using n(4,5) by (simp_all add: ch_def)
      then show ?thesis using n(1,2) by (simp add: dao_rbtree_remove_def rb_relink_def [symmetric] color_one Let_def)
    next
      case l: False
      then have "get_left s n \<noteq> 0" "get_right s n = 0" "get_left s n = ?x" using True n(3,5,6) by (simp_all add: ch_def)
      then show ?thesis using n(1,2) by (simp add: dao_rbtree_remove_def rb_relink_def [symmetric] color_one Let_def)
    qed
    show ?thesis
    proof (cases c)
      case True
      have "rfocus ?s [] (plug k ch) (rb_root ?s)" "is_rbt (plug k ch)"
        by (rule repaired [OF U]; use inv ch True in simp)+
      moreover have "rinorder (plug k ch) = before k @ rinorder l @ rinorder r @ after k" using ch(6) by (simp add: rinorder_plug)
      moreover have "dao_rbtree_remove n s = Some ?s" using rm True by (simp only: if_False not_True_eq_False)
      ultimately show ?thesis by blast
    next
      case False
      then show ?thesis
        using remove_color [OF U ipc [OF ch(3)] ch(4) inv(1)] rm inv(2) ch(2,6) by (simp add: rinorder_plug)
    qed
  next
    case False
    obtain k2 cy y ry where y: "rb_leftmost s (get_right s n) = Some y" "rfocus s (k2 @ (False, c, n, l) # k) (RNode cy RLeaf y ry) y"
      "before k2 = []" "plug k2 (RNode cy RLeaf y ry) = r"
      using leftmost [OF rbw.lm conjunct2 [OF F [unfolded rfocus_right]]] False by blast
    let ?k = "k2 @ (False, c, y, l) # k" and ?yc = "get_right s y"
    have S: "rfocus (rb_splice n y (dao_rbtree_parent s y) ?yc s) ?k ry ?yc" proof -
      have "aligned y" "aligned (dao_rbtree_parent s y)" using y(2) top_aligned by (auto simp: focus_def)
      then show ?thesis using splice_focus [OF y(2) _ y(3)] False by (simp add: rview_splice)
    qed
    have okK: "is_rbt (plug (k2 @ (False, c, n, l) # k) (RNode cy RLeaf y ry))"
      using ok y(4) by (simp add: plug_append mk_False)
    have inv2: "cinv ?k" "hinv ?k (if cy then 0 else 1)" "invc ry" "invh ry" "bheight ry = 0" "cy \<longrightarrow> \<not> isred ry"
      using okK invc_plug [of "k2 @ (False, c, n, l) # k" "RNode cy RLeaf y ry"]
        invh_plug [of "k2 @ (False, c, n, l) # k" "RNode cy RLeaf y ry"]
        cinv_addr(1) [of k2 False c n l k y] cinv_addr(2) [of k2 False c n l k _ y]
      by (auto simp: is_rbt_def)
    have yy: "y \<noteq> 0" "dao_rbtree_parent s y = ktop (k2 @ (False, c, n, l) # k)" "dao_rbtree_is_red s y = cy"
      using y(2) by (auto simp: focus_def)
    have kt: "(if dao_rbtree_parent s y = n then y else dao_rbtree_parent s y) = ktop ?k"
    proof (cases "k2 = []")
      case False
      then have "ktop k2 \<in> set (before k2) \<union> set (after k2)" by (cases k2 rule: ktop.cases) auto
      then have "ktop k2 \<noteq> n" using y(2,3) by (auto simp: focus_def)
      then show ?thesis using yy(2) False by (simp add: ktop_append)
    qed (use yy in simp)
    have "ktop k = 0 \<or> ktop k \<in> set (before k) \<union> set (after k)" by (cases k rule: ktop.cases) auto
    then have "ktop k \<noteq> y" using y(2) yy(1) by (auto simp: focus_def)
    then have rm: "dao_rbtree_remove n s =
        (if \<not> cy then dao_rbtree_remove_color ?yc (ktop ?k) (rb_splice n y (dao_rbtree_parent s y) ?yc s)
         else Some (rb_splice n y (dao_rbtree_parent s y) ?yc s))"
    proof -
      have "get_left s n \<noteq> 0" "get_right s n \<noteq> 0" "dao_rbtree_parent s n \<noteq> y" using n(1,5,6) False \<open>ktop k \<noteq> y\<close> by simp_all
      from remove_two [OF this(1,2) y(1) this(3) yy(1)] show ?thesis
        unfolding Let_def color_one kt yy(3) .
    qed
    have io: "rinorder (plug ?k ry) = before k @ rinorder l @ rinorder r @ after k"
      using y(3) by (simp add: rinorder_plug y(4) [symmetric])
    show ?thesis
    proof (cases cy)
      case True
      have K: "ktop_black ?k \<or> \<not> isred ry" using inv2(6) True by simp
      have "rfocus (rb_splice n y (dao_rbtree_parent s y) ?yc s) [] (plug ?k ry) (rb_root (rb_splice n y (dao_rbtree_parent s y) ?yc s))" "is_rbt (plug ?k ry)"
        by (rule repaired [OF S]; use inv2 True in simp)+
      moreover have "dao_rbtree_remove n s = Some (rb_splice n y (dao_rbtree_parent s y) ?yc s)" using rm True by simp
      ultimately show ?thesis using io by blast
    next
      case False
      then show ?thesis
        using remove_color [OF S ipc [OF inv2(3)] inv2(4,1)] rm inv2(2,5) io by simp
    qed
  qed
qed

lemmas rb_holds_path = holds_path [where ok = is_rbt and v = "rview s" for s, folded rb_holds_def]

lemma remove_holds:
  assumes "rb_holds key s xs" "n \<in> set xs"
  shows "\<exists>s'. dao_rbtree_remove n s = Some s' \<and> rb_holds key s' (remove1 n xs)"
proof -
  obtain k c l r where F: "rfocus s k (RNode c l n r) n" "is_rbt (plug k (RNode c l n r))" "rinorder (plug k (RNode c l n r)) = xs"
    using rb_holds_path [OF assms] by blast
  obtain s' t' where s': "dao_rbtree_remove n s = Some s'" "rfocus s' [] t' (rb_root s')" "is_rbt t'"
    "rinorder t' = before k @ rinorder l @ rinorder r @ after k"
    using remove_focus [OF F(1,2)] by blast
  have "tree_holds is_rbt key (rview s') (remove1 n (rinorder (plug k (RNode c l n r))))"
    by (rule holds_remove [where ok = is_rbt, OF _ F(1) _ s'(3,4)]) (use assms(1) F(3) s'(2) in \<open>simp_all add: rb_holds_def\<close>)
  then show ?thesis using s'(1) F(3) by (auto simp: rb_holds_def)
qed

text \<open>
  C15. In a tree that holds the nodes \<open>xs\<close>, \<open>first\<close> and \<open>last\<close> return the ends of \<open>xs\<close>, and \<open>next\<close>
  and \<open>prev\<close> of a node its neighbours, NULL at the ends; none of them runs forever.
\<close>

theorem rb_walk:
  assumes "rb_holds key s (xs @ n # ys)"
  shows "dao_rbtree_next s n = Some (case ys of [] \<Rightarrow> 0 | y # _ \<Rightarrow> y) \<and>
    dao_rbtree_prev s n = Some (if xs = [] then 0 else last xs) \<and>
    dao_rbtree_first s = Some (hd (xs @ [n])) \<and> dao_rbtree_last s = Some (last (n # ys))"
proof -
  note H = assms [unfolded rb_holds_def]
  have "hd (xs @ n # ys) = hd (xs @ [n])" by (cases xs) simp_all
  then show ?thesis
    using rbw.holds_neighbours [OF H] rbw.holds_ends [OF H] unfolding rview_fields
    by (simp add: dao_rbtree_next_def dao_rbtree_prev_def dao_rbtree_first_def dao_rbtree_last_def)
qed

end
