(* ===== verification/RbTreeSpec.thy ===== *)
theory RbTreeSpec imports RbTreeOps begin

text \<open>What the red-black tree promises: a set in order of its keys, over any run of calls, with short paths.\<close>

section \<open>Any run of calls\<close>

lemma lookup_holds:
  assumes "cmp_by cmp key" "rb_holds key s xs"
  shows "dao_rbtree_lookup n cmp s = Some (case find (\<lambda>m. key m = key n) xs of Some m \<Rightarrow> m | None \<Rightarrow> 0)"
  using assms(2) rb_lookup [OF assms(1)] by (auto simp: holds_def dao_rbtree_lookup_def)

lemma init_holds: "rb_holds key (dao_rbtree_init s) []"
  unfolding holds_def
  by (intro conjI exI [of _ RLeaf]) (simp_all add: focus_def is_rbt_def dao_rbtree_init_def key_sorted_def)

text \<open>A node that can be put in: not NULL, and aligned as the compiler aligns it.\<close>

definition rb_good :: "u64 \<Rightarrow> bool" where "rb_good n \<longleftrightarrow> n \<noteq> 0 \<and> aligned n"

lemma rb_ordered_set:
  assumes "cmp_by cmp key"
  shows "ordered_set (rb_holds key) rb_good key (\<lambda>n. dao_rbtree_insert n cmp) dao_rbtree_remove (\<lambda>n. dao_rbtree_lookup n cmp) 0"
proof unfold_locales
  fix s xs x
  assume a: "rb_holds key s xs" "rb_good x" "x \<notin> set xs"
  have "if \<exists>m\<in>set xs. key m = key x
    then \<exists>m\<in>set xs. key m = key x \<and> dao_rbtree_insert x cmp s = Some (m, s)
    else \<exists>r s'. dao_rbtree_insert x cmp s = Some (r, s') \<and> rb_holds key s' (insort_key key x xs)"
    using insert_holds [OF assms a(1)] a(2,3) by (simp add: rb_good_def)
  then show "\<exists>r s'. dao_rbtree_insert x cmp s = Some (r, s') \<and> rb_holds key s' (set_step key (SetIns x) xs)"
    using a(1) by (cases "\<exists>m\<in>set xs. key m = key x") auto
next
  fix s xs x
  assume "rb_holds key s xs" "x \<in> set xs"
  then show "\<exists>s'. dao_rbtree_remove x s = Some s' \<and> rb_holds key s' (set_step key (SetDel x) xs)"
    using remove_holds by simp
qed (rule lookup_holds [OF assms])

interpretation rb: ordered_set "rb_holds key" rb_good key "\<lambda>n. dao_rbtree_insert n (cmp_of key)" dao_rbtree_remove
  "\<lambda>n. dao_rbtree_lookup n (cmp_of key)" 0 for key :: "u64 \<Rightarrow> 'k::linorder"
  by (rule rb_ordered_set) (rule cmp_of)

text \<open>
  C4. From an empty tree, any run of inserts of nodes that are not in the tree and removals of nodes that are
  returns; the tree then is a well-formed red-black tree of exactly the nodes of the list that the same run makes of the
  empty list, in the order of their keys, and \<open>lookup\<close> finds the node with the key asked for, or NULL.
\<close>

theorem rb_run_refines:
  assumes "cmp_by cmp key" "set_ok rb_good key [] ops"
  shows "\<exists>s'. set_run (\<lambda>n. dao_rbtree_insert n cmp) dao_rbtree_remove ops (dao_rbtree_init s) = Some s' \<and>
    rb_holds key s' (fold (set_step key) ops []) \<and>
    (\<forall>x. dao_rbtree_lookup x cmp s' = Some (case find (\<lambda>m. key m = key x) (fold (set_step key) ops []) of Some m \<Rightarrow> m | None \<Rightarrow> 0))"
  using ordered_set.rep_run [OF rb_ordered_set [OF assms(1)] init_holds assms(2), of s] lookup_holds [OF assms(1)] by blast

theorem rb_run_refines_witness:
  "\<exists>s'. set_run (\<lambda>n. dao_rbtree_insert n (cmp_of unat)) dao_rbtree_remove [SetIns 24, SetIns 8, SetIns 16, SetDel 24]
      (dao_rbtree_init \<lparr>rb_mem = (\<lambda>_. \<lparr>parent_color = 0, rb_right = 0, rb_left = 0\<rparr>), rb_root = 0\<rparr>) = Some s' \<and>
    rb_holds unat s' [8, 16]"
  using rb_run_refines [OF cmp_of, of "unat :: u64 \<Rightarrow> nat" "[SetIns 24, SetIns 8, SetIns 16, SetDel 24]"
      "\<lparr>rb_mem = (\<lambda>_. \<lparr>parent_color = 0, rb_right = 0, rb_left = 0\<rparr>), rb_root = 0\<rparr>"]
  by (simp add: rb_good_def) blast

section \<open>Replacing a node\<close>

lemma is_rbt_replace: "is_rbt (plug k (RNode c l n r)) \<Longrightarrow> is_rbt (plug k (RNode c l y r))"
  using invc_plug [of k "RNode c l n r"] invh_plug [of k "RNode c l n r"] invc_plug [of k "RNode c l y r"] invh_plug [of k "RNode c l y r"]
  by (auto simp: is_rbt_def)

text \<open>
  C17. \<open>replace\<close> puts a node with the same key in the place of an old one: the tree then holds the
  same list with the one node exchanged, and is still a red-black tree.
\<close>

theorem rb_replace_refines:
  assumes "rb_holds key s xs" "old \<in> set xs" "rb_good new" "new \<notin> set xs" "key new = key old"
  shows "rb_holds key (dao_rbtree_replace old new s) (map (\<lambda>a. if a = old then new else a) xs)"
proof -
  obtain k c l r where F: "rfocus s k (RNode c l old r) old" "is_rbt (plug k (RNode c l old r))" "rinorder (plug k (RNode c l old r)) = xs"
    using rb_holds_path [OF assms(1,2)] by blast
  have "new \<notin> set (before k) \<union> set (after k) \<union> rset l \<union> rset r" using F(3) assms(4) by (auto simp: rinorder_plug)
  then have "rfocus (dao_rbtree_replace old new s) k (RNode c l new r) new"
    using replace_node [OF F(1)] assms(3) by (simp add: rb_good_def)
  note P = rfocus_plug [OF this]
  have "rinorder (plug k (RNode c l new r)) = map (\<lambda>a. if a = old then new else a) xs"
    unfolding F(3) [symmetric] by (rule plug_replace) (use F(1) in \<open>simp add: focus_def\<close>)
  moreover have "key_sorted key (map (\<lambda>a. if a = old then new else a) xs)"
    by (rule key_sorted_map) (use assms(1,5) in \<open>auto simp: holds_def\<close>)
  ultimately show ?thesis using P is_rbt_replace [OF F(2)] unfolding holds_def by blast
qed

section \<open>Short paths\<close>

lemma bheight_size: "invc t \<Longrightarrow> invh t \<Longrightarrow> 2 ^ bheight t \<le> length (rinorder t) + 1"
  by (induction t) (auto simp: algebra_simps)

lemma rheight_bheight: "invc t \<Longrightarrow> invh t \<Longrightarrow> rheight t \<le> 2 * bheight t + (if isred t then 1 else 0)"
  by (induction t) (auto split: if_splits)

text \<open>
  In a well-formed tree of \<open>n\<close> nodes every node is at most \<open>2 log (n + 1)\<close> steps up from NULL above the root: the
  number of steps \<open>i\<close> fulfils \<open>2^(i/2) \<le> n + 1\<close> (rounded up).
\<close>

theorem rb_depth:
  assumes "rb_holds key s xs" "n \<in> set xs"
  shows "\<exists>i. (dao_rbtree_parent s ^^ i) n = 0 \<and> 2 ^ ((i + 1) div 2) \<le> length xs + 1"
proof -
  obtain k c l r where F: "rfocus s k (RNode c l n r) n" "is_rbt (plug k (RNode c l n r))" "rinorder (plug k (RNode c l n r)) = xs"
    using rb_holds_path [OF assms] by blast
  let ?t = "plug k (RNode c l n r)"
  have "n \<noteq> 0" using F(1) by (simp add: focus_def)
  then have 1: "(dao_rbtree_parent s ^^ (length k + 1)) n = 0" using parent_path [OF F(1)] by simp
  have "length k + 1 \<le> rheight ?t" using rheight_plug [of k "RNode c l n r"] by simp
  also have "rheight ?t \<le> 2 * bheight ?t" using rheight_bheight [of ?t] F(2) by (simp add: is_rbt_def)
  finally have "(length k + 1 + 1) div 2 \<le> bheight ?t" by simp
  then have "2 ^ ((length k + 1 + 1) div 2) \<le> (2 ^ bheight ?t :: nat)" by (rule power_increasing) simp
  also have "\<dots> \<le> length xs + 1" using bheight_size [of ?t] F(2,3) by (simp add: is_rbt_def)
  finally show ?thesis using 1 by blast
qed

section \<open>Examples\<close>

text \<open>A black root at 24 with a red left rchild at 8.\<close>

definition rb_two :: rbtree where
  "rb_two = \<lparr>rb_mem = (\<lambda>_. \<lparr>parent_color = 0, rb_right = 0, rb_left = 0\<rparr>)(24 := \<lparr>parent_color = 1, rb_right = 0, rb_left = 8\<rparr>,
     8 := \<lparr>parent_color = 24, rb_right = 0, rb_left = 0\<rparr>), rb_root = 24\<rparr>"

lemma rb_two_fields: "get_left rb_two 24 = 8" "get_right rb_two 24 = 0" "get_left rb_two 8 = 0" "get_right rb_two 8 = 0" "rb_root rb_two = 24"
  "dao_rbtree_parent rb_two 24 = 0" "dao_rbtree_parent rb_two 8 = 24" "\<not> dao_rbtree_is_red rb_two 24" "dao_rbtree_is_red rb_two 8"
  by (simp_all add: rb_two_def field_defs)

lemma rb_two_holds: "rb_holds unat rb_two [8, 24]"
  unfolding holds_def
  by (intro conjI exI [of _ "RNode False (RNode True RLeaf 8 RLeaf) 24 RLeaf"])
    (simp_all add: focus_def rb_two_fields is_rbt_def key_sorted_def)

theorem rb_walk_witness: "dao_rbtree_next rb_two 8 = Some 24 \<and> dao_rbtree_prev rb_two 8 = Some 0"
  using rb_walk [of unat rb_two "[]" 8 "[24]"] rb_two_holds by simp

theorem rb_replace_refines_witness: "rb_holds (\<lambda>w. unat w div 16) (dao_rbtree_replace 24 16 rb_two) [8, 16]"
proof -
  have "rb_holds (\<lambda>w :: u64. unat w div 16) rb_two [8, 24]"
    using rb_two_holds unfolding holds_def by (simp add: key_sorted_def)
  from rb_replace_refines [OF this, of 24 16] show ?thesis by (simp add: rb_good_def)
qed

theorem rb_depth_witness: "\<exists>i. (dao_rbtree_parent rb_two ^^ i) 8 = 0 \<and> 2 ^ ((i + 1) div 2) \<le> (3 :: nat)"
  using rb_depth [OF rb_two_holds, of 8] by (simp add: numeral_3_eq_3)

text \<open>
  \<open>insert\<close> of a node between a node and its left rchild returns NULL although the node was put in: the
  value is read through the link found before the rotations, and the first rotation clears that link.
\<close>

theorem rb_insert_returns_null:
  "\<exists>s'. dao_rbtree_insert 16 (cmp_of unat) rb_two = Some (0, s') \<and> rb_holds unat s' [8, 16, 24]"
proof -
  have "rb_find_link (cmp_of unat) 16 rb_two RootLink 0 = Some (Inr (8, RightLink 8))"
    by (simp add: rb_find_link.simps [of _ _ _ RootLink] rb_find_link.simps [of _ _ _ "LeftLink 24"]
        rb_find_link.simps [of _ _ _ "RightLink 8"] rb_two_fields cmp_of_def Let_def)
  moreover have "map_option (\<lambda>s. get_right s 8) (dao_rbtree_insert_color 16 (dao_rbtree_link_node 16 8 (RightLink 8) rb_two)) = Some 0"
  proof -
    let ?s = "dao_rbtree_link_node 16 8 (RightLink 8) rb_two"
    have f: "get_left ?s 24 = 8" "get_right ?s 24 = 0" "get_left ?s 8 = 0" "get_right ?s 8 = 16" "get_left ?s 16 = 0" "get_right ?s 16 = 0"
      "rb_root ?s = 24" "dao_rbtree_parent ?s 24 = 0" "dao_rbtree_parent ?s 8 = 24" "dao_rbtree_parent ?s 16 = 8"
      "\<not> dao_rbtree_is_red ?s 24" "dao_rbtree_is_red ?s 8" "dao_rbtree_is_red ?s 16"
      by (simp_all add: dao_rbtree_link_node_def rb_two_def field_defs Let_def)
    show ?thesis
      by (simp add: dao_rbtree_insert_color_def rb_insert_loop.simps [of 16 ?s] f Let_def rotate_left_def rotate_right_def rb_insert_loop.simps [of 8])
  qed
  ultimately have "\<exists>s'. dao_rbtree_insert 16 (cmp_of unat) rb_two = Some (0, s')" by (auto simp: dao_rbtree_insert_def)
  then show ?thesis
    using rb.rep_ins [of unat rb_two "[8, 24]" 16] rb_two_holds by (auto simp: rb_good_def)
qed

end
