(* ===== verification/AvlTree.thy ===== *)
theory AvlTree imports Prelude begin

text \<open>
  The AVL tree of \<open>kernel/avltree.c\<close> and \<open>kernel/avltree.h\<close>, on memory: a node is the address of its three links and its
  balance, a signed bit field of three bits, and NULL is the address 0. The tree also keeps its height (one less than
  the number of levels), its first and its last node. The result \<open>None\<close> of a function is that it dereferences NULL or
  never returns.
\<close>

section \<open>Nodes and links\<close>

record avl_node =
  avl_right :: u64
  avl_left :: u64
  avl_parent :: u64
  avl_balance :: "3 word"

record avltree =
  avl_mem :: "u64 \<Rightarrow> avl_node"
  avl_root :: u64
  avl_height :: int
  avl_first :: u64
  avl_last :: u64

definition avl_upd :: "u64 \<Rightarrow> (avl_node \<Rightarrow> avl_node) \<Rightarrow> avltree \<Rightarrow> avltree" where
  "avl_upd x f s = s\<lparr>avl_mem := (avl_mem s)(x := f (avl_mem s x))\<rparr>"

definition avl_get_left :: "avltree \<Rightarrow> u64 \<Rightarrow> u64" where "avl_get_left s x = avl_left (avl_mem s x)"

definition avl_get_right :: "avltree \<Rightarrow> u64 \<Rightarrow> u64" where "avl_get_right s x = avl_right (avl_mem s x)"

definition avl_set_left :: "u64 \<Rightarrow> u64 \<Rightarrow> avltree \<Rightarrow> avltree" where "avl_set_left x v = avl_upd x (avl_left_update (\<lambda>_. v))"

definition avl_set_right :: "u64 \<Rightarrow> u64 \<Rightarrow> avltree \<Rightarrow> avltree" where "avl_set_right x v = avl_upd x (avl_right_update (\<lambda>_. v))"

definition avl_set_root :: "u64 \<Rightarrow> avltree \<Rightarrow> avltree" where "avl_set_root v s = s\<lparr>avl_root := v\<rparr>"

definition dao_avltree_get_parent_avl :: "avltree \<Rightarrow> u64 \<Rightarrow> u64" where "dao_avltree_get_parent_avl s x = avl_parent (avl_mem s x)"

definition dao_avltree_set_parent_avl :: "u64 \<Rightarrow> u64 \<Rightarrow> avltree \<Rightarrow> avltree" where
  "dao_avltree_set_parent_avl parent node = avl_upd node (avl_parent_update (\<lambda>_. parent))"

definition dao_avltree_is_root_avl :: "avltree \<Rightarrow> u64 \<Rightarrow> bool" where
  "dao_avltree_is_root_avl s node \<longleftrightarrow> dao_avltree_get_parent_avl s node = 0"

definition dao_avltree_get_balance :: "avltree \<Rightarrow> u64 \<Rightarrow> int" where
  "dao_avltree_get_balance s node = sint (avl_balance (avl_mem s node))"

definition dao_avltree_set_balance :: "int \<Rightarrow> u64 \<Rightarrow> avltree \<Rightarrow> avltree" where
  "dao_avltree_set_balance balance node = avl_upd node (avl_balance_update (\<lambda>_. word_of_int balance))"

definition dao_avltree_inc_balance :: "u64 \<Rightarrow> avltree \<Rightarrow> int \<times> avltree" where
  "dao_avltree_inc_balance node s =
     (let s = avl_upd node (avl_balance_update (\<lambda>b. b + 1)) s in (dao_avltree_get_balance s node, s))"

definition dao_avltree_dec_balance :: "u64 \<Rightarrow> avltree \<Rightarrow> int \<times> avltree" where
  "dao_avltree_dec_balance node s =
     (let s = avl_upd node (avl_balance_update (\<lambda>b. b - 1)) s in (dao_avltree_get_balance s node, s))"

definition dao_avltree_init_node :: "u64 \<Rightarrow> avltree \<Rightarrow> avltree" where
  "dao_avltree_init_node node s =
     (let s = avl_set_left node 0 s; s = avl_set_right node 0 s; s = dao_avltree_set_parent_avl 0 node s
      in dao_avltree_set_balance 0 node s)"

definition dao_avltree_set_child_avl :: "u64 \<Rightarrow> u64 \<Rightarrow> bool \<Rightarrow> avltree \<Rightarrow> avltree" where
  "dao_avltree_set_child_avl child node left = (if left then avl_set_left node child else avl_set_right node child)"

section \<open>Traversal\<close>

partial_function (option) dao_avltree_get_first_avl :: "avltree \<Rightarrow> u64 \<Rightarrow> u64 option" where
  "dao_avltree_get_first_avl s node =
     (if avl_get_left s node = 0 then Some node else dao_avltree_get_first_avl s (avl_get_left s node))"

partial_function (option) dao_avltree_get_last_avl :: "avltree \<Rightarrow> u64 \<Rightarrow> u64 option" where
  "dao_avltree_get_last_avl s node =
     (if avl_get_right s node = 0 then Some node else dao_avltree_get_last_avl s (avl_get_right s node))"

definition dao_avltree_first :: "avltree \<Rightarrow> u64" where "dao_avltree_first = avl_first"

definition dao_avltree_last :: "avltree \<Rightarrow> u64" where "dao_avltree_last = avl_last"

partial_function (option) avl_climb_right :: "avltree \<Rightarrow> u64 \<Rightarrow> u64 option" where
  "avl_climb_right s node =
     (let r = dao_avltree_get_parent_avl s node in
      if r \<noteq> 0 \<and> avl_get_right s r = node then avl_climb_right s r else Some r)"

partial_function (option) avl_climb_left :: "avltree \<Rightarrow> u64 \<Rightarrow> u64 option" where
  "avl_climb_left s node =
     (let r = dao_avltree_get_parent_avl s node in
      if r \<noteq> 0 \<and> avl_get_left s r = node then avl_climb_left s r else Some r)"

definition dao_avltree_next :: "avltree \<Rightarrow> u64 \<Rightarrow> u64 option" where
  "dao_avltree_next s node =
     (if avl_get_right s node \<noteq> 0 then dao_avltree_get_first_avl s (avl_get_right s node) else avl_climb_right s node)"

definition dao_avltree_prev :: "avltree \<Rightarrow> u64 \<Rightarrow> u64 option" where
  "dao_avltree_prev s node =
     (if avl_get_left s node \<noteq> 0 then dao_avltree_get_last_avl s (avl_get_left s node) else avl_climb_left s node)"

section \<open>Rotations\<close>

definition dao_avltree_rotate_left_avl :: "u64 \<Rightarrow> avltree \<Rightarrow> avltree option" where
  "dao_avltree_rotate_left_avl p s =
     (let q = avl_get_right s p; parent = dao_avltree_get_parent_avl s p in
      if q = 0 then None
      else
        (let s = (if \<not> dao_avltree_is_root_avl s p
                  then (if avl_get_left s parent = p then avl_set_left parent q s else avl_set_right parent q s)
                  else avl_set_root q s);
             s = dao_avltree_set_parent_avl parent q s;
             s = dao_avltree_set_parent_avl q p s;
             s = avl_set_right p (avl_get_left s q) s;
             s = (if avl_get_right s p \<noteq> 0 then dao_avltree_set_parent_avl p (avl_get_right s p) s else s)
         in Some (avl_set_left q p s)))"

definition dao_avltree_rotate_right_avl :: "u64 \<Rightarrow> avltree \<Rightarrow> avltree option" where
  "dao_avltree_rotate_right_avl p s =
     (let q = avl_get_left s p; parent = dao_avltree_get_parent_avl s p in
      if q = 0 then None
      else
        (let s = (if \<not> dao_avltree_is_root_avl s p
                  then (if avl_get_left s parent = p then avl_set_left parent q s else avl_set_right parent q s)
                  else avl_set_root q s);
             s = dao_avltree_set_parent_avl parent q s;
             s = dao_avltree_set_parent_avl q p s;
             s = avl_set_left p (avl_get_right s q) s;
             s = (if avl_get_left s p \<noteq> 0 then dao_avltree_set_parent_avl p (avl_get_left s p) s else s)
         in Some (avl_set_right q p s)))"

text \<open>The inner rotation of a double rotation, with the balances that the two rotations will leave.\<close>

definition avl_right_left :: "u64 \<Rightarrow> u64 \<Rightarrow> avltree \<Rightarrow> avltree option" where
  "avl_right_left node right s =
     (let m = avl_get_left s right in
      if m = 0 then None
      else
        (let b = dao_avltree_get_balance s m;
             s = (if b = 1 then dao_avltree_set_balance 0 right (dao_avltree_set_balance (- 1) node s)
                  else if b = 0 then dao_avltree_set_balance 0 right (dao_avltree_set_balance 0 node s)
                  else if b = - 1 then dao_avltree_set_balance 1 right (dao_avltree_set_balance 0 node s)
                  else s);
             s = dao_avltree_set_balance 0 (avl_get_left s right) s
         in dao_avltree_rotate_right_avl right s))"

definition avl_left_right :: "u64 \<Rightarrow> u64 \<Rightarrow> avltree \<Rightarrow> avltree option" where
  "avl_left_right node left s =
     (let m = avl_get_right s left in
      if m = 0 then None
      else
        (let b = dao_avltree_get_balance s m;
             s = (if b = 1 then dao_avltree_set_balance (- 1) left (dao_avltree_set_balance 0 node s)
                  else if b = 0 then dao_avltree_set_balance 0 left (dao_avltree_set_balance 0 node s)
                  else if b = - 1 then dao_avltree_set_balance 0 left (dao_avltree_set_balance 1 node s)
                  else s);
             s = dao_avltree_set_balance 0 (avl_get_right s left) s
         in dao_avltree_rotate_left_avl left s))"

section \<open>Lookup\<close>

text \<open>The node found (or NULL), the last node passed, the last unbalanced one (or the root), and whether the search went left.\<close>

partial_function (option) avl_lookup_loop ::
    "(u64 \<Rightarrow> u64 \<Rightarrow> int) \<Rightarrow> u64 \<Rightarrow> avltree \<Rightarrow> u64 \<Rightarrow> u64 \<Rightarrow> u64 \<Rightarrow> bool \<Rightarrow> (u64 \<times> u64 \<times> u64 \<times> bool) option" where
  "avl_lookup_loop cmp key s node pparent unbalanced is_left =
     (if node = 0 then Some (0, pparent, unbalanced, is_left)
      else
        (let unbalanced = (if dao_avltree_get_balance s node \<noteq> 0 then node else unbalanced); res = cmp node key in
         if res = 0 then Some (node, pparent, unbalanced, is_left)
         else if res > 0 then avl_lookup_loop cmp key s (avl_get_left s node) node unbalanced True
         else avl_lookup_loop cmp key s (avl_get_right s node) node unbalanced False))"

definition dao_avltree_do_lookup_avl :: "u64 \<Rightarrow> (u64 \<Rightarrow> u64 \<Rightarrow> int) \<Rightarrow> avltree \<Rightarrow> (u64 \<times> u64 \<times> u64 \<times> bool) option" where
  "dao_avltree_do_lookup_avl key cmp s = avl_lookup_loop cmp key s (avl_root s) 0 (avl_root s) False"

definition dao_avltree_lookup :: "u64 \<Rightarrow> (u64 \<Rightarrow> u64 \<Rightarrow> int) \<Rightarrow> avltree \<Rightarrow> u64 option" where
  "dao_avltree_lookup key cmp s = map_option fst (dao_avltree_do_lookup_avl key cmp s)"

section \<open>Insertion\<close>

text \<open>The balances on the way up to the last unbalanced node.\<close>

partial_function (option) avl_count_loop :: "u64 \<Rightarrow> u64 \<Rightarrow> u64 \<Rightarrow> avltree \<Rightarrow> avltree option" where
  "avl_count_loop node parent unbalanced s =
     (if parent = 0 then None
      else
        (let s = snd (if avl_get_left s parent = node then dao_avltree_dec_balance parent s else dao_avltree_inc_balance parent s) in
         if parent = unbalanced then Some s
         else avl_count_loop parent (dao_avltree_get_parent_avl s parent) unbalanced s))"

definition avl_insert_fix :: "u64 \<Rightarrow> avltree \<Rightarrow> avltree option" where
  "avl_insert_fix unbalanced s =
     (let b = dao_avltree_get_balance s unbalanced in
      if b = 1 \<or> b = - 1 then Some (s\<lparr>avl_height := avl_height s + 1\<rparr>)
      else if b = 2 then
        (let right = avl_get_right s unbalanced in
         if right = 0 then None
         else
           Option.bind
             (if dao_avltree_get_balance s right = 1
              then Some (dao_avltree_set_balance 0 right (dao_avltree_set_balance 0 unbalanced s))
              else avl_right_left unbalanced right s)
             (dao_avltree_rotate_left_avl unbalanced))
      else if b = - 2 then
        (let left = avl_get_left s unbalanced in
         if left = 0 then None
         else
           Option.bind
             (if dao_avltree_get_balance s left = - 1
              then Some (dao_avltree_set_balance 0 left (dao_avltree_set_balance 0 unbalanced s))
              else avl_left_right unbalanced left s)
             (dao_avltree_rotate_right_avl unbalanced))
      else Some s)"

definition dao_avltree_insert :: "u64 \<Rightarrow> (u64 \<Rightarrow> u64 \<Rightarrow> int) \<Rightarrow> avltree \<Rightarrow> (u64 \<times> avltree) option" where
  "dao_avltree_insert node cmp s =
     Option.bind (dao_avltree_do_lookup_avl node cmp s) (\<lambda>(key, parent, unbalanced, is_left).
       if key \<noteq> 0 then Some (key, s)
       else
         (let s = dao_avltree_init_node node s in
          if parent = 0 then
            Some (0, avl_set_root node s\<lparr>avl_first := node, avl_last := node, avl_height := avl_height s + 1\<rparr>)
          else
            (let s = (if is_left
                      then (if avl_first s = parent then s\<lparr>avl_first := node\<rparr> else s)
                      else (if avl_last s = parent then s\<lparr>avl_last := node\<rparr> else s));
                 s = dao_avltree_set_parent_avl parent node s;
                 s = dao_avltree_set_child_avl node parent is_left s
             in Option.bind (avl_count_loop node parent unbalanced s) (\<lambda>s.
                  map_option (\<lambda>s. (0, s)) (avl_insert_fix unbalanced s)))))"

section \<open>Removal\<close>

partial_function (option) avl_remove_loop :: "u64 \<Rightarrow> bool \<Rightarrow> avltree \<Rightarrow> avltree option" where
  "avl_remove_loop parent is_left s =
     (if parent = 0 then Some (s\<lparr>avl_height := avl_height s - 1\<rparr>)
      else
        (let node = parent; parent = dao_avltree_get_parent_avl s node;
             was_left = is_left; is_left = (parent \<noteq> 0 \<and> avl_get_left s parent = node)
         in
         if was_left then
           (let (balance, s) = dao_avltree_inc_balance node s in
            if balance = 0 then avl_remove_loop parent is_left s
            else if balance = 1 then Some s
            else
              (let right = avl_get_right s node in
               if right = 0 then None
               else if dao_avltree_get_balance s right = 0 then
                 dao_avltree_rotate_left_avl node (dao_avltree_set_balance (- 1) right (dao_avltree_set_balance 1 node s))
               else
                 Option.bind
                   (if dao_avltree_get_balance s right = 1
                    then Some (dao_avltree_set_balance 0 right (dao_avltree_set_balance 0 node s))
                    else if dao_avltree_get_balance s right = - 1 then avl_right_left node right s
                    else Some s)
                   (\<lambda>s. Option.bind (dao_avltree_rotate_left_avl node s) (\<lambda>s. avl_remove_loop parent is_left s))))
         else
           (let (balance, s) = dao_avltree_dec_balance node s in
            if balance = 0 then avl_remove_loop parent is_left s
            else if balance = - 1 then Some s
            else
              (let left = avl_get_left s node in
               if left = 0 then None
               else if dao_avltree_get_balance s left = 0 then
                 dao_avltree_rotate_right_avl node (dao_avltree_set_balance 1 left (dao_avltree_set_balance (- 1) node s))
               else
                 Option.bind
                   (if dao_avltree_get_balance s left = - 1
                    then Some (dao_avltree_set_balance 0 left (dao_avltree_set_balance 0 node s))
                    else if dao_avltree_get_balance s left = 1 then avl_left_right node left s
                    else Some s)
                   (\<lambda>s. Option.bind (dao_avltree_rotate_right_avl node s) (\<lambda>s. avl_remove_loop parent is_left s))))))"

text \<open>The first and the last node before the removal.\<close>

definition avl_remove_ends :: "u64 \<Rightarrow> avltree \<Rightarrow> avltree option" where
  "avl_remove_ends node s =
     Option.bind (if node = avl_first s then map_option (\<lambda>n. s\<lparr>avl_first := n\<rparr>) (dao_avltree_next s node) else Some s) (\<lambda>s.
       if node = avl_last s then map_option (\<lambda>n. s\<lparr>avl_last := n\<rparr>) (dao_avltree_prev s node) else Some s)"

text \<open>Taking the node out: the node whose balance changes, and on which side.\<close>

definition avl_unlink :: "u64 \<Rightarrow> avltree \<Rightarrow> (u64 \<times> bool \<times> avltree) option" where
  "avl_unlink node s =
     (let parent = dao_avltree_get_parent_avl s node; left = avl_get_left s node; right = avl_get_right s node in
      Option.bind (if left = 0 then Some right else if right = 0 then Some left else dao_avltree_get_first_avl s right) (\<lambda>next.
        (let is_left = (parent \<noteq> 0 \<and> avl_get_left s parent = node);
             s = (if parent \<noteq> 0 then dao_avltree_set_child_avl next parent is_left s else avl_set_root next s)
         in
         if left \<noteq> 0 \<and> right \<noteq> 0 then
           (let s = dao_avltree_set_balance (dao_avltree_get_balance s node) next s;
                s = avl_set_left next left s;
                s = dao_avltree_set_parent_avl next left s
            in
            if next \<noteq> right then
              (let parent = dao_avltree_get_parent_avl s next;
                   s = dao_avltree_set_parent_avl (dao_avltree_get_parent_avl s node) next s;
                   node = avl_get_right s next
               in if parent = 0 then None
                  else
                    (let s = avl_set_left parent node s;
                         s = avl_set_right next right s;
                         s = dao_avltree_set_parent_avl next right s
                     in Some (parent, True, if node \<noteq> 0 then dao_avltree_set_parent_avl parent node s else s)))
            else
              (let s = dao_avltree_set_parent_avl parent next s; node = avl_get_right s next
               in Some (next, False, if node \<noteq> 0 then dao_avltree_set_parent_avl next node s else s)))
         else Some (parent, is_left, if next \<noteq> 0 then dao_avltree_set_parent_avl parent next s else s))))"

definition dao_avltree_remove :: "u64 \<Rightarrow> avltree \<Rightarrow> avltree option" where
  "dao_avltree_remove node s =
     Option.bind (avl_remove_ends node s) (\<lambda>s.
       Option.bind (avl_unlink node s) (\<lambda>(parent, is_left, s). avl_remove_loop parent is_left s))"

section \<open>Replacing a node, the empty tree\<close>

definition dao_avltree_replace :: "u64 \<Rightarrow> u64 \<Rightarrow> avltree \<Rightarrow> avltree" where
  "dao_avltree_replace old n s =
     (let parent = dao_avltree_get_parent_avl s old;
          s = (if parent \<noteq> 0 then dao_avltree_set_child_avl n parent (avl_get_left s parent = old) s else avl_set_root n s);
          s = (if avl_get_left s old \<noteq> 0 then dao_avltree_set_parent_avl n (avl_get_left s old) s else s);
          s = (if avl_get_right s old \<noteq> 0 then dao_avltree_set_parent_avl n (avl_get_right s old) s else s);
          s = (if avl_get_left s old \<noteq> 0 then dao_avltree_set_parent_avl n (avl_get_left s old) s else s);
          s = (if avl_get_right s old \<noteq> 0 then dao_avltree_set_parent_avl n (avl_get_right s old) s else s);
          s = (if avl_first s = old then s\<lparr>avl_first := n\<rparr> else s);
          s = (if avl_last s = old then s\<lparr>avl_last := n\<rparr> else s);
          s = avl_upd n (avl_balance_update (\<lambda>_. avl_balance (avl_mem s old))) s;
          s = dao_avltree_set_parent_avl (dao_avltree_get_parent_avl s old) n s;
          s = avl_set_left n (avl_get_left s old) s
      in avl_set_right n (avl_get_right s old) s)"

definition dao_avltree_init :: "avltree \<Rightarrow> avltree" where
  "dao_avltree_init s = avl_set_root 0 s\<lparr>avl_height := - 1, avl_first := 0, avl_last := 0\<rparr>"

end
