(* ===== verification/AvlHeap.thy ===== *)
theory AvlHeap imports AvlTree SortedTree begin

text \<open>
  The AVL tree seen as a tree in memory (\<open>TreeHeap\<close>), the mark of a node being its balance: what its writes and rotations
  do to the view, the balance condition on trees and on paths, and the single and double rotations that restore it.
\<close>

section \<open>The view\<close>

lemma avl_upd_simps [simp]:
  "avl_mem (avl_upd x f s) y = (if y = x then f (avl_mem s x) else avl_mem s y)" "avl_root (avl_upd x f s) = avl_root s"
  "avl_height (avl_upd x f s) = avl_height s" "avl_first (avl_upd x f s) = avl_first s" "avl_last (avl_upd x f s) = avl_last s"
  "avl_mem (avl_set_root v s) = avl_mem s" "avl_root (avl_set_root v s) = v"
  "avl_height (avl_set_root v s) = avl_height s" "avl_first (avl_set_root v s) = avl_first s" "avl_last (avl_set_root v s) = avl_last s"
  by (simp_all add: avl_upd_def avl_set_root_def)

definition aview :: "avltree \<Rightarrow> int tview" where
  "aview s = \<lparr>tv_left = avl_get_left s, tv_right = avl_get_right s, tv_parent = dao_avltree_get_parent_avl s,
     tv_tag = dao_avltree_get_balance s, tv_root = avl_root s\<rparr>"

lemma aview_fields [simp]:
  "tv_left (aview s) = avl_get_left s" "tv_right (aview s) = avl_get_right s" "tv_parent (aview s) = dao_avltree_get_parent_avl s"
  "tv_tag (aview s) = dao_avltree_get_balance s" "tv_root (aview s) = avl_root s"
  by (simp_all add: aview_def)

abbreviation afocus :: "avltree \<Rightarrow> int frame list \<Rightarrow> int rtree \<Rightarrow> u64 \<Rightarrow> bool" where "afocus s \<equiv> focus (aview s)"

abbreviation achild :: "bool \<Rightarrow> avltree \<Rightarrow> u64 \<Rightarrow> u64" where "achild d s \<equiv> child d (aview s)"

lemmas afocus_plug = focus_plug [where s = "aview s" for s, unfolded aview_fields]

lemmas afocus_frame = focus_frame [where s = "aview s" for s, unfolded aview_fields]

lemmas afocus_parent = focus_parent [where s = "aview s" for s, unfolded aview_fields]

lemmas afocus_left = focus_left [where s = "aview s" for s, unfolded aview_fields]

lemmas afocus_right = focus_right [where s = "aview s" for s, unfolded aview_fields]

named_theorems avl_defs

lemmas [avl_defs] = avl_get_left_def avl_get_right_def avl_set_left_def avl_set_right_def dao_avltree_get_parent_avl_def
  dao_avltree_set_parent_avl_def dao_avltree_get_balance_def dao_avltree_set_balance_def dao_avltree_inc_balance_def
  dao_avltree_dec_balance_def Let_def

text \<open>A balance of three bits.\<close>

lemma balance_word: "- 4 \<le> b \<Longrightarrow> b < 4 \<Longrightarrow> sint (word_of_int b :: 3 word) = b"
  by (simp add: signed_of_int signed_take_bit_int_eq_self)

lemma balance_step: "sint w < 3 \<Longrightarrow> sint (w + 1 :: 3 word) = sint w + 1" "- 4 < sint w \<Longrightarrow> sint (w - 1 :: 3 word) = sint w - 1"
proof -
  have "- 4 \<le> sint w" using sint_greater_eq [of w] by simp
  then show "sint w < 3 \<Longrightarrow> sint (w + 1) = sint w + 1" using balance_word [of "sint w + 1"] by (simp add: wi_hom_syms)
  have "sint w < 4" using sint_less [of w] by simp
  then show "- 4 < sint w \<Longrightarrow> sint (w - 1) = sint w - 1" using balance_word [of "sint w - 1"] by (simp add: wi_hom_syms)
qed

lemma aview_writes:
  "aview (avl_set_left x v s) = vset_left x v (aview s)" "aview (avl_set_right x v s) = vset_right x v (aview s)"
  "aview (avl_set_root v s) = vset_root v (aview s)" "aview (dao_avltree_set_parent_avl v x s) = vset_parent x v (aview s)"
  "- 4 \<le> b \<Longrightarrow> b < 4 \<Longrightarrow> aview (dao_avltree_set_balance b x s) = vset_tag x b (aview s)"
  "dao_avltree_get_balance s x < 3 \<Longrightarrow>
     aview (snd (dao_avltree_inc_balance x s)) = vset_tag x (dao_avltree_get_balance s x + 1) (aview s)"
  "- 4 < dao_avltree_get_balance s x \<Longrightarrow>
     aview (snd (dao_avltree_dec_balance x s)) = vset_tag x (dao_avltree_get_balance s x - 1) (aview s)"
  by (rule tview_eqI; simp add: avl_defs balance_word balance_step)+

lemma aview_ends [simp]: "aview (s\<lparr>avl_height := h\<rparr>) = aview s" "aview (s\<lparr>avl_first := f\<rparr>) = aview s" "aview (s\<lparr>avl_last := f\<rparr>) = aview s"
  by (rule tview_eqI; simp add: avl_defs)+

text \<open>What the tree keeps besides the nodes.\<close>

definition avl_ends :: "avltree \<Rightarrow> int \<times> u64 \<times> u64" where "avl_ends s = (avl_height s, avl_first s, avl_last s)"

lemma avl_ends [simp]:
  "avl_ends (avl_set_left x v s) = avl_ends s" "avl_ends (avl_set_right x v s) = avl_ends s" "avl_ends (avl_set_root v s) = avl_ends s"
  "avl_ends (dao_avltree_set_parent_avl v x s) = avl_ends s" "avl_ends (dao_avltree_set_balance b x s) = avl_ends s"
  "avl_ends (snd (dao_avltree_inc_balance x s)) = avl_ends s" "avl_ends (snd (dao_avltree_dec_balance x s)) = avl_ends s"
  by (simp_all add: avl_ends_def avl_defs)

section \<open>Rotations\<close>

text \<open>Both rotations at once: \<open>arot d\<close> lifts the child on side \<open>d\<close>.\<close>

definition arot :: "bool \<Rightarrow> u64 \<Rightarrow> avltree \<Rightarrow> avltree option" where
  "arot d = (if d then dao_avltree_rotate_right_avl else dao_avltree_rotate_left_avl)"

lemma avl_writes [simp]:
  "avl_get_left (avl_set_left x v s) y = (if y = x then v else avl_get_left s y)" "avl_get_left (avl_set_right x v s) y = avl_get_left s y"
  "avl_get_left (avl_set_root v s) y = avl_get_left s y" "avl_get_left (dao_avltree_set_parent_avl v x s) y = avl_get_left s y"
  "avl_get_left (dao_avltree_set_balance b x s) y = avl_get_left s y"
  "avl_get_right (avl_set_right x v s) y = (if y = x then v else avl_get_right s y)" "avl_get_right (avl_set_left x v s) y = avl_get_right s y"
  "avl_get_right (avl_set_root v s) y = avl_get_right s y" "avl_get_right (dao_avltree_set_parent_avl v x s) y = avl_get_right s y"
  "avl_get_right (dao_avltree_set_balance b x s) y = avl_get_right s y"
  "dao_avltree_get_parent_avl (dao_avltree_set_parent_avl v x s) y = (if y = x then v else dao_avltree_get_parent_avl s y)"
  "dao_avltree_get_parent_avl (avl_set_left x v s) y = dao_avltree_get_parent_avl s y"
  "dao_avltree_get_parent_avl (avl_set_right x v s) y = dao_avltree_get_parent_avl s y"
  "dao_avltree_get_parent_avl (avl_set_root v s) y = dao_avltree_get_parent_avl s y"
  "dao_avltree_get_parent_avl (dao_avltree_set_balance b x s) y = dao_avltree_get_parent_avl s y"
  "dao_avltree_get_balance (avl_set_left x v s) y = dao_avltree_get_balance s y"
  "dao_avltree_get_balance (avl_set_right x v s) y = dao_avltree_get_balance s y"
  "dao_avltree_get_balance (avl_set_root v s) y = dao_avltree_get_balance s y"
  "dao_avltree_get_balance (dao_avltree_set_parent_avl v x s) y = dao_avltree_get_balance s y"
  "- 4 \<le> b \<Longrightarrow> b < 4 \<Longrightarrow> dao_avltree_get_balance (dao_avltree_set_balance b x s) y = (if y = x then b else dao_avltree_get_balance s y)"
  "avl_root (avl_set_left x v s) = avl_root s" "avl_root (avl_set_right x v s) = avl_root s"
  "avl_root (dao_avltree_set_parent_avl v x s) = avl_root s" "avl_root (dao_avltree_set_balance b x s) = avl_root s"
  by (simp_all add: avl_defs balance_word)

lemma rotate_right_avl:
  assumes "avl_get_left s g = p" "p \<noteq> 0" "dao_avltree_get_parent_avl s g = q" "q \<noteq> p" "q \<noteq> g" "p \<noteq> g"
    and "avl_get_right s p = i" "i \<noteq> p" "i \<noteq> g" "q \<noteq> 0 \<Longrightarrow> (avl_get_left s q = g) \<longleftrightarrow> avl_get_right s q \<noteq> g"
  shows "\<exists>s'. dao_avltree_rotate_right_avl g s = Some s' \<and> rotated True g (aview s) (aview s') \<and> avl_ends s' = avl_ends s"
  using assms by (auto simp: dao_avltree_rotate_right_avl_def dao_avltree_is_root_avl_def rotated_def child_def Let_def)

lemma rotate_left_avl:
  assumes "avl_get_right s g = p" "p \<noteq> 0" "dao_avltree_get_parent_avl s g = q" "q \<noteq> p" "q \<noteq> g" "p \<noteq> g"
    and "avl_get_left s p = i" "i \<noteq> p" "i \<noteq> g" "q \<noteq> 0 \<Longrightarrow> (avl_get_left s q = g) \<longleftrightarrow> avl_get_right s q \<noteq> g"
  shows "\<exists>s'. dao_avltree_rotate_left_avl g s = Some s' \<and> rotated False g (aview s) (aview s') \<and> avl_ends s' = avl_ends s"
  using assms by (auto simp: dao_avltree_rotate_left_avl_def dao_avltree_is_root_avl_def rotated_def child_def Let_def)

lemma arot_focus:
  assumes F: "afocus s k (mk d cg (mk d cp A p B) g U) g"
  shows "\<exists>s'. arot d g s = Some s' \<and> afocus s' k (mk d cp A p (mk d cg B g U)) p \<and> avl_ends s' = avl_ends s"
proof -
  have P: "achild d s g = p" "p \<noteq> 0" "g \<noteq> 0" "dao_avltree_get_parent_avl s g = ktop k" using F by (simp_all add: focus_def reps_mk)
  have "p \<in> rset (mk d cg (mk d cp A p B) g U)" "g \<in> rset (mk d cg (mk d cp A p B) g U)" by (simp_all add: mk_def)
  then have q: "ktop k \<noteq> p" "ktop k \<noteq> g" using focus_disjoint [OF F] ktop_in [of k] P(2,3) by metis+
  note F1 = focus_into [OF F, unfolded P(1)]
  then have "afocus s ((\<not> d, cp, p, A) # (d, cg, g, U) # k) B (achild (\<not> d) s p)"
    using focus_flip [OF focus_into [OF F1]] by simp
  note B = this
  have pg: "p \<noteq> g" using focus_neq_parent [OF F1 P(2)] by simp
  have i: "achild (\<not> d) s p \<noteq> p" "achild (\<not> d) s p \<noteq> g"
  proof -
    let ?i = "achild (\<not> d) s p"
    have "?i \<noteq> 0 \<Longrightarrow> ?i \<in> rset B" using B reps_nonzero by (auto simp: focus_def)
    moreover have "p \<notin> rset B" "g \<notin> rset B" using focus_disjoint [OF B] by (cases d; auto)+
    ultimately show "?i \<noteq> p" "?i \<noteq> g" using P(2,3) by metis+
  qed
  have side: "(avl_get_left s (ktop k) = g) \<longleftrightarrow> avl_get_right s (ktop k) \<noteq> g" if "ktop k \<noteq> 0"
  proof (cases k)
    case (Cons f k')
    obtain d' c a u where f: "f = (d', c, a, u)" by (cases f)
    show ?thesis using focus_side [of "aview s" d' c a u k' _ g] F P(3) Cons f by (cases d') (auto simp: child_def)
  qed (use that in simp)
  have "\<exists>s'. arot d g s = Some s' \<and> rotated d g (aview s) (aview s') \<and> avl_ends s' = avl_ends s"
  proof (cases d)
    case True
    then show ?thesis
      using rotate_right_avl [OF _ P(2,4) q pg refl _ _ side] P(1) i by (simp add: arot_def child_def)
  next
    case False
    then show ?thesis
      using rotate_left_avl [OF _ P(2,4) q pg refl _ _ side] P(1) i by (simp add: arot_def child_def)
  qed
  then show ?thesis using rotated_focus [OF F] by blast
qed

lemma set_balance_focus:
  assumes "afocus s k (mk d b t a u) a" "- 4 \<le> b'" "b' < 4"
  shows "afocus (dao_avltree_set_balance b' a s) k (mk d b' t a u) a"
  using assms(2,3) by (intro recolor_focus [OF assms(1)]) (simp_all add: aview_writes)

section \<open>Balance\<close>

fun avl :: "int rtree \<Rightarrow> bool" where
  "avl RLeaf = True"
| "avl (RNode b l a r) \<longleftrightarrow> b = int (rheight r) - int (rheight l) \<and> - 1 \<le> b \<and> b \<le> 1 \<and> avl l \<and> avl r"

text \<open>The sign of the balance of a node whose subtree on side \<open>d\<close> is the higher one.\<close>

definition hsign :: "bool \<Rightarrow> int" where "hsign d = (if d then - 1 else 1)"

lemma hsign [simp]: "hsign True = - 1" "hsign False = 1" "hsign (\<not> d) = - hsign d" "hsign d * hsign d = 1"
  by (simp_all add: hsign_def)

lemma avl_mk [simp]: "avl (mk d b t a u) \<longleftrightarrow> b = hsign d * (int (rheight t) - int (rheight u)) \<and> - 1 \<le> b \<and> b \<le> 1 \<and> avl t \<and> avl u"
  by (auto simp: mk_def hsign_def)

lemma rinorder_mk: "rinorder (mk d c t a u) = (if d then rinorder t @ a # rinorder u else rinorder u @ a # rinorder t)"
  by (simp add: mk_def)

text \<open>What a subtree of height \<open>h\<close> at the end of a path fits into, and the height of the whole tree then.\<close>

fun kavl :: "int frame list \<Rightarrow> nat \<Rightarrow> bool" where
  "kavl [] h = True"
| "kavl ((d, b, a, u) # k) h \<longleftrightarrow> avl u \<and> b = hsign d * (int h - int (rheight u)) \<and> - 1 \<le> b \<and> b \<le> 1 \<and> kavl k (1 + max h (rheight u))"

fun kheight :: "'c frame list \<Rightarrow> nat \<Rightarrow> nat" where
  "kheight [] h = h"
| "kheight ((d, b, a, u) # k) h = kheight k (1 + max h (rheight u))"

lemma avl_plug: "avl (plug k t) \<longleftrightarrow> avl t \<and> kavl k (rheight t)"
  by (induction k t rule: plug.induct) auto

lemma rheight_plug_eq: "rheight (plug k t) = kheight k (rheight t)"
  by (induction k t rule: plug.induct) auto

lemma kavl_addr: "kavl (k2 @ (d, b, x, u) # k) h = kavl (k2 @ (d, b, y, u) # k) h"
  by (induction k2 h rule: kavl.induct) simp_all

lemma kheight_addr: "kheight (k2 @ (d, b, x, u) # k) h = kheight (k2 @ (d, b, y, u) # k) h"
  by (induction k2 h rule: kheight.induct) simp_all

section \<open>Single and double rotations\<close>

definition arot2 :: "bool \<Rightarrow> u64 \<Rightarrow> u64 \<Rightarrow> avltree \<Rightarrow> avltree option" where
  "arot2 d = (if d then avl_left_right else avl_right_left)"

lemma arot2_eq:
  "arot2 d a c s =
     (let m = achild (\<not> d) s c in
      if m = 0 then None
      else
        (let b = hsign d * dao_avltree_get_balance s m;
             s = (if b = 1 then dao_avltree_set_balance 0 c (dao_avltree_set_balance (- hsign d) a s)
                  else if b = 0 then dao_avltree_set_balance 0 c (dao_avltree_set_balance 0 a s)
                  else if b = - 1 then dao_avltree_set_balance (hsign d) c (dao_avltree_set_balance 0 a s)
                  else s)
         in arot (\<not> d) c (dao_avltree_set_balance 0 m s)))"
proof -
  have "- x = 1 \<longleftrightarrow> x = - 1" for x :: int by linarith
  then show ?thesis
    by (cases d) (simp_all add: arot2_def avl_left_right_def avl_right_left_def arot_def child_def Let_def)
qed

lemma hsign_bounds [simp]: "- 4 \<le> hsign d" "hsign d < 4" "- 4 \<le> - hsign d" "- hsign d < 4" "- 1 \<le> hsign d" "hsign d \<le> 1" "hsign d \<noteq> 0"
  by (simp_all add: hsign_def)

lemma heal_single:
  assumes F: "afocus s k (mk d b (mk d bc X c Y) a U) a" and b: "- 1 \<le> va" "va \<le> 1" "- 1 \<le> vc" "vc \<le> 1"
  shows "\<exists>s'. arot d a (dao_avltree_set_balance vc c (dao_avltree_set_balance va a s)) = Some s' \<and>
    afocus s' k (mk d vc X c (mk d va Y a U)) c \<and> avl_ends s' = avl_ends s"
proof -
  note F1 = focus_into [OF set_balance_focus [OF F, of va]]
  have "afocus (dao_avltree_set_balance va a s) ((d, va, a, U) # k) (mk d bc X c Y) c"
    using F1 focus_root [OF F1] b by simp
  then have "afocus (dao_avltree_set_balance vc c (dao_avltree_set_balance va a s)) k (mk d va (mk d vc X c Y) a U) a"
    using focus_up [OF set_balance_focus] b by simp
  from arot_focus [OF this] show ?thesis by auto
qed

lemma heal_double:
  assumes F: "afocus s k (mk d b (mk d bc X c (mk (\<not> d) bm P m Q)) a U) a" and bm: "- 1 \<le> bm" "bm \<le> 1"
  shows "\<exists>s1 s'. arot2 d a c s = Some s1 \<and> arot d a s1 = Some s' \<and> avl_ends s' = avl_ends s \<and>
    afocus s' k (mk d 0 (mk d (if hsign d * bm = - 1 then hsign d else 0) X c Q) m
      (mk d (if hsign d * bm = 1 then - hsign d else 0) P a U)) m"
proof -
  let ?va = "if hsign d * bm = 1 then - hsign d else 0" and ?vc = "if hsign d * bm = - 1 then hsign d else 0"
  let ?s1 = "dao_avltree_set_balance ?vc c (dao_avltree_set_balance ?va a s)"
  note F0 = focus_into [OF F]
  have c: "achild d s a = c" by (rule focus_root [OF F0])
  note C = F0 [unfolded c]
  have M: "afocus s ((\<not> d, bc, c, X) # (d, b, a, U) # k) (mk (\<not> d) bm P m Q) (achild (\<not> d) s c)"
    using focus_into [of _ _ "\<not> d" bc "mk (\<not> d) bm P m Q" c X] C by (simp add: mk_flip)
  have m: "achild (\<not> d) s c = m" "m \<noteq> 0" "dao_avltree_get_balance s m = bm"
    using focus_root [OF M] M by (auto simp: focus_def reps_mk)
  have "hsign d * bm = 1 \<or> hsign d * bm = 0 \<or> hsign d * bm = - 1" using bm by (auto simp: hsign_def)
  then have two: "arot2 d a c s = arot (\<not> d) c (dao_avltree_set_balance 0 m ?s1)"
    using m unfolding arot2_eq Let_def by (elim disjE) simp_all
  have bnd: "- 4 \<le> ?va" "?va < 4" "- 4 \<le> ?vc" "?vc < 4" by (simp_all add: hsign_def)
  note G = focus_into [OF set_balance_focus [OF F bnd(1,2)]]
  from set_balance_focus [OF G [unfolded focus_root [OF G]] bnd(3,4)]
  have S1: "afocus ?s1 ((d, ?va, a, U) # k) (mk (\<not> d) ?vc (mk (\<not> d) bm P m Q) c X) c" by (simp add: mk_flip)
  have "afocus ?s1 ((\<not> d, ?vc, c, X) # (d, ?va, a, U) # k) (mk (\<not> d) bm P m Q) m"
    using focus_into [OF S1] focus_root [OF focus_into [OF S1]] by simp
  then have "afocus (dao_avltree_set_balance 0 m ?s1) ((d, ?va, a, U) # k) (mk (\<not> d) ?vc (mk (\<not> d) 0 P m Q) c X) c"
    using focus_up [OF set_balance_focus [of _ _ _ _ _ _ _ 0]] by simp
  from arot_focus [OF this] obtain s1 where s1: "arot (\<not> d) c (dao_avltree_set_balance 0 m ?s1) = Some s1"
    "afocus s1 ((d, ?va, a, U) # k) (mk (\<not> d) 0 P m (mk (\<not> d) ?vc Q c X)) m" "avl_ends s1 = avl_ends s" by auto
  have "afocus s1 k (mk d ?va (mk d 0 (mk d ?vc X c Q) m P) a U) a"
    using focus_up [OF s1(2)] by (simp add: mk_flip)
  from arot_focus [OF this] show ?thesis using two s1(1,3) by auto
qed

text \<open>
  A node whose subtree on side \<open>d\<close> is too high by two: as the code repairs it when that subtree leans to one
  side (insertion and removal) and when it does not (removal).
\<close>

lemma mk_split: "t \<noteq> RLeaf \<Longrightarrow> \<exists>b x a y. t = mk d b x a y"
proof (cases t)
  case (RNode b l a r)
  then have "t = mk d b (if d then l else r) a (if d then r else l)" by (simp add: mk_def)
  then show ?thesis by blast
qed simp

lemma heal_leaning:
  assumes F: "afocus s k (mk d b C a U) a" and ok: "avl C" "avl U" "rheight C = rheight U + 2"
    and bal: "dao_avltree_get_balance s (achild d s a) \<noteq> 0"
  shows "\<exists>s1 s' T y. (if dao_avltree_get_balance s (achild d s a) = hsign d
        then Some (dao_avltree_set_balance 0 (achild d s a) (dao_avltree_set_balance 0 a s)) else arot2 d a (achild d s a) s) = Some s1 \<and>
      arot d a s1 = Some s' \<and> avl_ends s' = avl_ends s \<and>
      afocus s' k T y \<and> avl T \<and> rheight T = rheight C \<and> rinorder T = rinorder (mk d b C a U)"
proof -
  have "C \<noteq> RLeaf" using ok(3) by auto
  then obtain bc X c Y where C: "C = mk d bc X c Y" using mk_split [of C d] by blast
  note F = F [unfolded C]
  have c: "achild d s a = c" "dao_avltree_get_balance s c = bc"
    using focus_root [OF focus_into [OF F]] F by (auto simp: focus_def reps_mk)
  have bc: "bc = hsign d * (int (rheight X) - int (rheight Y))" "- 1 \<le> bc" "bc \<le> 1" "avl X" "avl Y" using ok(1) C by simp_all
  show ?thesis
  proof (cases "bc = hsign d")
    case True
    then have h: "rheight X = rheight Y + 1" using bc(1) by (cases d) simp_all
    obtain s' where s': "arot d a (dao_avltree_set_balance 0 c (dao_avltree_set_balance 0 a s)) = Some s'"
      "afocus s' k (mk d 0 X c (mk d 0 Y a U)) c" "avl_ends s' = avl_ends s"
      using heal_single [OF F, of 0 0] by auto
    have "avl (mk d 0 X c (mk d 0 Y a U))" "rheight (mk d 0 X c (mk d 0 Y a U)) = rheight C"
      using h ok C bc by simp_all
    moreover have "rinorder (mk d 0 X c (mk d 0 Y a U)) = rinorder (mk d b C a U)" using C by (simp add: rinorder_mk)
    ultimately show ?thesis using s' c True by auto
  next
    case False
    then have h: "rheight Y = rheight X + 1" using bc bal c by (cases d) simp_all
    then obtain bm P m Q where Y: "Y = mk (\<not> d) bm P m Q" using mk_split [of Y "\<not> d"] by force
    have bm: "bm = - hsign d * (int (rheight P) - int (rheight Q))" "- 1 \<le> bm" "bm \<le> 1" "avl P" "avl Q" using bc(5) Y by simp_all
    let ?T = "mk d 0 (mk d (if hsign d * bm = - 1 then hsign d else 0) X c Q) m (mk d (if hsign d * bm = 1 then - hsign d else 0) P a U)"
    obtain s1 s' where s': "arot2 d a c s = Some s1" "arot d a s1 = Some s'" "avl_ends s' = avl_ends s" "afocus s' k ?T m"
      using heal_double [OF F [unfolded Y] bm(2,3)] by blast
    have hb: "hsign d * bm = int (rheight Q) - int (rheight P)" unfolding bm(1) by (cases d) simp_all
    have hx: "rheight X = rheight U" "rheight Y = 1 + max (rheight P) (rheight Q)" using h ok(3) C Y by simp_all
    have "avl ?T \<and> rheight ?T = rheight C"
    proof -
      consider "rheight Q = rheight P + 1" | "rheight Q = rheight P" | "rheight P = rheight Q + 1"
        using hb bm(2,3) by (cases d) (simp_all, linarith+)
      then show ?thesis
        by cases (use hb hx h ok C bm bc in simp_all)
    qed
    moreover have "rinorder ?T = rinorder (mk d b C a U)" using C Y by (simp add: rinorder_mk)
    ultimately show ?thesis using s' c False by auto
  qed
qed

lemma heal_even:
  assumes F: "afocus s k (mk d b C a U) a" and ok: "avl C" "avl U" "rheight C = rheight U + 2"
    and bal: "dao_avltree_get_balance s (achild d s a) = 0"
  shows "\<exists>s' T y. arot d a (dao_avltree_set_balance (- hsign d) (achild d s a) (dao_avltree_set_balance (hsign d) a s)) = Some s' \<and>
      avl_ends s' = avl_ends s \<and> afocus s' k T y \<and> avl T \<and> rheight T = rheight C + 1 \<and> rinorder T = rinorder (mk d b C a U)"
proof -
  have "C \<noteq> RLeaf" using ok(3) by auto
  then obtain bc X c Y where C: "C = mk d bc X c Y" using mk_split [of C d] by blast
  note F = F [unfolded C]
  have c: "achild d s a = c" "bc = 0" using focus_root [OF focus_into [OF F]] F bal by (auto simp: focus_def reps_mk)
  then have h: "rheight X = rheight Y" "avl X" "avl Y" using ok(1) C by simp_all
  obtain s' where s': "arot d a (dao_avltree_set_balance (- hsign d) c (dao_avltree_set_balance (hsign d) a s)) = Some s'"
    "afocus s' k (mk d (- hsign d) X c (mk d (hsign d) Y a U)) c" "avl_ends s' = avl_ends s"
    using heal_single [OF F, of "hsign d" "- hsign d"] hsign_bounds by (auto simp: hsign_def)
  have "avl (mk d (- hsign d) X c (mk d (hsign d) Y a U))" "rheight (mk d (- hsign d) X c (mk d (hsign d) Y a U)) = rheight C + 1"
    using h ok C by (simp_all add: hsign_def)
  moreover have "rinorder (mk d (- hsign d) X c (mk d (hsign d) Y a U)) = rinorder (mk d b C a U)" using C by (simp add: rinorder_mk)
  ultimately show ?thesis unfolding c(1) using s' by blast
qed

end
