(* ===== verification/AvlInsert.thy ===== *)
theory AvlInsert imports AvlHeap begin

text \<open>
  Insertion into the AVL tree: the search with the last unbalanced node of its path, the balances from there down to the
  new node, and the rotations at the unbalanced node.
\<close>

section \<open>The tree and its ends\<close>

text \<open>
  The tree holds the nodes \<open>xs\<close> in the order of their keys, it is balanced, and its height, first and last
  node are what the tree says they are.
\<close>

definition avl_holds :: "(u64 \<Rightarrow> 'k::linorder) \<Rightarrow> avltree \<Rightarrow> u64 list \<Rightarrow> bool" where
  "avl_holds key s xs \<longleftrightarrow> tree_holds (\<lambda>t. avl t \<and> avl_height s = int (rheight t) - 1) key (aview s) xs \<and>
     avl_first s = (case xs of [] \<Rightarrow> 0 | x # _ \<Rightarrow> x) \<and> avl_last s = (if xs = [] then 0 else last xs)"

section \<open>The search\<close>

fun kdir :: "int frame list \<Rightarrow> bool" where
  "kdir [] = False"
| "kdir ((d, b, a, u) # k) = d"

text \<open>The last unbalanced node of a path, or its first node.\<close>

fun last_unb :: "int frame list \<Rightarrow> u64" where
  "last_unb [] = 0"
| "last_unb [(d, b, a, u)] = a"
| "last_unb ((d, b, a, u) # f # k) = (if b \<noteq> 0 then a else last_unb (f # k))"

lemma avl_find:
  assumes "cmp_by cmp key" "afocus s k t x" "key_sorted key (rinorder (plug k t))"
    and "\<forall>a\<in>set (before k). key a < key n" "\<forall>a\<in>set (after k). key n < key a"
    and "if k = [] then w = x else w = last_unb k"
  shows "(\<exists>m p u l. m \<in> rset t \<and> key m = key n \<and> avl_lookup_loop cmp n s x (ktop k) w (kdir k) = Some (m, p, u, l)) \<or>
    (\<exists>k'. avl_lookup_loop cmp n s x (ktop k) w (kdir k) = Some (0, ktop k', last_unb k', kdir k') \<and> afocus s k' RLeaf 0 \<and>
       plug k' RLeaf = plug k t \<and> (\<forall>a\<in>set (before k'). key a < key n) \<and> (\<forall>a\<in>set (after k'). key n < key a))"
  using assms(2-6)
proof (induction t arbitrary: k x w)
  case RLeaf
  then have x: "x = 0" by (simp add: focus_def)
  then have "w = last_unb k" using RLeaf(5) by (auto split: if_splits)
  then have "avl_lookup_loop cmp n s x (ktop k) w (kdir k) = Some (0, ktop k, last_unb k, kdir k)"
    using x by (subst avl_lookup_loop.simps) simp
  then show ?case using RLeaf x by blast
next
  case (RNode c l a r)
  have a: "x = a" "a \<noteq> 0" "dao_avltree_get_balance s a = c" using RNode.prems(1) by (auto simp: focus_def)
  have sl: "afocus s ((True, c, a, r) # k) l (avl_get_left s a)" using RNode.prems(1) by (simp add: afocus_left)
  have sr: "afocus s ((False, c, a, l) # k) r (avl_get_right s a)" using RNode.prems(1) by (simp add: afocus_right)
  have srt: "\<forall>y\<in>rset r. key a < key y" "\<forall>y\<in>rset l. key y < key a"
    using RNode.prems(2) by (auto simp: rinorder_plug key_sorted_append key_sorted_Cons)
  have pl: "plug ((True, c, a, r) # k) l = plug k (RNode c l a r)" "plug ((False, c, a, l) # k) r = plug k (RNode c l a r)"
    by (simp_all add: mk_def)
  have w: "(if c \<noteq> 0 then a else w) = last_unb ((d, c, a, u) # k)" for d u
    using RNode.prems(5) a(1) by (cases k) (auto split: if_splits)
  consider "key n < key a" | "key a < key n" | "key a = key n" by (meson linorder_cases)
  then show ?case
  proof cases
    case 1
    let ?k = "(True, c, a, r) # k"
    have "cmp a n > 0" using assms(1) 1 by (simp add: cmp_by_def)
    then have "avl_lookup_loop cmp n s x (ktop k) w (kdir k) =
        avl_lookup_loop cmp n s (avl_get_left s a) (ktop ?k) (last_unb ?k) (kdir ?k)"
      using a unfolding w [of True r, symmetric] by (subst avl_lookup_loop.simps) (simp add: Let_def)
    moreover have "\<forall>y\<in>set (after ?k). key n < key y" "\<forall>y\<in>set (before ?k). key y < key n"
      using 1 srt RNode.prems(3,4) by (auto intro: less_trans)
    ultimately show ?thesis
      using RNode.IH(1) [OF sl, of "last_unb ?k"] RNode.prems(2) unfolding pl by auto
  next
    case 2
    let ?k = "(False, c, a, l) # k"
    have "cmp a n < 0" using assms(1) 2 by (simp add: cmp_by_def)
    then have "avl_lookup_loop cmp n s x (ktop k) w (kdir k) =
        avl_lookup_loop cmp n s (avl_get_right s a) (ktop ?k) (last_unb ?k) (kdir ?k)"
      using a unfolding w [of False l, symmetric] by (subst avl_lookup_loop.simps) (simp add: Let_def)
    moreover have "\<forall>y\<in>set (after ?k). key n < key y" "\<forall>y\<in>set (before ?k). key y < key n"
      using 2 srt RNode.prems(3,4) by (auto intro: less_trans)
    ultimately show ?thesis
      using RNode.IH(2) [OF sr, of "last_unb ?k"] RNode.prems(2) unfolding pl by auto
  next
    case 3
    then have "cmp a n = 0" using assms(1) less_irrefl unfolding cmp_by_def by (metis linorder_neqE_linordered_idom)
    then have "\<exists>p u l. avl_lookup_loop cmp n s x (ktop k) w (kdir k) = Some (a, p, u, l)"
      using a by (subst avl_lookup_loop.simps) (simp add: Let_def)
    then show ?thesis using 3 by auto
  qed
qed

lemma do_lookup:
  assumes "cmp_by cmp key" "afocus s [] t (avl_root s)" "key_sorted key (rinorder t)"
  shows "(\<exists>m p u l. m \<in> rset t \<and> key m = key n \<and> dao_avltree_do_lookup_avl n cmp s = Some (m, p, u, l)) \<or>
    (\<exists>k. dao_avltree_do_lookup_avl n cmp s = Some (0, ktop k, last_unb k, kdir k) \<and> afocus s k RLeaf 0 \<and> plug k RLeaf = t \<and>
       (\<forall>a\<in>set (before k). key a < key n) \<and> (\<forall>a\<in>set (after k). key n < key a))"
  using avl_find [OF assms(1,2), of n "avl_root s"] assms(3) by (simp add: dao_avltree_do_lookup_avl_def)

lemma find_sorted: "key_sorted key xs \<Longrightarrow> m \<in> set xs \<Longrightarrow> key m = key n \<Longrightarrow> find (\<lambda>m. key m = key n) xs = Some m"
  by (induction xs) (auto simp: key_sorted_Cons)

lemma avl_lookup_holds:
  assumes "cmp_by cmp key" "avl_holds key s xs"
  shows "dao_avltree_lookup n cmp s = Some (case find (\<lambda>m. key m = key n) xs of Some m \<Rightarrow> m | None \<Rightarrow> 0)"
proof -
  obtain t where t: "afocus s [] t (avl_root s)" "rinorder t = xs" "key_sorted key xs"
    using assms(2) by (auto simp: avl_holds_def tree_holds_def)
  from do_lookup [where n = n, OF assms(1) t(1)] t(2,3)
  consider (old) m p u l where "m \<in> set xs" "key m = key n" "dao_avltree_do_lookup_avl n cmp s = Some (m, p, u, l)"
    | (new) k where "dao_avltree_do_lookup_avl n cmp s = Some (0, ktop k, last_unb k, kdir k)" "plug k RLeaf = t"
      "\<forall>a\<in>set (before k). key a < key n" "\<forall>a\<in>set (after k). key n < key a"
    by auto
  then show ?thesis
  proof cases
    case old
    then show ?thesis using find_sorted [OF t(3)] by (simp add: dao_avltree_lookup_def)
  next
    case new
    have "set xs = set (before k) \<union> set (after k)" using new(2) t(2) rinorder_plug [of k RLeaf] by auto
    then have "find (\<lambda>m. key m = key n) xs = None" using new(3,4) by (auto simp: find_None_iff)
    then show ?thesis using new(1) by (simp add: dao_avltree_lookup_def)
  qed
qed

section \<open>Balances on the way up\<close>

lemma balance_frame:
  assumes F: "afocus s ((d, b, a, u) # k) t x" and v: "aview s1 = vset_tag a b' (aview s)"
  shows "afocus s1 ((d, b', a, u) # k) t x"
proof -
  have "afocus s1 k (mk d b' t a u) a" by (rule recolor_focus [OF focus_up [OF F]]) (simp_all add: v)
  moreover have "achild d s1 a = x" using focus_at [OF F] by (simp add: v child_def)
  ultimately show ?thesis using focus_into by metis
qed

lemma count_step:
  assumes F: "afocus s ((d, b, a, u) # k) t x" and x: "x \<noteq> 0" and b: "- 1 \<le> b" "b \<le> 1"
  defines "s1 \<equiv> snd (if avl_get_left s a = x then dao_avltree_dec_balance a s else dao_avltree_inc_balance a s)"
  shows "afocus s1 ((d, b + hsign d, a, u) # k) t x" "avl_ends s1 = avl_ends s" "aview s1 = vset_tag a (b + hsign d) (aview s)"
proof -
  have "dao_avltree_get_balance s a = b" using afocus_frame [OF F] by simp
  moreover have "avl_get_left s a = x \<longleftrightarrow> d" using focus_side [OF F x] by (cases d) (auto simp: child_def)
  ultimately show v: "aview s1 = vset_tag a (b + hsign d) (aview s)" using b by (cases d) (simp_all add: s1_def aview_writes)
  show "afocus s1 ((d, b + hsign d, a, u) # k) t x" by (rule balance_frame [OF F v])
  show "avl_ends s1 = avl_ends s" by (simp add: s1_def)
qed

lemma last_unb_in: "k \<noteq> [] \<Longrightarrow> last_unb k \<in> set (before k) \<union> set (after k)"
proof (induction k rule: last_unb.induct)
  case (3 d b a u f k)
  then show ?case by (cases "b \<noteq> 0"; cases d) auto
qed auto

lemma insert_fix_heavy:
  "dao_avltree_get_balance s a = 2 * hsign d \<Longrightarrow> achild d s a \<noteq> 0 \<Longrightarrow>
   avl_insert_fix a s =
     Option.bind
       (if dao_avltree_get_balance s (achild d s a) = hsign d
        then Some (dao_avltree_set_balance 0 (achild d s a) (dao_avltree_set_balance 0 a s))
        else arot2 d a (achild d s a) s) (arot d a)"
  by (cases d) (simp_all add: avl_insert_fix_def Let_def child_def arot2_def arot_def)

text \<open>The last unbalanced node itself: nothing to do, one level more, or a rotation.\<close>

lemma insert_top:
  assumes F: "afocus s ((d, b + hsign d, a, u) # k) t x" and x: "x \<noteq> 0" "h = 0 \<or> dao_avltree_get_balance s x \<noteq> 0"
    and t: "avl t" "rheight t = h + 1" and K: "kavl ((d, b, a, u) # k) h" and top: "k = [] \<or> b \<noteq> 0"
  shows "\<exists>s2 t'. avl_insert_fix a s = Some s2 \<and> afocus s2 [] t' (avl_root s2) \<and> avl t' \<and>
    rinorder t' = rinorder (plug ((d, b, a, u) # k) t) \<and> avl_first s2 = avl_first s \<and> avl_last s2 = avl_last s \<and>
    avl_height s2 = avl_height s + int (rheight t') - int (kheight ((d, b, a, u) # k) h)"
proof -
  let ?b = "b + hsign d"
  note U = focus_up [OF F]
  have b: "b = hsign d * (int h - int (rheight u))" "- 1 \<le> b" "b \<le> 1" "avl u" "kavl k (1 + max h (rheight u))" using K by simp_all
  have bal: "dao_avltree_get_balance s a = ?b" using afocus_frame [OF F] by simp
  have ch: "achild d s a = x" using focus_at [OF F] by simp
  have io: "rinorder (plug k (mk d c t a u)) = rinorder (plug ((d, b, a, u) # k) t)" for c
    by (simp add: rinorder_plug rinorder_mk)
  consider "b = - hsign d" | "b = 0" | "b = hsign d" using b(2,3) by (cases d) (simp_all, linarith+)
  then show ?thesis
  proof cases
    case 1
    then have h: "rheight u = h + 1" using b(1) by (cases d) simp_all
    have "avl_insert_fix a s = Some s" using bal 1 by (simp add: avl_insert_fix_def)
    moreover have "avl (plug k (mk d ?b t a u))" "rheight (plug k (mk d ?b t a u)) = kheight ((d, b, a, u) # k) h"
      using 1 h t b by (simp_all add: avl_plug rheight_plug_eq)
    ultimately show ?thesis using afocus_plug [OF U] io by auto
  next
    case 2
    then have k: "k = []" "rheight u = h" using top b(1) by (cases d; simp)+
    have "?b = 1 \<or> ?b = - 1" using 2 by (cases d) simp_all
    then have "avl_insert_fix a s = Some (s\<lparr>avl_height := avl_height s + 1\<rparr>)" using bal by (simp add: avl_insert_fix_def)
    moreover have "avl (mk d ?b t a u)" using 2 k t b(4) by simp
    moreover have "afocus (s\<lparr>avl_height := avl_height s + 1\<rparr>) [] (mk d ?b t a u) (avl_root s)" using afocus_plug [OF U] k by simp
    ultimately show ?thesis
      using k t io [of ?b] by (intro exI [of _ "s\<lparr>avl_height := avl_height s + 1\<rparr>"] exI [of _ "mk d ?b t a u"]) simp
  next
    case 3
    then have h: "rheight t = rheight u + 2" "h = rheight u + 1" using b(1) t(2) by (cases d; simp)+
    have nz: "dao_avltree_get_balance s (achild d s a) \<noteq> 0" using x(2) h ch by simp
    from heal_leaning [OF U t(1) b(4) h(1) nz] obtain s1 s2 T y where
      heal: "(if dao_avltree_get_balance s (achild d s a) = hsign d
        then Some (dao_avltree_set_balance 0 (achild d s a) (dao_avltree_set_balance 0 a s)) else arot2 d a (achild d s a) s) = Some s1"
      "arot d a s1 = Some s2" "avl_ends s2 = avl_ends s" "afocus s2 k T y" "avl T" "rheight T = rheight t" "rinorder T = rinorder (mk d ?b t a u)"
      by blast
    have "dao_avltree_get_balance s a = 2 * hsign d" using bal 3 by simp
    then have "avl_insert_fix a s = Some s2" using insert_fix_heavy [of s a d] heal(1,2) ch x(1) by simp
    moreover have "avl (plug k T)" "rheight (plug k T) = kheight ((d, b, a, u) # k) h"
      using heal(5,6) h b(5) by (simp_all add: avl_plug rheight_plug_eq max_def)
    moreover have "rinorder (plug k T) = rinorder (plug ((d, b, a, u) # k) t)"
      using heal(7) io [of ?b] by (simp add: rinorder_plug)
    ultimately show ?thesis using afocus_plug [OF heal(4)] heal(3) by (auto simp: avl_ends_def)
  qed
qed

lemma insert_up:
  assumes "afocus s k t x" "k \<noteq> []" "x \<noteq> 0" "h = 0 \<or> dao_avltree_get_balance s x \<noteq> 0" "avl t" "rheight t = h + 1" "kavl k h"
  shows "\<exists>s1 s2 t'. avl_count_loop x (ktop k) (last_unb k) s = Some s1 \<and> avl_insert_fix (last_unb k) s1 = Some s2 \<and>
    afocus s2 [] t' (avl_root s2) \<and> avl t' \<and> rinorder t' = rinorder (plug k t) \<and> avl_first s2 = avl_first s \<and> avl_last s2 = avl_last s \<and>
    avl_height s2 = avl_height s + int (rheight t') - int (kheight k h)"
  using assms
proof (induction k arbitrary: s t x h)
  case (Cons f k)
  obtain d b a u where f: "f = (d, b, a, u)" by (cases f)
  note F = Cons.prems(1) [unfolded f]
  note K = Cons.prems(7) [unfolded f]
  have b: "- 1 \<le> b" "b \<le> 1" "b = hsign d * (int h - int (rheight u))" "avl u" using K by simp_all
  have a: "a \<noteq> 0" using focus_frame [OF F] by simp
  obtain s1 where s1: "s1 = snd (if avl_get_left s a = x then dao_avltree_dec_balance a s else dao_avltree_inc_balance a s)"
    "afocus s1 ((d, b + hsign d, a, u) # k) t x" "avl_ends s1 = avl_ends s" "aview s1 = vset_tag a (b + hsign d) (aview s)"
    using count_step [OF F Cons.prems(3) b(1,2)] by blast
  have xa: "x \<noteq> a" using focus_neq_parent [OF F Cons.prems(3)] by simp
  have "tv_tag (aview s1) x = tv_tag (aview s) x" unfolding s1(4) using xa by simp
  then have bx: "dao_avltree_get_balance s1 x = dao_avltree_get_balance s x" by simp
  show ?case
  proof (cases "k = [] \<or> b \<noteq> 0")
    case True
    then have lu: "last_unb (f # k) = a" using f by (cases k) auto
    have "avl_count_loop x (ktop (f # k)) (last_unb (f # k)) s = Some s1"
      using a lu f s1(1) by (subst avl_count_loop.simps) (simp add: Let_def)
    then show ?thesis
      using insert_top [OF s1(2) Cons.prems(3) _ Cons.prems(5,6) K True] Cons.prems(4) bx s1(3) lu f by (auto simp: avl_ends_def)
  next
    case False
    then have k: "k \<noteq> []" "b = 0" by auto
    then have lu: "last_unb (f # k) = last_unb k" using f by (cases k) auto
    note U = focus_up [OF s1(2)]
    have "a \<in> rset (mk d (b + hsign d) t a u)" by (simp add: rinorder_mk)
    then have ne: "a \<noteq> last_unb k" using focus_disjoint [OF U] last_unb_in [OF k(1)] by metis
    have par: "dao_avltree_get_parent_avl s1 a = ktop k" using afocus_frame [OF s1(2)] by simp
    have loop: "avl_count_loop x (ktop (f # k)) (last_unb (f # k)) s = avl_count_loop a (ktop k) (last_unb k) s1"
      unfolding lu unfolding f ktop.simps
      by (subst avl_count_loop.simps) (simp only: Let_def s1(1) [symmetric] a ne par if_False)
    have h: "rheight u = h" using b(3) k(2) by (cases d) simp_all
    have "dao_avltree_get_balance s1 a \<noteq> 0" using afocus_frame [OF s1(2)] k(2) by simp
    moreover have "avl (mk d (b + hsign d) t a u)" "rheight (mk d (b + hsign d) t a u) = (h + 1) + 1" "kavl k (h + 1)"
      using Cons.prems(5,6) k(2) h b(4) K by (simp_all add: max_def)
    ultimately obtain s2 s3 t' where IH: "avl_count_loop a (ktop k) (last_unb k) s1 = Some s2" "avl_insert_fix (last_unb k) s2 = Some s3"
      "afocus s3 [] t' (avl_root s3)" "avl t'" "rinorder t' = rinorder (plug k (mk d (b + hsign d) t a u))"
      "avl_first s3 = avl_first s1" "avl_last s3 = avl_last s1" "avl_height s3 = avl_height s1 + int (rheight t') - int (kheight k (h + 1))"
      using Cons.IH [OF U k(1) a] by blast
    have "rinorder t' = rinorder (plug (f # k) t)" using IH(5) f by (simp add: rinorder_plug rinorder_mk)
    moreover have "kheight k (h + 1) = kheight (f # k) h" using f h by simp
    moreover have "avl_first s1 = avl_first s" "avl_last s1 = avl_last s" "avl_height s1 = avl_height s" using s1(3) by (auto simp: avl_ends_def)
    ultimately show ?thesis unfolding loop unfolding lu using IH by auto
  qed
qed simp

section \<open>Insertion\<close>

text \<open>Linking the new node below the end of a path.\<close>

definition avl_link :: "u64 \<Rightarrow> u64 \<Rightarrow> bool \<Rightarrow> avltree \<Rightarrow> avltree" where
  "avl_link n parent is_left s =
     (let s = dao_avltree_init_node n s;
          s = (if is_left then (if avl_first s = parent then s\<lparr>avl_first := n\<rparr> else s)
               else (if avl_last s = parent then s\<lparr>avl_last := n\<rparr> else s))
      in dao_avltree_set_child_avl n parent is_left (dao_avltree_set_parent_avl parent n s))"

lemma init_view: "aview (dao_avltree_init_node n s) = vset_tag n 0 (vset_parent n 0 (vset_right n 0 (vset_left n 0 (aview s))))"
  by (simp add: dao_avltree_init_node_def Let_def aview_writes)

lemma init_ends [simp]: "avl_first (dao_avltree_init_node n s) = avl_first s" "avl_last (dao_avltree_init_node n s) = avl_last s"
  "avl_height (dao_avltree_init_node n s) = avl_height s"
  by (simp_all add: dao_avltree_init_node_def avl_defs)

lemma link_view: "aview (avl_link n p d s) =
  (if d then vset_left p n else vset_right p n) (vset_parent n p (vset_tag n 0 (vset_parent n 0 (vset_right n 0 (vset_left n 0 (aview s))))))"
  by (simp add: avl_link_def Let_def dao_avltree_set_child_avl_def aview_writes init_view if_distrib [of aview])

lemma link_ends:
  "avl_first (avl_link n p d s) = (if d \<and> avl_first s = p then n else avl_first s)"
  "avl_last (avl_link n p d s) = (if \<not> d \<and> avl_last s = p then n else avl_last s)"
  "avl_height (avl_link n p d s) = avl_height s"
  by (simp_all add: avl_link_def Let_def dao_avltree_set_child_avl_def avl_defs)

lemma avl_link_focus:
  assumes F: "afocus s k RLeaf 0" "n \<noteq> 0" "aligned n" "n \<notin> set (before k) \<union> set (after k)" "k \<noteq> []"
  shows "afocus (avl_link n (ktop k) (kdir k) s) k (RNode 0 RLeaf n RLeaf) n"
proof -
  have n: "ktop k \<noteq> n" using ktop_in [of k] F(2,4) by auto
  show ?thesis
  proof (rule link_focus [OF F(1-4)])
    show "case k of [] \<Rightarrow> tv_root (aview (avl_link n (ktop k) (kdir k) s)) = n
       | (d, _, a, _) # _ \<Rightarrow> achild d (avl_link n (ktop k) (kdir k) s) a = n \<and>
           achild (\<not> d) (avl_link n (ktop k) (kdir k) s) a = achild (\<not> d) s a \<and> tv_root (aview (avl_link n (ktop k) (kdir k) s)) = tv_root (aview s)"
      using F(5) n unfolding link_view by (cases k rule: kdir.cases) (auto simp: child_def)
  qed (use n in \<open>simp_all add: link_view\<close>)
qed

text \<open>Where the new node stands: it is the first one exactly when it hangs to the left of the first.\<close>

lemma before_left: "kdir k \<Longrightarrow> k \<noteq> [] \<Longrightarrow> distinct (before k @ after k) \<Longrightarrow>
    (case before k @ after k of [] \<Rightarrow> 0 | x # _ \<Rightarrow> x) = ktop k \<longleftrightarrow> before k = []"
proof (cases k rule: kdir.cases)
  case (2 d b a u k')
  assume "kdir k" "distinct (before k @ after k)"
  then show ?thesis using 2 by (cases "before k'") auto
qed auto

lemma after_right: "\<not> kdir k \<Longrightarrow> k \<noteq> [] \<Longrightarrow> distinct (before k @ after k) \<Longrightarrow>
    last (before k @ after k) = ktop k \<longleftrightarrow> after k = []"
proof (cases k rule: kdir.cases)
  case (2 d b a u k')
  assume "\<not> kdir k" "distinct (before k @ after k)"
  then show ?thesis using 2 by (cases "after k'" rule: rev_cases) auto
qed auto

lemma kdir_sides: "k \<noteq> [] \<Longrightarrow> kdir k \<Longrightarrow> after k \<noteq> []" "k \<noteq> [] \<Longrightarrow> \<not> kdir k \<Longrightarrow> before k \<noteq> []"
  by (cases k rule: kdir.cases; auto)+

lemma link_first_last:
  assumes "k \<noteq> []" "distinct (before k @ after k)" "avl_first s = (case before k @ after k of [] \<Rightarrow> 0 | x # _ \<Rightarrow> x)"
    "avl_last s = last (before k @ after k)"
  shows "avl_first (avl_link n (ktop k) (kdir k) s) = (case before k @ n # after k of [] \<Rightarrow> 0 | x # _ \<Rightarrow> x)"
    "avl_last (avl_link n (ktop k) (kdir k) s) = last (before k @ n # after k)"
proof -
  show "avl_first (avl_link n (ktop k) (kdir k) s) = (case before k @ n # after k of [] \<Rightarrow> 0 | x # _ \<Rightarrow> x)"
    using before_left [OF _ assms(1,2)] kdir_sides [OF assms(1)] assms(3)
    by (cases "before k"; cases "kdir k") (auto simp: link_ends)
  show "avl_last (avl_link n (ktop k) (kdir k) s) = last (before k @ n # after k)"
    using after_right [OF _ assms(1,2)] kdir_sides [OF assms(1)] assms(4)
    by (cases "after k" rule: rev_cases; cases "kdir k") (auto simp: link_ends)
qed

text \<open>An insertion returns the node that has the key already, or NULL after putting the node in.\<close>

lemma avl_insert_holds:
  assumes "cmp_by cmp key" "avl_holds key s xs" "n \<noteq> 0" "aligned n" "n \<notin> set xs"
  shows "if \<exists>m\<in>set xs. key m = key n
    then \<exists>m\<in>set xs. key m = key n \<and> dao_avltree_insert n cmp s = Some (m, s)
    else \<exists>s'. dao_avltree_insert n cmp s = Some (0, s') \<and> avl_holds key s' (insort_key key n xs)"
proof -
  obtain t where t: "afocus s [] t (avl_root s)" "avl t" "avl_height s = int (rheight t) - 1" "rinorder t = xs" "key_sorted key xs"
    and ends: "avl_first s = (case xs of [] \<Rightarrow> 0 | x # _ \<Rightarrow> x)" "avl_last s = (if xs = [] then 0 else last xs)"
    using assms(2) by (auto simp: avl_holds_def tree_holds_def)
  have z: "0 \<notin> set xs" using t(1,4) reps_zero_notin by (auto simp: focus_def)
  from do_lookup [where n = n, OF assms(1) t(1)] t(4,5)
  consider (old) m p u l where "m \<in> set xs" "key m = key n" "dao_avltree_do_lookup_avl n cmp s = Some (m, p, u, l)"
    | (new) k where "dao_avltree_do_lookup_avl n cmp s = Some (0, ktop k, last_unb k, kdir k)" "afocus s k RLeaf 0" "plug k RLeaf = t"
      "\<forall>a\<in>set (before k). key a < key n" "\<forall>a\<in>set (after k). key n < key a"
    by auto
  then show ?thesis
  proof cases
    case old
    then have "dao_avltree_insert n cmp s = Some (m, s)" using z by (auto simp: dao_avltree_insert_def)
    then show ?thesis using old by auto
  next
    case new
    have xs: "xs = before k @ after k" using new(3) t(4) rinorder_plug [of k RLeaf] by simp
    then have ne: "\<forall>m\<in>set xs. key m \<noteq> key n" using new(4,5) by auto
    have io: "insort_key key n xs = before k @ n # after k" using insort_between [OF new(4,5)] xs by simp
    have K: "kavl k 0" "rheight t = kheight k 0" using t(2) new(3) avl_plug [of k RLeaf] rheight_plug_eq [of k RLeaf] by auto
    have srt: "key_sorted key (before k @ n # after k)" using insort_sorted [OF t(5) ne] io by simp
    show ?thesis
    proof (cases "k = []")
      case True
      let ?s = "avl_set_root n (dao_avltree_init_node n s)\<lparr>avl_first := n, avl_last := n, avl_height := avl_height (dao_avltree_init_node n s) + 1\<rparr>"
      have "dao_avltree_insert n cmp s = Some (0, ?s)"
        using new(1) True by (simp add: dao_avltree_insert_def Let_def)
      moreover have "afocus ?s [] (RNode 0 RLeaf n RLeaf) n"
        using assms(3,4) by (simp add: focus_def aview_writes init_view)
      moreover have "avl_height ?s = 0" "avl_first ?s = n" "avl_last ?s = n" "avl_root ?s = n"
        using t(3) K(2) True by (simp_all)
      moreover have "insort_key key n xs = [n]" using io True by simp
      ultimately have "dao_avltree_insert n cmp s = Some (0, ?s)" "avl_holds key ?s (insort_key key n xs)"
        unfolding avl_holds_def tree_holds_def
        by (auto intro!: exI [of _ "RNode 0 RLeaf n RLeaf"] simp: key_sorted_def)
      then show ?thesis using ne by auto
    next
      case False
      let ?s = "avl_link n (ktop k) (kdir k) s"
      have "n \<notin> set (before k) \<union> set (after k)" using assms(5) xs by simp
      from avl_link_focus [OF new(2) assms(3,4) this False]
      have L: "afocus ?s k (RNode 0 RLeaf n RLeaf) n" .
      obtain s1 s2 t' where up: "avl_count_loop n (ktop k) (last_unb k) ?s = Some s1" "avl_insert_fix (last_unb k) s1 = Some s2"
        "afocus s2 [] t' (avl_root s2)" "avl t'" "rinorder t' = before k @ n # after k" "avl_first s2 = avl_first ?s" "avl_last s2 = avl_last ?s"
        "avl_height s2 = avl_height ?s + int (rheight t') - int (kheight k 0)"
        using insert_up [OF L False assms(3), of 0] K(1) by (auto simp: rinorder_plug)
      have kt: "ktop k \<noteq> 0" using new(2) False by (cases k rule: ktop.cases) (auto simp: focus_def)
      then have ins: "dao_avltree_insert n cmp s = Some (0, s2)"
        using new(1) up(1,2) by (simp add: dao_avltree_insert_def avl_link_def Let_def)
      have d: "distinct (before k @ after k)" using new(2) by (auto simp: focus_def)
      have "xs \<noteq> []" using kdir_sides [OF False] xs by (cases "kdir k") auto
      then have "avl_last s = last xs" using ends(2) by simp
      then have "avl_last s = last (before k @ after k)" unfolding xs .
      note fl = link_first_last [OF False d ends(1) [unfolded xs] this, where n = n]
      have "avl_holds key s2 (insort_key key n xs)"
        unfolding avl_holds_def tree_holds_def io
        using up(3-8) fl srt t(3) K(2) by (auto simp: link_ends)
      then show ?thesis using ins ne by (auto simp del: insort_key.simps)
    qed
  qed
qed

end
