(* ===== verification/AvlRemove.thy ===== *)
theory AvlRemove imports AvlInsert begin

text \<open>
  Removal from the AVL tree: taking the node out, and the loop that carries the loss of height up the tree.
\<close>

section \<open>The loop\<close>

text \<open>A step of the loop for both sides.\<close>

lemma remove_step_heavy:
  assumes "p \<noteq> 0" "s1 = snd (if d then dao_avltree_inc_balance p s else dao_avltree_dec_balance p s)"
    and "dao_avltree_get_balance s1 p = - 2 * hsign d" "achild (\<not> d) s1 p \<noteq> 0" "dao_avltree_get_parent_avl s p = q"
  shows "avl_remove_loop p d s =
    (let c = achild (\<not> d) s1 p; is_left = (q \<noteq> 0 \<and> avl_get_left s q = p) in
     if dao_avltree_get_balance s1 c = 0 then
       arot (\<not> d) p (dao_avltree_set_balance (hsign d) c (dao_avltree_set_balance (- hsign d) p s1))
     else
       Option.bind
         (if dao_avltree_get_balance s1 c = - hsign d then Some (dao_avltree_set_balance 0 c (dao_avltree_set_balance 0 p s1))
          else if dao_avltree_get_balance s1 c = hsign d then arot2 (\<not> d) p c s1 else Some s1)
         (\<lambda>s. Option.bind (arot (\<not> d) p s) (avl_remove_loop q is_left)))"
proof (cases d)
  case True
  obtain b where b: "dao_avltree_inc_balance p s = (b, s1)" "b = dao_avltree_get_balance s1 p"
    using assms(2) True by (simp add: dao_avltree_inc_balance_def Let_def)
  show ?thesis
    using assms True b by (subst avl_remove_loop.simps) (simp add: Let_def child_def arot_def arot2_def)
next
  case False
  obtain b where b: "dao_avltree_dec_balance p s = (b, s1)" "b = dao_avltree_get_balance s1 p"
    using assms(2) False by (simp add: dao_avltree_dec_balance_def Let_def)
  show ?thesis
    using assms False b by (subst avl_remove_loop.simps) (simp add: Let_def child_def arot_def arot2_def)
qed

lemma remove_step_light:
  assumes "p \<noteq> 0" "s1 = snd (if d then dao_avltree_inc_balance p s else dao_avltree_dec_balance p s)"
    and "dao_avltree_get_balance s1 p = b" "b = 0 \<or> b = - hsign d" "dao_avltree_get_parent_avl s p = q"
  shows "avl_remove_loop p d s = (if b = 0 then avl_remove_loop q (q \<noteq> 0 \<and> avl_get_left s q = p) s1 else Some s1)"
proof (cases d)
  case True
  obtain b' where b: "dao_avltree_inc_balance p s = (b', s1)" "b' = dao_avltree_get_balance s1 p"
    using assms(2) True by (simp add: dao_avltree_inc_balance_def Let_def)
  show ?thesis using assms True b by (subst avl_remove_loop.simps) (elim disjE; simp add: Let_def)
next
  case False
  obtain b' where b: "dao_avltree_dec_balance p s = (b', s1)" "b' = dao_avltree_get_balance s1 p"
    using assms(2) False by (simp add: dao_avltree_dec_balance_def Let_def)
  show ?thesis using assms False b by (subst avl_remove_loop.simps) (elim disjE; simp add: Let_def)
qed

lemma frame_side: "afocus s k t a \<Longrightarrow> a \<noteq> 0 \<Longrightarrow> (ktop k \<noteq> 0 \<and> avl_get_left s (ktop k) = a) = kdir k"
proof (cases k rule: kdir.cases)
  case (2 d b p u k')
  assume "afocus s k t a" "a \<noteq> 0"
  then show ?thesis using focus_side [of "aview s" d b p u k' t a] afocus_frame [of s d b p u k' t a] 2 by (cases d) (auto simp: child_def)
qed simp

lemma remove_up:
  assumes "afocus s k t x" "avl t" "kavl k (rheight t + 1)"
  shows "\<exists>s' t'. avl_remove_loop (ktop k) (kdir k) s = Some s' \<and> afocus s' [] t' (avl_root s') \<and> avl t' \<and>
    rinorder t' = rinorder (plug k t) \<and> avl_first s' = avl_first s \<and> avl_last s' = avl_last s \<and>
    avl_height s' = avl_height s + int (rheight t') - int (kheight k (rheight t + 1))"
  using assms
proof (induction k arbitrary: s t x)
  case Nil
  have "avl_remove_loop (ktop []) (kdir []) s = Some (s\<lparr>avl_height := avl_height s - 1\<rparr>)" by (subst avl_remove_loop.simps) simp
  moreover have "afocus (s\<lparr>avl_height := avl_height s - 1\<rparr>) [] t (avl_root s)" using afocus_plug [OF Nil(1)] by simp
  ultimately show ?case
    using Nil(2) by (intro exI [of _ "s\<lparr>avl_height := avl_height s - 1\<rparr>"] exI [of _ t]) simp
next
  case (Cons f k)
  obtain d b a u where f: "f = (d, b, a, u)" by (cases f)
  note F = Cons.prems(1) [unfolded f]
  have b: "b = hsign d * (int (rheight t) + 1 - int (rheight u))" "- 1 \<le> b" "b \<le> 1" "avl u" "kavl k (1 + max (rheight t + 1) (rheight u))"
    using Cons.prems(3) f by simp_all
  have a: "a \<noteq> 0" "dao_avltree_get_parent_avl s a = ktop k" "dao_avltree_get_balance s a = b" using afocus_frame [OF F] by auto
  obtain s1 where s1: "s1 = snd (if d then dao_avltree_inc_balance a s else dao_avltree_dec_balance a s)" by blast
  have v: "aview s1 = vset_tag a (b - hsign d) (aview s)" using s1 b(2,3) a(3) by (cases d) (simp_all add: aview_writes)
  have e: "avl_ends s1 = avl_ends s" using s1 by simp
  then have ends: "avl_first s1 = avl_first s" "avl_last s1 = avl_last s" "avl_height s1 = avl_height s" by (auto simp: avl_ends_def)
  note F1 = balance_frame [OF F v]
  note U = focus_up [OF F1]
  have bal: "dao_avltree_get_balance s1 a = b - hsign d" using afocus_frame [OF F1] by simp
  have side: "(ktop k \<noteq> 0 \<and> avl_get_left s (ktop k) = a) = kdir k" by (rule frame_side [OF focus_up [OF F] a(1)])
  have io: "rinorder (plug k T) = rinorder (plug (f # k) t)" if "rinorder T = rinorder (mk d (b - hsign d) t a u)" for T
    using that f by (simp add: rinorder_plug rinorder_mk)
  have up: ?case if step: "avl_remove_loop a d s = avl_remove_loop (ktop k) (kdir k) s2"
      and T: "afocus s2 k T y" "avl T" "rheight T + 1 = 1 + max (rheight t + 1) (rheight u)"
        "rinorder T = rinorder (mk d (b - hsign d) t a u)" "avl_ends s2 = avl_ends s1" for s2 T y
  proof -
    have "kavl k (rheight T + 1)" using b(5) T(3) by simp
    from Cons.IH [OF T(1,2) this] obtain s' t' where s': "avl_remove_loop (ktop k) (kdir k) s2 = Some s'" "afocus s' [] t' (avl_root s')" "avl t'"
      "rinorder t' = rinorder (plug k T)" "avl_first s' = avl_first s2" "avl_last s' = avl_last s2"
      "avl_height s' = avl_height s2 + int (rheight t') - int (kheight k (rheight T + 1))" by blast
    have "avl_first s2 = avl_first s" "avl_last s2 = avl_last s" "avl_height s2 = avl_height s"
      using T(5) e by (auto simp: avl_ends_def)
    moreover have "kheight (f # k) (rheight t + 1) = kheight k (rheight T + 1)" using T(3) f by simp
    ultimately show ?thesis using s' step io [OF T(4)] f by auto
  qed
  have stop: ?case if step: "avl_remove_loop a d s = Some s2"
      and T: "afocus s2 k T y" "avl T" "rheight T = 1 + max (rheight t + 1) (rheight u)"
        "rinorder T = rinorder (mk d (b - hsign d) t a u)" "avl_ends s2 = avl_ends s1" for s2 T y
  proof -
    have "avl (plug k T)" "rheight (plug k T) = kheight (f # k) (rheight t + 1)"
      using T(2,3) b(5) f by (simp_all add: avl_plug rheight_plug_eq)
    moreover have "avl_first s2 = avl_first s" "avl_last s2 = avl_last s" "avl_height s2 = avl_height s"
      using T(5) e by (auto simp: avl_ends_def)
    ultimately show ?thesis using afocus_plug [OF T(1)] io [OF T(4)] step f by auto
  qed
  consider "b = hsign d" | "b = 0" | "b = - hsign d" using b(2,3) by (cases d) (simp_all, linarith+)
  then show ?case
  proof cases
    case 1
    then have h: "rheight u = rheight t" using b(1) by (cases d) simp_all
    have "avl_remove_loop a d s = avl_remove_loop (ktop k) (kdir k) s1"
      using remove_step_light [OF a(1) s1 bal _ a(2)] 1 side by simp
    then show ?thesis by (rule up [OF _ U]) (use 1 h Cons.prems(2) b(4) in simp_all)
  next
    case 2
    then have h: "rheight u = rheight t + 1" using b(1) by (cases d) simp_all
    have "avl_remove_loop a d s = Some s1" using remove_step_light [OF a(1) s1 bal _ a(2)] 2 by simp
    then show ?thesis by (rule stop [OF _ U]) (use 2 h Cons.prems(2) b(4) in \<open>simp_all\<close>)
  next
    case 3
    then have h: "rheight u = rheight t + 2" using b(1) by (cases d) simp_all
    have H: "afocus s1 k (mk (\<not> d) (b - hsign d) u a t) a" using U by (simp add: mk_flip)
    let ?c = "achild (\<not> d) s1 a"
    have bal2: "dao_avltree_get_balance s1 a = - 2 * hsign d" using bal 3 by simp
    have c: "?c \<noteq> 0" using focus_leaf [OF focus_into [OF H]] h by auto
    note step = remove_step_heavy [OF a(1) s1 bal2 c a(2)]
    have ioU: "rinorder (mk (\<not> d) (b - hsign d) u a t) = rinorder (mk d (b - hsign d) t a u)" by (simp add: mk_flip)
    show ?thesis
    proof (cases "dao_avltree_get_balance s1 ?c = 0")
      case True
      from heal_even [OF H b(4) Cons.prems(2) h True] obtain s2 T y where
        T: "arot (\<not> d) a (dao_avltree_set_balance (- hsign (\<not> d)) ?c (dao_avltree_set_balance (hsign (\<not> d)) a s1)) = Some s2"
        "avl_ends s2 = avl_ends s1" "afocus s2 k T y" "avl T" "rheight T = rheight u + 1" "rinorder T = rinorder (mk (\<not> d) (b - hsign d) u a t)"
        by blast
      have "avl_remove_loop a d s = Some s2" using step T(1) True by (simp add: Let_def)
      then show ?thesis by (rule stop [OF _ T(3,4)]) (use T h ioU in simp_all)
    next
      case False
      from heal_leaning [OF H b(4) Cons.prems(2) h False] obtain s2 s3 T y where
        T: "(if dao_avltree_get_balance s1 ?c = hsign (\<not> d)
          then Some (dao_avltree_set_balance 0 ?c (dao_avltree_set_balance 0 a s1)) else arot2 (\<not> d) a ?c s1) = Some s2"
        "arot (\<not> d) a s2 = Some s3" "avl_ends s3 = avl_ends s1" "afocus s3 k T y" "avl T" "rheight T = rheight u"
        "rinorder T = rinorder (mk (\<not> d) (b - hsign d) u a t)"
        by blast
      have "dao_avltree_get_balance s1 ?c = hsign d \<or> dao_avltree_get_balance s1 ?c = - hsign d"
      proof -
        obtain bc X y Y where C: "u = mk (\<not> d) bc X y Y" using mk_split [of u "\<not> d"] h by force
        have "dao_avltree_get_balance s1 ?c = bc" using focus_into [OF H] C by (simp add: focus_def reps_mk)
        moreover have "- 1 \<le> bc" "bc \<le> 1" using b(4) C by simp_all
        ultimately show ?thesis using False by (cases d) (simp_all, linarith+)
      qed
      then have "avl_remove_loop a d s = avl_remove_loop (ktop k) (kdir k) s3"
        using step T(1,2) False side by (cases d) (auto simp: Let_def split: if_splits)
      then show ?thesis by (rule up [OF _ T(4,5)]) (use T h ioU in simp_all)
    qed
  qed
qed

section \<open>Walking\<close>

interpretation avlw: tree_walk "aview s" "dao_avltree_get_first_avl s" "dao_avltree_get_last_avl s" "avl_climb_right s" "avl_climb_left s" for s
proof unfold_locales
  fix n
  show "dao_avltree_get_first_avl s n = (if tv_left (aview s) n = 0 then Some n else dao_avltree_get_first_avl s (tv_left (aview s) n))"
    by (subst dao_avltree_get_first_avl.simps) simp
  show "dao_avltree_get_last_avl s n = (if tv_right (aview s) n = 0 then Some n else dao_avltree_get_last_avl s (tv_right (aview s) n))"
    by (subst dao_avltree_get_last_avl.simps) simp
  show "avl_climb_right s n = (if tv_parent (aview s) n \<noteq> 0 \<and> n = tv_right (aview s) (tv_parent (aview s) n)
      then avl_climb_right s (tv_parent (aview s) n) else Some (tv_parent (aview s) n))"
    by (subst avl_climb_right.simps) (auto simp: Let_def)
  show "avl_climb_left s n = (if tv_parent (aview s) n \<noteq> 0 \<and> n = tv_left (aview s) (tv_parent (aview s) n)
      then avl_climb_left s (tv_parent (aview s) n) else Some (tv_parent (aview s) n))"
    by (subst avl_climb_left.simps) (auto simp: Let_def)
qed

section \<open>Taking the node out\<close>

text \<open>The splice of the code, with what it reads before its first write.\<close>

definition avl_splice :: "u64 \<Rightarrow> u64 \<Rightarrow> u64 \<Rightarrow> u64 \<Rightarrow> avltree \<Rightarrow> avltree" where
  "avl_splice n y pr yc s =
     (let q = dao_avltree_get_parent_avl s n; l = avl_get_left s n; r = avl_get_right s n;
          s = (if q \<noteq> 0 then dao_avltree_set_child_avl y q (avl_get_left s q = n) s else avl_set_root y s);
          s = dao_avltree_set_parent_avl y l (avl_set_left y l (dao_avltree_set_balance (dao_avltree_get_balance s n) y s));
          s = dao_avltree_set_parent_avl q y s;
          s = (if pr = n then s else dao_avltree_set_parent_avl y r (avl_set_right y r (avl_set_left pr yc s)))
      in if yc \<noteq> 0 then dao_avltree_set_parent_avl (if pr = n then y else pr) yc s else s)"

lemma relink_view: "aview (if q \<noteq> 0 then dao_avltree_set_child_avl y q (avl_get_left s q = n) s else avl_set_root y s) = relink q n y (aview s)"
  by (simp add: relink_def dao_avltree_set_child_avl_def aview_writes)

lemma vsplice_child:
  assumes "tv_parent v n = q" "tv_left v n = l" "tv_tag v n = b" "y \<noteq> n" "q \<noteq> n" "l \<noteq> n"
  shows "vsplice n y n yc v = vset_parent l y (vset_left y l (vset_parent y q (vset_tag y b (relink q n y v))))"
  using assms unfolding vsplice_def Let_def by simp

lemma vsplice_deep:
  assumes "tv_parent v n = q" "tv_left v n = l" "tv_right v n = r" "tv_tag v n = b" "y \<noteq> n" "q \<noteq> n" "l \<noteq> n" "r \<noteq> n" "pr \<noteq> n" "yc \<noteq> n"
  shows "vsplice n y pr yc v = vset_parent l y (vset_left y l (vset_parent y q (vset_tag y b (vset_parent r y (vset_right y r
      (vset_left pr yc (if yc \<noteq> 0 then vset_parent yc pr (relink q n y v) else relink q n y v)))))))"
proof -
  obtain w where w: "w = (if yc \<noteq> 0 then vset_parent yc pr (relink q n y v) else relink q n y v)" by blast
  have wn: "tv_parent w n = q" "tv_left w n = l" "tv_right w n = r" "tv_tag w n = b" using assms w by auto
  show ?thesis
    using assms(1,5-9) unfolding vsplice_def Let_def assms(1) w [symmetric] by (simp add: wn)
qed

lemma splice_view:
  assumes s: "dao_avltree_get_parent_avl s n = q" "avl_get_left s n = l" "avl_get_right s n = r"
    and ne: "y \<noteq> 0" "y \<noteq> n" "q \<noteq> n" "l \<noteq> y" "r \<noteq> n" "yc \<noteq> l" "yc \<noteq> y" "yc \<noteq> n" "l \<noteq> n" "pr \<noteq> y"
    and b: "- 4 \<le> dao_avltree_get_balance s n" "dao_avltree_get_balance s n < 4"
    and pr: "pr = n \<Longrightarrow> yc \<noteq> 0 \<Longrightarrow> dao_avltree_get_parent_avl s yc = y" "pr \<noteq> n \<Longrightarrow> r \<noteq> y \<and> yc \<noteq> r"
  shows "aview (avl_splice n y pr yc s) = vsplice n y pr yc (aview s)"
proof -
  obtain v where v: "v = relink q n y (aview s)" by blast
  obtain b where b': "b = dao_avltree_get_balance s n" by blast
  obtain s0 where s0: "s0 = (if q \<noteq> 0 then dao_avltree_set_child_avl y q (avl_get_left s q = n) s else avl_set_root y s)" by blast
  have v0: "aview s0 = v" unfolding s0 v by (rule relink_view)
  have b0: "dao_avltree_get_balance s0 n = b" unfolding s0 b' by (simp add: dao_avltree_set_child_avl_def)
  have w: "aview (dao_avltree_set_balance b y s') = vset_tag y b (aview s')" for s' using b b' by (simp add: aview_writes)
  show ?thesis
  proof (cases "pr = n")
    case True
    have "aview (avl_splice n y pr yc s) =
        (let w = vset_parent y q (vset_parent l y (vset_left y l (vset_tag y b v))) in if yc \<noteq> 0 then vset_parent yc y w else w)"
      unfolding avl_splice_def Let_def s s0 [symmetric] b0 using True by (simp add: aview_writes(1-4) w v0)
    moreover have "vsplice n y pr yc (aview s) = vset_parent l y (vset_left y l (vset_parent y q (vset_tag y b v)))"
      unfolding True v by (rule vsplice_child) (use s b' ne in simp_all)
    moreover have "yc \<noteq> 0 \<Longrightarrow> tv_parent v yc = y" using pr(1) True v by simp
    ultimately show ?thesis using ne by (intro tview_eqI) (auto simp: Let_def)
  next
    case False
    have "aview (avl_splice n y pr yc s) =
        (let w = vset_parent r y (vset_right y r (vset_left pr yc (vset_parent y q (vset_parent l y (vset_left y l (vset_tag y b v))))))
         in if yc \<noteq> 0 then vset_parent yc pr w else w)"
      unfolding avl_splice_def Let_def s s0 [symmetric] b0 using False by (simp add: aview_writes(1-4) w v0)
    moreover have "vsplice n y pr yc (aview s) = vset_parent l y (vset_left y l (vset_parent y q (vset_tag y b (vset_parent r y (vset_right y r
      (vset_left pr yc (if yc \<noteq> 0 then vset_parent yc pr v else v)))))))"
      unfolding v by (rule vsplice_deep) (use s b' ne False in simp_all)
    ultimately show ?thesis using ne pr(2) [OF False] by (intro tview_eqI) (auto simp: Let_def)
  qed
qed

lemma unlink_two:
  assumes s: "dao_avltree_get_parent_avl s n = q" "avl_get_left s n = l" "avl_get_right s n = r" "dao_avltree_get_first_avl s r = Some y"
    "dao_avltree_get_parent_avl s y = pr" "avl_get_right s y = yc"
    and ne: "l \<noteq> 0" "r \<noteq> 0" "y \<noteq> n" "q \<noteq> n" "q \<noteq> y" "l \<noteq> y" "l \<noteq> n" "pr \<noteq> 0" "pr \<noteq> y" "pr = n \<longleftrightarrow> y = r"
  shows "avl_unlink n s = Some (if pr = n then y else pr, pr \<noteq> n, avl_splice n y pr yc s)"
proof -
  obtain s0 where s0: "s0 = (if q \<noteq> 0 then dao_avltree_set_child_avl y q (q \<noteq> 0 \<and> avl_get_left s q = n) s else avl_set_root y s)" by blast
  have s0': "s0 = (if q \<noteq> 0 then dao_avltree_set_child_avl y q (avl_get_left s q = n) s else avl_set_root y s)" unfolding s0 by simp
  have f: "dao_avltree_get_parent_avl s0 n = q" "dao_avltree_get_parent_avl s0 y = pr" "avl_get_right s0 y = yc"
    using s ne unfolding s0 by (simp_all add: dao_avltree_set_child_avl_def)
  have nxt: "(if l = 0 then Some r else if r = 0 then Some l else dao_avltree_get_first_avl s r) = Some y" using ne(1,2) s(4) by simp
  note opened = avl_unlink_def avl_splice_def Let_def s(1-3) nxt Option.bind.simps s0 [symmetric] s0' [symmetric]
  show ?thesis
  proof (cases "pr = n")
    case True
    then have "y = r" using ne by simp
    then show ?thesis using True ne f unfolding opened by simp
  next
    case False
    then have "y \<noteq> r" using ne by simp
    then show ?thesis using False ne f unfolding opened by simp
  qed
qed

lemma relink_parent: "relink q n x (vset_parent y p v) = vset_parent y p (relink q n x v)"
  by (rule tview_eqI) simp_all

lemma unlink_one:
  assumes F: "afocus s k (RNode b l n r) n" and ch: "l = RLeaf \<and> ch = r \<or> r = RLeaf \<and> ch = l"
  shows "\<exists>s'. avl_unlink n s = Some (ktop k, kdir k, s') \<and> afocus s' k ch (root_of ch) \<and> avl_ends s' = avl_ends s"
proof -
  let ?x = "root_of ch"
  have n: "n \<noteq> 0" "dao_avltree_get_parent_avl s n = ktop k" "avl_get_left s n = root_of l" "avl_get_right s n = root_of r"
    and lr: "reps (aview s) n (avl_get_left s n) l" "reps (aview s) n (avl_get_right s n) r"
    using F reps_root_of by (auto simp: focus_def)
  have z: "root_of l = 0 \<longleftrightarrow> l = RLeaf" "root_of r = 0 \<longleftrightarrow> r = RLeaf" using reps_zero [OF lr(1)] reps_zero [OF lr(2)] n(3,4) by simp_all
  obtain s0 where s0: "s0 = (if ktop k \<noteq> 0 then dao_avltree_set_child_avl ?x (ktop k) (kdir k) s else avl_set_root ?x s)" by blast
  have side: "(ktop k \<noteq> 0 \<and> avl_get_left s (ktop k) = n) = kdir k" by (rule frame_side [OF F n(1)])
  have v0: "aview s0 = relink (ktop k) n ?x (aview s)"
  proof -
    have "ktop k \<noteq> 0 \<Longrightarrow> kdir k = (avl_get_left s (ktop k) = n)" using side by blast
    then show ?thesis unfolding relink_view [symmetric] s0 by (cases "ktop k = 0") (simp_all del: aview_fields)
  qed
  let ?s' = "if ?x \<noteq> 0 then dao_avltree_set_parent_avl (ktop k) ?x s0 else s0"
  have "avl_unlink n s = Some (ktop k, kdir k, ?s')"
  proof -
    have nxt: "(if root_of l = 0 then Some (root_of r) else if root_of r = 0 then Some (root_of l) else f) = Some ?x" for f
      using ch z by auto
    have one: "\<not> (root_of l \<noteq> 0 \<and> root_of r \<noteq> 0)" using ch z by auto
    show ?thesis unfolding avl_unlink_def Let_def n(2-4) nxt Option.bind.simps side s0 [symmetric] by (simp only: one if_False)
  qed
  moreover have "aview ?s' = relink (ktop k) n ?x (if ?x \<noteq> 0 then vset_parent ?x (ktop k) (aview s) else aview s)"
    by (cases "?x = 0") (simp_all add: aview_writes v0 relink_parent)
  moreover have "avl_ends ?s' = avl_ends s" by (simp add: s0 dao_avltree_set_child_avl_def)
  ultimately show ?thesis using unlink_focus [OF F ch refl] by auto
qed

lemma avl_unlink:
  assumes F: "afocus s k (RNode b l n r) n" and ok: "avl (plug k (RNode b l n r))"
  shows "\<exists>k' t x s'. avl_unlink n s = Some (ktop k', kdir k', s') \<and> afocus s' k' t x \<and> avl t \<and> kavl k' (rheight t + 1) \<and>
    kheight k' (rheight t + 1) = rheight (plug k (RNode b l n r)) \<and>
    rinorder (plug k' t) = before k @ rinorder l @ rinorder r @ after k \<and> avl_ends s' = avl_ends s"
proof (cases "l = RLeaf \<or> r = RLeaf")
  case True
  define ch where "ch = (if l = RLeaf then r else l)"
  have ch: "l = RLeaf \<and> ch = r \<or> r = RLeaf \<and> ch = l" using True by (auto simp: ch_def)
  obtain s' where s': "avl_unlink n s = Some (ktop k, kdir k, s')" "afocus s' k ch (root_of ch)" "avl_ends s' = avl_ends s"
    using unlink_one [OF F ch] by blast
  have h: "rheight (RNode b l n r) = rheight ch + 1" "rinorder l @ rinorder r = rinorder ch" using ch by auto
  then have "avl ch \<and> kavl k (rheight ch + 1)" using ok ch unfolding avl_plug h(1) by auto
  moreover have "kheight k (rheight ch + 1) = rheight (plug k (RNode b l n r))" unfolding rheight_plug_eq h(1) ..
  moreover have "rinorder (plug k ch) = before k @ rinorder l @ rinorder r @ after k" using h(2) by (simp add: rinorder_plug)
  ultimately show ?thesis using s' by blast
next
  case False
  obtain k2 by' y ry where y: "dao_avltree_get_first_avl s (avl_get_right s n) = Some y"
    "afocus s (k2 @ (False, b, n, l) # k) (RNode by' RLeaf y ry) y" "before k2 = []" "plug k2 (RNode by' RLeaf y ry) = r"
    using leftmost [OF avlw.lm conjunct2 [OF F [unfolded afocus_right]]] False by blast
  let ?K = "k2 @ (False, b, n, l) # k" and ?k = "k2 @ (False, b, y, l) # k" and ?pr = "dao_avltree_get_parent_avl s y" and ?yc = "avl_get_right s y"
  let ?s = "avl_splice n y ?pr ?yc s"
  have S: "focus (vsplice n y ?pr ?yc (aview s)) ?k ry ?yc"
    using splice_focus [OF y(2) _ y(3)] False by simp
  have n: "n \<noteq> 0" "dao_avltree_get_parent_avl s n = ktop k" "reps (aview s) n (avl_get_left s n) l" "reps (aview s) n (avl_get_right s n) r"
    "dao_avltree_get_balance s n = b" using F by (simp_all add: focus_def)
  have Y: "y \<noteq> 0" "?pr = ktop ?K" "reps (aview s) y ?yc ry" using y(2) by (simp_all add: focus_def)
  have d: "distinct (before k @ rinorder l @ n # y # rinorder ry @ after k2 @ after k)" using y(2,3) by (simp add: focus_def)
  have l: "avl_get_left s n \<in> rset l" "avl_get_left s n \<noteq> 0" using n(3) False reps_zero reps_nonzero by blast+
  have r: "avl_get_right s n \<noteq> 0" "avl_get_right s n = root_of (plug k2 (RNode by' RLeaf y ry))"
    using n(4) False reps_zero reps_root_of y(4) by blast+
  have ycr: "?yc \<noteq> 0 \<Longrightarrow> ?yc \<in> rset ry" using Y(3) reps_nonzero by blast
  have q: "ktop k = 0 \<or> ktop k \<in> set (before k) \<union> set (after k)" by (rule ktop_in)
  have k2: "k2 \<noteq> [] \<Longrightarrow> ktop k2 \<in> set (after k2) \<and> kdir k2 \<and> root_of (plug k2 (RNode by' RLeaf y ry)) \<in> set (after k2)"
  proof -
    have root: "root_of (plug k2 t) \<in> set (after k2)" if "k2 \<noteq> []" "before k2 = []" for k2 :: "int frame list" and t
      using that
    proof (induction k2 t rule: plug.induct)
      case (2 d c a u k t)
      then have d: d by (auto split: if_splits)
      then show ?case using 2 by (cases "k = []") (auto simp: mk_def)
    qed simp
    assume "k2 \<noteq> []"
    then show "ktop k2 \<in> set (after k2) \<and> kdir k2 \<and> root_of (plug k2 (RNode by' RLeaf y ry)) \<in> set (after k2)"
      using root [OF _ y(3)] y(3) by (cases k2 rule: kdir.cases) (auto split: if_splits)
  qed
  have ne: "y \<noteq> n" "ktop k \<noteq> n" "ktop k \<noteq> y" "avl_get_left s n \<noteq> y" "?yc \<noteq> avl_get_left s n" "?yc \<noteq> y" "?yc \<noteq> n" "avl_get_left s n \<noteq> n"
    using d q n(1) Y(1) l ycr by auto
  have pr: "?pr \<noteq> y" "?pr \<noteq> 0" "?pr = n \<longleftrightarrow> k2 = []" "?pr = n \<longleftrightarrow> y = avl_get_right s n" "avl_get_right s n \<noteq> n"
    "?pr \<noteq> n \<Longrightarrow> avl_get_right s n \<noteq> y \<and> ?yc \<noteq> avl_get_right s n"
  proof -
    have "0 \<notin> set (before ?K) \<union> set (after ?K)" by (rule focus_zero_notin [OF y(2)])
    then have z: "0 \<notin> set (after k2)" by simp
    have t: "?pr = (if k2 = [] then n else ktop k2)" using Y(2) by (simp add: ktop_append)
    show "?pr \<noteq> y" "?pr \<noteq> 0" using t k2 d n(1) z by (auto split: if_splits)
    show 1: "?pr = n \<longleftrightarrow> k2 = []" using t k2 d by (auto split: if_splits)
    have e: "k2 = [] \<Longrightarrow> avl_get_right s n = y" using r(2) by simp
    have "k2 \<noteq> [] \<Longrightarrow> avl_get_right s n \<in> set (after k2)" using r(2) k2 by simp
    then show "?pr = n \<longleftrightarrow> y = avl_get_right s n" "avl_get_right s n \<noteq> n" "?pr \<noteq> n \<Longrightarrow> avl_get_right s n \<noteq> y \<and> ?yc \<noteq> avl_get_right s n"
      using 1 e d ne(1) ycr r(1) by (cases "k2 = []"; auto)+
  qed
  have bb: "avl (RNode b l n r)" "kavl k (rheight (RNode b l n r))" using ok by (simp_all only: avl_plug)
  have yp: "?yc \<noteq> 0 \<Longrightarrow> dao_avltree_get_parent_avl s ?yc = y" using Y(3) by (cases ry) auto
  have view: "aview ?s = vsplice n y ?pr ?yc (aview s)"
    by (rule splice_view [OF n(2) refl refl Y(1) ne(1,2,4) pr(5) ne(5-8) pr(1)]) (use bb(1) n(5) yp pr(6) in simp_all)
  have un: "avl_unlink n s = Some (ktop ?k, kdir ?k, ?s)"
  proof -
    have kd: "kdir ?k = (k2 \<noteq> [])" "ktop ?k = (if k2 = [] then y else ktop k2)" "?pr = (if k2 = [] then n else ktop k2)"
      using k2 Y(2) by (cases k2 rule: kdir.cases; simp)+
    have "avl_unlink n s = Some (if ?pr = n then y else ?pr, ?pr \<noteq> n, ?s)"
      by (rule unlink_two [OF n(2) refl refl y(1) refl refl l(2) r(1) ne(1-4,8) pr(2,1,4)])
    then show ?thesis using kd pr(3) by (cases "k2 = []") simp_all
  qed
  have okK: "avl (plug ?K (RNode by' RLeaf y ry))" using ok y(4) by (simp add: plug_append mk_False)
  have A: "avl (RNode by' RLeaf y ry)" "kavl ?K (rheight (RNode by' RLeaf y ry))" using okK by (simp_all only: avl_plug)
  have h: "rheight (RNode by' RLeaf y ry) = rheight ry + 1" by simp
  have "avl ry" using A(1) by simp
  moreover have "kavl ?k (rheight ry + 1)" using A(2) unfolding h kavl_addr [of k2 False b n l k _ y] .
  moreover have "kheight ?k (rheight ry + 1) = rheight (plug k (RNode b l n r))"
  proof -
    have "rheight (plug k (RNode b l n r)) = rheight (plug ?K (RNode by' RLeaf y ry))" using y(4) by (simp add: plug_append mk_False)
    also have "\<dots> = kheight ?K (rheight ry + 1)" unfolding rheight_plug_eq h ..
    finally show ?thesis unfolding kheight_addr [of k2 False b n l k _ y] by simp
  qed
  moreover have "rinorder (plug ?k ry) = before k @ rinorder l @ rinorder r @ after k"
    using y(3) by (simp add: rinorder_plug y(4) [symmetric])
  moreover have "avl_ends ?s = avl_ends s" by (simp add: avl_splice_def Let_def dao_avltree_set_child_avl_def)
  ultimately show ?thesis using S view un by metis
qed

section \<open>Removal\<close>

lemma remove_ends:
  assumes "avl_holds key s (xs @ n # ys)"
  shows "\<exists>s'. avl_remove_ends n s = Some s' \<and> aview s' = aview s \<and> avl_height s' = avl_height s \<and>
    avl_first s' = (case xs @ ys of [] \<Rightarrow> 0 | x # _ \<Rightarrow> x) \<and> avl_last s' = (if xs @ ys = [] then 0 else last (xs @ ys))"
proof -
  note H = assms [unfolded avl_holds_def, THEN conjunct1]
  have d: "distinct (xs @ n # ys)" by (rule holds_distinct [OF H])
  have e: "avl_first s = (case xs @ n # ys of [] \<Rightarrow> 0 | x # _ \<Rightarrow> x)" "avl_last s = last (xs @ n # ys)"
    using assms by (simp_all add: avl_holds_def)
  have nx: "dao_avltree_next s' n = Some (case ys of [] \<Rightarrow> 0 | y # _ \<Rightarrow> y)" "dao_avltree_prev s' n = Some (if xs = [] then 0 else last xs)"
    if "aview s' = aview s" for s'
  proof -
    have "tree_holds (\<lambda>t. avl t \<and> avl_height s = int (rheight t) - 1) key (aview s') (xs @ n # ys)" using H that by simp
    from avlw.holds_neighbours [OF this, unfolded aview_fields] show
      "dao_avltree_next s' n = Some (case ys of [] \<Rightarrow> 0 | y # _ \<Rightarrow> y)" "dao_avltree_prev s' n = Some (if xs = [] then 0 else last xs)"
      by (simp_all add: dao_avltree_next_def dao_avltree_prev_def)
  qed
  define s1 where "s1 = (if xs = [] then s\<lparr>avl_first := case ys of [] \<Rightarrow> 0 | y # _ \<Rightarrow> y\<rparr> else s)"
  have v1: "aview s1 = aview s" "avl_height s1 = avl_height s" "avl_last s1 = avl_last s" by (simp_all add: s1_def)
  have "n = avl_first s \<longleftrightarrow> xs = []" using e(1) d by (cases xs) auto
  then have 1: "(if n = avl_first s then map_option (\<lambda>n. s\<lparr>avl_first := n\<rparr>) (dao_avltree_next s n) else Some s) = Some s1"
    using nx(1) [OF refl] by (simp add: s1_def)
  define s2 where "s2 = (if ys = [] then s1\<lparr>avl_last := if xs = [] then 0 else last xs\<rparr> else s1)"
  have "n = avl_last s1 \<longleftrightarrow> ys = []" using e(2) d v1(3) by (cases ys rule: rev_cases) auto
  then have 2: "(if n = avl_last s1 then map_option (\<lambda>n. s1\<lparr>avl_last := n\<rparr>) (dao_avltree_prev s1 n) else Some s1) = Some s2"
    using nx(2) [OF v1(1)] by (simp add: s2_def)
  have "avl_remove_ends n s = Some s2" unfolding avl_remove_ends_def 1 using 2 by simp
  moreover have "aview s2 = aview s" "avl_height s2 = avl_height s" using v1 by (simp_all add: s2_def)
  moreover have "avl_first s2 = (case xs @ ys of [] \<Rightarrow> 0 | x # _ \<Rightarrow> x)" using e(1) by (cases xs) (simp_all add: s2_def s1_def)
  moreover have "avl_last s2 = (if xs @ ys = [] then 0 else last (xs @ ys))" using e(2) v1(3) by (auto simp: s2_def)
  ultimately show ?thesis by blast
qed

lemma avl_remove_holds:
  assumes "avl_holds key s xs" "n \<in> set xs"
  shows "\<exists>s'. dao_avltree_remove n s = Some s' \<and> avl_holds key s' (remove1 n xs)"
proof -
  note H = assms(1) [unfolded avl_holds_def, THEN conjunct1]
  obtain k b l r where F: "afocus s k (RNode b l n r) n" "avl (plug k (RNode b l n r)) \<and> avl_height s = int (rheight (plug k (RNode b l n r))) - 1"
    "rinorder (plug k (RNode b l n r)) = xs"
    using holds_path [OF H assms(2)] by blast
  let ?xs = "before k @ rinorder l" and ?ys = "rinorder r @ after k"
  have xs: "xs = ?xs @ n # ?ys" using F(3) by (simp add: rinorder_plug)
  obtain s1 where s1: "avl_remove_ends n s = Some s1" "aview s1 = aview s" "avl_height s1 = avl_height s"
    "avl_first s1 = (case ?xs @ ?ys of [] \<Rightarrow> 0 | x # _ \<Rightarrow> x)" "avl_last s1 = (if ?xs @ ?ys = [] then 0 else last (?xs @ ?ys))"
    using remove_ends [of key s ?xs n ?ys] assms(1) xs by auto
  have F1: "afocus s1 k (RNode b l n r) n" using F(1) s1(2) by simp
  obtain k' t x s2 where s2: "avl_unlink n s1 = Some (ktop k', kdir k', s2)" "afocus s2 k' t x" "avl t" "kavl k' (rheight t + 1)"
    "kheight k' (rheight t + 1) = rheight (plug k (RNode b l n r))" "rinorder (plug k' t) = before k @ rinorder l @ rinorder r @ after k"
    "avl_ends s2 = avl_ends s1"
    using avl_unlink [OF F1 conjunct1 [OF F(2)]] by blast
  obtain s3 t' where s3: "avl_remove_loop (ktop k') (kdir k') s2 = Some s3" "afocus s3 [] t' (avl_root s3)" "avl t'"
    "rinorder t' = rinorder (plug k' t)" "avl_first s3 = avl_first s2" "avl_last s3 = avl_last s2"
    "avl_height s3 = avl_height s2 + int (rheight t') - int (kheight k' (rheight t + 1))"
    using remove_up [OF s2(2-4)] by blast
  have h: "avl_height s3 = int (rheight t') - 1" "avl_first s3 = avl_first s1" "avl_last s3 = avl_last s1"
    using s3(5-7) s2(5,7) s1(3) F(2) by (auto simp: avl_ends_def)
  have rm: "remove1 n xs = ?xs @ ?ys"
  proof -
    have "n \<notin> set ?xs" using F(1) by (auto simp: focus_def)
    then show ?thesis unfolding xs by (simp add: remove1_append)
  qed
  have "key_sorted key (?xs @ ?ys)" using key_sorted_remove1 [of key xs n] H rm by (simp add: tree_holds_def)
  then have "tree_holds (\<lambda>t. avl t \<and> avl_height s3 = int (rheight t) - 1) key (aview s3) (remove1 n xs)"
    unfolding rm tree_holds_def using s3(2-4) s2(6) h(1) by auto
  then have "avl_holds key s3 (remove1 n xs)" unfolding avl_holds_def using h(2,3) s1(4,5) unfolding rm by simp
  moreover have "dao_avltree_remove n s = Some s3" using s1(1) s2(1) s3(1) by (simp add: dao_avltree_remove_def)
  ultimately show ?thesis by blast
qed

end
