(* ===== verification/AvlSpec.thy ===== *)
theory AvlSpec imports AvlRemove begin

text \<open>What the AVL tree promises: a set in order of its keys, over any run of calls, with its ends at hand and short paths.\<close>

section \<open>Any run of calls\<close>

definition avl_good :: "u64 \<Rightarrow> bool" where "avl_good n \<longleftrightarrow> n \<noteq> 0 \<and> aligned n"

lemma avl_init_holds: "avl_holds key (dao_avltree_init s) []"
proof -
  have "afocus (dao_avltree_init s) [] RLeaf (avl_root (dao_avltree_init s))"
    by (simp add: dao_avltree_init_def focus_def)
  moreover have "avl_height (dao_avltree_init s) = - 1" "avl_first (dao_avltree_init s) = 0" "avl_last (dao_avltree_init s) = 0"
    by (simp_all add: dao_avltree_init_def)
  ultimately show ?thesis
    unfolding avl_holds_def tree_holds_def by (auto intro!: exI [of _ RLeaf] simp: key_sorted_def)
qed

lemma avl_ordered_set:
  assumes "cmp_by cmp key"
  shows "ordered_set (avl_holds key) avl_good key (\<lambda>n. dao_avltree_insert n cmp) dao_avltree_remove (\<lambda>n. dao_avltree_lookup n cmp) 0"
proof unfold_locales
  fix s xs x
  assume a: "avl_holds key s xs" "avl_good x" "x \<notin> set xs"
  have "if \<exists>m\<in>set xs. key m = key x
    then \<exists>m\<in>set xs. key m = key x \<and> dao_avltree_insert x cmp s = Some (m, s)
    else \<exists>s'. dao_avltree_insert x cmp s = Some (0, s') \<and> avl_holds key s' (insort_key key x xs)"
    using avl_insert_holds [OF assms a(1)] a(2,3) by (simp add: avl_good_def)
  then show "\<exists>r s'. dao_avltree_insert x cmp s = Some (r, s') \<and> avl_holds key s' (set_step key (SetIns x) xs)"
    using a(1) by (cases "\<exists>m\<in>set xs. key m = key x") auto
next
  fix s xs x
  assume "avl_holds key s xs" "x \<in> set xs"
  then show "\<exists>s'. dao_avltree_remove x s = Some s' \<and> avl_holds key s' (set_step key (SetDel x) xs)"
    using avl_remove_holds by simp
qed (rule avl_lookup_holds [OF assms])

interpretation avls: ordered_set "avl_holds key" avl_good key "\<lambda>n. dao_avltree_insert n (cmp_of key)" dao_avltree_remove
  "\<lambda>n. dao_avltree_lookup n (cmp_of key)" 0 for key :: "u64 \<Rightarrow> 'k::linorder"
  by (rule avl_ordered_set) (rule cmp_of)

definition avl_blank :: avltree where
  "avl_blank = \<lparr>avl_mem = (\<lambda>_. \<lparr>avl_right = 0, avl_left = 0, avl_parent = 0, avl_balance = 0\<rparr>), avl_root = 0, avl_height = 0,
     avl_first = 0, avl_last = 0\<rparr>"

text \<open>
  C5. From an empty AVL tree, any run of inserts of nodes that are not in the tree and removals of nodes that are returns;
  the tree then is balanced, holds exactly the nodes of the list that the same run makes of the empty list in the order of
  their keys, keeps its height and its two ends right, and \<open>lookup\<close> finds the node with the key asked for, or NULL.
\<close>

theorem avl_run_refines:
  assumes "cmp_by cmp key" "set_ok avl_good key [] ops"
  shows "\<exists>s'. set_run (\<lambda>n. dao_avltree_insert n cmp) dao_avltree_remove ops (dao_avltree_init s) = Some s' \<and>
    avl_holds key s' (fold (set_step key) ops []) \<and>
    (\<forall>x. dao_avltree_lookup x cmp s' = Some (case find (\<lambda>m. key m = key x) (fold (set_step key) ops []) of Some m \<Rightarrow> m | None \<Rightarrow> 0))"
  using ordered_set.rep_run [OF avl_ordered_set [OF assms(1)] avl_init_holds assms(2), of s] avl_lookup_holds [OF assms(1)] by blast

theorem avl_run_refines_witness:
  "\<exists>s'. set_run (\<lambda>n. dao_avltree_insert n (cmp_of unat)) dao_avltree_remove [SetIns 24, SetIns 8, SetIns 16, SetDel 24] (dao_avltree_init avl_blank) = Some s' \<and>
    avl_holds unat s' [8, 16]"
  using avl_run_refines [OF cmp_of, of "unat :: u64 \<Rightarrow> nat" "[SetIns 24, SetIns 8, SetIns 16, SetDel 24]" avl_blank]
  by (simp add: avl_good_def) blast

text \<open>
  C19. \<open>insert\<close> of a node returns the node of the tree that has the same key, leaving the tree as it is, or NULL after the
  node was put in at its place in the order.
\<close>

theorem avl_insert_result:
  assumes "cmp_by cmp key" "avl_holds key s xs" "avl_good n" "n \<notin> set xs"
  shows "\<exists>r s'. dao_avltree_insert n cmp s = Some (r, s') \<and>
    (case find (\<lambda>m. key m = key n) xs of Some m \<Rightarrow> r = m \<and> s' = s | None \<Rightarrow> r = 0 \<and> avl_holds key s' (insort_key key n xs))"
proof -
  have ins: "if \<exists>m\<in>set xs. key m = key n
    then \<exists>m\<in>set xs. key m = key n \<and> dao_avltree_insert n cmp s = Some (m, s)
    else \<exists>s'. dao_avltree_insert n cmp s = Some (0, s') \<and> avl_holds key s' (insort_key key n xs)"
    using avl_insert_holds [OF assms(1,2)] assms(3,4) by (simp add: avl_good_def)
  show ?thesis
  proof (cases "\<exists>m\<in>set xs. key m = key n")
    case True
    then obtain m where m: "m \<in> set xs" "key m = key n" "dao_avltree_insert n cmp s = Some (m, s)" using ins by auto
    have "key_sorted key xs" using assms(2) by (simp add: avl_holds_def tree_holds_def)
    then show ?thesis using find_sorted m by force
  next
    case False
    then have "find (\<lambda>m. key m = key n) xs = None" by (auto simp: find_None_iff)
    then show ?thesis using False ins by auto
  qed
qed

section \<open>Walking\<close>

text \<open>
  C16. \<open>first\<close> and \<open>last\<close>, read without walking, are the ends of the nodes in key order; \<open>next\<close> and \<open>prev\<close> of a node are its
  neighbours, NULL at the ends, and never run forever.
\<close>

theorem avl_walk:
  assumes "avl_holds key s (xs @ n # ys)"
  shows "dao_avltree_next s n = Some (case ys of [] \<Rightarrow> 0 | y # _ \<Rightarrow> y) \<and>
    dao_avltree_prev s n = Some (if xs = [] then 0 else last xs) \<and>
    dao_avltree_first s = hd (xs @ [n]) \<and> dao_avltree_last s = last (n # ys)"
proof -
  note H = assms [unfolded avl_holds_def, THEN conjunct1]
  have "avl_first s = hd (xs @ [n])" "avl_last s = last (n # ys)" using assms by (cases xs; simp add: avl_holds_def)+
  then show ?thesis
    using avlw.holds_neighbours [OF H, unfolded aview_fields]
    by (simp add: dao_avltree_next_def dao_avltree_prev_def dao_avltree_first_def dao_avltree_last_def)
qed

section \<open>Replacing a node\<close>

lemma ends_view [simp]:
  "avl_get_left (s\<lparr>avl_first := f\<rparr>) = avl_get_left s" "avl_get_right (s\<lparr>avl_first := f\<rparr>) = avl_get_right s"
  "avl_get_left (s\<lparr>avl_last := f\<rparr>) = avl_get_left s" "avl_get_right (s\<lparr>avl_last := f\<rparr>) = avl_get_right s"
  "dao_avltree_get_parent_avl (s\<lparr>avl_first := f\<rparr>) = dao_avltree_get_parent_avl s"
  "dao_avltree_get_parent_avl (s\<lparr>avl_last := f\<rparr>) = dao_avltree_get_parent_avl s"
  "dao_avltree_get_balance (s\<lparr>avl_first := f\<rparr>) = dao_avltree_get_balance s"
  "dao_avltree_get_balance (s\<lparr>avl_last := f\<rparr>) = dao_avltree_get_balance s"
  by (auto simp: avl_defs fun_eq_iff)

lemma copy_balance: "aview (avl_upd y (avl_balance_update (\<lambda>_. avl_balance (avl_mem s n))) s) = vset_tag y (dao_avltree_get_balance s n) (aview s)"
  by (rule tview_eqI; simp add: avl_defs)

definition avl_adopt :: "u64 \<Rightarrow> u64 \<Rightarrow> u64 \<Rightarrow> avltree \<Rightarrow> avltree" where
  "avl_adopt n l r s =
     (let s = (if l \<noteq> 0 then dao_avltree_set_parent_avl n l s else s) in if r \<noteq> 0 then dao_avltree_set_parent_avl n r s else s)"

lemma adopt_fields [simp]:
  "avl_get_left (avl_adopt n l r s) x = avl_get_left s x" "avl_get_right (avl_adopt n l r s) x = avl_get_right s x"
  "dao_avltree_get_balance (avl_adopt n l r s) x = dao_avltree_get_balance s x" "avl_ends (avl_adopt n l r s) = avl_ends s"
  "avl_root (avl_adopt n l r s) = avl_root s"
  "dao_avltree_get_parent_avl (avl_adopt n l r s) x = (if x \<noteq> 0 \<and> (x = l \<or> x = r) then n else dao_avltree_get_parent_avl s x)"
  by (auto simp: avl_adopt_def Let_def)

lemma adopt_first [simp]: "avl_first (avl_adopt n l r s) = avl_first s" "avl_last (avl_adopt n l r s) = avl_last s" "avl_height (avl_adopt n l r s) = avl_height s"
  using adopt_fields(4) [of n l r s] by (auto simp: avl_ends_def)

text \<open>The new ends.\<close>

definition avl_reseat :: "u64 \<Rightarrow> u64 \<Rightarrow> avltree \<Rightarrow> avltree" where
  "avl_reseat old n s =
     (let s = (if avl_first s = old then s\<lparr>avl_first := n\<rparr> else s) in if avl_last s = old then s\<lparr>avl_last := n\<rparr> else s)"

lemma reseat_fields [simp]:
  "aview (avl_reseat old n s) = aview s" "avl_first (avl_reseat old n s) = (if avl_first s = old then n else avl_first s)"
  "avl_last (avl_reseat old n s) = (if avl_last s = old then n else avl_last s)" "avl_height (avl_reseat old n s) = avl_height s"
  by (simp_all add: avl_reseat_def Let_def)

lemma replace_eq:
  assumes "s1 = (if dao_avltree_get_parent_avl s old \<noteq> 0
      then dao_avltree_set_child_avl n (dao_avltree_get_parent_avl s old) (avl_get_left s (dao_avltree_get_parent_avl s old) = old) s else avl_set_root n s)"
    and "u = avl_reseat old n (avl_adopt n (avl_get_left s1 old) (avl_get_right s1 old) (avl_adopt n (avl_get_left s1 old) (avl_get_right s1 old) s1))"
    and "w = dao_avltree_set_parent_avl (dao_avltree_get_parent_avl u old) n (avl_upd n (avl_balance_update (\<lambda>_. avl_balance (avl_mem u old))) u)"
    and "old \<noteq> n"
  shows "dao_avltree_replace old n s = avl_set_right n (avl_get_right u old) (avl_set_left n (avl_get_left u old) w)"
proof -
  have l: "avl_get_left (if c then dao_avltree_set_parent_avl a b s else s) x = avl_get_left s x"
    "avl_get_right (if c then dao_avltree_set_parent_avl a b s else s) x = avl_get_right s x" for c a b s x by simp_all
  have p: "dao_avltree_get_parent_avl (avl_upd n (avl_balance_update (\<lambda>_. b)) s) old = dao_avltree_get_parent_avl s old" for b s
    by (simp add: avl_defs)
  have g: "avl_get_left w old = avl_get_left u old" "avl_get_right (avl_set_left n v w) old = avl_get_right u old" for v
    by (simp_all add: assms(3)) (simp_all add: avl_defs)
  have u: "avl_reseat old n (avl_adopt n (avl_get_left s1 old) (avl_get_right s1 old)
      (avl_adopt n (avl_get_left s1 old) (avl_get_right s1 old) s1)) = u" using assms(2) ..
  show ?thesis
    unfolding dao_avltree_replace_def Let_def assms(1) [symmetric] l
    using u unfolding avl_reseat_def avl_adopt_def Let_def
    by (simp only: p assms(3) [symmetric] g)
qed

lemma replace_view:
  assumes "old \<noteq> n" "dao_avltree_get_parent_avl s old \<noteq> old"
  shows "aview (dao_avltree_replace old n s) = vreplace old n (aview s)"
    "avl_first (dao_avltree_replace old n s) = (if avl_first s = old then n else avl_first s)"
    "avl_last (dao_avltree_replace old n s) = (if avl_last s = old then n else avl_last s)"
    "avl_height (dao_avltree_replace old n s) = avl_height s"
proof -
  let ?q = "dao_avltree_get_parent_avl s old"
  obtain s1 where s1: "s1 = (if ?q \<noteq> 0 then dao_avltree_set_child_avl n ?q (avl_get_left s ?q = old) s else avl_set_root n s)" by blast
  let ?l = "avl_get_left s1 old" and ?r = "avl_get_right s1 old"
  obtain u where u: "u = avl_reseat old n (avl_adopt n ?l ?r (avl_adopt n ?l ?r s1))" by blast
  obtain w where w: "w = dao_avltree_set_parent_avl (dao_avltree_get_parent_avl u old) n (avl_upd n (avl_balance_update (\<lambda>_. avl_balance (avl_mem u old))) u)"
    by blast
  note eq = replace_eq [OF s1 u w assms(1)]
  have v1: "aview s1 = relink ?q old n (aview s)" unfolding s1 by (rule relink_view)
  have e1: "avl_first s1 = avl_first s" "avl_last s1 = avl_last s" "avl_height s1 = avl_height s"
    by (simp_all add: s1 dao_avltree_set_child_avl_def avl_defs)
  have adopt: "aview (avl_adopt n ?l ?r s) = (let v = (if ?l \<noteq> 0 then vset_parent ?l n (aview s) else aview s) in if ?r \<noteq> 0 then vset_parent ?r n v else v)" for s
    by (simp add: avl_adopt_def aview_writes Let_def)
  have vu: "aview u = (let v = (if ?l \<noteq> 0 then vset_parent ?l n (aview s1) else aview s1) in if ?r \<noteq> 0 then vset_parent ?r n v else v)"
    unfolding u reseat_fields adopt by (rule tview_eqI) (auto simp: Let_def)
  have "aview (dao_avltree_replace old n s) = vcopy old n (aview u)"
    unfolding eq w aview_writes copy_balance vcopy_def aview_fields by (rule tview_eqI) simp_all
  moreover have "vreplace old n (aview s) = vcopy old n (aview u)"
  proof -
    have r: "tv_right (if c then vset_parent a b v else v) x = tv_right v x" for c a b x and v :: "int tview" by simp
    show ?thesis unfolding vreplace_def Let_def vu r aview_fields v1 [symmetric] ..
  qed
  ultimately show "aview (dao_avltree_replace old n s) = vreplace old n (aview s)" by simp
  show "avl_first (dao_avltree_replace old n s) = (if avl_first s = old then n else avl_first s)"
    "avl_last (dao_avltree_replace old n s) = (if avl_last s = old then n else avl_last s)"
    "avl_height (dao_avltree_replace old n s) = avl_height s"
    using e1 u unfolding eq w by (simp_all add: avl_defs)
qed

text \<open>
  C18. \<open>replace\<close> puts a node of the same key in the place of an old one: the tree then holds the same list with the one node
  exchanged, still balanced, with its height and its ends right.
\<close>

theorem avl_replace_refines:
  assumes "avl_holds key s xs" "old \<in> set xs" "avl_good new" "new \<notin> set xs" "key new = key old"
  shows "avl_holds key (dao_avltree_replace old new s) (map (\<lambda>a. if a = old then new else a) xs)"
proof -
  note H = assms(1) [unfolded avl_holds_def, THEN conjunct1]
  obtain k b l r where F: "afocus s k (RNode b l old r) old" "avl (plug k (RNode b l old r)) \<and> avl_height s = int (rheight (plug k (RNode b l old r))) - 1"
    "rinorder (plug k (RNode b l old r)) = xs"
    using holds_path [OF H assms(2)] by blast
  have fresh: "new \<notin> set (before k) \<union> set (after k) \<union> rset l \<union> rset r" using F(3) assms(4) by (auto simp: rinorder_plug)
  have ne: "old \<noteq> new" using assms(2,4) by blast
  have "xs \<noteq> []" using assms(2) by auto
  have "old \<noteq> 0" "dao_avltree_get_parent_avl s old = ktop k" using F(1) by (simp_all add: focus_def)
  then have "dao_avltree_get_parent_avl s old \<noteq> old" using focus_neq_parent [OF F(1)] by simp
  note R = replace_view [OF ne this]
  have "afocus (dao_avltree_replace old new s) k (RNode b l new r) new"
    using replace_focus [OF F(1) _ _ fresh] assms(3) unfolding R(1) by (simp add: avl_good_def)
  note P = afocus_plug [OF this]
  let ?f = "\<lambda>a. if a = old then new else a"
  have io: "rinorder (plug k (RNode b l new r)) = map ?f xs"
    unfolding F(3) [symmetric] by (rule plug_replace) (use F(1) in \<open>simp add: focus_def\<close>)
  have "avl (plug k (RNode b l new r)) \<and> avl_height s = int (rheight (plug k (RNode b l new r))) - 1"
    using F(2) unfolding avl_plug rheight_plug_eq by simp
  moreover have "key_sorted key (map ?f xs)" by (rule key_sorted_map) (use H assms(5) in \<open>auto simp: tree_holds_def\<close>)
  ultimately have T: "tree_holds (\<lambda>t. avl t \<and> avl_height (dao_avltree_replace old new s) = int (rheight t) - 1) key
      (aview (dao_avltree_replace old new s)) (map ?f xs)"
    unfolding tree_holds_def R(4) aview_fields using P io by blast
  have "avl_first s = hd xs" "avl_last s = last xs"
    using assms(1) \<open>xs \<noteq> []\<close> by (auto simp: avl_holds_def hd_conv_nth split: list.splits)
  moreover have "(case map ?f xs of [] \<Rightarrow> 0 | x # _ \<Rightarrow> x) = ?f (hd xs)" using \<open>xs \<noteq> []\<close> by (cases xs) simp_all
  moreover have "last (map ?f xs) = ?f (last xs)" using \<open>xs \<noteq> []\<close> by (rule last_map)
  ultimately show ?thesis unfolding avl_holds_def using T \<open>xs \<noteq> []\<close> R(2,3) by simp
qed

section \<open>Short paths\<close>

text \<open>The least number of nodes of an AVL tree of a given number of levels.\<close>

fun avl_min :: "nat \<Rightarrow> nat" where
  "avl_min 0 = 0"
| "avl_min (Suc 0) = 1"
| "avl_min (Suc (Suc h)) = 1 + avl_min h + avl_min (Suc h)"

lemma avl_min_mono: "i \<le> j \<Longrightarrow> avl_min i \<le> avl_min j"
proof -
  have "avl_min h \<le> avl_min (Suc h)" for h by (induction h rule: avl_min.induct) auto
  then show "i \<le> j \<Longrightarrow> avl_min i \<le> avl_min j" by (rule lift_Suc_mono_le)
qed

lemma avl_min_size: "avl t \<Longrightarrow> avl_min (rheight t) \<le> length (rinorder t)"
proof (induction t)
  case (RNode b l a r)
  then have IH: "avl_min (rheight l) \<le> length (rinorder l)" "avl_min (rheight r) \<le> length (rinorder r)" by simp_all
  have "rheight l = rheight r \<or> rheight l = Suc (rheight r) \<or> rheight r = Suc (rheight l)" using RNode.prems by auto
  then show ?case
  proof (elim disjE)
    assume eq: "rheight l = rheight r"
    have "avl_min (Suc h) \<le> 1 + avl_min h + avl_min h" for h
    proof (cases h)
      case (Suc g)
      then show ?thesis using avl_min_mono [of g "Suc g"] by simp
    qed simp
    from this [of "rheight r"] show ?thesis using IH eq by simp
  next
    assume "rheight l = Suc (rheight r)"
    then show ?thesis using IH by simp
  next
    assume "rheight r = Suc (rheight l)"
    then show ?thesis using IH by simp
  qed
qed simp

text \<open>
  In a well-formed AVL tree (whose stored height is that of its shape) a node is at most \<open>height + 1\<close> steps up from NULL above the root, and
  a tree with nodes at \<open>i\<close> steps has at least \<open>avl_min i\<close> nodes, which grows like the Fibonacci numbers.
\<close>

theorem avl_depth:
  assumes "avl_holds key s xs" "n \<in> set xs"
  shows "\<exists>i. (dao_avltree_get_parent_avl s ^^ i) n = 0 \<and> int i \<le> avl_height s + 1 \<and> avl_min i \<le> length xs"
proof -
  note H = assms(1) [unfolded avl_holds_def, THEN conjunct1]
  obtain k b l r where F: "afocus s k (RNode b l n r) n" "avl (plug k (RNode b l n r)) \<and> avl_height s = int (rheight (plug k (RNode b l n r))) - 1"
    "rinorder (plug k (RNode b l n r)) = xs"
    using holds_path [OF H assms(2)] by blast
  let ?t = "plug k (RNode b l n r)"
  have "n \<noteq> 0" using F(1) by (simp add: focus_def)
  then have "(dao_avltree_get_parent_avl s ^^ (length k + 1)) n = 0" using parent_path [OF F(1)] by simp
  moreover have h: "length k + 1 \<le> rheight ?t" using rheight_plug [of k "RNode b l n r"] by simp
  moreover have "avl_min (length k + 1) \<le> length xs"
    using avl_min_mono [OF h] avl_min_size [of ?t] F(2,3) by simp
  ultimately show ?thesis using F(2) by (intro exI [of _ "length k + 1"]) simp
qed

section \<open>Examples\<close>

text \<open>A root at 24 with a left child at 8.\<close>

definition avl_two :: avltree where
  "avl_two = \<lparr>avl_mem = (\<lambda>_. \<lparr>avl_right = 0, avl_left = 0, avl_parent = 0, avl_balance = 0\<rparr>)
     (24 := \<lparr>avl_right = 0, avl_left = 8, avl_parent = 0, avl_balance = - 1\<rparr>,
      8 := \<lparr>avl_right = 0, avl_left = 0, avl_parent = 24, avl_balance = 0\<rparr>), avl_root = 24, avl_height = 1, avl_first = 8, avl_last = 24\<rparr>"

lemma avl_two_view: "aview avl_two = \<lparr>tv_left = (\<lambda>x. if x = 24 then 8 else 0), tv_right = (\<lambda>_. 0),
    tv_parent = (\<lambda>x. if x = 8 then 24 else 0), tv_tag = (\<lambda>x. if x = 24 then - 1 else 0), tv_root = 24\<rparr>"
  by (rule tview_eqI; simp add: avl_two_def avl_defs)

lemma avl_two_holds: "avl_holds unat avl_two [8, 24]"
proof -
  have "focus (aview avl_two) [] (RNode (- 1) (RNode 0 RLeaf 8 RLeaf) 24 RLeaf) 24" unfolding avl_two_view by (simp add: focus_def)
  moreover have "tv_root (aview avl_two) = 24" unfolding avl_two_view by simp
  moreover have "avl_first avl_two = 8" "avl_last avl_two = 24" "avl_height avl_two = 1" by (simp_all add: avl_two_def)
  ultimately show ?thesis
    unfolding avl_holds_def tree_holds_def
    by (auto intro!: exI [of _ "RNode (- 1) (RNode 0 RLeaf 8 RLeaf) 24 RLeaf"] simp: key_sorted_def)
qed

theorem avl_insert_result_witness: "\<exists>s'. dao_avltree_insert 16 (cmp_of unat) avl_two = Some (0, s') \<and> avl_holds unat s' [8, 16, 24]"
  using avl_insert_result [OF cmp_of avl_two_holds, of 16] by (auto simp: avl_good_def)

theorem avl_walk_witness: "dao_avltree_next avl_two 8 = Some 24 \<and> dao_avltree_last avl_two = 24"
  using avl_walk [of unat avl_two "[]" 8 "[24]"] avl_two_holds by simp

theorem avl_replace_refines_witness: "avl_holds (\<lambda>w. unat w div 16) (dao_avltree_replace 24 16 avl_two) [8, 16]"
proof -
  have "avl_holds (\<lambda>w :: u64. unat w div 16) avl_two [8, 24]"
    using avl_two_holds unfolding avl_holds_def tree_holds_def by (simp add: key_sorted_def)
  from avl_replace_refines [OF this, of 24 16] show ?thesis by (simp add: avl_good_def)
qed

theorem avl_depth_witness: "\<exists>i. (dao_avltree_get_parent_avl avl_two ^^ i) 8 = 0 \<and> int i \<le> 2 \<and> avl_min i \<le> 2"
  using avl_depth [OF avl_two_holds, of 8] by (simp add: avl_two_def numeral_2_eq_2)

end
