(* ===== verification/PhpString.thy ===== *)
theory PhpString imports PhpValue begin

text \<open>
  The string helpers of \<open>kernel/string.c\<close> and the class name helpers of \<open>kernel/object.c\<close>: conversion between
  words joined by dashes or underscores and camel case, substrings, prefixes and suffixes, splitting, and the two
  parts of a qualified class name. A C string that lies in a \<open>zval\<close> is a HOL string; the locale is C.
\<close>

section \<open>Characters\<close>

text \<open>\<open>tolower\<close> and \<open>toupper\<close>.\<close>

definition c_tolower :: "char \<Rightarrow> char" where
  "c_tolower c = (if is_upper c then char_of (of_char c + 32 :: nat) else c)"

definition c_toupper :: "char \<Rightarrow> char" where
  "c_toupper c = (if is_lower c then char_of (of_char c - 32 :: nat) else c)"

lemma c_toupper_lower [simp]: "is_upper c \<Longrightarrow> c_toupper (c_tolower c) = c"
  and c_tolower_upper [simp]: "is_lower c \<Longrightarrow> c_tolower (c_toupper c) = c"
  by (auto simp: c_toupper_def c_tolower_def is_upper_def is_lower_def of_char_of)

lemma is_upper_toupper: "is_lower c \<Longrightarrow> is_upper (c_toupper c)"
  and is_lower_tolower: "is_upper c \<Longrightarrow> is_lower (c_tolower c)"
  by (auto simp: c_toupper_def c_tolower_def is_upper_def is_lower_def of_char_of)

lemma c_tolower_same: "\<not> is_upper c \<Longrightarrow> c_tolower c = c"
  by (simp add: c_tolower_def)

lemma not_upper_lower: "is_lower c \<Longrightarrow> \<not> is_upper c"
  by (simp add: is_lower_def is_upper_def)

definition dao_fast_strtolower :: "string \<Rightarrow> string" where "dao_fast_strtolower s = map c_tolower s"

definition dao_fast_strtoupper :: "string \<Rightarrow> string" where "dao_fast_strtoupper s = map c_toupper s"

section \<open>Camel case\<close>

text \<open>The flag says that the character is the first one.\<close>

fun camelize_loop :: "bool \<Rightarrow> string \<Rightarrow> string" where
  "camelize_loop first [] = []"
| "camelize_loop first (c # cs) =
     (if first \<or> c = CHR ''-'' \<or> c = CHR ''_'' \<or> c = CHR 0x5C then
        (if c = CHR ''-'' \<or> c = CHR ''_'' then
           (case cs of [] \<Rightarrow> [] | d # ds \<Rightarrow> c_toupper d # camelize_loop False ds)
         else if c = CHR 0x5C then
           c # (case cs of [] \<Rightarrow> [] | d # ds \<Rightarrow> c_toupper d # camelize_loop False ds)
         else c_toupper c # camelize_loop False cs)
      else c_tolower c # camelize_loop False cs)"

definition dao_camelize :: "zval \<Rightarrow> zval" where
  "dao_camelize str = (case str of ZStr s \<Rightarrow> ZStr (camelize_loop True s) | _ \<Rightarrow> ZStr [])"

fun uncamelize_loop :: "char \<Rightarrow> bool \<Rightarrow> string \<Rightarrow> string" where
  "uncamelize_loop delim first [] = []"
| "uncamelize_loop delim first (c # cs) =
     (if c = NUL then []
      else if is_upper c then (if first then [] else [delim]) @ char_of (of_char c + 32 :: nat) # uncamelize_loop delim False cs
      else c # uncamelize_loop delim False cs)"

text \<open>Anything but a string leaves the result as it was, which is \<open>null\<close>.\<close>

definition dao_uncamelize :: "zval \<Rightarrow> zval" where
  "dao_uncamelize str = (case str of ZStr s \<Rightarrow> ZStr (uncamelize_loop (CHR ''_'') True s) | _ \<Rightarrow> ZNull)"

text \<open>The delimiter of the variants: underscore by default, otherwise a string of one character.\<close>

definition delim_of :: "zval option \<Rightarrow> char option" where
  "delim_of delimiter =
     (case delimiter of None \<Rightarrow> Some (CHR ''_'') | Some ZNull \<Rightarrow> Some (CHR ''_'')
      | Some (ZStr s) \<Rightarrow> (if length s = 1 then Some (hd s) else None) | Some _ \<Rightarrow> None)"

fun camelize_delim_loop :: "char \<Rightarrow> bool \<Rightarrow> string \<Rightarrow> string" where
  "camelize_delim_loop delim first [] = []"
| "camelize_delim_loop delim first (c # cs) =
     (if \<not> first then
        (if c = delim then camelize_delim_loop delim False cs
         else c_toupper c # camelize_delim_loop delim True cs)
      else if c = delim then (case cs of [] \<Rightarrow> [] | d # ds \<Rightarrow> c_toupper d # camelize_delim_loop delim True ds)
      else c_tolower c # camelize_delim_loop delim True cs)"

definition dao_camelize_delim :: "zval \<Rightarrow> zval option \<Rightarrow> zval" where
  "dao_camelize_delim str delimiter =
     (case (str, delim_of delimiter) of (ZStr s, Some d) \<Rightarrow> ZStr (camelize_delim_loop d False s) | _ \<Rightarrow> ZStr [])"

definition dao_uncamelize_delim :: "zval \<Rightarrow> zval option \<Rightarrow> zval" where
  "dao_uncamelize_delim str delimiter =
     (case (str, delim_of delimiter) of (ZStr s, Some d) \<Rightarrow> ZStr (uncamelize_loop d True s) | _ \<Rightarrow> ZStr [])"

section \<open>Substrings\<close>

definition is_prefix :: "string \<Rightarrow> string \<Rightarrow> bool" where
  "is_prefix p s = (take (length p) s = p)"

fun has_sub :: "string \<Rightarrow> string \<Rightarrow> bool" where
  "has_sub needle [] = (needle = [])"
| "has_sub needle (c # cs) = (is_prefix needle (c # cs) \<or> has_sub needle cs)"

lemma has_sub_char: "has_sub [c] s \<longleftrightarrow> c \<in> set s"
  by (induction s) (auto simp: is_prefix_def)

definition dao_memnstr :: "zval \<Rightarrow> zval \<Rightarrow> bool" where
  "dao_memnstr haystack needle =
     (case (haystack, needle) of (ZStr h, ZStr n) \<Rightarrow> length h \<ge> length n \<and> has_sub n h | _ \<Rightarrow> False)"

definition dao_memnstr_str :: "zval \<Rightarrow> string \<Rightarrow> bool" where
  "dao_memnstr_str haystack needle =
     (case haystack of ZStr h \<Rightarrow> length h \<ge> length needle \<and> has_sub needle h | _ \<Rightarrow> False)"

text \<open>The flag of these functions is named for case sensitivity; the code ignores case when it is true.\<close>

definition dao_start_with :: "zval \<Rightarrow> zval \<Rightarrow> zval option \<Rightarrow> bool" where
  "dao_start_with str compared case_sensitive =
     (case (str, compared) of
        (ZStr s, ZStr p) \<Rightarrow>
          if p = [] \<or> s = [] \<or> length p > length s then False
          else if (case case_sensitive of None \<Rightarrow> False | Some v \<Rightarrow> z_true v) then
            dao_fast_strtolower (take (length p) s) = dao_fast_strtolower p
          else take (length p) s = p
      | _ \<Rightarrow> False)"

definition dao_end_with :: "zval \<Rightarrow> zval \<Rightarrow> zval option \<Rightarrow> bool" where
  "dao_end_with str compared case_sensitive =
     (case (str, compared) of
        (ZStr s, ZStr p) \<Rightarrow>
          if p = [] \<or> s = [] \<or> length p > length s then False
          else if (case case_sensitive of None \<Rightarrow> False | Some v \<Rightarrow> z_true v) then
            dao_fast_strtolower (drop (length s - length p) s) = dao_fast_strtolower p
          else drop (length s - length p) s = p
      | _ \<Rightarrow> False)"

definition dao_start_with_str :: "zval \<Rightarrow> string \<Rightarrow> bool" where
  "dao_start_with_str str compared =
     (case str of ZStr s \<Rightarrow> length compared \<le> length s \<and> take (length compared) s = compared | _ \<Rightarrow> False)"

definition dao_end_with_str :: "zval \<Rightarrow> string \<Rightarrow> bool" where
  "dao_end_with_str str compared =
     (case str of
        ZStr s \<Rightarrow> compared \<noteq> [] \<and> s \<noteq> [] \<and> length compared \<le> length s \<and> drop (length s - length compared) s = compared
      | _ \<Rightarrow> False)"

text \<open>\<open>strcmp\<close> stops at the first zero byte.\<close>

definition c_string :: "string \<Rightarrow> string" where "c_string s = takeWhile (\<lambda>c. c \<noteq> NUL) s"

definition dao_comparestr :: "zval \<Rightarrow> zval \<Rightarrow> zval option \<Rightarrow> bool" where
  "dao_comparestr str compared case_sensitive =
     (case (str, compared) of
        (ZStr s, ZStr p) \<Rightarrow>
          if p = [] \<or> s = [] \<or> length p \<noteq> length s then False
          else if \<not> (case case_sensitive of None \<Rightarrow> False | Some v \<Rightarrow> z_true v) then c_string s = c_string p
          else dao_fast_strtolower (c_string s) = dao_fast_strtolower (c_string p)
      | _ \<Rightarrow> False)"

definition dao_comparestr_str :: "zval \<Rightarrow> string \<Rightarrow> zval option \<Rightarrow> bool" where
  "dao_comparestr_str str compared case_sensitive =
     (case str of
        ZStr s \<Rightarrow>
          if compared = [] \<or> s = [] \<or> length compared \<noteq> length s then False
          else if \<not> (case case_sensitive of None \<Rightarrow> False | Some v \<Rightarrow> z_true v) then c_string s = c_string compared
          else dao_fast_strtolower (c_string s) = dao_fast_strtolower (c_string compared)
      | _ \<Rightarrow> False)"

text \<open>A string of one slash is kept, one of more slashes loses them all.\<close>

definition dao_remove_extra_slashes :: "zval \<Rightarrow> zval" where
  "dao_remove_extra_slashes str =
     (case str of
        ZStr s \<Rightarrow> ZStr (if length s > 1 then rev (dropWhile (\<lambda>c. c = CHR ''/'') (rev s)) else s)
      | _ \<Rightarrow> ZStr [])"

section \<open>Splitting\<close>

text \<open>\<open>explode\<close> of PHP with a delimiter that is not empty.\<close>

function (sequential) explode_loop :: "string \<Rightarrow> string \<Rightarrow> string \<Rightarrow> string list" where
  "explode_loop d acc [] = [rev acc]"
| "explode_loop d acc (c # cs) =
     (if d \<noteq> [] \<and> is_prefix d (c # cs) then rev acc # explode_loop d [] (drop (length d) (c # cs))
      else explode_loop d (c # acc) cs)"
  by pat_completeness auto
termination by (relation "measure (\<lambda>(d, acc, s). length s)") auto

definition str_list :: "string list \<Rightarrow> zval" where
  "str_list ss = ZArr (map (\<lambda>i. (KInt (of_nat i), ZStr (ss ! i))) [0..<length ss])"

definition dao_fast_explode_str :: "string \<Rightarrow> zval \<Rightarrow> zval" where
  "dao_fast_explode_str d str = (case str of ZStr s \<Rightarrow> str_list (explode_loop d [] s) | _ \<Rightarrow> ZNull)"

section \<open>Class names\<close>

text \<open>The scan from the end; the number of characters up to and with the last backslash, 0 without one.\<close>

fun last_slash :: "string \<Rightarrow> nat \<Rightarrow> nat" where
  "last_slash s 0 = 0"
| "last_slash s (Suc i) = (if s ! i = CHR 0x5C then Suc i else last_slash s i)"

text \<open>
  One character too many is copied: the class name of a qualified name ends with the zero byte of the string.
  \<open>null\<close> for the empty string.
\<close>

definition dao_get_class_ns :: "string \<Rightarrow> zval" where
  "dao_get_class_ns s =
     (let i = last_slash s (length s) in
      if s = [] then ZNull else if i > 0 then ZStr (drop i s @ [NUL]) else ZStr s)"

definition dao_get_ns_class :: "string \<Rightarrow> zval" where
  "dao_get_ns_class s =
     (let i = last_slash s (length s); j = length s - i in
      if s = [] then ZNull
      else if j > 0 then (if i > 0 then ZStr (take (length s - j - 1) s) else ZStr [])
      else ZNull)"


section \<open>Lemmas\<close>

lemma explode_loop_clean: "c \<notin> set s \<Longrightarrow> explode_loop [c] acc s = [rev acc @ s]"
  by (induction s arbitrary: acc) (auto simp: is_prefix_def)

lemma explode_loop_split:
  "c \<notin> set s \<Longrightarrow> explode_loop [c] acc (s @ c # t) = (rev acc @ s) # explode_loop [c] [] t"
  by (induction s arbitrary: acc) (auto simp: is_prefix_def)

text \<open>Splitting loses nothing: the parts joined by the delimiter are the string.\<close>

lemma explode_loop_join: "d \<noteq> [] \<Longrightarrow> explode_loop d acc s \<noteq> [] \<and> foldr (\<lambda>p r. p @ d @ r) (butlast (explode_loop d acc s)) (last (explode_loop d acc s)) = rev acc @ s"
proof (induction d acc s rule: explode_loop.induct)
  case (2 d acc c cs)
  show ?case
  proof (cases "is_prefix d (c # cs)")
    case True
    then have "d @ drop (length d) (c # cs) = c # cs" using append_take_drop_id [of "length d" "c # cs"] by (simp add: is_prefix_def)
    then show ?thesis using 2(1) [of] 2(3) True by simp
  next
    case False
    then show ?thesis using 2(2) 2(3) by simp
  qed
qed simp

lemma last_slash_none: "n \<le> length s \<Longrightarrow> CHR 0x5C \<notin> set s \<Longrightarrow> last_slash s n = 0"
  by (induction n) (auto simp: in_set_conv_nth)

lemma last_slash_append:
  "CHR 0x5C \<notin> set t \<Longrightarrow> n \<le> length t \<Longrightarrow> last_slash (s @ CHR 0x5C # t) (Suc (length s) + n) = Suc (length s)"
proof (induction n)
  case (Suc n)
  have "(s @ CHR 0x5C # t) ! (Suc (length s) + n) = t ! n" by (simp add: nth_append)
  moreover have "t ! n \<noteq> CHR 0x5C" using Suc(2,3) by (metis Suc_le_lessD nth_mem)
  ultimately show ?case using Suc by simp
qed simp

lemma class_ns_parts:
  assumes "CHR 0x5C \<notin> set c"
  shows "dao_get_class_ns (ns @ CHR 0x5C # c) = ZStr (c @ [NUL])"
    and "c \<noteq> [] \<Longrightarrow> dao_get_ns_class (ns @ CHR 0x5C # c) = ZStr ns"
  using last_slash_append [OF assms order.refl, of ns]
  by (simp_all add: dao_get_class_ns_def dao_get_ns_class_def Let_def)

text \<open>Words of the kind that survive the way through camel case: a lower case letter after the start and after each underscore.\<close>

fun snake :: "bool \<Rightarrow> string \<Rightarrow> bool" where
  "snake start [] = (\<not> start)"
| "snake start (c # cs) =
     (if start then is_lower c \<and> snake False cs
      else if c = CHR ''_'' then snake True cs else (is_lower c \<or> is_digit c) \<and> snake False cs)"

lemma uncamelize_loop_upper:
  assumes "is_lower d"
  shows "uncamelize_loop delim first (c_toupper d # cs) = (if first then [] else [delim]) @ d # uncamelize_loop delim False cs"
proof -
  have u: "is_upper (c_toupper d)" using assms by (rule is_upper_toupper)
  then have n: "c_toupper d \<noteq> NUL" by (auto simp: is_upper_def)
  have "char_of (of_char (c_toupper d) + 32 :: nat) = d"
    using c_tolower_upper [OF assms] u by (simp add: c_tolower_def)
  then show ?thesis using u n by simp
qed

lemma camelize_plain:
  "is_lower c \<or> is_digit c \<Longrightarrow> camelize_loop False (c # cs) = c # camelize_loop False cs"
  "is_lower c \<or> is_digit c \<Longrightarrow> uncamelize_loop delim first (c # cs) = c # uncamelize_loop delim False cs"
  by (auto simp: c_tolower_def is_lower_def is_upper_def is_digit_def)

lemma snake_roundtrip:
  "snake start s \<Longrightarrow> start \<or> \<not> first \<Longrightarrow>
     uncamelize_loop (CHR ''_'') first (if start then camelize_loop True s else camelize_loop False s) =
       (if start \<and> \<not> first then CHR ''_'' # s else s)"
proof (induction start s arbitrary: first rule: snake.induct)
  case (2 start c cs)
  show ?case
  proof (cases start)
    case True
    then have l: "is_lower c" and s: "snake False cs" using 2(4) by auto
    have "c \<noteq> CHR ''-''" "c \<noteq> CHR ''_''" "c \<noteq> CHR 0x5C" using l by (auto simp: is_lower_def)
    then show ?thesis using True 2(1) [OF True s, of False] uncamelize_loop_upper [OF l] by simp
  next
    case False
    show ?thesis
    proof (cases "c = CHR ''_''")
      case True
      then have s: "snake True cs" and nf: "\<not> first" using 2(4,5) False by simp_all
      then obtain d ds where cs: "cs = d # ds" and d: "is_lower d" by (cases cs) auto
      have "d \<noteq> CHR ''-''" "d \<noteq> CHR ''_''" "d \<noteq> CHR 0x5C" using d by (auto simp: is_lower_def)
      then have "camelize_loop True cs = c_toupper d # camelize_loop False ds" by (simp add: cs)
      moreover have "camelize_loop False (c # cs) = c_toupper d # camelize_loop False ds" by (simp add: cs True)
      ultimately show ?thesis using 2(2) [OF False True s, of False] False True uncamelize_loop_upper [OF d, of "CHR ''_''" first] uncamelize_loop_upper [OF d, of "CHR ''_''" False] nf by simp
    next
      case other: False
      then have "is_lower c \<or> is_digit c" and s: "snake False cs" using 2(4) False other by auto
      then show ?thesis using 2(3) [OF False other s, of False] False camelize_plain by simp
    qed
  qed
qed simp

text \<open>
  A name in lower case whose words begin with a letter and are joined by single underscores comes back from
  camel case: \<open>uncamelize\<close> undoes \<open>camelize\<close>.
\<close>

theorem camelize_roundtrip:
  assumes "snake True s"
  shows "dao_uncamelize (dao_camelize (ZStr s)) = ZStr s"
  using snake_roundtrip [OF assms, of True] by (simp add: dao_camelize_def dao_uncamelize_def)

theorem camelize_roundtrip_witness:
  "dao_camelize (ZStr ''shop_cart2'') = ZStr ''ShopCart2'' \<and> dao_uncamelize (dao_camelize (ZStr ''shop_cart2'')) = ZStr ''shop_cart2''"
proof -
  have "snake True ''shop_cart2''" by code_simp
  moreover have "dao_camelize (ZStr ''shop_cart2'') = ZStr ''ShopCart2''" by code_simp
  ultimately show ?thesis using camelize_roundtrip by blast
qed

end
