(* ===== verification/Events.thy ===== *)
theory Events imports PhpString begin

text \<open>
  The events manager of \<open>events/manager.c\<close> with its event and listener objects (\<open>events/event.c\<close>,
  \<open>events/listener.c\<close>). Objects have identities and lie on a heap, since listeners get the event itself and can stop
  it. User code is a parameter: a method of an object the development does not know is a function on the whole
  state, so a listener can attach and detach listeners, fire events or stop the one it was called for. The
  state of the manager is a record that other components extend.
\<close>

section \<open>Objects and calls\<close>

record event =
  ev_name :: zval
  ev_type :: zval
  ev_source :: zval
  ev_data :: zval
  ev_stopped :: zval
  ev_cancelable :: zval
  ev_flag :: zval

record listener =
  ln_listener :: zval
  ln_priority :: zval
  ln_event :: zval

text \<open>An exception object has a class, a message and a code.\<close>

datatype obj = EventObj event | ListenerObj listener | ExnObj string string nat

text \<open>A queue of listeners: an array, or a \<open>SplPriorityQueue\<close> as the list of its entries in the order of extraction.\<close>

datatype equeue = Plain "nat list" | Prio "(zval \<times> nat) list"

text \<open>The heap, with the next free identity, and the properties of the manager.\<close>

record evworld =
  o_heap :: "nat \<Rightarrow> obj option"
  o_next :: nat
  em_events :: "(zkey \<times> equeue) list option"
  em_currentEvent :: zval
  em_collect :: zval
  em_enablePriorities :: zval
  em_responses :: zval

text \<open>A call returns, leaves an exception pending, or does what C leaves undefined.\<close>

datatype 'a res = Done 'a | Raised zval | Crashed

fun andthen :: "'s \<times> 'a res \<Rightarrow> ('a \<Rightarrow> 's \<Rightarrow> 's \<times> 'b res) \<Rightarrow> 's \<times> 'b res" where
  "andthen (s, Done a) f = f a s"
| "andthen (s, Raised e) f = (s, Raised e)"
| "andthen (s, Crashed) f = (s, Crashed)"

text \<open>
  What the engine and user code decide: a call of a method of an object (\<open>__invoke\<close> for a closure), whether a value is
  callable, the class of an object (closure, \<open>WeakRef\<close>) and its methods by their lower case names, loose equality of values,
  the insertion into a \<open>SplPriorityQueue\<close> and the conversion of values to strings.
\<close>

record 's userland =
  ul_call :: "nat \<Rightarrow> string \<Rightarrow> zval list \<Rightarrow> 's \<Rightarrow> 's \<times> zval res"
  ul_callable :: "zval \<Rightarrow> bool"
  ul_closure :: "nat \<Rightarrow> bool"
  ul_weakref :: "nat \<Rightarrow> bool"
  ul_method :: "nat \<Rightarrow> string \<Rightarrow> bool"
  ul_equal :: "zval \<Rightarrow> zval \<Rightarrow> bool"
  ul_spl_insert :: "zval \<Rightarrow> nat \<Rightarrow> (zval \<times> nat) list \<Rightarrow> (zval \<times> nat) list"
  ul_str :: "zval \<Rightarrow> string"

definition is_obj :: "zval \<Rightarrow> bool" where "is_obj v = (case v of ZObj _ \<Rightarrow> True | _ \<Rightarrow> False)"

text \<open>A new object, and raising an exception.\<close>

definition new_obj :: "obj \<Rightarrow> 'z evworld_scheme \<Rightarrow> nat \<times> 'z evworld_scheme" where
  "new_obj ob s = (o_next s, s\<lparr>o_heap := (o_heap s)(o_next s \<mapsto> ob), o_next := Suc (o_next s)\<rparr>)"

definition throw_new :: "string \<Rightarrow> string \<Rightarrow> nat \<Rightarrow> 'z evworld_scheme \<Rightarrow> 'z evworld_scheme \<times> 'a res" where
  "throw_new cls msg code s = (case new_obj (ExnObj cls msg code) s of (n, s) \<Rightarrow> (s, Raised (ZObj n)))"

definition events_exception :: string where "events_exception = ''Dao'' @ [CHR 0x5C] @ ''Events'' @ [CHR 0x5C] @ ''Exception''"

definition event_class :: string where "event_class = ''Dao'' @ [CHR 0x5C] @ ''Events'' @ [CHR 0x5C] @ ''Event''"

text \<open>\<open>dao_is_equal\<close>: strings byte by byte, anything else by the engine.\<close>

definition dao_is_equal :: "'s userland \<Rightarrow> zval \<Rightarrow> zval \<Rightarrow> bool" where
  "dao_is_equal ul a b = (case (a, b) of (ZStr s, ZStr t) \<Rightarrow> s = t | _ \<Rightarrow> ul_equal ul a b)"

text \<open>
  The check of the second operand looks at the first one again, so an object is compared with anything by
  its handle; reading that of a value that is not an object is undefined.
\<close>

definition dao_is_equal_object :: "zval \<Rightarrow> zval \<Rightarrow> bool option" where
  "dao_is_equal_object a b =
     (case a of ZObj m \<Rightarrow> (case b of ZObj n \<Rightarrow> Some (m = n) | _ \<Rightarrow> None) | _ \<Rightarrow> Some False)"

text \<open>The key of an array under which a string, or another value, is found; \<open>None\<close> for what is not a legal offset.\<close>

definition key_of_str :: "string \<Rightarrow> zkey" where
  "key_of_str s =
     (if int_key s then KInt (if hd s = CHR ''-'' then - of_nat (dec_value (tl s)) else of_nat (dec_value s)) else KStr s)"

definition key_of :: "zval \<Rightarrow> zkey option" where
  "key_of v =
     (case v of ZNull \<Rightarrow> Some (KStr []) | ZBool b \<Rightarrow> Some (KInt (if b then 1 else 0)) | ZLong n \<Rightarrow> Some (KInt n)
      | ZStr s \<Rightarrow> Some (key_of_str s) | _ \<Rightarrow> None)"

section \<open>Listener objects\<close>

definition listener_new :: "zval \<Rightarrow> zval \<Rightarrow> zval \<Rightarrow> listener" where
  "listener_new handler priority event = \<lparr>ln_listener = handler, ln_priority = priority, ln_event = event\<rparr>"

fun the_listener :: "obj option \<Rightarrow> listener option" where
  "the_listener (Some (ListenerObj l)) = Some l"
| "the_listener _ = None"

fun the_event :: "obj option \<Rightarrow> event option" where
  "the_event (Some (EventObj e)) = Some e"
| "the_event _ = None"

definition listener_upd :: "(listener \<Rightarrow> listener) \<Rightarrow> nat \<Rightarrow> 'z evworld_scheme \<Rightarrow> 'z evworld_scheme" where
  "listener_upd f l s =
     (case the_listener (o_heap s l) of Some ln \<Rightarrow> s\<lparr>o_heap := (o_heap s)(l \<mapsto> ListenerObj (f ln))\<rparr> | None \<Rightarrow> s)"

definition listener_setListener :: "nat \<Rightarrow> zval \<Rightarrow> 'z evworld_scheme \<Rightarrow> 'z evworld_scheme" where
  "listener_setListener l v = listener_upd (\<lambda>ln. ln\<lparr>ln_listener := v\<rparr>) l"

definition listener_setPriority :: "nat \<Rightarrow> zval \<Rightarrow> 'z evworld_scheme \<Rightarrow> 'z evworld_scheme" where
  "listener_setPriority l v = listener_upd (\<lambda>ln. ln\<lparr>ln_priority := v\<rparr>) l"

definition listener_setEvent :: "nat \<Rightarrow> zval \<Rightarrow> 'z evworld_scheme \<Rightarrow> 'z evworld_scheme" where
  "listener_setEvent l v = listener_upd (\<lambda>ln. ln\<lparr>ln_event := v\<rparr>) l"

definition get_listener :: "'z evworld_scheme \<Rightarrow> nat \<Rightarrow> zval" where
  "get_listener s l = (case the_listener (o_heap s l) of Some ln \<Rightarrow> ln_listener ln | None \<Rightarrow> ZNull)"

definition get_priority :: "'z evworld_scheme \<Rightarrow> nat \<Rightarrow> zval" where
  "get_priority s l = (case the_listener (o_heap s l) of Some ln \<Rightarrow> ln_priority ln | None \<Rightarrow> ZNull)"

section \<open>Event objects\<close>

definition event_construct :: "zval \<Rightarrow> zval \<Rightarrow> zval \<Rightarrow> zval \<Rightarrow> zval \<Rightarrow> event" where
  "event_construct type source data cancelable flag =
     \<lparr>ev_name = ZNull, ev_type = type, ev_source = source, ev_data = data, ev_stopped = ZBool False,
      ev_cancelable = (if cancelable \<noteq> ZBool True then cancelable else ZBool True),
      ev_flag = (if flag = ZBool True then flag else ZBool False)\<rparr>"

definition event_upd :: "(event \<Rightarrow> event) \<Rightarrow> nat \<Rightarrow> 'z evworld_scheme \<Rightarrow> 'z evworld_scheme" where
  "event_upd f n s =
     (case the_event (o_heap s n) of Some e \<Rightarrow> s\<lparr>o_heap := (o_heap s)(n \<mapsto> EventObj (f e))\<rparr> | None \<Rightarrow> s)"

definition event_setName :: "nat \<Rightarrow> zval \<Rightarrow> 'z evworld_scheme \<Rightarrow> 'z evworld_scheme" where
  "event_setName n v = event_upd (\<lambda>e. e\<lparr>ev_name := v\<rparr>) n"

definition event_setType :: "nat \<Rightarrow> zval \<Rightarrow> 'z evworld_scheme \<Rightarrow> 'z evworld_scheme" where
  "event_setType n v = event_upd (\<lambda>e. e\<lparr>ev_type := v\<rparr>) n"

definition event_setSource :: "nat \<Rightarrow> zval \<Rightarrow> 'z evworld_scheme \<Rightarrow> 'z evworld_scheme" where
  "event_setSource n v = event_upd (\<lambda>e. e\<lparr>ev_source := v\<rparr>) n"

definition event_setData :: "nat \<Rightarrow> zval \<Rightarrow> 'z evworld_scheme \<Rightarrow> 'z evworld_scheme" where
  "event_setData n v = event_upd (\<lambda>e. e\<lparr>ev_data := v\<rparr>) n"

definition event_setCancelable :: "nat \<Rightarrow> zval \<Rightarrow> 'z evworld_scheme \<Rightarrow> 'z evworld_scheme" where
  "event_setCancelable n v = event_upd (\<lambda>e. e\<lparr>ev_cancelable := v\<rparr>) n"

definition event_stop :: "nat \<Rightarrow> 'z evworld_scheme \<Rightarrow> 'z evworld_scheme \<times> zval res" where
  "event_stop n s =
     (case the_event (o_heap s n) of
        None \<Rightarrow> (s, Crashed)
      | Some e \<Rightarrow>
          if z_true (ev_cancelable e) then
            (s\<lparr>o_heap := (o_heap s)(n \<mapsto> EventObj (e\<lparr>ev_stopped := ZBool True\<rparr>))\<rparr>, Done ZNull)
          else throw_new events_exception ''Trying to cancel a non-cancelable event'' 0 s)"

definition event_isStopped :: "nat \<Rightarrow> 'z evworld_scheme \<Rightarrow> zval" where
  "event_isStopped n s = (case the_event (o_heap s n) of Some e \<Rightarrow> ev_stopped e | None \<Rightarrow> ZNull)"

section \<open>Attaching and detaching\<close>

text \<open>The event key: \<open>db:*\<close> and \<open>db:\<close> stand for all events of \<open>db\<close>. Parts behind a second colon count for the full name only.\<close>

definition attach_event :: "string \<Rightarrow> string" where
  "attach_event event_type =
     (if CHR '':'' \<notin> set event_type then event_type
      else (let parts = explode_loop '':'' [] event_type in
            if parts ! 1 = ''*'' \<or> parts ! 1 = [] then parts ! 0 else event_type))"

text \<open>The listener object of a handler: the handler itself when it is one, otherwise a new one.\<close>

definition attach_listener :: "zval \<Rightarrow> zval \<Rightarrow> zval \<Rightarrow> 'z evworld_scheme \<Rightarrow> nat \<times> 'z evworld_scheme" where
  "attach_listener handler priority event s =
     (case handler of
        ZObj n \<Rightarrow>
          (case the_listener (o_heap s n) of
             Some ln \<Rightarrow> (n, listener_setEvent n event (listener_setPriority n priority s))
           | None \<Rightarrow> new_obj (ListenerObj (listener_new handler priority event)) s)
      | _ \<Rightarrow> new_obj (ListenerObj (listener_new handler priority event)) s)"

definition queue_add :: "('z evworld_scheme) userland \<Rightarrow> nat \<Rightarrow> zval \<Rightarrow> equeue \<Rightarrow> equeue" where
  "queue_add ul l priority q =
     (case q of Plain ls \<Rightarrow> Plain (ls @ [l]) | Prio es \<Rightarrow> Prio (ul_spl_insert ul priority l es))"

definition em_attach ::
  "('z evworld_scheme) userland \<Rightarrow> string \<Rightarrow> zval \<Rightarrow> zval option \<Rightarrow> 'z evworld_scheme \<Rightarrow> 'z evworld_scheme \<times> zval res" where
  "em_attach ul event_type handler prio s =
     (if \<not> is_obj handler \<and> \<not> ul_callable ul handler then
        throw_new events_exception ''Event handler must be an object or callable'' 0 s
      else
        (let priority = (case prio of None \<Rightarrow> ZLong 100 | Some p \<Rightarrow> p);
             event = attach_event event_type;
             (l, s) = attach_listener handler priority (ZStr event) s;
             events = (case em_events s of Some es \<Rightarrow> es | None \<Rightarrow> []);
             q = (case map_of events (key_of_str event) of Some q \<Rightarrow> q
                  | None \<Rightarrow> if z_true (em_enablePriorities s) then Prio [] else Plain [])
         in (s\<lparr>em_events := Some (arr_upd (key_of_str event) (queue_add ul l priority q) events)\<rparr>, Done ZNull)))"

text \<open>
  In an array the listeners with the very handler are removed; the queue with priorities is emptied, from the top on, into
  a new one without those whose handler is equal. \<open>top\<close> raises an exception on an empty heap.
\<close>

fun detach_array :: "'z evworld_scheme \<Rightarrow> zval \<Rightarrow> nat list \<Rightarrow> nat list option" where
  "detach_array s handler [] = Some []"
| "detach_array s handler (l # ls) =
     (case dao_is_equal_object (get_listener s l) handler of
        None \<Rightarrow> None
      | Some eq \<Rightarrow> map_option (\<lambda>r. if eq then r else l # r) (detach_array s handler ls))"

definition detach_prio :: "('z evworld_scheme) userland \<Rightarrow> 'z evworld_scheme \<Rightarrow> zval \<Rightarrow> (zval \<times> nat) list \<Rightarrow> (zval \<times> nat) list" where
  "detach_prio ul s handler es =
     fold (\<lambda>(p, l) q. if dao_is_equal ul (get_listener s l) handler then q else ul_spl_insert ul (get_priority s l) l q) es []"

definition spl_top_exception :: "'z evworld_scheme \<Rightarrow> 'z evworld_scheme \<times> 'a res" where
  "spl_top_exception s = throw_new ''RuntimeException'' ''Can't peek at an empty heap'' 0 s"

definition em_detach :: "('z evworld_scheme) userland \<Rightarrow> string \<Rightarrow> zval \<Rightarrow> 'z evworld_scheme \<Rightarrow> 'z evworld_scheme \<times> zval res" where
  "em_detach ul type handler s =
     (if \<not> is_obj handler \<and> \<not> ul_callable ul handler then
        throw_new events_exception ''Event handler must be an object or callable'' 0 s
      else
        (case em_events s of None \<Rightarrow> (s, Done (ZBool False))
         | Some events \<Rightarrow>
             (case map_of events (key_of_str type) of None \<Rightarrow> (s, Done (ZBool False))
              | Some (Prio es) \<Rightarrow>
                  if es = [] then spl_top_exception s
                  else (s\<lparr>em_events := Some (arr_upd (key_of_str type) (Prio (detach_prio ul s handler es)) events)\<rparr>, Done ZNull)
              | Some (Plain ls) \<Rightarrow>
                  (case detach_array s handler ls of None \<Rightarrow> (s, Crashed)
                   | Some ls' \<Rightarrow> (s\<lparr>em_events := Some (arr_upd (key_of_str type) (Plain ls') events)\<rparr>, Done ZNull)))))"

definition em_detachAll :: "string option \<Rightarrow> 'z evworld_scheme \<Rightarrow> 'z evworld_scheme" where
  "em_detachAll type s =
     (case type of None \<Rightarrow> s
      | Some t \<Rightarrow> s\<lparr>em_events := map_option (filter (\<lambda>(k, q). k \<noteq> key_of_str t)) (em_events s)\<rparr>)"

section \<open>Firing\<close>

text \<open>After the call of a listener: go on with its result as the data for the next one, or stop.\<close>

datatype verdict = Next zval | Halt zval

text \<open>\<open>None\<close>: the handler is no closure and has no method for the event.\<close>

definition em_invoke ::
  "('z evworld_scheme) userland \<Rightarrow> nat \<Rightarrow> string \<Rightarrow> zval list \<Rightarrow> ('z evworld_scheme \<Rightarrow> 'z evworld_scheme \<times> zval res) option" where
  "em_invoke ul h event_name args =
     (if ul_closure ul h then Some (ul_call ul h ''__invoke'' args)
      else if ul_method ul h (dao_fast_strtolower event_name) \<or> ul_method ul h ''__call'' then Some (ul_call ul h event_name args)
      else None)"

definition responses_add :: "zval \<Rightarrow> zval \<Rightarrow> zval" where
  "responses_add arr v =
     (let xs = (case arr of ZArr xs \<Rightarrow> xs | _ \<Rightarrow> []) in ZArr (xs @ [(KInt (of_nat (length xs)), v)]))"

definition em_answer :: "nat \<Rightarrow> bool \<Rightarrow> zval \<Rightarrow> zval \<Rightarrow> zval \<Rightarrow> 'z evworld_scheme \<Rightarrow> 'z evworld_scheme \<times> verdict res" where
  "em_answer ev flag collect cancelable status s =
     (if flag \<and> status = ZBool False then (s, Done (Halt status))
      else
        (let s = (if z_true collect then s\<lparr>em_responses := responses_add (em_responses s) status\<rparr> else s)
         in if z_true cancelable \<and> z_true (event_isStopped ev s) then (s, Done (Halt status)) else (s, Done (Next status))))"

text \<open>A handler that is no object is passed over, and so is a weak reference to an object that is gone.\<close>

definition em_handler :: "('z evworld_scheme) userland \<Rightarrow> zval \<Rightarrow> 'z evworld_scheme \<Rightarrow> 'z evworld_scheme \<times> nat option res" where
  "em_handler ul embedded s =
     (case embedded of
        ZObj n \<Rightarrow>
          if ul_weakref ul n then
            andthen (ul_call ul n ''valid'' [] s)
              (\<lambda>valid s. if z_true valid then
                   andthen (ul_call ul n ''get'' [] s) (\<lambda>h s. case h of ZObj m \<Rightarrow> (s, Done (Some m)) | _ \<Rightarrow> (s, Crashed))
                 else (s, Done None))
          else (s, Done (Some n))
      | _ \<Rightarrow> (s, Done None))"

definition em_notify ::
  "('z evworld_scheme) userland \<Rightarrow> nat \<Rightarrow> string \<Rightarrow> event \<Rightarrow> bool \<Rightarrow> zval \<Rightarrow> nat \<Rightarrow> zval \<Rightarrow> 'z evworld_scheme \<Rightarrow> 'z evworld_scheme \<times> verdict res" where
  "em_notify ul ev event_name e flag collect l status s =
     andthen (em_handler ul (get_listener s l) s)
       (\<lambda>h s. case h of None \<Rightarrow> (s, Done (Next status))
        | Some h \<Rightarrow>
            (case em_invoke ul h event_name [ZObj ev, ev_source e, ev_data e, status] of
               None \<Rightarrow> (s, Done (Next status))
             | Some call \<Rightarrow> andthen (call s) (em_answer ev flag collect (ev_cancelable e))))"

fun em_notify_all ::
  "('z evworld_scheme) userland \<Rightarrow> nat \<Rightarrow> string \<Rightarrow> event \<Rightarrow> bool \<Rightarrow> zval \<Rightarrow> nat list \<Rightarrow> zval \<Rightarrow> 'z evworld_scheme \<Rightarrow> 'z evworld_scheme \<times> zval res" where
  "em_notify_all ul ev event_name e flag collect [] status s = (s, Done status)"
| "em_notify_all ul ev event_name e flag collect (l # ls) status s =
     andthen (em_notify ul ev event_name e flag collect l status s)
       (\<lambda>v s. case v of Halt st \<Rightarrow> (s, Done st) | Next st \<Rightarrow> em_notify_all ul ev event_name e flag collect ls st s)"

text \<open>
  The event is passed by its identity; the source, the data and whether it can be stopped are read before the first call.
  The data handed to the first listener is \<open>null\<close>: the method takes three arguments, so the fourth is never set.
  The messages of type errors also name what was given; that part is left out.
\<close>

definition em_fireQueue ::
  "('z evworld_scheme) userland \<Rightarrow> equeue \<Rightarrow> zval \<Rightarrow> zval option \<Rightarrow> 'z evworld_scheme \<Rightarrow> 'z evworld_scheme \<times> zval res" where
  "em_fireQueue ul queue event flag s =
     (let flag = (case flag of None \<Rightarrow> False | Some f \<Rightarrow> z_true f) in
      case event of
        ZObj ev \<Rightarrow>
          (case the_event (o_heap s ev) of
             None \<Rightarrow> throw_new events_exception (''Unexpected value type: expected object of type '' @ event_class) 0 s
           | Some e \<Rightarrow>
               (case ev_type e of
                  ZStr event_name \<Rightarrow>
                    (case queue of
                       Plain ls \<Rightarrow> em_notify_all ul ev event_name e flag (em_collect s) ls ZNull s
                     | Prio es \<Rightarrow>
                         if es = [] then spl_top_exception s
                         else em_notify_all ul ev event_name e flag (em_collect s) (map snd es) ZNull s)
                | _ \<Rightarrow> throw_new events_exception ''The event type not valid'' 0 s))
      | _ \<Rightarrow> throw_new events_exception (''Unexpected value type: expected object of type '' @ event_class) 0 s)"

definition em_createEvent ::
  "string \<Rightarrow> zval \<Rightarrow> zval option \<Rightarrow> zval option \<Rightarrow> zval option \<Rightarrow> 'z evworld_scheme \<Rightarrow> 'z evworld_scheme \<times> nat res" where
  "em_createEvent event_type source data cancelable flag s =
     (if CHR '':'' \<notin> set event_type then throw_new events_exception (''Invalid event type '' @ event_type) 0 s
      else
        (let parts = explode_loop '':'' [] event_type;
             (n, s) = new_obj (EventObj (event_construct (ZStr (parts ! 1)) source (case data of None \<Rightarrow> ZNull | Some d \<Rightarrow> d)
                        (case cancelable of None \<Rightarrow> ZBool True | Some c \<Rightarrow> c) (case flag of None \<Rightarrow> ZBool False | Some f \<Rightarrow> f))) s
         in (event_setName n (ZStr (parts ! 0)) s, Done n)))"

text \<open>The queue of a key, called when there is one; a \<open>false\<close> ends the event when the flag asks for it.\<close>

definition em_fire_key ::
  "('z evworld_scheme) userland \<Rightarrow> zkey option \<Rightarrow> nat \<Rightarrow> bool \<Rightarrow> zval \<Rightarrow> 'z evworld_scheme \<Rightarrow> 'z evworld_scheme \<times> verdict res" where
  "em_fire_key ul key ev flag status s =
     (case (case key of None \<Rightarrow> None | Some k \<Rightarrow> map_of (case em_events s of Some es \<Rightarrow> es | None \<Rightarrow> []) k) of
        None \<Rightarrow> (s, Done (Next status))
      | Some q \<Rightarrow>
          andthen (em_fireQueue ul q (ZObj ev) None s)
            (\<lambda>st s. (s, Done (if flag \<and> st = ZBool False then Halt st else Next st))))"

definition verdict_then :: "'z evworld_scheme \<times> verdict res \<Rightarrow> (zval \<Rightarrow> 'z evworld_scheme \<Rightarrow> 'z evworld_scheme \<times> verdict res) \<Rightarrow> 'z evworld_scheme \<times> verdict res" where
  "verdict_then r f = andthen r (\<lambda>v s. case v of Halt st \<Rightarrow> (s, Done (Halt st)) | Next st \<Rightarrow> f st s)"

definition verdict_status :: "verdict \<Rightarrow> zval" where
  "verdict_status v = (case v of Halt st \<Rightarrow> st | Next st \<Rightarrow> st)"

text \<open>What \<open>fire\<close> is given: the name of an event, an object, or something else.\<close>

definition em_fire_event ::
  "('z evworld_scheme) userland \<Rightarrow> zval \<Rightarrow> zval \<Rightarrow> nat \<Rightarrow> bool \<Rightarrow> 'z evworld_scheme \<Rightarrow> 'z evworld_scheme \<times> zval res" where
  "em_fire_event ul name event_type ev flag s =
     (let s = s\<lparr>em_currentEvent := ZObj ev\<rparr> in
      if em_events s = None then (s, Done ZNull)
      else
        (let s = (if z_true (em_collect s) then s\<lparr>em_responses := ZNull\<rparr> else s)
         in andthen
              (verdict_then (verdict_then (em_fire_key ul (Some (KStr ''*'')) ev flag ZNull s)
                 (em_fire_key ul (key_of name) ev flag)) (em_fire_key ul (key_of event_type) ev flag))
              (\<lambda>v s. (s, Done (verdict_status v)))))"

definition em_fire ::
  "('z evworld_scheme) userland \<Rightarrow> zval \<Rightarrow> zval \<Rightarrow> zval option \<Rightarrow> zval option \<Rightarrow> zval option \<Rightarrow> 'z evworld_scheme \<Rightarrow> 'z evworld_scheme \<times> zval res" where
  "em_fire ul event_type source data cancelable flag s =
     (let cancelable = (case cancelable of None \<Rightarrow> ZBool True | Some ZNull \<Rightarrow> ZBool True | Some c \<Rightarrow> c);
          flag = (case flag of None \<Rightarrow> ZBool False | Some ZNull \<Rightarrow> ZBool False | Some f \<Rightarrow> f)
      in case event_type of
           ZStr t \<Rightarrow>
             andthen (em_createEvent t source data (Some cancelable) (Some flag) s)
               (\<lambda>ev s. case the_event (o_heap s ev) of
                    Some e \<Rightarrow> em_fire_event ul (ev_name e) (ZStr t) ev (z_true flag) s
                  | None \<Rightarrow> (s, Crashed))
         | ZObj ev \<Rightarrow>
             (case the_event (o_heap s ev) of
                Some e \<Rightarrow>
                  em_fire_event ul (ev_name e) (ZStr (ul_str ul (ev_name e) @ '':'' @ ul_str ul (ev_type e))) ev (z_true flag) s
              | None \<Rightarrow> throw_new events_exception (''Unexpected value type: expected object implementing '' @ event_class @ ''Interface'') 0 s)
         | _ \<Rightarrow> throw_new events_exception ''Event type must be a string'' 0 s)"

section \<open>Queries\<close>

definition em_hasListeners :: "string \<Rightarrow> 'z evworld_scheme \<Rightarrow> bool" where
  "em_hasListeners type s = (case em_events s of None \<Rightarrow> False | Some es \<Rightarrow> map_of es (key_of_str type) \<noteq> None)"

text \<open>The handlers of the listeners; all of the queue is read without changing it.\<close>

definition em_getListeners :: "string \<Rightarrow> 'z evworld_scheme \<Rightarrow> 'z evworld_scheme \<times> zval list res" where
  "em_getListeners type s =
     (case (case em_events s of None \<Rightarrow> None | Some es \<Rightarrow> map_of es (key_of_str type)) of
        None \<Rightarrow> (s, Done [])
      | Some (Plain ls) \<Rightarrow> (s, Done (map (get_listener s) ls))
      | Some (Prio es) \<Rightarrow> if es = [] then spl_top_exception s else (s, Done (map (\<lambda>(p, l). get_listener s l) es)))"

definition em_getEvents :: "'z evworld_scheme \<Rightarrow> zkey list" where
  "em_getEvents s = (case em_events s of None \<Rightarrow> [] | Some es \<Rightarrow> map fst es)"

definition em_set_collect :: "zval \<Rightarrow> 'z evworld_scheme \<Rightarrow> 'z evworld_scheme" where
  "em_set_collect v s = s\<lparr>em_collect := v\<rparr>"

definition em_set_priorities :: "zval \<Rightarrow> 'z evworld_scheme \<Rightarrow> 'z evworld_scheme" where
  "em_set_priorities v s = s\<lparr>em_enablePriorities := v\<rparr>"

end
