(* ===== verification/Injectable.thy ===== *)
theory Injectable imports Events begin

text \<open>
  The base class of \<open>di/injectable.c\<close>: how a component finds its dependency injector and its events manager, and how it
  fires events: at the manager, at the closure attached to the component itself, and at the method named like the event.
  \<open>fireEventCancel\<close> stops at the first of the three that answers \<open>false\<close>.
\<close>

text \<open>
  The object itself and the events manager of the application, with the properties of the class and the two that reading
  creates, which are \<open>null\<close> before.
\<close>

record injectable = evworld +
  i_self :: nat
  i_manager :: nat
  i_dependencyInjector :: zval
  i_eventsManager :: zval
  i_eventCallbacks :: "(zkey \<times> zval) list"
  i_di :: zval
  i_persistent :: zval

text \<open>
  What else the engine decides: static calls, the name of the class of the object, which objects are events managers and dependency injectors, and how an
  error message describes a value (its type, for an object with its class).
\<close>

record 's inj_env =
  ie_user :: "'s userland"
  ie_static :: "string \<Rightarrow> string \<Rightarrow> zval list \<Rightarrow> 's \<Rightarrow> 's \<times> zval res"
  ie_class :: string
  ie_is_manager :: "nat \<Rightarrow> bool"
  ie_is_di :: "nat \<Rightarrow> bool"
  ie_describe :: "zval \<Rightarrow> string"

definition di_class :: string where "di_class = ''Dao'' @ [CHR 0x5C] @ ''Di''"

definition di_exception :: string where "di_exception = di_class @ [CHR 0x5C] @ ''Exception''"

definition verify_message :: "('s, 'y) inj_env_scheme \<Rightarrow> string \<Rightarrow> zval \<Rightarrow> string" where
  "verify_message env interface v =
     ''Unexpected value type: expected object implementing '' @ interface @ '', '' @ ie_describe env v @ '' given''"

definition manager_interface :: string where "manager_interface = ''Dao'' @ [CHR 0x5C] @ ''Events'' @ [CHR 0x5C] @ ''ManagerInterface''"

definition inj_getDI :: "('z injectable_scheme) inj_env \<Rightarrow> bool \<Rightarrow> bool \<Rightarrow> 'z injectable_scheme \<Rightarrow> 'z injectable_scheme \<times> zval res" where
  "inj_getDI env error not_use_default s =
     andthen (if \<not> is_obj (i_dependencyInjector s) \<and> \<not> not_use_default
              then ie_static env di_class ''getdefault'' [i_dependencyInjector s] s else (s, Done (i_dependencyInjector s)))
       (\<lambda>di s. if \<not> is_obj di \<and> error then throw_new di_exception ''A dependency injection container is not object'' 0 s
               else (s, Done di))"

definition inj_getService :: "('z injectable_scheme) inj_env \<Rightarrow> string \<Rightarrow> 'z injectable_scheme \<Rightarrow> 'z injectable_scheme \<times> zval res" where
  "inj_getService env name s =
     andthen (inj_getDI env True False s)
       (\<lambda>di s. case di of ZObj n \<Rightarrow> ul_call (ie_user env) n ''get'' [ZStr name, ZNull, ZBool True] s | _ \<Rightarrow> (s, Crashed))"

definition inj_hasService :: "('z injectable_scheme) inj_env \<Rightarrow> string \<Rightarrow> 'z injectable_scheme \<Rightarrow> 'z injectable_scheme \<times> zval res" where
  "inj_hasService env name s =
     andthen (inj_getDI env False False s)
       (\<lambda>di s. case di of ZObj n \<Rightarrow> ul_call (ie_user env) n ''has'' [ZStr name] s | _ \<Rightarrow> (s, Done (ZBool False)))"

text \<open>A value that is neither undefined, \<open>null\<close>, an empty string nor an empty array.\<close>

definition not_empty :: "zval \<Rightarrow> bool" where
  "not_empty v = (v \<noteq> ZNull \<and> v \<noteq> ZStr [] \<and> v \<noteq> ZArr [])"

text \<open>
  A name given in place of an injector is passed to \<open>getDI\<close> as its flag for errors: which name it is makes no difference.
\<close>

definition inj_setDI :: "('z injectable_scheme) inj_env \<Rightarrow> zval \<Rightarrow> 'z injectable_scheme \<Rightarrow> 'z injectable_scheme \<times> zval res" where
  "inj_setDI env di s =
     (if \<not> is_obj di \<and> not_empty di then
        andthen (inj_getDI env (z_true di) False s) (\<lambda>di s. (s\<lparr>i_dependencyInjector := di\<rparr>, Done (ZObj (i_self s))))
      else if di = ZNull \<or> (case di of ZObj n \<Rightarrow> ie_is_di env n | _ \<Rightarrow> False)
      then (s\<lparr>i_dependencyInjector := di\<rparr>, Done (ZObj (i_self s)))
      else throw_new di_exception (verify_message env (''Dao'' @ [CHR 0x5C] @ ''DiInterface'') di) 0 s)"

text \<open>A method of the injector that \<open>getDI\<close> gives; what is no object has no methods.\<close>

definition inj_call :: "('z injectable_scheme) inj_env \<Rightarrow> zval \<Rightarrow> string \<Rightarrow> zval list \<Rightarrow> 'z injectable_scheme \<Rightarrow> 'z injectable_scheme \<times> zval res" where
  "inj_call env di method args s = (case di of ZObj n \<Rightarrow> ul_call (ie_user env) n method args s | _ \<Rightarrow> (s, Crashed))"

definition inj_setService ::
  "('z injectable_scheme) inj_env \<Rightarrow> zval \<Rightarrow> zval \<Rightarrow> zval option \<Rightarrow> 'z injectable_scheme \<Rightarrow> 'z injectable_scheme \<times> zval res" where
  "inj_setService env name defn shared s =
     andthen (inj_getDI env True False s)
       (\<lambda>di. inj_call env di ''set'' [name, defn, case shared of None \<Rightarrow> ZBool False | Some v \<Rightarrow> v])"

definition inj_getResolveService ::
  "('z injectable_scheme) inj_env \<Rightarrow> zval \<Rightarrow> zval option \<Rightarrow> zval option \<Rightarrow> zval option \<Rightarrow> 'z injectable_scheme \<Rightarrow> 'z injectable_scheme \<times> zval res" where
  "inj_getResolveService env name args noerror noshared s =
     (let args = (case args of None \<Rightarrow> ZNull | Some v \<Rightarrow> v);
          noerror = (case noerror of None \<Rightarrow> ZBool False | Some v \<Rightarrow> v)
      in andthen (inj_getDI env (z_true noerror) False s)
           (\<lambda>di s. if \<not> is_obj di then (s, Done ZNull)
              else inj_call env di (if (case noshared of None \<Rightarrow> False | Some v \<Rightarrow> z_true v) then ''get'' else ''getshared'') [name, args, noerror] s))"

text \<open>Reading a property that does not exist: a service, the injector itself, or a bag of the session named like the class.\<close>

definition inj_get_magic :: "('z injectable_scheme) inj_env \<Rightarrow> string \<Rightarrow> 'z injectable_scheme \<Rightarrow> 'z injectable_scheme \<times> zval res" where
  "inj_get_magic env name s =
     andthen (inj_getDI env False False s)
       (\<lambda>di s. andthen (inj_call env di ''has'' [ZStr name] s)
          (\<lambda>has s.
             if z_true has then inj_call env di ''getshared'' [ZStr name] s
             else if name = ''di'' then (s\<lparr>i_di := di\<rparr>, Done di)
             else if name = ''persistent'' then
               andthen (inj_call env di ''get'' [ZStr ''sessionBag'', ZArr [(KInt 0, ZStr (ie_class env))]] s)
                 (\<lambda>bag s. (s\<lparr>i_persistent := bag\<rparr>, Done bag))
             else (s, Done ZNull)))"

text \<open>Serialising keeps the name of the injector; the members that are written out are the engine's part.\<close>

definition inj_sleep :: "('z injectable_scheme) inj_env \<Rightarrow> 'z injectable_scheme \<Rightarrow> 'z injectable_scheme \<times> unit res" where
  "inj_sleep env s =
     andthen (if is_obj (i_dependencyInjector s) then inj_call env (i_dependencyInjector s) ''getname'' [] s else (s, Done (i_dependencyInjector s)))
       (\<lambda>name s. (s\<lparr>i_dependencyInjector := name\<rparr>, Done ()))"

definition inj_getEventsManager :: "('z injectable_scheme) inj_env \<Rightarrow> 'z injectable_scheme \<Rightarrow> 'z injectable_scheme \<times> zval res" where
  "inj_getEventsManager env s =
     (if is_obj (i_eventsManager s) then (s, Done (i_eventsManager s)) else inj_getService env ''eventsManager'' s)"

definition inj_setEventsManager :: "('z injectable_scheme) inj_env \<Rightarrow> zval \<Rightarrow> 'z injectable_scheme \<Rightarrow> 'z injectable_scheme \<times> zval res" where
  "inj_setEventsManager env m s =
     (if m = ZNull \<or> (case m of ZObj n \<Rightarrow> n = i_manager s \<or> ie_is_manager env n | _ \<Rightarrow> False)
      then (s\<lparr>i_eventsManager := m\<rparr>, Done (ZObj (i_self s)))
      else throw_new di_exception (verify_message env manager_interface m) 0 s)"

text \<open>The closure is bound to the object by the engine; the key is the name in lower case.\<close>

definition inj_attachEvent :: "('z injectable_scheme) inj_env \<Rightarrow> string \<Rightarrow> zval \<Rightarrow> 'z injectable_scheme \<Rightarrow> 'z injectable_scheme \<times> zval res" where
  "inj_attachEvent env event_type callback s =
     andthen (ie_static env ''Closure'' ''bind'' [callback, ZObj (i_self s)] s)
       (\<lambda>cb s. (s\<lparr>i_eventCallbacks := arr_upd (key_of_str (dao_fast_strtolower event_type)) cb (i_eventCallbacks s)\<rparr>, Done (ZObj (i_self s))))"

section \<open>Firing\<close>

text \<open>The methods of an events manager and of its event, of this development or of user code.\<close>

definition manager_fire ::
  "('z injectable_scheme) inj_env \<Rightarrow> nat \<Rightarrow> string \<Rightarrow> zval \<Rightarrow> bool \<Rightarrow> 'z injectable_scheme \<Rightarrow> 'z injectable_scheme \<times> zval res" where
  "manager_fire env m event_type data cancel s =
     (if m = i_manager s then
        em_fire (ie_user env) (ZStr event_type) (ZObj (i_self s)) (Some data) (Some (ZBool True)) (if cancel then Some (ZBool True) else None) s
      else ul_call (ie_user env) m ''fire''
             ([ZStr event_type, ZObj (i_self s), data, ZBool True] @ (if cancel then [ZBool True] else [])) s)"

definition manager_currentEvent :: "('z injectable_scheme) inj_env \<Rightarrow> nat \<Rightarrow> 'z injectable_scheme \<Rightarrow> 'z injectable_scheme \<times> zval res" where
  "manager_currentEvent env m s =
     (if m = i_manager s then (s, Done (em_currentEvent s)) else ul_call (ie_user env) m ''getcurrentevent'' [] s)"

definition inj_isStopped :: "('z injectable_scheme) inj_env \<Rightarrow> zval \<Rightarrow> 'z injectable_scheme \<Rightarrow> 'z injectable_scheme \<times> zval res" where
  "inj_isStopped env event s =
     (case event of
        ZObj n \<Rightarrow> (case the_event (o_heap s n) of Some e \<Rightarrow> (s, Done (ev_stopped e)) | None \<Rightarrow> ul_call (ie_user env) n ''isstopped'' [] s)
      | _ \<Rightarrow> (s, Done (ZBool False)))"

text \<open>The event ends with a value, or goes on with the status so far and the event object.\<close>

datatype stage = Over zval | Onward zval zval

definition stage_check :: "('z injectable_scheme) inj_env \<Rightarrow> zval \<Rightarrow> zval \<Rightarrow> 'z injectable_scheme \<Rightarrow> 'z injectable_scheme \<times> stage res" where
  "stage_check env status event s =
     andthen (inj_isStopped env event s)
       (\<lambda>stopped s. (s, Done (if z_true stopped then Over status else Onward status event)))"

definition inj_at_manager ::
  "('z injectable_scheme) inj_env \<Rightarrow> bool \<Rightarrow> string \<Rightarrow> zval \<Rightarrow> 'z injectable_scheme \<Rightarrow> 'z injectable_scheme \<times> stage res" where
  "inj_at_manager env cancel event_type data s =
     andthen (inj_getEventsManager env s)
       (\<lambda>m s. case m of
          ZNull \<Rightarrow> (s, Done (Onward ZNull ZNull))
        | ZObj n \<Rightarrow>
            if n \<noteq> i_manager s \<and> \<not> ie_is_manager env n
            then throw_new di_exception (verify_message env manager_interface m) 0 s
            else andthen (manager_fire env n event_type data cancel s)
                   (\<lambda>status s. if cancel \<and> status = ZBool False then (s, Done (Over (ZBool False)))
                      else andthen (manager_currentEvent env n s) (\<lambda>event s. stage_check env status event s))
        | _ \<Rightarrow> throw_new di_exception (verify_message env manager_interface m) 0 s)"

definition inj_at_callback ::
  "('z injectable_scheme) inj_env \<Rightarrow> bool \<Rightarrow> string \<Rightarrow> zval \<Rightarrow> stage \<Rightarrow> 'z injectable_scheme \<Rightarrow> 'z injectable_scheme \<times> stage res" where
  "inj_at_callback env cancel name data st s =
     (case st of Over v \<Rightarrow> (s, Done (Over v))
      | Onward status event \<Rightarrow>
          (case map_of (i_eventCallbacks s) (key_of_str name) of
             None \<Rightarrow> (s, Done (Onward status event))
           | Some (ZObj cb) \<Rightarrow>
               andthen (ul_call (ie_user env) cb ''__invoke'' [event, data, status] s)
                 (\<lambda>status s. if cancel \<and> status = ZBool False then (s, Done (Over (ZBool False)))
                    else stage_check env status event s)
           | Some _ \<Rightarrow> (s, Crashed)))"

definition inj_at_method ::
  "('z injectable_scheme) inj_env \<Rightarrow> string \<Rightarrow> zval \<Rightarrow> stage \<Rightarrow> 'z injectable_scheme \<Rightarrow> 'z injectable_scheme \<times> zval res" where
  "inj_at_method env name data st s =
     (case st of Over v \<Rightarrow> (s, Done v)
      | Onward status event \<Rightarrow>
          if ul_method (ie_user env) (i_self s) name then ul_call (ie_user env) (i_self s) name [event, data, status] s
          else (s, Done status))"

text \<open>The name of the method and of the closure, and the name for the manager.\<close>

definition event_names :: "('z injectable_scheme) inj_env \<Rightarrow> string \<Rightarrow> string \<times> string" where
  "event_names env eventname =
     (let lower = dao_fast_strtolower eventname
      in if CHR '':'' \<in> set lower then (explode_loop '':'' [] lower ! 1, eventname)
         else (lower, ie_class env @ '':'' @ eventname))"

definition inj_fire :: "('z injectable_scheme) inj_env \<Rightarrow> bool \<Rightarrow> string \<Rightarrow> zval \<Rightarrow> 'z injectable_scheme \<Rightarrow> 'z injectable_scheme \<times> zval res" where
  "inj_fire env cancel eventname data s =
     (let (name, event_type) = event_names env eventname in
      andthen (andthen (inj_at_manager env cancel event_type data s) (inj_at_callback env cancel name data))
        (inj_at_method env name data))"

definition inj_fireEvent :: "('z injectable_scheme) inj_env \<Rightarrow> string \<Rightarrow> zval \<Rightarrow> 'z injectable_scheme \<Rightarrow> 'z injectable_scheme \<times> zval res" where
  "inj_fireEvent env = inj_fire env False"

definition inj_fireEventCancel :: "('z injectable_scheme) inj_env \<Rightarrow> string \<Rightarrow> zval \<Rightarrow> 'z injectable_scheme \<Rightarrow> 'z injectable_scheme \<times> zval res" where
  "inj_fireEventCancel env = inj_fire env True"

section \<open>The injector by name\<close>

text \<open>Two names give the same result, so a name does not select an injector.\<close>

lemma setDI_name_ignored:
  "str_true a \<Longrightarrow> str_true b \<Longrightarrow> inj_setDI env (ZStr a) s = inj_setDI env (ZStr b) s"
  by (auto simp: inj_setDI_def is_obj_def not_empty_def z_true_def str_true_def)

end
