(* ===== verification/Dispatcher.thy ===== *)
theory Dispatcher imports Injectable begin

text \<open>
  The dispatcher of \<open>dispatcher.c\<close> with its subclass for controllers, \<open>mvc/dispatcher.c\<close>: the loop that finds the class and the
  method of an action, fires the events around it and goes on while an action, a listener or an error handler forwards to
  another one. The steps of a round are definitions of their own, in the order of the code. Where \<open>forward\<close> is called the result
  is an option: \<open>None\<close> means that the C functions call each other for ever.
\<close>

section \<open>State\<close>

text \<open>
  All properties of the class; \<open>d_params_pos\<close> is the internal pointer of the array of parameters, which logic binding moves and
  a new array sets back.
\<close>

record dispatcher = injectable +
  d_activeHandler :: zval
  d_finished :: zval
  d_forwarded :: zval
  d_moduleName :: zval
  d_namespaceName :: zval
  d_handlerName :: zval
  d_actionName :: zval
  d_logicBinding :: zval
  d_params :: zval
  d_params_pos :: nat
  d_returnedValue :: zval
  d_lastHandler :: zval
  d_defaultModule :: zval
  d_defaultNamespace :: zval
  d_defaultHandler :: zval
  d_defaultAction :: zval
  d_handlerSuffix :: zval
  d_actionSuffix :: zval
  d_isExactHandler :: zval
  d_previousNamespaceName :: zval
  d_previousHandlerName :: zval
  d_previousActionName :: zval
  d_previousParams :: zval
  d_camelizeNamespace :: zval
  d_camelizeController :: zval
  d_errorHandlers :: zval
  d_lastException :: zval

text \<open>
  What user code and the engine decide: whether a class can be loaded (which may run an autoloader), the action methods and
  their parameters (the name of the class of the type, if any, and the name), which classes exist and are logic classes,
  the class of an exception object and its copy, and which objects are filters.
\<close>

record 's disp_env =
  de_inj :: "'s inj_env"
  de_class_exists :: "string \<Rightarrow> 's \<Rightarrow> 's \<times> bool res"
  de_action :: "nat \<Rightarrow> string \<Rightarrow> (zkey \<times> zval) list \<Rightarrow> 's \<Rightarrow> 's \<times> zval res"
  de_parameters :: "nat \<Rightarrow> string \<Rightarrow> (string option \<times> string) list"
  de_logic_class :: "string \<Rightarrow> bool option"
  de_logic :: "nat \<Rightarrow> bool"
  de_continue :: "nat \<Rightarrow> bool"
  de_unwind :: "nat \<Rightarrow> bool"
  de_clone :: "nat \<Rightarrow> 's \<Rightarrow> 's \<times> nat"
  de_is_filter :: "nat \<Rightarrow> bool"

abbreviation de_user :: "'s disp_env \<Rightarrow> 's userland" where "de_user env \<equiv> ie_user (de_inj env)"

definition backslash :: string where "backslash = [CHR 0x5C]"

text \<open>The string a value is in a concatenation.\<close>

definition cat_str :: "'s disp_env \<Rightarrow> zval \<Rightarrow> string" where
  "cat_str env v =
     (case v of ZStr s \<Rightarrow> s | ZNull \<Rightarrow> [] | ZBool b \<Rightarrow> (if b then ''1'' else []) | _ \<Rightarrow> ul_str (de_user env) v)"

definition fire_cancel :: "('z dispatcher_scheme) disp_env \<Rightarrow> string \<Rightarrow> zval \<Rightarrow> 'z dispatcher_scheme \<Rightarrow> 'z dispatcher_scheme \<times> zval res" where
  "fire_cancel env name data = inj_fireEventCancel (de_inj env) (''dispatch:'' @ name) data"

definition fire_plain :: "('z dispatcher_scheme) disp_env \<Rightarrow> string \<Rightarrow> zval \<Rightarrow> 'z dispatcher_scheme \<Rightarrow> 'z dispatcher_scheme \<times> zval res" where
  "fire_plain env name data = inj_fireEvent (de_inj env) (''dispatch:'' @ name) data"

section \<open>Accessors\<close>

definition d_construct :: "'z dispatcher_scheme \<Rightarrow> 'z dispatcher_scheme" where
  "d_construct s = s\<lparr>d_params := ZArr [], d_params_pos := 0\<rparr>"

definition d_setActionSuffix :: "zval \<Rightarrow> 'z dispatcher_scheme \<Rightarrow> 'z dispatcher_scheme" where
  "d_setActionSuffix v s = s\<lparr>d_actionSuffix := v\<rparr>"

definition d_setHandlerSuffix :: "zval \<Rightarrow> 'z dispatcher_scheme \<Rightarrow> 'z dispatcher_scheme" where
  "d_setHandlerSuffix v s = s\<lparr>d_handlerSuffix := v\<rparr>"

definition d_setDefaultModule :: "zval \<Rightarrow> 'z dispatcher_scheme \<Rightarrow> 'z dispatcher_scheme" where
  "d_setDefaultModule v s = s\<lparr>d_defaultModule := v\<rparr>"

definition d_setDefaultNamespace :: "zval \<Rightarrow> 'z dispatcher_scheme \<Rightarrow> 'z dispatcher_scheme" where
  "d_setDefaultNamespace v s = s\<lparr>d_defaultNamespace := v\<rparr>"

definition d_setDefaultHandler :: "zval \<Rightarrow> 'z dispatcher_scheme \<Rightarrow> 'z dispatcher_scheme" where
  "d_setDefaultHandler v s = s\<lparr>d_defaultHandler := v\<rparr>"

definition d_setDefaultAction :: "zval \<Rightarrow> 'z dispatcher_scheme \<Rightarrow> 'z dispatcher_scheme" where
  "d_setDefaultAction v s = s\<lparr>d_defaultAction := v\<rparr>"

definition d_setModuleName :: "zval \<Rightarrow> 'z dispatcher_scheme \<Rightarrow> 'z dispatcher_scheme" where
  "d_setModuleName v s = s\<lparr>d_moduleName := v\<rparr>"

definition d_setNamespaceName :: "zval \<Rightarrow> 'z dispatcher_scheme \<Rightarrow> 'z dispatcher_scheme" where
  "d_setNamespaceName v s = s\<lparr>d_namespaceName := v\<rparr>"

definition d_setHandlerName :: "zval \<Rightarrow> 'z dispatcher_scheme \<Rightarrow> 'z dispatcher_scheme" where
  "d_setHandlerName v s = s\<lparr>d_handlerName := v\<rparr>"

definition d_setActionName :: "zval \<Rightarrow> 'z dispatcher_scheme \<Rightarrow> 'z dispatcher_scheme" where
  "d_setActionName v s = s\<lparr>d_actionName := v\<rparr>"

definition d_setReturnedValue :: "zval \<Rightarrow> 'z dispatcher_scheme \<Rightarrow> 'z dispatcher_scheme" where
  "d_setReturnedValue v s = s\<lparr>d_returnedValue := v\<rparr>"

definition mvc_setControllerSuffix :: "zval \<Rightarrow> 'z dispatcher_scheme \<Rightarrow> 'z dispatcher_scheme" where
  "mvc_setControllerSuffix v s = s\<lparr>d_handlerSuffix := v\<rparr>"

definition mvc_setDefaultController :: "zval \<Rightarrow> 'z dispatcher_scheme \<Rightarrow> 'z dispatcher_scheme" where
  "mvc_setDefaultController v s = s\<lparr>d_defaultHandler := v\<rparr>"

definition d_setLogicBinding :: "zval \<Rightarrow> 'z dispatcher_scheme \<Rightarrow> 'z dispatcher_scheme" where
  "d_setLogicBinding v s = s\<lparr>d_logicBinding := ZBool (v = ZBool True)\<rparr>"

definition d_setFinished :: "zval \<Rightarrow> 'z dispatcher_scheme \<Rightarrow> 'z dispatcher_scheme" where
  "d_setFinished v s = s\<lparr>d_finished := ZBool (v = ZBool True)\<rparr>"

definition d_set_camelizeNamespace :: "zval \<Rightarrow> 'z dispatcher_scheme \<Rightarrow> 'z dispatcher_scheme" where
  "d_set_camelizeNamespace v s = s\<lparr>d_camelizeNamespace := ZBool (v = ZBool True)\<rparr>"

definition d_set_camelizeController :: "zval \<Rightarrow> 'z dispatcher_scheme \<Rightarrow> 'z dispatcher_scheme" where
  "d_set_camelizeController v s = s\<lparr>d_camelizeController := ZBool (v = ZBool True)\<rparr>"

definition d_setParams :: "zval \<Rightarrow> 'z dispatcher_scheme \<Rightarrow> 'z dispatcher_scheme" where
  "d_setParams v s = s\<lparr>d_params := v, d_params_pos := 0\<rparr>"

text \<open>The next free integer key of an array.\<close>

definition next_key :: "(zkey \<times> zval) list \<Rightarrow> u64" where
  "next_key xs = fold (\<lambda>(k, _) m. case k of KInt n \<Rightarrow> if 0 \<le>s n \<and> m \<le> n then n + 1 else m | KStr _ \<Rightarrow> m) xs 0"

text \<open>\<open>dao_update_property_array\<close>: what is not an array becomes one; keys that are neither strings, integers nor \<open>null\<close> are ignored.\<close>

definition update_array :: "zval \<Rightarrow> zval \<Rightarrow> zval \<Rightarrow> zval" where
  "update_array prop index v =
     (let xs = (case prop of ZArr xs \<Rightarrow> xs | _ \<Rightarrow> [])
      in case index of
           ZStr k \<Rightarrow> ZArr (arr_upd (key_of_str k) v xs)
         | ZLong n \<Rightarrow> ZArr (arr_upd (KInt n) v xs)
         | ZNull \<Rightarrow> ZArr (xs @ [(KInt (next_key xs), v)])
         | _ \<Rightarrow> ZArr xs)"

definition d_setParam :: "zval \<Rightarrow> zval \<Rightarrow> 'z dispatcher_scheme \<Rightarrow> 'z dispatcher_scheme" where
  "d_setParam param v s = s\<lparr>d_params := update_array (d_params s) param v\<rparr>"

definition array_fetch :: "zval \<Rightarrow> zval \<Rightarrow> zval option" where
  "array_fetch arr index =
     (case arr of ZArr xs \<Rightarrow> (case key_of index of Some k \<Rightarrow> map_of xs k | None \<Rightarrow> None) | _ \<Rightarrow> None)"

definition d_hasParam :: "zval \<Rightarrow> 'z dispatcher_scheme \<Rightarrow> bool" where
  "d_hasParam param s = (array_fetch (d_params s) param \<noteq> None)"

definition d_getActiveMethod :: "('z dispatcher_scheme) disp_env \<Rightarrow> 'z dispatcher_scheme \<Rightarrow> string" where
  "d_getActiveMethod env s = cat_str env (d_actionName s) @ cat_str env (d_actionSuffix s)"

definition d_setErrorHandler :: "zval \<Rightarrow> zval option \<Rightarrow> 'z dispatcher_scheme \<Rightarrow> 'z dispatcher_scheme" where
  "d_setErrorHandler h code s =
     s\<lparr>d_errorHandlers := update_array (d_errorHandlers s) (case code of None \<Rightarrow> ZLong 0 | Some c \<Rightarrow> c) h\<rparr>"

definition d_getErrorHandler :: "zval option \<Rightarrow> 'z dispatcher_scheme \<Rightarrow> zval" where
  "d_getErrorHandler code s =
     (case array_fetch (d_errorHandlers s) (case code of None \<Rightarrow> ZLong 0 | Some c \<Rightarrow> c) of Some h \<Rightarrow> h | None \<Rightarrow> ZNull)"

text \<open>
  The controller name of the subclass. An exact name is stored with a backslash in front; reading it moves the characters of the
  stored string itself one to the left, so its last character becomes the zero byte, and a second reading gives \<open>null\<close>.
\<close>

definition mvc_setControllerName :: "('z dispatcher_scheme) disp_env \<Rightarrow> zval \<Rightarrow> zval option \<Rightarrow> 'z dispatcher_scheme \<Rightarrow> 'z dispatcher_scheme" where
  "mvc_setControllerName env name is_exact s =
     (if (case is_exact of None \<Rightarrow> False | Some v \<Rightarrow> z_true v)
      then s\<lparr>d_handlerName := ZStr (backslash @ cat_str env name), d_isExactHandler := ZBool True\<rparr>
      else s\<lparr>d_handlerName := name, d_isExactHandler := ZBool False\<rparr>)"

definition mvc_getControllerName :: "'z dispatcher_scheme \<Rightarrow> 'z dispatcher_scheme \<times> zval" where
  "mvc_getControllerName s =
     (if \<not> z_true (d_isExactHandler s) then (s, d_handlerName s)
      else (case d_handlerName s of
              ZStr c \<Rightarrow> if length c > 1 \<and> hd c = CHR 0x5C
                         then (s\<lparr>d_handlerName := ZStr (tl c @ [NUL])\<rparr>, ZStr (tl c))
                         else (s, ZNull)
            | _ \<Rightarrow> (s, ZNull)))"

section \<open>Class names\<close>

definition camel_handler :: "bool \<Rightarrow> zval \<Rightarrow> zval" where
  "camel_handler camelize handler =
     (if \<not> dao_memnstr_str handler backslash then (if \<not> camelize then handler else dao_camelize handler)
      else if dao_start_with_str handler backslash then (case handler of ZStr h \<Rightarrow> ZStr (tl h) | _ \<Rightarrow> handler)
      else handler)"

definition d_class_name :: "('z dispatcher_scheme) disp_env \<Rightarrow> zval \<Rightarrow> zval \<Rightarrow> zval \<Rightarrow> zval \<Rightarrow> string" where
  "d_class_name env camelize_namespace namespace camelized suffix =
     (if z_true namespace then
        (let ns = (if \<not> z_true camelize_namespace then namespace else dao_camelize namespace)
         in if dao_end_with_str ns backslash then cat_str env ns @ cat_str env camelized @ cat_str env suffix
            else cat_str env ns @ backslash @ cat_str env camelized @ cat_str env suffix)
      else cat_str env camelized @ cat_str env suffix)"

text \<open>The defaults that stand for names that are not set.\<close>

definition default_namespace :: "'z dispatcher_scheme \<Rightarrow> 'z dispatcher_scheme" where
  "default_namespace s = (if z_true (d_namespaceName s) then s else s\<lparr>d_namespaceName := d_defaultNamespace s\<rparr>)"

definition default_handler :: "'z dispatcher_scheme \<Rightarrow> 'z dispatcher_scheme" where
  "default_handler s = (if z_true (d_handlerName s) then s else s\<lparr>d_handlerName := d_defaultHandler s\<rparr>)"

definition default_action :: "'z dispatcher_scheme \<Rightarrow> 'z dispatcher_scheme" where
  "default_action s = (if z_true (d_actionName s) then s else s\<lparr>d_actionName := d_defaultAction s\<rparr>)"

text \<open>\<open>getHandlerClass\<close> always converts the handler to camel case.\<close>

definition d_getHandlerClass :: "('z dispatcher_scheme) disp_env \<Rightarrow> 'z dispatcher_scheme \<Rightarrow> 'z dispatcher_scheme \<times> string" where
  "d_getHandlerClass env s =
     (let suffix = d_handlerSuffix s; s = default_handler (default_namespace s)
      in (s\<lparr>d_isExactHandler := ZBool False\<rparr>,
          d_class_name env (d_camelizeNamespace s) (d_namespaceName s) (camel_handler True (d_handlerName s)) suffix))"

section \<open>Forwarding\<close>

text \<open>
  The parts of \<open>forward\<close>'s argument. A string names a controller and an action, with a module in front that is not used; the
  namespace of a qualified controller is worked out and never stored, since the test before storing it looks at another variable.
  More than three parts change nothing.
\<close>

definition forward_controller :: "string \<Rightarrow> zval" where
  "forward_controller c =
     dao_uncamelize (if dao_memnstr_str (ZStr c) backslash then dao_get_class_ns c else ZStr c)"

definition forward_parts :: "zval \<Rightarrow> zval" where
  "forward_parts fwd =
     (case fwd of
        ZStr f \<Rightarrow>
          (case explode_loop ''::'' [] f of
             [c] \<Rightarrow> ZArr [(KStr ''controller'', forward_controller c)]
           | [c, a] \<Rightarrow> ZArr [(KStr ''controller'', forward_controller c), (KStr ''action'', ZStr a)]
           | [m, c, a] \<Rightarrow> ZArr [(KStr ''controller'', forward_controller c), (KStr ''action'', ZStr a)]
           | _ \<Rightarrow> ZArr [])
      | _ \<Rightarrow> fwd)"

definition save_previous :: "'z dispatcher_scheme \<Rightarrow> 'z dispatcher_scheme" where
  "save_previous s =
     s\<lparr>d_previousNamespaceName := d_namespaceName s, d_previousHandlerName := d_handlerName s,
       d_previousActionName := d_actionName s, d_previousParams := d_params s\<rparr>"

definition apply_parts :: "(zkey \<times> zval) list \<Rightarrow> 'z dispatcher_scheme \<Rightarrow> 'z dispatcher_scheme" where
  "apply_parts fp s =
     (let get = (\<lambda>k. map_of fp (KStr k));
          s = (case get ''namespace'' of Some v \<Rightarrow> s\<lparr>d_namespaceName := v\<rparr> | None \<Rightarrow> s);
          s = (case get ''controller'' of Some v \<Rightarrow> s\<lparr>d_handlerName := v\<rparr>
               | None \<Rightarrow> (case get ''task'' of Some v \<Rightarrow> s\<lparr>d_handlerName := v\<rparr> | None \<Rightarrow> s));
          s = (case get ''action'' of Some v \<Rightarrow> s\<lparr>d_actionName := v\<rparr> | None \<Rightarrow> s);
          s = (case get ''params'' of Some v \<Rightarrow> s\<lparr>d_params := v, d_params_pos := 0\<rparr> | None \<Rightarrow> s)
      in s\<lparr>d_finished := ZBool False, d_forwarded := ZBool True\<rparr>)"

definition forward_to :: "('z dispatcher_scheme) disp_env \<Rightarrow> zval \<Rightarrow> (zkey \<times> zval) list \<Rightarrow> 'z dispatcher_scheme \<Rightarrow> 'z dispatcher_scheme \<times> zval res" where
  "forward_to env fwd fp s =
     andthen (fire_plain env ''afterForward'' fwd (apply_parts fp (save_previous s))) (\<lambda>_ s. (s, Done ZNull))"

text \<open>Has the error handler changed where to go?\<close>

definition target_changed :: "('z dispatcher_scheme) disp_env \<Rightarrow> 'z dispatcher_scheme \<Rightarrow> bool" where
  "target_changed env s =
     (\<not> dao_is_equal (de_user env) (d_previousNamespaceName s) (d_namespaceName s) \<or>
      \<not> dao_is_equal (de_user env) (d_previousHandlerName s) (d_handlerName s) \<or>
      \<not> dao_is_equal (de_user env) (d_previousActionName s) (d_actionName s) \<or>
      \<not> dao_is_equal (de_user env) (d_previousParams s) (d_params s))"

definition dispatcher_exception :: string where
  "dispatcher_exception = ''Dao'' @ backslash @ ''Mvc'' @ backslash @ ''Dispatcher'' @ backslash @ ''Exception''"

text \<open>The exception itself, when no error handler took the error: a listener can still cancel it.\<close>

definition raise_dispatch :: "('z dispatcher_scheme) disp_env \<Rightarrow> string \<Rightarrow> nat \<Rightarrow> 'z dispatcher_scheme \<Rightarrow> 'z dispatcher_scheme \<times> zval res" where
  "raise_dispatch env msg code s =
     (case new_obj (ExnObj dispatcher_exception msg code) s of (n, s) \<Rightarrow>
        andthen (fire_cancel env ''beforeException'' (ZObj n) s)
          (\<lambda>status s. if status = ZBool False then (s, Done (ZBool False)) else (s, Raised (ZObj n))))"

text \<open>After the error handler has forwarded.\<close>

definition after_handler ::
  "('z dispatcher_scheme) disp_env \<Rightarrow> string \<Rightarrow> nat \<Rightarrow> 'z dispatcher_scheme \<times> zval res \<Rightarrow> 'z dispatcher_scheme \<times> zval res" where
  "after_handler env msg code r =
     andthen r (\<lambda>_ s. if target_changed env s then (s, Done (ZBool False)) else raise_dispatch env msg code s)"

text \<open>\<open>forward\<close>, with the \<open>_throwDispatchException\<close> it calls for what is neither a string nor an array written out.\<close>

partial_function (option) d_forward ::
  "('z dispatcher_scheme) disp_env \<Rightarrow> zval \<Rightarrow> 'z dispatcher_scheme \<Rightarrow> ('z dispatcher_scheme \<times> zval res) option" where
  "d_forward env fwd s =
     (case fire_plain env ''beforeForward'' fwd s of
        (s, Raised e) \<Rightarrow> Some (s, Raised e)
      | (s, Crashed) \<Rightarrow> Some (s, Crashed)
      | (s, Done _) \<Rightarrow>
          (case forward_parts fwd of
             ZArr fp \<Rightarrow> Some (forward_to env fwd fp s)
           | _ \<Rightarrow>
               (case array_fetch (d_errorHandlers s) (ZLong 16) of
                  None \<Rightarrow> Some (andthen (raise_dispatch env ''Forward parameter must be an Array'' 16 s) (\<lambda>_ s. (s, Done ZNull)))
                | Some h \<Rightarrow>
                    Option.bind (d_forward env h s)
                      (\<lambda>r. Some (andthen (after_handler env ''Forward parameter must be an Array'' 16 r) (\<lambda>_ s. (s, Done ZNull)))))))"

definition d_throwDispatchException ::
  "('z dispatcher_scheme) disp_env \<Rightarrow> string \<Rightarrow> nat \<Rightarrow> 'z dispatcher_scheme \<Rightarrow> ('z dispatcher_scheme \<times> zval res) option" where
  "d_throwDispatchException env msg code s =
     (case array_fetch (d_errorHandlers s) (ZLong (of_nat code)) of
        None \<Rightarrow> Some (raise_dispatch env msg code s)
      | Some h \<Rightarrow> map_option (after_handler env msg code) (d_forward env h s))"

definition d_handleException :: "('z dispatcher_scheme) disp_env \<Rightarrow> zval \<Rightarrow> 'z dispatcher_scheme \<Rightarrow> 'z dispatcher_scheme \<times> zval res" where
  "d_handleException env e s = fire_plain env ''beforeException'' e s"

text \<open>Sequencing where a call may not return.\<close>

definition then_opt :: "'s \<times> 'a res \<Rightarrow> ('a \<Rightarrow> 's \<Rightarrow> ('s \<times> 'b res) option) \<Rightarrow> ('s \<times> 'b res) option" where
  "then_opt r f = (case r of (s, Done a) \<Rightarrow> f a s | (s, Raised e) \<Rightarrow> Some (s, Raised e) | (s, Crashed) \<Rightarrow> Some (s, Crashed))"

text \<open>
  A parameter of an array of them, sanitized by the filter service when filters are given. Without a dependency injector the error may be
  handled by a forward, and the result is \<open>null\<close>.
\<close>

definition get_filtered ::
  "('z dispatcher_scheme) disp_env \<Rightarrow> zval \<Rightarrow> zval \<Rightarrow> zval option \<Rightarrow> zval option \<Rightarrow> 'z dispatcher_scheme \<Rightarrow> ('z dispatcher_scheme \<times> zval res) option" where
  "get_filtered env params param filters deflt s =
     (case array_fetch params param of
        Some v \<Rightarrow>
          (case filters of
             None \<Rightarrow> Some (s, Done v)
           | Some ZNull \<Rightarrow> Some (s, Done v)
           | Some fs \<Rightarrow>
               then_opt (inj_getDI (de_inj env) False False s)
                 (\<lambda>di s. case di of
                    ZObj di \<Rightarrow>
                      Some (andthen (ul_call (de_user env) di ''getshared'' [ZStr ''filter''] s)
                        (\<lambda>flt s. case flt of
                           ZObj f \<Rightarrow> if de_is_filter env f then ul_call (de_user env) f ''sanitize'' [v, fs] s
                             else throw_new ''LogicException'' (verify_message (de_inj env) (''Dao'' @ backslash @ ''FilterInterface'') flt) 0 s
                         | _ \<Rightarrow> throw_new ''LogicException'' (verify_message (de_inj env) (''Dao'' @ backslash @ ''FilterInterface'') flt) 0 s))
                  | _ \<Rightarrow>
                      Option.bind (d_throwDispatchException env
                          (''A dependency injection object is required to access the '' @ [CHR 0x27] @ ''filter'' @ [CHR 0x27] @ '' service'') 1 s)
                        (\<lambda>r. Some (andthen r (\<lambda>_ s. (s, Done ZNull))))))
      | None \<Rightarrow> Some (s, Done (case deflt of Some v \<Rightarrow> v | None \<Rightarrow> ZNull)))"

definition d_getParam ::
  "('z dispatcher_scheme) disp_env \<Rightarrow> zval \<Rightarrow> zval option \<Rightarrow> zval option \<Rightarrow> 'z dispatcher_scheme \<Rightarrow> ('z dispatcher_scheme \<times> zval res) option" where
  "d_getParam env param filters deflt s = get_filtered env (d_params s) param filters deflt s"

definition d_getPreviousParam ::
  "('z dispatcher_scheme) disp_env \<Rightarrow> zval \<Rightarrow> zval option \<Rightarrow> zval option \<Rightarrow> 'z dispatcher_scheme \<Rightarrow> ('z dispatcher_scheme \<times> zval res) option" where
  "d_getPreviousParam env param filters deflt s = get_filtered env (d_previousParams s) param filters deflt s"

section \<open>Logic binding\<close>

text \<open>
  The arguments of the action from the parameters of the method: a logic object for a type that is a logic class, the parameter of the same
  name or number, or the one the internal pointer of the array stands on. The key of that one is read with \<open>dao_array_get_key\<close>,
  which always gives \<open>false\<close>, so what is removed from the rest is the parameter with the number 0. A type that is no class crashes.
\<close>

record binding =
  b_pos :: nat
  b_count :: nat
  b_params :: "(zkey \<times> zval) list"
  b_rest :: "(zkey \<times> zval) list"

definition arr_unset :: "zkey \<Rightarrow> (zkey \<times> zval) list \<Rightarrow> (zkey \<times> zval) list" where
  "arr_unset k xs = filter (\<lambda>(k', _). k' \<noteq> k) xs"

definition bind_put :: "zkey \<Rightarrow> zval \<Rightarrow> zkey \<Rightarrow> binding \<Rightarrow> binding" where
  "bind_put k v gone b = b\<lparr>b_params := arr_upd k v (b_params b), b_rest := arr_unset gone (b_rest b)\<rparr>"

definition bind_value :: "(zkey \<times> zval) list \<Rightarrow> nat \<Rightarrow> string \<Rightarrow> binding \<Rightarrow> binding" where
  "bind_value aps i name b =
     (case map_of aps (key_of_str name) of
        Some v \<Rightarrow> bind_put (key_of_str name) v (key_of_str name) b
      | None \<Rightarrow>
          (case map_of aps (KInt (of_nat i)) of
             Some v \<Rightarrow> bind_put (KInt (of_nat i)) v (KInt (of_nat i)) b
           | None \<Rightarrow>
               if b_count b > 0 then
                 bind_put (KInt (of_nat i)) (if b_pos b < length aps then snd (aps ! b_pos b) else ZBool False) (KInt 0) b
               else b))"

definition bind_step :: "binding \<Rightarrow> binding" where
  "bind_step b = (if b_count b > 0 then b\<lparr>b_pos := Suc (b_pos b), b_count := b_count b - 1\<rparr> else b)"

definition bind_logic ::
  "('z dispatcher_scheme) disp_env \<Rightarrow> string \<Rightarrow> zval \<Rightarrow> zval \<Rightarrow> nat \<Rightarrow> binding \<Rightarrow> 'z dispatcher_scheme \<Rightarrow> 'z dispatcher_scheme \<times> binding res" where
  "bind_logic env cls action_name action_params i b s =
     andthen (ie_static (de_inj env) cls ''call'' [action_name, action_params] s)
       (\<lambda>logic s.
          (let b = b\<lparr>b_params := arr_upd (KInt (of_nat i)) logic (b_params b)\<rparr> in
           case logic of
             ZObj n \<Rightarrow> if ul_method (de_user env) n ''start'' then andthen (ul_call (de_user env) n ''start'' [] s) (\<lambda>_ s. (s, Done b)) else (s, Done b)
           | _ \<Rightarrow> (s, Done b)))"

fun bind_loop ::
  "('z dispatcher_scheme) disp_env \<Rightarrow> zval \<Rightarrow> (zkey \<times> zval) list \<Rightarrow> nat \<Rightarrow> (string option \<times> string) list \<Rightarrow> binding \<Rightarrow> 'z dispatcher_scheme \<Rightarrow> 'z dispatcher_scheme \<times> binding res" where
  "bind_loop env action_name aps i [] b s = (s, Done b)"
| "bind_loop env action_name aps i ((ty, name) # ps) b s =
     andthen
       (case ty of
          None \<Rightarrow> (s, Done (bind_value aps i name b))
        | Some cls \<Rightarrow>
            (case de_logic_class env cls of
               None \<Rightarrow> (s, Crashed)
             | Some False \<Rightarrow> (s, Done b)
             | Some True \<Rightarrow> bind_logic env cls action_name (ZArr aps) i b s))
       (\<lambda>b s. bind_loop env action_name aps (Suc i) ps (bind_step b) s)"

text \<open>What is left of the parameters follows.\<close>

definition append_values :: "(zkey \<times> zval) list \<Rightarrow> (zkey \<times> zval) list \<Rightarrow> (zkey \<times> zval) list" where
  "append_values xs rest = fold (\<lambda>(_, v) xs. xs @ [(KInt (next_key xs), v)]) rest xs"

definition d_bind ::
  "('z dispatcher_scheme) disp_env \<Rightarrow> nat \<Rightarrow> string \<Rightarrow> zval \<Rightarrow> (zkey \<times> zval) list \<Rightarrow> 'z dispatcher_scheme \<Rightarrow> 'z dispatcher_scheme \<times> (zkey \<times> zval) list res" where
  "d_bind env handler action_method action_name aps s =
     (if z_true (d_logicBinding s) then
        andthen (bind_loop env action_name aps 0 (de_parameters env handler action_method)
                   \<lparr>b_pos = d_params_pos s, b_count = length aps, b_params = [], b_rest = aps\<rparr> s)
          (\<lambda>b s. (s\<lparr>d_params_pos := b_pos b\<rparr>, Done (append_values (b_params b) (b_rest b))))
      else (s, Done aps))"

text \<open>The logic objects among the arguments are told when the action is over.\<close>

fun bind_finish :: "('z dispatcher_scheme) disp_env \<Rightarrow> (zkey \<times> zval) list \<Rightarrow> 'z dispatcher_scheme \<Rightarrow> 'z dispatcher_scheme \<times> unit res" where
  "bind_finish env [] s = (s, Done ())"
| "bind_finish env ((k, v) # xs) s =
     andthen
       (case v of
          ZObj n \<Rightarrow> if de_logic env n \<and> ul_method (de_user env) n ''finish'' then andthen (ul_call (de_user env) n ''finish'' [] s) (\<lambda>_ s. (s, Done ()))
                    else (s, Done ())
        | _ \<Rightarrow> (s, Done ()))
       (\<lambda>_ s. bind_finish env xs s)"

section \<open>A round\<close>

text \<open>A round goes on with the next one or leaves the loop, each with the handler that was got last.\<close>

datatype round = Again zval | Leave zval

text \<open>An event of the loop, fired only when there is an events manager: a veto or a forward in a listener ends the round.\<close>

definition round_event ::
  "('z dispatcher_scheme) disp_env \<Rightarrow> zval \<Rightarrow> string \<Rightarrow> zval \<Rightarrow> ('z dispatcher_scheme \<Rightarrow> ('z dispatcher_scheme \<times> round res) option) \<Rightarrow>
   'z dispatcher_scheme \<Rightarrow> ('z dispatcher_scheme \<times> round res) option" where
  "round_event env em name h k s =
     (if is_obj em then
        then_opt (fire_cancel env name ZNull s)
          (\<lambda>status s. if status = ZBool False \<or> d_finished s = ZBool False then Some (s, Done (Again h)) else k s)
      else k s)"

text \<open>An error: the loop goes on when the error handler, or a listener that cancels the exception, has forwarded.\<close>

definition round_error ::
  "('z dispatcher_scheme) disp_env \<Rightarrow> string \<Rightarrow> nat \<Rightarrow> zval \<Rightarrow> 'z dispatcher_scheme \<Rightarrow> ('z dispatcher_scheme \<times> round res) option" where
  "round_error env msg code h s =
     Option.bind (d_throwDispatchException env msg code s)
       (\<lambda>r. then_opt r (\<lambda>status s. Some (s, Done (if status = ZBool False \<and> d_finished s = ZBool False then Again h else Leave h))))"

text \<open>After the action: two events, and the method \<open>afterExecuteRoute\<close> of the handler.\<close>

definition round_after ::
  "('z dispatcher_scheme) disp_env \<Rightarrow> zval \<Rightarrow> nat \<Rightarrow> zval \<Rightarrow> 'z dispatcher_scheme \<Rightarrow> ('z dispatcher_scheme \<times> round res) option" where
  "round_after env em n value s =
     (let hook = (\<lambda>s. if ul_method (de_user env) n ''afterexecuteroute'' then
                        then_opt (ul_call (de_user env) n ''afterexecuteroute'' [ZObj (i_self s), value] s) (\<lambda>_ s. Some (s, Done (Again (ZObj n))))
                      else Some (s, Done (Again (ZObj n))))
      in if is_obj em then
           then_opt (fire_plain env ''afterExecuteRoute'' ZNull s)
             (\<lambda>_ s. if d_finished s = ZBool False then Some (s, Done (Again (ZObj n)))
                else then_opt (fire_plain env ''afterDispatch'' ZNull s) (\<lambda>_ s. hook s))
         else hook s)"

text \<open>
  The action: its exception is copied and offered to the listeners; one that is no \<open>ContinueException\<close> is thrown again unless a listener
  answered \<open>false\<close>, and then a forward goes on at once. \<open>exit\<close> in an action is an exception too and ends the dispatch.
\<close>

definition round_call ::
  "('z dispatcher_scheme) disp_env \<Rightarrow> bool \<Rightarrow> zval \<Rightarrow> nat \<Rightarrow> string \<Rightarrow> (zkey \<times> zval) list \<Rightarrow> 'z dispatcher_scheme \<Rightarrow> ('z dispatcher_scheme \<times> round res) option" where
  "round_call env binding em n method args s =
     (let go_on = (\<lambda>value s. then_opt (if binding then bind_finish env args s else (s, Done ()))
                     (\<lambda>_ s. round_after env em n value s))
      in case de_action env n method args s of
           (s, Crashed) \<Rightarrow> Some (s, Crashed)
         | (s, Done value) \<Rightarrow> go_on value (s\<lparr>d_returnedValue := value, d_lastHandler := ZObj n\<rparr>)
         | (s, Raised (ZObj x)) \<Rightarrow>
             if de_unwind env x then Some (s, Raised (ZObj x))
             else (case de_clone env x s of (s, x) \<Rightarrow>
               then_opt (d_handleException env (ZObj x) (s\<lparr>d_lastException := ZObj x\<rparr>))
                 (\<lambda>status s.
                    if \<not> de_continue env x \<and> status \<noteq> ZBool False then Some (s, Raised (ZObj x))
                    else if \<not> de_continue env x \<and> d_finished s = ZBool False then Some (s, Done (Again (ZObj n)))
                    else go_on ZNull (s\<lparr>d_lastHandler := ZObj n\<rparr>)))
         | (s, Raised _) \<Rightarrow> Some (s, Crashed))"

definition round_execute ::
  "('z dispatcher_scheme) disp_env \<Rightarrow> zval \<Rightarrow> nat \<Rightarrow> string \<Rightarrow> zval \<Rightarrow> 'z dispatcher_scheme \<Rightarrow> ('z dispatcher_scheme \<times> round res) option" where
  "round_execute env em n method action_name s =
     (case d_params s of
        ZArr aps \<Rightarrow> then_opt (d_bind env n method action_name aps s) (\<lambda>args. round_call env (z_true (d_logicBinding s)) em n method args)
      | _ \<Rightarrow> round_error env ''Action parameters must be an Array'' 16 (ZObj n) s)"

text \<open>
  A fresh handler is initialised. A \<open>ContinueException\<close> of its \<open>initialize\<close> leaves out the action; any other exception ends the dispatch.
\<close>

definition round_initialize ::
  "('z dispatcher_scheme) disp_env \<Rightarrow> zval \<Rightarrow> nat \<Rightarrow> bool \<Rightarrow> string \<Rightarrow> zval \<Rightarrow> 'z dispatcher_scheme \<Rightarrow> ('z dispatcher_scheme \<times> round res) option" where
  "round_initialize env em n fresh method action_name s =
     (if \<not> fresh then round_execute env em n method action_name s
      else round_event env em ''beforeInitialize'' (ZObj n)
        (\<lambda>s. if \<not> ul_method (de_user env) n ''initialize''
             then round_event env em ''afterInitialize'' (ZObj n) (round_execute env em n method action_name) s
             else (case ul_call (de_user env) n ''initialize'' [] s of
                     (s, Crashed) \<Rightarrow> Some (s, Crashed)
                   | (s, Done _) \<Rightarrow> round_event env em ''afterInitialize'' (ZObj n) (round_execute env em n method action_name) s
                   | (s, Raised (ZObj x)) \<Rightarrow>
                       if \<not> de_continue env x then Some (s, Raised (ZObj x))
                       else (case de_clone env x s of (s, x) \<Rightarrow>
                         round_event env em ''afterInitialize'' (ZObj n) (\<lambda>s. round_after env em n ZNull (s\<lparr>d_lastHandler := ZObj n\<rparr>))
                           (s\<lparr>d_lastException := ZObj x\<rparr>))
                   | (s, Raised _) \<Rightarrow> Some (s, Crashed)))
        s)"

definition round_hook ::
  "('z dispatcher_scheme) disp_env \<Rightarrow> nat \<Rightarrow> ('z dispatcher_scheme \<Rightarrow> ('z dispatcher_scheme \<times> round res) option) \<Rightarrow>
   'z dispatcher_scheme \<Rightarrow> ('z dispatcher_scheme \<times> round res) option" where
  "round_hook env n k s =
     (if ul_method (de_user env) n ''beforeexecuteroute'' then
        then_opt (ul_call (de_user env) n ''beforeexecuteroute'' [ZObj (i_self s)] s)
          (\<lambda>status s. if d_finished s = ZBool False then Some (s, Done (Again (ZObj n)))
             else if status = ZBool False then Some (s, Done (Leave (ZObj n)))
             else k s)
      else k s)"

text \<open>The method of the action must exist; the names are those read at the start of the round.\<close>

definition round_method ::
  "('z dispatcher_scheme) disp_env \<Rightarrow> zval \<Rightarrow> nat \<Rightarrow> bool \<Rightarrow> zval \<Rightarrow> zval \<Rightarrow> zval \<Rightarrow> 'z dispatcher_scheme \<Rightarrow> ('z dispatcher_scheme \<times> round res) option" where
  "round_method env em n fresh handler_name action_name action_suffix s =
     (let method = cat_str env action_name @ cat_str env action_suffix in
      if \<not> ul_method (de_user env) n (dao_fast_strtolower method) then
        round_event env em ''beforeNotFoundAction'' (ZObj n)
          (round_error env (''Action '' @ [CHR 0x27] @ cat_str env action_name @ [CHR 0x27] @ '' was not found on handler '' @
             [CHR 0x27] @ cat_str env handler_name @ [CHR 0x27]) 32 (ZObj n)) s
      else round_event env em ''beforeExecuteRoute'' (ZObj n)
        (round_hook env n (round_initialize env em n fresh method action_name)) s)"

text \<open>The class of the handler: a service of the container, or a class that can be loaded.\<close>

definition round_load ::
  "('z dispatcher_scheme) disp_env \<Rightarrow> zval \<Rightarrow> nat \<Rightarrow> zval \<Rightarrow> zval \<times> zval \<Rightarrow> zval \<Rightarrow> zval \<Rightarrow> zval \<Rightarrow> 'z dispatcher_scheme \<Rightarrow> ('z dispatcher_scheme \<times> round res) option" where
  "round_load env em di h suffixes namespace handler_name action_name s =
     (let cls = d_class_name env (d_camelizeNamespace s) namespace (camel_handler (z_true (d_camelizeController s)) handler_name) (fst suffixes)
      in then_opt
           (andthen (ul_call (de_user env) di ''has'' [ZStr cls] s)
              (\<lambda>has s. if z_true has then (s, Done True) else de_class_exists env cls s))
           (\<lambda>found s.
              if \<not> found then round_error env (cls @ '' handler class cannot be loaded'') 4 h s
              else then_opt (ul_call (de_user env) di ''getshared'' [ZStr cls] s)
                (\<lambda>handler s. case handler of
                   ZObj n \<Rightarrow>
                     then_opt (ul_call (de_user env) di ''wasfreshinstance'' [] s)
                       (\<lambda>fresh s. round_method env em n (fresh = ZBool True) handler_name action_name (snd suffixes) (s\<lparr>d_activeHandler := handler\<rparr>))
                 | _ \<Rightarrow> round_error env ''Invalid handler returned from the services container'' 8 handler s)))"

definition d_round ::
  "('z dispatcher_scheme) disp_env \<Rightarrow> zval \<Rightarrow> nat \<Rightarrow> zval \<times> zval \<Rightarrow> zval \<Rightarrow> 'z dispatcher_scheme \<Rightarrow> ('z dispatcher_scheme \<times> round res) option" where
  "d_round env em di suffixes h s =
     (let s = default_action (default_handler (default_namespace (s\<lparr>d_finished := ZBool True\<rparr>)))
      in round_event env em ''beforeDispatch'' h
           (round_load env em di h suffixes (d_namespaceName s) (d_handlerName s) (d_actionName s)) s)"

section \<open>The loop\<close>

definition max_dispatches :: nat where "max_dispatches = 256"

text \<open>The loop counts the rounds and gives up in the last one.\<close>

partial_function (option) d_loop ::
  "('z dispatcher_scheme) disp_env \<Rightarrow> zval \<Rightarrow> nat \<Rightarrow> zval \<times> zval \<Rightarrow> nat \<Rightarrow> zval \<Rightarrow> 'z dispatcher_scheme \<Rightarrow> ('z dispatcher_scheme \<times> zval res) option" where
  "d_loop env em di suffixes n h s =
     (if z_true (d_finished s) then Some (s, Done h)
      else if Suc n = max_dispatches then
        Option.bind (d_throwDispatchException env ''Dispatcher has detected a cyclic routing causing stability problems'' 2 s)
          (\<lambda>r. Some (andthen r (\<lambda>_ s. (s, Done h))))
      else
        Option.bind (d_round env em di suffixes h s)
          (\<lambda>r. case r of (s, Raised e) \<Rightarrow> Some (s, Raised e) | (s, Crashed) \<Rightarrow> Some (s, Crashed)
             | (s, Done v) \<Rightarrow>
                 (case v of Leave h \<Rightarrow> Some (s, Done h)
                  | Again h \<Rightarrow> if Suc n \<le> max_dispatches then d_loop env em di suffixes (Suc n) h s else Some (s, Done h))))"

definition d_dispatch :: "('z dispatcher_scheme) disp_env \<Rightarrow> 'z dispatcher_scheme \<Rightarrow> ('z dispatcher_scheme \<times> zval res) option" where
  "d_dispatch env s =
     then_opt (inj_getDI (de_inj env) False False s)
       (\<lambda>di s. case di of
          ZObj di \<Rightarrow>
            then_opt (andthen (inj_getEventsManager (de_inj env) s)
                        (\<lambda>em s. andthen (fire_cancel env ''beforeDispatchLoop'' ZNull s) (\<lambda>status s. (s, Done (em, status)))))
              (\<lambda>(em, status) s.
                 if status = ZBool False then Some (s, Done (ZBool False))
                 else Option.bind (d_loop env em di (d_handlerSuffix s, d_actionSuffix s) 0 ZNull (s\<lparr>d_finished := ZBool False\<rparr>))
                   (\<lambda>r. Some (andthen r (\<lambda>h s. andthen (fire_plain env ''afterDispatchLoop'' ZNull s) (\<lambda>_ s. (s, Done h))))))
        | _ \<Rightarrow>
            Option.bind (d_throwDispatchException env ''A dependency injection container is required to access related dispatching services'' 1 s)
              (\<lambda>r. Some (andthen r (\<lambda>_ s. (s, Done ZNull)))))"

end
