(* ===== verification/EventsSpec.thy ===== *)
theory EventsSpec imports Events "HOL-Library.Multiset" begin

text \<open>
  What the events manager guarantees: the relations on states that it keeps when user code keeps them (\<open>event_frame\<close>),
  the types of its tables along any run, the lists of listeners it stands for, and the order of priorities.
\<close>

section \<open>Relations that firing keeps\<close>

text \<open>
  Firing an event makes a new event or exception, changes events, the current event and the responses, and calls user code. A
  preorder that allows the first is kept by the whole call when the calls of user code keep it.
\<close>

locale event_frame =
  fixes R :: "'z evworld_scheme \<Rightarrow> 'z evworld_scheme \<Rightarrow> bool"
  assumes refl: "R s s"
    and trans: "R s t \<Longrightarrow> R t u \<Longrightarrow> R s u"
    and fresh: "the_listener (Some ob) = None \<Longrightarrow> R s (s\<lparr>o_heap := (o_heap s)(o_next s \<mapsto> ob), o_next := Suc (o_next s)\<rparr>)"
    and event: "the_event (o_heap s n) \<noteq> None \<Longrightarrow> R s (s\<lparr>o_heap := (o_heap s)(n \<mapsto> EventObj e)\<rparr>)"
    and current: "R s (s\<lparr>em_currentEvent := v\<rparr>)"
    and responses: "R s (s\<lparr>em_responses := v\<rparr>)"
begin

definition keeps :: "('z evworld_scheme \<Rightarrow> 'z evworld_scheme \<times> 'b) \<Rightarrow> bool" where
  "keeps f = (\<forall>s. R s (fst (f s)))"

lemma keepsD: "keeps f \<Longrightarrow> R s (fst (f s))"
  by (simp add: keeps_def)

lemma keeps_andthen:
  assumes "R s0 (fst r)" "\<And>a. keeps (g a)"
  shows "R s0 (fst (andthen r g))"
proof -
  obtain s v where r: "r = (s, v)" by (cases r)
  show ?thesis
  proof (cases v)
    case (Done a)
    have "R s0 s" "R s (fst (g a s))" using assms by (simp_all add: r keeps_def)
    then show ?thesis using Done trans by (auto simp: r)
  qed (use assms in \<open>simp_all add: r\<close>)
qed

lemma keeps_throw: "R s (fst (throw_new c m k s))"
  by (simp add: throw_new_def new_obj_def fresh)

lemma keeps_event_upd: "R s (event_upd f n s)"
  by (auto simp: event_upd_def refl event split: option.splits)

lemma keeps_answer: "keeps (em_answer ev flag collect cancelable status)"
  by (simp add: keeps_def em_answer_def Let_def refl responses)

lemma keeps_then: "keeps f \<Longrightarrow> (\<And>a. keeps (g a)) \<Longrightarrow> keeps (\<lambda>s. andthen (f s) g)"
  by (simp add: keeps_def keeps_andthen)

lemma keeps_new_event: "the_listener (Some ob) = None \<Longrightarrow> R s (snd (new_obj ob s))"
  by (simp add: new_obj_def fresh)

lemma keeps_create: "keeps (em_createEvent t src d c f)"
proof (unfold keeps_def, intro allI)
  fix s :: "'z evworld_scheme"
  show "R s (fst (em_createEvent t src d c f s))"
    using trans [OF keeps_new_event keeps_event_upd]
    by (auto simp: em_createEvent_def Let_def keeps_throw event_setName_def split: prod.splits)
       (metis snd_conv the_listener.simps(3))
qed

lemma keeps_handler:
  assumes "\<And>n m as. keeps (ul_call ul n m as)"
  shows "keeps (em_handler ul embedded)"
proof -
  have "keeps (\<lambda>s. andthen (ul_call ul n ''get'' [] s) (\<lambda>h s. case h of ZObj m \<Rightarrow> (s, Done (Some m)) | _ \<Rightarrow> (s, Crashed)))" for n
    by (intro keeps_then assms) (auto simp: keeps_def refl split: zval.splits)
  then have "keeps (\<lambda>s. andthen (ul_call ul n ''valid'' [] s) (\<lambda>valid s. if z_true valid then
      andthen (ul_call ul n ''get'' [] s) (\<lambda>h s. case h of ZObj m \<Rightarrow> (s, Done (Some m)) | _ \<Rightarrow> (s, Crashed)) else (s, Done None)))" for n
    by (intro keeps_then assms) (simp add: keeps_def refl)
  then show ?thesis by (auto simp: em_handler_def keeps_def refl split: zval.splits)
qed

lemma keeps_notify:
  assumes "\<And>n m as. keeps (ul_call ul n m as)"
  shows "keeps (em_notify ul ev name e flag collect l status)"
proof (unfold keeps_def, intro allI)
  fix s :: "'z evworld_scheme"
  have "keeps (\<lambda>s. case em_invoke ul h name as of None \<Rightarrow> (s, Done (Next status))
      | Some call \<Rightarrow> andthen (call s) (em_answer ev flag collect c))" for h as c
    using assms by (auto simp: em_invoke_def keeps_def refl intro!: keeps_andthen keeps_answer [unfolded keeps_def, rule_format])
  then show "R s (fst (em_notify ul ev name e flag collect l status s))"
    unfolding em_notify_def
    by (intro keeps_andthen keepsD [OF keeps_handler [OF assms]])
       (auto simp: keeps_def refl split: option.splits)
qed

lemma keeps_notify_all:
  assumes "\<And>n m as. keeps (ul_call ul n m as)"
  shows "keeps (em_notify_all ul ev name e flag collect ls status)"
proof (induction ls arbitrary: status)
  case (Cons l ls)
  show ?case unfolding em_notify_all.simps
    by (intro keeps_then keeps_notify assms) (use Cons in \<open>auto simp: keeps_def refl split: verdict.splits\<close>)
qed (simp add: keeps_def refl)

lemma keeps_fireQueue:
  assumes "\<And>n m as. keeps (ul_call ul n m as)"
  shows "keeps (em_fireQueue ul q event flag)"
  using keepsD [OF keeps_notify_all [OF assms]]
  by (auto simp: keeps_def em_fireQueue_def spl_top_exception_def Let_def keeps_throw split: zval.splits option.splits equeue.splits)

lemma keeps_fire_key:
  assumes "\<And>n m as. keeps (ul_call ul n m as)"
  shows "keeps (em_fire_key ul key ev flag status)"
proof (unfold keeps_def, intro allI)
  fix s :: "'z evworld_scheme"
  have "R s (fst (andthen (em_fireQueue ul q (ZObj ev) None s) (\<lambda>st s. (s, Done (if flag \<and> st = ZBool False then Halt st else Next st)))))" for q
    by (intro keeps_andthen keepsD [OF keeps_fireQueue [OF assms]]) (simp add: keeps_def refl)
  then show "R s (fst (em_fire_key ul key ev flag status s))"
    by (auto simp: em_fire_key_def refl split: option.splits)
qed

lemma keeps_verdict:
  assumes "R s0 (fst r)" "\<And>a. keeps (g a)"
  shows "R s0 (fst (verdict_then r g))"
  unfolding verdict_then_def
  by (intro keeps_andthen assms) (use assms in \<open>auto simp: keeps_def refl split: verdict.splits\<close>)

lemma keeps_fire_event:
  assumes "\<And>n m as. keeps (ul_call ul n m as)"
  shows "keeps (em_fire_event ul name type ev flag)"
proof (unfold keeps_def, intro allI)
  fix s :: "'z evworld_scheme"
  define s1 where "s1 = s\<lparr>em_currentEvent := ZObj ev\<rparr>"
  define s2 where "s2 = (if z_true (em_collect s1) then s1\<lparr>em_responses := ZNull\<rparr> else s1)"
  have "R s s1" "R s1 s2" by (simp_all add: s1_def s2_def current responses refl)
  then have s2: "R s s2" by (rule trans)
  let ?r = "andthen (verdict_then (verdict_then (em_fire_key ul (Some (KStr ''*'')) ev flag ZNull s2)
       (em_fire_key ul (key_of name) ev flag)) (em_fire_key ul (key_of type) ev flag)) (\<lambda>v s. (s, Done (verdict_status v)))"
  have "R s2 (fst ?r)"
    by (intro keeps_andthen keeps_verdict keepsD [OF keeps_fire_key [OF assms]] keeps_fire_key [OF assms]) (simp add: keeps_def refl)
  then have "R s (fst ?r)" by (rule trans [OF s2])
  moreover have "em_fire_event ul name type ev flag s = (if em_events s1 = None then (s1, Done ZNull) else ?r)"
    by (simp only: em_fire_event_def Let_def s1_def s2_def)
  ultimately show "R s (fst (em_fire_event ul name type ev flag s))"
    using \<open>R s s1\<close> by (simp only: fst_conv simp_thms split: if_split)
qed

lemma keeps_fire:
  assumes "\<And>n m as. keeps (ul_call ul n m as)"
  shows "keeps (em_fire ul t src d c f)"
proof (unfold keeps_def, intro allI)
  fix s :: "'z evworld_scheme"
  have "keeps (\<lambda>s. case the_event (o_heap s ev) of Some e \<Rightarrow> em_fire_event ul (ev_name e) ty ev fl s | None \<Rightarrow> (s, Crashed))" for ev ty fl
    using keepsD [OF keeps_fire_event [OF assms]] by (auto simp: keeps_def refl split: option.splits)
  then have "R s (fst (andthen (em_createEvent t' src d c' f' s)
      (\<lambda>ev s. case the_event (o_heap s ev) of Some e \<Rightarrow> em_fire_event ul (ev_name e) (ZStr t') ev fl s | None \<Rightarrow> (s, Crashed))))" for t' c' f' fl
    by (intro keeps_andthen keepsD [OF keeps_create])
  then show "R s (fst (em_fire ul t src d c f s))"
    using keepsD [OF keeps_fire_event [OF assms]]
    by (auto simp: em_fire_def Let_def keeps_throw split: zval.splits option.splits)
qed

end

section \<open>Runs of the manager\<close>

datatype em_cmd =
    CAttach string zval "zval option"
  | CDetach string zval
  | CDetachAll "string option"
  | CFire zval zval "zval option" "zval option" "zval option"
  | CPriorities zval
  | CCollect zval

fun em_exec :: "('z evworld_scheme) userland \<Rightarrow> em_cmd \<Rightarrow> 'z evworld_scheme \<Rightarrow> 'z evworld_scheme" where
  "em_exec ul (CAttach t h p) s = fst (em_attach ul t h p s)"
| "em_exec ul (CDetach t h) s = fst (em_detach ul t h s)"
| "em_exec ul (CDetachAll t) s = em_detachAll t s"
| "em_exec ul (CFire t src d c f) s = fst (em_fire ul t src d c f s)"
| "em_exec ul (CPriorities v) s = em_set_priorities v s"
| "em_exec ul (CCollect v) s = em_set_collect v s"

definition em_run :: "('z evworld_scheme) userland \<Rightarrow> em_cmd list \<Rightarrow> 'z evworld_scheme \<Rightarrow> 'z evworld_scheme" where
  "em_run ul cs s = fold (em_exec ul) cs s"

section \<open>Types of the tables\<close>

fun queue_ids :: "equeue \<Rightarrow> nat list" where
  "queue_ids (Plain ls) = ls"
| "queue_ids (Prio es) = map snd es"

text \<open>The keys are distinct names of events in the form \<open>attach\<close> gives them, the queues hold listener objects only.\<close>

definition listener_at :: "'z evworld_scheme \<Rightarrow> nat \<Rightarrow> bool" where
  "listener_at s l = (the_listener (o_heap s l) \<noteq> None)"

lemma listener_at_simps [simp]:
  "listener_at (s\<lparr>em_events := x\<rparr>) = listener_at s"
  by (simp add: listener_at_def fun_eq_iff)

definition heap_typed :: "'z evworld_scheme \<Rightarrow> bool" where
  "heap_typed s = (\<forall>n. o_next s \<le> n \<longrightarrow> o_heap s n = None)"

definition queues_typed :: "'z evworld_scheme \<Rightarrow> (zkey \<times> equeue) list \<Rightarrow> bool" where
  "queues_typed s es =
     (distinct (map fst es) \<and>
      (\<forall>k q. (k, q) \<in> set es \<longrightarrow>
         (\<exists>t. k = key_of_str t \<and> attach_event t = t) \<and> (\<forall>l\<in>set (queue_ids q). listener_at s l)))"

definition em_typed :: "'z evworld_scheme \<Rightarrow> bool" where
  "em_typed s = (heap_typed s \<and> (\<forall>es. em_events s = Some es \<longrightarrow> queues_typed s es))"

text \<open>What PHP documents of \<open>SplPriorityQueue::insert\<close>: the entry is put in, the highest priority comes first.\<close>

definition spl_adds :: "'s userland \<Rightarrow> bool" where
  "spl_adds ul = (\<forall>p l q. mset (ul_spl_insert ul p l q) = add_mset (p, l) (mset q))"

lemma spl_adds_set: "spl_adds ul \<Longrightarrow> set (ul_spl_insert ul p l q) = insert (p, l) (set q)"
  by (metis spl_adds_def set_mset_mset set_mset_add_mset_insert)

lemma queues_typed_heap:
  "(\<And>l. listener_at s l \<Longrightarrow> listener_at s' l) \<Longrightarrow> queues_typed s es \<Longrightarrow> queues_typed s' es"
  unfolding queues_typed_def by blast

lemma em_typed_heap:
  assumes "em_typed s" "heap_typed s'" "em_events s' = em_events s"
    "\<And>l. listener_at s l \<Longrightarrow> listener_at s' l"
  shows "em_typed s'"
  using assms queues_typed_heap [of s s'] by (simp add: em_typed_def)

lemma the_event_listener: "the_event ob \<noteq> None \<Longrightarrow> the_listener ob = None"
  by (cases ob rule: the_event.cases) auto

lemma heap_below: "heap_typed s \<Longrightarrow> o_heap s n \<noteq> None \<Longrightarrow> n < o_next s"
  by (meson heap_typed_def not_le)

interpretation typed: event_frame "\<lambda>s s'. em_typed s \<longrightarrow> em_typed s'"
proof (unfold_locales, goal_cases)
  case (3 ob s)
  show ?case
  proof
    assume t: "em_typed s"
    then show "em_typed (s\<lparr>o_heap := (o_heap s)(o_next s \<mapsto> ob), o_next := Suc (o_next s)\<rparr>)"
      by (rule em_typed_heap) (use t in \<open>auto simp: em_typed_def heap_typed_def listener_at_def\<close>)
  qed
next
  case (4 s n e)
  then have n: "the_listener (o_heap s n) = None" "o_heap s n \<noteq> None"
    using the_event_listener [of "o_heap s n"] by (auto, cases "o_heap s n") auto
  show ?case
  proof
    assume t: "em_typed s"
    then have "n < o_next s" using heap_below [of s n] n(2) by (simp add: em_typed_def)
    from t show "em_typed (s\<lparr>o_heap := (o_heap s)(n \<mapsto> EventObj e)\<rparr>)"
      by (rule em_typed_heap) (use t n \<open>n < o_next s\<close> in \<open>auto simp: em_typed_def heap_typed_def listener_at_def\<close>)
  qed
next
  case (5 s v)
  show ?case by (intro impI, rule em_typed_heap, assumption) (simp_all add: em_typed_def heap_typed_def listener_at_def)
next
  case (6 s v)
  show ?case by (intro impI, rule em_typed_heap, assumption) (simp_all add: em_typed_def heap_typed_def listener_at_def)
qed auto

lemma explode_first: "c \<notin> set (rev acc) \<Longrightarrow> c \<notin> set (explode_loop [c] acc s ! 0)"
  by (induction s arbitrary: acc) (auto simp: is_prefix_def)

lemma attach_event_idem: "attach_event (attach_event t) = attach_event t"
  using explode_first [of "CHR '':''" "[]" t] by (auto simp: attach_event_def Let_def)

lemma throw_typed [simp]: "em_typed s \<Longrightarrow> em_typed (fst (throw_new c m k s))"
  using typed.keeps_throw by blast

lemma queues_typed_upd:
  assumes "queues_typed s es" "k = key_of_str t" "attach_event t = t" "\<forall>l\<in>set (queue_ids q). listener_at s l"
  shows "queues_typed s (arr_upd k q es)"
proof -
  have "set (arr_upd k q es) \<subseteq> insert (k, q) (set es)" by (induction k q es rule: arr_upd.induct) auto
  then show ?thesis using assms unfolding queues_typed_def by (auto)
qed

lemma listener_upd_typed:
  "listener_at s l \<Longrightarrow> listener_at (listener_upd f n s) l"
  "em_events (listener_upd f n s) = em_events s" "o_next (listener_upd f n s) = o_next s"
  "o_heap (listener_upd f n s) l = None \<longleftrightarrow> o_heap s l = None"
  proof -
  show "o_heap (listener_upd f n s) l = None \<longleftrightarrow> o_heap s l = None"
    by (cases "o_heap s n") (auto simp: listener_upd_def split: option.splits)
qed (auto simp: listener_upd_def listener_at_def split: option.splits)

text \<open>The listener object of \<open>attach\<close> lies on the heap, where nothing else changes its kind.\<close>

lemma attach_listener_typed:
  assumes "heap_typed s" "attach_listener h p e s = (l, s')"
  shows "heap_typed s' \<and> em_events s' = em_events s \<and> listener_at s' l \<and>
    (\<forall>n. listener_at s n \<longrightarrow> listener_at s' n)" (is "?P l s'")
proof -
  have new: "?P l s'" if "new_obj (ListenerObj ln) s = (l, s')" for ln
    using that assms(1) by (auto simp: new_obj_def heap_typed_def listener_at_def)
  show ?thesis
  proof (cases "\<exists>n ln. h = ZObj n \<and> the_listener (o_heap s n) = Some ln")
    case True
    then obtain n ln where "h = ZObj n" and ln: "the_listener (o_heap s n) = Some ln" by blast
    then have "l = n" "s' = listener_setEvent n e (listener_setPriority n p s)" using assms(2) by (auto simp: attach_listener_def)
    then show ?thesis using assms(1) ln
      by (simp add: listener_setEvent_def listener_setPriority_def heap_typed_def listener_upd_typed listener_at_def [of s])
  next
    case False
    then have "new_obj (ListenerObj (listener_new h p e)) s = (l, s')"
      using assms(2) by (auto simp: attach_listener_def split: zval.splits option.splits)
    then show ?thesis by (rule new)
  qed
qed

lemma queue_add_ids: "spl_adds ul \<Longrightarrow> set (queue_ids (queue_add ul l p q)) = insert l (set (queue_ids q))"
  by (cases q) (auto simp: queue_add_def spl_adds_set)

lemma attach_typed:
  assumes "spl_adds ul" "em_typed s"
  shows "em_typed (fst (em_attach ul t h p s))"
proof (cases "\<not> is_obj h \<and> \<not> ul_callable ul h")
  case True
  then show ?thesis using assms(2) by (auto simp: em_attach_def)
next
  case False
  define pr where "pr = (case p of None \<Rightarrow> ZLong 100 | Some p \<Rightarrow> p)"
  define e where "e = attach_event t"
  obtain l s' where l: "attach_listener h pr (ZStr e) s = (l, s')" by fastforce
  define es where "es = (case em_events s' of Some es \<Rightarrow> es | None \<Rightarrow> [])"
  define q where "q = (case map_of es (key_of_str e) of Some q \<Rightarrow> q | None \<Rightarrow> if z_true (em_enablePriorities s') then Prio [] else Plain [])"
  have r: "fst (em_attach ul t h p s) = s'\<lparr>em_events := Some (arr_upd (key_of_str e) (queue_add ul l pr q) es)\<rparr>"
    using False by (auto simp: em_attach_def Let_def pr_def [symmetric] e_def [symmetric] l es_def [symmetric] q_def [symmetric])
  have s': "heap_typed s'" "em_events s' = em_events s" "listener_at s' l"
    "\<And>n. listener_at s n \<Longrightarrow> listener_at s' n"
    using attach_listener_typed [OF _ l] assms(2) by (auto simp: em_typed_def)
  have es: "queues_typed s' es"
  proof (cases "em_events s")
    case None
    then show ?thesis by (simp add: es_def s'(2) queues_typed_def)
  next
    case (Some es')
    then show ?thesis using assms(2) queues_typed_heap [of s s', OF s'(4)] by (simp add: es_def s'(2) em_typed_def)
  qed
  have "\<forall>l\<in>set (queue_ids q). listener_at s' l"
    using es by (auto simp: q_def queues_typed_def dest!: map_of_SomeD split: option.splits)
  then have "queues_typed s' (arr_upd (key_of_str e) (queue_add ul l pr q) es)"
    using s'(3) attach_event_idem by (intro queues_typed_upd [OF es refl]) (auto simp: queue_add_ids [OF assms(1)] e_def)
  then show ?thesis using s'(1) by (simp add: r em_typed_def heap_typed_def queues_typed_def)
qed

lemma detach_array_subset: "detach_array s h ls = Some ls' \<Longrightarrow> set ls' \<subseteq> set ls"
  by (induction ls arbitrary: ls') (auto split: option.splits if_splits)

lemma detach_prio_subset:
  assumes "spl_adds ul"
  shows "set (map snd (detach_prio ul s h es)) \<subseteq> set (map snd es)"
proof -
  have "set (map snd (fold (\<lambda>(p, l) q. if dao_is_equal ul (get_listener s l) h then q else ul_spl_insert ul (get_priority s l) l q) es q))
      \<subseteq> set (map snd es) \<union> set (map snd q)" for q
  proof (induction es arbitrary: q)
    case (Cons e es)
    obtain p l where e: "e = (p, l)" by (cases e)
    show ?case using Cons.IH [of q] Cons.IH [of "ul_spl_insert ul (get_priority s l) l q"]
      by (auto simp: e spl_adds_set [OF assms])
  qed simp
  from this [of "[]"] show ?thesis by (simp add: detach_prio_def)
qed

lemma em_typed_events:
  "em_typed s \<Longrightarrow> queues_typed s es \<Longrightarrow> em_typed (s\<lparr>em_events := Some es\<rparr>)"
  by (simp add: em_typed_def heap_typed_def queues_typed_def)

lemma detach_typed:
  assumes "spl_adds ul" "em_typed s"
  shows "em_typed (fst (em_detach ul t h s))"
proof (cases "\<not> is_obj h \<and> \<not> ul_callable ul h")
  case True
  then show ?thesis using assms(2) by (auto simp: em_detach_def)
next
  case ok: False
  show ?thesis
  proof (cases "\<exists>es q. em_events s = Some es \<and> map_of es (key_of_str t) = Some q")
    case True
    then obtain es q where es: "em_events s = Some es" "map_of es (key_of_str t) = Some q" by blast
    then have typed: "queues_typed s es" "(key_of_str t, q) \<in> set es" using assms(2) by (auto simp: em_typed_def map_of_SomeD)
    then obtain u where u: "key_of_str t = key_of_str u" "attach_event u = u"
      and ids: "\<forall>l\<in>set (queue_ids q). listener_at s l" using typed unfolding queues_typed_def by blast
    have upd: "em_typed (s\<lparr>em_events := Some (arr_upd (key_of_str t) q' es)\<rparr>)" if "set (queue_ids q') \<subseteq> set (queue_ids q)" for q'
      using that ids by (intro em_typed_events assms(2) queues_typed_upd [OF typed(1) u]) blast
    show ?thesis
    proof (cases q)
      case (Plain ls)
      then show ?thesis using ok es upd detach_array_subset [of s h ls] assms(2) by (auto simp: em_detach_def split: option.splits)
    next
      case (Prio ps)
      then show ?thesis using ok es upd detach_prio_subset [OF assms(1), of s h ps] assms(2)
        by (auto simp: em_detach_def spl_top_exception_def)
    qed
  next
    case False
    then show ?thesis using ok assms(2) by (auto simp: em_detach_def split: option.splits)
  qed
qed

lemma detachAll_typed: "em_typed s \<Longrightarrow> em_typed (em_detachAll t s)"
  by (auto simp: em_detachAll_def em_typed_def heap_typed_def queues_typed_def distinct_map_filter split: option.splits)

lemma set_typed: "em_typed s \<Longrightarrow> em_typed (em_set_priorities v s) \<and> em_typed (em_set_collect v s)"
  by (intro conjI; rule em_typed_heap, assumption)
     (simp_all add: em_set_priorities_def em_set_collect_def em_typed_def heap_typed_def listener_at_def)

lemma em_exec_typed:
  assumes "spl_adds ul" "\<And>n m as s. em_typed s \<Longrightarrow> em_typed (fst (ul_call ul n m as s))" "em_typed s"
  shows "em_typed (em_exec ul c s)"
proof (cases c)
  case (CFire t src d cn f)
  have "typed.keeps (em_fire ul t src d cn f)" using assms(2) by (intro typed.keeps_fire) (simp add: typed.keeps_def)
  then show ?thesis using assms(3) by (simp add: CFire typed.keeps_def)
qed (use assms in \<open>simp_all add: attach_typed detach_typed detachAll_typed set_typed\<close>)

section \<open>The lists of listeners\<close>

text \<open>The handler of a listener object, and the one that attaching a value means.\<close>

definition lh :: "'z evworld_scheme \<Rightarrow> nat \<Rightarrow> zval option" where
  "lh s n = map_option ln_listener (the_listener (o_heap s n))"

definition handler_of :: "'z evworld_scheme \<Rightarrow> zval \<Rightarrow> zval" where
  "handler_of s h = (case h of ZObj n \<Rightarrow> (case lh s n of Some x \<Rightarrow> x | None \<Rightarrow> h) | _ \<Rightarrow> h)"

lemma get_listener_lh: "get_listener s l = (case lh s l of Some x \<Rightarrow> x | None \<Rightarrow> ZNull)"
  by (simp add: get_listener_def lh_def split: option.splits)

text \<open>A step that leaves the tables and the handlers alone.\<close>

definition quiet :: "'z evworld_scheme \<Rightarrow> 'z evworld_scheme \<Rightarrow> bool" where
  "quiet s s' =
     (heap_typed s \<longrightarrow>
        heap_typed s' \<and> o_next s \<le> o_next s' \<and> em_events s' = em_events s \<and> em_enablePriorities s' = em_enablePriorities s \<and>
        (\<forall>n<o_next s. lh s' n = lh s n))"

lemma the_event_cases: "the_event ob \<noteq> None \<Longrightarrow> the_listener ob = None \<and> ob \<noteq> None"
  by (cases ob rule: the_event.cases) auto

interpretation quiet: event_frame quiet
proof (unfold_locales, goal_cases)
  case (2 s t u)
  then show ?case by (auto simp: quiet_def)
next
  case (4 s n e)
  then have "lh s n = None" "o_heap s n \<noteq> None" using the_event_cases [of "o_heap s n"] by (auto simp: lh_def)
  then show ?case using heap_below [of s n]
    by (auto simp: quiet_def heap_typed_def lh_def not_le)
qed (auto simp: quiet_def heap_typed_def lh_def)

fun queue_handlers :: "'z evworld_scheme \<Rightarrow> equeue \<Rightarrow> zval list" where
  "queue_handlers s (Plain ls) = map (get_listener s) ls"
| "queue_handlers s (Prio es) = map (get_listener s) (map snd es)"

lemma heap_eq:
  assumes "o_heap s' = o_heap s"
  shows "lh s' = lh s" "get_listener s' = get_listener s" "queue_handlers s' = queue_handlers s"
proof -
  show l: "get_listener s' = get_listener s" using assms by (simp add: get_listener_def fun_eq_iff)
  show "queue_handlers s' = queue_handlers s"
  proof
    show "queue_handlers s' q = queue_handlers s q" for q by (cases q) (simp_all add: l)
  qed
  show "lh s' = lh s" using assms by (simp add: lh_def fun_eq_iff)
qed

lemma tables_upd [simp]:
  "lh (s\<lparr>em_events := e\<rparr>) = lh s" "get_listener (s\<lparr>em_events := e\<rparr>) = get_listener s"
  "queue_handlers (s\<lparr>em_events := e\<rparr>) = queue_handlers s"
  "lh (s\<lparr>em_enablePriorities := v\<rparr>) = lh s" "queue_handlers (s\<lparr>em_enablePriorities := v\<rparr>) = queue_handlers s"
  "lh (s\<lparr>em_collect := v\<rparr>) = lh s" "queue_handlers (s\<lparr>em_collect := v\<rparr>) = queue_handlers s"
  by (rule heap_eq; simp)+

definition em_view :: "'z evworld_scheme \<Rightarrow> zkey \<Rightarrow> zval list option" where
  "em_view s k = (case em_events s of None \<Rightarrow> None | Some es \<Rightarrow> map_option (queue_handlers s) (map_of es k))"

definition plain_ok :: "'z evworld_scheme \<Rightarrow> bool" where
  "plain_ok s =
     (heap_typed s \<and> \<not> z_true (em_enablePriorities s) \<and>
      (\<forall>es k q. em_events s = Some es \<longrightarrow> map_of es k = Some q \<longrightarrow> (\<exists>ls. q = Plain ls \<and> (\<forall>l\<in>set ls. lh s l \<noteq> None))))"

lemma lh_below: "heap_typed s \<Longrightarrow> lh s n \<noteq> None \<Longrightarrow> n < o_next s"
  by (rule ccontr) (auto simp: heap_typed_def lh_def)

lemma quiet_view:
  assumes "quiet s s'" "plain_ok s"
  shows "plain_ok s' \<and> em_view s' = em_view s"
proof -
  have h: "heap_typed s'" "em_events s' = em_events s" "em_enablePriorities s' = em_enablePriorities s"
    and lh: "\<And>l. lh s l \<noteq> None \<Longrightarrow> lh s' l = lh s l"
    using assms lh_below [of s] by (auto simp: quiet_def plain_ok_def)
  have ok: "plain_ok s'" using assms(2) h lh unfolding plain_ok_def by (metis (no_types, lifting))
  have "queue_handlers s' q = queue_handlers s q" if q: "em_events s = Some es" "map_of es k = Some q" for es k q
  proof -
    obtain ls where "q = Plain ls" "\<forall>l\<in>set ls. lh s l \<noteq> None" using assms(2) q unfolding plain_ok_def by blast
    then show ?thesis using lh by (auto simp: get_listener_lh simp del: not_None_eq)
  qed
  then have "em_view s' k = em_view s k" for k by (cases "em_events s"; cases "map_of (the (em_events s)) k") (auto simp: em_view_def h(2))
  then show ?thesis using ok by auto
qed

lemma attach_listener_quiet:
  assumes "heap_typed s" "attach_listener h p e s = (l, s')"
  shows "quiet s s' \<and> lh s' l = Some (handler_of s h)"
proof (cases "\<exists>n ln. h = ZObj n \<and> the_listener (o_heap s n) = Some ln")
  case True
  then obtain n ln where h: "h = ZObj n" and ln: "the_listener (o_heap s n) = Some ln" by blast
  then have s': "l = n" "s' = listener_setEvent n e (listener_setPriority n p s)" using assms(2) by (auto simp: attach_listener_def)
  have "lh s' m = lh s m" for m
    using ln by (auto simp: s' listener_setEvent_def listener_setPriority_def listener_upd_def lh_def split: option.splits)
  moreover have "heap_typed s'" "em_events s' = em_events s" "em_enablePriorities s' = em_enablePriorities s" "o_next s' = o_next s"
    using assms(1) by (auto simp: s' listener_setEvent_def listener_setPriority_def heap_typed_def listener_upd_typed)
      (simp_all add: listener_upd_def split: option.splits)
  ultimately show ?thesis using ln h s'(1) by (simp add: quiet_def handler_of_def lh_def)
next
  case False
  then have new: "new_obj (ListenerObj (listener_new h p e)) s = (l, s')"
    using assms(2) by (auto simp: attach_listener_def split: zval.splits option.splits)
  have "handler_of s h = h" using False by (auto simp: handler_of_def lh_def split: zval.splits option.splits)
  then show ?thesis using new assms(1) by (auto simp: new_obj_def quiet_def heap_typed_def lh_def listener_new_def)
qed

lemma view_events: "em_view (s\<lparr>em_events := Some es\<rparr>) k = map_option (queue_handlers s) (map_of es k)"
  by (simp add: em_view_def)

lemma lh_quiet: "quiet s s' \<Longrightarrow> heap_typed s \<Longrightarrow> lh s l \<noteq> None \<Longrightarrow> lh s' l = lh s l"
  using lh_below [of s l] by (simp add: quiet_def)

lemma attach_view:
  assumes "plain_ok s" "is_obj h \<or> ul_callable ul h"
  shows "plain_ok (fst (em_attach ul t h p s)) \<and>
    em_view (fst (em_attach ul t h p s)) =
      (em_view s)(key_of_str (attach_event t) \<mapsto>
         (case em_view s (key_of_str (attach_event t)) of Some hs \<Rightarrow> hs | None \<Rightarrow> []) @ [handler_of s h]) \<and>
    (\<forall>n<o_next s. lh (fst (em_attach ul t h p s)) n = lh s n) \<and> o_next s \<le> o_next (fst (em_attach ul t h p s))"
proof -
  define pr where "pr = (case p of None \<Rightarrow> ZLong 100 | Some p \<Rightarrow> p)"
  define k where "k = key_of_str (attach_event t)"
  obtain l s' where l: "attach_listener h pr (ZStr (attach_event t)) s = (l, s')" by fastforce
  have ty: "heap_typed s" using assms(1) by (simp add: plain_ok_def)
  have q: "quiet s s'" and lhl: "lh s' l = Some (handler_of s h)" using attach_listener_quiet [OF ty l] by auto
  have v: "plain_ok s'" "em_view s' = em_view s" using quiet_view [OF q assms(1)] by auto
  define es where "es = (case em_events s' of Some es \<Rightarrow> es | None \<Rightarrow> [])"
  have np: "\<not> z_true (em_enablePriorities s')" using v(1) by (simp add: plain_ok_def)
  define ls where "ls = (case map_of es k of Some (Plain ls) \<Rightarrow> ls | _ \<Rightarrow> [])"
  have es: "\<exists>ls. q = Plain ls \<and> (\<forall>l\<in>set ls. lh s' l \<noteq> None)" if "map_of es k' = Some q" for k' q
    using v(1) that by (auto simp: plain_ok_def es_def split: option.splits)
  have ls: "(case map_of es k of Some q \<Rightarrow> q | None \<Rightarrow> if z_true (em_enablePriorities s') then Prio [] else Plain []) = Plain ls"
    using es [of k] np by (auto simp: ls_def split: option.splits)
  have r: "fst (em_attach ul t h p s) = s'\<lparr>em_events := Some (arr_upd k (Plain (ls @ [l])) es)\<rparr>"
    using assms(2) by (auto simp: em_attach_def Let_def pr_def [symmetric] k_def [symmetric] l es_def [symmetric] ls queue_add_def)
  have lsok: "\<forall>l\<in>set ls. lh s' l \<noteq> None"
    using es [of k] by (cases "map_of es k") (auto simp: ls_def)
  have "plain_ok (s'\<lparr>em_events := Some (arr_upd k (Plain (ls @ [l])) es)\<rparr>)"
    using v(1) es lsok lhl by (auto simp: plain_ok_def heap_typed_def split: if_splits)
  moreover have "em_view (s'\<lparr>em_events := Some (arr_upd k (Plain (ls @ [l])) es)\<rparr>) k' =
      ((em_view s)(k \<mapsto> (case em_view s k of Some hs \<Rightarrow> hs | None \<Rightarrow> []) @ [handler_of s h])) k'" for k'
  proof -
    have old: "em_view s k' = map_option (queue_handlers s') (map_of es k')" for k'
      by (simp add: v(2) [symmetric] em_view_def es_def split: option.splits)
    have "(case em_view s k of Some hs \<Rightarrow> hs | None \<Rightarrow> []) = map (get_listener s') ls"
      using es [of k] by (auto simp: old ls_def split: option.splits)
    then show ?thesis using lhl by (simp add: view_events old get_listener_lh)
  qed
  ultimately show ?thesis using q ty by (auto simp: r k_def quiet_def)
qed

lemma detach_array_filter: "detach_array s (ZObj m) ls = Some (filter (\<lambda>l. get_listener s l \<noteq> ZObj m) ls)"
  by (induction ls) (auto simp: dao_is_equal_object_def split: zval.splits)

lemma plain_events:
  assumes "plain_ok s" "\<And>k q. map_of es k = Some q \<Longrightarrow> \<exists>ls. q = Plain ls \<and> (\<forall>l\<in>set ls. lh s l \<noteq> None)"
  shows "plain_ok (s\<lparr>em_events := Some es\<rparr>)"
  using assms by (simp add: plain_ok_def heap_typed_def lh_def)

lemma detach_view:
  assumes "plain_ok s" "h = ZObj m"
  shows "plain_ok (fst (em_detach ul t h s)) \<and>
    em_view (fst (em_detach ul t h s)) =
      (case em_view s (key_of_str t) of None \<Rightarrow> em_view s
       | Some hs \<Rightarrow> (em_view s)(key_of_str t \<mapsto> filter (\<lambda>x. x \<noteq> h) hs)) \<and>
    lh (fst (em_detach ul t h s)) = lh s \<and> o_next (fst (em_detach ul t h s)) = o_next s"
proof (cases "\<exists>es q. em_events s = Some es \<and> map_of es (key_of_str t) = Some q")
  case True
  define k where "k = key_of_str t"
  obtain es q where es: "em_events s = Some es" "map_of es k = Some q" using True by (auto simp: k_def)
  then obtain ls where q: "q = Plain ls" and ls: "\<forall>l\<in>set ls. lh s l \<noteq> None" using assms(1) unfolding plain_ok_def by blast
  define es' where "es' = arr_upd k (Plain (filter (\<lambda>l. get_listener s l \<noteq> h) ls)) es"
  have r: "fst (em_detach ul t h s) = s\<lparr>em_events := Some es'\<rparr>"
    using es by (simp add: em_detach_def is_obj_def assms(2) q k_def [symmetric] detach_array_filter es'_def)
  have "plain_ok (s\<lparr>em_events := Some es'\<rparr>)"
    using assms(1) ls es(1) by (intro plain_events) (auto simp: es'_def plain_ok_def split: if_splits)
  moreover have "em_view (s\<lparr>em_events := Some es'\<rparr>) = (em_view s)(k \<mapsto> filter (\<lambda>x. x \<noteq> h) (map (get_listener s) ls))"
    by (rule ext) (auto simp: view_events es'_def em_view_def es(1) filter_map comp_def)
  moreover have "em_view s k = Some (map (get_listener s) ls)" using es q by (simp add: em_view_def)
  ultimately show ?thesis by (simp add: r k_def lh_def fun_eq_iff)
next
  case False
  then have "fst (em_detach ul t h s) = s" "em_view s (key_of_str t) = None"
    by (auto simp: em_detach_def is_obj_def assms(2) em_view_def split: option.splits)
  then show ?thesis using assms(1) by simp
qed

lemma map_of_filter_key: "map_of (filter (\<lambda>(k, q). k \<noteq> k0) es) = (map_of es)(k0 := None)"
  by (induction es) (auto simp: fun_eq_iff)

lemma detachAll_view:
  assumes "plain_ok s"
  shows "plain_ok (em_detachAll t s) \<and>
    em_view (em_detachAll t s) = (case t of None \<Rightarrow> em_view s | Some t \<Rightarrow> (em_view s)(key_of_str t := None)) \<and>
    lh (em_detachAll t s) = lh s \<and> o_next (em_detachAll t s) = o_next s"
proof (cases "t = None \<or> em_events s = None")
  case True
  then show ?thesis using assms by (auto simp: em_detachAll_def em_view_def fun_eq_iff lh_def plain_ok_def heap_typed_def split: option.splits)
next
  case False
  then obtain t' es where t: "t = Some t'" and es: "em_events s = Some es" by auto
  have "plain_ok (s\<lparr>em_events := Some (filter (\<lambda>(k, q). k \<noteq> key_of_str t') es)\<rparr>)"
    using assms es by (intro plain_events) (auto simp: plain_ok_def map_of_filter_key split: if_splits)
  moreover have "em_view (s\<lparr>em_events := Some (filter (\<lambda>(k, q). k \<noteq> key_of_str t') es)\<rparr>) = (em_view s)(key_of_str t' := None)"
    by (rule ext) (auto simp: view_events map_of_filter_key em_view_def es)
  ultimately show ?thesis by (simp add: em_detachAll_def t es lh_def fun_eq_iff)
qed

subsection \<open>Runs\<close>

text \<open>
  The tables as lists of handlers under the keys. Attaching appends, detaching removes every occurrence of
  the object, and \<open>detachAll\<close> needs a name: without one it does nothing.
\<close>

fun lists_exec :: "(zval \<Rightarrow> zval) \<Rightarrow> em_cmd \<Rightarrow> (zkey \<Rightarrow> zval list option) \<Rightarrow> (zkey \<Rightarrow> zval list option)" where
  "lists_exec hd_of (CAttach t h p) m =
     m(key_of_str (attach_event t) \<mapsto> (case m (key_of_str (attach_event t)) of Some hs \<Rightarrow> hs | None \<Rightarrow> []) @ [hd_of h])"
| "lists_exec hd_of (CDetach t h) m =
     (case m (key_of_str t) of None \<Rightarrow> m | Some hs \<Rightarrow> m(key_of_str t \<mapsto> filter (\<lambda>x. x \<noteq> h) hs))"
| "lists_exec hd_of (CDetachAll (Some t)) m = m(key_of_str t := None)"
| "lists_exec hd_of c m = m"

text \<open>Commands that name existing objects as handlers and leave the priorities off.\<close>

fun plain_cmd :: "('z evworld_scheme) userland \<Rightarrow> nat \<Rightarrow> em_cmd \<Rightarrow> bool" where
  "plain_cmd ul n0 (CAttach t h p) = ((is_obj h \<or> ul_callable ul h) \<and> (case h of ZObj n \<Rightarrow> n < n0 | _ \<Rightarrow> True))"
| "plain_cmd ul n0 (CDetach t h) = is_obj h"
| "plain_cmd ul n0 (CPriorities v) = (\<not> z_true v)"
| "plain_cmd ul n0 c = True"

lemma handler_of_same:
  "\<forall>n<n0. lh s' n = lh s n \<Longrightarrow> (case h of ZObj n \<Rightarrow> n < n0 | _ \<Rightarrow> True) \<Longrightarrow> handler_of s' h = handler_of s h"
  by (auto simp: handler_of_def split: zval.splits)

lemma em_exec_lists:
  assumes "\<And>n m as s. quiet s (fst (ul_call ul n m as s))" "plain_ok s" "plain_cmd ul n0 c" "n0 \<le> o_next s"
  shows "plain_ok (em_exec ul c s) \<and> em_view (em_exec ul c s) = lists_exec (handler_of s) c (em_view s) \<and>
    n0 \<le> o_next (em_exec ul c s) \<and> (\<forall>n<n0. lh (em_exec ul c s) n = lh s n)"
proof (cases c)
  case (CAttach t h p)
  then show ?thesis using attach_view [OF assms(2), of h ul t p] assms(3,4) by auto
next
  case (CDetach t h)
  then obtain m where "h = ZObj m" using assms(3) by (auto simp: is_obj_def split: zval.splits)
  then show ?thesis using detach_view [OF assms(2), of h m ul t] assms(4) by (cases "em_view s (key_of_str t)") (simp_all add: CDetach)
next
  case (CDetachAll t)
  then show ?thesis using detachAll_view [OF assms(2), of t] assms(4) by (cases t) simp_all
next
  case (CFire t src d cn f)
  have "quiet.keeps (em_fire ul t src d cn f)" using assms(1) by (intro quiet.keeps_fire) (simp add: quiet.keeps_def)
  then have q: "quiet s (fst (em_fire ul t src d cn f s))" by (simp add: quiet.keeps_def)
  have "heap_typed s" using assms(2) by (simp add: plain_ok_def)
  then show ?thesis using quiet_view [OF q assms(2)] q assms(4) by (auto simp: CFire quiet_def)
next
  case (CPriorities v)
  then have "\<not> z_true v" using assms(3) by simp
  moreover have "em_view (em_set_priorities v s) = em_view s" "lh (em_set_priorities v s) = lh s"
    by (rule ext) (simp_all add: em_view_def em_set_priorities_def split: option.splits)
  ultimately show ?thesis using assms(2,4) by (simp add: CPriorities em_set_priorities_def plain_ok_def heap_typed_def)
next
  case (CCollect v)
  have "em_view (em_set_collect v s) = em_view s" "lh (em_set_collect v s) = lh s"
    by (rule ext) (simp_all add: em_view_def em_set_collect_def split: option.splits)
  then show ?thesis using assms(2,4) by (simp add: CCollect em_set_collect_def plain_ok_def heap_typed_def)
qed

lemma em_run_view:
  assumes "\<And>n m as s. quiet s (fst (ul_call ul n m as s))" "plain_ok s" "\<forall>c\<in>set cs. plain_cmd ul n0 c" "n0 \<le> o_next s"
  shows "plain_ok (em_run ul cs s) \<and> em_view (em_run ul cs s) = fold (lists_exec (handler_of s)) cs (em_view s)"
  using assms(2-4)
proof (induction cs arbitrary: s)
  case (Cons c cs)
  let ?s = "em_exec ul c s"
  have st: "plain_ok ?s" "em_view ?s = lists_exec (handler_of s) c (em_view s)" "n0 \<le> o_next ?s" "\<forall>n<n0. lh ?s n = lh s n"
    using em_exec_lists [OF assms(1) Cons(2), of n0 c] Cons(3,4) by auto
  have "lists_exec (handler_of ?s) c' m = lists_exec (handler_of s) c' m" if "plain_cmd ul n0 c'" for c' m
    using that handler_of_same [OF st(4)] by (cases "(handler_of s, c', m)" rule: lists_exec.cases) auto
  then have "fold (lists_exec (handler_of ?s)) cs m = fold (lists_exec (handler_of s)) cs m" for m
    using Cons(3) by (intro fold_cong) auto
  then show ?case using Cons.IH [OF st(1) _ st(3)] Cons(3) st(2) by (simp add: em_run_def)
qed (simp add: em_run_def)

lemma getListeners_view:
  assumes "plain_ok s"
  shows "em_getListeners t s = (s, Done (case em_view s (key_of_str t) of None \<Rightarrow> [] | Some hs \<Rightarrow> hs))"
proof (cases "\<exists>es q. em_events s = Some es \<and> map_of es (key_of_str t) = Some q")
  case True
  then obtain es q where es: "em_events s = Some es" "map_of es (key_of_str t) = Some q" by blast
  then obtain ls where "q = Plain ls" using assms unfolding plain_ok_def by blast
  then show ?thesis using es by (simp add: em_getListeners_def em_view_def)
next
  case False
  then show ?thesis by (auto simp: em_getListeners_def em_view_def split: option.splits)
qed

section \<open>Listeners by priority\<close>

text \<open>Priorities are integers; the queue has the highest first.\<close>

definition prio_of :: "zval \<Rightarrow> int" where
  "prio_of v = (case v of ZLong n \<Rightarrow> sint n | _ \<Rightarrow> 0)"

definition falling :: "(zval \<times> nat) list \<Rightarrow> bool" where
  "falling es = sorted_wrt (\<lambda>x y. prio_of (fst y) \<le> prio_of (fst x)) es"

definition spl_sorts :: "'s userland \<Rightarrow> bool" where
  "spl_sorts ul = (\<forall>p l q. falling q \<longrightarrow> falling (ul_spl_insert ul p l q))"











lemma key_colon: "CHR '':'' \<in> set t \<Longrightarrow> key_of_str t = KStr t"
proof -
  assume c: "CHR '':'' \<in> set t"
  have "CHR '':'' \<in> set (if t \<noteq> [] \<and> hd t = CHR ''-'' then tl t else t)" using c by (cases t) auto
  moreover have "\<not> is_digit (CHR '':'')" by (simp add: is_digit_def)
  ultimately have "\<not> list_all is_digit (if t \<noteq> [] \<and> hd t = CHR ''-'' then tl t else t)" unfolding list_all_iff by blast
  then show ?thesis by (simp add: key_of_str_def int_key_def)
qed

lemma event_parts:
  assumes "CHR '':'' \<notin> set nm" "CHR '':'' \<notin> set ty"
  shows "explode_loop '':'' [] (nm @ CHR '':'' # ty) = [nm, ty]"
  using explode_loop_split [OF assms(1), of "[]" ty] explode_loop_clean [OF assms(2), of "[]"] by simp


text \<open>Firing an event that only has listeners under its full name calls its queue.\<close>

lemma fire_one:
  assumes "CHR '':'' \<notin> set nm" "CHR '':'' \<notin> set ty" "heap_typed s"
    and "em_events s = Some [(KStr (nm @ CHR '':'' # ty), q)]" "queue_ids q \<noteq> []"
  shows "\<exists>s4 e. em_fire ul (ZStr (nm @ CHR '':'' # ty)) src d c f s = em_notify_all ul (o_next s) ty e False (em_collect s) (queue_ids q) ZNull s4 \<and>
    (\<forall>l. lh s l \<noteq> None \<longrightarrow> get_listener s4 l = get_listener s l) \<and> \<not> z_true (event_isStopped (o_next s) s4) \<and>
    em_responses s4 = (if z_true (em_collect s) then ZNull else em_responses s)"
proof -
  let ?t = "nm @ CHR '':'' # ty"
  define c' where "c' = (case c of None \<Rightarrow> ZBool True | Some ZNull \<Rightarrow> ZBool True | Some c \<Rightarrow> c)"
  define f' where "f' = (case f of None \<Rightarrow> ZBool False | Some ZNull \<Rightarrow> ZBool False | Some f \<Rightarrow> f)"
  define e where "e = (event_construct (ZStr ty) src (case d of None \<Rightarrow> ZNull | Some d \<Rightarrow> d) c' f')\<lparr>ev_name := ZStr nm\<rparr>"
  define s2 where "s2 = s\<lparr>o_heap := (o_heap s)(o_next s \<mapsto> EventObj e), o_next := Suc (o_next s)\<rparr>"
  have create: "em_createEvent ?t src d (Some c') (Some f') s = (s2, Done (o_next s))"
    by (simp add: em_createEvent_def event_parts [OF assms(1,2)] new_obj_def event_setName_def event_upd_def e_def s2_def)
  define s3 where "s3 = s2\<lparr>em_currentEvent := ZObj (o_next s)\<rparr>"
  define s4 where "s4 = (if z_true (em_collect s3) then s3\<lparr>em_responses := ZNull\<rparr> else s3)"
  have keys: "key_of (ZStr nm) \<noteq> Some (KStr ?t)" "key_of (ZStr ?t) = Some (KStr ?t)" "KStr ''*'' \<noteq> KStr ?t"
  proof -
    have t: "nm \<noteq> ?t" "''*'' \<noteq> ?t" "key_of_str ?t = KStr ?t" using key_colon [of ?t] by (auto simp: Cons_eq_append_conv)
    show "key_of (ZStr nm) \<noteq> Some (KStr ?t)" using t(1) by (auto simp: key_of_def key_of_str_def split: if_splits)
    show "key_of (ZStr ?t) = Some (KStr ?t)" "KStr ''*'' \<noteq> KStr ?t" using t(2,3) by (simp_all add: key_of_def)
  qed
  have e2: "the_event (o_heap s2 (o_next s)) = Some e" "ev_name e = ZStr nm" "ev_type e = ZStr ty" by (simp_all add: s2_def e_def event_construct_def)
  have f4: "o_heap s4 = o_heap s2" "em_events s4 = em_events s" "em_events s3 = em_events s" "em_collect s4 = em_collect s"
    by (simp_all add: s4_def s3_def s2_def)
  define r where "r = em_notify_all ul (o_next s) ty e False (em_collect s) (queue_ids q) ZNull s4"
  have q: "em_fireQueue ul q (ZObj (o_next s)) None s4 = r"
    using assms(5) by (cases q) (simp_all add: em_fireQueue_def f4 e2 r_def)
  have k12: "em_fire_key ul (Some (KStr ''*'')) (o_next s) fl ZNull s4 = (s4, Done (Next ZNull))"
    "em_fire_key ul (key_of (ZStr nm)) (o_next s) fl ZNull s4 = (s4, Done (Next ZNull))" for fl
    using keys by (simp_all add: em_fire_key_def f4 assms(4) split: option.split)
  have k3: "andthen (em_fire_key ul (key_of (ZStr ?t)) (o_next s) fl ZNull s4) (\<lambda>v s. (s, Done (verdict_status v))) = r" for fl
    by (cases r; cases "snd r") (auto simp: em_fire_key_def f4 assms(4) keys(2) q verdict_status_def)
  have "em_fire_event ul (ZStr nm) (ZStr ?t) (o_next s) fl s2 = r" for fl
    using k3 [of fl] assms(4) f4(3)
    by (simp add: em_fire_event_def Let_def s3_def [symmetric] s4_def [symmetric] verdict_then_def k12)
  then have fire: "em_fire ul (ZStr ?t) src d c f s = r"
    by (simp add: em_fire_def c'_def [symmetric] f'_def [symmetric] create e2)
  have "get_listener s4 l = get_listener s l" if l: "lh s l \<noteq> None" for l
    using lh_below [OF assms(3) l] by (simp add: get_listener_def f4 s2_def)
  moreover have "\<not> z_true (event_isStopped (o_next s) s4)"
    using e2(1) by (simp add: event_isStopped_def f4 e_def event_construct_def z_true_def)
  moreover have "em_responses s4 = (if z_true (em_collect s) then ZNull else em_responses s)" by (simp add: s4_def s3_def s2_def)
  ultimately show ?thesis using fire [unfolded r_def] by blast
qed

section \<open>Claims\<close>

text \<open>The example of user code: closures, of which 1 answers no and 2 stops the event; the others answer yes.\<close>

fun spl_example :: "zval \<Rightarrow> nat \<Rightarrow> (zval \<times> nat) list \<Rightarrow> (zval \<times> nat) list" where
  "spl_example p l [] = [(p, l)]"
| "spl_example p l ((q, m) # es) = (if prio_of q < prio_of p then (p, l) # (q, m) # es else (q, m) # spl_example p l es)"

definition ul_example :: "evworld userland" where
  "ul_example =
     \<lparr>ul_call = (\<lambda>n m as s. if n = 2 then (case as of ZObj ev # _ \<Rightarrow> event_stop ev s | _ \<Rightarrow> (s, Done ZNull))
                             else (s, Done (ZBool (n \<noteq> 1)))),
      ul_callable = (\<lambda>_. False), ul_closure = (\<lambda>_. True), ul_weakref = (\<lambda>_. False), ul_method = (\<lambda>_ _. False),
      ul_equal = (=), ul_spl_insert = spl_example, ul_str = (\<lambda>_. [])\<rparr>"

definition em_example :: "bool \<Rightarrow> evworld" where
  "em_example prio =
     \<lparr>o_heap = Map.empty, o_next = 10, em_events = None, em_currentEvent = ZNull, em_collect = ZBool True,
      em_enablePriorities = ZBool prio, em_responses = ZNull\<rparr>"

lemma spl_example_ok: "spl_adds (ul\<lparr>ul_spl_insert := spl_example\<rparr>)" "spl_sorts (ul\<lparr>ul_spl_insert := spl_example\<rparr>)"
proof -
  have m: "mset (spl_example p l q) = add_mset (p, l) (mset q)" for p l q
    by (induction p l q rule: spl_example.induct) auto
  show "spl_adds (ul\<lparr>ul_spl_insert := spl_example\<rparr>)" by (simp add: spl_adds_def m)
  have set: "set (spl_example p l q) = insert (p, l) (set q)" for p l q
    using m by (metis set_mset_add_mset_insert set_mset_mset)
  have "falling q \<Longrightarrow> falling (spl_example p l q)" for p l q
    by (induction p l q rule: spl_example.induct) (auto simp: falling_def set)
  then show "spl_sorts (ul\<lparr>ul_spl_insert := spl_example\<rparr>)" by (simp add: spl_sorts_def)
qed

lemma ul_example_spl: "spl_adds ul_example" "spl_sorts ul_example"
proof -
  have "ul_example = ul_example\<lparr>ul_spl_insert := spl_example\<rparr>" by (simp add: ul_example_def)
  then show "spl_adds ul_example" "spl_sorts ul_example" using spl_example_ok [of ul_example] by simp_all
qed

lemma event_stop_frame:
  "em_typed s \<Longrightarrow> em_typed (fst (event_stop n s))" "quiet s (fst (event_stop n s))"
  using typed.event [of s n] typed.keeps_throw quiet.event [of s n] quiet.keeps_throw quiet.refl
  by (auto simp: event_stop_def split: option.splits)

lemma ul_example_calls: "em_typed s \<Longrightarrow> em_typed (fst (ul_call ul_example n m as s))" "quiet s (fst (ul_call ul_example n m as s))"
  using event_stop_frame quiet.refl by (auto simp: ul_example_def split: list.splits zval.splits)

text \<open>
  Along any run of attaching, detaching, firing and setting, with listeners that keep it themselves, the
  tables of the manager stay well typed: distinct keys that are event names in the form attach gives them, and queues of listener objects only.
\<close>

theorem em_run_typed:
  assumes "spl_adds ul" "\<And>n m as s. em_typed s \<Longrightarrow> em_typed (fst (ul_call ul n m as s))" "em_typed s"
  shows "em_typed (em_run ul cs s)"
  using assms(3)
proof (induction cs arbitrary: s)
  case (Cons c cs)
  then show ?case using em_exec_typed [OF assms(1,2)] by (simp add: em_run_def)
qed (simp add: em_run_def)

theorem em_run_typed_witness:
  "em_typed (em_run ul_example [CAttach ''db:*'' (ZObj 1) None, CPriorities (ZBool True), CAttach ''db:query'' (ZObj 2) (Some (ZLong 5)),
     CFire (ZStr ''db:query'') (ZObj 0) None None None, CDetach ''db:query'' (ZObj 2), CDetachAll (Some ''db'')] (em_example False))"
  by (rule em_run_typed [OF ul_example_spl(1) ul_example_calls(1)])
     (simp_all add: em_typed_def heap_typed_def em_example_def)

text \<open>
  C13. With priorities off, listeners that leave the tables alone, and handlers that are objects made before the run (or
  callable values; only objects are detached), any run of \<open>attach\<close>, \<open>detach\<close>, \<open>detachAll\<close> and \<open>fire\<close> is a run on lists of handlers under
  the event names: \<open>attach\<close> appends, under the name without a trailing wildcard, \<open>detach\<close> removes every occurrence of the object,
  \<open>detachAll\<close> forgets one name (and does nothing without a name), and firing, with whatever outcome, changes nothing. \<open>getListeners\<close>
  gives the list of its name.
\<close>

theorem em_run_lists:
  assumes "\<And>n m as s. quiet s (fst (ul_call ul n m as s))" "plain_ok s" "\<forall>c\<in>set cs. plain_cmd ul n0 c" "n0 \<le> o_next s"
  shows "em_getListeners t (em_run ul cs s) = (em_run ul cs s,
     Done (case fold (lists_exec (handler_of s)) cs (em_view s) (key_of_str t) of None \<Rightarrow> [] | Some hs \<Rightarrow> hs))"
  using em_run_view [OF assms] getListeners_view [of "em_run ul cs s" t] by simp

theorem em_run_lists_witness:
  "snd (em_getListeners ''db'' (em_run ul_example [CAttach ''db:*'' (ZObj 1) None, CAttach ''db'' (ZObj 2) None,
     CFire (ZStr ''db:query'') (ZObj 0) None None None, CAttach ''db:'' (ZObj 3) None, CDetach ''db'' (ZObj 2)] (em_example False))) =
     Done [ZObj 1, ZObj 3]"
  using em_run_lists [of ul_example "em_example False" "[CAttach ''db:*'' (ZObj 1) None, CAttach ''db'' (ZObj 2) None,
     CFire (ZStr ''db:query'') (ZObj 0) None None None, CAttach ''db:'' (ZObj 3) None, CDetach ''db'' (ZObj 2)]" 10 "''db''", OF ul_example_calls(2)]
  by (simp add: plain_ok_def heap_typed_def em_example_def is_obj_def z_true_def em_view_def handler_of_def lh_def attach_event_def
      Let_def is_prefix_def key_of_str_def int_key_def is_digit_def)



text \<open>The veto of a listener that is not the last one is lost: \<open>fire\<close> does not hand its flag to \<open>fireQueue\<close>.\<close>

text \<open>
  When two closures are attached to an event and the first answers false, the second is called all the same and its answer is
  what a cancelling \<open>fire\<close> returns, so the veto of the first is lost.
\<close>

theorem em_veto_lost:
  assumes "\<And>n. ul_closure ul n \<and> \<not> ul_weakref ul n" "\<And>n as s. ul_call ul n ''__invoke'' as s = (s, Done (if n = h1 then ZBool False else v))"
    and "h1 \<noteq> h2" "CHR '':'' \<notin> set nm" "CHR '':'' \<notin> set ty"
    and "heap_typed s" "em_events s = Some [(KStr (nm @ CHR '':'' # ty), Plain [l1, l2])]"
    and "lh s l1 = Some (ZObj h1)" "lh s l2 = Some (ZObj h2)"
  shows "snd (em_fire ul (ZStr (nm @ CHR '':'' # ty)) src None None (Some (ZBool True)) s) = Done v"
proof -
  obtain s4 e where fire: "em_fire ul (ZStr (nm @ CHR '':'' # ty)) src None None (Some (ZBool True)) s =
      em_notify_all ul (o_next s) ty e False (em_collect s) [l1, l2] ZNull s4"
    and gl: "\<And>l. lh s l \<noteq> None \<Longrightarrow> get_listener s4 l = get_listener s l" and st: "\<not> z_true (event_isStopped (o_next s) s4)"
    using fire_one [OF assms(4-7), of ul src None None "Some (ZBool True)"] by (simp only: queue_ids.simps list.distinct simp_thms) blast
  define s5 where "s5 = (if z_true (em_collect s) then s4\<lparr>em_responses := responses_add (em_responses s4) (ZBool False)\<rparr> else s4)"
  have "get_listener s l1 = ZObj h1" "get_listener s l2 = ZObj h2" by (simp_all add: get_listener_lh assms(8,9))
  then have s4: "get_listener s4 l1 = ZObj h1" "get_listener s4 l2 = ZObj h2" using gl assms(8,9) by simp_all
  have "get_listener s5 l2 = get_listener s4 l2" "event_isStopped (o_next s) s5 = event_isStopped (o_next s) s4"
    by (simp_all add: s5_def get_listener_def event_isStopped_def)
  then have "get_listener s5 l2 = ZObj h2" "\<not> z_true (event_isStopped (o_next s) s5)" using s4(2) st by simp_all
  then show ?thesis using assms(1-3) s4(1) st
    by (simp add: fire em_notify_def em_handler_def em_invoke_def em_answer_def Let_def s5_def [symmetric])
qed

theorem em_veto_lost_witness:
  "snd (em_fire (ul_example\<lparr>ul_call := \<lambda>n m as s. (s, Done (if n = 1 then ZBool False else ZBool True))\<rparr>)
     (ZStr (''db'' @ CHR '':'' # ''query'')) (ZObj 0) None None (Some (ZBool True))
     ((em_example False)\<lparr>o_heap := [10 \<mapsto> ListenerObj (listener_new (ZObj 1) (ZLong 100) (ZStr ''db:query'')),
        11 \<mapsto> ListenerObj (listener_new (ZObj 3) (ZLong 100) (ZStr ''db:query''))], o_next := 12,
        em_events := Some [(KStr (''db'' @ CHR '':'' # ''query''), Plain [10, 11])]\<rparr>)) = Done (ZBool True)"
  by (rule em_veto_lost [where ?h1.0 = 1 and ?h2.0 = 3 and ?l1.0 = 10 and ?l2.0 = 11])
     (simp_all add: ul_example_def em_example_def heap_typed_def lh_def listener_new_def)

end
