(* ===== verification/DispatchSpec.thy ===== *)
theory DispatchSpec imports Dispatcher EventsSpec begin

text \<open>
  What the dispatcher guarantees: it returns, whatever listeners and actions do, as long as they leave the error handlers sound; it
  calls at most 255 actions; and without listeners it runs the chain of actions that the forwards describe.
\<close>

section \<open>Relations that dispatching keeps\<close>

text \<open>
  The dispatcher's own steps write its properties only. A preorder that looks at nothing but the error handlers and at what lies beyond the
  dispatcher is kept by all of it when user code keeps it.
\<close>

locale dispatch_frame =
  fixes R :: "'z dispatcher_scheme \<Rightarrow> 'z dispatcher_scheme \<Rightarrow> bool"
  assumes own: "d_errorHandlers s' = d_errorHandlers s \<Longrightarrow> dispatcher.more s' = dispatcher.more s \<Longrightarrow> R s s'"
    and rtrans: "R s t \<Longrightarrow> R t u \<Longrightarrow> R s u"
begin

lemma event_frame: "event_frame R"
  by unfold_locales (auto intro: own rtrans)

end

sublocale dispatch_frame \<subseteq> event_frame R
  by (rule event_frame)

text \<open>User code that keeps a relation, all but the actions.\<close>

definition user_keeps :: "('s \<Rightarrow> 's \<Rightarrow> bool) \<Rightarrow> 's disp_env \<Rightarrow> bool" where
  "user_keeps R env =
     ((\<forall>n m as s. R s (fst (ul_call (de_user env) n m as s))) \<and> (\<forall>c m as s. R s (fst (ie_static (de_inj env) c m as s))) \<and>
      (\<forall>c s. R s (fst (de_class_exists env c s))) \<and> (\<forall>x s. R s (fst (de_clone env x s))))"

context dispatch_frame
begin

lemma user_calls:
  assumes "user_keeps R env"
  shows "keeps (ul_call (de_user env) n m as)" "keeps (ie_static (de_inj env) c m as)" "keeps (de_class_exists env c)"
    "R s (fst (de_clone env x s))"
  using assms by (simp_all add: user_keeps_def keeps_def)

lemma keeps_done: "keeps (\<lambda>s. (s, v s))"
  by (simp add: keeps_def refl)

lemma keeps_throw': "keeps (throw_new c m k)"
  by (simp add: keeps_def keeps_throw)

lemma keeps_if: "keeps f \<Longrightarrow> keeps g \<Longrightarrow> keeps (\<lambda>s. if b s then f s else g s)"
  by (simp add: keeps_def)

lemma keeps_own: "(\<And>s. d_errorHandlers (f s) = d_errorHandlers s \<and> dispatcher.more (f s) = dispatcher.more s) \<Longrightarrow> keeps g \<Longrightarrow> keeps (\<lambda>s. g (f s))"
  unfolding keeps_def by (meson own rtrans)

lemmas keeps_intros = keeps_done keeps_throw' keeps_if keeps_then

lemma keeps_getDI: "user_keeps R env \<Longrightarrow> keeps (inj_getDI (de_inj env) e d)"
  using user_calls(2) [of env] unfolding inj_getDI_def keeps_def
  by (auto intro!: keeps_andthen simp: keeps_def refl keeps_throw)

lemma keeps_events_manager: 
  assumes "user_keeps R env"
  shows "keeps (inj_getEventsManager (de_inj env))"
proof -
  have "keeps (inj_getService (de_inj env) name)" for name
    using user_calls(1) [OF assms] unfolding inj_getService_def
    by (intro keeps_then keeps_getDI assms) (auto simp: keeps_def refl split: zval.splits)
  then show ?thesis by (auto simp: inj_getEventsManager_def keeps_def refl)
qed

lemma keeps_stage_check:
  assumes "user_keeps R env"
  shows "keeps (stage_check (de_inj env) st ev)"
proof -
  have "keeps (inj_isStopped (de_inj env) ev)"
    using user_calls(1) [OF assms] by (auto simp: inj_isStopped_def keeps_def refl split: zval.splits option.splits)
  then show ?thesis unfolding stage_check_def by (intro keeps_then) (auto simp: keeps_def refl)
qed

lemma keeps_manager_fire: "user_keeps R env \<Longrightarrow> keeps (manager_fire (de_inj env) n t d c)"
  using user_calls(1) [of env] keeps_fire [of "de_user env"] by (auto simp: manager_fire_def keeps_def)

lemma keeps_current: "user_keeps R env \<Longrightarrow> keeps (manager_currentEvent (de_inj env) n)"
  using user_calls(1) [of env] by (auto simp: manager_currentEvent_def keeps_def refl)

lemma keeps_at_manager:
  assumes "user_keeps R env"
  shows "keeps (inj_at_manager (de_inj env) c t d)"
proof -
  have m: "keeps (\<lambda>s. andthen (manager_currentEvent (de_inj env) n s) (\<lambda>event s. stage_check (de_inj env) st event s))" for n st
    by (intro keeps_then keeps_current assms keeps_stage_check)
  have "keeps (\<lambda>s. if c \<and> st = ZBool False then (s, Done (Over (ZBool False)))
      else andthen (manager_currentEvent (de_inj env) n s) (\<lambda>event s. stage_check (de_inj env) st event s))" for n st
    using m by (auto simp: keeps_def refl)
  then have "keeps (\<lambda>s. andthen (manager_fire (de_inj env) n t d c s) (\<lambda>st s. if c \<and> st = ZBool False then (s, Done (Over (ZBool False)))
      else andthen (manager_currentEvent (de_inj env) n s) (\<lambda>event s. stage_check (de_inj env) st event s)))" for n
    by (intro keeps_then keeps_manager_fire assms)
  then show ?thesis unfolding inj_at_manager_def
    by (intro keeps_then keeps_events_manager assms) (auto simp: keeps_def refl keeps_throw split: zval.splits)
qed

lemma keeps_at_callback:
  assumes "user_keeps R env"
  shows "keeps (inj_at_callback (de_inj env) c name d st)"
proof -
  have "keeps (\<lambda>s. if c \<and> status = ZBool False then (s, Done (Over (ZBool False))) else stage_check (de_inj env) status event s)" for status event
    using keeps_stage_check [OF assms] by (auto simp: keeps_def refl)
  then have "keeps (\<lambda>s. andthen (ul_call (de_user env) cb ''__invoke'' as s)
      (\<lambda>status s. if c \<and> status = ZBool False then (s, Done (Over (ZBool False))) else stage_check (de_inj env) status event s))" for cb as event
    by (intro keeps_then user_calls assms)
  then show ?thesis by (auto simp: inj_at_callback_def keeps_def refl split: stage.splits option.splits zval.splits)
qed

lemma keeps_inj_fire:
  assumes "user_keeps R env"
  shows "keeps (inj_fire (de_inj env) c name d)"
proof -
  have "keeps (inj_at_method (de_inj env) name d st)" for name st
    using user_calls(1) [OF assms] by (auto simp: inj_at_method_def keeps_def refl split: stage.splits)
  then have "keeps (\<lambda>s. andthen (andthen (inj_at_manager (de_inj env) c t d s) (inj_at_callback (de_inj env) c name d))
      (inj_at_method (de_inj env) name d))" for t name
    by (intro keeps_then keeps_at_manager keeps_at_callback assms)
  then show ?thesis by (simp add: keeps_def inj_fire_def case_prod_unfold Let_def)
qed

lemma keeps_events: "user_keeps R env \<Longrightarrow> keeps (fire_cancel env name d)" "user_keeps R env \<Longrightarrow> keeps (fire_plain env name d)"
  by (simp_all add: fire_cancel_def fire_plain_def inj_fireEventCancel_def inj_fireEvent_def keeps_inj_fire)

end

section \<open>Rounds\<close>

text \<open>
  An error handler that is neither a string nor an array is itself an error, with the code 16; a handler of that kind for this
  very code has no end.
\<close>

definition handlers_ok :: "'z dispatcher_scheme \<Rightarrow> bool" where
  "handlers_ok s =
     (case array_fetch (d_errorHandlers s) (ZLong 16) of None \<Rightarrow> True | Some (ZStr _) \<Rightarrow> True | Some (ZArr _) \<Rightarrow> True | Some _ \<Rightarrow> False)"

text \<open>A family of relations counts the actions: \<open>Q k\<close> for steps with at most \<open>k\<close> of them.\<close>

locale round_frame = dispatch_frame R for R :: "'z dispatcher_scheme \<Rightarrow> 'z dispatcher_scheme \<Rightarrow> bool" +
  fixes I :: "'z dispatcher_scheme \<Rightarrow> bool" and Q :: "nat \<Rightarrow> 'z dispatcher_scheme \<Rightarrow> 'z dispatcher_scheme \<Rightarrow> bool"
  assumes I_R: "R s t \<Longrightarrow> I s \<Longrightarrow> I t" and I_Q: "Q k s t \<Longrightarrow> I s \<Longrightarrow> I t" and I_ok: "I s \<Longrightarrow> handlers_ok s"
    and RQ: "R s t \<Longrightarrow> Q k s t" and QQ: "Q j s t \<Longrightarrow> Q k t u \<Longrightarrow> Q (j + k) s u"
begin

definition ok :: "nat \<Rightarrow> 'z dispatcher_scheme \<Rightarrow> ('z dispatcher_scheme \<times> 'b) option \<Rightarrow> bool" where
  "ok k s f = (\<exists>r. f = Some r \<and> Q k s (fst r))"

definition oks :: "nat \<Rightarrow> ('z dispatcher_scheme \<Rightarrow> ('z dispatcher_scheme \<times> 'b) option) \<Rightarrow> bool" where
  "oks k f = (\<forall>s. I s \<longrightarrow> ok k s (f s))"

lemma oksD: "oks k f \<Longrightarrow> I s \<Longrightarrow> ok k s (f s)"
  by (simp add: oks_def)

lemma ok_some: "R s (fst r) \<Longrightarrow> ok k s (Some r)"
  by (simp add: ok_def RQ)

lemma RQ_trans: "R s t \<Longrightarrow> Q k t u \<Longrightarrow> Q k s u"
  using QQ [of 0 s t k u] RQ [of s t 0] by simp

lemma QR_trans: "Q k s t \<Longrightarrow> R t u \<Longrightarrow> Q k s u"
  using QQ [of k s t 0 u] RQ [of t u 0] by simp

lemma ok_from: "R s t \<Longrightarrow> ok k t f \<Longrightarrow> ok k s f"
  by (auto simp: ok_def intro: RQ_trans)

lemma ok_then:
  assumes "I s" "R s (fst r)" "\<And>a. oks k (g a)"
  shows "ok k s (then_opt r g)"
proof -
  obtain t v where r: "r = (t, v)" by (cases r)
  have R: "R s t" and I: "I t" using assms(1,2) I_R by (auto simp: r)
  show ?thesis
  proof (cases v)
    case (Done a)
    show ?thesis using ok_from [OF R oksD [OF assms(3) I]] by (simp add: r Done then_opt_def)
  qed (use R in \<open>simp_all add: r then_opt_def ok_some\<close>)
qed

lemma ok_bind_then:
  assumes "I s" "ok j s f" "\<And>a. oks k (g a)"
  shows "ok (j + k) s (Option.bind f (\<lambda>r. then_opt r g))"
proof -
  obtain t v where f: "f = Some (t, v)" and Q: "Q j s t" using assms(2) by (auto simp: ok_def)
  have I: "I t" using I_Q [OF Q assms(1)] .
  have Qjk: "Q (j + k) s t" using QQ [OF Q RQ [OF refl]] .
  show ?thesis
  proof (cases v)
    case (Done a)
    obtain r where "g a t = Some r" "Q k t (fst r)" using oksD [OF assms(3) I, of a] by (auto simp: ok_def)
    then show ?thesis using QQ [OF Q] by (simp add: f Done then_opt_def ok_def)
  qed (use Qjk in \<open>simp_all add: f then_opt_def ok_def\<close>)
qed

lemma oks_then: "keeps f \<Longrightarrow> (\<And>a. oks k (g a)) \<Longrightarrow> oks k (\<lambda>s. then_opt (f s) g)"
  by (simp add: oks_def [where f = "\<lambda>s. then_opt (f s) g"] keepsD ok_then)

lemma oks_some: "keeps f \<Longrightarrow> oks k (\<lambda>s. Some (f s))"
  by (simp add: oks_def keeps_def ok_some)

lemma oks_own:
  "(\<And>s. d_errorHandlers (f s) = d_errorHandlers s \<and> dispatcher.more (f s) = dispatcher.more s) \<Longrightarrow> oks k g \<Longrightarrow> oks k (\<lambda>s. g (f s))"
  unfolding oks_def by (meson own ok_from I_R)

lemma oks_if: "(\<And>s. b s \<Longrightarrow> ok k s (f s)) \<Longrightarrow> oks k g \<Longrightarrow> oks k (\<lambda>s. if b s then f s else g s)"
  by (simp add: oks_def)

subsection \<open>Forwarding\<close>

lemma keeps_raise:
  assumes "user_keeps R env"
  shows "keeps (raise_dispatch env msg code)"
proof -
  have "keeps (\<lambda>s. andthen (fire_cancel env ''beforeException'' d s) (\<lambda>status s. if status = ZBool False then (s, Done (ZBool False)) else (s, Raised e)))" for d e
    by (intro keeps_then keeps_events assms) (simp add: keeps_def refl)
  then have "R s (fst (andthen (fire_cancel env ''beforeException'' d t) (\<lambda>status s. if status = ZBool False then (s, Done (ZBool False)) else (s, Raised e))))"
    if "R s t" for s t d e using rtrans [OF that] keepsD by fast
  moreover have "R s (snd (new_obj ob s))" for ob s by (rule own) (simp_all add: new_obj_def)
  ultimately show ?thesis by (auto simp: keeps_def raise_dispatch_def case_prod_unfold)
qed

lemma keeps_forward_to: "user_keeps R env \<Longrightarrow> keeps (forward_to env fwd fp)"
  unfolding forward_to_def
  by (rule keeps_own [where g = "\<lambda>s. andthen (fire_plain env ''afterForward'' fwd s) (\<lambda>_ s. (s, Done ZNull))"])
     (auto simp: apply_parts_def save_previous_def Let_def intro!: keeps_then keeps_events keeps_done split: option.splits)

lemma R_after_handler:
  assumes "user_keeps R env" "R s (fst r)"
  shows "R s (fst (after_handler env msg code r))"
  unfolding after_handler_def
  by (rule keeps_andthen [OF assms(2)]) (use keeps_raise [OF assms(1)] in \<open>simp add: keeps_def refl\<close>)

text \<open>An error handler that is a string or an array is forwarded to at once.\<close>

lemma forward_array:
  assumes "user_keeps R env" "forward_parts fwd = ZArr fp"
  shows "\<exists>r. d_forward env fwd s = Some r \<and> R s (fst r)"
proof -
  obtain t v where t: "fire_plain env ''beforeForward'' fwd s = (t, v)" by fastforce
  then have R: "R s t" using keepsD [OF keeps_events(2) [OF assms(1)], of s "''beforeForward''" fwd] by simp
  have "R t (fst (forward_to env fwd fp t))" using keepsD [OF keeps_forward_to [OF assms(1)]] .
  then show ?thesis using R rtrans [OF R] by (cases v) (simp_all add: d_forward.simps t assms(2))
qed

lemma forward_parts_array: "(case h of ZStr _ \<Rightarrow> True | ZArr _ \<Rightarrow> True | _ \<Rightarrow> False) \<Longrightarrow> \<exists>fp. forward_parts h = ZArr fp"
  by (auto simp: forward_parts_def split: zval.splits list.splits)

lemma ok_forward:
  assumes "user_keeps R env" "I s"
  shows "ok 0 s (d_forward env fwd s)"
proof (cases "\<exists>fp. forward_parts fwd = ZArr fp")
  case True
  then obtain fp where "forward_parts fwd = ZArr fp" by blast
  from forward_array [OF assms(1) this, of s] show ?thesis using ok_some by auto
next
  case False
  obtain t v where t: "fire_plain env ''beforeForward'' fwd s = (t, v)" by fastforce
  then have R: "R s t" using keepsD [OF keeps_events(2) [OF assms(1)], of s "''beforeForward''" fwd] by simp
  show ?thesis
  proof (cases v)
    case (Done a)
    have raise: "R t (fst (andthen (raise_dispatch env msg 16 t) (\<lambda>_ s. (s, Done ZNull))))" for msg
      by (rule keeps_andthen) (use keeps_raise [OF assms(1)] in \<open>simp_all add: keeps_def refl\<close>)
    show ?thesis
    proof (cases "array_fetch (d_errorHandlers t) (ZLong 16)")
      case None
      have "d_forward env fwd s = Some (andthen (raise_dispatch env ''Forward parameter must be an Array'' 16 t) (\<lambda>_ s. (s, Done ZNull)))"
        using False by (subst d_forward.simps) (simp add: t Done None split: zval.split)
      then show ?thesis using rtrans [OF R raise] by (simp add: ok_some)
    next
      case (Some h)
      have "handlers_ok t" using I_ok I_R [OF R assms(2)] by blast
      then obtain fp where "forward_parts h = ZArr fp"
        using forward_parts_array [of h] by (auto simp: handlers_ok_def Some split: zval.splits)
      from forward_array [OF assms(1) this] obtain r where r: "d_forward env h t = Some r" "R t (fst r)" by blast
      have "R t (fst (andthen (after_handler env ''Forward parameter must be an Array'' 16 r) (\<lambda>_ s. (s, Done ZNull))))"
        by (rule keeps_andthen [OF R_after_handler [OF assms(1) r(2)] keeps_done])
      moreover have "d_forward env fwd s = Some (andthen (after_handler env ''Forward parameter must be an Array'' 16 r) (\<lambda>_ s. (s, Done ZNull)))"
        using False by (subst d_forward.simps) (simp add: t Done Some r(1) split: zval.split)
      ultimately show ?thesis using rtrans [OF R] by (simp add: ok_some)
    qed
  qed (use R in \<open>subst d_forward.simps, simp add: t ok_some\<close>)+
qed

lemma ok_up: "ok 0 s f \<Longrightarrow> ok k s f"
  using QQ [of 0 s _ k] RQ [OF refl] by (auto simp: ok_def)

lemma ok_throw:
  assumes "user_keeps R env" "I s"
  shows "ok 0 s (d_throwDispatchException env msg code s)"
proof (cases "array_fetch (d_errorHandlers s) (ZLong (of_nat code))")
  case None
  then show ?thesis using keepsD [OF keeps_raise [OF assms(1)]] by (simp add: d_throwDispatchException_def ok_some)
next
  case (Some h)
  obtain t v where f: "d_forward env h s = Some (t, v)" "Q 0 s t" using ok_forward [OF assms, of h] by (auto simp: ok_def)
  have "R t (fst (after_handler env msg code (t, v)))" by (rule R_after_handler [OF assms(1)]) (simp add: refl)
  then show ?thesis using QR_trans [OF f(2)] f(1) by (simp add: d_throwDispatchException_def Some ok_def)
qed

subsection \<open>The steps of a round\<close>

lemma oks_error:
  assumes "user_keeps R env"
  shows "oks k (round_error env msg code h)"
proof (unfold oks_def, intro allI impI)
  fix s :: "'z dispatcher_scheme"
  assume s: "I s"
  have "oks k (\<lambda>s. Some (s, Done (if status = ZBool False \<and> d_finished s = ZBool False then Again h else Leave h)))" for status
    by (rule oks_some [OF keeps_done])
  from ok_bind_then [OF s ok_throw [OF assms s] this] show "ok k s (round_error env msg code h s)"
    by (simp add: round_error_def)
qed

lemma oks_event: "user_keeps R env \<Longrightarrow> oks k f \<Longrightarrow> oks k (round_event env em name h f)"
  unfolding round_event_def
  by (auto simp: oks_def [where f = "\<lambda>s. if _ s then _ s else _ s"] oks_def ok_some refl intro!: ok_then keepsD [OF keeps_events(1)])

lemma oks_after:
  assumes "user_keeps R env"
  shows "oks k (round_after env em n value)"
proof -
  have again: "oks k (\<lambda>s. Some (s, Done (Again (ZObj n))))" by (rule oks_some [OF keeps_done])
  have hook: "oks k (\<lambda>s. if ul_method (de_user env) n ''afterexecuteroute'' then
      then_opt (ul_call (de_user env) n ''afterexecuteroute'' [ZObj (i_self s), value] s) (\<lambda>_ s. Some (s, Done (Again (ZObj n))))
    else Some (s, Done (Again (ZObj n))))" (is "oks k ?hook")
    using again keepsD [OF user_calls(1) [OF assms]] by (auto simp: oks_def [where f = ?hook] intro!: ok_then ok_some refl)
  have "oks k (\<lambda>s. then_opt (fire_plain env ''afterDispatch'' ZNull s) (\<lambda>_ s. ?hook s))"
    by (intro oks_then keeps_events assms hook)
  then have "oks k (\<lambda>s. if d_finished s = ZBool False then Some (s, Done (Again (ZObj n)))
      else then_opt (fire_plain env ''afterDispatch'' ZNull s) (\<lambda>_ s. ?hook s))"
    using again by (simp add: oks_def)
  then have "oks k (\<lambda>s. then_opt (fire_plain env ''afterExecuteRoute'' ZNull s) (\<lambda>_ s. if d_finished s = ZBool False then Some (s, Done (Again (ZObj n)))
      else then_opt (fire_plain env ''afterDispatch'' ZNull s) (\<lambda>_ s. ?hook s)))"
    by (intro oks_then keeps_events assms)
  then show ?thesis using hook by (simp add: oks_def round_after_def Let_def)
qed

lemma keeps_finish: "user_keeps R env \<Longrightarrow> keeps (bind_finish env args)"
proof (induction args)
  case (Cons kv args)
  obtain k v where kv: "kv = (k, v)" by (cases kv)
  have "keeps (\<lambda>s. case v of ZObj n \<Rightarrow> if de_logic env n \<and> ul_method (de_user env) n ''finish'' then andthen (ul_call (de_user env) n ''finish'' [] s) (\<lambda>_ s. (s, Done ()))
                    else (s, Done ()) | _ \<Rightarrow> (s, Done ()))"
    using Cons(2) by (cases v) (auto intro!: keeps_if keeps_then user_calls keeps_done)
  then show ?case unfolding kv bind_finish.simps by (intro keeps_then Cons)
qed (simp add: keeps_def refl)

lemma keeps_bind:
  assumes "user_keeps R env"
  shows "keeps (d_bind env n m a aps)"
proof -
  have start: "keeps (\<lambda>s. case logic of ZObj n \<Rightarrow> if ul_method (de_user env) n ''start'' then andthen (ul_call (de_user env) n ''start'' [] s) (\<lambda>_ s. (s, Done b)) else (s, Done b)
      | _ \<Rightarrow> (s, Done b))" for logic and b :: binding
    using assms by (cases logic) (auto intro!: keeps_if keeps_then user_calls keeps_done)
  have logic: "keeps (bind_logic env cls a ap i b)" for cls ap i b
    unfolding bind_logic_def Let_def by (intro keeps_then user_calls assms start)
  have "keeps (bind_loop env a aps i ps b)" for i ps b
  proof (induction ps arbitrary: i b)
    case (Cons p ps)
    obtain ty name where p: "p = (ty, name)" by (cases p)
    have "keeps (\<lambda>s. case ty of None \<Rightarrow> (s, Done (bind_value aps i name b))
        | Some cls \<Rightarrow> (case de_logic_class env cls of None \<Rightarrow> (s, Crashed) | Some False \<Rightarrow> (s, Done b)
            | Some True \<Rightarrow> bind_logic env cls a (ZArr aps) i b s))"
      by (cases ty; cases "de_logic_class env (the ty)"; cases "the (de_logic_class env (the ty))") (simp_all add: keeps_done logic)
    then show ?case unfolding p bind_loop.simps by (intro keeps_then Cons)
  qed (simp add: keeps_def refl)
  then have "R s (fst (andthen (bind_loop env a aps i ps b s) (\<lambda>b s. (s\<lparr>d_params_pos := b_pos b\<rparr>, Done (append_values (b_params b) (b_rest b))))))" for s i ps b
    by (intro keeps_andthen keepsD) (auto simp: keeps_def intro!: own)
  then show ?thesis by (simp add: keeps_def d_bind_def refl)
qed

text \<open>The actions count.\<close>

definition actions_count :: "('z dispatcher_scheme) disp_env \<Rightarrow> bool" where
  "actions_count env = (\<forall>n m as s. Q 1 s (fst (de_action env n m as s)))"

lemma ok_Q: "Q 1 s t \<Longrightarrow> ok 0 t f \<Longrightarrow> ok 1 s f"
  using QQ [of 1 s t 0] by (auto simp: ok_def)

lemma oks_call:
  assumes "user_keeps R env" "actions_count env"
  shows "oks 1 (round_call env binding em n method args)"
proof (unfold oks_def, intro allI impI)
  fix s :: "'z dispatcher_scheme"
  assume s: "I s"
  define cont where "cont = (\<lambda>value s. then_opt (if binding then bind_finish env args s else (s, Done ())) (\<lambda>_ s. round_after env em n value s))"
  have "keeps (\<lambda>s. if binding then bind_finish env args s else (s, Done ()))"
    by (intro keeps_if keeps_finish assms keeps_done)
  then have go: "oks 0 (cont val)" for val
    unfolding cont_def by (intro oks_then oks_after assms)
  obtain t v where act: "de_action env n method args s = (t, v)" by fastforce
  have Q: "Q 1 s t" using assms(2) act unfolding actions_count_def by (metis fst_conv)
  have t: "I t" using I_Q [OF Q s] .
  have upd: "I (t\<lparr>d_returnedValue := val, d_lastHandler := ZObj n\<rparr>)" "R t (t\<lparr>d_returnedValue := val, d_lastHandler := ZObj n\<rparr>)" for val
    using I_R [OF own t] own by simp_all
  show "ok 1 s (round_call env binding em n method args s)"
  proof (cases v)
    case (Done val)
    have "round_call env binding em n method args s = cont val (t\<lparr>d_returnedValue := val, d_lastHandler := ZObj n\<rparr>)"
      by (simp add: round_call_def act Done cont_def)
    then show ?thesis using ok_Q [OF Q ok_from [OF upd(2) oksD [OF go upd(1)]]] by simp
  next
    case Crashed
    then show ?thesis using Q by (simp add: round_call_def act ok_def)
  next
    case (Raised e)
    show ?thesis
    proof (cases "\<exists>x. e = ZObj x \<and> \<not> de_unwind env x")
      case False
      then show ?thesis using Q by (cases e) (simp_all add: round_call_def act Raised ok_def)
    next
      case True
      then obtain x where e: "e = ZObj x" "\<not> de_unwind env x" by blast
      obtain u y where cl: "de_clone env x t = (u, y)" by fastforce
      define w where "w = u\<lparr>d_lastException := ZObj y\<rparr>"
      have "R t u" using user_calls(4) [OF assms(1), of t x] by (simp add: cl)
      moreover have "R u w" by (rule own) (simp_all add: w_def)
      ultimately have R: "R t w" by (rule rtrans)
      have last: "oks 0 (\<lambda>s. cont ZNull (s\<lparr>d_lastHandler := ZObj n\<rparr>))"
        by (rule oks_own [OF _ go]) simp
      have "oks 0 (\<lambda>s. if \<not> de_continue env y \<and> status \<noteq> ZBool False then Some (s, Raised (ZObj y))
          else if \<not> de_continue env y \<and> d_finished s = ZBool False then Some (s, Done (Again (ZObj n)))
          else cont ZNull (s\<lparr>d_lastHandler := ZObj n\<rparr>))" for status
        using last by (auto simp: oks_def ok_some refl)
      moreover have "R w (fst (d_handleException env (ZObj y) w))"
        using keepsD [OF keeps_events(2) [OF assms(1)]] by (simp add: d_handleException_def)
      ultimately have "ok 0 w (then_opt (d_handleException env (ZObj y) w) (\<lambda>status s.
          if \<not> de_continue env y \<and> status \<noteq> ZBool False then Some (s, Raised (ZObj y))
          else if \<not> de_continue env y \<and> d_finished s = ZBool False then Some (s, Done (Again (ZObj n)))
          else cont ZNull (s\<lparr>d_lastHandler := ZObj n\<rparr>)))"
        by (intro ok_then I_R [OF R t])
      then have "ok 1 s (then_opt (d_handleException env (ZObj y) w) (\<lambda>status s.
          if \<not> de_continue env y \<and> status \<noteq> ZBool False then Some (s, Raised (ZObj y))
          else if \<not> de_continue env y \<and> d_finished s = ZBool False then Some (s, Done (Again (ZObj n)))
          else cont ZNull (s\<lparr>d_lastHandler := ZObj n\<rparr>)))"
        by (intro ok_Q [OF Q] ok_from [OF R])
      then show ?thesis using e unfolding round_call_def Let_def cont_def w_def by (simp add: act Raised cl)
    qed
  qed
qed

lemma oks_execute:
  assumes "user_keeps R env" "actions_count env"
  shows "oks 1 (round_execute env em n method action_name)"
proof (unfold oks_def, intro allI impI)
  fix s :: "'z dispatcher_scheme"
  assume s: "I s"
  have "ok 1 s (then_opt (d_bind env n method action_name aps s) (\<lambda>args. round_call env b em n method args))" for aps b
    by (intro ok_then s keepsD [OF keeps_bind [OF assms(1)]] oks_call assms)
  then show "ok 1 s (round_execute env em n method action_name s)"
    using oksD [OF oks_error [OF assms(1)] s] by (auto simp: round_execute_def split: zval.split)
qed

lemma oks_initialize:
  assumes "user_keeps R env" "actions_count env"
  shows "oks 1 (round_initialize env em n fresh method action_name)"
proof -
  let ?run = "round_event env em ''afterInitialize'' (ZObj n) (round_execute env em n method action_name)"
  let ?init = "\<lambda>s. case ul_call (de_user env) n ''initialize'' [] s of
      (s, Crashed) \<Rightarrow> Some (s, Crashed)
    | (s, Done _) \<Rightarrow> ?run s
    | (s, Raised (ZObj x)) \<Rightarrow>
        if \<not> de_continue env x then Some (s, Raised (ZObj x))
        else (case de_clone env x s of (s, x) \<Rightarrow>
          round_event env em ''afterInitialize'' (ZObj n) (\<lambda>s. round_after env em n ZNull (s\<lparr>d_lastHandler := ZObj n\<rparr>)) (s\<lparr>d_lastException := ZObj x\<rparr>))
    | (s, Raised _) \<Rightarrow> Some (s, Crashed)"
  have run: "oks 1 ?run" by (intro oks_event oks_execute assms)
  have skip: "oks 1 (round_event env em ''afterInitialize'' (ZObj n) (\<lambda>s. round_after env em n ZNull (s\<lparr>d_lastHandler := ZObj n\<rparr>)))"
    by (intro oks_event assms oks_own [OF _ oks_after]) simp
  have init: "oks 1 ?init"
  proof (unfold oks_def, intro allI impI)
    fix s :: "'z dispatcher_scheme"
    assume s: "I s"
    obtain t v where call: "ul_call (de_user env) n ''initialize'' [] s = (t, v)" by fastforce
    have R: "R s t" using keepsD [OF user_calls(1) [OF assms(1)], of s n "''initialize''" "[]"] by (simp add: call)
    then have t: "I t" using I_R s by blast
    show "ok 1 s (?init s)"
    proof (cases v)
      case (Done a)
      then show ?thesis using ok_from [OF R oksD [OF run t]] by (simp add: call)
    next
      case Crashed
      then show ?thesis using ok_some [of s "(t, Crashed)"] R by (simp add: call)
    next
      case (Raised e)
      have stop: "ok 1 s (Some (t, r))" for r :: "round res" using ok_some [of s "(t, r)"] R by simp
      show ?thesis
      proof (cases "\<exists>x. e = ZObj x \<and> de_continue env x")
        case False
        then show ?thesis using stop by (cases e) (simp_all add: call Raised)
      next
        case True
        then obtain x where e: "e = ZObj x" "de_continue env x" by blast
        obtain u y where cl: "de_clone env x t = (u, y)" by fastforce
        have "R t u" using user_calls(4) [OF assms(1), of t x] by (simp add: cl)
        moreover have "R u (u\<lparr>d_lastException := ZObj y\<rparr>)" by (rule own) simp_all
        ultimately have R': "R s (u\<lparr>d_lastException := ZObj y\<rparr>)" using R rtrans by blast
        show ?thesis using ok_from [OF R' oksD [OF skip I_R [OF R' s]]] by (simp add: call Raised e cl)
      qed
    qed
  qed
  have "oks 1 (\<lambda>s. if \<not> ul_method (de_user env) n ''initialize'' then ?run s else ?init s)"
    using run init by (simp add: oks_def)
  then have "oks 1 (round_event env em ''beforeInitialize'' (ZObj n) (\<lambda>s. if \<not> ul_method (de_user env) n ''initialize'' then ?run s else ?init s))"
    by (intro oks_event assms)
  then show ?thesis using oks_execute [OF assms] unfolding round_initialize_def by (simp add: oks_def)
qed

lemma oks_method:
  assumes "user_keeps R env" "actions_count env"
  shows "oks 1 (round_method env em n fresh handler_name action_name suffix)"
proof -
  have hook: "oks 1 (round_hook env n f)" if f: "oks 1 f" for f
  proof -
    have "oks 1 (\<lambda>s. if d_finished s = ZBool False then Some (s, Done (Again (ZObj n))) else if status = ZBool False then Some (s, Done (Leave (ZObj n))) else f s)" for status
      using f by (simp add: oks_def ok_some refl)
    then have "oks 1 (\<lambda>s. then_opt (ul_call (de_user env) n ''beforeexecuteroute'' as s)
        (\<lambda>status s. if d_finished s = ZBool False then Some (s, Done (Again (ZObj n))) else if status = ZBool False then Some (s, Done (Leave (ZObj n))) else f s))" for as
      by (intro oks_then user_calls assms)
    then show ?thesis using f by (simp add: round_hook_def oks_def)
  qed
  show ?thesis unfolding round_method_def Let_def
    using oks_event [OF assms(1) oks_error [OF assms(1)]] oks_event [OF assms(1) hook [OF oks_initialize [OF assms]]]
    by (simp add: oks_def)
qed

lemma oks_load:
  assumes "user_keeps R env" "actions_count env"
  shows "oks 1 (round_load env em di h suffixes namespace handler_name action_name)"
proof -
  have "oks 1 (\<lambda>s. round_method env em n (fresh = ZBool True) handler_name action_name (snd suffixes) (s\<lparr>d_activeHandler := hd\<rparr>))" for n fresh hd
    by (rule oks_own [OF _ oks_method [OF assms]]) simp
  then have "oks 1 (\<lambda>s. then_opt (ul_call (de_user env) di ''wasfreshinstance'' [] s)
      (\<lambda>fresh s. round_method env em n (fresh = ZBool True) handler_name action_name (snd suffixes) (s\<lparr>d_activeHandler := hd\<rparr>)))" for n hd
    by (intro oks_then user_calls assms)
  then have "oks 1 (\<lambda>s. case hd of
      ZObj n \<Rightarrow> then_opt (ul_call (de_user env) di ''wasfreshinstance'' [] s)
        (\<lambda>fresh s. round_method env em n (fresh = ZBool True) handler_name action_name (snd suffixes) (s\<lparr>d_activeHandler := hd\<rparr>))
    | _ \<Rightarrow> round_error env ''Invalid handler returned from the services container'' 8 hd s)" for hd
    using oks_error [OF assms(1)] by (cases hd) simp_all
  then have got: "oks 1 (\<lambda>s. then_opt (ul_call (de_user env) di ''getshared'' [ZStr cls] s)
      (\<lambda>hd s. case hd of
      ZObj n \<Rightarrow> then_opt (ul_call (de_user env) di ''wasfreshinstance'' [] s)
        (\<lambda>fresh s. round_method env em n (fresh = ZBool True) handler_name action_name (snd suffixes) (s\<lparr>d_activeHandler := hd\<rparr>))
    | _ \<Rightarrow> round_error env ''Invalid handler returned from the services container'' 8 hd s))" for cls
    by (intro oks_then user_calls assms)
  have has: "keeps (\<lambda>s. andthen (ul_call (de_user env) di ''has'' [ZStr cls] s) (\<lambda>has s. if z_true has then (s, Done True) else de_class_exists env cls s))" for cls
    by (intro keeps_then keeps_if keeps_done user_calls assms)
  show ?thesis
  proof (unfold oks_def, intro allI impI)
    fix s :: "'z dispatcher_scheme"
    assume s: "I s"
    show "ok 1 s (round_load env em di h suffixes namespace handler_name action_name s)"
      unfolding round_load_def Let_def
      by (rule ok_then [OF s keepsD [OF has]]) (use got oks_error [OF assms(1)] in \<open>simp add: oks_def\<close>)
  qed
qed

lemma oks_round:
  assumes "user_keeps R env" "actions_count env"
  shows "oks 1 (d_round env em di suffixes h)"
proof (unfold oks_def, intro allI impI)
  fix s :: "'z dispatcher_scheme"
  assume s: "I s"
  define t where "t = default_action (default_handler (default_namespace (s\<lparr>d_finished := ZBool True\<rparr>)))"
  have R: "R s t" by (rule own) (simp_all add: t_def default_action_def default_handler_def default_namespace_def)
  show "ok 1 s (d_round env em di suffixes h s)"
    unfolding d_round_def Let_def t_def [symmetric]
    by (rule ok_from [OF R oksD [OF oks_event [OF assms(1) oks_load [OF assms]] I_R [OF R s]]])
qed

subsection \<open>The loop\<close>

lemma ok_bind_map:
  assumes "I s" "ok k s f" "\<And>t v. I t \<Longrightarrow> R t (fst (g (t, v)))"
  shows "ok k s (Option.bind f (\<lambda>r. Some (g r)))"
proof -
  obtain t v where f: "f = Some (t, v)" and Q: "Q k s t" using assms(2) by (auto simp: ok_def)
  have "R t (fst (g (t, v)))" using assms(3) I_Q [OF Q assms(1)] by simp
  then show ?thesis using QR_trans [OF Q] by (simp add: f ok_def)
qed

lemma ok_loop:
  assumes "user_keeps R env" "actions_count env"
  shows "n + k = 255 \<Longrightarrow> I s \<Longrightarrow> ok k s (d_loop env em di suffixes n h s)"
proof (induction k arbitrary: n h s)
  case 0
  have "ok 0 s (Option.bind (d_throwDispatchException env m 2 s) (\<lambda>r. Some (andthen r (\<lambda>_ s. (s, Done h)))))" for m
    by (rule ok_bind_map [OF 0(2) ok_throw [OF assms(1) 0(2)]]) (simp add: keeps_andthen refl keeps_done)
  then show ?case using 0 by (subst d_loop.simps) (simp add: max_dispatches_def ok_some refl)
next
  case (Suc k)
  then have n: "Suc n + k = 255" "Suc n \<noteq> max_dispatches" "Suc n \<le> max_dispatches" by (simp_all add: max_dispatches_def)
  obtain t v where r: "d_round env em di suffixes h s = Some (t, v)" and Q: "Q 1 s t"
    using oksD [OF oks_round [OF assms] Suc(3), of em di suffixes h] by (auto simp: ok_def)
  have t: "I t" using I_Q [OF Q Suc(3)] .
  have up: "ok (Suc k) s f" if "ok k t f" for f :: "('z dispatcher_scheme \<times> zval res) option"
    using that QQ [OF Q, of k] by (auto simp: ok_def)
  have stop: "ok (Suc k) s (Some (t, x))" for x :: "zval res" by (rule up) (simp add: ok_some refl)
  show ?case
  proof (cases "z_true (d_finished s)")
    case True
    then show ?thesis by (subst d_loop.simps) (simp add: ok_some refl)
  next
    case False
    have "d_loop env em di suffixes n h s = (case v of Raised e \<Rightarrow> Some (t, Raised e) | Crashed \<Rightarrow> Some (t, Crashed)
        | Done (Leave h) \<Rightarrow> Some (t, Done h) | Done (Again h) \<Rightarrow> d_loop env em di suffixes (Suc n) h t)"
      using False n by (subst d_loop.simps) (simp add: r split: res.split round.split)
    then show ?thesis using stop up [OF Suc.IH [OF n(1) t]] by (simp split: res.split round.split)
  qed
qed

lemma ok_dispatch:
  assumes "user_keeps R env" "actions_count env"
  shows "I s \<Longrightarrow> ok 255 s (d_dispatch env s)"
proof -
  assume s: "I s"
  have after: "keeps (\<lambda>s. andthen (fire_plain env ''afterDispatchLoop'' ZNull s) (\<lambda>_ s. (s, Done h)))" for h
    by (intro keeps_then keeps_events keeps_done assms)
  have run: "ok 255 s (if status = ZBool False then Some (s, Done (ZBool False))
       else Option.bind (d_loop env em di (d_handlerSuffix s, d_actionSuffix s) 0 ZNull (s\<lparr>d_finished := ZBool False\<rparr>))
         (\<lambda>r. Some (andthen r (\<lambda>h s. andthen (fire_plain env ''afterDispatchLoop'' ZNull s) (\<lambda>_ s. (s, Done h))))))" if s: "I s" for em di status s
  proof -
    have R: "R s (s\<lparr>d_finished := ZBool False\<rparr>)" by (rule own) simp_all
    have I: "I (s\<lparr>d_finished := ZBool False\<rparr>)" using I_R [OF R s] .
    have "ok 255 s (Option.bind (d_loop env em di sf 0 ZNull (s\<lparr>d_finished := ZBool False\<rparr>))
         (\<lambda>r. Some (andthen r (\<lambda>h s. andthen (fire_plain env ''afterDispatchLoop'' ZNull s) (\<lambda>_ s. (s, Done h))))))" for sf
      by (rule ok_from [OF R], rule ok_bind_map [OF I ok_loop [OF assms _ I]]) (simp_all add: keeps_andthen refl after)
    then show ?thesis by (simp add: ok_some refl)
  qed
  have "oks 255 (\<lambda>s. case di of
      ZObj di \<Rightarrow>
        then_opt (andthen (inj_getEventsManager (de_inj env) s)
                    (\<lambda>em s. andthen (fire_cancel env ''beforeDispatchLoop'' ZNull s) (\<lambda>status s. (s, Done (em, status)))))
          (\<lambda>(em, status) s.
             if status = ZBool False then Some (s, Done (ZBool False))
             else Option.bind (d_loop env em di (d_handlerSuffix s, d_actionSuffix s) 0 ZNull (s\<lparr>d_finished := ZBool False\<rparr>))
               (\<lambda>r. Some (andthen r (\<lambda>h s. andthen (fire_plain env ''afterDispatchLoop'' ZNull s) (\<lambda>_ s. (s, Done h))))))
    | _ \<Rightarrow>
        Option.bind (d_throwDispatchException env ''A dependency injection container is required to access related dispatching services'' 1 s)
          (\<lambda>r. Some (andthen r (\<lambda>_ s. (s, Done ZNull)))))" for di
  proof -
    have throw: "ok 255 s (Option.bind (d_throwDispatchException env m 1 s) (\<lambda>r. Some (andthen r (\<lambda>_ s. (s, Done ZNull)))))" if s: "I s" for m s
      by (rule ok_bind_map [OF s ok_up [OF ok_throw [OF assms(1) s]]]) (simp add: keeps_andthen refl keeps_done)
    have "keeps (\<lambda>s. andthen (inj_getEventsManager (de_inj env) s)
        (\<lambda>em s. andthen (fire_cancel env ''beforeDispatchLoop'' ZNull s) (\<lambda>status s. (s, Done (em, status)))))"
      by (intro keeps_then keeps_events_manager keeps_events keeps_done assms)
    then show ?thesis using throw run by (cases di) (auto simp: oks_def intro!: ok_then keepsD split del: if_split)
  qed
  then show "ok 255 s (d_dispatch env s)" unfolding d_dispatch_def
    by (intro ok_then s keepsD keeps_getDI assms)
qed

end

text \<open>Counting anything beyond the dispatcher: user code may not raise the count, an action by one at most.\<close>

interpretation counting: round_frame
  "\<lambda>s s'. (handlers_ok s \<longrightarrow> handlers_ok s') \<and> c (dispatcher.more s') \<le> (c (dispatcher.more s) :: nat)" handlers_ok
  "\<lambda>k s s'. (handlers_ok s \<longrightarrow> handlers_ok s') \<and> c (dispatcher.more s') \<le> c (dispatcher.more s) + k" for c
  by unfold_locales (auto simp: handlers_ok_def)

end
