(* ===== verification/DispatchChain.thy ===== *)
theory DispatchChain imports DispatchSpec begin

text \<open>
  The dispatcher of an application without listeners refines a chain of actions: what runs, in which order, with which names and
  parameters, and how it ends.
\<close>

section \<open>The chain of actions\<close>

text \<open>
  Without listeners the dispatcher runs a chain: a target names a handler, an action and its parameters; the action returns a value and
  possibly where to go next.
\<close>

record target =
  t_namespace :: zval
  t_handler :: zval
  t_action :: zval
  t_params :: zval

record chain_conf =
  cc_namespace :: zval
  cc_handler :: zval
  cc_action :: zval
  cc_class :: "target \<Rightarrow> string"
  cc_method :: "target \<Rightarrow> string"
  cc_object :: "string \<Rightarrow> nat option"
  cc_has :: "nat \<Rightarrow> string \<Rightarrow> bool"


definition with_defaults :: "chain_conf \<Rightarrow> target \<Rightarrow> target" where
  "with_defaults cc t =
     \<lparr>t_namespace = (if z_true (t_namespace t) then t_namespace t else cc_namespace cc),
      t_handler = (if z_true (t_handler t) then t_handler t else cc_handler cc),
      t_action = (if z_true (t_action t) then t_action t else cc_action cc), t_params = t_params t\<rparr>"

definition override :: "(zkey \<times> zval) list \<Rightarrow> target \<Rightarrow> target" where
  "override fp t =
     (let get = (\<lambda>k d. case map_of fp (KStr k) of Some v \<Rightarrow> v | None \<Rightarrow> d)
      in \<lparr>t_namespace = get ''namespace'' (t_namespace t), t_handler = get ''controller'' (get ''task'' (t_handler t)),
          t_action = get ''action'' (t_action t), t_params = get ''params'' (t_params t)\<rparr>)"

type_synonym 'w program = "nat \<Rightarrow> string \<Rightarrow> (zkey \<times> zval) list \<Rightarrow> 'w \<Rightarrow> 'w \<times> zval \<times> (zkey \<times> zval) list option"


definition target_of :: "'z dispatcher_scheme \<Rightarrow> target" where
  "target_of s = \<lparr>t_namespace = d_namespaceName s, t_handler = d_handlerName s, t_action = d_actionName s, t_params = d_params s\<rparr>"

definition conf_of :: "('z dispatcher_scheme) disp_env \<Rightarrow> (string \<Rightarrow> nat option) \<Rightarrow> 'z dispatcher_scheme \<Rightarrow> chain_conf" where
  "conf_of env objects s =
     \<lparr>cc_namespace = d_defaultNamespace s, cc_handler = d_defaultHandler s, cc_action = d_defaultAction s,
      cc_class = (\<lambda>t. d_class_name env (d_camelizeNamespace s) (t_namespace t)
                        (camel_handler (z_true (d_camelizeController s)) (t_handler t)) (d_handlerSuffix s)),
      cc_method = (\<lambda>t. cat_str env (t_action t) @ cat_str env (d_actionSuffix s)), cc_object = objects,
      cc_has = (\<lambda>n m. ul_method (de_user env) n (dao_fast_strtolower m))\<rparr>"

text \<open>
  No listeners: the container has no events manager, the dispatcher has none of its own, no closures and no methods named like events.
\<close>

definition no_listeners :: "('z dispatcher_scheme) disp_env \<Rightarrow> nat \<Rightarrow> nat \<Rightarrow> bool" where
  "no_listeners env di self =
     ((\<forall>m. \<not> ul_method (de_user env) self m) \<and>
      (\<forall>s. ul_call (de_user env) di ''get'' [ZStr ''eventsManager'', ZNull, ZBool True] s = (s, Done ZNull)))"

definition still :: "nat \<Rightarrow> nat \<Rightarrow> 'z dispatcher_scheme \<Rightarrow> bool" where
  "still di self s =
     (i_dependencyInjector s = ZObj di \<and> i_self s = self \<and> \<not> is_obj (i_eventsManager s) \<and> i_eventCallbacks s = [])"




lemma no_manager_found:
  assumes "no_listeners env di self" "still di self s"
  shows "inj_getEventsManager (de_inj env) s = (s, Done ZNull)"
  using assms by (simp add: inj_getEventsManager_def inj_getService_def inj_getDI_def no_listeners_def still_def is_obj_def)

lemma no_fire:
  assumes "no_listeners env di self" "still di self s"
  shows "fire_cancel env name d s = (s, Done ZNull)" "fire_plain env name d s = (s, Done ZNull)"
  using assms no_manager_found [OF assms]
  by (simp_all add: fire_cancel_def fire_plain_def inj_fireEventCancel_def inj_fireEvent_def inj_fire_def case_prod_unfold
      inj_at_manager_def no_listeners_def still_def inj_at_callback_def inj_at_method_def)


section \<open>A round of the chain\<close>

text \<open>What the chain never changes.\<close>

definition same_conf :: "'z dispatcher_scheme \<Rightarrow> 'z dispatcher_scheme \<Rightarrow> bool" where
  "same_conf s t =
     (i_dependencyInjector t = i_dependencyInjector s \<and> i_self t = i_self s \<and> i_eventsManager t = i_eventsManager s \<and>
      i_eventCallbacks t = i_eventCallbacks s \<and> d_logicBinding t = d_logicBinding s \<and> d_errorHandlers t = d_errorHandlers s \<and>
      d_defaultNamespace t = d_defaultNamespace s \<and> d_defaultHandler t = d_defaultHandler s \<and> d_defaultAction t = d_defaultAction s \<and>
      d_camelizeNamespace t = d_camelizeNamespace s \<and> d_camelizeController t = d_camelizeController s \<and>
      d_handlerSuffix t = d_handlerSuffix s \<and> d_actionSuffix t = d_actionSuffix s)"





definition forwarded :: "(zkey \<times> zval) list \<Rightarrow> 'z dispatcher_scheme \<Rightarrow> 'z dispatcher_scheme" where
  "forwarded fp s = apply_parts fp (save_previous s)"

lemma forwarded_simps [simp]:
  "same_conf s (forwarded fp s)" "d_finished (forwarded fp s) = ZBool False" "dispatcher.more (forwarded fp s) = dispatcher.more s"
  "target_of (forwarded fp s) = override fp (target_of s)"
  by (simp_all add: forwarded_def same_conf_def apply_parts_def save_previous_def target_of_def override_def Let_def split: option.splits)


text \<open>The defaults are filled in, and the loop is told it may end.\<close>

definition begun :: "'z dispatcher_scheme \<Rightarrow> 'z dispatcher_scheme" where
  "begun s = default_action (default_handler (default_namespace (s\<lparr>d_finished := ZBool True\<rparr>)))"

lemma begun_simps [simp]:
  "same_conf s (begun s)" "d_finished (begun s) = ZBool True" "dispatcher.more (begun s) = dispatcher.more s"
  "target_of (begun s) = with_defaults (conf_of env objects s) (target_of s)"
  by (simp_all add: begun_def default_action_def default_handler_def default_namespace_def same_conf_def with_defaults_def conf_of_def target_of_def)





section \<open>The loop\<close>


section \<open>An application\<close>

text \<open>
  Two controllers in a container with the number 9: the action \<open>index\<close> of the first one forwards to the action \<open>show\<close> of the
  second. What lies beyond the dispatcher is the log of the actions.
\<close>

definition app_objects :: "string \<Rightarrow> nat option" where
  "app_objects = map_of [(''IndexController'', 1), (''UserController'', 2)]"

definition app_program :: "string list program" where
  "app_program n m as w =
     (w @ [m], ZStr m, if n = 1 then Some [(KStr ''controller'', ZStr ''user''), (KStr ''action'', ZStr ''show'')] else None)"

definition app_user :: "'s userland" where
  "app_user =
     \<lparr>ul_call = (\<lambda>n m as s. (s, Done (if m = ''has'' then ZBool (case as of [ZStr c] \<Rightarrow> app_objects c \<noteq> None | _ \<Rightarrow> False)
        else if m = ''getshared'' then (case as of [ZStr c] \<Rightarrow> (case app_objects c of Some n \<Rightarrow> ZObj n | None \<Rightarrow> ZNull) | _ \<Rightarrow> ZNull)
        else if m = ''wasfreshinstance'' then ZBool False else ZNull))),
      ul_callable = (\<lambda>_. False), ul_closure = (\<lambda>_. False), ul_weakref = (\<lambda>_. False),
      ul_method = (\<lambda>n m. (n, m) \<in> {(1, ''indexaction''), (2, ''showaction'')}), ul_equal = (=),
      ul_spl_insert = (\<lambda>p l q. (p, l) # q), ul_str = (\<lambda>_. [])\<rparr>"

definition app_quiet :: "'s disp_env" where
  "app_quiet =
     \<lparr>de_inj = \<lparr>ie_user = app_user, ie_static = (\<lambda>c m as s. (s, Done ZNull)), ie_class = ''dispatcher'', ie_is_manager = (\<lambda>_. False), ie_is_di = (\<lambda>_. False), ie_describe = (\<lambda>_. [])\<rparr>,
      de_class_exists = (\<lambda>c s. (s, Done False)), de_action = (\<lambda>n m as s. (s, Done ZNull)), de_parameters = (\<lambda>_ _. []),
      de_logic_class = (\<lambda>_. None), de_logic = (\<lambda>_. False), de_continue = (\<lambda>_. False), de_unwind = (\<lambda>_. False), de_clone = (\<lambda>x s. (s, x)), de_is_filter = (\<lambda>_. False)\<rparr>"

definition app_env :: "((string list) dispatcher_scheme) disp_env" where
  "app_env = app_quiet\<lparr>de_action := \<lambda>n m as s.
     (case app_program n m as (dispatcher.more s) of
        (w, v, None) \<Rightarrow> (dispatcher.more_update (\<lambda>_. w) s, Done v)
      | (w, v, Some fp) \<Rightarrow>
          (case d_forward app_quiet (ZArr fp) (dispatcher.more_update (\<lambda>_. w) s) of Some (s, _) \<Rightarrow> (s, Done v) | None \<Rightarrow> (s, Crashed)))\<rparr>"

definition app_state :: "zval \<Rightarrow> zval \<Rightarrow> 'z \<Rightarrow> 'z dispatcher_scheme" where
  "app_state handler errors w =
     \<lparr>o_heap = Map.empty, o_next = 10, em_events = None, em_currentEvent = ZNull, em_collect = ZBool False,
      em_enablePriorities = ZBool False, em_responses = ZNull, i_self = 8, i_manager = 7, i_dependencyInjector = ZObj 9,
      i_eventsManager = ZNull, i_eventCallbacks = [], i_di = ZNull, i_persistent = ZNull, d_activeHandler = ZNull, d_finished = ZBool False, d_forwarded = ZBool False,
      d_moduleName = ZNull, d_namespaceName = ZNull, d_handlerName = handler, d_actionName = ZNull, d_logicBinding = ZBool False,
      d_params = ZArr [], d_params_pos = 0, d_returnedValue = ZNull, d_lastHandler = ZNull, d_defaultModule = ZNull,
      d_defaultNamespace = ZNull, d_defaultHandler = ZStr ''index'', d_defaultAction = ZStr ''index'', d_handlerSuffix = ZStr ''Controller'',
      d_actionSuffix = ZStr ''Action'', d_isExactHandler = ZBool False, d_previousNamespaceName = ZNull, d_previousHandlerName = ZNull,
      d_previousActionName = ZNull, d_previousParams = ZNull, d_camelizeNamespace = ZBool True, d_camelizeController = ZBool True,
      d_errorHandlers = errors, d_lastException = ZNull, \<dots> = w\<rparr>"



lemma app_silent: "no_listeners app_quiet 9 8" "no_listeners app_env 9 8" "still 9 8 (app_state h e w)"
  by (simp_all add: no_listeners_def still_def app_env_def app_quiet_def app_user_def app_state_def is_obj_def)



lemma app_conf: "conf_of app_env app_objects (app_state h e w) =
    \<lparr>cc_namespace = ZNull, cc_handler = ZStr ''index'', cc_action = ZStr ''index'',
     cc_class = (\<lambda>t. d_class_name app_env (ZBool True) (t_namespace t) (camel_handler True (t_handler t)) (ZStr ''Controller'')),
     cc_method = (\<lambda>t. cat_str app_env (t_action t) @ ''Action''), cc_object = app_objects,
     cc_has = (\<lambda>n m. (n, dao_fast_strtolower m) \<in> {(1, ''indexaction''), (2, ''showaction'')})\<rparr>"
proof -
  have "ul_method (de_user app_env) = (\<lambda>n m. (n, m) \<in> {(1, ''indexaction''), (2, ''showaction'')})"
    by (simp add: app_env_def app_quiet_def app_user_def)
  moreover have "cat_str app_env (ZStr x) = x" for x by (simp add: cat_str_def)
  ultimately show ?thesis by (simp add: conf_of_def app_state_def z_true_def)
qed


lemma camel_user: "camel_handler True (ZStr ''user'') = ZStr ''User''"
  by code_simp

lemma app_names:
  "d_class_name app_env c ZNull (ZStr ''Index'') (ZStr ''Controller'') = ''IndexController''"
  "d_class_name app_env c ZNull (ZStr ''User'') (ZStr ''Controller'') = ''UserController''"
  "dao_fast_strtolower ''indexAction'' = ''indexaction''" "dao_fast_strtolower ''showAction'' = ''showaction''"
  by (simp add: d_class_name_def z_true_def cat_str_def, simp add: d_class_name_def z_true_def cat_str_def, code_simp, code_simp)

lemma app_true: "str_true ''user''" "str_true ''show''"
  by (simp_all add: str_true_def)





section \<open>The dispatcher runs the chain\<close>



section \<open>The dispatcher returns\<close>






section \<open>Where the dispatcher goes wrong\<close>

text \<open>
  When the handler of the error 16 is neither a string nor an array, forwarding to what is neither does not end: \<open>forward\<close>
  raises the error, which forwards to that handler, which raises the error again.
\<close>

theorem forward_no_end:
  assumes "no_listeners env di self" "still di self s" "array_fetch (d_errorHandlers s) (ZLong 16) = Some h"
    and "\<And>f. f \<in> {fwd, h} \<Longrightarrow> (case f of ZStr _ \<Rightarrow> False | ZArr _ \<Rightarrow> False | _ \<Rightarrow> True)"
  shows "d_forward env fwd s = None"
proof -
  let ?never = "\<lambda>env' f t y. env' = env \<longrightarrow> t = s \<longrightarrow> f \<in> {fwd, h} \<longrightarrow> False"
  have never: "?never env' f t y" if "d_forward env' f t = Some y" for env' f t y
  proof (rule d_forward.raw_induct [where P = ?never, OF _ that])
    fix forward env' f t y
    assume IH: "\<And>env' f t y. forward env' f t = Some y \<Longrightarrow> ?never env' f t y"
      and body: "(case fire_plain env' ''beforeForward'' f t of
        (s, Done _) \<Rightarrow>
          (case forward_parts f of
             ZArr fp \<Rightarrow> Some (forward_to env' f fp s)
           | _ \<Rightarrow>
               (case array_fetch (d_errorHandlers s) (ZLong 16) of
                  None \<Rightarrow> Some (andthen (raise_dispatch env' ''Forward parameter must be an Array'' 16 s) (\<lambda>_ s. (s, Done ZNull)))
                | Some h \<Rightarrow>
                    Option.bind (forward env' h s)
                      (\<lambda>r. Some (andthen (after_handler env' ''Forward parameter must be an Array'' 16 r) (\<lambda>_ s. (s, Done ZNull))))))
      | (s, Raised e) \<Rightarrow> Some (s, Raised e)
      | (s, Crashed) \<Rightarrow> Some (s, Crashed)) = Some y"
    show "?never env' f t y"
    proof (intro impI)
      assume e: "env' = env" "t = s" "f \<in> {fwd, h}"
      have "Option.bind (forward env h s) (\<lambda>r. Some (andthen (after_handler env ''Forward parameter must be an Array'' 16 r) (\<lambda>_ s. (s, Done ZNull)))) = Some y"
        using body assms(4) [OF e(3)] by (cases f) (simp_all add: e assms(3) no_fire [OF assms(1,2)] forward_parts_def)
      then obtain y' where "forward env h s = Some y'" by (cases "forward env h s") auto
      from IH [OF this] show False by simp
    qed
  qed
  show ?thesis
  proof (rule ccontr)
    assume "d_forward env fwd s \<noteq> None"
    then obtain y where "d_forward env fwd s = Some y" by blast
    from never [OF this] show False by simp
  qed
qed

theorem forward_no_end_witness:
  "d_forward app_quiet (ZLong 1) (app_state ZNull (ZArr [(KInt 16, ZBool True)]) []) = None"
  by (rule forward_no_end [OF app_silent(1,3), of _ _ _ "ZBool True"]) (auto simp: array_fetch_def app_state_def key_of_def)

text \<open>
  An exact controller name can be read once: the first reading gives the name and writes over the stored string, the second
  one gives null.
\<close>

theorem exact_name_once:
  assumes "c \<noteq> []" "hd c \<noteq> CHR 0x5C"
  shows "let s = mvc_setControllerName env (ZStr c) (Some (ZBool True)) s; (s', v) = mvc_getControllerName s
         in v = ZStr c \<and> d_handlerName s' = ZStr (c @ [NUL]) \<and> snd (mvc_getControllerName s') = ZNull"
  using assms by (simp add: mvc_setControllerName_def mvc_getControllerName_def z_true_def cat_str_def backslash_def)

theorem exact_name_once_witness:
  "snd (mvc_getControllerName (fst (mvc_getControllerName
     (mvc_setControllerName app_env (ZStr ''Shop'') (Some (ZBool True)) (app_state ZNull ZNull []))))) = ZNull"
  using exact_name_once [of "''Shop''" app_env "app_state ZNull ZNull []"] by (simp add: case_prod_unfold Let_def)

lemma handler_class_defaults:
  "case d_getHandlerClass env s of (s', cls) \<Rightarrow>
     cls = d_class_name env (d_camelizeNamespace s) (d_namespaceName s') (camel_handler True (d_handlerName s')) (d_handlerSuffix s) \<and>
     d_namespaceName s' = t_namespace (with_defaults (conf_of env objects s) (target_of s)) \<and>
     d_handlerName s' = t_handler (with_defaults (conf_of env objects s) (target_of s))"
  by (simp add: d_getHandlerClass_def Let_def default_handler_def default_namespace_def with_defaults_def conf_of_def target_of_def)

text \<open>
  With camel case for controllers on, or a qualified handler name, the class \<open>getHandlerClass\<close> reports is the one
  \<open>dispatch\<close> looks up for the same names; it fills in the same defaults.
\<close>

theorem handler_class_agrees:
  assumes "z_true (d_camelizeController s) \<or> dao_memnstr_str (t_handler (with_defaults (conf_of env objects s) (target_of s))) backslash"
  shows "case d_getHandlerClass env s of (s', cls) \<Rightarrow>
     cls = cc_class (conf_of env objects s) (with_defaults (conf_of env objects s) (target_of s)) \<and>
     d_namespaceName s' = t_namespace (with_defaults (conf_of env objects s) (target_of s)) \<and>
     d_handlerName s' = t_handler (with_defaults (conf_of env objects s) (target_of s))"
proof -
  define u where "u = with_defaults (conf_of env objects s) (target_of s)"
  have "camel_handler True (t_handler u) = camel_handler (z_true (d_camelizeController s)) (t_handler u)"
    using assms by (auto simp: camel_handler_def u_def [symmetric])
  moreover have "cc_class (conf_of env objects s) u = d_class_name env (d_camelizeNamespace s) (t_namespace u)
      (camel_handler (z_true (d_camelizeController s)) (t_handler u)) (d_handlerSuffix s)" by (simp add: conf_of_def)
  ultimately show ?thesis using handler_class_defaults [of env s objects] by (simp add: u_def [symmetric] case_prod_unfold)
qed

theorem handler_class_agrees_witness:
  "snd (d_getHandlerClass app_env (app_state (ZStr ''user'') ZNull [])) = ''UserController''"
proof -
  have "z_true (d_camelizeController (app_state (ZStr ''user'') ZNull []))" by (simp add: app_state_def z_true_def)
  then show ?thesis
    using handler_class_agrees [of "app_state (ZStr ''user'') ZNull []" app_env app_objects]
    by (simp add: app_conf case_prod_unfold with_defaults_def target_of_def)
       (simp add: app_state_def z_true_def app_true camel_user app_names)
qed

lemma forward_string:
  "\<exists>fp. forward_parts (ZStr f) = ZArr fp \<and> map_of fp (KStr ''namespace'') = None \<and> map_of fp (KStr ''params'') = None"
  by (simp add: forward_parts_def split: list.split)

text \<open>
  Forwarding to a string never changes the namespace, even when the string names a controller with one; the events
  cannot either when nobody listens.
\<close>

theorem forward_keeps_namespace:
  assumes "no_listeners env di self" "still di self s"
  shows "\<exists>t. d_forward env (ZStr f) s = Some (t, Done ZNull) \<and> d_namespaceName t = d_namespaceName s \<and> d_params t = d_params s"
proof -
  obtain fp where fp: "forward_parts (ZStr f) = ZArr fp" "map_of fp (KStr ''namespace'') = None" "map_of fp (KStr ''params'') = None"
    using forward_string by blast
  have still: "still di self (forwarded fp s)" using assms(2) forwarded_simps(1) [of s fp] by (simp add: same_conf_def still_def)
  have "target_of (forwarded fp s) = override fp (target_of s)" by simp
  then have "d_namespaceName (forwarded fp s) = d_namespaceName s" "d_params (forwarded fp s) = d_params s"
    using fp(2,3) unfolding target_of_def override_def Let_def by simp_all
  then show ?thesis
    by (subst d_forward.simps)
       (simp add: no_fire [OF assms] no_fire [OF assms(1) still] fp(1) forward_to_def forwarded_def [symmetric])
qed

theorem forward_keeps_namespace_witness:
  "\<exists>t. d_forward app_env (ZStr (''Shop'' @ backslash @ ''Cart::show'')) (app_state ZNull ZNull []) = Some (t, Done ZNull) \<and> d_namespaceName t = ZNull"
proof -
  have "d_namespaceName (app_state ZNull ZNull []) = ZNull" by (simp add: app_state_def)
  then show ?thesis using forward_keeps_namespace [OF app_silent(2,3), of "''Shop'' @ backslash @ ''Cart::show''" ZNull ZNull "[]"] by auto
qed

text \<open>
  With logic binding on, an argument that is found neither by name nor by number is taken from where the array stands, and comes
  a second time with the rest: a method with one parameter gets the value twice.
\<close>

theorem bind_twice:
  assumes "z_true (d_logicBinding s)" "de_parameters env h m = [(None, nm)]" "d_params_pos s = 0" "j \<noteq> 0" "key_of_str nm \<noteq> KInt j"
  shows "d_bind env h m act [(KInt j, v)] s = (s\<lparr>d_params_pos := 1\<rparr>, Done [(KInt 0, v), (KInt 1, v)])"
  using assms
  by (simp add: d_bind_def bind_value_def bind_put_def bind_step_def arr_unset_def append_values_def next_key_def)

theorem bind_twice_witness:
  "snd (d_bind (app_quiet\<lparr>de_parameters := \<lambda>_ _. [(None, ''page'')]\<rparr>) 1 ''indexAction'' (ZStr ''index'') [(KInt 5, ZStr ''a'')]
     ((app_state ZNull ZNull [])\<lparr>d_logicBinding := ZBool True\<rparr>)) = Done [(KInt 0, ZStr ''a''), (KInt 1, ZStr ''a'')]"
proof -
  have "key_of_str ''page'' \<noteq> KInt 5" by code_simp
  then show ?thesis by (subst bind_twice) (simp_all add: app_state_def z_true_def app_quiet_def)
qed

end
