(* ===== verification/Spec2Isabelle.thy ===== *)
theory Spec2Isabelle
  imports RelPointer MurmurHash BloomFilter CountingBloom ScalingBloom DaoList ListSort MessageQueue MessageThreads
    RouterParams KernelFilter MemoryPool Snowflake Crypt AclRules RbTreeSpec AvlSpec DispatchChain
begin

text \<open>
  Verification of the C core of the Dao framework, a PHP extension written in C (\<open>src/ext\<close>). The extension has two
  layers. \<open>src/ext/kernel\<close> holds data structures and algorithms on raw memory (self-relative pointers, lists, trees,
  pools, filters, queues, hashes, string and route helpers), made so that they can lie in memory that several
  processes map; the directories beside it hold the PHP classes (access control, encryption, escaping, routing,
  dispatching, identifiers, models, views), which keep their state in PHP values and call the kernel. This development models the
  kernel's own algorithms and those classes whose behaviour is decided by their own code rather than by the Zend engine.

  \<^bold>\<open>Conventions.\<close> Definitions keep the names of the C functions; a loop or a branch that a function contains is a
  definition of its own with a short prefix. Machine integers are words of their width, so they wrap as in C; addresses
  are 64 bit words and NULL is 0. A result \<open>None\<close> of a function declared with \<open>partial_function (option)\<close>, or of a
  definition that uses one, means that the C function reads through NULL, leaves its memory or never returns, so every
  theorem that states a result \<open>Some\<close> says that the function returns; there is no fuel. PHP failures (exceptions,
  warnings with a false result) are values of result types. What comes from outside \<open>src/ext\<close> (PHP's libraries, OpenSSL,
  the operating system, floating point, the clock, user callbacks) is an argument of the definitions that use it.

  \<^bold>\<open>Theories.\<close>

  \<^item> \<open>Prelude\<close>: abbreviations for the word types, lemmas on words, lists and maps that several components use.
  \<^item> \<open>RelPointer\<close> (\<open>kernel/memory.h\<close>): pointers stored relative to their own address, with a tag for NULL. Setting and
    getting is the identity for NULL and for any two user-space addresses (below 2^47), which is why the trees and lists
    below keep plain addresses; at a distance of 2^63 it is not.
  \<^item> \<open>MurmurHash\<close> (\<open>kernel/murmurhash.c\<close>): the four hash functions block by block with their tails; known values and the
    injectivity of the mixing steps.
  \<^item> \<open>FilterSpec\<close>: the contract of a membership filter, the locale of add, check and run. \<open>BloomFilter\<close>
    (\<open>kernel/bloomfilter.c\<close>) interprets it, with the file format of save and load; \<open>CountingBloom\<close> and \<open>ScalingBloom\<close>
    (\<open>kernel/countingbloomfilter.c\<close>) are the counters in nibbles over a mapped file and the chain of filters that grows,
    with the protocol of the two sequence numbers that makes a crash detectable as long as \<open>msync\<close> succeeds; a failed
    \<open>msync\<close> is modelled, and a theorem shows what it costs.
  \<^item> \<open>DaoList\<close>, \<open>ListSort\<close> (\<open>kernel/list.c\<close>): the intrusive doubly linked list on memory, every operation refined to the
    operation on the list of nodes, and the bottom-up merge sort, refined to the stable sort.
  \<^item> \<open>QueueSpec\<close>: the contract of a bounded queue. \<open>MessageQueue\<close> (\<open>kernel/message/queue.c\<close>) interprets it: creation with
    its error paths, the ring of free blocks and the ring of messages with positions that wrap, blocking calls,
    destruction. \<open>MessageThreads\<close> runs writers and readers step by step, one atomic access each, in every order.
  \<^item> \<open>PhpValue\<close>, \<open>RouterParams\<close> (\<open>kernel/framework/router.c\<close>, \<open>url.c\<close>): the compiler from routes to regular expressions
    with named parameters, and the inverse that builds a URL from a route.
  \<^item> \<open>KernelFilter\<close> (\<open>kernel/filter.c\<close>, \<open>escaper.c\<close>): character filters, charset detection, escaping for CSS, JavaScript,
    HTML and attributes, and the escaper class.
  \<^item> \<open>MemoryPool\<close> (\<open>kernel/mpool.c\<close>, \<open>mpool.h\<close>): a pool of tagged segments with a bit map, first fit, coalescing, the
    lazily merged free segments, and a client that runs any sequence of calls.
  \<^item> \<open>Snowflake\<close> (\<open>snowflake.c\<close>): identifiers of time, node and sequence, under a clock that is a parameter.
  \<^item> \<open>Crypt\<close> (\<open>crypt.c\<close>): padding and unpadding for six schemes, encryption with a random vector and hooks; the cipher
    is a parameter with the law that decryption undoes encryption, for methods with and without a vector.
  \<^item> \<open>PhpString\<close> (\<open>kernel/string.c\<close>, \<open>kernel/object.c\<close>): the string helpers that the classes below use: case, camelize and its
    inverse, splitting, searching, comparing, the namespace and the class of a qualified name.
  \<^item> \<open>Events\<close>, \<open>EventsSpec\<close> (\<open>events/manager.c\<close>, \<open>event.c\<close>, \<open>listener.c\<close>): the events manager with its table of listeners by
    event type, lists or priority queues, attaching, detaching, firing with answers, vetoes and the stopping of events.
    The code of a listener is the parameter \<open>userland\<close>: it may call the manager, so firing takes the state through it.
  \<^item> \<open>Injectable\<close> (\<open>di/injectable.c\<close>): the base class of all services: container and events manager of an object,
    \<open>fireEvent\<close> and \<open>fireEventCancel\<close> to the manager, the callbacks and the method of the object, in this order.
  \<^item> \<open>Dispatcher\<close>, \<open>DispatchSpec\<close>, \<open>DispatchChain\<close> (\<open>dispatcher.c\<close>, \<open>mvc/dispatcher.c\<close>): the dispatch loop, one definition per
    stage of a round (defaults, class, method, events, hooks, binding of parameters, call, after), forwarding, the names
    of handlers and the exception handlers. The application (which classes and methods exist, what a call of one does to
    the dispatcher) is the parameter \<open>disp_env\<close>.
  \<^item> \<open>Acl\<close>, \<open>AclRules\<close> (\<open>acl/adapter/memory.c\<close>, \<open>acl/adapter.c\<close>): roles, resources, the table of rules keyed by strings,
    the search order of a request, callbacks and the search through inherited roles.
  \<^item> \<open>TreeHeap\<close>, \<open>TreeOps\<close>, \<open>SortedTree\<close>: binary trees with parent links in memory, for both search trees of the kernel. A
    view gives the links of all nodes and a mark for each; \<open>focus v k t x\<close> says that the subtree \<open>t\<close> stands at \<open>x\<close> at the
    end of the path \<open>k\<close>. The lemmas say what rotating, marking, unlinking, replacing and splicing do to it; the locale
    \<open>tree_walk\<close> gives the neighbours of a node, \<open>OrderedSet\<close> the contract of a set kept in the order of its keys.
  \<^item> \<open>RbTree\<close>, \<open>RbHeap\<close>, \<open>RbInsert\<close>, \<open>RbRemove\<close>, \<open>RbTreeOps\<close>, \<open>RbTreeSpec\<close> (\<open>kernel/rbtree.c\<close>, \<open>rbtree.h\<close>): the red-black
    tree on memory with the colour in the low bit of the parent word: definitions, view (\<open>rview\<close>), the two loops that repair
    the colours, removal and traversal, and the interpretation of the contract.
  \<^item> \<open>AvlTree\<close>, \<open>AvlHeap\<close>, \<open>AvlInsert\<close>, \<open>AvlRemove\<close>, \<open>AvlSpec\<close> (\<open>kernel/avltree.c\<close>, \<open>avltree.h\<close>): the AVL tree with balances of
    three bits, the stored height and ends: definitions, view (\<open>aview\<close>) and the single and double rotations, insertion
    with its last unbalanced node, the loop of the removal, and the interpretation of the contract.

  \<^bold>\<open>What is shown.\<close> For every data structure: a well-formedness invariant that all operations keep, and the refinement
  of an abstract value (list, sorted list, multiset of keys, set of keys, queue, disjoint blocks) along any run of
  permitted operations. For the codecs: round trips (escape, pad, save and load, identifier and its parts). For the
  route compiler: what it yields for every route of a grammar. For access control: which rule decides, and that
  no request of a role of the list is granted without an allow (a role that is not in the list gets the default action).
  For the events manager: the lists of listeners that a run of calls leaves, and the order in which priorities are served.
  For the dispatcher: that a dispatch returns whatever the handlers do, because the rounds are counted, and that without
  listeners and hooks it runs exactly the chain of actions that the forwards of the handlers describe. Bounds and wrap-around are stated where the code meets them (32 bit
  positions, nibble counters, sizes near the top of the range). Where the code does not do what it means to, the
  behaviour is stated as a theorem of the model.

  \<^bold>\<open>Not modelled.\<close> Vendored and generated code (lemon, LMDB, libdatrie, r3, lthread, the HTTP parser, thpool, php-async,
  CSV library, scanners and parsers); code whose effect is that of the engine or of another library (object and call
  wrappers, the container of services, loader, image, storage, JWT, Python and session bindings); output of HTML and SQL
  text over PHP arrays. Kernel code that could still follow: the rest of \<open>kernel/string.c\<close> (hashing, case over
  multibyte text, trimming), the date and text classes and the command line dispatcher. Floating point in the sizing formulas is a parameter. Memory ordering
  weaker than sequential consistency is not modelled for the queue. The 32 bit variants of the hashes are left out.
\<close>

end
